(* ===== verification/Prelude.thy ===== *)
theory Prelude
  imports Main "HOL-Library.Word"
begin

text \<open>
  Shared vocabulary of the development: unsigned and signed machine integers written as
  \<open>nat\<close>/\<open>int\<close> with their wrap-around, the checked element access of
  \<^verbatim>\<open>WTF::Vector\<close> (an index past the end calls the overflow handler, which crashes the
  process), the loops over a \<^verbatim>\<open>Vector\<close> that several classes repeat, and the list
  lemmas the component theories share.
\<close>

named_theorems machine_simps \<open>unfolding rules for the fixed-width integer helpers\<close>
named_theorems vec_simps \<open>rules for checked vector access\<close>

subsection \<open>Machine integers\<close>

text \<open>\<^verbatim>\<open>unsigned\<close> (32 bit) as a \<open>nat\<close>: every arithmetic result is reduced.\<close>

definition u32 :: "nat \<Rightarrow> nat" where
  [machine_simps]: "u32 n = n mod 4294967296"

text \<open>\<^verbatim>\<open>x--\<close> on an \<^verbatim>\<open>unsigned\<close>: zero wraps to \<^verbatim>\<open>UINT_MAX\<close>.\<close>

definition u32_dec :: "nat \<Rightarrow> nat" where
  [machine_simps]: "u32_dec n = (if n = 0 then 4294967295 else n - 1)"

text \<open>Conversion of an integer to \<^verbatim>\<open>int\<close> (two's complement, 32 bit).\<close>

definition s32 :: "int \<Rightarrow> int" where
  [machine_simps]: "s32 x = (x + 2147483648) mod 4294967296 - 2147483648"

lemma u32_id [simp]: "n < 4294967296 \<Longrightarrow> u32 n = n"
  by (simp add: u32_def)

lemma u32_less [simp]: "u32 n < 4294967296"
  by (simp add: u32_def)

lemma s32_id [simp]: "\<lbrakk>- 2147483648 \<le> x; x < 2147483648\<rbrakk> \<Longrightarrow> s32 x = x"
  by (simp add: s32_def)

lemma s32_bounds: "- 2147483648 \<le> s32 x \<and> s32 x < 2147483648"
  by (simp add: s32_def)

subsection \<open>Checked vectors\<close>

text \<open>
  \<^verbatim>\<open>Vector::operator[]\<close> with an index that is out of range calls
  \<^verbatim>\<open>CrashOnOverflow::overflowed\<close>; the crash is the \<open>Inl\<close> value.
\<close>

datatype crash = VectorOverflow

type_synonym byte = "8 word"

type_synonym 'a res = "crash + 'a"

definition vec_at :: "'a list \<Rightarrow> nat \<Rightarrow> 'a res" where
  "vec_at xs i = (if i < length xs then Inr (xs ! i) else Inl VectorOverflow)"

definition crashes :: "'a res \<Rightarrow> bool" where
  "crashes r \<longleftrightarrow> (case r of Inl _ \<Rightarrow> True | Inr _ \<Rightarrow> False)"

lemma vec_at_Inr [simp, vec_simps]: "i < length xs \<Longrightarrow> vec_at xs i = Inr (xs ! i)"
  by (simp add: vec_at_def)

lemma crashes_simps [simp]: "crashes (Inl e)" "\<not> crashes (Inr v)"
  by (simp_all add: crashes_def)

lemma crashes_map_sum [simp]: "crashes (map_sum id f r) = crashes r"
  by (cases r) simp_all

text \<open>\<^verbatim>\<open>for (i = first; i < last; ++i) list.append(entries[i])\<close>\<close>

function vec_slice :: "'a list \<Rightarrow> nat \<Rightarrow> nat \<Rightarrow> 'a list res" where
  "vec_slice xs lo hi =
     (if lo < hi
      then (case vec_at xs lo of
              Inl e \<Rightarrow> Inl e
            | Inr x \<Rightarrow> (case vec_slice xs (Suc lo) hi of
                Inl e \<Rightarrow> Inl e | Inr ys \<Rightarrow> Inr (x # ys)))
      else Inr [])"
  by pat_completeness auto
termination
  by (relation "measure (\<lambda>(xs, lo, hi). hi - lo)") auto

declare vec_slice.simps [simp del]

lemma vec_slice_take_drop [vec_simps]:
  "hi \<le> length xs \<Longrightarrow> vec_slice xs lo hi = Inr (take (hi - lo) (drop lo xs))"
proof (induction xs lo hi rule: vec_slice.induct)
  case (1 xs lo hi)
  show ?case
  proof (cases "lo < hi")
    case True
    with "1.prems" have lt: "lo < length xs" by simp
    have "vec_slice xs (Suc lo) hi = Inr (take (hi - Suc lo) (drop (Suc lo) xs))"
      using "1.IH"[OF True] lt "1.prems" by simp
    moreover have "take (hi - lo) (drop lo xs)
        = xs ! lo # take (hi - Suc lo) (drop (Suc lo) xs)"
      using True lt by (metis Cons_nth_drop_Suc Suc_diff_Suc take_Suc_Cons)
    ultimately show ?thesis
      using True lt by (simp add: vec_slice.simps [of xs lo hi])
  next
    case False
    then show ?thesis by (simp add: vec_slice.simps [of xs lo hi])
  qed
qed

text \<open>
  The search loop \<^verbatim>\<open>for (i = 0; i < size; ++i) if (v[i] == x) break;\<close>: the first index
  that holds \<open>x\<close>, or the size.
\<close>

fun first_index :: "'a \<Rightarrow> 'a list \<Rightarrow> nat" where
  "first_index x [] = 0"
| "first_index x (y # ys) = (if y = x then 0 else Suc (first_index x ys))"

lemma first_index_le: "first_index x xs \<le> length xs"
  by (induction xs) auto

lemma first_index_less_iff [simp]: "first_index x xs < length xs \<longleftrightarrow> x \<in> set xs"
  by (induction xs) auto

lemma nth_first_index [simp]: "x \<in> set xs \<Longrightarrow> xs ! first_index x xs = x"
  by (induction xs) auto

lemma first_index_distinct: "\<lbrakk>distinct xs; i < length xs\<rbrakk> \<Longrightarrow> first_index (xs ! i) xs = i"
  by (metis first_index_less_iff nth_eq_iff_index_eq nth_first_index nth_mem)

subsection \<open>Vector insertion and removal\<close>

text \<open>\<^verbatim>\<open>Vector::insert(position, value)\<close> and \<^verbatim>\<open>Vector::remove(position)\<close>.\<close>

definition vec_insert :: "nat \<Rightarrow> 'a \<Rightarrow> 'a list \<Rightarrow> 'a list" where
  "vec_insert i x xs = take i xs @ x # drop i xs"

definition vec_remove :: "nat \<Rightarrow> 'a list \<Rightarrow> 'a list" where
  "vec_remove i xs = take i xs @ drop (Suc i) xs"

lemma length_vec_insert [simp]: "length (vec_insert i x xs) = Suc (length xs)"
  by (simp add: vec_insert_def)

lemma vec_insert_length [simp]: "vec_insert (length xs) x xs = xs @ [x]"
  by (simp add: vec_insert_def)

lemma length_vec_remove [simp]: "i < length xs \<Longrightarrow> length (vec_remove i xs) = length xs - 1"
  by (simp add: vec_remove_def)

lemma vec_remove_eq_Nil_iff [simp]:
  "i < length xs \<Longrightarrow> vec_remove i xs = [] \<longleftrightarrow> length xs = Suc 0"
  using length_vec_remove [of i xs] by (cases "vec_remove i xs") auto

lemma vec_remove_0 [simp]: "vec_remove 0 xs = tl xs"
  by (simp add: vec_remove_def drop_Suc)

lemma set_vec_remove_subset: "set (vec_remove i xs) \<subseteq> set xs"
  by (auto simp: vec_remove_def dest: in_set_takeD in_set_dropD)


lemma set_diff_drop:
  assumes "distinct xs"
  shows "set xs - set (drop n xs) = set (take n xs)"
proof -
  have "set xs = set (take n xs) \<union> set (drop n xs)"
    by (metis append_take_drop_id set_append)
  moreover have "set (take n xs) \<inter> set (drop n xs) = {}"
    using assms by (rule set_take_disj_set_drop_if_distinct) simp
  ultimately show ?thesis by blast
qed

lemma set_vec_remove_distinct:
  assumes "distinct xs" and "i < length xs"
  shows "set (vec_remove i xs) = set xs - {xs ! i}" and "distinct (vec_remove i xs)"
proof -
  have eq: "xs = take i xs @ xs ! i # drop (Suc i) xs"
    by (rule id_take_nth_drop [OF assms(2)])
  then have "distinct (take i xs @ xs ! i # drop (Suc i) xs)" using assms(1) by simp
  moreover have "set xs = set (take i xs) \<union> insert (xs ! i) (set (drop (Suc i) xs))"
    by (subst eq) simp
  ultimately show "set (vec_remove i xs) = set xs - {xs ! i}" "distinct (vec_remove i xs)"
    by (auto simp: vec_remove_def)
qed

end
