(* ===== verification/C_Strings.thy ===== *)
theory C_Strings
  imports Prelude "HOL-Library.Char_ord" "HOL-Library.List_Lexorder" "HOL-Library.Multiset"
begin

text \<open>
  The part of the C library that the NetRider shell is written in: NUL-terminated strings in
  fixed-size buffers, \<^verbatim>\<open>sprintf\<close>, \<^verbatim>\<open>snprintf\<close>,
  \<^verbatim>\<open>strcpy\<close>, \<^verbatim>\<open>strncpy\<close>, \<^verbatim>\<open>strchr\<close>,
  \<^verbatim>\<open>strrchr\<close>, \<^verbatim>\<open>strcmp\<close>, \<^verbatim>\<open>strncmp\<close>
  and arrays.  A C string is the list of its bytes before the terminator.  What the C standard
  leaves undefined (a write past a buffer, an index outside an array, a null pointer that is
  used) is the \<open>Inl\<close> value of a result.
\<close>

named_theorems c_simps \<open>rules that run C string code whose buffers are large enough\<close>

subsection \<open>Undefined behaviour as a value\<close>

datatype ub = BufferOverflow | OutOfBounds | NullPointer | Uninitialised

type_synonym 'a cres = "ub + 'a"

definition bindc :: "'a cres \<Rightarrow> ('a \<Rightarrow> 'b cres) \<Rightarrow> 'b cres" where
  "bindc r f = (case r of Inl e \<Rightarrow> Inl e | Inr x \<Rightarrow> f x)"

lemma bindc_simps [simp]: "bindc (Inl e) f = Inl e" "bindc (Inr x) f = f x"
  by (simp_all add: bindc_def)

lemma bindc_eq_Inr: "bindc r f = Inr y \<longleftrightarrow> (\<exists>x. r = Inr x \<and> f x = Inr y)"
  by (cases r) simp_all

lemma bindc_assoc: "bindc (bindc r f) g = bindc r (\<lambda>x. bindc (f x) g)"
  by (cases r) simp_all

definition defined :: "'a cres \<Rightarrow> bool" where
  "defined r \<longleftrightarrow> (case r of Inl _ \<Rightarrow> False | Inr _ \<Rightarrow> True)"

lemma defined_simps [simp]: "\<not> defined (Inl e)" "defined (Inr x)"
  by (simp_all add: defined_def)

subsection \<open>Strings\<close>

text \<open>The bytes that \<^verbatim>\<open>%s\<close> reads from a \<^verbatim>\<open>std::string\<close>'s \<^verbatim>\<open>c_str()\<close>.\<close>

definition c_str :: "string \<Rightarrow> string" where
  "c_str s = takeWhile (\<lambda>c. c \<noteq> CHR 0x00) s"

lemma length_c_str: "length (c_str s) \<le> length s"
  by (simp add: c_str_def length_takeWhile_le)

text \<open>\<^verbatim>\<open>sprintf(buf, "%s", s)\<close> into a buffer of \<open>cap\<close> bytes: the text and its terminator must fit.\<close>

definition sprintf :: "nat \<Rightarrow> string \<Rightarrow> string cres" where
  "sprintf cap s = (if length s < cap then Inr s else Inl BufferOverflow)"

text \<open>\<^verbatim>\<open>snprintf(buf, n, "%s", s)\<close> with \<open>0 < n\<close>: at most \<open>n - 1\<close> bytes are kept.\<close>

definition snprintf :: "nat \<Rightarrow> nat \<Rightarrow> string \<Rightarrow> string cres" where
  "snprintf cap n s = sprintf cap (take (n - 1) s)"

text \<open>
  \<^verbatim>\<open>strncpy(buf, s, n)\<close> into a buffer of \<open>cap\<close> bytes writes exactly \<open>n\<close> bytes, padded
  with NUL; when \<open>s\<close> has \<open>n\<close> bytes or more no terminator is written, and the
  string read back afterwards runs into whatever follows.
\<close>

definition strncpy :: "nat \<Rightarrow> string \<Rightarrow> nat \<Rightarrow> string cres" where
  "strncpy cap s n = (if cap < n then Inl BufferOverflow
     else if length s < n then Inr s else Inl Uninitialised)"

lemma sprintf_fits [simp, c_simps]: "length s < cap \<Longrightarrow> sprintf cap s = Inr s"
  by (simp add: sprintf_def)

lemma sprintf_overflow [simp, c_simps]: "cap \<le> length s \<Longrightarrow> sprintf cap s = Inl BufferOverflow"
  by (simp add: sprintf_def)

lemma sprintf_eq_Inr: "sprintf cap s = Inr t \<longleftrightarrow> t = s \<and> length s < cap"
  by (auto simp: sprintf_def)

lemma snprintf_fits [simp, c_simps]:
  "\<lbrakk>0 < n; n \<le> cap\<rbrakk> \<Longrightarrow> snprintf cap n s = Inr (take (n - 1) s)"
  by (simp add: snprintf_def sprintf_def)

text \<open>\<^verbatim>\<open>strchr\<close> and \<^verbatim>\<open>strrchr\<close>: the offset of the first or last occurrence, or null.\<close>

definition strchr :: "string \<Rightarrow> char \<Rightarrow> nat option" where
  "strchr s c = (if c \<in> set s then Some (first_index c s) else None)"

definition strrchr :: "string \<Rightarrow> char \<Rightarrow> nat option" where
  "strrchr s c = (if c \<in> set s then Some (length s - 1 - first_index c (rev s)) else None)"

lemma first_index_append: "x \<notin> set ys \<Longrightarrow> first_index x (ys @ x # zs) = length ys"
  by (induction ys) auto

lemma strchr_append [simp, c_simps]: "c \<notin> set s \<Longrightarrow> strchr (s @ c # t) c = Some (length s)"
  by (simp add: strchr_def first_index_append)

lemma strchr_None [simp, c_simps]: "c \<notin> set s \<Longrightarrow> strchr s c = None"
  by (simp add: strchr_def)

lemma strchr_SomeD:
  assumes "strchr s c = Some d"
  shows "d < length s" and "s ! d = c" and "c \<notin> set (take d s)"
    and "s = take d s @ c # drop (Suc d) s"
proof -
  have mem: "c \<in> set s" and d: "d = first_index c s"
    using assms by (auto simp: strchr_def split: if_splits)
  then show lt: "d < length s" and nth: "s ! d = c" by simp_all
  show "c \<notin> set (take d s)"
    unfolding d using mem by (induction s) auto
  show "s = take d s @ c # drop (Suc d) s"
    using id_take_nth_drop [OF lt] nth by simp
qed

lemma strrchr_append [simp, c_simps]: "c \<notin> set t \<Longrightarrow> strrchr (s @ c # t) c = Some (length s)"
proof -
  assume "c \<notin> set t"
  then have "first_index c (rev (s @ c # t)) = length t"
    using first_index_append [of c "rev t" "rev s"] by simp
  then show ?thesis by (simp add: strrchr_def)
qed

lemma strrchr_None [simp, c_simps]: "c \<notin> set s \<Longrightarrow> strrchr s c = None"
  by (simp add: strrchr_def)

subsection \<open>Comparison\<close>

text \<open>\<^verbatim>\<open>strcmp\<close> compares the bytes as \<^verbatim>\<open>unsigned char\<close>; the terminator compares as 0.\<close>

fun strcmp :: "string \<Rightarrow> string \<Rightarrow> int" where
  "strcmp [] [] = 0"
| "strcmp [] (b # bs) = - of_char b"
| "strcmp (a # as) [] = of_char a"
| "strcmp (a # as) (b # bs) = (if a = b then strcmp as bs else of_char a - of_char b)"

definition strncmp :: "string \<Rightarrow> string \<Rightarrow> nat \<Rightarrow> int" where
  "strncmp a b n = strcmp (take n a) (take n b)"

definition c_string :: "string \<Rightarrow> bool" where
  "c_string s \<longleftrightarrow> CHR 0x00 \<notin> set s"

lemma c_string_simps [simp]:
  "c_string []" "c_string (c # s) \<longleftrightarrow> c \<noteq> CHR 0x00 \<and> c_string s"
  "c_string (s @ t) \<longleftrightarrow> c_string s \<and> c_string t"
  by (auto simp: c_string_def)

lemma of_char_nat_int: "(of_char c :: int) = int (of_char c)"
  by (rule of_nat_of_char [symmetric])

lemma of_char_pos: "c \<noteq> CHR 0x00 \<Longrightarrow> (0 :: nat) < of_char c"
proof (rule ccontr)
  assume "c \<noteq> CHR 0x00" and "\<not> (0 :: nat) < of_char c"
  then have "(of_char c :: nat) = of_char (CHR 0x00)" by simp
  then have "c = CHR 0x00" by (simp only: of_char_eq_iff)
  with \<open>c \<noteq> CHR 0x00\<close> show False by simp
qed

lemma strcmp_pos_iff:
  "\<lbrakk>c_string a; c_string b\<rbrakk> \<Longrightarrow> 0 < strcmp a b \<longleftrightarrow> b < a"
proof (induction a b rule: strcmp.induct)
  case (2 b bs)
  then show ?case using of_char_pos [of b] of_char_nat_int [of b] by simp
next
  case (3 a as)
  then show ?case using of_char_pos [of a] of_char_nat_int [of a] by simp
next
  case (4 a as b bs)
  then show ?case by (auto simp: less_char_def of_char_nat_int)
qed simp

lemma strcmp_eq_0_iff [simp]: "\<lbrakk>c_string a; c_string b\<rbrakk> \<Longrightarrow> strcmp a b = 0 \<longleftrightarrow> a = b"
proof (induction a b rule: strcmp.induct)
  case (2 b bs)
  then show ?case using of_char_pos [of b] of_char_nat_int [of b] by simp
next
  case (3 a as)
  then show ?case using of_char_pos [of a] of_char_nat_int [of a] by simp
qed auto

lemma strcmp_refl [simp]: "strcmp a a = 0"
  by (induction a) simp_all

subsection \<open>Arrays\<close>

definition arr_at :: "'a list \<Rightarrow> int \<Rightarrow> 'a cres" where
  "arr_at a i = (if 0 \<le> i \<and> i < int (length a) then Inr (a ! nat i) else Inl OutOfBounds)"

definition arr_put :: "'a list \<Rightarrow> int \<Rightarrow> 'a \<Rightarrow> 'a list cres" where
  "arr_put a i v = (if 0 \<le> i \<and> i < int (length a) then Inr (a[nat i := v]) else Inl OutOfBounds)"

lemma arr_at_in [simp, c_simps]: "\<lbrakk>0 \<le> i; i < int (length a)\<rbrakk> \<Longrightarrow> arr_at a i = Inr (a ! nat i)"
  by (simp add: arr_at_def)

lemma arr_put_in [simp, c_simps]:
  "\<lbrakk>0 \<le> i; i < int (length a)\<rbrakk> \<Longrightarrow> arr_put a i v = Inr (a[nat i := v])"
  by (simp add: arr_put_def)

lemma arr_out [simp, c_simps]:
  "int (length a) \<le> i \<Longrightarrow> arr_at a i = Inl OutOfBounds"
  "int (length a) \<le> i \<Longrightarrow> arr_put a i v = Inl OutOfBounds"
  "i < 0 \<Longrightarrow> arr_at a i = Inl OutOfBounds"
  "i < 0 \<Longrightarrow> arr_put a i v = Inl OutOfBounds"
  by (simp_all add: arr_at_def arr_put_def)

subsection \<open>Numbers\<close>

text \<open>\<^verbatim>\<open>sprintf(buf, "%i", n)\<close> and \<^verbatim>\<open>atoi\<close> (without leading blanks).\<close>

definition digit :: "nat \<Rightarrow> char" where
  "digit d = char_of (48 + d)"

fun dec_nat :: "nat \<Rightarrow> string" where
  "dec_nat n = (if n < 10 then [digit n] else dec_nat (n div 10) @ [digit (n mod 10)])"

declare dec_nat.simps [simp del]

definition dec_int :: "int \<Rightarrow> string" where
  "dec_int i = (if i < 0 then CHR ''-'' # dec_nat (nat (- i)) else dec_nat (nat i))"

definition is_digit :: "char \<Rightarrow> bool" where
  "is_digit c \<longleftrightarrow> 48 \<le> (of_char c :: nat) \<and> (of_char c :: nat) \<le> 57"

definition digits_value :: "string \<Rightarrow> nat" where
  "digits_value s = foldl (\<lambda>acc c. acc * 10 + (of_char c - 48)) 0 s"

definition atoi :: "string \<Rightarrow> int" where
  "atoi s = (case s of
     [] \<Rightarrow> 0
   | c # t \<Rightarrow>
      if c = CHR ''-'' then - int (digits_value (takeWhile is_digit t))
      else if c = CHR ''+'' then int (digits_value (takeWhile is_digit t))
      else int (digits_value (takeWhile is_digit s)))"

lemma of_char_digit: "d < 10 \<Longrightarrow> (of_char (digit d) :: nat) = 48 + d"
  by (simp add: digit_def of_char_of)

lemma is_digit_digit [simp]: "d < 10 \<Longrightarrow> is_digit (digit d)"
  by (simp add: is_digit_def of_char_digit)

lemma is_digit_dec_nat: "c \<in> set (dec_nat n) \<Longrightarrow> is_digit c"
proof (induction n rule: dec_nat.induct)
  case (1 n)
  then show ?case
    by (cases "n < 10") (auto simp: dec_nat.simps [of n])
qed

lemma dec_nat_ne [simp]: "dec_nat n \<noteq> []"
  by (subst dec_nat.simps) simp

lemma digits_value_snoc: "digits_value (s @ [c]) = digits_value s * 10 + (of_char c - 48)"
  by (simp add: digits_value_def)

lemma digits_value_dec_nat: "digits_value (dec_nat n) = n"
proof (induction n rule: dec_nat.induct)
  case (1 n)
  show ?case
  proof (cases "n < 10")
    case True
    then show ?thesis by (simp add: dec_nat.simps [of n] digits_value_def of_char_digit)
  next
    case False
    then show ?thesis
      using "1.IH" by (simp add: dec_nat.simps [of n] digits_value_snoc of_char_digit)
  qed
qed

lemma takeWhile_dec_nat: "takeWhile is_digit (dec_nat n) = dec_nat n"
  by (rule takeWhile_eq_all_conv [THEN iffD2]) (blast intro: is_digit_dec_nat)

lemma not_is_digit [simp]: "\<not> is_digit CHR ''-''" "\<not> is_digit CHR ''+''" "\<not> is_digit CHR 0x00"
  "\<not> is_digit CHR '' ''" "\<not> is_digit CHR '':''"
  by (simp_all add: is_digit_def)

lemma atoi_dec_int: "atoi (dec_int i) = i"
proof (cases "i < 0")
  case True
  then show ?thesis
    by (simp add: atoi_def dec_int_def takeWhile_dec_nat digits_value_dec_nat)
next
  case False
  obtain c t where ct: "dec_nat (nat i) = c # t" by (cases "dec_nat (nat i)") auto
  then have "is_digit c" using is_digit_dec_nat [of c "nat i"] by simp
  then have "c \<noteq> CHR ''-''" "c \<noteq> CHR ''+''" by auto
  then show ?thesis
    using False ct takeWhile_dec_nat [of "nat i"] digits_value_dec_nat [of "nat i"]
    by (simp add: atoi_def dec_int_def)
qed

lemma dec_nat_inject [simp]: "dec_nat m = dec_nat n \<longleftrightarrow> m = n"
  by (metis digits_value_dec_nat)

lemma c_string_dec_nat [simp]: "c_string (dec_nat n)"
  unfolding c_string_def using is_digit_dec_nat [of "CHR 0x00" n] by auto

lemma length_dec_nat: "n < 10 ^ k \<Longrightarrow> 0 < k \<Longrightarrow> length (dec_nat n) \<le> k"
proof (induction k arbitrary: n)
  case (Suc k)
  show ?case
  proof (cases "n < 10")
    case True
    then show ?thesis by (simp add: dec_nat.simps [of n])
  next
    case False
    then have k: "0 < k" using Suc.prems(1) by (cases k) auto
    have "n div 10 < 10 ^ k" using Suc.prems(1) by (simp add: div_less_iff_less_mult mult.commute)
    from Suc.IH [OF this k] False show ?thesis by (simp add: dec_nat.simps [of n])
  qed
qed simp

end
