(* ===== verification/NetRider_State.thy ===== *)
theory NetRider_State
  imports C_Strings
begin

text \<open>
  The state of the NetRider shell (\<^verbatim>\<open>Tools/netrider/netrider.h\<close>): the
  \<^verbatim>\<open>GUI\<close> object with its fixed-size history and bookmark tables and its array of
  tabs, one \<^verbatim>\<open>HtmlBrowser\<close> per tab, and the calls the shell makes on the WebKit2
  C API, in order.  Drawing calls leave no trace in the state.  The theory also holds the
  helpers that most callbacks share (\<^verbatim>\<open>get_url\<close>, \<^verbatim>\<open>loadURL\<close>,
  \<^verbatim>\<open>checkurl\<close>) and the well-formedness invariant of the state.
\<close>

definition MAXVIEWS :: nat where "MAXVIEWS = 600"
definition MAXHISTORY :: nat where "MAXHISTORY = 100"
definition MAXBOOKMARKS :: nat where "MAXBOOKMARKS = 512"

lemmas table_sizes = MAXVIEWS_def MAXHISTORY_def MAXBOOKMARKS_def

record url_text =
  ut_name :: string
  ut_uri :: string

text \<open>The calls on a page, on a policy listener or on a download; the first argument is the tab.\<close>

datatype wk_call =
    WKPageLoadURL int string
  | WKPageStopLoading int
  | WKPageReload int
  | WKPageGoBack int
  | WKPageGoForward int
  | WKPageFindString int string nat
  | WKFramePolicyListenerUse
  | WKFramePolicyListenerDownload
  | WKFramePolicyListenerIgnore
  | WKDownloadCancel "nat option"
  | NIXViewSendKeyEvent int int
  | WKPageGetScrollPosForFrame int

record html_browser =
  tabtitle :: string
  downloadfilename :: string
  bytesdownloaded :: nat
  download_ref :: "nat option"
  savetargetas :: bool
  currenturl :: string
  currenttitle :: string
  loc_value :: string
  search_value :: string

definition HtmlBrowser :: html_browser where
  "HtmlBrowser = \<lparr>tabtitle = [], downloadfilename = [], bytesdownloaded = 0, download_ref = None,
     savetargetas = False, currenturl = [], currenttitle = [], loc_value = [], search_value = []\<rparr>"

text \<open>A tab's \<^verbatim>\<open>Fl_Group\<close>: its address and its label.\<close>

record fl_group =
  grp_addr :: nat
  grp_label :: string

record gui =
  win_label :: string
  stat_bar :: string
  browserwin :: "html_browser option list"
  BrowserGroup :: "fl_group option list"
  webviews :: "bool list"
  lasttab :: int
  currenttab :: int
  URL :: "url_text list"
  bookmarks :: "url_text list"
  findtext :: string
  startpage :: string
  current_language :: string
  prefs_written :: bool
  wk_calls :: "wk_call list"

definition empty_entry :: url_text where
  "empty_entry = \<lparr>ut_name = [], ut_uri = []\<rparr>"

text \<open>\<^verbatim>\<open>GUI::GUI\<close>: null tabs, empty tables; the statics start at 0.\<close>

definition GUI :: gui where
  "GUI = \<lparr>win_label = [], stat_bar = [],
     browserwin = replicate MAXVIEWS None, BrowserGroup = replicate MAXVIEWS None,
     webviews = replicate MAXVIEWS False,
     lasttab = 0, currenttab = 0,
     URL = replicate MAXHISTORY empty_entry, bookmarks = replicate MAXBOOKMARKS empty_entry,
     findtext = [], startpage = [], current_language = [], prefs_written = False, wk_calls = []\<rparr>"

text \<open>
  \<^verbatim>\<open>BrowserTabs::ConstructTab\<close>: a new group (at address \<open>addr\<close>) and its browser behind
  the last one; \<^verbatim>\<open>GUI::create_layout\<close> makes the first tab and the \<^verbatim>\<open>+\<close> tab.
\<close>

definition ConstructTab :: "nat \<Rightarrow> string \<Rightarrow> gui \<Rightarrow> (int \<times> gui) cres" where
  "ConstructTab addr text g =
     (let currentnr = lasttab g + 1; g1 = g\<lparr>lasttab := currentnr\<rparr> in
      bindc (arr_put (BrowserGroup g1) currentnr (Some \<lparr>grp_addr = addr, grp_label = text\<rparr>)) (\<lambda>gs.
      bindc (arr_put (browserwin g1) currentnr (Some HtmlBrowser)) (\<lambda>bs.
      Inr (currentnr, g1\<lparr>BrowserGroup := gs, browserwin := bs\<rparr>))))"

definition create_layout :: "nat \<Rightarrow> nat \<Rightarrow> gui \<Rightarrow> gui cres" where
  "create_layout a0 a1 g =
     bindc (arr_put (BrowserGroup g) 0 (Some \<lparr>grp_addr = a0, grp_label = ''New Tab    ''\<rparr>)) (\<lambda>gs.
     bindc (arr_put (browserwin g) 0 (Some HtmlBrowser)) (\<lambda>bs.
     bindc (ConstructTab a1 ''+'' (g\<lparr>BrowserGroup := gs, browserwin := bs\<rparr>)) (\<lambda>(n, g).
     Inr (g\<lparr>lasttab := n\<rparr>))))"

definition call_wk :: "wk_call \<Rightarrow> gui \<Rightarrow> gui" where
  "call_wk c g = g\<lparr>wk_calls := wk_calls g @ [c]\<rparr>"

definition write_to_statusbar :: "string \<Rightarrow> gui \<Rightarrow> gui" where
  "write_to_statusbar msg g = g\<lparr>stat_bar := msg\<rparr>"

text \<open>\<^verbatim>\<open>GUI::self->browserwin[i]\<close>, dereferenced, and a change of its fields.\<close>

definition browser_at :: "gui \<Rightarrow> int \<Rightarrow> html_browser cres" where
  "browser_at g i = bindc (arr_at (browserwin g) i)
     (\<lambda>p. case p of None \<Rightarrow> Inl NullPointer | Some b \<Rightarrow> Inr b)"

definition cur_browser :: "gui \<Rightarrow> html_browser cres" where
  "cur_browser g = browser_at g (currenttab g)"

definition put_browser :: "html_browser \<Rightarrow> gui \<Rightarrow> gui" where
  "put_browser b g = g\<lparr>browserwin := (browserwin g)[nat (currenttab g) := Some b]\<rparr>"

text \<open>\<^verbatim>\<open>browsertabs->BrowserGroup[currenttab]->label(text)\<close>\<close>

definition label_tab :: "string \<Rightarrow> gui \<Rightarrow> gui cres" where
  "label_tab text g = bindc (arr_at (BrowserGroup g) (currenttab g))
     (\<lambda>p. case p of
        None \<Rightarrow> Inl NullPointer
      | Some o' \<Rightarrow> Inr (g\<lparr>BrowserGroup :=
          (BrowserGroup g)[nat (currenttab g) := Some (o'\<lparr>grp_label := text\<rparr>)]\<rparr>))"

text \<open>
  \<^verbatim>\<open>get_url\<close>: \<open>active\<close> is the page's active URL (empty when there is none).  It is copied
  to a static buffer of 1024 bytes and to the tab's \<^verbatim>\<open>currenturl\<close>.
\<close>

definition get_url :: "string \<Rightarrow> gui \<Rightarrow> (string \<times> gui) cres" where
  "get_url active g =
     bindc (sprintf 1024 (c_str active)) (\<lambda>buf.
     bindc (cur_browser g) (\<lambda>b.
     bindc (sprintf 1024 buf) (\<lambda>cu.
     Inr (buf, put_browser (b\<lparr>currenturl := cu\<rparr>) g))))"

definition loadURL :: "string option \<Rightarrow> gui \<Rightarrow> gui" where
  "loadURL url g = (case url of
     None \<Rightarrow> g
   | Some u \<Rightarrow> call_wk (WKPageLoadURL (currenttab g) u) g)"

text \<open>
  The sequence \<^verbatim>\<open>snprintf(tabtitle,12,...); label(tabtitle); redraw(); loadURL(url)\<close>;
  \<open>loading\<close> is the translation of the text \<^verbatim>\<open>"Loading...  "\<close>.
\<close>

definition show_loading :: "string \<Rightarrow> gui \<Rightarrow> gui cres" where
  "show_loading loading g =
     bindc (cur_browser g) (\<lambda>b.
     bindc (snprintf 128 12 loading) (\<lambda>t.
     label_tab t (put_browser (b\<lparr>tabtitle := t\<rparr>) g)))"

text \<open>
  \<^verbatim>\<open>checkurl\<close>: the URL is first copied to a buffer of 512 bytes; \<open>cap\<close> is the size
  of the caller's buffer, which the function rewrites.
\<close>

definition has_prefix :: "string \<Rightarrow> string \<Rightarrow> bool" where
  "has_prefix p s \<longleftrightarrow> strncmp s p (length p) = 0"

definition checkurl :: "nat \<Rightarrow> string \<Rightarrow> string cres" where
  "checkurl cap url =
     bindc (sprintf 512 url) (\<lambda>tmpurl.
       if has_prefix ''ftp://'' url then Inr url
       else if has_prefix ''FTP://'' url then Inr url
       else if has_prefix ''http://'' url then Inr url
       else if has_prefix ''HTTP://'' url then Inr url
       else if has_prefix ''https://'' url then Inr url
       else if has_prefix ''HTTPS://'' url then Inr url
       else sprintf cap (''http://'' @ tmpurl))"

subsection \<open>The URL check\<close>

lemma strcmp_take_prefix:
  "c_string p \<Longrightarrow> strcmp (take (length p) s) p = 0 \<longleftrightarrow> take (length p) s = p"
proof (induction p arbitrary: s)
  case (Cons a p)
  show ?case
  proof (cases s)
    case Nil
    then show ?thesis using Cons.prems of_char_pos [of a] of_char_nat_int [of a] by simp
  next
    case (Cons b t)
    then show ?thesis using Cons.IH [of t] Cons.prems by simp
  qed
qed simp

lemma has_prefix_iff:
  assumes "c_string p"
  shows "has_prefix p s \<longleftrightarrow> (\<exists>t. s = p @ t)"
proof -
  have "has_prefix p s \<longleftrightarrow> take (length p) s = p"
    using strcmp_take_prefix [OF assms] by (simp add: has_prefix_def strncmp_def)
  also have "\<dots> \<longleftrightarrow> (\<exists>t. s = p @ t)"
    by (metis append_eq_conv_conj append_take_drop_id)
  finally show ?thesis .
qed

definition accepted_schemes :: "string list" where
  "accepted_schemes = [''ftp://'', ''FTP://'', ''http://'', ''HTTP://'', ''https://'', ''HTTPS://'']"

definition has_scheme :: "string \<Rightarrow> bool" where
  "has_scheme s \<longleftrightarrow> (\<exists>p \<in> set accepted_schemes. has_prefix p s)"

lemma checkurl_eq:
  "length url < 512 \<Longrightarrow>
   checkurl cap url = (if has_scheme url then Inr url else sprintf cap (''http://'' @ url))"
  by (simp add: checkurl_def has_scheme_def accepted_schemes_def)

lemma has_scheme_http: "has_scheme (''http://'' @ s)"
  using has_prefix_iff [of "''http://''" "''http://'' @ s"]
  by (simp add: has_scheme_def accepted_schemes_def)

subsection \<open>Well-formed states\<close>

definition fits :: "nat \<Rightarrow> string \<Rightarrow> bool" where
  "fits n s \<longleftrightarrow> length s < n \<and> c_string s"

definition url_text_ok :: "url_text \<Rightarrow> bool" where
  "url_text_ok e \<longleftrightarrow> fits 1024 (ut_name e) \<and> fits 1024 (ut_uri e)"

definition tables_ok :: "gui \<Rightarrow> bool" where
  "tables_ok g \<longleftrightarrow> length (URL g) = MAXHISTORY \<and> length (bookmarks g) = MAXBOOKMARKS
     \<and> (\<forall>e \<in> set (URL g). url_text_ok e) \<and> (\<forall>e \<in> set (bookmarks g). url_text_ok e)
     \<and> fits 1024 (startpage g)"

text \<open>The current tab exists: its browser and its group have been created.\<close>

definition tab_ok :: "gui \<Rightarrow> int \<Rightarrow> bool" where
  "tab_ok g i \<longleftrightarrow> 0 \<le> i \<and> i < int MAXVIEWS
     \<and> (\<exists>b. browserwin g ! nat i = Some b) \<and> (\<exists>o'. BrowserGroup g ! nat i = Some o')"

definition gui_ok :: "gui \<Rightarrow> bool" where
  "gui_ok g \<longleftrightarrow> tables_ok g \<and> length (browserwin g) = MAXVIEWS \<and> length (BrowserGroup g) = MAXVIEWS
     \<and> tab_ok g (currenttab g)"

lemma fits_Nil [simp]: "fits n [] \<longleftrightarrow> 0 < n"
  by (simp add: fits_def)

lemma fitsD: "fits n s \<Longrightarrow> length s < n" "fits n s \<Longrightarrow> c_string s"
  by (simp_all add: fits_def)

lemma c_str_id [simp]: "c_string s \<Longrightarrow> c_str s = s"
  by (simp add: c_str_def c_string_def takeWhile_eq_all_conv) metis

lemma c_string_c_str [simp]: "c_string (c_str s)"
  by (auto simp: c_str_def c_string_def dest: set_takeWhileD)

lemma empty_entry_ok [simp]: "url_text_ok empty_entry"
  by (simp add: url_text_ok_def empty_entry_def)

lemma tables_ok_GUI: "tables_ok GUI"
  by (auto simp: tables_ok_def GUI_def)

text \<open>The state after the window is laid out.\<close>

definition started_gui :: gui where
  "started_gui = GUI\<lparr>lasttab := 1,
     BrowserGroup := (BrowserGroup GUI)[0 := Some \<lparr>grp_addr = 0, grp_label = ''New Tab    ''\<rparr>,
                                        1 := Some \<lparr>grp_addr = 1, grp_label = ''+''\<rparr>],
     browserwin := (browserwin GUI)[0 := Some HtmlBrowser, 1 := Some HtmlBrowser]\<rparr>"

lemma create_layout_GUI: "create_layout 0 1 GUI = Inr started_gui"
  by (simp add: create_layout_def ConstructTab_def GUI_def started_gui_def table_sizes Let_def)

lemma gui_ok_started [simp]: "gui_ok started_gui"
  using tables_ok_GUI
  by (simp add: gui_ok_def started_gui_def tables_ok_def tab_ok_def)
    (simp add: GUI_def table_sizes)

lemma cur_browser_started: "cur_browser started_gui = Inr HtmlBrowser" "currenttab started_gui = 0"
  by (simp_all add: cur_browser_def browser_at_def started_gui_def GUI_def table_sizes)

lemma cur_browser_ok:
  assumes "gui_ok g"
  obtains b where "cur_browser g = Inr b" and "browserwin g ! nat (currenttab g) = Some b"
proof -
  obtain b where b: "browserwin g ! nat (currenttab g) = Some b"
    using assms by (auto simp: gui_ok_def tab_ok_def)
  then have "cur_browser g = Inr b"
    using assms by (simp add: cur_browser_def browser_at_def gui_ok_def tab_ok_def)
  with b show thesis by (rule that [rotated])
qed

lemma gui_ok_put_browser [simp]: "gui_ok g \<Longrightarrow> gui_ok (put_browser b g)"
  by (auto simp: gui_ok_def tables_ok_def tab_ok_def put_browser_def)

lemma cur_browser_put: "gui_ok g \<Longrightarrow> cur_browser (put_browser b g) = Inr b"
  by (simp add: cur_browser_def browser_at_def put_browser_def gui_ok_def tab_ok_def nat_less_iff)

lemma gui_ok_call_wk [simp]: "gui_ok (call_wk c g) = gui_ok g"
  by (simp add: gui_ok_def tables_ok_def tab_ok_def call_wk_def)

lemma gui_ok_write_to_statusbar [simp]: "gui_ok (write_to_statusbar m g) = gui_ok g"
  by (simp add: gui_ok_def tables_ok_def tab_ok_def write_to_statusbar_def)

lemma gui_ok_win_label [simp]: "gui_ok (g\<lparr>win_label := l\<rparr>) = gui_ok g"
  by (simp add: gui_ok_def tables_ok_def tab_ok_def)

lemma gui_ok_URL:
  "\<lbrakk>gui_ok g; length h = MAXHISTORY; \<forall>e \<in> set h. url_text_ok e\<rbrakk> \<Longrightarrow> gui_ok (g\<lparr>URL := h\<rparr>)"
  by (simp add: gui_ok_def tables_ok_def tab_ok_def)

lemma gui_ok_bookmarks:
  "\<lbrakk>gui_ok g; length h = MAXBOOKMARKS; \<forall>e \<in> set h. url_text_ok e\<rbrakk> \<Longrightarrow> gui_ok (g\<lparr>bookmarks := h\<rparr>)"
  by (simp add: gui_ok_def tables_ok_def tab_ok_def)

text \<open>The tables seen through the changes a callback makes elsewhere.\<close>

lemma table_frame [simp]:
  "URL (put_browser b g) = URL g" "bookmarks (put_browser b g) = bookmarks g"
  "URL (call_wk c g) = URL g" "bookmarks (call_wk c g) = bookmarks g"
  "URL (write_to_statusbar m g) = URL g" "bookmarks (write_to_statusbar m g) = bookmarks g"
  "wk_calls (put_browser b g) = wk_calls g" "currenttab (put_browser b g) = currenttab g"
  "wk_calls (call_wk c g) = wk_calls g @ [c]" "currenttab (call_wk c g) = currenttab g"
  "startpage (put_browser b g) = startpage g" "startpage (call_wk c g) = startpage g"
  by (simp_all add: put_browser_def call_wk_def write_to_statusbar_def)

lemma label_tab_ok:
  assumes "gui_ok g"
  obtains gs where "label_tab text g = Inr (g\<lparr>BrowserGroup := gs\<rparr>)"
    and "gui_ok (g\<lparr>BrowserGroup := gs\<rparr>)"
proof -
  obtain o' where o': "BrowserGroup g ! nat (currenttab g) = Some o'"
    using assms by (auto simp: gui_ok_def tab_ok_def)
  let ?gs = "(BrowserGroup g)[nat (currenttab g) := Some (o'\<lparr>grp_label := text\<rparr>)]"
  have "label_tab text g = Inr (g\<lparr>BrowserGroup := ?gs\<rparr>)"
    using assms o' by (simp add: label_tab_def gui_ok_def tab_ok_def)
  moreover have "nat (currenttab g) < length (BrowserGroup g)"
    using assms by (auto simp: gui_ok_def tab_ok_def nat_less_iff)
  then have "gui_ok (g\<lparr>BrowserGroup := ?gs\<rparr>)"
    using assms by (simp add: gui_ok_def tables_ok_def tab_ok_def)
  ultimately show thesis by (rule that)
qed

lemma get_url_ok:
  assumes "gui_ok g" and "length (c_str active) < 1024"
  obtains b where "get_url active g = Inr (c_str active, put_browser b g)"
proof -
  obtain b where "cur_browser g = Inr b" by (rule cur_browser_ok [OF assms(1)])
  then have "get_url active g = Inr (c_str active, put_browser (b\<lparr>currenturl := c_str active\<rparr>) g)"
    using assms(2) by (simp add: get_url_def)
  then show thesis by (rule that)
qed

lemma show_loading_ok:
  assumes "gui_ok g"
  obtains b gs where "show_loading l g = Inr ((put_browser b g)\<lparr>BrowserGroup := gs\<rparr>)"
    and "gui_ok ((put_browser b g)\<lparr>BrowserGroup := gs\<rparr>)"
proof -
  obtain b where b: "cur_browser g = Inr b" by (rule cur_browser_ok [OF assms])
  let ?b = "b\<lparr>tabtitle := take 11 l\<rparr>"
  have ok: "gui_ok (put_browser ?b g)" using assms by simp
  obtain gs where gs: "label_tab (take 11 l) (put_browser ?b g) = Inr ((put_browser ?b g)\<lparr>BrowserGroup := gs\<rparr>)"
    "gui_ok ((put_browser ?b g)\<lparr>BrowserGroup := gs\<rparr>)"
    by (rule label_tab_ok [OF ok])
  have "show_loading l g = Inr ((put_browser ?b g)\<lparr>BrowserGroup := gs\<rparr>)"
    using b gs(1) by (simp add: show_loading_def)
  then show thesis using gs(2) by (rule that)
qed

subsection \<open>Navigation from the toolbar\<close>

text \<open>
  \<^verbatim>\<open>HtmlNavigation::cb_loc\<close> (the location field), \<^verbatim>\<open>cb_search\<close>,
  \<^verbatim>\<open>cb_back\<close>, \<^verbatim>\<open>cb_forward\<close>, \<^verbatim>\<open>cb_stop\<close>,
  \<^verbatim>\<open>cb_reload\<close>; \<open>canGoBack\<close> and \<open>canGoForward\<close> are the answers of the page.
\<close>

definition cb_loc :: "string \<Rightarrow> gui \<Rightarrow> gui cres" where
  "cb_loc loading g =
     bindc (cur_browser g) (\<lambda>b.
     bindc (sprintf 1024 (loc_value b)) (\<lambda>buf.
       if length buf < 3 then Inr g
       else if strcmp buf ''http://'' = 0 then Inr g
       else bindc (checkurl 1024 buf) (\<lambda>buf.
         bindc (show_loading loading (call_wk (WKPageStopLoading (currenttab g)) g)) (\<lambda>g.
         Inr (loadURL (Some buf) g)))))"

definition cb_search :: "string \<Rightarrow> gui \<Rightarrow> gui cres" where
  "cb_search loading g =
     bindc (cur_browser g) (\<lambda>b.
     bindc (sprintf 1024 (''http://www.google.com/search?q='' @ search_value b)) (\<lambda>buf.
     bindc (show_loading loading g) (\<lambda>g.
     Inr (loadURL (Some (map (\<lambda>c. if c = CHR '' '' then CHR ''+'' else c) buf)) g))))"

definition cb_back :: "bool \<Rightarrow> gui \<Rightarrow> gui" where
  "cb_back canGoBack g = (if canGoBack then call_wk (WKPageGoBack (currenttab g)) g else g)"

definition cb_forward :: "bool \<Rightarrow> gui \<Rightarrow> gui" where
  "cb_forward canGoForward g = (if canGoForward then call_wk (WKPageGoForward (currenttab g)) g else g)"

definition cb_stop :: "gui \<Rightarrow> gui" where
  "cb_stop g = call_wk (WKPageStopLoading (currenttab g)) g"

definition cb_reload :: "gui \<Rightarrow> gui" where
  "cb_reload g = call_wk (WKPageReload (currenttab g)) g"

text \<open>For a typed address that the shell's 512-byte work buffer can hold and that is longer
  than two characters and not just the scheme, pressing Enter stops the current load and then
  loads exactly one URL: the address itself when it starts with one of the six accepted
  schemes, and the address with \<open>http://\<close> in front of it otherwise.  No buffer overflows, and
  nothing else is asked of the page.\<close>
lemma cb_loc_calls:
  assumes "gui_ok g" and "cur_browser g = Inr b" and "loc_value b = url"
    and "2 < length url" and "length url < 512" and "c_string url" and "url \<noteq> ''http://''"
  shows "\<exists>g'. cb_loc loading g = Inr g' \<and> gui_ok g' \<and>
     wk_calls g' = wk_calls g @ [WKPageStopLoading (currenttab g),
       WKPageLoadURL (currenttab g) (if has_scheme url then url else ''http://'' @ url)]"
proof -
  let ?u = "if has_scheme url then url else ''http://'' @ url"
  let ?g1 = "call_wk (WKPageStopLoading (currenttab g)) g"
  have "gui_ok ?g1" using assms(1) by simp
  then obtain b' gs where sl: "show_loading loading ?g1 = Inr ((put_browser b' ?g1)\<lparr>BrowserGroup := gs\<rparr>)"
    and ok: "gui_ok ((put_browser b' ?g1)\<lparr>BrowserGroup := gs\<rparr>)"
    by (rule show_loading_ok)
  have "checkurl 1024 url = Inr ?u" using assms(5) by (simp add: checkurl_eq)
  moreover have "strcmp url ''http://'' \<noteq> 0" using assms(6,7) by simp
  ultimately have "cb_loc loading g = Inr (loadURL (Some ?u) ((put_browser b' ?g1)\<lparr>BrowserGroup := gs\<rparr>))"
    using assms(2-5) sl by (simp add: cb_loc_def)
  then show ?thesis using ok by (simp add: loadURL_def)
qed

text \<open>A typed address of 512 bytes or more that still fits the location buffer of 1024 bytes
  overflows the 512-byte buffer of \<open>checkurl\<close>, whatever its scheme.\<close>
theorem long_address_overflows_checkurl:
  assumes "cur_browser g = Inr b" and "512 \<le> length (loc_value b)" and "length (loc_value b) < 1024"
    and "c_string (loc_value b)"
  shows "cb_loc loading g = Inl BufferOverflow"
proof -
  have "strcmp (loc_value b) ''http://'' \<noteq> 0"
    using assms(2,4) by auto
  then show ?thesis using assms by (simp add: cb_loc_def checkurl_def)
qed

theorem long_address_overflows_checkurl_witness:
  "cb_loc [] (put_browser (HtmlBrowser\<lparr>loc_value := replicate 600 CHR ''a''\<rparr>) started_gui)
     = Inl BufferOverflow"
  by (rule long_address_overflows_checkurl [where b = "HtmlBrowser\<lparr>loc_value := replicate 600 CHR ''a''\<rparr>"])
    (simp_all add: cur_browser_put c_string_def)

text \<open>\<open>checkurl\<close> is idempotent: checking a URL that it produced changes nothing, as long as
  the produced URL still fits the work buffer.\<close>
lemma checkurl_idempotent:
  assumes "checkurl cap url = Inr u" and "length u < 512"
  shows "checkurl cap' u = Inr u \<and> has_scheme u"
proof -
  have len: "length url < 512"
    using assms(1) by (auto simp: checkurl_def bindc_eq_Inr sprintf_eq_Inr)
  have "has_scheme u"
  proof (cases "has_scheme url")
    case True
    then show ?thesis using assms(1) len by (simp add: checkurl_eq)
  next
    case False
    then have "u = ''http://'' @ url" using assms(1) len by (simp add: checkurl_eq sprintf_eq_Inr)
    then show ?thesis using has_scheme_http [of url] by simp
  qed
  then show ?thesis using assms(2) by (simp_all add: checkurl_eq)
qed

subsection \<open>Menu entries that change the settings\<close>

text \<open>\<^verbatim>\<open>cb_set_startpage\<close>; \<open>active\<close> is the active URL of the page.\<close>

definition cb_set_startpage :: "string \<Rightarrow> gui \<Rightarrow> gui cres" where
  "cb_set_startpage active g =
     bindc (get_url active g) (\<lambda>(u, g). bindc (sprintf 1024 u) (\<lambda>u. Inr (g\<lparr>startpage := u\<rparr>)))"

definition cb_set_language :: "int \<Rightarrow> gui \<Rightarrow> gui" where
  "cb_set_language v g = g\<lparr>current_language := (if v = 1 then ''german'' else [])\<rparr>"

text \<open>
  The find window: \<^verbatim>\<open>cb_findtext\<close> (with \<^verbatim>\<open>strncpy\<close> into 512 bytes, from which
  only the first byte is tested), \<^verbatim>\<open>cb_findnext\<close>, \<^verbatim>\<open>cb_findprev\<close>.
  The options are \<^verbatim>\<open>0b11010001\<close>, and bit 3 for the backward search.
\<close>

definition cb_findtext :: "string \<Rightarrow> gui \<Rightarrow> gui cres" where
  "cb_findtext v g =
     bindc (strncpy 512 v 512) (\<lambda>t.
     let g = g\<lparr>findtext := t\<rparr> in
     Inr (if t = [] then g else call_wk (WKPageFindString (currenttab g) t 209) g))"

definition cb_findnext :: "gui \<Rightarrow> gui" where
  "cb_findnext g = call_wk (WKPageFindString (currenttab g) (findtext g) 209) g"

definition cb_findprev :: "gui \<Rightarrow> gui" where
  "cb_findprev g = call_wk (WKPageFindString (currenttab g) (findtext g) 217) g"

lemma cb_set_startpage_ok:
  assumes "gui_ok g" and "length (c_str active) < 1024"
  obtains g' where "cb_set_startpage active g = Inr g'" and "gui_ok g'" and "startpage g' = c_str active"
proof -
  obtain b where b: "get_url active g = Inr (c_str active, put_browser b g)"
    by (rule get_url_ok [OF assms])
  then have "cb_set_startpage active g = Inr ((put_browser b g)\<lparr>startpage := c_str active\<rparr>)"
    using assms(2) by (simp add: cb_set_startpage_def)
  moreover have "gui_ok (put_browser b g)" using assms(1) by simp
  then have "gui_ok ((put_browser b g)\<lparr>startpage := c_str active\<rparr>)"
    using assms(2) by (simp add: gui_ok_def tables_ok_def tab_ok_def fits_def)
  ultimately show thesis by (rule that) simp
qed

end
