(* ===== verification/NetRider_Tabs.thy ===== *)
theory NetRider_Tabs
  imports NetRider_State
begin

text \<open>
  Start-up and tabs of the NetRider shell: the end of \<^verbatim>\<open>main\<close> that opens the first
  page, \<^verbatim>\<open>WebKit2::initUi\<close>, the tab callback and the two ways to open a new tab, and
  the policy callback that decides what happens to a response.
\<close>

subsection \<open>Start-up\<close>

text \<open>
  \<^verbatim>\<open>WebKit2::initUi\<close> as far as it touches the shell: it checks the first command line
  address in place, in the buffer of its \<^verbatim>\<open>std::string\<close> (which holds the text and its
  terminator), and loads a page only for the first tab.
\<close>

definition initUi :: "string list \<Rightarrow> gui \<Rightarrow> gui cres" where
  "initUi initialUrls g =
     bindc (cur_browser g) (\<lambda>b.
     bindc (case initialUrls of
              [] \<Rightarrow> Inr ''http://www.google.com''
            | url # _ \<Rightarrow> checkurl (length url + 1) url) (\<lambda>wkUrl.
     Inr (if currenttab g = 0 then call_wk (WKPageLoadURL (currenttab g) wkUrl) g else g)))"

text \<open>The end of \<^verbatim>\<open>main\<close>, after the settings are read; \<open>args\<close> are the command line arguments.\<close>

definition main_start :: "string list \<Rightarrow> gui \<Rightarrow> gui cres" where
  "main_start args g =
     bindc (sprintf 1024 (startpage g)) (\<lambda>buf.
     bindc (case args of [] \<Rightarrow> Inr buf | url # _ \<Rightarrow> sprintf 1024 url) (\<lambda>buf.
     bindc (checkurl 1024 buf) (\<lambda>buf.
     bindc (cur_browser g) (\<lambda>b.
     bindc (initUi args (put_browser (b\<lparr>loc_value := buf\<rparr>) g)) (\<lambda>g.
     bindc (arr_put (webviews g) 0 True) (\<lambda>vs. Inr (g\<lparr>webviews := vs\<rparr>)))))))"

subsection \<open>Tabs\<close>

definition relabel :: "nat \<Rightarrow> string \<Rightarrow> gui \<Rightarrow> gui" where
  "relabel addr text g = g\<lparr>BrowserGroup :=
     map (map_option (\<lambda>o'. if grp_addr o' = addr then o'\<lparr>grp_label := text\<rparr> else o')) (BrowserGroup g)\<rparr>"

text \<open>\<^verbatim>\<open>for (int i=0;i<MAXVIEWS;i++) if (tab==tabs->BrowserGroup[i]) ... break;\<close>\<close>

fun find_tab :: "nat \<Rightarrow> fl_group option list \<Rightarrow> nat option" where
  "find_tab addr [] = None"
| "find_tab addr (p # ps) =
     (if map_option grp_addr p = Some addr then Some 0 else map_option Suc (find_tab addr ps))"

text \<open>
  \<^verbatim>\<open>BrowserTabs::TabCallback\<close> for a click on the group \<open>tab\<close>.  \<open>new_label\<close> is the translated
  text for a new tab and \<open>addr\<close> the address of the group it allocates; \<open>right\<close> tells a right
  click and \<open>confirmed\<close> the answer of the close dialog; \<open>title\<close> and \<open>active\<close> are the title and
  the active URL of the page of the selected tab.  The slots of a closed tab keep their pointers.
\<close>

definition TabCallback ::
  "string \<Rightarrow> nat \<Rightarrow> string list \<Rightarrow> bool \<Rightarrow> bool \<Rightarrow> string \<Rightarrow> string \<Rightarrow> fl_group \<Rightarrow> gui \<Rightarrow> gui cres" where
  "TabCallback new_label addr args right confirmed title active tab g =
     (if strcmp (grp_label tab) ''+'' = 0 then
        (if int MAXVIEWS \<le> lasttab g then Inr g
         else bindc (ConstructTab addr ''+'' (relabel (grp_addr tab) new_label g)) (\<lambda>(n, g).
              let ctab = n - 1; g = g\<lparr>currenttab := ctab\<rparr> in
              bindc (initUi args g) (\<lambda>g.
              bindc (arr_put (webviews g) ctab True) (\<lambda>vs.
              bindc (cur_browser (g\<lparr>webviews := vs\<rparr>)) (\<lambda>b.
              Inr (put_browser (b\<lparr>loc_value := loc_value b @ ''http://''\<rparr>) (g\<lparr>webviews := vs\<rparr>)))))))
      else if right then
        bindc (arr_at (BrowserGroup g) 0) (\<lambda>p.
          if map_option grp_addr p = Some (grp_addr tab) then Inr g
          else if confirmed then
            bindc (browser_at (g\<lparr>currenttab := 0\<rparr>) 0) (\<lambda>b. Inr (g\<lparr>currenttab := 0\<rparr>))
          else Inr g)
      else (case find_tab (grp_addr tab) (BrowserGroup g) of
          None \<Rightarrow> Inr g
        | Some i \<Rightarrow>
            let g = g\<lparr>currenttab := int i\<rparr> in
            bindc (arr_at (webviews g) (int i)) (\<lambda>v.
            if \<not> v then Inl NullPointer
            else bindc (get_url active (g\<lparr>win_label := c_str title\<rparr>)) (\<lambda>(u, g).
                 bindc (cur_browser g) (\<lambda>b. Inr (put_browser (b\<lparr>loc_value := u\<rparr>) g))))))"

text \<open>Ctrl-T in \<^verbatim>\<open>MyGlWindow::handle_key\<close>: select the last tab and run the callback on it.\<close>

definition key_ctrl_t :: "string \<Rightarrow> nat \<Rightarrow> string list \<Rightarrow> gui \<Rightarrow> gui cres" where
  "key_ctrl_t new_label addr args g =
     bindc (arr_at (BrowserGroup g) (lasttab g)) (\<lambda>p. case p of
       None \<Rightarrow> Inl NullPointer
     | Some tab \<Rightarrow> TabCallback new_label addr args False False [] [] tab g)"

definition openURL_in_newtab :: "string \<Rightarrow> string \<Rightarrow> nat \<Rightarrow> string list \<Rightarrow> string option \<Rightarrow> gui \<Rightarrow> gui cres" where
  "openURL_in_newtab new_label loading addr args url g =
     bindc (key_ctrl_t new_label addr args g) (\<lambda>g.
     bindc (show_loading loading g) (\<lambda>g. Inr (loadURL url g)))"

text \<open>Ctrl-W: \<open>confirmed\<close> is the answer of the dialog.\<close>

definition key_ctrl_w :: "bool \<Rightarrow> gui \<Rightarrow> gui cres" where
  "key_ctrl_w confirmed g =
     (if currenttab g = 0 \<or> currenttab g = lasttab g then Inr g
      else if confirmed then
        bindc (browser_at (g\<lparr>currenttab := 0\<rparr>) 0) (\<lambda>b. Inr (g\<lparr>currenttab := 0\<rparr>))
      else Inr g)"

text \<open>Repeated Ctrl-T; the groups are allocated at increasing addresses.\<close>

fun open_tabs :: "string \<Rightarrow> nat \<Rightarrow> nat \<Rightarrow> gui \<Rightarrow> gui cres" where
  "open_tabs new_label addr 0 g = Inr g"
| "open_tabs new_label addr (Suc n) g =
     bindc (key_ctrl_t new_label addr [] g) (open_tabs new_label (Suc addr) n)"

subsection \<open>Response policy\<close>

definition decidePolicyForResponse :: "bool \<Rightarrow> string \<Rightarrow> bool \<Rightarrow> bool \<Rightarrow> gui \<Rightarrow> gui cres" where
  "decidePolicyForResponse isAttachment mimeType isMainFrame canShowMIMEType g =
     bindc (cur_browser g) (\<lambda>b.
       if savetargetas b
       then Inr (call_wk WKFramePolicyListenerDownload (put_browser (b\<lparr>savetargetas := False\<rparr>) g))
       else if isAttachment then Inr (call_wk WKFramePolicyListenerDownload g)
       else if isMainFrame then
         (if canShowMIMEType then Inr (call_wk WKFramePolicyListenerUse g)
          else Inr (call_wk WKFramePolicyListenerDownload g))
       else if \<not> canShowMIMEType \<and> \<not> (mimeType = ''text/xml'' \<or> mimeType = ''application/xml'')
       then Inr (call_wk WKFramePolicyListenerIgnore g)
       else Inr (call_wk WKFramePolicyListenerUse g))"

text \<open>
  \<^verbatim>\<open>download_file\<close> (the menu entry \<^emph>\<open>Save target as\<close>): \<open>chosen\<close> tells that the file dialog
  was not cancelled.  The first result is the file name that the dialog proposes: the part of the
  URL behind its last slash, behind the downloads directory.
\<close>

definition download_file :: "string \<Rightarrow> bool \<Rightarrow> string \<Rightarrow> gui \<Rightarrow> (string \<times> gui) cres" where
  "download_file downloadsdir chosen url g =
     bindc (sprintf 1024 url) (\<lambda>msgtmp.
     let d = (case strrchr msgtmp CHR ''/'' of None \<Rightarrow> 0 | Some p \<Rightarrow> p) in
     bindc (if d + 1 \<le> length msgtmp then Inr (drop (d + 1) msgtmp) else Inl Uninitialised) (\<lambda>name.
     bindc (sprintf 1024 (downloadsdir @ name)) (\<lambda>pathbuf.
     if chosen
     then bindc (cur_browser g) (\<lambda>b.
          Inr (pathbuf, loadURL (Some url) (put_browser (b\<lparr>savetargetas := True\<rparr>) g)))
     else Inr (pathbuf, g))))"

subsection \<open>What is loaded at start-up\<close>

lemma initUi_started:
  assumes ok: "gui_ok g" and c0: "currenttab g = 0" and u: "(case urls of [] \<Rightarrow> Inr ''http://www.google.com''
     | url # _ \<Rightarrow> checkurl (length url + 1) url) = Inr u"
  shows "initUi urls g = Inr (call_wk (WKPageLoadURL 0 u) g)"
proof -
  obtain b where "cur_browser g = Inr b" by (rule cur_browser_ok [OF ok])
  then show ?thesis using u c0 by (simp add: initUi_def)
qed

text \<open>What the browser loads when it starts.  Without arguments it shows the configured start
  page in the location field but always loads Google.  With an address that names an accepted
  scheme it loads that address.  With an address that has no scheme it writes the prefix
  \<open>http://\<close> past the end of the string that holds the argument.\<close>
theorem start_up_page:
  assumes ok: "gui_ok g" and c0: "currenttab g = 0" and v: "length (webviews g) = MAXVIEWS"
    and sp: "length (startpage g) < 512"
  shows "(\<exists>g' b. main_start [] g = Inr g' \<and> cur_browser g' = Inr b \<and>
       loc_value b = (if has_scheme (startpage g) then startpage g else ''http://'' @ startpage g) \<and>
       wk_calls g' = wk_calls g @ [WKPageLoadURL 0 ''http://www.google.com'']) \<and>
    (\<forall>url rest. length url < 512 \<longrightarrow>
       (if has_scheme url
        then (\<exists>g'. main_start (url # rest) g = Inr g' \<and> wk_calls g' = wk_calls g @ [WKPageLoadURL 0 url])
        else main_start (url # rest) g = Inl BufferOverflow))"
proof (intro conjI allI impI)
  obtain b where b: "cur_browser g = Inr b" by (rule cur_browser_ok [OF ok])
  let ?u = "if has_scheme (startpage g) then startpage g else ''http://'' @ startpage g"
  let ?g = "put_browser (b\<lparr>loc_value := ?u\<rparr>) g"
  have ok1: "gui_ok ?g" using ok by simp
  have i1: "initUi [] ?g = Inr (call_wk (WKPageLoadURL 0 ''http://www.google.com'') ?g)"
    by (rule initUi_started [OF ok1]) (simp_all add: c0)
  have "checkurl 1024 (startpage g) = Inr ?u" using sp by (simp add: checkurl_eq)
  moreover have v1: "\<And>c. length (webviews (call_wk c ?g)) = MAXVIEWS"
    using v by (simp add: call_wk_def put_browser_def)
  ultimately have "main_start [] g = Inr ((call_wk (WKPageLoadURL 0 ''http://www.google.com'') ?g)
      \<lparr>webviews := (webviews (call_wk (WKPageLoadURL 0 ''http://www.google.com'') ?g))[0 := True]\<rparr>)"
    using sp b i1 by (simp add: main_start_def table_sizes)
  moreover have "cur_browser (put_browser (b\<lparr>loc_value := ?u\<rparr>) g) = Inr (b\<lparr>loc_value := ?u\<rparr>)"
    by (rule cur_browser_put [OF ok])
  ultimately show "\<exists>g' b. main_start [] g = Inr g' \<and> cur_browser g' = Inr b \<and>
       loc_value b = ?u \<and> wk_calls g' = wk_calls g @ [WKPageLoadURL 0 ''http://www.google.com'']"
    by (intro exI conjI) (assumption, auto simp: cur_browser_def browser_at_def call_wk_def)
next
  fix url :: string and rest :: "string list" assume len: "length url < 512"
  obtain b where b: "cur_browser g = Inr b" by (rule cur_browser_ok [OF ok])
  show "if has_scheme url
     then (\<exists>g'. main_start (url # rest) g = Inr g' \<and> wk_calls g' = wk_calls g @ [WKPageLoadURL 0 url])
     else main_start (url # rest) g = Inl BufferOverflow"
  proof (cases "has_scheme url")
    case True
    let ?g = "put_browser (b\<lparr>loc_value := url\<rparr>) g"
    have ok1: "gui_ok ?g" using ok by simp
    have i1: "initUi (url # rest) ?g = Inr (call_wk (WKPageLoadURL 0 url) ?g)"
      by (rule initUi_started [OF ok1]) (simp_all add: c0 checkurl_eq len True)
    have "length (webviews (call_wk (WKPageLoadURL 0 url) ?g)) = MAXVIEWS"
      using v by (simp add: call_wk_def put_browser_def)
    then show ?thesis
      using True sp len b i1 by (simp add: main_start_def checkurl_eq table_sizes)
  next
    case False
    let ?g = "put_browser (b\<lparr>loc_value := ''http://'' @ url\<rparr>) g"
    obtain b' where "cur_browser ?g = Inr b'" by (rule cur_browser_ok [of ?g]) (use ok in simp_all)
    then have "initUi (url # rest) ?g = Inl BufferOverflow"
      using False len by (simp add: initUi_def checkurl_eq)
    then show ?thesis using False sp len b by (simp add: main_start_def checkurl_eq)
  qed
qed

lemma started_gui_fields:
  "length (webviews started_gui) = MAXVIEWS" "startpage started_gui = []" "wk_calls started_gui = []"
  "lasttab started_gui = 1"
  by (simp_all add: started_gui_def GUI_def)

theorem start_up_page_witness:
  "main_start [''netrider.org''] started_gui = Inl BufferOverflow"
proof -
  have "\<not> has_scheme ''netrider.org''"
    by (simp add: has_scheme_def accepted_schemes_def has_prefix_def strncmp_def)
  then show ?thesis
    using start_up_page [of started_gui] cur_browser_started(2) started_gui_fields(1,2) by simp
qed

subsection \<open>The number of tabs\<close>

text \<open>Every tab up to the last one exists, and the last one is the \<^verbatim>\<open>+\<close> tab.\<close>

definition tabs_ok :: "gui \<Rightarrow> bool" where
  "tabs_ok g \<longleftrightarrow> gui_ok g \<and> length (webviews g) = MAXVIEWS \<and> 1 \<le> lasttab g \<and> lasttab g < int MAXVIEWS \<and>
     (\<forall>i \<le> nat (lasttab g). BrowserGroup g ! i \<noteq> None \<and> browserwin g ! i \<noteq> None) \<and>
     (\<exists>o'. BrowserGroup g ! nat (lasttab g) = Some o' \<and> grp_label o' = ''+'')"

lemma tabs_ok_started: "tabs_ok started_gui"
  using gui_ok_started started_gui_fields
  by (auto simp: tabs_ok_def table_sizes) (auto simp: started_gui_def GUI_def table_sizes le_Suc_eq nth_list_update)

lemma strcmp_plus: "strcmp ''+'' ''+'' = 0"
  by simp

text \<open>The state after one more tab, as long as there is a slot for it.\<close>

definition with_new_tab :: "string \<Rightarrow> nat \<Rightarrow> nat \<Rightarrow> gui \<Rightarrow> gui" where
  "with_new_tab new_label addr tab_addr g =
     (let n = lasttab g + 1; h = relabel tab_addr new_label g in
      h\<lparr>lasttab := n, BrowserGroup := (BrowserGroup h)[nat n := Some \<lparr>grp_addr = addr, grp_label = ''+''\<rparr>],
        browserwin := (browserwin h)[nat n := Some HtmlBrowser], currenttab := lasttab g,
        webviews := (webviews h)[nat (lasttab g) := True]\<rparr>)"

lemma relabel_simps [simp]:
  "lasttab (relabel a t g) = lasttab g" "browserwin (relabel a t g) = browserwin g"
  "webviews (relabel a t g) = webviews g" "length (BrowserGroup (relabel a t g)) = length (BrowserGroup g)"
  "tables_ok (relabel a t g) = tables_ok g" "wk_calls (relabel a t g) = wk_calls g"
  by (simp_all add: relabel_def tables_ok_def)

lemma relabel_nth:
  "i < length (BrowserGroup g) \<Longrightarrow> BrowserGroup (relabel a t g) ! i = None \<longleftrightarrow> BrowserGroup g ! i = None"
  by (simp add: relabel_def)

lemma tabs_ok_with_new_tab:
  assumes "tabs_ok g" and "lasttab g + 1 < int MAXVIEWS"
  shows "tabs_ok (with_new_tab nl addr ta g)"
proof -
  let ?k = "nat (lasttab g)"
  have lt: "Suc ?k < 600" and k: "nat (lasttab g + 1) = Suc ?k" and pos: "1 \<le> lasttab g"
    using assms by (auto simp: tabs_ok_def table_sizes)
  have len: "length (BrowserGroup g) = 600" "length (browserwin g) = 600" "length (webviews g) = 600"
    and tbl: "tables_ok g"
    using assms(1) by (simp_all add: tabs_ok_def gui_ok_def table_sizes)
  have all: "BrowserGroup g ! i \<noteq> None" "browserwin g ! i \<noteq> None" if "i \<le> ?k" for i
    using assms(1) that by (auto simp: tabs_ok_def)
  let ?h = "with_new_tab nl addr ta g"
  have f: "lasttab ?h = lasttab g + 1" "currenttab ?h = lasttab g" "length (webviews ?h) = 600"
    "browserwin ?h = (browserwin g)[Suc ?k := Some HtmlBrowser]"
    "BrowserGroup ?h = (BrowserGroup (relabel ta nl g))[Suc ?k := Some \<lparr>grp_addr = addr, grp_label = ''+''\<rparr>]"
    using len k by (simp_all add: with_new_tab_def Let_def)
  have tbl': "tables_ok ?h"
    using tbl by (simp add: with_new_tab_def Let_def tables_ok_def relabel_def)
  have slots: "BrowserGroup ?h ! i \<noteq> None" "browserwin ?h ! i \<noteq> None" if "i \<le> Suc ?k" for i
    using that all [of i] lt len relabel_nth [of i g ta nl]
    by (cases "i = Suc ?k"; simp add: f)+
  have "tab_ok ?h (currenttab ?h)"
    using slots [of ?k] lt pos by (auto simp: tab_ok_def f(2) table_sizes)
  then have "gui_ok ?h" using tbl' len by (simp add: gui_ok_def f(4,5) table_sizes)
  then show ?thesis
    using f(3) slots lt len pos assms(2) by (simp add: tabs_ok_def f(1,4,5) k table_sizes)
qed

lemma nth_update_Some: "xs ! i \<noteq> None \<Longrightarrow> xs[k := Some x] ! i \<noteq> None"
  by (cases "i = k"; cases "k < length xs") (simp_all add: list_update_beyond)

lemma tabs_ok_put_browser:
  assumes "tabs_ok g"
  shows "tabs_ok (put_browser x g)"
proof -
  have "browserwin (put_browser x g) ! i \<noteq> None" if "i \<le> nat (lasttab g)" for i
    unfolding put_browser_def using assms that by (simp add: tabs_ok_def nth_update_Some)
  then show ?thesis using assms gui_ok_put_browser [of g x] by (auto simp: tabs_ok_def put_browser_def)
qed

lemma key_ctrl_t_step:
  assumes T: "tabs_ok g" and "lasttab g + 1 < int MAXVIEWS"
  obtains g' where "key_ctrl_t nl addr [] g = Inr g'" and "tabs_ok g'" and "lasttab g' = lasttab g + 1"
    and "currenttab g' = lasttab g" and "wk_calls g' = wk_calls g"
proof -
  obtain o' where o': "BrowserGroup g ! nat (lasttab g) = Some o'" "grp_label o' = ''+''"
    using T by (auto simp: tabs_ok_def)
  let ?h = "with_new_tab nl addr (grp_addr o') g"
  let ?hw = "?h\<lparr>webviews := webviews g\<rparr>"
  have T': "tabs_ok ?h" by (rule tabs_ok_with_new_tab [OF assms])
  have len: "length (BrowserGroup g) = MAXVIEWS" "length (browserwin g) = MAXVIEWS" "length (webviews g) = MAXVIEWS"
    and pos: "1 \<le> lasttab g"
    using T by (simp_all add: tabs_ok_def gui_ok_def)
  have ct: "ConstructTab addr ''+'' (relabel (grp_addr o') nl g)
      = Inr (lasttab g + 1, ?hw\<lparr>currenttab := currenttab g\<rparr>)"
    using assms(2) len pos by (simp add: ConstructTab_def with_new_tab_def Let_def relabel_def)
  have h0: "?hw\<lparr>currenttab := currenttab g, currenttab := lasttab g\<rparr> = ?hw"
    by (simp add: with_new_tab_def Let_def)
  have hw: "?hw\<lparr>webviews := (webviews g)[nat (lasttab g) := True]\<rparr> = ?h"
    by (simp add: with_new_tab_def Let_def relabel_def)
  obtain b where b: "cur_browser ?h = Inr b"
    by (rule cur_browser_ok [of ?h]) (use T' in \<open>simp_all add: tabs_ok_def\<close>)
  moreover have "cur_browser ?hw = cur_browser ?h" by (simp add: cur_browser_def browser_at_def)
  moreover have c: "currenttab ?h = lasttab g" by (simp add: with_new_tab_def Let_def)
  ultimately have iu: "initUi [] ?hw = Inr ?hw" using pos by (simp add: initUi_def)
  have "TabCallback nl addr [] False False [] [] o' g
      = Inr (put_browser (b\<lparr>loc_value := loc_value b @ ''http://''\<rparr>) ?h)"
    using ct o'(2) assms(2) iu len(3) pos b hw h0
    by (simp add: TabCallback_def Let_def del: append.simps)
  moreover have "arr_at (BrowserGroup g) (lasttab g) = Inr (Some o')"
    using o' len pos assms(2) by simp
  ultimately have run: "key_ctrl_t nl addr [] g = Inr (put_browser (b\<lparr>loc_value := loc_value b @ ''http://''\<rparr>) ?h)"
    by (simp add: key_ctrl_t_def)
  moreover have "tabs_ok (put_browser x ?h)" for x by (rule tabs_ok_put_browser [OF T'])
  ultimately show thesis
    by (rule that) (simp_all add: c with_new_tab_def Let_def put_browser_def)
qed

lemma key_ctrl_t_full:
  assumes T: "tabs_ok g" and "lasttab g + 1 = int MAXVIEWS"
  shows "key_ctrl_t nl addr args g = Inl OutOfBounds"
proof -
  obtain o' where o': "BrowserGroup g ! nat (lasttab g) = Some o'" "grp_label o' = ''+''"
    using T by (auto simp: tabs_ok_def)
  have len: "length (BrowserGroup g) = MAXVIEWS" using T by (simp add: tabs_ok_def gui_ok_def)
  have "ConstructTab addr ''+'' (relabel (grp_addr o') nl g) = Inl OutOfBounds"
    using assms(2) len by (simp add: ConstructTab_def Let_def)
  then have "TabCallback nl addr args False False [] [] o' g = Inl OutOfBounds"
    using o'(2) assms(2) by (simp add: TabCallback_def)
  moreover have "arr_at (BrowserGroup g) (lasttab g) = Inr (Some o')"
    using o' len T assms(2) by (simp add: tabs_ok_def)
  ultimately show ?thesis by (simp add: key_ctrl_t_def)
qed

lemma open_tabs_ok:
  "\<lbrakk>tabs_ok g; lasttab g + int n < int MAXVIEWS\<rbrakk> \<Longrightarrow>
   \<exists>g'. open_tabs nl addr n g = Inr g' \<and> tabs_ok g' \<and> lasttab g' = lasttab g + int n \<and>
     wk_calls g' = wk_calls g"
proof (induction n arbitrary: g addr)
  case (Suc n)
  then have "lasttab g + 1 < int MAXVIEWS" by simp
  then obtain g1 where g1: "key_ctrl_t nl addr [] g = Inr g1" "tabs_ok g1" "lasttab g1 = lasttab g + 1"
    "wk_calls g1 = wk_calls g" using key_ctrl_t_step [OF Suc.prems(1)] by metis
  then have "lasttab g1 + int n < int MAXVIEWS" using Suc.prems(2) by simp
  from Suc.IH [OF g1(2) this, of "Suc addr"] show ?case using g1 by auto
qed simp

lemma open_tabs_append:
  "open_tabs nl addr (n + m) g = bindc (open_tabs nl addr n g) (open_tabs nl (addr + n) m)"
proof (induction n arbitrary: g addr)
  case (Suc n)
  then show ?case by (cases "key_ctrl_t nl addr [] g") simp_all
qed simp

text \<open>C8: starting from the window with its first tab, up to 598 new tabs can be opened with
  Ctrl-T; each is created, nothing is loaded in it, and the \<open>+\<close> tab stays last.  The next
  one is not refused by the guard \<open>lasttab >= MAXVIEWS\<close>: it writes slot 600 of arrays that have
  600 slots.\<close>
theorem tab_limit_is_off_by_one:
  "(\<forall>n \<le> 598. \<exists>g'. open_tabs new_label addr n started_gui = Inr g' \<and> tabs_ok g' \<and>
      lasttab g' = int n + 1 \<and> wk_calls g' = []) \<and>
   open_tabs new_label addr 599 started_gui = Inl OutOfBounds"
proof
  show "\<forall>n \<le> 598. \<exists>g'. open_tabs new_label addr n started_gui = Inr g' \<and> tabs_ok g' \<and>
      lasttab g' = int n + 1 \<and> wk_calls g' = []"
  proof (intro allI impI)
    fix n :: nat assume "n \<le> 598"
    then have "lasttab started_gui + int n < int MAXVIEWS"
      by (simp add: started_gui_fields table_sizes)
    from open_tabs_ok [OF tabs_ok_started this, of new_label addr]
    show "\<exists>g'. open_tabs new_label addr n started_gui = Inr g' \<and> tabs_ok g' \<and>
      lasttab g' = int n + 1 \<and> wk_calls g' = []"
      by (auto simp: started_gui_fields)
  qed
  have "lasttab started_gui + int 598 < int MAXVIEWS"
    by (simp add: started_gui_fields table_sizes)
  from open_tabs_ok [OF tabs_ok_started this, of new_label addr]
  obtain g where g: "open_tabs new_label addr 598 started_gui = Inr g" "tabs_ok g" "lasttab g = 599"
    by (auto simp: started_gui_fields)
  have "key_ctrl_t new_label (addr + 598) [] g = Inl OutOfBounds"
    by (rule key_ctrl_t_full [OF g(2)]) (simp add: g(3) table_sizes)
  then have "open_tabs new_label (addr + 598) (Suc 0) g = Inl OutOfBounds" by simp
  then show "open_tabs new_label addr 599 started_gui = Inl OutOfBounds"
    using open_tabs_append [of new_label addr 598 1 started_gui] g(1) by simp
qed

theorem tab_limit_is_off_by_one_witness:
  "(\<exists>g'. open_tabs ''New Tab     '' 2 598 started_gui = Inr g' \<and> lasttab g' = 599) \<and>
   open_tabs ''New Tab     '' 2 599 started_gui = Inl OutOfBounds"
  using tab_limit_is_off_by_one [of "''New Tab     ''" 2] by auto

subsection \<open>Answers to a response\<close>

text \<open>C7: every response gets exactly one answer.  It is downloaded when the user asked to save the
  link's target (a wish that holds for one response only), when it is an attachment, and when it
  is a main resource that cannot be shown; it is ignored when it belongs to a subframe, cannot be
  shown and is not XML; and it is shown otherwise.\<close>
theorem response_policy:
  assumes ok: "gui_ok g" and b: "cur_browser g = Inr b"
  shows "\<exists>g' b'. decidePolicyForResponse att mime isMain canShow g = Inr g' \<and> gui_ok g' \<and>
    cur_browser g' = Inr b' \<and> \<not> savetargetas b' \<and>
    wk_calls g' = wk_calls g @
      [if savetargetas b \<or> att \<or> isMain \<and> \<not> canShow then WKFramePolicyListenerDownload
       else if \<not> isMain \<and> \<not> canShow \<and> mime \<notin> {''text/xml'', ''application/xml''}
       then WKFramePolicyListenerIgnore else WKFramePolicyListenerUse]"
proof (cases "savetargetas b")
  case True
  let ?g = "call_wk WKFramePolicyListenerDownload (put_browser (b\<lparr>savetargetas := False\<rparr>) g)"
  have "cur_browser ?g = Inr (b\<lparr>savetargetas := False\<rparr>)"
    using cur_browser_put [OF ok, of "b\<lparr>savetargetas := False\<rparr>"]
    by (simp add: cur_browser_def browser_at_def call_wk_def)
  then show ?thesis
    using True ok b by (intro exI [of _ ?g] exI [of _ "b\<lparr>savetargetas := False\<rparr>"])
      (simp add: decidePolicyForResponse_def)
next
  case False
  define c where "c = (if att \<or> isMain \<and> \<not> canShow then WKFramePolicyListenerDownload
       else if \<not> isMain \<and> \<not> canShow \<and> mime \<notin> {''text/xml'', ''application/xml''}
       then WKFramePolicyListenerIgnore else WKFramePolicyListenerUse)"
  have "decidePolicyForResponse att mime isMain canShow g = Inr (call_wk c g)"
    using False b by (auto simp: decidePolicyForResponse_def c_def)
  moreover have "cur_browser (call_wk c g) = Inr b"
    using b by (simp add: cur_browser_def browser_at_def call_wk_def)
  ultimately show ?thesis using False ok by (auto simp: c_def)
qed

theorem response_policy_witness:
  "\<exists>g' b'. decidePolicyForResponse False ''image/x'' False False started_gui = Inr g' \<and> gui_ok g' \<and>
    cur_browser g' = Inr b' \<and> \<not> savetargetas b' \<and> wk_calls g' = [WKFramePolicyListenerIgnore]"
  using response_policy [OF gui_ok_started cur_browser_started(1), of False "''image/x''" False False]
  by (simp add: HtmlBrowser_def started_gui_fields)

text \<open>Saving a link's target: the next response is downloaded whatever it is.\<close>

lemma save_target_then_response:
  assumes ok: "gui_ok g" and d: "download_file dir True url g = Inr (path, g1)"
  shows "\<exists>g'. decidePolicyForResponse att mime isMain canShow g1 = Inr g' \<and>
    wk_calls g' = wk_calls g @ [WKPageLoadURL (currenttab g) url, WKFramePolicyListenerDownload]"
proof -
  obtain b where b: "cur_browser g = Inr b" by (rule cur_browser_ok [OF ok])
  have g1: "g1 = loadURL (Some url) (put_browser (b\<lparr>savetargetas := True\<rparr>) g)"
    using d b by (auto simp: download_file_def Let_def bindc_eq_Inr split: if_splits)
  have "cur_browser g1 = Inr (b\<lparr>savetargetas := True\<rparr>)"
    unfolding g1 using cur_browser_put [OF ok, of "b\<lparr>savetargetas := True\<rparr>"]
    by (simp add: loadURL_def cur_browser_def browser_at_def call_wk_def)
  then show ?thesis
    by (simp add: decidePolicyForResponse_def) (simp add: g1 loadURL_def)
qed

text \<open>The name proposed for a URL without a slash lacks its first character.\<close>

lemma download_name_without_slash:
  assumes "CHR ''/'' \<notin> set (c # name)" and "length name < 1023" and "length (dir @ name) < 1024"
  shows "\<exists>g'. download_file dir False (c # name) g = Inr (dir @ name, g')"
  using assms by (simp add: download_file_def Let_def)

end
