(* ===== verification/NetRider_Keys.thy ===== *)
theory NetRider_Keys
  imports NetRider_Tabs
begin

text \<open>
  The keyboard handler of a NetRider tab, \<^verbatim>\<open>MyGlWindow::handle_key\<close>: shortcuts of the
  shell, the function keys, the Enter key in the location and search fields, and the keys that are
  passed on to the page.
\<close>

text \<open>The native key codes that the handler names.\<close>

datatype nix_key = F1 | F2 | F3 | F4 | F5 | F6 | F7 | F8 | Scroll_key int | Other_key int

fun key_code :: "nix_key \<Rightarrow> int" where
  "key_code (Scroll_key c) = c"
| "key_code (Other_key c) = c"
| "key_code _ = 0"

text \<open>
  The event: modifiers, FLTK key, native key (\<open>Scroll_key\<close> is Home, End, Page Up or Page Down), the
  code of the typed text, whether it is the Enter key; and the answers of the outside world:
  whether the page can go back or forward, the answer of the close dialog, the text of the URL dialog,
  and what a new tab needs.
\<close>

record key_event =
  ke_ctrl :: bool
  ke_alt :: bool
  ke_key :: int
  ke_nix :: nix_key
  ke_text_code :: int
  ke_enter :: bool
  ke_can_back :: bool
  ke_can_forward :: bool
  ke_confirmed :: bool
  ke_input :: "string option"
  ke_loading :: string
  ke_new_label :: string
  ke_addr :: nat
  ke_args :: "string list"

definition FL_Left :: int where "FL_Left = 65361"
definition FL_Right :: int where "FL_Right = 65363"

definition send_key :: "int \<Rightarrow> gui \<Rightarrow> gui" where
  "send_key c g = call_wk (NIXViewSendKeyEvent (currenttab g) c) g"

text \<open>The last part of the handler: the key goes to the page with the code of its text.\<close>

definition key_to_page :: "key_event \<Rightarrow> gui \<Rightarrow> gui" where
  "key_to_page e g = send_key (ke_text_code e) g"

text \<open>The \<^verbatim>\<open>default\<close> case of the switch.\<close>

definition key_default :: "key_event \<Rightarrow> gui \<Rightarrow> gui cres" where
  "key_default e g =
     bindc (cur_browser g) (\<lambda>b.
       if ke_enter e \<and> strcmp (currenturl b) (loc_value b) \<noteq> 0 then cb_loc (ke_loading e) g
       else if ke_enter e \<and> search_value b \<noteq> [] then cb_search (ke_loading e) g
       else
         let c = key_code (ke_nix e) in
         if 16700000 < c \<and> c < 30000000
         then let g = send_key c g in
              Inr (case ke_nix e of
                Scroll_key _ \<Rightarrow> call_wk (WKPageGetScrollPosForFrame (currenttab g)) g
              | _ \<Rightarrow> g)
         else Inr (key_to_page e g))"

text \<open>The switch on the native key.\<close>

definition key_switch :: "key_event \<Rightarrow> gui \<Rightarrow> gui cres" where
  "key_switch e g = (case ke_nix e of
     F1 \<Rightarrow> Inr g
   | F2 \<Rightarrow> Inr (loadURL (ke_input e) g)
   | F3 \<Rightarrow> Inr (loadURL (Some ''http://www.google.com'') g)
   | F4 \<Rightarrow> Inr (loadURL (Some ''http://www.wikipedia.com'') g)
   | F5 \<Rightarrow> Inr g
   | F6 \<Rightarrow> Inr g
   | F7 \<Rightarrow> Inr g
   | F8 \<Rightarrow> Inr g
   | Scroll_key c \<Rightarrow> key_default e g
   | Other_key c \<Rightarrow> key_default e g)"

text \<open>The Alt shortcuts, and the switch for what is left.\<close>

definition key_alt :: "key_event \<Rightarrow> gui \<Rightarrow> gui cres" where
  "key_alt e g =
     (if ke_alt e \<and> ke_key e = FL_Left then Inr (cb_back (ke_can_back e) g)
      else if ke_alt e \<and> ke_key e = FL_Right then Inr (cb_forward (ke_can_forward e) g)
      else key_switch e g)"

text \<open>
  The whole handler.  A Ctrl-W whose dialog is answered with \<^emph>\<open>No\<close> is not finished by the
  shell: it falls through to the rest of the handler.  Ctrl-F only opens the find window.
\<close>

definition handle_key :: "key_event \<Rightarrow> gui \<Rightarrow> gui cres" where
  "handle_key e g =
     (if ke_ctrl e \<and> ke_key e = of_char CHR ''s'' then Inr (cb_stop g)
      else if ke_ctrl e \<and> ke_key e = of_char CHR ''r'' then Inr (cb_reload g)
      else if ke_ctrl e \<and> ke_key e = of_char CHR ''f'' then Inr g
      else if ke_ctrl e \<and> ke_key e = of_char CHR ''t''
      then key_ctrl_t (ke_new_label e) (ke_addr e) (ke_args e) g
      else if ke_ctrl e \<and> ke_key e = of_char CHR ''w''
      then (if currenttab g = 0 \<or> currenttab g = lasttab g \<or> ke_confirmed e
            then key_ctrl_w (ke_confirmed e) g
            else key_alt e g)
      else key_alt e g)"

lemma gui_ok_loadURL [simp]: "gui_ok (loadURL u g) = gui_ok g"
  by (simp add: loadURL_def split: option.split)

lemma gui_ok_send_key [simp]: "gui_ok (send_key c g) = gui_ok g"
  by (simp add: send_key_def)

lemma cb_search_ok:
  assumes "gui_ok g" and "cur_browser g = Inr b" and "length (search_value b) < 993"
  obtains g' where "cb_search l g = Inr g'" and "gui_ok g'"
    and "wk_calls g' = wk_calls g @ [WKPageLoadURL (currenttab g)
      (''http://www.google.com/search?q='' @ map (\<lambda>c. if c = CHR '' '' then CHR ''+'' else c) (search_value b))]"
proof -
  let ?q = "map (\<lambda>c. if c = CHR '' '' then CHR ''+'' else c)"
  let ?u = "''http://www.google.com/search?q='' @ search_value b"
  obtain b' gs where sl: "show_loading l g = Inr ((put_browser b' g)\<lparr>BrowserGroup := gs\<rparr>)"
    "gui_ok ((put_browser b' g)\<lparr>BrowserGroup := gs\<rparr>)" by (rule show_loading_ok [OF assms(1)])
  have "sprintf 1024 ?u = Inr ?u" using assms(3) by (intro sprintf_fits) simp
  then have "cb_search l g = Inr (loadURL (Some (?q ?u)) ((put_browser b' g)\<lparr>BrowserGroup := gs\<rparr>))"
    using assms(2) sl(1) by (simp add: cb_search_def del: append.simps)
  moreover have "?q ?u = ''http://www.google.com/search?q='' @ ?q (search_value b)" by simp
  ultimately show thesis using that sl(2) by (simp add: loadURL_def del: append.simps)
qed

text \<open>What the Enter key does while a page has the focus.  When the location field differs from
  the page's URL, the typed address is loaded as by the Go button; otherwise, when there is text
  in the search field, one search URL is loaded, in which every blank has become a plus sign; and
  otherwise the key goes to the page.  In no case is it handled twice.\<close>
theorem enter_key:
  assumes ok: "gui_ok g" and b: "cur_browser g = Inr b"
    and ev: "ke_enter e" "\<not> ke_ctrl e" "\<not> ke_alt e" "ke_nix e = Other_key c"
    and sv: "length (search_value b) < 993" and cs: "c_string (currenturl b)" "c_string (loc_value b)"
  shows "if loc_value b \<noteq> currenturl b then handle_key e g = cb_loc (ke_loading e) g
    else \<exists>g'. handle_key e g = Inr g' \<and> gui_ok g' \<and>
      wk_calls g' = wk_calls g @
        [if search_value b \<noteq> []
         then WKPageLoadURL (currenttab g) (''http://www.google.com/search?q='' @
           map (\<lambda>c. if c = CHR '' '' then CHR ''+'' else c) (search_value b))
         else NIXViewSendKeyEvent (currenttab g)
           (if 16700000 < c \<and> c < 30000000 then c else ke_text_code e)]"
proof -
  have hk: "handle_key e g = key_default e g"
    using ev by (simp add: handle_key_def key_alt_def key_switch_def)
  have same: "strcmp (currenturl b) (loc_value b) = 0 \<longleftrightarrow> loc_value b = currenturl b" using cs by auto
  show ?thesis
  proof (cases "loc_value b = currenturl b")
    case False
    then show ?thesis using b ev same by (simp add: hk key_default_def)
  next
    case True
    show ?thesis
    proof (cases "search_value b = []")
      case True
      with \<open>loc_value b = currenturl b\<close> show ?thesis
        using b ev ok by (auto simp: hk key_default_def key_to_page_def send_key_def)
    next
      case False
      obtain g' where "cb_search (ke_loading e) g = Inr g'" "gui_ok g'"
        "wk_calls g' = wk_calls g @ [WKPageLoadURL (currenttab g)
          (''http://www.google.com/search?q='' @ map (\<lambda>c. if c = CHR '' '' then CHR ''+'' else c) (search_value b))]"
        by (rule cb_search_ok [OF ok b sv])
      with \<open>loc_value b = currenturl b\<close> False show ?thesis
        using b ev by (simp add: hk key_default_def del: append.simps)
    qed
  qed
qed

definition enter_event :: key_event where
  "enter_event = \<lparr>ke_ctrl = False, ke_alt = False, ke_key = 65293, ke_nix = Other_key 16777220, ke_text_code = 13,
     ke_enter = True, ke_can_back = False, ke_can_forward = False, ke_confirmed = False, ke_input = None,
     ke_loading = ''Loading'', ke_new_label = [], ke_addr = 2, ke_args = []\<rparr>"

theorem enter_key_witness:
  "\<exists>g'. handle_key enter_event (put_browser (HtmlBrowser\<lparr>search_value := ''a b''\<rparr>) started_gui) = Inr g' \<and>
     wk_calls g' = [WKPageLoadURL 0 ''http://www.google.com/search?q=a+b'']"
proof -
  let ?b = "HtmlBrowser\<lparr>search_value := ''a b''\<rparr>"
  have "gui_ok (put_browser ?b started_gui)" "cur_browser (put_browser ?b started_gui) = Inr ?b"
    by (simp_all add: cur_browser_put)
  from enter_key [OF this, of enter_event 16777220] show ?thesis
    by (auto simp: enter_event_def HtmlBrowser_def started_gui_fields cur_browser_started(2))
qed

text \<open>The shell's own shortcuts never reach the page, and the last question of Ctrl-W decides: a
  refused close is sent on as a key press.\<close>

lemma shortcut_calls:
  assumes "ke_ctrl e"
  shows "ke_key e = of_char CHR ''s'' \<Longrightarrow> handle_key e g = Inr (call_wk (WKPageStopLoading (currenttab g)) g)"
    and "ke_key e = of_char CHR ''r'' \<Longrightarrow> handle_key e g = Inr (call_wk (WKPageReload (currenttab g)) g)"
    and "\<lbrakk>ke_key e = of_char CHR ''w''; currenttab g \<noteq> 0; currenttab g \<noteq> lasttab g; \<not> ke_confirmed e\<rbrakk> \<Longrightarrow>
      handle_key e g = key_switch e g"
  using assms by (simp_all add: handle_key_def cb_stop_def cb_reload_def key_alt_def FL_Left_def FL_Right_def)

end
