(* ===== verification/Page_Load_State.thy ===== *)
theory Page_Load_State
  imports Complex_Main Prelude
begin

text \<open>
  The load state of a page in the UI process
  (\<^verbatim>\<open>WebKit2/UIProcess/PageLoadState.cpp\<close>): two copies of the observable data, the one the
  handlers write (uncommitted) and the one the accessors read (committed), and transactions whose
  end publishes the first as the second while the registered observers are told what changes.

  A \<^verbatim>\<open>WTF::String\<close> is a \<open>string option\<close>: \<open>None\<close> is the null string, which differs
  from the empty one. A \<^verbatim>\<open>double\<close> that is only stored and compared is a rational. The
  observers' callbacks are recorded in a log together with the state they can read at that moment;
  a callback that calls back into the page is not modelled. The \<^verbatim>\<open>ASSERT\<close>s of the class are
  compiled out of release builds and are not branches of the operations.
\<close>

type_synonym wtf_string = "string option"

abbreviation nullString :: wtf_string where
  "nullString \<equiv> None"

definition str_isEmpty :: "wtf_string \<Rightarrow> bool" where
  "str_isEmpty s \<longleftrightarrow> s = None \<or> s = Some ''''"

definition toASCIILower :: "char \<Rightarrow> char" where
  "toASCIILower c =
     (if 65 \<le> (of_char c :: nat) \<and> (of_char c :: nat) \<le> 90 then char_of ((of_char c :: nat) + 32) else c)"

text \<open>\<^verbatim>\<open>StringImpl::startsWith(chars, caseSensitive = false)\<close>; the null string has no prefix.\<close>

definition str_startsWith_nocase :: "wtf_string \<Rightarrow> string \<Rightarrow> bool" where
  "str_startsWith_nocase s p =
     (case s of None \<Rightarrow> False
      | Some t \<Rightarrow> length p \<le> length t \<and> map toASCIILower (take (length p) t) = map toASCIILower p)"

subsection \<open>The observable data\<close>

datatype load_phase = Provisional | Committed | Finished

record load_data =
  ld_state :: load_phase
  ld_hasInsecureContent :: bool
  ld_pendingAPIRequestURL :: wtf_string
  ld_provisionalURL :: wtf_string
  ld_url :: wtf_string
  ld_unreachableURL :: wtf_string
  ld_title :: wtf_string
  ld_estimatedProgress :: rat

definition initial_load_data :: load_data where
  "initial_load_data =
     \<lparr> ld_state = Finished, ld_hasInsecureContent = False,
       ld_pendingAPIRequestURL = nullString, ld_provisionalURL = nullString, ld_url = nullString,
       ld_unreachableURL = nullString, ld_title = nullString, ld_estimatedProgress = 0 \<rparr>"

definition initialProgressValue :: rat where
  "initialProgressValue = 1 / 10"

fun isLoadingState :: "load_phase \<Rightarrow> bool" where
  "isLoadingState Provisional = True"
| "isLoadingState Committed = True"
| "isLoadingState Finished = False"

definition data_activeURL :: "load_data \<Rightarrow> wtf_string" where
  "data_activeURL d =
     (if ld_pendingAPIRequestURL d \<noteq> nullString then ld_pendingAPIRequestURL d
      else if \<not> str_isEmpty (ld_unreachableURL d) then ld_unreachableURL d
      else (case ld_state d of
              Provisional \<Rightarrow> ld_provisionalURL d
            | Committed \<Rightarrow> ld_url d
            | Finished \<Rightarrow> ld_url d))"

definition data_hasOnlySecureContent :: "load_data \<Rightarrow> bool" where
  "data_hasOnlySecureContent d =
     (if ld_hasInsecureContent d then False else str_startsWith_nocase (ld_url d) ''https:'')"

definition data_estimatedProgress :: "load_data \<Rightarrow> rat" where
  "data_estimatedProgress d =
     (if ld_pendingAPIRequestURL d \<noteq> nullString then initialProgressValue
      else ld_estimatedProgress d)"

subsection \<open>Observers and transactions\<close>

datatype observable = Title | IsLoading | ActiveURL | HasOnlySecureContent | EstimatedProgress

datatype observer_callback = WillChange observable | DidChange observable

type_synonym observer_call = "nat \<times> observer_callback \<times> load_data"

record page_load_state =
  pl_observers :: "nat list"
  pl_committed :: load_data
  pl_uncommitted :: load_data
  pl_lastUnreachableURL :: wtf_string
  pl_mayHaveUncommittedChanges :: bool
  pl_outstandingTransactionCount :: nat
  pl_calls :: "observer_call list"

definition PageLoadState :: page_load_state where
  "PageLoadState =
     \<lparr> pl_observers = [], pl_committed = initial_load_data, pl_uncommitted = initial_load_data,
       pl_lastUnreachableURL = nullString, pl_mayHaveUncommittedChanges = False,
       pl_outstandingTransactionCount = 0, pl_calls = [] \<rparr>"

definition addObserver :: "nat \<Rightarrow> page_load_state \<Rightarrow> page_load_state" where
  "addObserver ob s = s\<lparr>pl_observers := pl_observers s @ [ob]\<rparr>"

text \<open>
  \<^verbatim>\<open>Vector::find\<close> answers \<^verbatim>\<open>notFound\<close> when the observer is not registered and
  \<^verbatim>\<open>Vector::remove\<close> checks its position.
\<close>

definition removeObserver :: "nat \<Rightarrow> page_load_state \<Rightarrow> page_load_state res" where
  "removeObserver ob s =
     (let i = first_index ob (pl_observers s)
      in if i < length (pl_observers s)
         then Inr (s\<lparr>pl_observers := take i (pl_observers s) @ drop (Suc i) (pl_observers s)\<rparr>)
         else Inl VectorOverflow)"

text \<open>Each observer is called in registration order and may read the committed state.\<close>

definition callObserverCallback ::
    "observer_callback \<Rightarrow> page_load_state \<Rightarrow> page_load_state" where
  "callObserverCallback cb s =
     s\<lparr>pl_calls := pl_calls s @ map (\<lambda>ob. (ob, cb, pl_committed s)) (pl_observers s)\<rparr>"

definition notify_if :: "bool \<Rightarrow> observer_callback \<Rightarrow> page_load_state \<Rightarrow> page_load_state" where
  "notify_if changed cb s = (if changed then callObserverCallback cb s else s)"

definition commitChanges :: "page_load_state \<Rightarrow> page_load_state" where
  "commitChanges s0 =
     (if \<not> pl_mayHaveUncommittedChanges s0 then s0
      else
        let s = s0\<lparr>pl_mayHaveUncommittedChanges := False\<rparr>;
            old = pl_committed s;
            new = pl_uncommitted s;
            titleChanged = (ld_title old \<noteq> ld_title new);
            isLoadingChanged = (isLoadingState (ld_state old) \<noteq> isLoadingState (ld_state new));
            activeURLChanged = (data_activeURL old \<noteq> data_activeURL new);
            hasOnlySecureContentChanged =
              (data_hasOnlySecureContent old \<noteq> data_hasOnlySecureContent new);
            estimatedProgressChanged = (data_estimatedProgress old \<noteq> data_estimatedProgress new);
            s = notify_if titleChanged (WillChange Title) s;
            s = notify_if isLoadingChanged (WillChange IsLoading) s;
            s = notify_if activeURLChanged (WillChange ActiveURL) s;
            s = notify_if hasOnlySecureContentChanged (WillChange HasOnlySecureContent) s;
            s = notify_if estimatedProgressChanged (WillChange EstimatedProgress) s;
            s = s\<lparr>pl_committed := pl_uncommitted s\<rparr>;
            s = notify_if estimatedProgressChanged (DidChange EstimatedProgress) s;
            s = notify_if hasOnlySecureContentChanged (DidChange HasOnlySecureContent) s;
            s = notify_if activeURLChanged (DidChange ActiveURL) s;
            s = notify_if isLoadingChanged (DidChange IsLoading) s
        in notify_if titleChanged (DidChange Title) s)"

definition beginTransaction :: "page_load_state \<Rightarrow> page_load_state" where
  "beginTransaction s =
     s\<lparr>pl_outstandingTransactionCount := u32 (pl_outstandingTransactionCount s + 1)\<rparr>"

definition endTransaction :: "page_load_state \<Rightarrow> page_load_state" where
  "endTransaction s0 =
     (let s = s0\<lparr>pl_outstandingTransactionCount := u32_dec (pl_outstandingTransactionCount s0)\<rparr>
      in if pl_outstandingTransactionCount s = 0 then commitChanges s else s)"

text \<open>
  Passing a \<^verbatim>\<open>Transaction\<close> where a \<^verbatim>\<open>Transaction::Token\<close> is expected constructs the token,
  which marks the state.
\<close>

definition token :: "page_load_state \<Rightarrow> page_load_state" where
  "token s = s\<lparr>pl_mayHaveUncommittedChanges := True\<rparr>"

definition set_data :: "(load_data \<Rightarrow> load_data) \<Rightarrow> page_load_state \<Rightarrow> page_load_state" where
  "set_data f s = s\<lparr>pl_uncommitted := f (pl_uncommitted s)\<rparr>"

subsection \<open>Accessors\<close>

definition PageLoadState_isLoading :: "page_load_state \<Rightarrow> bool" where
  "PageLoadState_isLoading s = isLoadingState (ld_state (pl_committed s))"

definition PageLoadState_activeURL :: "page_load_state \<Rightarrow> wtf_string" where
  "PageLoadState_activeURL s = data_activeURL (pl_committed s)"

definition PageLoadState_hasOnlySecureContent :: "page_load_state \<Rightarrow> bool" where
  "PageLoadState_hasOnlySecureContent s = data_hasOnlySecureContent (pl_committed s)"

definition PageLoadState_estimatedProgress :: "page_load_state \<Rightarrow> rat" where
  "PageLoadState_estimatedProgress s = data_estimatedProgress (pl_committed s)"

definition PageLoadState_pendingAPIRequestURL :: "page_load_state \<Rightarrow> wtf_string" where
  "PageLoadState_pendingAPIRequestURL s = ld_pendingAPIRequestURL (pl_committed s)"

definition PageLoadState_title :: "page_load_state \<Rightarrow> wtf_string" where
  "PageLoadState_title s = ld_title (pl_committed s)"

subsection \<open>Operations on the uncommitted state\<close>

definition PageLoadState_reset :: "page_load_state \<Rightarrow> page_load_state" where
  "PageLoadState_reset s =
     (set_data (\<lambda>d. d\<lparr>ld_state := Finished, ld_hasInsecureContent := False,
                     ld_pendingAPIRequestURL := nullString, ld_provisionalURL := nullString,
                     ld_url := nullString, ld_unreachableURL := nullString,
                     ld_title := nullString, ld_estimatedProgress := 0\<rparr>)
       (token s))\<lparr>pl_lastUnreachableURL := nullString\<rparr>"

definition PageLoadState_setPendingAPIRequestURL ::
    "wtf_string \<Rightarrow> page_load_state \<Rightarrow> page_load_state" where
  "PageLoadState_setPendingAPIRequestURL u s =
     set_data (\<lambda>d. d\<lparr>ld_pendingAPIRequestURL := u\<rparr>) (token s)"

definition PageLoadState_clearPendingAPIRequestURL :: "page_load_state \<Rightarrow> page_load_state" where
  "PageLoadState_clearPendingAPIRequestURL s =
     set_data (\<lambda>d. d\<lparr>ld_pendingAPIRequestURL := nullString\<rparr>) (token s)"

definition PageLoadState_setUnreachableURL ::
    "wtf_string \<Rightarrow> page_load_state \<Rightarrow> page_load_state" where
  "PageLoadState_setUnreachableURL u s0 =
     (let s = token s0;
          s = s\<lparr>pl_lastUnreachableURL := ld_unreachableURL (pl_uncommitted s)\<rparr>
      in set_data (\<lambda>d. d\<lparr>ld_unreachableURL := u\<rparr>) s)"

definition PageLoadState_didStartProvisionalLoad ::
    "wtf_string \<Rightarrow> wtf_string \<Rightarrow> page_load_state \<Rightarrow> page_load_state" where
  "PageLoadState_didStartProvisionalLoad u unreachable s =
     PageLoadState_setUnreachableURL unreachable
       (set_data (\<lambda>d. d\<lparr>ld_state := Provisional, ld_provisionalURL := u\<rparr>) (token s))"

definition PageLoadState_didReceiveServerRedirectForProvisionalLoad ::
    "wtf_string \<Rightarrow> page_load_state \<Rightarrow> page_load_state" where
  "PageLoadState_didReceiveServerRedirectForProvisionalLoad u s =
     set_data (\<lambda>d. d\<lparr>ld_provisionalURL := u\<rparr>) (token s)"

definition PageLoadState_didFailProvisionalLoad :: "page_load_state \<Rightarrow> page_load_state" where
  "PageLoadState_didFailProvisionalLoad s =
     set_data (\<lambda>d. d\<lparr>ld_state := Finished, ld_provisionalURL := nullString,
                    ld_unreachableURL := pl_lastUnreachableURL s\<rparr>) (token s)"

definition PageLoadState_didCommitLoad :: "page_load_state \<Rightarrow> page_load_state" where
  "PageLoadState_didCommitLoad s =
     set_data (\<lambda>d. d\<lparr>ld_state := Committed, ld_hasInsecureContent := False,
                    ld_url := ld_provisionalURL d, ld_provisionalURL := nullString,
                    ld_title := nullString\<rparr>) (token s)"

definition PageLoadState_didFinishLoad :: "page_load_state \<Rightarrow> page_load_state" where
  "PageLoadState_didFinishLoad s = set_data (\<lambda>d. d\<lparr>ld_state := Finished\<rparr>) (token s)"

definition PageLoadState_didFailLoad :: "page_load_state \<Rightarrow> page_load_state" where
  "PageLoadState_didFailLoad s = set_data (\<lambda>d. d\<lparr>ld_state := Finished\<rparr>) (token s)"

definition PageLoadState_didSameDocumentNavigation ::
    "wtf_string \<Rightarrow> page_load_state \<Rightarrow> page_load_state" where
  "PageLoadState_didSameDocumentNavigation u s = set_data (\<lambda>d. d\<lparr>ld_url := u\<rparr>) (token s)"

definition PageLoadState_didDisplayOrRunInsecureContent ::
    "page_load_state \<Rightarrow> page_load_state" where
  "PageLoadState_didDisplayOrRunInsecureContent s =
     set_data (\<lambda>d. d\<lparr>ld_hasInsecureContent := True\<rparr>) (token s)"

definition PageLoadState_setTitle :: "wtf_string \<Rightarrow> page_load_state \<Rightarrow> page_load_state" where
  "PageLoadState_setTitle t s = set_data (\<lambda>d. d\<lparr>ld_title := t\<rparr>) (token s)"

definition PageLoadState_didStartProgress :: "page_load_state \<Rightarrow> page_load_state" where
  "PageLoadState_didStartProgress s =
     set_data (\<lambda>d. d\<lparr>ld_estimatedProgress := initialProgressValue\<rparr>) (token s)"

definition PageLoadState_didChangeProgress :: "rat \<Rightarrow> page_load_state \<Rightarrow> page_load_state" where
  "PageLoadState_didChangeProgress v s =
     set_data (\<lambda>d. d\<lparr>ld_estimatedProgress := v\<rparr>) (token s)"

definition PageLoadState_didFinishProgress :: "page_load_state \<Rightarrow> page_load_state" where
  "PageLoadState_didFinishProgress s =
     set_data (\<lambda>d. d\<lparr>ld_estimatedProgress := 1\<rparr>) (token s)"

lemmas pl_mutator_defs =
  PageLoadState_reset_def PageLoadState_setPendingAPIRequestURL_def
  PageLoadState_clearPendingAPIRequestURL_def PageLoadState_setUnreachableURL_def
  PageLoadState_didStartProvisionalLoad_def
  PageLoadState_didReceiveServerRedirectForProvisionalLoad_def
  PageLoadState_didFailProvisionalLoad_def PageLoadState_didCommitLoad_def
  PageLoadState_didFinishLoad_def PageLoadState_didFailLoad_def
  PageLoadState_didSameDocumentNavigation_def
  PageLoadState_didDisplayOrRunInsecureContent_def PageLoadState_setTitle_def
  PageLoadState_didStartProgress_def PageLoadState_didChangeProgress_def
  PageLoadState_didFinishProgress_def
  set_data_def token_def Let_def

subsection \<open>What a commit does\<close>

text \<open>The values an observer can read, by the accessor each notification is about.\<close>

datatype observed =
  ObservedTitle wtf_string | ObservedFlag bool | ObservedURL wtf_string | ObservedProgress rat

fun observe :: "observable \<Rightarrow> load_data \<Rightarrow> observed" where
  "observe Title d = ObservedTitle (ld_title d)"
| "observe IsLoading d = ObservedFlag (isLoadingState (ld_state d))"
| "observe ActiveURL d = ObservedURL (data_activeURL d)"
| "observe HasOnlySecureContent d = ObservedFlag (data_hasOnlySecureContent d)"
| "observe EstimatedProgress d = ObservedProgress (data_estimatedProgress d)"

definition all_observables :: "observable list" where
  "all_observables = [Title, IsLoading, ActiveURL, HasOnlySecureContent, EstimatedProgress]"

definition changed_observables :: "load_data \<Rightarrow> load_data \<Rightarrow> observable list" where
  "changed_observables old new = filter (\<lambda>ob. observe ob old \<noteq> observe ob new) all_observables"

definition calls_to :: "nat list \<Rightarrow> observer_callback list \<Rightarrow> load_data \<Rightarrow> observer_call list" where
  "calls_to obs cbs d = concat (map (\<lambda>cb. map (\<lambda>ob. (ob, cb, d)) obs) cbs)"

definition calls_of :: "nat \<Rightarrow> observer_call list \<Rightarrow> (observer_callback \<times> load_data) list" where
  "calls_of ob calls = map snd (filter (\<lambda>c. fst c = ob) calls)"

lemma set_all_observables [simp]: "ob \<in> set all_observables"
  by (cases ob) (simp_all add: all_observables_def)

lemma distinct_all_observables [simp]: "distinct all_observables"
  by (simp add: all_observables_def)

lemma distinct_changed_observables [simp]: "distinct (changed_observables d e)"
  by (simp add: changed_observables_def)

lemma set_changed_observables [simp]:
  "ob \<in> set (changed_observables d e) \<longleftrightarrow> observe ob d \<noteq> observe ob e"
  by (simp add: changed_observables_def)

lemma calls_to_append: "calls_to obs (xs @ ys) d = calls_to obs xs d @ calls_to obs ys d"
  by (simp add: calls_to_def)

lemma calls_of_append [simp]: "calls_of ob (xs @ ys) = calls_of ob xs @ calls_of ob ys"
  by (simp add: calls_of_def)

definition notify_all :: "observer_callback list \<Rightarrow> page_load_state \<Rightarrow> page_load_state" where
  "notify_all cbs s = s\<lparr>pl_calls := pl_calls s @ calls_to (pl_observers s) cbs (pl_committed s)\<rparr>"

lemma notify_if_notify_all: "notify_if b cb s = notify_all (if b then [cb] else []) s"
  by (simp add: notify_if_def callObserverCallback_def notify_all_def calls_to_def)

lemma notify_all_notify_all: "notify_all xs (notify_all ys s) = notify_all (ys @ xs) s"
  by (simp add: notify_all_def calls_to_append)

lemma changed_observables_split:
  "map f (changed_observables d e)
     = (if ld_title d \<noteq> ld_title e then [f Title] else [])
     @ (if isLoadingState (ld_state d) \<noteq> isLoadingState (ld_state e) then [f IsLoading] else [])
     @ (if data_activeURL d \<noteq> data_activeURL e then [f ActiveURL] else [])
     @ (if data_hasOnlySecureContent d \<noteq> data_hasOnlySecureContent e then [f HasOnlySecureContent] else [])
     @ (if data_estimatedProgress d \<noteq> data_estimatedProgress e then [f EstimatedProgress] else [])"
  by (simp add: changed_observables_def all_observables_def)

lemma changed_observables_split_rev:
  "map f (rev (changed_observables d e))
     = (if data_estimatedProgress d \<noteq> data_estimatedProgress e then [f EstimatedProgress] else [])
     @ (if data_hasOnlySecureContent d \<noteq> data_hasOnlySecureContent e then [f HasOnlySecureContent] else [])
     @ (if data_activeURL d \<noteq> data_activeURL e then [f ActiveURL] else [])
     @ (if isLoadingState (ld_state d) \<noteq> isLoadingState (ld_state e) then [f IsLoading] else [])
     @ (if ld_title d \<noteq> ld_title e then [f Title] else [])"
  by (simp add: changed_observables_def all_observables_def)

lemma commitChanges_eq:
  "commitChanges s =
     (if pl_mayHaveUncommittedChanges s
      then s\<lparr>pl_mayHaveUncommittedChanges := False, pl_committed := pl_uncommitted s,
             pl_calls := pl_calls s
               @ calls_to (pl_observers s)
                   (map WillChange (changed_observables (pl_committed s) (pl_uncommitted s)))
                   (pl_committed s)
               @ calls_to (pl_observers s)
                   (map DidChange (rev (changed_observables (pl_committed s) (pl_uncommitted s))))
                   (pl_uncommitted s)\<rparr>
      else s)"
  by (simp only: commitChanges_def Let_def notify_if_notify_all notify_all_notify_all
      changed_observables_split changed_observables_split_rev append_assoc page_load_state.simps)
    (simp add: notify_all_def)

lemma calls_of_calls_to:
  assumes "distinct obs" "ob \<in> set obs"
  shows "calls_of ob (calls_to obs cbs d) = map (\<lambda>cb. (cb, d)) cbs"
proof (induction cbs)
  case Nil
  then show ?case by (simp add: calls_of_def calls_to_def)
next
  case (Cons cb cbs)
  have "filter (\<lambda>x. x = ob) obs = [ob]"
    using assms by (induction obs) (auto simp: filter_empty_conv)
  hence "map snd (filter (\<lambda>c. fst c = ob) (map (\<lambda>ob. (ob, cb, d)) obs)) = [(cb, d)]"
    by (simp add: filter_map comp_def)
  with Cons show ?case by (simp add: calls_of_def calls_to_def)
qed

lemma calls_of_not_observer: "ob \<notin> set obs \<Longrightarrow> calls_of ob (calls_to obs cbs d) = []"
  by (induction cbs) (auto simp: calls_of_def calls_to_def filter_empty_conv)

text \<open>C25: A commit publishes the uncommitted data, and every registered observer is told about
  exactly the accessors whose value it changes: first the \<open>will\<close> callbacks in a fixed order,
  during which the old values are still read, then, in the reverse order, the \<open>did\<close> callbacks,
  during which the new values are read.\<close>

theorem commitChanges_notifies_observers:
  assumes "pl_mayHaveUncommittedChanges s"
    and "distinct (pl_observers s)" and "ob \<in> set (pl_observers s)"
  defines "changed \<equiv>
    filter (\<lambda>x. observe x (pl_committed (commitChanges s)) \<noteq> observe x (pl_committed s))
      [Title, IsLoading, ActiveURL, HasOnlySecureContent, EstimatedProgress]"
  shows "pl_committed (commitChanges s) = pl_uncommitted s \<and>
    calls_of ob (pl_calls (commitChanges s)) =
      calls_of ob (pl_calls s)
      @ map (\<lambda>x. (WillChange x, pl_committed s)) changed
      @ map (\<lambda>x. (DidChange x, pl_committed (commitChanges s))) (rev changed)"
proof -
  have changed: "changed = changed_observables (pl_committed s) (pl_uncommitted s)"
    unfolding changed_def changed_observables_def all_observables_def [symmetric]
    using assms(1) by (intro filter_cong) (auto simp: commitChanges_eq)
  show ?thesis
    unfolding changed using assms(1-3) by (simp add: commitChanges_eq calls_of_calls_to comp_def)
qed

definition sample_loading_state :: page_load_state where
  "sample_loading_state =
     PageLoadState_didStartProvisionalLoad (Some ''http://a/'') nullString
       (beginTransaction (addObserver 7 PageLoadState))"

lemma sample_loading_state_facts:
  "pl_mayHaveUncommittedChanges sample_loading_state" "pl_observers sample_loading_state = [7]"
  "pl_committed sample_loading_state = initial_load_data"
  "pl_uncommitted sample_loading_state =
     initial_load_data\<lparr>ld_state := Provisional, ld_provisionalURL := Some ''http://a/''\<rparr>"
  "pl_calls sample_loading_state = []"
  by (simp_all add: sample_loading_state_def pl_mutator_defs beginTransaction_def addObserver_def
      PageLoadState_def initial_load_data_def)

theorem commitChanges_notifies_observers_witness:
  "calls_of 7 (pl_calls (commitChanges sample_loading_state)) =
     [(WillChange IsLoading, initial_load_data), (WillChange ActiveURL, initial_load_data),
      (DidChange ActiveURL, pl_uncommitted sample_loading_state),
      (DidChange IsLoading, pl_uncommitted sample_loading_state)]"
  using commitChanges_notifies_observers [of sample_loading_state 7]
  by (simp add: sample_loading_state_facts initial_load_data_def data_activeURL_def
      data_hasOnlySecureContent_def data_estimatedProgress_def str_isEmpty_def calls_of_def)

subsection \<open>Transactions\<close>

inductive pl_mutator :: "(page_load_state \<Rightarrow> page_load_state) \<Rightarrow> bool" where
  "pl_mutator PageLoadState_reset"
| "pl_mutator (PageLoadState_setPendingAPIRequestURL u)"
| "pl_mutator PageLoadState_clearPendingAPIRequestURL"
| "pl_mutator (PageLoadState_setUnreachableURL u)"
| "pl_mutator (PageLoadState_didStartProvisionalLoad u v)"
| "pl_mutator (PageLoadState_didReceiveServerRedirectForProvisionalLoad u)"
| "pl_mutator PageLoadState_didFailProvisionalLoad"
| "pl_mutator PageLoadState_didCommitLoad"
| "pl_mutator PageLoadState_didFinishLoad"
| "pl_mutator PageLoadState_didFailLoad"
| "pl_mutator (PageLoadState_didSameDocumentNavigation u)"
| "pl_mutator PageLoadState_didDisplayOrRunInsecureContent"
| "pl_mutator (PageLoadState_setTitle u)"
| "pl_mutator PageLoadState_didStartProgress"
| "pl_mutator (PageLoadState_didChangeProgress r)"
| "pl_mutator PageLoadState_didFinishProgress"

text \<open>
  A \<^verbatim>\<open>Token\<close> exists only while a \<^verbatim>\<open>Transaction\<close> does, so the data is written only inside
  transactions; they nest, and fewer than \<open>2^32\<close> of them are open at a time.
\<close>

inductive pl_reachable :: "page_load_state \<Rightarrow> bool" where
  pl_init: "pl_reachable PageLoadState"
| pl_add: "pl_reachable s \<Longrightarrow> ob \<notin> set (pl_observers s) \<Longrightarrow> pl_reachable (addObserver ob s)"
| pl_remove: "pl_reachable s \<Longrightarrow> removeObserver ob s = Inr s' \<Longrightarrow> pl_reachable s'"
| pl_begin: "pl_reachable s \<Longrightarrow> pl_outstandingTransactionCount s < 4294967295
    \<Longrightarrow> pl_reachable (beginTransaction s)"
| pl_mutate: "pl_reachable s \<Longrightarrow> 0 < pl_outstandingTransactionCount s \<Longrightarrow> pl_mutator f
    \<Longrightarrow> pl_reachable (f s)"
| pl_commit: "pl_reachable s \<Longrightarrow> pl_reachable (commitChanges s)"
| pl_end: "pl_reachable s \<Longrightarrow> 0 < pl_outstandingTransactionCount s
    \<Longrightarrow> pl_reachable (endTransaction s)"

definition pl_inv :: "page_load_state \<Rightarrow> bool" where
  "pl_inv s \<longleftrightarrow> distinct (pl_observers s)
     \<and> (\<not> pl_mayHaveUncommittedChanges s \<longrightarrow> pl_committed s = pl_uncommitted s)
     \<and> (pl_outstandingTransactionCount s = 0 \<longrightarrow> \<not> pl_mayHaveUncommittedChanges s)
     \<and> pl_outstandingTransactionCount s < 4294967296"

lemma pl_mutator_frame:
  assumes "pl_mutator f"
  shows "pl_observers (f s) = pl_observers s" "pl_committed (f s) = pl_committed s"
    "pl_outstandingTransactionCount (f s) = pl_outstandingTransactionCount s"
    "pl_calls (f s) = pl_calls s" "pl_mayHaveUncommittedChanges (f s)"
  using assms by (cases; simp add: pl_mutator_defs)+

lemma commitChanges_frame [simp]:
  "pl_observers (commitChanges s) = pl_observers s"
  "pl_uncommitted (commitChanges s) = pl_uncommitted s"
  "pl_lastUnreachableURL (commitChanges s) = pl_lastUnreachableURL s"
  "pl_outstandingTransactionCount (commitChanges s) = pl_outstandingTransactionCount s"
  "\<not> pl_mayHaveUncommittedChanges (commitChanges s)"
  by (simp_all add: commitChanges_eq)

lemma commitChanges_publishes [simp]:
  "pl_committed (commitChanges s) =
     (if pl_mayHaveUncommittedChanges s then pl_uncommitted s else pl_committed s)"
  by (simp add: commitChanges_eq)

lemma endTransaction_inner:
  "1 < pl_outstandingTransactionCount s \<Longrightarrow>
     endTransaction s
       = s\<lparr>pl_outstandingTransactionCount := pl_outstandingTransactionCount s - 1\<rparr>"
  by (simp add: endTransaction_def u32_dec_def Let_def)

lemma endTransaction_outer:
  "pl_outstandingTransactionCount s = 1 \<Longrightarrow>
     endTransaction s = commitChanges (s\<lparr>pl_outstandingTransactionCount := 0\<rparr>)"
  by (simp add: endTransaction_def u32_dec_def Let_def)

lemma pl_inv_commitChanges: "pl_inv s \<Longrightarrow> pl_inv (commitChanges s)"
  by (auto simp: pl_inv_def)

lemma pl_inv_endTransaction:
  assumes "pl_inv s" "0 < pl_outstandingTransactionCount s"
  shows "pl_inv (endTransaction s)"
proof (cases "pl_outstandingTransactionCount s = 1")
  case True
  with assms show ?thesis by (simp add: endTransaction_outer pl_inv_def)
next
  case False
  with assms have "1 < pl_outstandingTransactionCount s" by simp
  with assms show ?thesis by (auto simp: endTransaction_inner pl_inv_def)
qed

lemma pl_inv_beginTransaction:
  assumes "pl_inv s" "pl_outstandingTransactionCount s < 4294967295"
  shows "pl_inv (beginTransaction s)"
  using assms by (simp add: pl_inv_def beginTransaction_def)

lemma pl_inv_mutator:
  assumes "pl_inv s" "0 < pl_outstandingTransactionCount s" "pl_mutator f"
  shows "pl_inv (f s)"
  using assms by (simp add: pl_inv_def pl_mutator_frame)

lemma pl_inv_removeObserver:
  assumes "pl_inv s" "removeObserver ob s = Inr s'"
  shows "pl_inv s'"
proof -
  have "distinct (take i xs @ drop (Suc i) xs)" if "distinct xs" for i and xs :: "nat list"
    using that set_take_disj_set_drop_if_distinct [of xs i "Suc i"] by simp
  with assms show ?thesis
    by (auto simp: pl_inv_def removeObserver_def Let_def split: if_splits)
qed

lemma pl_reachable_inv: "pl_reachable s \<Longrightarrow> pl_inv s"
proof (induction rule: pl_reachable.induct)
  case pl_init
  show ?case by (simp add: pl_inv_def PageLoadState_def)
next
  case (pl_add s ob)
  then show ?case by (simp add: pl_inv_def addObserver_def)
qed (simp_all add: pl_inv_removeObserver pl_inv_beginTransaction pl_inv_mutator
      pl_inv_commitChanges pl_inv_endTransaction)

text \<open>C26: However transactions nest and whatever is written inside them, the state the accessors
  read is the last one written as soon as no transaction is open: ending the outermost transaction
  loses no change. While one is open, the written state is published by an explicit commit only.\<close>

theorem closed_transactions_publish_everything:
  assumes "pl_reachable s"
  shows "(pl_outstandingTransactionCount s = 0 \<longrightarrow> pl_committed s = pl_uncommitted s)
    \<and> (1 < pl_outstandingTransactionCount s \<longrightarrow>
          pl_committed (endTransaction s) = pl_committed s
          \<and> pl_calls (endTransaction s) = pl_calls s)
    \<and> (pl_outstandingTransactionCount s = 1 \<longrightarrow>
          pl_committed (endTransaction s) = pl_uncommitted s)
    \<and> distinct (pl_observers s)"
proof (intro conjI impI)
  have inv: "pl_inv s" by (rule pl_reachable_inv [OF assms])
  show "distinct (pl_observers s)" using inv by (simp add: pl_inv_def)
  show "pl_committed s = pl_uncommitted s" if "pl_outstandingTransactionCount s = 0"
    using inv that unfolding pl_inv_def by blast
  show "pl_committed (endTransaction s) = pl_uncommitted s" if "pl_outstandingTransactionCount s = 1"
    using inv unfolding pl_inv_def endTransaction_outer [OF that] by auto
qed (simp_all add: endTransaction_inner)

theorem closed_transactions_publish_everything_witness:
  "pl_committed (endTransaction (PageLoadState_setTitle (Some ''t'') (beginTransaction PageLoadState)))
     = initial_load_data\<lparr>ld_title := Some ''t''\<rparr>"
proof -
  let ?s = "PageLoadState_setTitle (Some ''t'') (beginTransaction PageLoadState)"
  have "pl_reachable (beginTransaction PageLoadState)"
    by (rule pl_begin [OF pl_init]) (simp add: PageLoadState_def)
  hence "pl_reachable ?s"
    by (rule pl_mutate) (simp_all add: pl_mutator.intros beginTransaction_def PageLoadState_def)
  from closed_transactions_publish_everything [OF this] show ?thesis
    by (simp add: pl_mutator_defs beginTransaction_def PageLoadState_def)
qed

end
