(* ===== verification/History_Spec.thy ===== *)
theory History_Spec
  imports Prelude
begin

text \<open>
  The contract of a session history: what a browser's Back and Forward buttons may rely on.
  A history is empty or a zipper (the pages behind the current one, nearest first; the
  current page; the pages in front of it). The locale \<open>session_history\<close> is the interface
  that both back/forward lists of the engine implement: the list of the UI process
  (\<open>Web_Back_Forward_List\<close>) and the list of WebCore (\<open>WebCore_Back_Forward_List\<close>).
\<close>

subsection \<open>Zippers\<close>

datatype 'i zipper = Zipper (zback: "'i list") (zcurrent: 'i) (zforward: "'i list")

definition zipper_at :: "'i list \<Rightarrow> nat \<Rightarrow> 'i zipper" where
  "zipper_at xs i = Zipper (rev (take i xs)) (xs ! i) (drop (Suc i) xs)"

definition zipper_list :: "'i zipper \<Rightarrow> 'i list" where
  "zipper_list z = rev (zback z) @ zcurrent z # zforward z"

text \<open>
  Visiting a page: the current page becomes the nearest page behind, the pages in front are
  dropped, and the oldest pages are dropped while more than \<open>cap\<close> pages are kept.
\<close>

fun zipper_visit :: "nat \<Rightarrow> 'i \<Rightarrow> 'i zipper option \<Rightarrow> 'i zipper" where
  "zipper_visit cap x None = Zipper [] x []"
| "zipper_visit cap x (Some (Zipper b c f)) = Zipper (take (cap - 1) (c # b)) x []"

text \<open>The entry at a signed distance from the current page.\<close>

definition zipper_item_at :: "'i zipper \<Rightarrow> int \<Rightarrow> 'i option" where
  "zipper_item_at z d =
     (if d = 0 then Some (zcurrent z)
      else if d < 0 \<and> nat (- d) \<le> length (zback z) then Some (zback z ! (nat (- d) - 1))
      else if d > 0 \<and> nat d \<le> length (zforward z) then Some (zforward z ! (nat d - 1))
      else None)"

lemma zipper_list_at [simp]: "i < length xs \<Longrightarrow> zipper_list (zipper_at xs i) = xs"
  by (simp add: zipper_list_def zipper_at_def id_take_nth_drop [symmetric])

lemma zipper_at_sel [simp]:
  "zback (zipper_at xs i) = rev (take i xs)"
  "zcurrent (zipper_at xs i) = xs ! i"
  "zforward (zipper_at xs i) = drop (Suc i) xs"
  by (simp_all add: zipper_at_def)

lemma zipper_at_list: "zipper_at (zipper_list z) (length (zback z)) = z"
  by (cases z) (simp add: zipper_at_def zipper_list_def nth_append)

lemma zipper_at_snoc [simp]: "zipper_at (xs @ [x]) (length xs) = Zipper (rev xs) x []"
  by (simp add: zipper_at_def)

lemma zipper_item_at_nth:
  assumes "i < length xs"
  shows "zipper_item_at (zipper_at xs i) d =
    (if 0 \<le> int i + d \<and> int i + d < int (length xs) then Some (xs ! nat (int i + d)) else None)"
proof -
  consider "d = 0" | "d > 0" | "d < 0" "nat (- d) \<le> i" | "d < 0" "nat (- d) > i"
    by linarith
  then show ?thesis
  proof cases
    case 2
    then have "nat (int i + d) = Suc i + (nat d - 1)" by linarith
    with 2 assms show ?thesis by (auto simp: zipper_item_at_def)
  next
    case 3
    then have "nat (int i + d) = i - Suc (nat (- d) - 1)" by linarith
    with 3 assms show ?thesis by (simp add: zipper_item_at_def rev_nth)
  qed (use assms in \<open>auto simp: zipper_item_at_def\<close>)
qed

text \<open>The entries up to the current one, less the oldest when the list is full, read
  backwards: what both lists keep when a page is added.\<close>

lemma rev_take_Suc_capped:
  assumes "i < length xs" and "length xs \<le> n"
  shows "rev (if i + 1 = n then tl (take (i + 1) xs) else take (i + 1) xs)
    = take (n - 1) (xs ! i # rev (take i xs))"
proof -
  have r: "rev (take (i + 1) xs) = xs ! i # rev (take i xs)"
    using assms by (simp add: take_Suc_conv_app_nth)
  show ?thesis
  proof (cases "i + 1 = n")
    case True
    then have "rev (tl (take (i + 1) xs)) = butlast (xs ! i # rev (take i xs))"
      by (simp only: r [symmetric] butlast_rev)
    also have "\<dots> = take i (xs ! i # rev (take i xs))"
      using assms by (simp add: butlast_conv_take)
    finally show ?thesis using True by auto
  qed (use assms r in simp)
qed

subsection \<open>The interface\<close>

locale session_history =
  fixes inv :: "'s \<Rightarrow> bool"
    and ready :: "'s \<Rightarrow> bool"
    and cap :: "'s \<Rightarrow> nat"
    and hist :: "'s \<Rightarrow> 'i zipper option"
    and visit :: "'i \<Rightarrow> 's \<Rightarrow> 's"
    and go :: "'i \<Rightarrow> 's \<Rightarrow> 's"
    and current_item :: "'s \<Rightarrow> 'i option res"
    and back_item :: "'s \<Rightarrow> 'i option res"
    and forward_item :: "'s \<Rightarrow> 'i option res"
    and item_at :: "int \<Rightarrow> 's \<Rightarrow> 'i option res"
  assumes visit_abs: "\<lbrakk>inv s; ready s\<rbrakk> \<Longrightarrow> hist (visit x s) = Some (zipper_visit (cap s) x (hist s))"
    and visit_inv: "inv s \<Longrightarrow> inv (visit x s)"
    and visit_not_ready: "\<lbrakk>inv s; \<not> ready s\<rbrakk> \<Longrightarrow> visit x s = s"
    and visit_frame: "inv s \<Longrightarrow> ready (visit x s) = ready s \<and> cap (visit x s) = cap s"
    and go_abs: "\<lbrakk>inv s; hist s = Some z; x \<in> set (zipper_list z)\<rbrakk> \<Longrightarrow>
      hist (go x s) = Some (zipper_at (zipper_list z) (first_index x (zipper_list z)))"
    and go_inv: "inv s \<Longrightarrow> inv (go x s)"
    and go_missing: "\<lbrakk>inv s; hist s = Some z; x \<notin> set (zipper_list z)\<rbrakk> \<Longrightarrow> go x s = s"
    and current_abs: "inv s \<Longrightarrow> current_item s = Inr (map_option zcurrent (hist s))"
    and back_abs: "inv s \<Longrightarrow> back_item s =
      Inr (case hist s of None \<Rightarrow> None | Some z \<Rightarrow> zipper_item_at z (- 1))"
    and forward_abs: "inv s \<Longrightarrow> forward_item s =
      Inr (case hist s of None \<Rightarrow> None | Some z \<Rightarrow> zipper_item_at z 1)"
    and item_at_abs: "\<lbrakk>inv s; - 2147483648 \<le> d; d < 2147483648\<rbrakk> \<Longrightarrow> item_at d s =
      Inr (case hist s of None \<Rightarrow> None | Some z \<Rightarrow> zipper_item_at z d)"
    and bounded: "\<lbrakk>inv s; hist s = Some z\<rbrakk> \<Longrightarrow> length (zipper_list z) \<le> cap s"
    and cap_pos: "\<lbrakk>inv s; ready s\<rbrakk> \<Longrightarrow> 0 < cap s"
begin

text \<open>No accessor crashes while the invariant holds.\<close>

lemma accessors_safe:
  assumes "inv s" and "- 2147483648 \<le> d" and "d < 2147483648"
  shows "\<not> crashes (current_item s) \<and> \<not> crashes (back_item s) \<and> \<not> crashes (forward_item s)
    \<and> \<not> crashes (item_at d s)"
  using assms by (simp add: current_abs back_abs forward_abs item_at_abs)

text \<open>A visit makes the page current, leaves nothing in front of it, and puts the page
  it replaced behind it when there is room for two.\<close>

lemma visit_current:
  assumes "inv s" and "ready s"
  shows "current_item (visit x s) = Inr (Some x)" and "forward_item (visit x s) = Inr None"
proof -
  obtain b where b: "hist (visit x s) = Some (Zipper b x [])"
    using visit_abs [OF assms]
    by (cases "hist s"; cases "the (hist s)") auto
  show "current_item (visit x s) = Inr (Some x)" "forward_item (visit x s) = Inr None"
    using b visit_inv [OF assms(1)]
    by (simp_all add: current_abs forward_abs zipper_item_at_def)
qed

lemma visit_back:
  assumes "inv s" and "ready s" and "1 < cap s" and "current_item s = Inr (Some y)"
  shows "back_item (visit x s) = Inr (Some y)"
proof -
  obtain b f where z: "hist s = Some (Zipper b y f)"
    using assms current_abs [OF assms(1)] by (cases "hist s"; cases "the (hist s)") auto
  then have "hist (visit x s) = Some (Zipper (take (cap s - 1) (y # b)) x [])"
    using visit_abs [OF assms(1,2)] by simp
  moreover have "take (cap s - 1) (y # b) = y # take (cap s - 2) b"
    using assms(3) by (metis One_nat_def Suc_diff_Suc numeral_2_eq_2 take_Suc_Cons)
  ultimately show ?thesis
    using visit_inv [OF assms(1)] by (simp add: back_abs zipper_item_at_def)
qed

text \<open>Following an in-range distance lands on that entry, and the reverse distance returns:
  Back and Forward undo each other.\<close>

lemma go_item_at:
  assumes "inv s" and "hist s = Some z" and "distinct (zipper_list z)"
    and "zipper_item_at z d = Some y"
  shows "current_item (go y s) = Inr (Some y)"
    and "hist (go y s) = Some (zipper_at (zipper_list z) (nat (int (length (zback z)) + d)))"
proof -
  let ?xs = "zipper_list z" and ?i = "length (zback z)"
  let ?j = "nat (int ?i + d)"
  have i: "?i < length ?xs" by (simp add: zipper_list_def)
  have "zipper_item_at (zipper_at ?xs ?i) d = Some y"
    using assms(4) by (simp add: zipper_at_list)
  then have j: "?j < length ?xs" "?xs ! ?j = y"
    using i by (auto simp: zipper_item_at_nth split: if_splits)
  then have "first_index y ?xs = ?j"
    using first_index_distinct [OF assms(3)] by blast
  moreover have "y \<in> set ?xs" using j by (metis nth_mem)
  ultimately show 1: "hist (go y s) = Some (zipper_at ?xs ?j)"
    using go_abs [OF assms(1,2)] by simp
  show "current_item (go y s) = Inr (Some y)"
    using current_abs [OF go_inv [OF assms(1)]] 1 j by simp
qed

lemma back_forward:
  assumes "inv s" and "hist s = Some z" and "distinct (zipper_list z)"
    and "back_item s = Inr (Some y)"
  shows "current_item (go y s) = Inr (Some y)"
    and "forward_item (go y s) = Inr (Some (zcurrent z))"
proof -
  let ?xs = "zipper_list z" and ?i = "length (zback z)"
  have y: "zipper_item_at z (- 1) = Some y"
    using assms back_abs by simp
  then have pos: "0 < ?i" by (auto simp: zipper_item_at_def split: if_splits)
  note land = go_item_at [OF assms(1-3) y]
  show "current_item (go y s) = Inr (Some y)" by (rule land(1))
  have i: "?i < length ?xs" by (simp add: zipper_list_def)
  have "hist (go y s) = Some (zipper_at ?xs (?i - 1))"
    using land(2) pos by (simp add: nat_diff_distrib)
  moreover have "zipper_item_at (zipper_at ?xs (?i - 1)) 1 = Some (?xs ! ?i)"
  proof -
    obtain k where k: "?i = Suc k" using pos by (cases ?i) auto
    then show ?thesis using i by (simp add: zipper_item_at_nth nat_add_distrib)
  qed
  moreover have "?xs ! ?i = zcurrent z" by (simp add: zipper_list_def nth_append)
  ultimately show "forward_item (go y s) = Inr (Some (zcurrent z))"
    using forward_abs [OF go_inv [OF assms(1)]] by simp
qed

text \<open>However long the visits, the history never outgrows its capacity and keeps the newest
  pages.\<close>

lemma visits_inv: "inv s \<Longrightarrow> inv (fold visit xs s)"
  by (induction xs arbitrary: s) (simp_all add: visit_inv)

lemma visits_bounded:
  assumes "inv s" and "hist (fold visit xs s) = Some z"
  shows "length (zipper_list z) \<le> cap s"
proof -
  have "cap (fold visit xs s) = cap s" using assms(1)
    by (induction xs arbitrary: s) (simp_all add: visit_inv visit_frame)
  then show ?thesis using bounded [OF visits_inv [OF assms(1)] assms(2)] by simp
qed

end


text \<open>
  A history that also counts what lies behind and in front of the current page, as the client
  interface of WebCore's controller requires.
\<close>

locale counted_history = session_history
  where inv = inv and go = go for inv :: "'s \<Rightarrow> bool" and go :: "'i \<Rightarrow> 's \<Rightarrow> 's" +
  fixes back_count :: "'s \<Rightarrow> int"
    and forward_count :: "'s \<Rightarrow> int"
  assumes back_count_abs: "inv s \<Longrightarrow> back_count s =
      (case hist s of None \<Rightarrow> 0 | Some z \<Rightarrow> int (length (zback z)))"
    and forward_count_abs: "inv s \<Longrightarrow> forward_count s =
      (case hist s of None \<Rightarrow> 0 | Some z \<Rightarrow> int (length (zforward z)))"
    and cap_int: "inv s \<Longrightarrow> cap s < 2147483648"
begin

lemma counts_int:
  assumes "inv s" and "hist s = Some z"
  shows "int (length (zback z)) < 2147483648" and "int (length (zforward z)) < 2147483648"
proof -
  have "length (zback z) + length (zforward z) < cap s"
    using bounded [OF assms] by (simp add: zipper_list_def)
  then show "int (length (zback z)) < 2147483648" "int (length (zforward z)) < 2147483648"
    using cap_int [OF assms(1)] by simp_all
qed

end

end
