(* ===== verification/Web_Back_Forward_List.thy ===== *)
theory Web_Back_Forward_List
  imports History_Spec "HOL-Library.Multiset"
begin

text \<open>
  \<^verbatim>\<open>WebKit2/UIProcess/WebBackForwardList.cpp\<close>: the back/forward list that the UI process
  keeps for a page, the one behind the Back and Forward buttons of the browser shell.

  Entries are pointers to \<^verbatim>\<open>WebBackForwardListItem\<close> objects; the type \<open>'i\<close> is the
  type of those pointers, compared as the code compares them (by identity), and
  \<open>itemID\<close> reads the identifier of the object behind one. A pointer that may be null is an
  \<open>option\<close>. The vector holds no null pointer: \<open>addItem\<close> is its only insertion and
  returns early on null, so the null checks the code adds below an \<^verbatim>\<open>ASSERT\<close> are always
  passed. The calls the list makes on its page are recorded in order in \<open>page_calls\<close>.
\<close>

type_synonym item_id = "64 word"

datatype 'i page_call =
    BackForwardRemovedItem item_id
  | DidChangeBackForwardList "'i option" "'i list"

record 'i bf_list =
  m_page :: bool
  m_entries :: "'i list"
  m_hasCurrentIndex :: bool
  m_currentIndex :: nat
  m_capacity :: nat
  page_calls :: "'i page_call list"

definition DefaultCapacity :: nat where
  "DefaultCapacity = 100"

definition WebBackForwardList :: "'i bf_list" where
  "WebBackForwardList = \<lparr>m_page = True, m_entries = [], m_hasCurrentIndex = False,
     m_currentIndex = 0, m_capacity = DefaultCapacity, page_calls = []\<rparr>"

definition pageClosed :: "('i \<Rightarrow> item_id) \<Rightarrow> 'i bf_list \<Rightarrow> 'i bf_list" where
  "pageClosed itemID s =
     (let s1 = (if m_page s
                then s\<lparr>page_calls := page_calls s
                         @ map (\<lambda>e. BackForwardRemovedItem (itemID e)) (m_entries s)\<rparr>
                else s)
      in s1\<lparr>m_page := False, m_entries := [], m_hasCurrentIndex := False\<rparr>)"

text \<open>
  \<^verbatim>\<open>while (m_entries.size() > targetSize)\<close>: report and remove the last entry. The state is
  the entries, \<^verbatim>\<open>removedItems\<close> and the calls.
\<close>

function tossForward ::
  "('i \<Rightarrow> item_id) \<Rightarrow> nat \<Rightarrow> 'i list \<Rightarrow> 'i list \<Rightarrow> 'i page_call list
     \<Rightarrow> 'i list \<times> 'i list \<times> 'i page_call list" where
  "tossForward itemID targetSize es removed calls =
     (if targetSize < length es
      then tossForward itemID targetSize (butlast es) (removed @ [last es])
             (calls @ [BackForwardRemovedItem (itemID (last es))])
      else (es, removed, calls))"
  by pat_completeness auto
termination
  by (relation "measure (\<lambda>(itemID, targetSize, es, removed, calls). length es)") auto

declare tossForward.simps [simp del]

text \<open>The part of \<open>addItem\<close> that makes room: the new state and \<^verbatim>\<open>removedItems\<close>.\<close>

definition makeRoom :: "('i \<Rightarrow> item_id) \<Rightarrow> 'i bf_list \<Rightarrow> 'i bf_list \<times> 'i list" where
  "makeRoom itemID s =
     (if m_hasCurrentIndex s
      then
        (let targetSize = u32 (m_currentIndex s + 1);
             (es, removed, calls) = tossForward itemID targetSize (m_entries s) [] (page_calls s);
             s1 = s\<lparr>m_entries := es, page_calls := calls\<rparr>
         in
          if length es = m_capacity s \<and> (m_currentIndex s \<noteq> 0 \<or> m_capacity s = 1)
          then
            (let s2 = s1\<lparr>page_calls := calls @ [BackForwardRemovedItem (itemID (hd es))],
                         m_entries := vec_remove 0 es\<rparr>
             in ((if m_entries s2 = [] then s2\<lparr>m_hasCurrentIndex := False\<rparr>
                  else s2\<lparr>m_currentIndex := u32_dec (m_currentIndex s)\<rparr>),
                 removed @ [hd es]))
          else (s1, removed))
      else
        (s\<lparr>page_calls := page_calls s
              @ map (\<lambda>e. BackForwardRemovedItem (itemID e)) (m_entries s), m_entries := []\<rparr>,
         m_entries s))"

definition addItem :: "('i \<Rightarrow> item_id) \<Rightarrow> 'i option \<Rightarrow> 'i bf_list \<Rightarrow> 'i bf_list" where
  "addItem itemID newItem s =
     (case newItem of
        None \<Rightarrow> s
      | Some item \<Rightarrow>
          if m_capacity s = 0 \<or> \<not> m_page s then s
          else
            (let (s1, removedItems) = makeRoom itemID s;
                 s2 = (if \<not> m_hasCurrentIndex s1
                       then s1\<lparr>m_currentIndex := 0, m_hasCurrentIndex := True\<rparr>
                       else s1\<lparr>m_currentIndex := u32 (m_currentIndex s1 + 1)\<rparr>);
                 s3 = (if m_currentIndex s2 \<le> length (m_entries s2)
                       then s2\<lparr>m_entries := vec_insert (m_currentIndex s2) item (m_entries s2)\<rparr>
                       else s2)
             in s3\<lparr>page_calls := page_calls s3
                    @ [DidChangeBackForwardList (Some item) removedItems]\<rparr>))"

definition goToItem :: "'i option \<Rightarrow> 'i bf_list \<Rightarrow> 'i bf_list" where
  "goToItem item s =
     (case item of
        None \<Rightarrow> s
      | Some it \<Rightarrow>
          if m_entries s = [] \<or> \<not> m_page s \<or> \<not> m_hasCurrentIndex s then s
          else (let index = first_index it (m_entries s)
                in if index < length (m_entries s)
                   then s\<lparr>m_currentIndex := index,
                          page_calls := page_calls s @ [DidChangeBackForwardList None []]\<rparr>
                   else s))"

definition currentItem :: "'i bf_list \<Rightarrow> 'i option res" where
  "currentItem s =
     (if m_page s \<and> m_hasCurrentIndex s
      then map_sum id Some (vec_at (m_entries s) (m_currentIndex s)) else Inr None)"

definition backItem :: "'i bf_list \<Rightarrow> 'i option res" where
  "backItem s =
     (if m_page s \<and> m_hasCurrentIndex s \<and> m_currentIndex s \<noteq> 0
      then map_sum id Some (vec_at (m_entries s) (m_currentIndex s - 1)) else Inr None)"

definition forwardItem :: "'i bf_list \<Rightarrow> 'i option res" where
  "forwardItem s =
     (if m_page s \<and> m_hasCurrentIndex s \<and> m_entries s \<noteq> []
         \<and> m_currentIndex s < length (m_entries s) - 1
      then map_sum id Some (vec_at (m_entries s) (u32 (m_currentIndex s + 1))) else Inr None)"

definition backListCount :: "'i bf_list \<Rightarrow> int" where
  "backListCount s =
     (if m_page s \<and> m_hasCurrentIndex s then s32 (int (m_currentIndex s)) else 0)"

definition forwardListCount :: "'i bf_list \<Rightarrow> int" where
  "forwardListCount s =
     (if m_page s \<and> m_hasCurrentIndex s
      then s32 (int (length (m_entries s)) - int (u32 (m_currentIndex s + 1))) else 0)"

definition itemAtIndex :: "int \<Rightarrow> 'i bf_list \<Rightarrow> 'i option res" where
  "itemAtIndex index s =
     (if \<not> m_hasCurrentIndex s \<or> \<not> m_page s then Inr None
      else if index < - backListCount s then Inr None
      else if index > forwardListCount s then Inr None
      else map_sum id Some
             (vec_at (m_entries s) (nat ((index + int (m_currentIndex s)) mod 4294967296))))"

definition backListAsAPIArrayWithLimit :: "nat \<Rightarrow> 'i bf_list \<Rightarrow> 'i list res" where
  "backListAsAPIArrayWithLimit limit s =
     (if \<not> m_page s \<or> \<not> m_hasCurrentIndex s then Inr []
      else
        (let backListSize = nat (backListCount s mod 4294967296);
             size = min backListSize limit
         in if size = 0 then Inr []
            else vec_slice (m_entries s) (backListSize - size) backListSize))"

definition forwardListAsAPIArrayWithLimit :: "nat \<Rightarrow> 'i bf_list \<Rightarrow> 'i list res" where
  "forwardListAsAPIArrayWithLimit limit s =
     (if \<not> m_page s \<or> \<not> m_hasCurrentIndex s then Inr []
      else
        (let size = min (nat (forwardListCount s mod 4294967296)) limit
         in if size = 0 then Inr []
            else (let end_i = u32 (m_currentIndex s + size)
                  in vec_slice (m_entries s) (u32 (m_currentIndex s + 1)) (end_i + 1))))"

text \<open>
  \<open>clear\<close> keeps the current entry only. The first loop reports every entry that is not
  the current item (by identity), the second collects every entry at another index.
\<close>

definition clear :: "('i \<Rightarrow> item_id) \<Rightarrow> 'i bf_list \<Rightarrow> 'i bf_list res" where
  "clear itemID s =
     (if \<not> m_page s \<or> length (m_entries s) \<le> 1 then Inr s
      else
        (case currentItem s of
           Inl e \<Rightarrow> Inl e
         | Inr None \<Rightarrow>
             Inr (s\<lparr>page_calls := page_calls s
                       @ map (\<lambda>e. BackForwardRemovedItem (itemID e)) (m_entries s)
                       @ [DidChangeBackForwardList None (m_entries s)],
                    m_entries := [], m_hasCurrentIndex := False\<rparr>)
         | Inr (Some cur) \<Rightarrow>
             (let removed = (if m_hasCurrentIndex s
                             then take (m_currentIndex s) (m_entries s)
                                  @ drop (Suc (m_currentIndex s)) (m_entries s)
                             else [])
              in Inr (s\<lparr>page_calls := page_calls s
                         @ map (\<lambda>e. BackForwardRemovedItem (itemID e))
                               (filter (\<lambda>e. e \<noteq> cur) (m_entries s))
                         @ [DidChangeBackForwardList None removed],
                        m_currentIndex := 0, m_entries := [cur]\<rparr>))))"

subsection \<open>Invariant and abstraction\<close>

definition bf_inv :: "'i bf_list \<Rightarrow> bool" where
  "bf_inv s \<longleftrightarrow>
     (if m_hasCurrentIndex s then m_currentIndex s < length (m_entries s) else m_entries s = [])
     \<and> length (m_entries s) \<le> m_capacity s \<and> 0 < m_capacity s \<and> m_capacity s < 2147483648
     \<and> (\<not> m_page s \<longrightarrow> \<not> m_hasCurrentIndex s)"

definition bf_zipper :: "'i bf_list \<Rightarrow> 'i zipper option" where
  "bf_zipper s =
     (if m_hasCurrentIndex s then Some (zipper_at (m_entries s) (m_currentIndex s)) else None)"

text \<open>The identifiers the list has reported as removed, in order.\<close>

fun reported :: "'i page_call list \<Rightarrow> item_id list" where
  "reported [] = []"
| "reported (BackForwardRemovedItem i # cs) = i # reported cs"
| "reported (DidChangeBackForwardList a r # cs) = reported cs"

text \<open>The states a page's list can be in: every operation, from the constructor.\<close>

inductive bf_reachable :: "('i \<Rightarrow> item_id) \<Rightarrow> 'i bf_list \<Rightarrow> bool" for itemID where
  create: "bf_reachable itemID WebBackForwardList"
| addItem: "bf_reachable itemID s \<Longrightarrow> bf_reachable itemID (addItem itemID x s)"
| goToItem: "bf_reachable itemID s \<Longrightarrow> bf_reachable itemID (goToItem x s)"
| clear: "bf_reachable itemID s \<Longrightarrow> clear itemID s = Inr s' \<Longrightarrow> bf_reachable itemID s'"
| pageClosed: "bf_reachable itemID s \<Longrightarrow> bf_reachable itemID (pageClosed itemID s)"


subsection \<open>Room for a new entry\<close>

lemma tossForward_eq:
  "tossForward itemID n es removed calls =
     (take n es, removed @ rev (drop n es),
      calls @ map (\<lambda>e. BackForwardRemovedItem (itemID e)) (rev (drop n es)))"
proof (induction itemID n es removed calls rule: tossForward.induct)
  case (1 itemID n es removed calls)
  show ?case
  proof (cases "n < length es")
    case True
    then have "rev (drop n es) = last es # rev (drop n (butlast es))"
      by (simp add: drop_butlast) (metis append_butlast_last_id drop_eq_Nil2 last_drop leD
          rev_eq_Cons_iff rev_rev_ident)
    with True 1 show ?thesis
      by (simp add: tossForward.simps [of itemID n es] take_butlast)
  next
    case False
    then show ?thesis by (simp add: tossForward.simps [of itemID n es])
  qed
qed

lemma reported_append [simp]: "reported (cs @ ds) = reported cs @ reported ds"
  by (induction cs rule: reported.induct) simp_all

lemma reported_map [simp]:
  "reported (map (\<lambda>e. BackForwardRemovedItem (itemID e)) xs) = map itemID xs"
  by (induction xs) simp_all

text \<open>What \<open>addItem\<close> leaves, in closed form: the entries up to the current one, less the
  oldest when the list is full, then the new item, which becomes current.\<close>

definition bf_removed :: "'i bf_list \<Rightarrow> 'i list" where
  "bf_removed s = rev (drop (m_currentIndex s + 1) (m_entries s))
     @ (if m_currentIndex s + 1 = m_capacity s then [hd (m_entries s)] else [])"

definition bf_kept :: "'i bf_list \<Rightarrow> 'i list" where
  "bf_kept s = (let es = take (m_currentIndex s + 1) (m_entries s)
                in if m_currentIndex s + 1 = m_capacity s then tl es else es)"

lemma addItem_ready:
  assumes "bf_inv s" and "m_page s" and "m_hasCurrentIndex s"
  shows "addItem itemID (Some x) s =
    s\<lparr>m_entries := bf_kept s @ [x], m_currentIndex := length (bf_kept s),
      page_calls := page_calls s
        @ map (\<lambda>e. BackForwardRemovedItem (itemID e)) (bf_removed s)
        @ [DidChangeBackForwardList (Some x) (bf_removed s)]\<rparr>"
proof -
  let ?i = "m_currentIndex s" and ?es = "m_entries s"
  have b: "?i < length ?es" "length ?es \<le> m_capacity s" "m_capacity s < 2147483648"
    using assms by (simp_all add: bf_inv_def)
  have t: "u32 (?i + 1) = ?i + 1" using b by simp
  have len: "length (take (?i + 1) ?es) = ?i + 1" using b by simp
  have hd: "hd (take (?i + 1) ?es) = hd ?es" using b by (cases ?es) auto
  show ?thesis
  proof (cases "?i + 1 = m_capacity s")
    case True
    show ?thesis
    proof (cases "?i = 0")
      case True
      with \<open>?i + 1 = m_capacity s\<close> b assms(2,3) t len hd show ?thesis
        by (cases ?es)
          (auto simp: addItem_def makeRoom_def tossForward_eq bf_kept_def bf_removed_def
             vec_insert_def Let_def)
    next
      case False
      have ne: "tl (take (?i + 1) ?es) \<noteq> []"
        using len False by (metis Nitpick.size_list_simp(2) add.commute add_diff_cancel_left'
            length_tl list.size(3))
      have lt: "length (tl (take (?i + 1) ?es)) = ?i" using len by simp
      have dec: "u32 (u32_dec ?i + 1) = ?i"
        using False b by (simp add: u32_dec_def)
      show ?thesis
        using True False b assms(2,3) t len hd ne lt dec
        by (simp add: addItem_def makeRoom_def tossForward_eq bf_kept_def bf_removed_def
            vec_insert_def)
    qed
  next
    case False
    then show ?thesis using b assms(2,3) t len
      by (simp add: addItem_def makeRoom_def tossForward_eq bf_kept_def bf_removed_def
          vec_insert_def)
  qed
qed

lemma addItem_first:
  assumes "bf_inv s" and "m_page s" and "\<not> m_hasCurrentIndex s"
  shows "addItem itemID (Some x) s =
    s\<lparr>m_entries := [x], m_currentIndex := 0, m_hasCurrentIndex := True,
      page_calls := page_calls s @ [DidChangeBackForwardList (Some x) []]\<rparr>"
  using assms by (auto simp: addItem_def makeRoom_def bf_inv_def vec_insert_def)

lemma addItem_ignored: "\<not> m_page s \<or> x = None \<Longrightarrow> addItem itemID x s = s"
  by (auto simp: addItem_def split: option.splits)


subsection \<open>Every operation keeps the invariant\<close>

lemma length_bf_kept:
  "\<lbrakk>bf_inv s; m_hasCurrentIndex s\<rbrakk> \<Longrightarrow> length (bf_kept s) =
     (if m_currentIndex s + 1 = m_capacity s then m_currentIndex s else m_currentIndex s + 1)"
  by (auto simp: bf_kept_def bf_inv_def Let_def)

lemma addItem_inv: "bf_inv s \<Longrightarrow> bf_inv (addItem itemID x s)"
proof (cases "m_page s \<and> x \<noteq> None")
  case True
  then obtain y where y: "x = Some y" by auto
  assume inv: "bf_inv s"
  show ?thesis
  proof (cases "m_hasCurrentIndex s")
    case True
    then show ?thesis
      using addItem_ready [OF inv _ True] \<open>m_page s \<and> x \<noteq> None\<close> y inv length_bf_kept [OF inv True]
      by (simp add: bf_inv_def split: if_splits)
  next
    case False
    then show ?thesis
      using addItem_first [OF inv _ False] \<open>m_page s \<and> x \<noteq> None\<close> y inv
      by (simp add: bf_inv_def)
  qed
qed (auto simp: addItem_ignored)

lemma addItem_frame:
  "bf_inv s \<Longrightarrow> m_page (addItem itemID x s) = m_page s \<and> m_capacity (addItem itemID x s) = m_capacity s"
  by (cases "m_page s \<and> x \<noteq> None"; cases "m_hasCurrentIndex s")
    (auto simp: addItem_ready addItem_first addItem_ignored)

lemma goToItem_inv: "bf_inv s \<Longrightarrow> bf_inv (goToItem x s)"
  by (auto simp: goToItem_def bf_inv_def Let_def split: option.splits if_splits)

lemma pageClosed_inv: "bf_inv s \<Longrightarrow> bf_inv (pageClosed itemID s)"
  by (auto simp: pageClosed_def bf_inv_def Let_def)

lemma clear_eq:
  assumes "bf_inv s"
  shows "clear itemID s =
    (if \<not> m_page s \<or> length (m_entries s) \<le> 1 then Inr s
     else let cur = m_entries s ! m_currentIndex s in
       Inr (s\<lparr>page_calls := page_calls s
              @ map (\<lambda>e. BackForwardRemovedItem (itemID e)) (filter (\<lambda>e. e \<noteq> cur) (m_entries s))
              @ [DidChangeBackForwardList None (vec_remove (m_currentIndex s) (m_entries s))],
             m_currentIndex := 0, m_entries := [cur]\<rparr>))"
  using assms by (auto simp: clear_def currentItem_def bf_inv_def vec_remove_def Let_def)

lemma clear_inv: "\<lbrakk>bf_inv s; clear itemID s = Inr s'\<rbrakk> \<Longrightarrow> bf_inv s'"
  by (auto simp: clear_eq bf_inv_def Let_def split: if_splits)

lemma create_inv: "bf_inv WebBackForwardList"
  by (simp add: bf_inv_def WebBackForwardList_def DefaultCapacity_def)

lemmas bf_op_invs = create_inv addItem_inv goToItem_inv clear_inv pageClosed_inv

lemma bf_reachable_inv: "bf_reachable itemID s \<Longrightarrow> bf_inv s"
  by (induction rule: bf_reachable.induct) (blast intro: bf_op_invs)+

subsection \<open>The list implements the session-history contract\<close>

lemma bf_zipper_Some:
  "bf_zipper s = Some z \<longleftrightarrow> m_hasCurrentIndex s \<and> z = zipper_at (m_entries s) (m_currentIndex s)"
  by (auto simp: bf_zipper_def)

lemma addItem_refines:
  assumes "bf_inv s" and "m_page s"
  shows "bf_zipper (addItem itemID (Some x) s)
    = Some (zipper_visit (m_capacity s) x (bf_zipper s))"
proof (cases "m_hasCurrentIndex s")
  case True
  let ?i = "m_currentIndex s" and ?es = "m_entries s"
  have b: "?i < length ?es" "length ?es \<le> m_capacity s"
    using assms True by (simp_all add: bf_inv_def)
  have "rev (bf_kept s) = take (m_capacity s - 1) (?es ! ?i # rev (take ?i ?es))"
    unfolding bf_kept_def Let_def by (rule rev_take_Suc_capped [OF b])
  then show ?thesis
    using True assms by (simp add: addItem_ready bf_zipper_def zipper_at_def)
next
  case False
  then show ?thesis using assms by (simp add: addItem_first bf_zipper_def zipper_at_def)
qed

lemma itemAtIndex_eq:
  assumes "bf_inv s" and "- 2147483648 \<le> d" and "d < 2147483648"
  shows "itemAtIndex d s =
    Inr (case bf_zipper s of None \<Rightarrow> None | Some z \<Rightarrow> zipper_item_at z d)"
proof (cases "m_hasCurrentIndex s")
  case True
  let ?i = "m_currentIndex s" and ?n = "length (m_entries s)"
  have b: "?i < ?n" "?n < 2147483648" "m_page s"
    using assms(1) True by (auto simp: bf_inv_def)
  then have counts: "backListCount s = int ?i" "forwardListCount s = int ?n - int (?i + 1)"
    using True by (simp_all add: backListCount_def forwardListCount_def)
  show ?thesis
  proof (cases "0 \<le> int ?i + d \<and> int ?i + d < int ?n")
    case in_range: True
    then have m: "(d + int ?i) mod 4294967296 = d + int ?i"
      using b by (intro mod_pos_pos_trivial) auto
    have "nat (d + int ?i) < ?n" using in_range by linarith
    moreover have "nat (d + int ?i) = nat (int ?i + d)" by (simp add: add.commute)
    ultimately show ?thesis
      using in_range True b counts m
      by (simp add: itemAtIndex_def bf_zipper_def zipper_item_at_nth)
  next
    case False
    then show ?thesis using True b counts
      by (auto simp: itemAtIndex_def bf_zipper_def zipper_item_at_nth)
  qed
next
  case False
  then show ?thesis by (simp add: itemAtIndex_def bf_zipper_def)
qed

lemma goToItem_refines:
  assumes "bf_inv s" and "bf_zipper s = Some z"
  shows "x \<in> set (zipper_list z) \<Longrightarrow>
      bf_zipper (goToItem (Some x) s)
        = Some (zipper_at (zipper_list z) (first_index x (zipper_list z)))"
    and "x \<notin> set (zipper_list z) \<Longrightarrow> goToItem (Some x) s = s"
  using assms by (auto simp: goToItem_def bf_zipper_def bf_inv_def Let_def split: if_splits)

lemma bf_accessors_eq:
  assumes "bf_inv s"
  shows "currentItem s = Inr (map_option zcurrent (bf_zipper s))"
    and "backItem s = Inr (case bf_zipper s of None \<Rightarrow> None | Some z \<Rightarrow> zipper_item_at z (- 1))"
    and "forwardItem s = Inr (case bf_zipper s of None \<Rightarrow> None | Some z \<Rightarrow> zipper_item_at z 1)"
  using assms
  by (auto simp: currentItem_def backItem_def forwardItem_def bf_zipper_def bf_inv_def
      zipper_item_at_nth nat_diff_distrib nat_add_distrib)

lemma bf_bounded:
  "\<lbrakk>bf_inv s; bf_zipper s = Some z\<rbrakk> \<Longrightarrow> length (zipper_list z) \<le> m_capacity s"
  "bf_inv s \<Longrightarrow> 0 < m_capacity s"
  by (auto simp: bf_inv_def bf_zipper_Some)

lemma bf_counts_eq:
  assumes "bf_inv s"
  shows "backListCount s = (case bf_zipper s of None \<Rightarrow> 0 | Some z \<Rightarrow> int (length (zback z)))"
    and "forwardListCount s = (case bf_zipper s of None \<Rightarrow> 0 | Some z \<Rightarrow> int (length (zforward z)))"
    and "m_capacity s < 2147483648"
  using assms by (auto simp: backListCount_def forwardListCount_def bf_zipper_def bf_inv_def)

interpretation wbf: counted_history m_page m_capacity bf_zipper
  "\<lambda>x. addItem itemID (Some x)" currentItem backItem forwardItem itemAtIndex bf_inv
  "\<lambda>x. goToItem (Some x)" backListCount forwardListCount
  for itemID :: "'i \<Rightarrow> item_id"
  by unfold_locales
    (simp_all add: addItem_refines addItem_inv addItem_ignored addItem_frame goToItem_refines
      goToItem_inv bf_accessors_eq itemAtIndex_eq bf_bounded bf_counts_eq)


subsection \<open>Properties\<close>

text \<open>C19: in every state a page's back/forward list can reach (any sequence of \<open>addItem\<close>,
  \<open>goToItem\<close>, \<open>clear\<close> and \<open>pageClosed\<close> from the constructor) the current index is valid, the
  list holds at most its capacity of 100 entries, and no accessor reads past the end of the
  vector: none of \<open>currentItem\<close>, \<open>backItem\<close>, \<open>forwardItem\<close>, \<open>clear\<close>, the two array
  accessors (for any limit) and \<open>itemAtIndex\<close> (for any 32-bit index) crashes.\<close>

theorem back_forward_list_never_crashes:
  assumes "bf_reachable itemID s" and "- 2147483648 \<le> d" and "d < 2147483648"
  shows "bf_inv s \<and> length (m_entries s) \<le> 100
    \<and> \<not> crashes (currentItem s) \<and> \<not> crashes (backItem s) \<and> \<not> crashes (forwardItem s)
    \<and> \<not> crashes (itemAtIndex d s) \<and> \<not> crashes (clear itemID s)
    \<and> \<not> crashes (backListAsAPIArrayWithLimit limit s)
    \<and> \<not> crashes (forwardListAsAPIArrayWithLimit limit s)"
proof -
  have inv: "bf_inv s" by (rule bf_reachable_inv [OF assms(1)])
  have cap: "m_capacity s = 100" using assms(1)
  proof (induction rule: bf_reachable.induct)
    case create
    then show ?case by (simp add: WebBackForwardList_def DefaultCapacity_def)
  next
    case (addItem s x)
    then show ?case using addItem_frame bf_reachable_inv by metis
  next
    case (clear s s')
    then show ?case using bf_reachable_inv by (fastforce simp: clear_eq Let_def split: if_splits)
  qed (auto simp: goToItem_def pageClosed_def Let_def split: option.splits)
  have "\<not> crashes (backListAsAPIArrayWithLimit limit s)"
    "\<not> crashes (forwardListAsAPIArrayWithLimit limit s)"
    using inv cap
    by (auto simp: backListAsAPIArrayWithLimit_def forwardListAsAPIArrayWithLimit_def bf_inv_def
        backListCount_def forwardListCount_def vec_slice_take_drop Let_def)
  moreover have "\<not> crashes (clear itemID s)" using inv by (simp add: clear_eq Let_def)
  ultimately show ?thesis
    using inv cap wbf.accessors_safe [OF inv assms(2,3)] by (auto simp: bf_inv_def)
qed

theorem back_forward_list_never_crashes_witness:
  "bf_inv (addItem id (Some 7) WebBackForwardList)
   \<and> \<not> crashes (itemAtIndex 5 (addItem id (Some 7) WebBackForwardList))"
  using back_forward_list_never_crashes
    [of id "addItem id (Some 7) WebBackForwardList" 5 0]
  by (simp add: bf_reachable.intros)

text \<open>C20: \<open>addItem\<close> refines the visit of the abstract session history: from any reachable
  state with a live page, the new page becomes current, the page that was current becomes the
  nearest page behind it, the forward list is emptied, and beyond the capacity the oldest pages
  are dropped.\<close>

theorem addItem_refines_visit:
  assumes "bf_reachable itemID s" and "m_page s"
  shows "bf_zipper (addItem itemID (Some x) s)
    = Some (zipper_visit (m_capacity s) x (bf_zipper s))"
  by (rule wbf.visit_abs [OF bf_reachable_inv [OF assms(1)] assms(2)])

theorem addItem_refines_visit_witness:
  "bf_zipper (addItem id (Some 8) (addItem id (Some 7) WebBackForwardList))
    = Some (Zipper [7] 8 [])"
proof -
  have "m_capacity (addItem id (Some 7) WebBackForwardList) = 100"
    "bf_zipper (addItem id (Some 7) WebBackForwardList) = Some (Zipper [] 7 [])"
    "m_page (addItem id (Some 7) WebBackForwardList)"
    by (simp_all add: addItem_def makeRoom_def WebBackForwardList_def DefaultCapacity_def
        bf_zipper_def zipper_at_def vec_insert_def)
  then show ?thesis
    using addItem_refines_visit [of id "addItem id (Some 7) WebBackForwardList" 8]
    by (simp add: bf_reachable.intros)
qed

text \<open>No entry leaks. When \<open>addItem\<close> drops entries, the entries it keeps, the ones it
  drops and the new one are exactly the old entries plus the new one; the page is told the
  identifier of every dropped entry, once each and in the order they are dropped, before the
  single change notification that carries the same entries.\<close>

theorem addItem_reports_every_removed_item:
  assumes "bf_reachable itemID s" and "m_page s" and "m_hasCurrentIndex s"
  shows "\<exists>removed. mset (m_entries (addItem itemID (Some x) s)) + mset removed
      = add_mset x (mset (m_entries s))
    \<and> page_calls (addItem itemID (Some x) s) = page_calls s
        @ map (\<lambda>e. BackForwardRemovedItem (itemID e)) removed
        @ [DidChangeBackForwardList (Some x) removed]"
proof -
  have inv: "bf_inv s" by (rule bf_reachable_inv [OF assms(1)])
  let ?i = "m_currentIndex s" and ?es = "m_entries s"
  have ne: "take (?i + 1) ?es = hd ?es # tl (take (?i + 1) ?es)"
    using inv assms(3) by (cases ?es) (auto simp: bf_inv_def)
  have "mset (bf_kept s) + mset (bf_removed s) = mset (take (?i + 1) ?es) + mset (drop (?i + 1) ?es)"
  proof (cases "?i + 1 = m_capacity s")
    case True
    have "mset (take (?i + 1) ?es) = add_mset (hd ?es) (mset (tl (take (?i + 1) ?es)))"
      by (subst ne) simp
    with True show ?thesis by (simp add: bf_kept_def bf_removed_def)
  qed (simp add: bf_kept_def bf_removed_def)
  also have "\<dots> = mset ?es" by (metis append_take_drop_id mset_append)
  finally show ?thesis
    using addItem_ready [OF inv assms(2,3)] by (intro exI [of _ "bf_removed s"]) simp
qed

theorem addItem_reports_every_removed_item_witness:
  "\<exists>removed. mset (m_entries (addItem id (Some 8) (addItem id (Some 7) WebBackForwardList)))
      + mset removed = {#7, 8#}"
proof -
  have e: "m_hasCurrentIndex (addItem id (Some 7) WebBackForwardList)"
    "m_page (addItem id (Some 7) WebBackForwardList)"
    "m_entries (addItem id (Some 7) WebBackForwardList) = [7]"
    by (simp_all add: addItem_def makeRoom_def WebBackForwardList_def DefaultCapacity_def
        vec_insert_def)
  then show ?thesis
    using addItem_reports_every_removed_item [of id "addItem id (Some 7) WebBackForwardList" 8]
    by (auto simp: bf_reachable.intros add_mset_commute)
qed

text \<open>C21: Back and Forward undo each other. In a reachable list with no repeated entry, going
  to the entry \<open>backItem\<close> returns makes it current and makes the entry that was current the
  one \<open>forwardItem\<close> returns.\<close>

theorem back_then_forward_returns:
  assumes "bf_reachable itemID s" and "distinct (m_entries s)"
    and "backItem s = Inr (Some y)" and "currentItem s = Inr (Some c)"
  shows "currentItem (goToItem (Some y) s) = Inr (Some y)
    \<and> forwardItem (goToItem (Some y) s) = Inr (Some c)"
proof -
  have inv: "bf_inv s" by (rule bf_reachable_inv [OF assms(1)])
  obtain z where z: "bf_zipper s = Some z" "zcurrent z = c"
    using assms(4) bf_accessors_eq(1) [OF inv] by auto
  then have "distinct (zipper_list z)"
    using assms(2) inv by (auto simp: bf_zipper_Some bf_inv_def)
  then show ?thesis
    using wbf.back_forward [OF inv z(1) _ assms(3)] z(2) by simp
qed

theorem back_then_forward_returns_witness:
  "currentItem (goToItem (Some 7) (addItem id (Some 8) (addItem id (Some 7) WebBackForwardList)))
     = Inr (Some 7)
   \<and> forwardItem (goToItem (Some 7) (addItem id (Some 8) (addItem id (Some 7) WebBackForwardList)))
     = Inr (Some 8)"
proof -
  let ?s = "addItem id (Some 8) (addItem id (Some 7) WebBackForwardList)"
  have "backItem ?s = Inr (Some 7)" "currentItem ?s = Inr (Some 8)" "distinct (m_entries ?s)"
    by (simp_all add: addItem_def makeRoom_def tossForward.simps WebBackForwardList_def
        DefaultCapacity_def vec_insert_def backItem_def currentItem_def)
  then show ?thesis
    using back_then_forward_returns [of id ?s 7 8] by (simp add: bf_reachable.intros)
qed

end
