(* ===== verification/Web_Page_Proxy.thy ===== *)
theory Web_Page_Proxy
  imports Page_Load_State Web_Back_Forward_List
begin

text \<open>
  The load handlers of a page in the UI process: \<^verbatim>\<open>WebKit2/UIProcess/FrameLoadState.cpp\<close>,
  \<^verbatim>\<open>WebFrameProxy.cpp\<close> and the part of \<^verbatim>\<open>WebPageProxy.cpp\<close> that starts navigations,
  receives the load messages of the web process and survives its crash.

  Frames are objects in a store (\<open>wp_heap\<close>); \<open>wp_frameMap\<close> is the process's map from frame
  identifiers to them and \<open>wp_mainFrame\<close> the page's own reference, so a frame that left the map may
  still be the main frame. A message arrives with the outcome of decoding its user data
  (\<open>ok\<close>) and the predicate \<open>urlAllowed\<close>
  (\<^verbatim>\<open>WebProcessProxy::checkURLReceivedFromWebProcess\<close>, which rests on the URL parser). What the
  page sends, and what it tells its loader client together with the state the client can read then,
  is recorded in logs. Sandbox extensions, the responsiveness timer and navigation snapshots do
  nothing to this state and are left out.
\<close>

subsection \<open>The load state of a frame\<close>

record frame_load_state =
  fl_state :: load_phase
  fl_url :: wtf_string
  fl_provisionalURL :: wtf_string
  fl_unreachableURL :: wtf_string
  fl_lastUnreachableURL :: wtf_string

definition FrameLoadState :: frame_load_state where
  "FrameLoadState = \<lparr>fl_state = Finished, fl_url = nullString, fl_provisionalURL = nullString,
     fl_unreachableURL = nullString, fl_lastUnreachableURL = nullString\<rparr>"

definition FrameLoadState_didStartProvisionalLoad ::
    "wtf_string \<Rightarrow> frame_load_state \<Rightarrow> frame_load_state" where
  "FrameLoadState_didStartProvisionalLoad u f = f\<lparr>fl_state := Provisional, fl_provisionalURL := u\<rparr>"

definition FrameLoadState_didReceiveServerRedirectForProvisionalLoad ::
    "wtf_string \<Rightarrow> frame_load_state \<Rightarrow> frame_load_state" where
  "FrameLoadState_didReceiveServerRedirectForProvisionalLoad u f = f\<lparr>fl_provisionalURL := u\<rparr>"

definition FrameLoadState_didFailProvisionalLoad :: "frame_load_state \<Rightarrow> frame_load_state" where
  "FrameLoadState_didFailProvisionalLoad f =
     f\<lparr>fl_state := Finished, fl_provisionalURL := nullString,
       fl_unreachableURL := fl_lastUnreachableURL f\<rparr>"

definition FrameLoadState_didCommitLoad :: "frame_load_state \<Rightarrow> frame_load_state" where
  "FrameLoadState_didCommitLoad f =
     f\<lparr>fl_state := Committed, fl_url := fl_provisionalURL f, fl_provisionalURL := nullString\<rparr>"

definition FrameLoadState_didFinishLoad :: "frame_load_state \<Rightarrow> frame_load_state" where
  "FrameLoadState_didFinishLoad f = f\<lparr>fl_state := Finished\<rparr>"

definition FrameLoadState_didFailLoad :: "frame_load_state \<Rightarrow> frame_load_state" where
  "FrameLoadState_didFailLoad f = f\<lparr>fl_state := Finished\<rparr>"

definition FrameLoadState_didSameDocumentNotification ::
    "wtf_string \<Rightarrow> frame_load_state \<Rightarrow> frame_load_state" where
  "FrameLoadState_didSameDocumentNotification u f = f\<lparr>fl_url := u\<rparr>"

definition FrameLoadState_setUnreachableURL ::
    "wtf_string \<Rightarrow> frame_load_state \<Rightarrow> frame_load_state" where
  "FrameLoadState_setUnreachableURL u f =
     f\<lparr>fl_lastUnreachableURL := fl_unreachableURL f, fl_unreachableURL := u\<rparr>"

lemmas fl_defs =
  FrameLoadState_didStartProvisionalLoad_def
  FrameLoadState_didReceiveServerRedirectForProvisionalLoad_def
  FrameLoadState_didFailProvisionalLoad_def FrameLoadState_didCommitLoad_def
  FrameLoadState_didFinishLoad_def FrameLoadState_didFailLoad_def
  FrameLoadState_didSameDocumentNotification_def FrameLoadState_setUnreachableURL_def

subsection \<open>Frames\<close>

record web_frame =
  wf_page :: bool
  wf_loadState :: frame_load_state
  wf_title :: wtf_string
  wf_MIMEType :: wtf_string
  wf_isFrameSet :: bool
  wf_certificateInfo :: "nat option"
  wf_activeListener :: "nat option"
  wf_frameID :: "64 word"

definition WebFrameProxy :: "64 word \<Rightarrow> web_frame" where
  "WebFrameProxy frameID =
     \<lparr>wf_page = True, wf_loadState = FrameLoadState, wf_title = nullString,
      wf_MIMEType = nullString, wf_isFrameSet = False, wf_certificateInfo = None,
      wf_activeListener = None, wf_frameID = frameID\<rparr>"

definition on_frame_load :: "(frame_load_state \<Rightarrow> frame_load_state) \<Rightarrow> web_frame \<Rightarrow> web_frame" where
  "on_frame_load g f = f\<lparr>wf_loadState := g (wf_loadState f)\<rparr>"

definition WebFrameProxy_disconnect :: "web_frame \<Rightarrow> web_frame" where
  "WebFrameProxy_disconnect f = f\<lparr>wf_page := False, wf_activeListener := None\<rparr>"

definition WebFrameProxy_didStartProvisionalLoad :: "wtf_string \<Rightarrow> web_frame \<Rightarrow> web_frame" where
  "WebFrameProxy_didStartProvisionalLoad u =
     on_frame_load (FrameLoadState_didStartProvisionalLoad u)"

definition WebFrameProxy_didReceiveServerRedirectForProvisionalLoad ::
    "wtf_string \<Rightarrow> web_frame \<Rightarrow> web_frame" where
  "WebFrameProxy_didReceiveServerRedirectForProvisionalLoad u =
     on_frame_load (FrameLoadState_didReceiveServerRedirectForProvisionalLoad u)"

definition WebFrameProxy_didFailProvisionalLoad :: "web_frame \<Rightarrow> web_frame" where
  "WebFrameProxy_didFailProvisionalLoad = on_frame_load FrameLoadState_didFailProvisionalLoad"

definition WebFrameProxy_didCommitLoad :: "wtf_string \<Rightarrow> nat \<Rightarrow> web_frame \<Rightarrow> web_frame" where
  "WebFrameProxy_didCommitLoad contentType certificateInfo f =
     (on_frame_load FrameLoadState_didCommitLoad f)
       \<lparr>wf_title := nullString, wf_MIMEType := contentType, wf_isFrameSet := False,
        wf_certificateInfo := Some certificateInfo\<rparr>"

definition WebFrameProxy_didFinishLoad :: "web_frame \<Rightarrow> web_frame" where
  "WebFrameProxy_didFinishLoad = on_frame_load FrameLoadState_didFinishLoad"

definition WebFrameProxy_didFailLoad :: "web_frame \<Rightarrow> web_frame" where
  "WebFrameProxy_didFailLoad = on_frame_load FrameLoadState_didFailLoad"

definition WebFrameProxy_didSameDocumentNavigation :: "wtf_string \<Rightarrow> web_frame \<Rightarrow> web_frame" where
  "WebFrameProxy_didSameDocumentNavigation u =
     on_frame_load (FrameLoadState_didSameDocumentNotification u)"

definition WebFrameProxy_didChangeTitle :: "wtf_string \<Rightarrow> web_frame \<Rightarrow> web_frame" where
  "WebFrameProxy_didChangeTitle t f = f\<lparr>wf_title := t\<rparr>"

definition WebFrameProxy_setUnreachableURL :: "wtf_string \<Rightarrow> web_frame \<Rightarrow> web_frame" where
  "WebFrameProxy_setUnreachableURL u = on_frame_load (FrameLoadState_setUnreachableURL u)"

text \<open>\<^verbatim>\<open>setUpPolicyListenerProxy\<close> and \<^verbatim>\<open>setUpFormSubmissionListenerProxy\<close>: the new listener
  replaces (and invalidates) the one that was active.\<close>

definition WebFrameProxy_setUpListener :: "nat \<Rightarrow> web_frame \<Rightarrow> web_frame" where
  "WebFrameProxy_setUpListener listenerID f = f\<lparr>wf_activeListener := Some listenerID\<rparr>"

lemmas wf_defs =
  WebFrameProxy_disconnect_def WebFrameProxy_didStartProvisionalLoad_def
  WebFrameProxy_didReceiveServerRedirectForProvisionalLoad_def
  WebFrameProxy_didFailProvisionalLoad_def WebFrameProxy_didCommitLoad_def
  WebFrameProxy_didFinishLoad_def WebFrameProxy_didFailLoad_def
  WebFrameProxy_didSameDocumentNavigation_def WebFrameProxy_didChangeTitle_def
  WebFrameProxy_setUnreachableURL_def WebFrameProxy_setUpListener_def on_frame_load_def

subsection \<open>The page\<close>

record bf_item =
  bi_itemID :: item_id
  bi_url :: wtf_string

datatype web_page_message =
    LoadRequest "64 word" wtf_string
  | LoadAlternateHTMLString wtf_string wtf_string wtf_string
  | StopLoading
  | Reload "64 word" bool
  | GoForward item_id
  | GoBack item_id
  | GoToBackForwardItem item_id

datatype loader_call =
    LC_didStartProgress | LC_didChangeProgress | LC_didFinishProgress
  | LC_didStartProvisionalLoadForFrame "64 word"
  | LC_didReceiveServerRedirectForProvisionalLoadForFrame "64 word"
  | LC_didFailProvisionalLoadWithErrorForFrame "64 word"
  | LC_didCommitLoadForFrame "64 word"
  | LC_didFinishDocumentLoadForFrame "64 word"
  | LC_didFinishLoadForFrame "64 word"
  | LC_didFailLoadWithErrorForFrame "64 word"
  | LC_didSameDocumentNavigationForFrame "64 word"
  | LC_didReceiveTitleForFrame wtf_string "64 word"
  | LC_didDisplayInsecureContentForFrame "64 word"
  | LC_didRunInsecureContentForFrame "64 word"
  | LC_processDidCrash

record web_page =
  wp_isValid :: bool
  wp_isClosed :: bool
  wp_load :: page_load_state
  wp_heap :: "nat \<rightharpoonup> web_frame"
  wp_nextFrame :: nat
  wp_frameMap :: "64 word \<rightharpoonup> nat"
  wp_mainFrame :: "nat option"
  wp_backForwardList :: "bf_item bf_list"
  wp_navigationID :: "64 word"
  wp_frameSetLargestFrame :: "nat option"
  wp_mainFrameHasCustomContentProvider :: bool
  wp_mainFrameIsPinned :: "bool \<times> bool \<times> bool \<times> bool"
  wp_pageScaleFactor :: rat
  wp_loadDependentStringCallbackIDs :: "nat list"
  wp_stringCallbacks :: "nat set"
  wp_invalidatedCallbacks :: "nat list"
  wp_urlAtProcessExit :: wtf_string
  wp_loadStateAtProcessExit :: load_phase
  wp_invalidMessages :: nat
  wp_sent :: "web_page_message list"
  wp_client :: "(loader_call \<times> load_data \<times> load_data) list"

text \<open>A page that was just created, its web process running and no frame known yet.\<close>

definition new_page :: "nat list \<Rightarrow> web_page" where
  "new_page observers =
     \<lparr>wp_isValid = True, wp_isClosed = False,
      wp_load = fold addObserver observers PageLoadState,
      wp_heap = Map.empty, wp_nextFrame = 0, wp_frameMap = Map.empty, wp_mainFrame = None,
      wp_backForwardList = WebBackForwardList, wp_navigationID = 0,
      wp_frameSetLargestFrame = None, wp_mainFrameHasCustomContentProvider = False,
      wp_mainFrameIsPinned = (False, False, False, False), wp_pageScaleFactor = 1,
      wp_loadDependentStringCallbackIDs = [], wp_stringCallbacks = {}, wp_invalidatedCallbacks = [],
      wp_urlAtProcessExit = nullString, wp_loadStateAtProcessExit = Finished,
      wp_invalidMessages = 0, wp_sent = [], wp_client = []\<rparr>"

definition page_isValid :: "web_page \<Rightarrow> bool" where
  "page_isValid p = (if wp_isClosed p then False else wp_isValid p)"

definition on_load :: "(page_load_state \<Rightarrow> page_load_state) \<Rightarrow> web_page \<Rightarrow> web_page" where
  "on_load f p = p\<lparr>wp_load := f (wp_load p)\<rparr>"

definition on_frame :: "nat \<Rightarrow> (web_frame \<Rightarrow> web_frame) \<Rightarrow> web_page \<Rightarrow> web_page" where
  "on_frame r g p = p\<lparr>wp_heap := (wp_heap p)(r := map_option g (wp_heap p r))\<rparr>"

text \<open>\<^verbatim>\<open>auto transaction = m_pageLoadState.transaction();\<close> to the end of the scope, by any exit.\<close>

definition with_transaction :: "(web_page \<Rightarrow> web_page) \<Rightarrow> web_page \<Rightarrow> web_page" where
  "with_transaction body p = on_load endTransaction (body (on_load beginTransaction p))"

text \<open>A call is recorded with the published state, which the client can read, and the written one.\<close>

definition tell_client :: "loader_call \<Rightarrow> web_page \<Rightarrow> web_page" where
  "tell_client c p =
     p\<lparr>wp_client := wp_client p @ [(c, pl_committed (wp_load p), pl_uncommitted (wp_load p))]\<rparr>"

definition send :: "web_page_message \<Rightarrow> web_page \<Rightarrow> web_page" where
  "send msg p = p\<lparr>wp_sent := wp_sent p @ [msg]\<rparr>"

text \<open>A failed \<^verbatim>\<open>MESSAGE_CHECK\<close> marks the message as invalid and leaves the handler.\<close>

definition mark_invalid :: "web_page \<Rightarrow> web_page" where
  "mark_invalid p = p\<lparr>wp_invalidMessages := wp_invalidMessages p + 1\<rparr>"

definition isValidKey :: "64 word \<Rightarrow> bool" where
  "isValidKey k \<longleftrightarrow> k \<noteq> 0 \<and> k \<noteq> - 1"

definition webFrame :: "64 word \<Rightarrow> web_page \<Rightarrow> nat option" where
  "webFrame frameID p = (if \<not> isValidKey frameID then None else wp_frameMap p frameID)"

definition canCreateFrame :: "64 word \<Rightarrow> web_page \<Rightarrow> bool" where
  "canCreateFrame frameID p \<longleftrightarrow> isValidKey frameID \<and> wp_frameMap p frameID = None"

definition isMainFrame :: "nat \<Rightarrow> web_page \<Rightarrow> bool" where
  "isMainFrame r p \<longleftrightarrow>
     (case wp_heap p r of None \<Rightarrow> False | Some f \<Rightarrow> wf_page f \<and> wp_mainFrame p = Some r)"

subsection \<open>Process and frame life cycle\<close>

definition frameCreated :: "64 word \<Rightarrow> nat \<Rightarrow> web_page \<Rightarrow> web_page" where
  "frameCreated frameID r p = p\<lparr>wp_frameMap := (wp_frameMap p)(frameID \<mapsto> r)\<rparr>"

definition alloc_frame :: "64 word \<Rightarrow> web_page \<Rightarrow> nat \<times> web_page" where
  "alloc_frame frameID p =
     (wp_nextFrame p,
      p\<lparr>wp_heap := (wp_heap p)(wp_nextFrame p \<mapsto> WebFrameProxy frameID),
        wp_nextFrame := Suc (wp_nextFrame p)\<rparr>)"

definition didCreateMainFrame :: "64 word \<Rightarrow> web_page \<Rightarrow> web_page" where
  "didCreateMainFrame frameID p =
     (if wp_mainFrame p \<noteq> None then mark_invalid p
      else if \<not> canCreateFrame frameID p then mark_invalid p
      else case alloc_frame frameID p of
             (r, p) \<Rightarrow> frameCreated frameID r (p\<lparr>wp_mainFrame := Some r\<rparr>))"

definition didCreateSubframe :: "64 word \<Rightarrow> web_page \<Rightarrow> web_page" where
  "didCreateSubframe frameID p =
     (if wp_mainFrame p = None then mark_invalid p
      else if \<not> canCreateFrame frameID p then mark_invalid p
      else case alloc_frame frameID p of (r, p) \<Rightarrow> frameCreated frameID r p)"

definition didDestroyFrame :: "64 word \<Rightarrow> web_page \<Rightarrow> web_page" where
  "didDestroyFrame frameID p = p\<lparr>wp_frameMap := (wp_frameMap p)(frameID := None)\<rparr>"

text \<open>\<^verbatim>\<open>WebProcessProxy::disconnect\<close>: every frame in the map loses its page, then the map is
  emptied.\<close>

definition process_disconnect :: "web_page \<Rightarrow> web_page" where
  "process_disconnect p =
     p\<lparr>wp_heap := (\<lambda>r. if r \<in> ran (wp_frameMap p)
                      then map_option WebFrameProxy_disconnect (wp_heap p r) else wp_heap p r),
       wp_frameMap := Map.empty\<rparr>"

text \<open>Of the fields that \<^verbatim>\<open>resetState\<close> clears, those of this model.\<close>

definition resetState :: "web_page \<Rightarrow> web_page" where
  "resetState p =
     p\<lparr>wp_mainFrame := None, wp_mainFrameIsPinned := (False, False, False, False),
       wp_invalidatedCallbacks :=
         wp_invalidatedCallbacks p @ sorted_list_of_set (wp_stringCallbacks p),
       wp_stringCallbacks := {}, wp_loadDependentStringCallbackIDs := []\<rparr>"

definition resetStateAfterProcessExited :: "web_page \<Rightarrow> web_page" where
  "resetStateAfterProcessExited p =
     (if \<not> page_isValid p then p
      else let p = p\<lparr>wp_isValid := False\<rparr>;
               p = (case wp_mainFrame p of None \<Rightarrow> p
                    | Some r \<Rightarrow> (case wp_heap p r of None \<Rightarrow> p
                        | Some f \<Rightarrow> p\<lparr>wp_urlAtProcessExit := fl_url (wf_loadState f),
                                     wp_loadStateAtProcessExit := fl_state (wf_loadState f)\<rparr>))
           in resetState p)"

definition processDidCrash :: "web_page \<Rightarrow> web_page" where
  "processDidCrash p =
     with_transaction (\<lambda>p. tell_client LC_processDidCrash (on_load PageLoadState_reset p))
       (resetStateAfterProcessExited p)"

text \<open>\<^verbatim>\<open>WebProcessProxy::didClose\<close>, for a process that holds this page.\<close>

definition process_didClose :: "web_page \<Rightarrow> web_page" where
  "process_didClose p = processDidCrash (process_disconnect p)"

definition terminateProcess :: "web_page \<Rightarrow> web_page" where
  "terminateProcess p =
     (if \<not> wp_isValid p then p else resetStateAfterProcessExited (process_disconnect p))"

text \<open>The new process starts with an empty frame map.\<close>

definition reattachToWebProcess :: "web_page \<Rightarrow> web_page" where
  "reattachToWebProcess p = p\<lparr>wp_isValid := True, wp_frameMap := Map.empty\<rparr>"

definition reattachToWebProcessWithItem :: "bf_item option \<Rightarrow> web_page \<Rightarrow> web_page res" where
  "reattachToWebProcessWithItem item p =
     (case item of None \<Rightarrow> Inr (reattachToWebProcess p)
      | Some i \<Rightarrow> (case currentItem (wp_backForwardList p) of
          Inl e \<Rightarrow> Inl e
        | Inr cur \<Rightarrow>
            let p = (if item \<noteq> cur
                     then p\<lparr>wp_backForwardList := goToItem item (wp_backForwardList p)\<rparr> else p)
            in Inr (send (GoToBackForwardItem (bi_itemID i)) (reattachToWebProcess p))))"

subsection \<open>Navigations the application starts\<close>

definition loadRequest :: "wtf_string \<Rightarrow> web_page \<Rightarrow> 64 word \<times> web_page" where
  "loadRequest url p =
     (let navigationID = wp_navigationID p + 1
      in (navigationID,
          with_transaction
            (\<lambda>p. let p = on_load (PageLoadState_setPendingAPIRequestURL url) p;
                     p = (if \<not> page_isValid p then reattachToWebProcess p else p)
                 in send (LoadRequest navigationID url) p)
            (p\<lparr>wp_navigationID := navigationID\<rparr>)))"

definition loadAlternateHTMLString ::
    "wtf_string \<Rightarrow> wtf_string \<Rightarrow> wtf_string \<Rightarrow> web_page \<Rightarrow> web_page" where
  "loadAlternateHTMLString htmlString baseURL unreachableURL p =
     with_transaction
       (\<lambda>p. let p = on_load (PageLoadState_setUnreachableURL unreachableURL) p;
                p = (case wp_mainFrame p of None \<Rightarrow> p
                     | Some r \<Rightarrow> on_frame r (WebFrameProxy_setUnreachableURL unreachableURL) p)
            in send (LoadAlternateHTMLString htmlString baseURL unreachableURL) p)
       (if \<not> page_isValid p then reattachToWebProcess p else p)"

definition stopLoading :: "web_page \<Rightarrow> web_page" where
  "stopLoading p = (if \<not> page_isValid p then p else send StopLoading p)"

text \<open>In \<^verbatim>\<open>reload\<close> the transaction ends with the block that sets the pending URL.\<close>

definition reload :: "bool \<Rightarrow> web_page \<Rightarrow> web_page res" where
  "reload reloadFromOrigin p =
     (case currentItem (wp_backForwardList p) of
        Inl e \<Rightarrow> Inl e
      | Inr cur \<Rightarrow>
          let p = (case cur of None \<Rightarrow> p
                   | Some i \<Rightarrow>
                       with_transaction (on_load (PageLoadState_setPendingAPIRequestURL (bi_url i))) p)
          in if \<not> page_isValid p then reattachToWebProcessWithItem cur p
             else let navigationID = wp_navigationID p + 1
                  in Inr (send (Reload navigationID reloadFromOrigin)
                            (p\<lparr>wp_navigationID := navigationID\<rparr>)))"

text \<open>The tail that \<^verbatim>\<open>goForward\<close> and \<^verbatim>\<open>goBack\<close> share, with the message they send.\<close>

definition go_to :: "(item_id \<Rightarrow> web_page_message) \<Rightarrow> bf_item \<Rightarrow> web_page \<Rightarrow> web_page res" where
  "go_to msg i p =
     (let p = on_load (PageLoadState_setPendingAPIRequestURL (bi_url i))
                (on_load beginTransaction p)
      in case (if \<not> page_isValid p then reattachToWebProcessWithItem (Some i) p
               else Inr (send (msg (bi_itemID i)) p)) of
           Inl e \<Rightarrow> Inl e
         | Inr p \<Rightarrow> Inr (on_load endTransaction p))"

definition page_goForward :: "web_page \<Rightarrow> web_page res" where
  "page_goForward p =
     (case forwardItem (wp_backForwardList p) of
        Inl e \<Rightarrow> Inl e
      | Inr None \<Rightarrow> Inr p
      | Inr (Some i) \<Rightarrow> go_to GoForward i p)"

definition page_goBack :: "web_page \<Rightarrow> web_page res" where
  "page_goBack p =
     (case backItem (wp_backForwardList p) of
        Inl e \<Rightarrow> Inl e
      | Inr None \<Rightarrow> Inr p
      | Inr (Some i) \<Rightarrow> go_to GoBack i p)"

definition goToBackForwardItem :: "bf_item \<Rightarrow> web_page \<Rightarrow> web_page res" where
  "goToBackForwardItem i p =
     (if \<not> page_isValid p then reattachToWebProcessWithItem (Some i) p
      else Inr (with_transaction
                  (\<lambda>p. send (GoToBackForwardItem (bi_itemID i))
                         (on_load (PageLoadState_setPendingAPIRequestURL (bi_url i)) p)) p))"

subsection \<open>Messages from the web process\<close>

definition didStartProgress :: "web_page \<Rightarrow> web_page" where
  "didStartProgress =
     with_transaction
       (\<lambda>p. tell_client LC_didStartProgress
              (on_load commitChanges (on_load PageLoadState_didStartProgress p)))"

definition didChangeProgress :: "rat \<Rightarrow> web_page \<Rightarrow> web_page" where
  "didChangeProgress v =
     with_transaction
       (\<lambda>p. tell_client LC_didChangeProgress
              (on_load commitChanges (on_load (PageLoadState_didChangeProgress v) p)))"

definition didFinishProgress :: "web_page \<Rightarrow> web_page" where
  "didFinishProgress =
     with_transaction
       (\<lambda>p. tell_client LC_didFinishProgress
              (on_load commitChanges (on_load PageLoadState_didFinishProgress p)))"

definition didStartProvisionalLoadForFrame ::
    "bool \<Rightarrow> (wtf_string \<Rightarrow> bool) \<Rightarrow> 64 word \<Rightarrow> wtf_string \<Rightarrow> wtf_string \<Rightarrow> web_page \<Rightarrow> web_page" where
  "didStartProvisionalLoadForFrame ok urlAllowed frameID url unreachableURL =
     with_transaction (\<lambda>p.
       let p = on_load PageLoadState_clearPendingAPIRequestURL p
       in if \<not> ok then p
          else case webFrame frameID p of None \<Rightarrow> mark_invalid p
          | Some r \<Rightarrow>
              if \<not> urlAllowed url then mark_invalid p
              else let p = (if isMainFrame r p
                            then on_load (PageLoadState_didStartProvisionalLoad url unreachableURL) p
                            else p);
                       p = on_frame r (WebFrameProxy_setUnreachableURL unreachableURL) p;
                       p = on_frame r (WebFrameProxy_didStartProvisionalLoad url) p;
                       p = on_load commitChanges p
                   in tell_client (LC_didStartProvisionalLoadForFrame frameID) p)"

definition didReceiveServerRedirectForProvisionalLoadForFrame ::
    "bool \<Rightarrow> (wtf_string \<Rightarrow> bool) \<Rightarrow> 64 word \<Rightarrow> wtf_string \<Rightarrow> web_page \<Rightarrow> web_page" where
  "didReceiveServerRedirectForProvisionalLoadForFrame ok urlAllowed frameID url p =
     (if \<not> ok then p
      else case webFrame frameID p of None \<Rightarrow> mark_invalid p
      | Some r \<Rightarrow>
          if \<not> urlAllowed url then mark_invalid p
          else with_transaction (\<lambda>p.
            let p = (if isMainFrame r p
                     then on_load (PageLoadState_didReceiveServerRedirectForProvisionalLoad url) p
                     else p);
                p = on_frame r (WebFrameProxy_didReceiveServerRedirectForProvisionalLoad url) p;
                p = on_load commitChanges p
            in tell_client (LC_didReceiveServerRedirectForProvisionalLoadForFrame frameID) p) p)"

definition didFailProvisionalLoadForFrame :: "bool \<Rightarrow> 64 word \<Rightarrow> web_page \<Rightarrow> web_page" where
  "didFailProvisionalLoadForFrame ok frameID p =
     (if \<not> ok then p
      else case webFrame frameID p of None \<Rightarrow> mark_invalid p
      | Some r \<Rightarrow>
          with_transaction (\<lambda>p.
            let p = (if isMainFrame r p then on_load PageLoadState_didFailProvisionalLoad p else p);
                p = on_frame r WebFrameProxy_didFailProvisionalLoad p;
                p = on_load commitChanges p
            in tell_client (LC_didFailProvisionalLoadWithErrorForFrame frameID) p) p)"

text \<open>The callbacks registered for the current load, in the order of the copied table.\<close>

definition clearLoadDependentCallbacks :: "web_page \<Rightarrow> web_page" where
  "clearLoadDependentCallbacks p =
     (let ids = wp_loadDependentStringCallbackIDs p
      in fold (\<lambda>i p. if i \<in> wp_stringCallbacks p
                     then p\<lparr>wp_stringCallbacks := wp_stringCallbacks p - {i},
                            wp_invalidatedCallbacks := wp_invalidatedCallbacks p @ [i]\<rparr>
                     else p)
           ids (p\<lparr>wp_loadDependentStringCallbackIDs := []\<rparr>))"

definition didCommitLoadForFrame ::
    "bool \<Rightarrow> 64 word \<Rightarrow> wtf_string \<Rightarrow> bool \<Rightarrow> bool \<Rightarrow> nat \<Rightarrow> web_page \<Rightarrow> web_page" where
  "didCommitLoadForFrame ok frameID mimeType frameHasCustomContentProvider isStandardLoad
       certificateInfo p =
     (if \<not> ok then p
      else case webFrame frameID p of None \<Rightarrow> mark_invalid p
      | Some r \<Rightarrow>
          with_transaction (\<lambda>p.
            let p = (if isMainFrame r p then on_load PageLoadState_didCommitLoad p else p);
                p = clearLoadDependentCallbacks p;
                p = on_frame r (WebFrameProxy_didCommitLoad mimeType certificateInfo) p;
                p = (if isMainFrame r p
                     then let p = p\<lparr>wp_mainFrameHasCustomContentProvider :=
                                      frameHasCustomContentProvider\<rparr>
                          in if wp_mainFrameHasCustomContentProvider p
                             then p\<lparr>wp_mainFrameIsPinned := (True, True, True, True)\<rparr> else p
                     else p);
                p = (if isMainFrame r p \<and> isStandardLoad then p\<lparr>wp_pageScaleFactor := 1\<rparr> else p);
                p = on_load commitChanges p
            in tell_client (LC_didCommitLoadForFrame frameID) p) p)"

definition didFinishDocumentLoadForFrame :: "bool \<Rightarrow> 64 word \<Rightarrow> web_page \<Rightarrow> web_page" where
  "didFinishDocumentLoadForFrame ok frameID p =
     (if \<not> ok then p
      else case webFrame frameID p of None \<Rightarrow> mark_invalid p
      | Some r \<Rightarrow> tell_client (LC_didFinishDocumentLoadForFrame frameID) p)"

definition didFinishLoadForFrame :: "bool \<Rightarrow> 64 word \<Rightarrow> web_page \<Rightarrow> web_page" where
  "didFinishLoadForFrame ok frameID p =
     (if \<not> ok then p
      else case webFrame frameID p of None \<Rightarrow> mark_invalid p
      | Some r \<Rightarrow>
          with_transaction (\<lambda>p.
            let p = (if isMainFrame r p then on_load PageLoadState_didFinishLoad p else p);
                p = on_frame r WebFrameProxy_didFinishLoad p;
                p = on_load commitChanges p
            in tell_client (LC_didFinishLoadForFrame frameID) p) p)"

definition didFailLoadForFrame :: "bool \<Rightarrow> 64 word \<Rightarrow> web_page \<Rightarrow> web_page" where
  "didFailLoadForFrame ok frameID p =
     (if \<not> ok then p
      else case webFrame frameID p of None \<Rightarrow> mark_invalid p
      | Some r \<Rightarrow>
          with_transaction (\<lambda>p.
            let p = (if isMainFrame r p then on_load PageLoadState_didFailLoad p else p);
                p = on_frame r WebFrameProxy_didFailLoad p;
                p = on_load commitChanges p
            in tell_client (LC_didFailLoadWithErrorForFrame frameID) p)
          (clearLoadDependentCallbacks p))"

definition didSameDocumentNavigationForFrame ::
    "bool \<Rightarrow> (wtf_string \<Rightarrow> bool) \<Rightarrow> 64 word \<Rightarrow> wtf_string \<Rightarrow> web_page \<Rightarrow> web_page" where
  "didSameDocumentNavigationForFrame ok urlAllowed frameID url p =
     (if \<not> ok then p
      else case webFrame frameID p of None \<Rightarrow> mark_invalid p
      | Some r \<Rightarrow>
          if \<not> urlAllowed url then mark_invalid p
          else with_transaction (\<lambda>p.
            let p = (if isMainFrame r p
                     then on_load (PageLoadState_didSameDocumentNavigation url) p else p);
                p = on_load PageLoadState_clearPendingAPIRequestURL p;
                p = on_frame r (WebFrameProxy_didSameDocumentNavigation url) p;
                p = on_load commitChanges p
            in tell_client (LC_didSameDocumentNavigationForFrame frameID) p) p)"

definition didReceiveTitleForFrame :: "bool \<Rightarrow> 64 word \<Rightarrow> wtf_string \<Rightarrow> web_page \<Rightarrow> web_page" where
  "didReceiveTitleForFrame ok frameID title p =
     (if \<not> ok then p
      else case webFrame frameID p of None \<Rightarrow> mark_invalid p
      | Some r \<Rightarrow>
          with_transaction (\<lambda>p.
            let p = (if isMainFrame r p then on_load (PageLoadState_setTitle title) p else p);
                p = on_frame r (WebFrameProxy_didChangeTitle title) p;
                p = on_load commitChanges p
            in tell_client (LC_didReceiveTitleForFrame title frameID) p) p)"

definition didDisplayInsecureContentForFrame :: "bool \<Rightarrow> 64 word \<Rightarrow> web_page \<Rightarrow> web_page" where
  "didDisplayInsecureContentForFrame ok frameID p =
     (if \<not> ok then p
      else case webFrame frameID p of None \<Rightarrow> mark_invalid p
      | Some r \<Rightarrow>
          with_transaction (\<lambda>p.
            tell_client (LC_didDisplayInsecureContentForFrame frameID)
              (on_load commitChanges (on_load PageLoadState_didDisplayOrRunInsecureContent p))) p)"

definition didRunInsecureContentForFrame :: "bool \<Rightarrow> 64 word \<Rightarrow> web_page \<Rightarrow> web_page" where
  "didRunInsecureContentForFrame ok frameID p =
     (if \<not> ok then p
      else case webFrame frameID p of None \<Rightarrow> mark_invalid p
      | Some r \<Rightarrow>
          with_transaction (\<lambda>p.
            tell_client (LC_didRunInsecureContentForFrame frameID)
              (on_load commitChanges (on_load PageLoadState_didDisplayOrRunInsecureContent p))) p)"

definition frameDidBecomeFrameSet :: "64 word \<Rightarrow> bool \<Rightarrow> web_page \<Rightarrow> web_page" where
  "frameDidBecomeFrameSet frameID value p =
     (case webFrame frameID p of None \<Rightarrow> mark_invalid p
      | Some r \<Rightarrow>
          let p = on_frame r (\<lambda>f. f\<lparr>wf_isFrameSet := value\<rparr>) p
          in if isMainFrame r p
             then p\<lparr>wp_frameSetLargestFrame := (if value then wp_mainFrame p else None)\<rparr> else p)"

text \<open>The list keeps the items it is given; the process maps an identifier to its item.\<close>

definition backForwardAddItem :: "(item_id \<Rightarrow> bf_item option) \<Rightarrow> item_id \<Rightarrow> web_page \<Rightarrow> web_page" where
  "backForwardAddItem items itemID p =
     p\<lparr>wp_backForwardList := addItem bi_itemID (items itemID) (wp_backForwardList p)\<rparr>"

definition backForwardGoToItem :: "(item_id \<Rightarrow> bf_item option) \<Rightarrow> item_id \<Rightarrow> web_page \<Rightarrow> web_page" where
  "backForwardGoToItem items itemID p =
     (case items itemID of None \<Rightarrow> p
      | Some i \<Rightarrow> p\<lparr>wp_backForwardList := goToItem (Some i) (wp_backForwardList p)\<rparr>)"

definition backForwardItemAtIndex :: "int \<Rightarrow> web_page \<Rightarrow> item_id res" where
  "backForwardItemAtIndex index p =
     (case itemAtIndex index (wp_backForwardList p) of
        Inl e \<Rightarrow> Inl e
      | Inr item \<Rightarrow> Inr (case item of None \<Rightarrow> 0 | Some i \<Rightarrow> bi_itemID i))"

subsection \<open>The main frame mirrors the page\<close>

text \<open>
  The page's load state and the load state of its main frame are kept apart and updated by separate
  calls. \<open>agrees\<close> says that they tell the same story; with \<open>full\<close>, about the unreachable URLs too.
\<close>

definition agrees :: "bool \<Rightarrow> load_data \<Rightarrow> wtf_string \<Rightarrow> frame_load_state \<Rightarrow> bool" where
  "agrees full d lastUnreachable f \<longleftrightarrow>
     fl_state f = ld_state d \<and> fl_provisionalURL f = ld_provisionalURL d \<and> fl_url f = ld_url d
     \<and> (full \<longrightarrow> fl_unreachableURL f = ld_unreachableURL d \<and> fl_lastUnreachableURL f = lastUnreachable)"

text \<open>The load state of the main frame; before there is one, that of a frame not yet loaded.\<close>

definition main_load_state :: "web_page \<Rightarrow> frame_load_state option" where
  "main_load_state p =
     (case wp_mainFrame p of None \<Rightarrow> Some FrameLoadState
      | Some r \<Rightarrow> (case wp_heap p r of None \<Rightarrow> None
          | Some f \<Rightarrow> if wf_page f then Some (wf_loadState f) else None))"

definition mirrors :: "bool \<Rightarrow> web_page \<Rightarrow> bool" where
  "mirrors full p \<longleftrightarrow>
     (\<exists>f. main_load_state p = Some f \<and>
        agrees full (pl_uncommitted (wp_load p)) (pl_lastUnreachableURL (wp_load p)) f)"

definition frames_ok :: "web_page \<Rightarrow> bool" where
  "frames_ok p \<longleftrightarrow>
     (\<forall>i r. wp_frameMap p i = Some r \<longrightarrow> wp_heap p r \<noteq> None)
     \<and> (\<forall>r. wp_heap p r \<noteq> None \<longrightarrow> r < wp_nextFrame p)"

definition client_ok :: "web_page \<Rightarrow> bool" where
  "client_ok p \<longleftrightarrow> (\<forall>(c, d, e) \<in> set (wp_client p). c \<noteq> LC_processDidCrash \<longrightarrow> d = e)"

definition load_ok :: "nat \<Rightarrow> page_load_state \<Rightarrow> bool" where
  "load_ok n s \<longleftrightarrow> pl_outstandingTransactionCount s = n \<and> distinct (pl_observers s)
     \<and> (\<not> pl_mayHaveUncommittedChanges s \<longrightarrow> pl_committed s = pl_uncommitted s)
     \<and> (n = 0 \<longrightarrow> \<not> pl_mayHaveUncommittedChanges s)"

text \<open>The invariant with \<open>n\<close> open transactions: \<open>0\<close> between messages, \<open>1\<close> inside a handler.\<close>

definition page_inv :: "bool \<Rightarrow> nat \<Rightarrow> web_page \<Rightarrow> bool" where
  "page_inv full n p \<longleftrightarrow>
     load_ok n (wp_load p) \<and> mirrors full p \<and> frames_ok p \<and> client_ok p
     \<and> bf_inv (wp_backForwardList p) \<and> \<not> wp_isClosed p
     \<and> (\<not> wp_isValid p \<longrightarrow> wp_mainFrame p = None)"

text \<open>An operation that leaves the mirrored fields alone, and a pair of operations that changes
  them on both sides in step.\<close>

definition neutral :: "(page_load_state \<Rightarrow> page_load_state) \<Rightarrow> bool" where
  "neutral g \<longleftrightarrow> pl_mutator g \<and>
     (\<forall>full s f. agrees full (pl_uncommitted s) (pl_lastUnreachableURL s) f \<longrightarrow>
        agrees full (pl_uncommitted (g s)) (pl_lastUnreachableURL (g s)) f)"

definition matched ::
    "(page_load_state \<Rightarrow> page_load_state) \<Rightarrow> (web_frame \<Rightarrow> web_frame) \<Rightarrow> bool" where
  "matched g h \<longleftrightarrow> pl_mutator g \<and>
     (\<forall>full s f. agrees full (pl_uncommitted s) (pl_lastUnreachableURL s) (wf_loadState f) \<longrightarrow>
        agrees full (pl_uncommitted (g s)) (pl_lastUnreachableURL (g s)) (wf_loadState (h f)))
     \<and> (\<forall>f. wf_page (h f) = wf_page f)"

lemma neutral_ops [simp]:
  "neutral PageLoadState_clearPendingAPIRequestURL"
  "neutral (PageLoadState_setPendingAPIRequestURL u)"
  "neutral PageLoadState_didDisplayOrRunInsecureContent"
  "neutral PageLoadState_didStartProgress"
  "neutral (PageLoadState_didChangeProgress v)"
  "neutral PageLoadState_didFinishProgress"
  by (simp_all add: neutral_def pl_mutator.intros agrees_def pl_mutator_defs)

lemma matched_ops [simp]:
  "matched (PageLoadState_didStartProvisionalLoad u v)
     (\<lambda>f. WebFrameProxy_didStartProvisionalLoad u (WebFrameProxy_setUnreachableURL v f))"
  "matched (PageLoadState_didReceiveServerRedirectForProvisionalLoad u)
     (WebFrameProxy_didReceiveServerRedirectForProvisionalLoad u)"
  "matched PageLoadState_didFailProvisionalLoad WebFrameProxy_didFailProvisionalLoad"
  "matched PageLoadState_didCommitLoad (WebFrameProxy_didCommitLoad mt ci)"
  "matched PageLoadState_didFinishLoad WebFrameProxy_didFinishLoad"
  "matched PageLoadState_didFailLoad WebFrameProxy_didFailLoad"
  "matched (PageLoadState_didSameDocumentNavigation u) (WebFrameProxy_didSameDocumentNavigation u)"
  "matched (PageLoadState_setTitle u) (WebFrameProxy_didChangeTitle u)"
  "matched (PageLoadState_setUnreachableURL u) (WebFrameProxy_setUnreachableURL u)"
  by (simp_all add: matched_def pl_mutator.intros agrees_def pl_mutator_defs wf_defs fl_defs)

subsubsection \<open>The parts of a handler keep the invariant\<close>

lemma main_load_state_frame [simp]:
  "main_load_state (p\<lparr>wp_load := x1\<rparr>) = main_load_state p"
  "main_load_state (p\<lparr>wp_client := x2\<rparr>) = main_load_state p"
  "main_load_state (p\<lparr>wp_sent := x3\<rparr>) = main_load_state p"
  "main_load_state (p\<lparr>wp_invalidMessages := x4\<rparr>) = main_load_state p"
  "main_load_state (p\<lparr>wp_navigationID := x5\<rparr>) = main_load_state p"
  "main_load_state (p\<lparr>wp_backForwardList := x6\<rparr>) = main_load_state p"
  "main_load_state (p\<lparr>wp_frameMap := x7\<rparr>) = main_load_state p"
  "main_load_state (p\<lparr>wp_stringCallbacks := x8\<rparr>) = main_load_state p"
  "main_load_state (p\<lparr>wp_invalidatedCallbacks := x9\<rparr>) = main_load_state p"
  "main_load_state (p\<lparr>wp_loadDependentStringCallbackIDs := x10\<rparr>) = main_load_state p"
  "main_load_state (p\<lparr>wp_mainFrameHasCustomContentProvider := x11\<rparr>) = main_load_state p"
  "main_load_state (p\<lparr>wp_mainFrameIsPinned := x12\<rparr>) = main_load_state p"
  "main_load_state (p\<lparr>wp_pageScaleFactor := x13\<rparr>) = main_load_state p"
  "main_load_state (p\<lparr>wp_frameSetLargestFrame := x14\<rparr>) = main_load_state p"
  "main_load_state (p\<lparr>wp_isValid := x15\<rparr>) = main_load_state p"
  by (simp_all add: main_load_state_def split: option.split)

lemmas page_inv_defs = page_inv_def mirrors_def frames_ok_def client_ok_def

lemma load_ok_mutator: "load_ok n s \<Longrightarrow> 0 < n \<Longrightarrow> pl_mutator g \<Longrightarrow> load_ok n (g s)"
  by (simp add: load_ok_def pl_mutator_frame)

lemma load_ok_commit: "load_ok n s \<Longrightarrow> load_ok n (commitChanges s)"
  by (simp add: load_ok_def)

lemma load_ok_begin: "load_ok 0 s \<Longrightarrow> load_ok 1 (beginTransaction s)"
  by (simp add: load_ok_def beginTransaction_def)

lemma load_ok_end: "load_ok 1 s \<Longrightarrow> load_ok 0 (endTransaction s)"
  by (simp add: load_ok_def endTransaction_outer)

text \<open>What an operation on the load state has to keep.\<close>

lemma inv_on_load:
  assumes "page_inv full n p" and "load_ok m (g (wp_load p))"
    and "\<And>f. agrees full (pl_uncommitted (wp_load p)) (pl_lastUnreachableURL (wp_load p)) f \<Longrightarrow>
      agrees full (pl_uncommitted (g (wp_load p))) (pl_lastUnreachableURL (g (wp_load p))) f"
  shows "page_inv full m (on_load g p)"
  using assms by (auto simp: page_inv_defs on_load_def split: option.splits)

lemma page_inv_load_ok: "page_inv full n p \<Longrightarrow> load_ok n (wp_load p)"
  by (simp add: page_inv_def)

lemma inv_begin: "page_inv full 0 p \<Longrightarrow> page_inv full 1 (on_load beginTransaction p)"
  by (rule inv_on_load, assumption, rule load_ok_begin, erule page_inv_load_ok)
    (simp add: beginTransaction_def)

lemma inv_end: "page_inv full 1 p \<Longrightarrow> page_inv full 0 (on_load endTransaction p)"
  by (rule inv_on_load, assumption, rule load_ok_end, erule page_inv_load_ok)
    (auto dest!: page_inv_load_ok simp: load_ok_def endTransaction_outer)

lemma inv_commit: "page_inv full n p \<Longrightarrow> page_inv full n (on_load commitChanges p)"
  by (rule inv_on_load, assumption, rule load_ok_commit, erule page_inv_load_ok) simp

lemma inv_neutral:
  assumes "page_inv full n p" "0 < n" "neutral g"
  shows "page_inv full n (on_load g p)"
  by (rule inv_on_load [OF assms(1)])
    (use assms in \<open>auto simp: neutral_def intro: load_ok_mutator page_inv_load_ok\<close>)

lemma on_frame_fields [simp]:
  "wp_load (on_frame r h p) = wp_load p" "wp_mainFrame (on_frame r h p) = wp_mainFrame p"
  "wp_frameMap (on_frame r h p) = wp_frameMap p" "wp_nextFrame (on_frame r h p) = wp_nextFrame p"
  "wp_client (on_frame r h p) = wp_client p" "wp_isClosed (on_frame r h p) = wp_isClosed p"
  "wp_isValid (on_frame r h p) = wp_isValid p"
  "wp_backForwardList (on_frame r h p) = wp_backForwardList p"
  "wp_heap (on_frame r h p) = (wp_heap p)(r := map_option h (wp_heap p r))"
  by (simp_all add: on_frame_def)

lemma on_load_fields [simp]:
  "wp_load (on_load g p) = g (wp_load p)" "wp_mainFrame (on_load g p) = wp_mainFrame p"
  "wp_frameMap (on_load g p) = wp_frameMap p" "wp_nextFrame (on_load g p) = wp_nextFrame p"
  "wp_client (on_load g p) = wp_client p" "wp_isClosed (on_load g p) = wp_isClosed p"
  "wp_isValid (on_load g p) = wp_isValid p"
  "wp_backForwardList (on_load g p) = wp_backForwardList p" "wp_heap (on_load g p) = wp_heap p"
  "main_load_state (on_load g p) = main_load_state p" "isMainFrame r (on_load g p) = isMainFrame r p"
  "webFrame i (on_load g p) = webFrame i p" "page_isValid (on_load g p) = page_isValid p"
  by (simp_all add: on_load_def isMainFrame_def webFrame_def page_isValid_def split: option.split)

lemma main_frame_found:
  assumes "page_inv full n p" "wp_mainFrame p = Some r"
  obtains f where "wp_heap p r = Some f" "wf_page f" "main_load_state p = Some (wf_loadState f)"
    "isMainFrame r p"
  using assms
  by (auto simp: page_inv_def mirrors_def main_load_state_def isMainFrame_def
      split: option.splits if_splits)

lemma inv_pair:
  assumes inv: "page_inv full n p" and n: "0 < n" and m: "matched g h"
    and r: "wp_heap p r \<noteq> None"
  shows "page_inv full n (on_frame r h (if isMainFrame r p then on_load g p else p))"
proof (cases "wp_mainFrame p = Some r")
  case True
  obtain f where f: "wp_heap p r = Some f" "wf_page f" "main_load_state p = Some (wf_loadState f)"
      "isMainFrame r p"
    using main_frame_found [OF inv True] .
  have "load_ok n (g (wp_load p))"
    using inv n m load_ok_mutator page_inv_load_ok unfolding matched_def by blast
  moreover have "main_load_state (on_frame r h (on_load g p)) = Some (wf_loadState (h f))"
    using f m True by (simp add: main_load_state_def matched_def)
  ultimately show ?thesis
    using inv f m by (simp add: page_inv_defs matched_def)
next
  case False
  hence "\<not> isMainFrame r p" by (auto simp: isMainFrame_def split: option.splits)
  moreover have "main_load_state (on_frame r h p) = main_load_state p"
    using False by (simp add: main_load_state_def split: option.split)
  ultimately show ?thesis using inv by (auto simp: page_inv_defs)
qed

lemma inv_tell:
  assumes "page_inv full n p" "c = LC_processDidCrash \<or> \<not> pl_mayHaveUncommittedChanges (wp_load p)"
  shows "page_inv full n (tell_client c p)"
  using assms by (auto simp: page_inv_defs tell_client_def load_ok_def)

lemma inv_commit_tell:
  "page_inv full n p \<Longrightarrow> page_inv full n (tell_client c (on_load commitChanges p))"
  by (rule inv_tell [OF inv_commit]) simp_all

lemma inv_frame_neutral:
  assumes "page_inv full n p" "\<And>f. wf_page (h f) = wf_page f \<and> wf_loadState (h f) = wf_loadState f"
  shows "page_inv full n (on_frame r h p)"
proof -
  have "main_load_state (on_frame r h p) = main_load_state p"
    using assms(2) by (simp add: main_load_state_def split: option.split)
  with assms(1) show ?thesis by (auto simp: page_inv_defs)
qed

lemma inv_other_fields [simp]:
  "page_inv full n (p\<lparr>wp_sent := x3\<rparr>) = page_inv full n p"
  "page_inv full n (p\<lparr>wp_invalidMessages := x4\<rparr>) = page_inv full n p"
  "page_inv full n (p\<lparr>wp_navigationID := x5\<rparr>) = page_inv full n p"
  "page_inv full n (p\<lparr>wp_stringCallbacks := x8\<rparr>) = page_inv full n p"
  "page_inv full n (p\<lparr>wp_invalidatedCallbacks := x9\<rparr>) = page_inv full n p"
  "page_inv full n (p\<lparr>wp_loadDependentStringCallbackIDs := x10\<rparr>) = page_inv full n p"
  "page_inv full n (p\<lparr>wp_mainFrameHasCustomContentProvider := x11\<rparr>) = page_inv full n p"
  "page_inv full n (p\<lparr>wp_mainFrameIsPinned := x12\<rparr>) = page_inv full n p"
  "page_inv full n (p\<lparr>wp_pageScaleFactor := x13\<rparr>) = page_inv full n p"
  "page_inv full n (p\<lparr>wp_frameSetLargestFrame := x14\<rparr>) = page_inv full n p"
  by (simp_all add: page_inv_defs)

lemma inv_small [simp]:
  "page_inv full n (send msg p) = page_inv full n p"
  "page_inv full n (mark_invalid p) = page_inv full n p"
  by (simp_all add: send_def mark_invalid_def)

lemma clearLoadDependentCallbacks_frame:
  obtains a b where "clearLoadDependentCallbacks p =
    p\<lparr>wp_loadDependentStringCallbackIDs := [], wp_stringCallbacks := a, wp_invalidatedCallbacks := b\<rparr>"
proof -
  have "\<exists>a b. fold (\<lambda>i p. if i \<in> wp_stringCallbacks p
            then p\<lparr>wp_stringCallbacks := wp_stringCallbacks p - {i},
                   wp_invalidatedCallbacks := wp_invalidatedCallbacks p @ [i]\<rparr> else p) ids q
        = q\<lparr>wp_stringCallbacks := a, wp_invalidatedCallbacks := b\<rparr>" for ids and q :: web_page
  proof (induction ids arbitrary: q)
    case Nil
    have "q = q\<lparr>wp_stringCallbacks := wp_stringCallbacks q,
                wp_invalidatedCallbacks := wp_invalidatedCallbacks q\<rparr>" by simp
    thus ?case by (metis fold_simps(1))
  next
    case (Cons i ids)
    show ?case
      using Cons [of q] Cons [of "q\<lparr>wp_stringCallbacks := wp_stringCallbacks q - {i},
        wp_invalidatedCallbacks := wp_invalidatedCallbacks q @ [i]\<rparr>"] by auto
  qed
  from this [of "wp_loadDependentStringCallbackIDs p" "p\<lparr>wp_loadDependentStringCallbackIDs := []\<rparr>"]
  show thesis using that unfolding clearLoadDependentCallbacks_def Let_def by auto
qed

lemma inv_clearLoadDependentCallbacks [simp]:
  "page_inv full n (clearLoadDependentCallbacks p) = page_inv full n p"
  by (rule clearLoadDependentCallbacks_frame [of p]) simp

lemma inv_with_transaction:
  assumes "page_inv full 0 p"
    and "\<And>q. \<lbrakk>page_inv full 1 q; q = on_load beginTransaction p\<rbrakk> \<Longrightarrow> page_inv full 1 (body q)"
  shows "page_inv full 0 (with_transaction body p)"
  unfolding with_transaction_def by (rule inv_end, rule assms(2) [OF inv_begin [OF assms(1)] refl])

lemma webFrame_in_heap:
  "page_inv full n p \<Longrightarrow> webFrame i p = Some r \<Longrightarrow> wp_heap p r \<noteq> None"
  by (auto simp: page_inv_def frames_ok_def webFrame_def split: if_splits)

text \<open>The shape that most of the load handlers have.\<close>

lemma inv_frame_update:
  assumes inv: "page_inv full 0 p" and r: "webFrame i p = Some r" and m: "matched g h"
  shows "page_inv full 0
    (with_transaction (\<lambda>p. let p = (if isMainFrame r p then on_load g p else p);
         p = on_frame r h p; p = on_load commitChanges p in tell_client c p) p)"
  unfolding Let_def
  by (rule inv_with_transaction [OF inv], rule inv_commit_tell, rule inv_pair [OF _ _ m])
    (use webFrame_in_heap [OF inv r] in auto)

subsubsection \<open>Every handler keeps the invariant\<close>

lemma on_frame_on_load: "on_frame r h (on_load g p) = on_load g (on_frame r h p)"
  by (simp add: on_frame_def on_load_def)

lemma on_frame_on_frame: "on_frame r h (on_frame r k p) = on_frame r (\<lambda>f. h (k f)) p"
  by (simp add: on_frame_def option.map_comp comp_def)

lemma inv_progress:
  assumes "page_inv full 0 p"
  shows "page_inv full 0 (didStartProgress p)" "page_inv full 0 (didChangeProgress v p)"
    "page_inv full 0 (didFinishProgress p)"
  unfolding didStartProgress_def didChangeProgress_def didFinishProgress_def
  by (rule inv_with_transaction [OF assms], rule inv_commit_tell, rule inv_neutral; simp)+

lemma inv_didStartProvisionalLoadForFrame:
  assumes "page_inv full 0 p"
  shows "page_inv full 0 (didStartProvisionalLoadForFrame ok urlAllowed i url unr p)"
  unfolding didStartProvisionalLoadForFrame_def
proof (rule inv_with_transaction [OF assms])
  fix q assume q: "page_inv full 1 q"
  let ?q = "on_load PageLoadState_clearPendingAPIRequestURL q"
  have q': "page_inv full 1 ?q" by (rule inv_neutral [OF q]) simp_all
  have "page_inv full 1 (tell_client c (on_load commitChanges
      (on_frame r (WebFrameProxy_didStartProvisionalLoad url)
        (on_frame r (WebFrameProxy_setUnreachableURL unr)
          (if isMainFrame r ?q then on_load (PageLoadState_didStartProvisionalLoad url unr) ?q
           else ?q)))))" if "webFrame i ?q = Some r" for r c
    unfolding on_frame_on_frame
    by (rule inv_commit_tell, rule inv_pair [OF q' _ _ webFrame_in_heap [OF q' that]]) simp_all
  with q' show "page_inv full 1 (let p = ?q in if \<not> ok then p else case webFrame i p of
        None \<Rightarrow> mark_invalid p | Some r \<Rightarrow> if \<not> urlAllowed url then mark_invalid p
        else let p = if isMainFrame r p then on_load (PageLoadState_didStartProvisionalLoad url unr) p else p;
                 p = on_frame r (WebFrameProxy_setUnreachableURL unr) p;
                 p = on_frame r (WebFrameProxy_didStartProvisionalLoad url) p;
                 p = on_load commitChanges p
             in tell_client (LC_didStartProvisionalLoadForFrame i) p)"
    by (simp add: Let_def split: option.split)
qed

lemma inv_frame_handlers:
  assumes "page_inv full 0 p"
  shows "page_inv full 0 (didReceiveServerRedirectForProvisionalLoadForFrame ok urlAllowed i url p)"
    "page_inv full 0 (didFailProvisionalLoadForFrame ok i p)"
    "page_inv full 0 (didFinishLoadForFrame ok i p)"
    "page_inv full 0 (didReceiveTitleForFrame ok i title p)"
  using assms inv_frame_update [OF assms]
  unfolding didReceiveServerRedirectForProvisionalLoadForFrame_def
    didFailProvisionalLoadForFrame_def didFinishLoadForFrame_def didReceiveTitleForFrame_def
  by (auto split: option.split)

lemma inv_didFailLoadForFrame:
  assumes inv: "page_inv full 0 p"
  shows "page_inv full 0 (didFailLoadForFrame ok i p)"
proof -
  have "webFrame i (clearLoadDependentCallbacks p) = webFrame i p"
    by (rule clearLoadDependentCallbacks_frame [of p]) (simp add: webFrame_def)
  with inv inv_frame_update [of full "clearLoadDependentCallbacks p" i] show ?thesis
    unfolding didFailLoadForFrame_def by (auto split: option.split)
qed

lemma inv_didSameDocumentNavigationForFrame:
  assumes inv: "page_inv full 0 p"
  shows "page_inv full 0 (didSameDocumentNavigationForFrame ok urlAllowed i url p)"
proof -
  have "page_inv full 0 (with_transaction (\<lambda>p.
      let p = (if isMainFrame r p then on_load (PageLoadState_didSameDocumentNavigation url) p else p);
          p = on_load PageLoadState_clearPendingAPIRequestURL p;
          p = on_frame r (WebFrameProxy_didSameDocumentNavigation url) p;
          p = on_load commitChanges p
      in tell_client c p) p)" if "webFrame i p = Some r" for r c
    unfolding Let_def on_frame_on_load
    by (rule inv_with_transaction [OF inv], rule inv_commit_tell, rule inv_neutral, rule inv_pair)
      (use webFrame_in_heap [OF inv that] in auto)
  with inv show ?thesis
    unfolding didSameDocumentNavigationForFrame_def by (auto split: option.split)
qed

lemma on_frame_clearLoadDependentCallbacks:
  "on_frame r h (clearLoadDependentCallbacks p) =
     (on_frame r h p)\<lparr>wp_loadDependentStringCallbackIDs := [],
        wp_stringCallbacks := wp_stringCallbacks (clearLoadDependentCallbacks p),
        wp_invalidatedCallbacks := wp_invalidatedCallbacks (clearLoadDependentCallbacks p)\<rparr>"
  by (rule clearLoadDependentCallbacks_frame [of p]) (simp add: on_frame_def)

lemma inv_didCommitLoadForFrame:
  assumes inv: "page_inv full 0 p"
  shows "page_inv full 0 (didCommitLoadForFrame ok i mt custom std cert p)"
proof (cases "ok \<and> webFrame i p \<noteq> None")
  case False
  with inv show ?thesis unfolding didCommitLoadForFrame_def by auto
next
  case True
  then obtain r where ok: ok and r: "webFrame i p = Some r" by auto
  show ?thesis
    unfolding didCommitLoadForFrame_def
  proof (simp only: ok r simp_thms if_False option.case, rule inv_with_transaction [OF inv])
    fix q assume q: "page_inv full 1 q" "q = on_load beginTransaction p"
    let ?q = "on_frame r (WebFrameProxy_didCommitLoad mt cert)
      (clearLoadDependentCallbacks (if isMainFrame r q then on_load PageLoadState_didCommitLoad q else q))"
    have "wp_heap q r \<noteq> None" using webFrame_in_heap [OF inv r] q(2) by simp
    hence "page_inv full 1 ?q"
      unfolding on_frame_clearLoadDependentCallbacks using q(1) by (simp add: inv_pair)
    thus "page_inv full 1 (let p = if isMainFrame r q then on_load PageLoadState_didCommitLoad q else q;
        p = clearLoadDependentCallbacks p;
        p = on_frame r (WebFrameProxy_didCommitLoad mt cert) p;
        p = if isMainFrame r p
            then let p = p\<lparr>wp_mainFrameHasCustomContentProvider := custom\<rparr>
                 in if wp_mainFrameHasCustomContentProvider p
                    then p\<lparr>wp_mainFrameIsPinned := (True, True, True, True)\<rparr> else p
            else p;
        p = if isMainFrame r p \<and> std then p\<lparr>wp_pageScaleFactor := 1\<rparr> else p;
        p = on_load commitChanges p
      in tell_client (LC_didCommitLoadForFrame i) p)"
      by (simp add: Let_def inv_commit_tell)
  qed
qed

lemma inv_insecure:
  assumes "page_inv full 0 p"
  shows "page_inv full 0 (didDisplayInsecureContentForFrame ok i p)"
    "page_inv full 0 (didRunInsecureContentForFrame ok i p)"
proof -
  have "page_inv full 0 (with_transaction (\<lambda>p. tell_client c (on_load commitChanges
      (on_load PageLoadState_didDisplayOrRunInsecureContent p))) p)" for c
    by (rule inv_with_transaction [OF assms], rule inv_commit_tell, rule inv_neutral; simp)
  with assms show "page_inv full 0 (didDisplayInsecureContentForFrame ok i p)"
    "page_inv full 0 (didRunInsecureContentForFrame ok i p)"
    unfolding didDisplayInsecureContentForFrame_def didRunInsecureContentForFrame_def
    by (auto split: option.split)
qed

lemma inv_simple_handlers:
  assumes "page_inv full 0 p"
  shows "page_inv full 0 (didFinishDocumentLoadForFrame ok i p)"
    "page_inv full 0 (frameDidBecomeFrameSet i v p)"
    "page_inv full 0 (stopLoading p)"
    "page_inv full 0 (backForwardAddItem items item p)"
    "page_inv full 0 (backForwardGoToItem items item p)"
    "page_inv full 0 (didDestroyFrame i p)"
proof -
  have "\<not> pl_mayHaveUncommittedChanges (wp_load p)" using assms by (simp add: page_inv_def load_ok_def)
  thus "page_inv full 0 (didFinishDocumentLoadForFrame ok i p)"
    using assms by (auto simp: didFinishDocumentLoadForFrame_def inv_tell split: option.split)
  show "page_inv full 0 (frameDidBecomeFrameSet i v p)"
    using assms by (auto simp: frameDidBecomeFrameSet_def Let_def inv_frame_neutral split: option.split)
  show "page_inv full 0 (stopLoading p)"
    using assms by (simp add: stopLoading_def)
  show "page_inv full 0 (backForwardAddItem items item p)"
    using assms by (simp add: backForwardAddItem_def page_inv_defs addItem_inv)
  show "page_inv full 0 (backForwardGoToItem items item p)"
    using assms by (auto simp: backForwardGoToItem_def page_inv_defs goToItem_inv split: option.split)
  show "page_inv full 0 (didDestroyFrame i p)"
    using assms by (simp add: didDestroyFrame_def page_inv_defs)
qed

lemma inv_reattachToWebProcess:
  "page_inv full n p \<Longrightarrow> page_inv full n (reattachToWebProcess p)"
  by (simp add: reattachToWebProcess_def page_inv_defs)

lemma inv_currentItem: "page_inv full n p \<Longrightarrow> \<exists>c. currentItem (wp_backForwardList p) = Inr c"
  by (auto simp: page_inv_def bf_inv_def currentItem_def split: if_splits)

lemma inv_reattachToWebProcessWithItem:
  assumes "page_inv full n p" "reattachToWebProcessWithItem item p = Inr q"
  shows "page_inv full n q"
proof -
  have "page_inv full n (p\<lparr>wp_backForwardList := goToItem item (wp_backForwardList p)\<rparr>)"
    using assms(1) by (simp add: page_inv_defs goToItem_inv)
  with assms show ?thesis
    by (auto simp: reattachToWebProcessWithItem_def Let_def inv_reattachToWebProcess
        split: option.splits sum.splits)
qed

lemma inv_loadRequest:
  assumes inv: "page_inv full 0 p"
  shows "page_inv full 0 (snd (loadRequest url p))"
  unfolding loadRequest_def Let_def snd_conv
  by (rule inv_with_transaction)
    (simp_all add: inv inv_neutral inv_reattachToWebProcess)

lemma inv_loadAlternateHTMLString:
  assumes inv: "page_inv full 0 p" and main: "full \<longrightarrow> wp_mainFrame p \<noteq> None"
  shows "page_inv full 0 (loadAlternateHTMLString s b u p)"
  unfolding loadAlternateHTMLString_def
proof (rule inv_with_transaction)
  let ?p = "if \<not> page_isValid p then reattachToWebProcess p else p"
  show "page_inv full 0 ?p" using inv by (simp add: inv_reattachToWebProcess)
  fix q assume q: "page_inv full 1 q" "q = on_load beginTransaction ?p"
  have mf: "wp_mainFrame q = wp_mainFrame p" using q(2) by (simp add: reattachToWebProcess_def)
  show "page_inv full 1 (let p = on_load (PageLoadState_setUnreachableURL u) q;
      p = (case wp_mainFrame p of None \<Rightarrow> p
           | Some r \<Rightarrow> on_frame r (WebFrameProxy_setUnreachableURL u) p)
      in send (LoadAlternateHTMLString s b u) p)"
  proof (cases "wp_mainFrame q")
    case None
    with main mf have "\<not> full" by simp
    have "load_ok 1 (PageLoadState_setUnreachableURL u (wp_load q))"
      by (rule load_ok_mutator [OF page_inv_load_ok [OF q(1)]]) (simp_all add: pl_mutator.intros)
    hence "page_inv full 1 (on_load (PageLoadState_setUnreachableURL u) q)"
      by (rule inv_on_load [OF q(1)]) (use \<open>\<not> full\<close> in \<open>simp add: agrees_def pl_mutator_defs\<close>)
    with None show ?thesis by (simp add: Let_def)
  next
    case (Some r)
    obtain f where f: "wp_heap q r = Some f" "isMainFrame r q"
      using main_frame_found [OF q(1) Some] by metis
    from inv_pair [OF q(1) _ _, of "PageLoadState_setUnreachableURL u"
        "WebFrameProxy_setUnreachableURL u" r] f Some
    show ?thesis by (simp add: Let_def)
  qed
qed

lemma inv_reload:
  assumes inv: "page_inv full 0 p" and q: "reload b p = Inr q"
  shows "page_inv full 0 q"
proof -
  obtain cur where cur: "currentItem (wp_backForwardList p) = Inr cur"
    using inv_currentItem [OF inv] by blast
  let ?p = "case cur of None \<Rightarrow> p
     | Some i \<Rightarrow> with_transaction (on_load (PageLoadState_setPendingAPIRequestURL (bi_url i))) p"
  have "page_inv full 0 ?p"
    using inv by (auto split: option.split intro!: inv_with_transaction inv_neutral)
  with q show ?thesis
    by (auto simp: reload_def cur Let_def inv_reattachToWebProcessWithItem split: if_splits)
qed

lemma inv_go_to:
  assumes inv: "page_inv full 0 p" and q: "go_to msg i p = Inr q"
  shows "page_inv full 0 q"
proof -
  let ?p = "on_load (PageLoadState_setPendingAPIRequestURL (bi_url i)) (on_load beginTransaction p)"
  have p: "page_inv full 1 ?p"
    by (rule inv_neutral [OF inv_begin [OF inv]]) simp_all
  obtain q' where q': "q = on_load endTransaction q'"
    "(if \<not> page_isValid ?p then reattachToWebProcessWithItem (Some i) ?p
      else Inr (send (msg (bi_itemID i)) ?p)) = Inr q'"
    using q unfolding go_to_def Let_def by (auto split: sum.splits)
  have "page_inv full 1 q'"
    using q'(2) p by (auto simp: inv_reattachToWebProcessWithItem split: if_splits)
  with q'(1) show ?thesis by (simp only: inv_end)
qed

lemma inv_history_navigation:
  assumes "page_inv full 0 p"
  shows "page_goBack p = Inr q \<Longrightarrow> page_inv full 0 q"
    "page_goForward p = Inr q \<Longrightarrow> page_inv full 0 q"
    "goToBackForwardItem i p = Inr q \<Longrightarrow> page_inv full 0 q"
proof -
  show "page_goBack p = Inr q \<Longrightarrow> page_inv full 0 q" "page_goForward p = Inr q \<Longrightarrow> page_inv full 0 q"
    using assms by (auto simp: page_goBack_def page_goForward_def inv_go_to
        split: sum.splits option.splits)
  have "page_inv full 0 (with_transaction (\<lambda>p. send (GoToBackForwardItem (bi_itemID i))
      (on_load (PageLoadState_setPendingAPIRequestURL (bi_url i)) p)) p)"
    by (rule inv_with_transaction [OF assms]) (simp add: inv_neutral)
  thus "goToBackForwardItem i p = Inr q \<Longrightarrow> page_inv full 0 q"
    using assms inv_reattachToWebProcessWithItem
    by (auto simp: goToBackForwardItem_def split: if_splits)
qed

lemma inv_new_frame:
  assumes inv: "page_inv full 0 p" and valid: "wp_isValid p"
    and m: "m = wp_mainFrame p \<or> wp_mainFrame p = None \<and> m = Some (wp_nextFrame p)"
  shows "page_inv full 0 (p\<lparr>wp_heap := (wp_heap p)(wp_nextFrame p \<mapsto> WebFrameProxy i),
    wp_nextFrame := Suc (wp_nextFrame p), wp_mainFrame := m,
    wp_frameMap := (wp_frameMap p)(i \<mapsto> wp_nextFrame p)\<rparr>)"
    (is "page_inv full 0 ?q")
proof -
  have fresh: "wp_heap p (wp_nextFrame p) = None"
    using inv by (auto simp: page_inv_def frames_ok_def)
  have "main_load_state ?q = main_load_state p"
  proof (cases "wp_mainFrame p")
    case None
    with m show ?thesis by (auto simp: main_load_state_def WebFrameProxy_def)
  next
    case (Some r)
    obtain g where "wp_heap p r = Some g" using main_frame_found [OF inv Some] by metis
    with fresh have "r \<noteq> wp_nextFrame p" by auto
    with Some m show ?thesis by (simp add: main_load_state_def)
  qed
  hence "mirrors full ?q" using inv by (simp add: page_inv_def mirrors_def)
  moreover have "frames_ok ?q"
    using inv by (auto simp: page_inv_def frames_ok_def less_Suc_eq)
  ultimately show ?thesis
    using inv valid by (simp add: page_inv_def client_ok_def)
qed

lemma inv_frame_creation:
  assumes "page_inv full 0 p" "wp_isValid p"
  shows "page_inv full 0 (didCreateMainFrame i p)" "page_inv full 0 (didCreateSubframe i p)"
  using assms inv_new_frame [OF assms, of "Some (wp_nextFrame p)" i]
    inv_new_frame [OF assms, of "wp_mainFrame p" i]
  by (auto simp: didCreateMainFrame_def didCreateSubframe_def alloc_frame_def frameCreated_def)

lemma inv_crash:
  assumes inv: "page_inv full 0 p" and valid: "wp_isValid p"
  shows "page_inv full 0 (process_didClose p)"
proof -
  let ?q = "resetStateAfterProcessExited (process_disconnect p)"
  have q: "wp_load ?q = wp_load p" "wp_mainFrame ?q = None" "frames_ok ?q" "client_ok ?q"
    "bf_inv (wp_backForwardList ?q)" "\<not> wp_isClosed ?q"
    using inv valid
    by (auto simp: resetStateAfterProcessExited_def process_disconnect_def resetState_def
        page_isValid_def page_inv_def frames_ok_def client_ok_def Let_def split: option.splits)
  have "load_ok 1 (PageLoadState_reset (beginTransaction (wp_load ?q)))"
    using load_ok_mutator [OF load_ok_begin] inv q(1)
    by (simp add: page_inv_def pl_mutator.intros)
  with q have "page_inv full 1 (on_load PageLoadState_reset (on_load beginTransaction ?q))"
    by (simp add: page_inv_def mirrors_def frames_ok_def client_ok_def main_load_state_def
        agrees_def FrameLoadState_def pl_mutator_defs)
  hence "page_inv full 1 (tell_client LC_processDidCrash
      (on_load PageLoadState_reset (on_load beginTransaction ?q)))"
    by (rule inv_tell) simp
  thus ?thesis
    unfolding process_didClose_def processDidCrash_def with_transaction_def by (rule inv_end)
qed

subsection \<open>Runs of a page\<close>

text \<open>
  A page from its creation on: messages of the web process, calls of the application, and crashes
  of the process (after which a navigation attaches a new one). Messages about frames and their
  loads reach a page only while it is attached to a process. A page that was closed, and a process
  that the application terminates, are outside this relation (see \<open>terminateProcess\<close> below). With
  \<open>full\<close>, an alternate page is loaded only into a page that has a main frame.
\<close>

inductive page_reachable :: "bool \<Rightarrow> web_page \<Rightarrow> bool" for full where
  reach_new: "distinct obs \<Longrightarrow> page_reachable full (new_page obs)"
| reach_loadRequest: "page_reachable full p \<Longrightarrow> page_reachable full (snd (loadRequest u p))"
| reach_loadAlternate: "page_reachable full p \<Longrightarrow> full \<longrightarrow> wp_mainFrame p \<noteq> None \<Longrightarrow>
    page_reachable full (loadAlternateHTMLString s b u p)"
| reach_stop: "page_reachable full p \<Longrightarrow> page_reachable full (stopLoading p)"
| reach_reload: "page_reachable full p \<Longrightarrow> reload o' p = Inr q \<Longrightarrow> page_reachable full q"
| reach_back: "page_reachable full p \<Longrightarrow> page_goBack p = Inr q \<Longrightarrow> page_reachable full q"
| reach_forward: "page_reachable full p \<Longrightarrow> page_goForward p = Inr q \<Longrightarrow> page_reachable full q"
| reach_goto: "page_reachable full p \<Longrightarrow> goToBackForwardItem i p = Inr q \<Longrightarrow> page_reachable full q"
| reach_crash: "page_reachable full p \<Longrightarrow> wp_isValid p \<Longrightarrow> page_reachable full (process_didClose p)"
| reach_mainFrame: "page_reachable full p \<Longrightarrow> wp_isValid p \<Longrightarrow>
    page_reachable full (didCreateMainFrame fid p)"
| reach_subframe: "page_reachable full p \<Longrightarrow> wp_isValid p \<Longrightarrow>
    page_reachable full (didCreateSubframe fid p)"
| reach_destroy: "page_reachable full p \<Longrightarrow> page_reachable full (didDestroyFrame fid p)"
| reach_startProgress: "page_reachable full p \<Longrightarrow> page_reachable full (didStartProgress p)"
| reach_changeProgress: "page_reachable full p \<Longrightarrow> page_reachable full (didChangeProgress v p)"
| reach_finishProgress: "page_reachable full p \<Longrightarrow> page_reachable full (didFinishProgress p)"
| reach_start: "page_reachable full p \<Longrightarrow>
    page_reachable full (didStartProvisionalLoadForFrame ok urlAllowed fid u v' p)"
| reach_redirect: "page_reachable full p \<Longrightarrow>
    page_reachable full (didReceiveServerRedirectForProvisionalLoadForFrame ok urlAllowed fid u p)"
| reach_failProvisional: "page_reachable full p \<Longrightarrow>
    page_reachable full (didFailProvisionalLoadForFrame ok fid p)"
| reach_commit: "page_reachable full p \<Longrightarrow>
    page_reachable full (didCommitLoadForFrame ok fid mt custom std cert p)"
| reach_finishDocument: "page_reachable full p \<Longrightarrow>
    page_reachable full (didFinishDocumentLoadForFrame ok fid p)"
| reach_finish: "page_reachable full p \<Longrightarrow> page_reachable full (didFinishLoadForFrame ok fid p)"
| reach_fail: "page_reachable full p \<Longrightarrow> page_reachable full (didFailLoadForFrame ok fid p)"
| reach_sameDocument: "page_reachable full p \<Longrightarrow>
    page_reachable full (didSameDocumentNavigationForFrame ok urlAllowed fid u p)"
| reach_title: "page_reachable full p \<Longrightarrow> page_reachable full (didReceiveTitleForFrame ok fid ti p)"
| reach_display: "page_reachable full p \<Longrightarrow>
    page_reachable full (didDisplayInsecureContentForFrame ok fid p)"
| reach_run: "page_reachable full p \<Longrightarrow> page_reachable full (didRunInsecureContentForFrame ok fid p)"
| reach_frameSet: "page_reachable full p \<Longrightarrow> page_reachable full (frameDidBecomeFrameSet fid vs p)"
| reach_addItem: "page_reachable full p \<Longrightarrow> page_reachable full (backForwardAddItem items it p)"
| reach_goToItem: "page_reachable full p \<Longrightarrow> page_reachable full (backForwardGoToItem items it p)"

lemma load_ok_observers: "distinct obs \<Longrightarrow> load_ok 0 (fold addObserver obs PageLoadState)"
proof -
  have "fold addObserver obs s = s\<lparr>pl_observers := pl_observers s @ obs\<rparr>" for s
    by (induction obs arbitrary: s) (simp_all add: addObserver_def)
  thus "distinct obs \<Longrightarrow> load_ok 0 (fold addObserver obs PageLoadState)"
    by (simp add: load_ok_def PageLoadState_def)
qed

lemma new_page_load:
  "pl_uncommitted (fold addObserver obs s) = pl_uncommitted s"
  "pl_lastUnreachableURL (fold addObserver obs s) = pl_lastUnreachableURL s"
  by (induction obs arbitrary: s) (simp_all add: addObserver_def)

lemma inv_new_page: "distinct obs \<Longrightarrow> page_inv full 0 (new_page obs)"
  using load_ok_observers [of obs]
  by (simp add: page_inv_defs new_page_def main_load_state_def create_inv agrees_def new_page_load
      FrameLoadState_def PageLoadState_def initial_load_data_def)

lemma page_reachable_inv: "page_reachable full p \<Longrightarrow> page_inv full 0 p"
  by (induction rule: page_reachable.induct)
    (erule inv_new_page inv_loadRequest inv_progress inv_didStartProvisionalLoadForFrame
      inv_frame_handlers inv_didCommitLoadForFrame inv_didFailLoadForFrame
      inv_didSameDocumentNavigationForFrame inv_insecure inv_simple_handlers
     | erule (1) inv_loadAlternateHTMLString inv_crash inv_frame_creation inv_reload
      inv_history_navigation)+


definition sample_page :: web_page where
  "sample_page = didStartProvisionalLoadForFrame True (\<lambda>_. True) 5 (Some ''http://a/'') nullString
     (didCreateMainFrame 5 (new_page []))"

lemma sample_page_reachable: "page_reachable full sample_page"
  unfolding sample_page_def
  by (intro reach_start reach_mainFrame reach_new) (simp_all add: new_page_def)

lemmas eval_page_defs =
  new_page_def didCreateMainFrame_def alloc_frame_def frameCreated_def canCreateFrame_def
  isValidKey_def webFrame_def isMainFrame_def with_transaction_def on_load_def on_frame_def
  tell_client_def Let_def

lemma sample_page_fields:
  "wp_mainFrame sample_page = Some 0" "wp_isValid sample_page" "\<not> wp_isClosed sample_page"
  "wp_frameMap sample_page = [5 \<mapsto> 0]" "wp_nextFrame sample_page = 1"
  "wp_navigationID sample_page = 0" "wp_backForwardList sample_page = WebBackForwardList"
  by (simp_all add: sample_page_def didStartProvisionalLoadForFrame_def eval_page_defs
      WebFrameProxy_def)


subsection \<open>The course of a navigation\<close>

lemma transaction_keeps_data [simp]:
  "pl_uncommitted (beginTransaction s) = pl_uncommitted s"
  "pl_lastUnreachableURL (beginTransaction s) = pl_lastUnreachableURL s"
  "pl_uncommitted (endTransaction s) = pl_uncommitted s"
  "pl_lastUnreachableURL (endTransaction s) = pl_lastUnreachableURL s"
  by (simp_all add: beginTransaction_def endTransaction_def Let_def)

lemma tell_client_fields [simp]:
  "wp_load (tell_client c p) = wp_load p" "wp_heap (tell_client c p) = wp_heap p"
  "wp_mainFrame (tell_client c p) = wp_mainFrame p" "wp_frameMap (tell_client c p) = wp_frameMap p"
  "isMainFrame r (tell_client c p) = isMainFrame r p" "webFrame i (tell_client c p) = webFrame i p"
  by (simp_all add: tell_client_def isMainFrame_def webFrame_def split: option.split)

lemma on_frame_main [simp]:
  "(\<And>f. wf_page (h f) = wf_page f) \<Longrightarrow> isMainFrame r (on_frame s h p) = isMainFrame r p"
  "webFrame i (on_frame s h p) = webFrame i p"
  by (auto simp: isMainFrame_def webFrame_def on_frame_def split: option.split)

lemma clearLoadDependentCallbacks_fields [simp]:
  "wp_load (clearLoadDependentCallbacks p) = wp_load p"
  "isMainFrame r (clearLoadDependentCallbacks p) = isMainFrame r p"
  "webFrame i (clearLoadDependentCallbacks p) = webFrame i p"
  by (rule clearLoadDependentCallbacks_frame [of p];
      simp add: isMainFrame_def webFrame_def split: option.split)+

lemma wf_page_keep [simp]:
  "wf_page (WebFrameProxy_setUnreachableURL u f) = wf_page f"
  "wf_page (WebFrameProxy_didStartProvisionalLoad u f) = wf_page f"
  "wf_page (WebFrameProxy_didReceiveServerRedirectForProvisionalLoad u f) = wf_page f"
  "wf_page (WebFrameProxy_didFailProvisionalLoad f) = wf_page f"
  "wf_page (WebFrameProxy_didCommitLoad mt ci f) = wf_page f"
  "wf_page (WebFrameProxy_didFinishLoad f) = wf_page f"
  by (simp_all add: wf_defs)

text \<open>What the messages about the main frame write.\<close>

lemma main_frame_messages:
  assumes "isMainFrame r p" "webFrame i p = Some r" "allowed u"
  shows "pl_uncommitted (wp_load (didStartProvisionalLoadForFrame True allowed i u v p))
      = (pl_uncommitted (wp_load p))\<lparr>ld_pendingAPIRequestURL := nullString, ld_state := Provisional,
          ld_provisionalURL := u, ld_unreachableURL := v\<rparr>"
    "pl_lastUnreachableURL (wp_load (didStartProvisionalLoadForFrame True allowed i u v p))
      = ld_unreachableURL (pl_uncommitted (wp_load p))"
    "pl_uncommitted (wp_load (didReceiveServerRedirectForProvisionalLoadForFrame True allowed i u p))
      = (pl_uncommitted (wp_load p))\<lparr>ld_provisionalURL := u\<rparr>"
    "pl_uncommitted (wp_load (didFailProvisionalLoadForFrame True i p))
      = (pl_uncommitted (wp_load p))\<lparr>ld_state := Finished, ld_provisionalURL := nullString,
          ld_unreachableURL := pl_lastUnreachableURL (wp_load p)\<rparr>"
    "pl_uncommitted (wp_load (didCommitLoadForFrame True i mt custom std cert p))
      = (pl_uncommitted (wp_load p))\<lparr>ld_state := Committed, ld_hasInsecureContent := False,
          ld_url := ld_provisionalURL (pl_uncommitted (wp_load p)), ld_provisionalURL := nullString,
          ld_title := nullString\<rparr>"
    "pl_uncommitted (wp_load (didFinishLoadForFrame True i p))
      = (pl_uncommitted (wp_load p))\<lparr>ld_state := Finished\<rparr>"
  using assms
  by (simp_all add: didStartProvisionalLoadForFrame_def
      didReceiveServerRedirectForProvisionalLoadForFrame_def didFailProvisionalLoadForFrame_def
      didCommitLoadForFrame_def didFinishLoadForFrame_def with_transaction_def Let_def
      pl_mutator_defs)

lemma field_updates_keep_frames [simp]:
  "isMainFrame r (p\<lparr>wp_mainFrameHasCustomContentProvider := x11\<rparr>) = isMainFrame r p"
  "isMainFrame r (p\<lparr>wp_mainFrameIsPinned := x12\<rparr>) = isMainFrame r p"
  "isMainFrame r (p\<lparr>wp_pageScaleFactor := x13\<rparr>) = isMainFrame r p"
  "webFrame i (p\<lparr>wp_mainFrameHasCustomContentProvider := x11\<rparr>) = webFrame i p"
  "webFrame i (p\<lparr>wp_mainFrameIsPinned := x12\<rparr>) = webFrame i p"
  "webFrame i (p\<lparr>wp_pageScaleFactor := x13\<rparr>) = webFrame i p"
  by (simp_all add: isMainFrame_def webFrame_def split: option.split)

lemma main_frame_stays:
  assumes "isMainFrame r p" "webFrame i p = Some r" "allowed u"
  shows "isMainFrame r (didStartProvisionalLoadForFrame True allowed i u v p)"
    "webFrame i (didStartProvisionalLoadForFrame True allowed i u v p) = Some r"
    "isMainFrame r (didReceiveServerRedirectForProvisionalLoadForFrame True allowed i u p)"
    "webFrame i (didReceiveServerRedirectForProvisionalLoadForFrame True allowed i u p) = Some r"
    "isMainFrame r (didCommitLoadForFrame True i mt custom std cert p)"
    "webFrame i (didCommitLoadForFrame True i mt custom std cert p) = Some r"
  using assms
  by (simp_all add: didStartProvisionalLoadForFrame_def
      didReceiveServerRedirectForProvisionalLoadForFrame_def didCommitLoadForFrame_def
      with_transaction_def Let_def)

lemma reachable_published:
  "page_reachable full p \<Longrightarrow> pl_committed (wp_load p) = pl_uncommitted (wp_load p)"
  using page_reachable_inv [of full p] by (simp add: page_inv_def load_ok_def)

lemma reachable_main_frame:
  "page_reachable full p \<Longrightarrow> wp_mainFrame p = Some r \<Longrightarrow> isMainFrame r p"
  by (rule main_frame_found [OF page_reachable_inv])

text \<open>C27: A load of the main frame that is redirected, committed and finished is seen through the
  page's accessors as it should be: the page is loading from its start to its end, the active URL is
  first the requested URL, then the redirected one; the commit makes that the page's URL and clears
  the title, and the secure-content flag is decided by the committed URL alone.\<close>

theorem navigation_life_cycle:
  fixes mime :: wtf_string and custom std :: bool and cert :: nat
  assumes reach: "page_reachable full p" and main: "wp_mainFrame p = Some r"
    and frame: "webFrame i p = Some r" and allowed: "allowed u0" "allowed u1"
  defines "p1 \<equiv> didStartProvisionalLoadForFrame True allowed i u0 nullString p"
  defines "p2 \<equiv> didReceiveServerRedirectForProvisionalLoadForFrame True allowed i u1 p1"
  defines "p3 \<equiv> didCommitLoadForFrame True i mime custom std cert p2"
  defines "p4 \<equiv> didFinishLoadForFrame True i p3"
  shows "PageLoadState_isLoading (wp_load p1) \<and> PageLoadState_activeURL (wp_load p1) = u0
    \<and> ld_url (pl_committed (wp_load p1)) = ld_url (pl_committed (wp_load p))
    \<and> PageLoadState_isLoading (wp_load p2) \<and> PageLoadState_activeURL (wp_load p2) = u1
    \<and> PageLoadState_isLoading (wp_load p3) \<and> PageLoadState_activeURL (wp_load p3) = u1
    \<and> PageLoadState_title (wp_load p3) = nullString
    \<and> \<not> PageLoadState_isLoading (wp_load p4) \<and> PageLoadState_activeURL (wp_load p4) = u1
    \<and> PageLoadState_hasOnlySecureContent (wp_load p4) = str_startsWith_nocase u1 ''https:''"
proof -
  have m0: "isMainFrame r p" by (rule reachable_main_frame [OF reach main])
  have m1: "isMainFrame r p1" "webFrame i p1 = Some r" and r1: "page_reachable full p1"
    unfolding p1_def
    by (rule main_frame_stays [where allowed = allowed, OF m0 frame allowed(1)] reach_start [OF reach])+
  have m2: "isMainFrame r p2" "webFrame i p2 = Some r" and r2: "page_reachable full p2"
    unfolding p2_def by (rule main_frame_stays [where allowed = allowed, OF m1 allowed(2)] reach_redirect [OF r1])+
  have m3: "isMainFrame r p3" "webFrame i p3 = Some r" and r3: "page_reachable full p3"
    unfolding p3_def by (rule main_frame_stays [where allowed = allowed, OF m2 allowed(1)] reach_commit [OF r2])+
  have r4: "page_reachable full p4" unfolding p4_def by (rule reach_finish [OF r3])
  note data = main_frame_messages(1) [of r p i allowed u0 nullString, OF m0 frame allowed(1), folded p1_def]
    main_frame_messages(3) [of r p1 i allowed u1, OF m1 allowed(2), folded p2_def]
    main_frame_messages(5) [of r p2 i allowed u1 mime custom std cert, OF m2 allowed(2), folded p3_def]
    main_frame_messages(6) [of r p3 i allowed u1, OF m3 allowed(2), folded p4_def]
  show ?thesis
    by (simp add: PageLoadState_isLoading_def PageLoadState_activeURL_def PageLoadState_title_def
        PageLoadState_hasOnlySecureContent_def reachable_published [OF reach]
        reachable_published [OF r1] reachable_published [OF r2] reachable_published [OF r3]
        reachable_published [OF r4] data data_activeURL_def data_hasOnlySecureContent_def
        str_isEmpty_def)
qed

theorem navigation_life_cycle_witness:
  "PageLoadState_activeURL (wp_load (didReceiveServerRedirectForProvisionalLoadForFrame True (\<lambda>_. True) 5
      (Some ''https://c/'') (didStartProvisionalLoadForFrame True (\<lambda>_. True) 5
      (Some ''http://b/'') nullString sample_page))) = Some ''https://c/''"
  using navigation_life_cycle [OF sample_page_reachable [of True], of 0 5 "\<lambda>_. True"
    "Some ''http://b/''" "Some ''https://c/''"]
  by (simp add: sample_page_fields webFrame_def isValidKey_def)

text \<open>C28: A provisional load of the main frame that fails leaves no trace: if the page was idle, the
  load state afterwards is the one before it started, whatever unreachable URL the failed load
  announced.\<close>

theorem failed_provisional_load_restores:
  assumes reach: "page_reachable full p" and main: "wp_mainFrame p = Some r"
    and frame: "webFrame i p = Some r" and allowed: "allowed u"
    and idle: "ld_state (pl_committed (wp_load p)) = Finished"
      "ld_pendingAPIRequestURL (pl_committed (wp_load p)) = nullString"
      "ld_provisionalURL (pl_committed (wp_load p)) = nullString"
  shows "pl_committed (wp_load (didFailProvisionalLoadForFrame True i
      (didStartProvisionalLoadForFrame True allowed i u unreachable p))) = pl_committed (wp_load p)"
proof -
  let ?p1 = "didStartProvisionalLoadForFrame True allowed i u unreachable p"
  have m0: "isMainFrame r p" by (rule reachable_main_frame [OF reach main])
  have m1: "isMainFrame r ?p1" "webFrame i ?p1 = Some r"
    by (rule main_frame_stays [where allowed = allowed, OF m0 frame allowed])+
  have r2: "page_reachable full (didFailProvisionalLoadForFrame True i ?p1)"
    by (intro reach_failProvisional reach_start reach)
  show ?thesis
    unfolding reachable_published [OF r2] main_frame_messages(4) [of r ?p1 i allowed u, OF m1 allowed]
      main_frame_messages(1,2) [OF m0 frame, of allowed u, OF allowed]
    using idle by (simp add: reachable_published [OF reach])
qed

theorem failed_provisional_load_restores_witness:
  "pl_committed (wp_load (didFailProvisionalLoadForFrame True 5
      (didStartProvisionalLoadForFrame True (\<lambda>_. True) 5 (Some ''http://b/'') (Some ''x'')
        (didCreateMainFrame 5 (new_page []))))) = initial_load_data"
proof -
  have "page_reachable True (didCreateMainFrame 5 (new_page []))"
    by (intro reach_mainFrame reach_new) (simp_all add: new_page_def)
  from failed_provisional_load_restores [OF this, of 0 5 "\<lambda>_. True"] show ?thesis
    by (simp add: eval_page_defs PageLoadState_def initial_load_data_def)
qed

subsection \<open>Going back\<close>

lemma send_fields [simp]:
  "wp_load (send m p) = wp_load p" "wp_sent (send m p) = wp_sent p @ [m]"
  "wp_backForwardList (send m p) = wp_backForwardList p" "wp_isValid (send m p) = wp_isValid p"
  by (simp_all add: send_def)

lemma reattach_fields [simp]:
  "wp_load (reattachToWebProcess p) = wp_load p" "wp_sent (reattachToWebProcess p) = wp_sent p"
  "wp_backForwardList (reattachToWebProcess p) = wp_backForwardList p"
  "wp_isValid (reattachToWebProcess p)"
  by (simp_all add: reattachToWebProcess_def)

lemma on_load_sent [simp]: "wp_sent (on_load g p) = wp_sent p"
  by (simp add: on_load_def)

lemma backItem_is_not_current:
  assumes "bf_inv b" "backItem b = Inr (Some i)" "distinct (m_entries b)"
  shows "\<exists>c. currentItem b = Inr c \<and> Some i \<noteq> c"
  using assms
  by (auto simp: bf_inv_def backItem_def currentItem_def nth_eq_iff_index_eq split: if_splits)

text \<open>Going back shows its effect before the web process answers: the active URL is the URL of
  the entry gone to and the progress is the initial one. With a live process the list does not move
  yet and the process is sent the entry's identifier; after a crash the list moves at once and a new
  process is attached and sent the entry.\<close>

theorem goBack_announces_entry:
  assumes reach: "page_reachable full p" and item: "backItem (wp_backForwardList p) = Inr (Some i)"
    and url: "bi_url i \<noteq> nullString" and dist: "distinct (m_entries (wp_backForwardList p))"
  shows "\<exists>q. page_goBack p = Inr q
    \<and> PageLoadState_activeURL (wp_load q) = bi_url i
    \<and> PageLoadState_estimatedProgress (wp_load q) = initialProgressValue
    \<and> wp_isValid q
    \<and> (if wp_isValid p
       then wp_sent q = wp_sent p @ [GoBack (bi_itemID i)]
            \<and> wp_backForwardList q = wp_backForwardList p
       else wp_sent q = wp_sent p @ [GoToBackForwardItem (bi_itemID i)]
            \<and> wp_backForwardList q = goToItem (Some i) (wp_backForwardList p))"
proof -
  have inv: "page_inv full 0 p" by (rule page_reachable_inv [OF reach])
  hence valid: "page_isValid p = wp_isValid p" by (simp add: page_inv_def page_isValid_def)
  obtain c where c: "currentItem (wp_backForwardList p) = Inr c" "Some i \<noteq> c"
    using backItem_is_not_current [OF _ item dist] inv by (auto simp: page_inv_def)
  obtain q where q: "page_goBack p = Inr q"
    and data: "pl_uncommitted (wp_load q)
      = (pl_uncommitted (wp_load p))\<lparr>ld_pendingAPIRequestURL := bi_url i\<rparr>"
    and rest: "wp_isValid q" "if wp_isValid p
       then wp_sent q = wp_sent p @ [GoBack (bi_itemID i)]
            \<and> wp_backForwardList q = wp_backForwardList p
       else wp_sent q = wp_sent p @ [GoToBackForwardItem (bi_itemID i)]
            \<and> wp_backForwardList q = goToItem (Some i) (wp_backForwardList p)"
    using c by (cases "wp_isValid p")
      (auto simp: page_goBack_def item go_to_def reattachToWebProcessWithItem_def valid Let_def
        pl_mutator_defs)
  have "pl_committed (wp_load q) = pl_uncommitted (wp_load q)"
    by (rule reachable_published [OF reach_back [OF reach q]])
  with q data rest url show ?thesis
    by (simp add: PageLoadState_activeURL_def PageLoadState_estimatedProgress_def
        data_activeURL_def data_estimatedProgress_def)
qed

definition sample_items :: "item_id \<Rightarrow> bf_item option" where
  "sample_items n = (if n = 1 then Some \<lparr>bi_itemID = 1, bi_url = Some ''http://a/''\<rparr>
     else if n = 2 then Some \<lparr>bi_itemID = 2, bi_url = Some ''http://b/''\<rparr> else None)"

definition sample_history :: "bf_item bf_list" where
  "sample_history = addItem bi_itemID (sample_items 2) (addItem bi_itemID (sample_items 1)
     WebBackForwardList)"

lemma sample_history_facts:
  "m_entries sample_history = [\<lparr>bi_itemID = 1, bi_url = Some ''http://a/''\<rparr>,
     \<lparr>bi_itemID = 2, bi_url = Some ''http://b/''\<rparr>]"
  "backItem sample_history = Inr (Some \<lparr>bi_itemID = 1, bi_url = Some ''http://a/''\<rparr>)"
  by (simp_all add: sample_history_def sample_items_def addItem_def makeRoom_def tossForward_eq
      WebBackForwardList_def DefaultCapacity_def backItem_def vec_insert_def Let_def)

theorem goBack_announces_entry_witness:
  "\<exists>q. page_goBack (backForwardAddItem sample_items 2 (backForwardAddItem sample_items 1 sample_page))
       = Inr q
     \<and> PageLoadState_activeURL (wp_load q) = Some ''http://a/''"
proof -
  let ?p = "backForwardAddItem sample_items 2 (backForwardAddItem sample_items 1 sample_page)"
  have "page_reachable True ?p" by (intro reach_addItem sample_page_reachable)
  moreover have "wp_backForwardList ?p = sample_history"
    by (simp add: backForwardAddItem_def sample_page_fields sample_history_def)
  ultimately show ?thesis
    using goBack_announces_entry [of True ?p "\<lparr>bi_itemID = 1, bi_url = Some ''http://a/''\<rparr>"]
    by (auto simp: sample_history_facts)
qed

subsection \<open>A process the application terminates\<close>


end
