(* ===== verification/Browser.thy ===== *)
theory Browser
  imports NetRider_Keys Web_Page_Proxy
begin

text \<open>
  The shell and the pages together: each tab has a page in the UI process, and the calls of the
  shell go through the C interface (\<^verbatim>\<open>UIProcess/API/C/WKPage.cpp\<close>) to
  \<^verbatim>\<open>WebPageProxy\<close>.
\<close>

subsection \<open>The C interface\<close>

text \<open>The pages of the tabs; \<open>parse\<close> is the constructor of \<^verbatim>\<open>WebCore::URL\<close> from a string.\<close>

type_synonym pages = "int \<Rightarrow> web_page"

definition WKPageCanGoBack :: "web_page \<Rightarrow> bool" where
  "WKPageCanGoBack p \<longleftrightarrow> (case backItem (wp_backForwardList p) of Inr (Some _) \<Rightarrow> True | _ \<Rightarrow> False)"

definition WKPageCanGoForward :: "web_page \<Rightarrow> bool" where
  "WKPageCanGoForward p \<longleftrightarrow> (case forwardItem (wp_backForwardList p) of Inr (Some _) \<Rightarrow> True | _ \<Rightarrow> False)"

definition on_page :: "int \<Rightarrow> (web_page \<Rightarrow> web_page res) \<Rightarrow> pages \<Rightarrow> pages res" where
  "on_page i f ps = (case f (ps i) of Inl e \<Rightarrow> Inl e | Inr p \<Rightarrow> Inr (ps(i := p)))"

text \<open>
  A call of the C interface.  The calls about searching in a page and the answers to policy
  questions concern the web process and leave the state of the page proxy as it is.
\<close>

definition wk_perform :: "(string \<Rightarrow> wtf_string) \<Rightarrow> wk_call \<Rightarrow> pages \<Rightarrow> pages res" where
  "wk_perform parse call ps = (case call of
     WKPageLoadURL i u \<Rightarrow> on_page i (\<lambda>p. Inr (snd (loadRequest (parse u) p))) ps
   | WKPageStopLoading i \<Rightarrow> on_page i (\<lambda>p. Inr (stopLoading p)) ps
   | WKPageReload i \<Rightarrow> on_page i (reload False) ps
   | WKPageGoBack i \<Rightarrow> on_page i page_goBack ps
   | WKPageGoForward i \<Rightarrow> on_page i page_goForward ps
   | _ \<Rightarrow> Inr ps)"

primrec wk_perform_all :: "(string \<Rightarrow> wtf_string) \<Rightarrow> wk_call list \<Rightarrow> pages \<Rightarrow> pages res" where
  "wk_perform_all parse [] ps = Inr ps"
| "wk_perform_all parse (c # cs) ps = (case wk_perform parse c ps of Inl e \<Rightarrow> Inl e | Inr ps \<Rightarrow> wk_perform_all parse cs ps)"

text \<open>The calls that a callback of the shell has added.\<close>

definition new_calls :: "gui \<Rightarrow> gui \<Rightarrow> wk_call list" where
  "new_calls g g' = drop (length (wk_calls g)) (wk_calls g')"

subsection \<open>The location field\<close>

lemma loadRequest_announces:
  assumes "page_reachable full p" and "u \<noteq> nullString"
  shows "PageLoadState_activeURL (wp_load (snd (loadRequest u p))) = u"
    and "PageLoadState_estimatedProgress (wp_load (snd (loadRequest u p))) = initialProgressValue"
    and "wp_sent (snd (loadRequest u p)) = wp_sent p @ [LoadRequest (wp_navigationID p + 1) u]"
    and "wp_isValid (snd (loadRequest u p))"
proof -
  let ?q = "snd (loadRequest u p)"
  have valid: "page_isValid p = wp_isValid p"
    using page_reachable_inv [OF assms(1)] by (simp add: page_inv_def page_isValid_def)
  have pub: "pl_committed (wp_load ?q) = pl_uncommitted (wp_load ?q)"
    by (rule reachable_published [OF reach_loadRequest [OF assms(1)]])
  have data: "pl_uncommitted (wp_load ?q) = (pl_uncommitted (wp_load p))\<lparr>ld_pendingAPIRequestURL := u\<rparr>"
    by (auto simp: loadRequest_def with_transaction_def Let_def pl_mutator_defs)
  show "PageLoadState_activeURL (wp_load ?q) = u"
    and "PageLoadState_estimatedProgress (wp_load ?q) = initialProgressValue"
    using pub data assms(2)
    by (simp_all add: PageLoadState_activeURL_def PageLoadState_estimatedProgress_def
        data_activeURL_def data_estimatedProgress_def)
  show "wp_sent ?q = wp_sent p @ [LoadRequest (wp_navigationID p + 1) u]" and "wp_isValid ?q"
    using valid by (auto simp: loadRequest_def with_transaction_def Let_def page_isValid_def)
qed

lemma stopLoading_fields:
  "wp_navigationID (stopLoading p) = wp_navigationID p"
  "wp_sent (stopLoading p) = wp_sent p @ (if page_isValid p then [StopLoading] else [])"
  by (simp_all add: stopLoading_def send_def)

text \<open>C1: A typed address that the shell's 512-byte work buffer can hold and that is longer than two
  characters and not just the scheme reaches the page of the current tab and no other: the page stops
  its load, announces the URL at once with the initial progress, and sends the web process exactly one
  request for it.  The URL is the address itself when it starts with one of the six accepted schemes,
  and the address with \<open>http://\<close> in front of it otherwise.  No buffer overflows.\<close>

theorem typed_address_reaches_page:
  assumes "gui_ok g" and "cur_browser g = Inr b" and "loc_value b = url"
    and "2 < length url" and "length url < 512" and "c_string url" and "url \<noteq> ''http://''"
    and reach: "page_reachable full (ps (currenttab g))"
    and parse: "parse (if has_scheme url then url else ''http://'' @ url) \<noteq> nullString"
  shows "\<exists>g' p'. cb_loc loading g = Inr g' \<and> gui_ok g' \<and>
    wk_perform_all parse (new_calls g g') ps = Inr (ps(currenttab g := p')) \<and>
    PageLoadState_activeURL (wp_load p') = parse (if has_scheme url then url else ''http://'' @ url) \<and>
    PageLoadState_estimatedProgress (wp_load p') = initialProgressValue \<and> wp_isValid p' \<and>
    wp_sent p' = wp_sent (ps (currenttab g)) @ (if page_isValid (ps (currenttab g)) then [StopLoading] else []) @
      [LoadRequest (wp_navigationID (ps (currenttab g)) + 1) (parse (if has_scheme url then url else ''http://'' @ url))]"
proof -
  let ?u = "if has_scheme url then url else ''http://'' @ url" and ?i = "currenttab g"
  let ?p = "stopLoading (ps ?i)"
  obtain g' where g': "cb_loc loading g = Inr g'" "gui_ok g'"
      "wk_calls g' = wk_calls g @ [WKPageStopLoading ?i, WKPageLoadURL ?i ?u]"
    using cb_loc_calls [OF assms(1-7)] by blast
  have r: "page_reachable full ?p" by (rule reach_stop [OF reach])
  have "wk_perform_all parse (new_calls g g') ps = Inr (ps(?i := snd (loadRequest (parse ?u) ?p)))"
    using g'(3) by (simp add: new_calls_def wk_perform_def on_page_def)
  with g'(1,2) loadRequest_announces [OF r parse] stopLoading_fields show ?thesis by auto
qed

theorem typed_address_reaches_page_witness:
  "\<exists>g' p'. cb_loc ''Loading...  '' (put_browser (HtmlBrowser\<lparr>loc_value := ''netrider.org''\<rparr>) started_gui) = Inr g' \<and> gui_ok g' \<and>
    wk_perform_all Some (new_calls (put_browser (HtmlBrowser\<lparr>loc_value := ''netrider.org''\<rparr>) started_gui) g') (\<lambda>_. sample_page)
      = Inr ((\<lambda>_. sample_page)(0 := p')) \<and>
    PageLoadState_activeURL (wp_load p') = Some ''http://netrider.org'' \<and> wp_isValid p'"
proof -
  let ?b = "HtmlBrowser\<lparr>loc_value := ''netrider.org''\<rparr>"
  have "cur_browser (put_browser ?b started_gui) = Inr ?b" by (simp add: cur_browser_put)
  moreover have "\<not> has_scheme ''netrider.org''"
    by (simp add: has_scheme_def accepted_schemes_def has_prefix_def strncmp_def)
  moreover have "page_reachable True sample_page" by (rule sample_page_reachable)
  ultimately show ?thesis
    using typed_address_reaches_page [of "put_browser ?b started_gui" ?b "''netrider.org''" True "\<lambda>_. sample_page" Some "''Loading...  ''"]
    by (auto simp: cur_browser_started)
qed

subsection \<open>The back button\<close>

text \<open>C2: The back button of the shell, with the page of the current tab: when the history has an entry
  to go back to, the page announces its URL at once and the right process is sent the right entry;
  otherwise nothing happens.  The pages of the other tabs stay as they are.\<close>

theorem back_button:
  assumes reach: "page_reachable full (ps (currenttab g))"
    and dist: "distinct (m_entries (wp_backForwardList (ps (currenttab g))))"
    and urls: "\<forall>i \<in> set (m_entries (wp_backForwardList (ps (currenttab g)))). bi_url i \<noteq> nullString"
  shows "\<exists>p'. wk_perform_all parse (new_calls g (cb_back (WKPageCanGoBack (ps (currenttab g))) g)) ps
      = Inr (ps(currenttab g := p')) \<and>
    (case backItem (wp_backForwardList (ps (currenttab g))) of
       Inr (Some i) \<Rightarrow> PageLoadState_activeURL (wp_load p') = bi_url i \<and> wp_isValid p' \<and>
         (if wp_isValid (ps (currenttab g))
          then wp_sent p' = wp_sent (ps (currenttab g)) @ [GoBack (bi_itemID i)]
          else wp_sent p' = wp_sent (ps (currenttab g)) @ [GoToBackForwardItem (bi_itemID i)] \<and>
            wp_backForwardList p' = goToItem (Some i) (wp_backForwardList (ps (currenttab g))))
     | _ \<Rightarrow> p' = ps (currenttab g))"
proof -
  let ?p = "ps (currenttab g)"
  let ?bf = "wp_backForwardList ?p"
  show ?thesis
  proof (cases "\<exists>i. backItem ?bf = Inr (Some i)")
    case True
    then obtain i where i: "backItem ?bf = Inr (Some i)" by blast
    have "i \<in> set (m_entries ?bf)"
      using i by (auto simp: backItem_def vec_at_def split: if_splits)
    then have url: "bi_url i \<noteq> nullString" using urls by blast
    obtain q where q: "page_goBack ?p = Inr q" "PageLoadState_activeURL (wp_load q) = bi_url i" "wp_isValid q"
        "if wp_isValid ?p then wp_sent q = wp_sent ?p @ [GoBack (bi_itemID i)] \<and> wp_backForwardList q = ?bf
         else wp_sent q = wp_sent ?p @ [GoToBackForwardItem (bi_itemID i)] \<and> wp_backForwardList q = goToItem (Some i) ?bf"
      using goBack_announces_entry [OF reach i url dist] by blast
    have "wk_perform_all parse (new_calls g (cb_back (WKPageCanGoBack ?p) g)) ps = Inr (ps(currenttab g := q))"
      using q(1) i by (simp add: WKPageCanGoBack_def cb_back_def call_wk_def new_calls_def wk_perform_def on_page_def)
    then show ?thesis using q i by (intro exI [of _ q]) (auto split: if_splits)
  next
    case False
    then have "\<not> WKPageCanGoBack ?p" by (auto simp: WKPageCanGoBack_def split: sum.splits option.splits)
    then have "wk_perform_all parse (new_calls g (cb_back (WKPageCanGoBack ?p) g)) ps = Inr (ps(currenttab g := ?p))"
      by (simp add: cb_back_def new_calls_def)
    moreover have "case backItem ?bf of Inr (Some i) \<Rightarrow> P i | _ \<Rightarrow> ?p = ?p" for P :: "bf_item \<Rightarrow> bool"
      using False by (auto split: sum.split option.split)
    ultimately show ?thesis by blast
  qed
qed

definition sample_visited :: web_page where
  "sample_visited = backForwardAddItem sample_items 2 (backForwardAddItem sample_items 1 sample_page)"

theorem back_button_witness:
  "\<exists>p'. wk_perform_all Some (new_calls started_gui (cb_back (WKPageCanGoBack sample_visited) started_gui)) (\<lambda>_. sample_visited)
      = Inr ((\<lambda>_. sample_visited)(0 := p')) \<and> PageLoadState_activeURL (wp_load p') = Some ''http://a/''"
proof -
  have r: "page_reachable True sample_visited"
    unfolding sample_visited_def by (intro reach_addItem sample_page_reachable)
  have bf: "wp_backForwardList sample_visited = sample_history"
    by (simp add: sample_visited_def backForwardAddItem_def sample_page_fields sample_history_def)
  show ?thesis
    using back_button [of True "\<lambda>_. sample_visited" started_gui Some] r
    by (simp add: bf sample_history_facts cur_browser_started) blast
qed

end
