(* ===== verification/NetRider_Bookmarks.thy ===== *)
theory NetRider_Bookmarks
  imports NetRider_State
begin

text \<open>
  The history and bookmark tables of the NetRider shell: the title callback that records a
  visited page, the bookmark menu (add, edit, sort, delete, load) and the list windows that show
  both tables.  The list widget is FLTK's \<^verbatim>\<open>Fl_Browser\<close>, which is not part of the
  repository: its operations are a record of functions that the callbacks take as an argument,
  and \<open>fl_browser_laws\<close> states what its documentation promises of them.
\<close>

subsection \<open>Table entries\<close>

text \<open>\<^verbatim>\<open>sprintf(a[i].name,"%s",n); sprintf(a[i].uri,"%s",u)\<close> on a table of \<^verbatim>\<open>url_text\<close>.\<close>

definition put_name :: "url_text list \<Rightarrow> int \<Rightarrow> string \<Rightarrow> url_text list cres" where
  "put_name a i n = bindc (arr_at a i) (\<lambda>e. bindc (sprintf 1024 n) (\<lambda>n. arr_put a i (e\<lparr>ut_name := n\<rparr>)))"

definition put_uri :: "url_text list \<Rightarrow> int \<Rightarrow> string \<Rightarrow> url_text list cres" where
  "put_uri a i u = bindc (arr_at a i) (\<lambda>e. bindc (sprintf 1024 u) (\<lambda>u. arr_put a i (e\<lparr>ut_uri := u\<rparr>)))"

text \<open>One round of the shifting loops: entry \<open>j\<close> is copied over entry \<open>i\<close>.\<close>

definition copy_entry :: "url_text list \<Rightarrow> int \<Rightarrow> int \<Rightarrow> url_text list cres" where
  "copy_entry a i j =
     bindc (arr_at a j) (\<lambda>e. bindc (put_name a i (ut_name e)) (\<lambda>a.
     bindc (arr_at a j) (\<lambda>e. put_uri a i (ut_uri e))))"

text \<open>\<^verbatim>\<open>for (int i = n; i > 0; i--) a[i] = a[i-1]\<close>\<close>

fun push_down :: "url_text list \<Rightarrow> nat \<Rightarrow> url_text list cres" where
  "push_down a 0 = Inr a"
| "push_down a (Suc i) = bindc (copy_entry a (int (Suc i)) (int i)) (\<lambda>a. push_down a i)"

text \<open>\<^verbatim>\<open>for (int i = index; i < MAXBOOKMARKS-1; i++) a[i] = a[i+1]\<close>, with \<open>n\<close> rounds to go.\<close>

fun push_up :: "url_text list \<Rightarrow> int \<Rightarrow> nat \<Rightarrow> url_text list cres" where
  "push_up a i 0 = Inr a"
| "push_up a i (Suc n) = bindc (copy_entry a i (i + 1)) (\<lambda>a. push_up a (i + 1) n)"

lemma put_name_in [simp]:
  "\<lbrakk>0 \<le> i; i < int (length a); length n < 1024\<rbrakk> \<Longrightarrow>
   put_name a i n = Inr (a[nat i := (a ! nat i)\<lparr>ut_name := n\<rparr>])"
  by (simp add: put_name_def)

lemma put_uri_in [simp]:
  "\<lbrakk>0 \<le> i; i < int (length a); length u < 1024\<rbrakk> \<Longrightarrow>
   put_uri a i u = Inr (a[nat i := (a ! nat i)\<lparr>ut_uri := u\<rparr>])"
  by (simp add: put_uri_def)

lemma url_text_copy: "e\<lparr>ut_name := ut_name f, ut_uri := ut_uri f\<rparr> = (f :: url_text)"
  by (cases e; cases f) simp

lemma copy_entry_in:
  assumes "i < length a" and "j < length a" and "i \<noteq> j" and "url_text_ok (a ! j)"
  shows "copy_entry a (int i) (int j) = Inr (a[i := a ! j])"
proof -
  have "length (ut_name (a ! j)) < 1024" "length (ut_uri (a ! j)) < 1024"
    using assms(4) by (simp_all add: url_text_ok_def fits_def)
  then show ?thesis using assms(1-3) by (simp add: copy_entry_def url_text_copy)
qed

lemma push_down_eq:
  "\<lbrakk>n < length a; \<forall>e \<in> set a. url_text_ok e\<rbrakk> \<Longrightarrow>
   push_down a n = Inr (a ! 0 # take n a @ drop (Suc n) a)"
proof (induction n arbitrary: a)
  case 0
  then show ?case by (simp add: Cons_nth_drop_Suc)
next
  case (Suc n)
  let ?a = "a[Suc n := a ! n]"
  have lt: "n < length a" using Suc.prems(1) by simp
  have "copy_entry a (int (Suc n)) (int n) = Inr ?a"
    using Suc.prems lt by (intro copy_entry_in) auto
  moreover have "push_down ?a n = Inr (?a ! 0 # take n ?a @ drop (Suc n) ?a)"
    using Suc.prems lt by (intro Suc.IH) (auto dest: set_update_subset_insert [THEN subsetD])
  moreover have "drop (Suc n) ?a = a ! n # drop (Suc (Suc n)) a"
    using Suc.prems(1) by (simp add: Cons_nth_drop_Suc [symmetric])
  ultimately show ?case using lt by (simp add: take_Suc_conv_app_nth)
qed

lemma push_up_eq:
  "\<lbrakk>i + n < length a; \<forall>e \<in> set a. url_text_ok e\<rbrakk> \<Longrightarrow>
   push_up a (int i) n = Inr (take i a @ take n (drop (Suc i) a) @ drop (i + n) a)"
proof (induction n arbitrary: a i)
  case 0
  then show ?case by simp
next
  case (Suc n)
  let ?a = "a[i := a ! Suc i]"
  have lt: "i < length a" "Suc i < length a" using Suc.prems(1) by simp_all
  have "copy_entry a (int i) (int (Suc i)) = Inr ?a"
    using Suc.prems lt by (intro copy_entry_in) auto
  moreover have "push_up ?a (int (Suc i)) n
      = Inr (take (Suc i) ?a @ take n (drop (Suc (Suc i)) ?a) @ drop (Suc i + n) ?a)"
    using Suc.prems lt by (intro Suc.IH) (auto dest: set_update_subset_insert [THEN subsetD])
  moreover have "take (Suc i) ?a = take i a @ [a ! Suc i]"
    using lt by (simp add: take_Suc_conv_app_nth)
  moreover have "take (Suc n) (drop (Suc i) a) = a ! Suc i # take n (drop (Suc (Suc i)) a)"
    using lt by (simp add: Cons_nth_drop_Suc [symmetric])
  ultimately show ?case by (simp add: add.commute)
qed

subsection \<open>History\<close>

text \<open>
  \<^verbatim>\<open>didReceiveTitleForFrame\<close>: the window and tab titles, and a new history entry unless the
  title equals the one of the newest entry; \<open>active\<close> is the active URL of the page.
\<close>

definition shell_didReceiveTitleForFrame :: "string \<Rightarrow> string \<Rightarrow> gui \<Rightarrow> gui cres" where
  "shell_didReceiveTitleForFrame titleStr active g =
     (let t = c_str titleStr; g = g\<lparr>win_label := t\<rparr> in
      bindc (cur_browser g) (\<lambda>b.
      bindc (sprintf 1024 t) (\<lambda>ct.
      bindc (snprintf 128 12 t) (\<lambda>tt.
      bindc (label_tab tt (put_browser (b\<lparr>currenttitle := ct, tabtitle := tt\<rparr>) g)) (\<lambda>g.
      bindc (arr_at (URL g) 0) (\<lambda>e0.
      if strcmp (ut_name e0) t \<noteq> 0
      then bindc (push_down (URL g) (MAXHISTORY - 1)) (\<lambda>h.
           bindc (put_name h 0 t) (\<lambda>h.
           bindc (get_url active (g\<lparr>URL := h\<rparr>)) (\<lambda>(u, g).
           bindc (put_uri (URL g) 0 u) (\<lambda>h. Inr (g\<lparr>URL := h\<rparr>)))))
      else Inr g))))))"

text \<open>The promised history: newest first, at most \<open>MAXHISTORY\<close> entries, no two equal titles in a row.\<close>

definition record_visit :: "url_text \<Rightarrow> url_text list \<Rightarrow> url_text list" where
  "record_visit e h = (if ut_name (hd h) = ut_name e then h else e # butlast h)"

lemma didReceiveTitle_ok:
  assumes ok: "gui_ok g" and t: "length (c_str title) < 1024" and u: "length (c_str active) < 1024"
  obtains g' where "shell_didReceiveTitleForFrame title active g = Inr g'" and "gui_ok g'"
    and "URL g' = record_visit \<lparr>ut_name = c_str title, ut_uri = c_str active\<rparr> (URL g)"
    and "bookmarks g' = bookmarks g" and "win_label g' = c_str title"
proof -
  let ?t = "c_str title" and ?u = "c_str active"
  let ?g0 = "g\<lparr>win_label := ?t\<rparr>"
  obtain b where b: "cur_browser ?g0 = Inr b" by (rule cur_browser_ok [of ?g0]) (use ok in simp_all)
  let ?g1 = "put_browser (b\<lparr>currenttitle := ?t, tabtitle := take 11 ?t\<rparr>) ?g0"
  have "gui_ok ?g1" using ok by simp
  then obtain gs where lab: "label_tab (take 11 ?t) ?g1 = Inr (?g1\<lparr>BrowserGroup := gs\<rparr>)"
    and ok2: "gui_ok (?g1\<lparr>BrowserGroup := gs\<rparr>)" by (rule label_tab_ok)
  let ?g2 = "?g1\<lparr>BrowserGroup := gs\<rparr>"
  have H: "URL ?g2 = URL g" "bookmarks ?g2 = bookmarks g" "win_label ?g2 = ?t"
    by (simp_all add: put_browser_def)
  have len: "length (URL g) = 100" and es: "\<forall>e \<in> set (URL g). url_text_ok e"
    using ok by (simp_all add: gui_ok_def tables_ok_def table_sizes)
  then have ne: "URL g \<noteq> []" by auto
  then have hd: "URL g ! 0 = hd (URL g)" and okhd: "url_text_ok (hd (URL g))"
    using es by (simp_all add: hd_conv_nth)
  show thesis
  proof (cases "ut_name (hd (URL g)) = ?t")
    case True
    then have "shell_didReceiveTitleForFrame title active g = Inr ?g2"
      using b t lab H len by (simp add: shell_didReceiveTitleForFrame_def Let_def hd)
    then show thesis
      by (rule that) (use ok2 H True in \<open>simp_all add: record_visit_def\<close>)
  next
    case False
    let ?h = "hd (URL g) # butlast (URL g)"
    let ?h1 = "(hd (URL g))\<lparr>ut_name := ?t\<rparr> # butlast (URL g)"
    have "push_down (URL g) 99 = Inr (hd (URL g) # take 99 (URL g) @ drop (Suc 99) (URL g))"
      using push_down_eq [of 99 "URL g"] es len by (simp add: hd)
    then have pd: "push_down (URL g) (MAXHISTORY - 1) = Inr ?h"
      using len by (simp add: table_sizes butlast_conv_take)
    have bl: "length (butlast (URL g)) = 99" "\<forall>e \<in> set (butlast (URL g)). url_text_ok e"
      using len es by (auto dest: in_set_butlastD)
    have pn: "put_name ?h 0 ?t = Inr ?h1" using t by simp
    have e0: "url_text_ok ((hd (URL g))\<lparr>ut_name := ?t\<rparr>)"
      using okhd t by (simp add: url_text_ok_def fits_def)
    have ok3: "gui_ok (?g2\<lparr>URL := ?h1\<rparr>)"
      using bl e0 by (intro gui_ok_URL [OF ok2]) (simp_all add: table_sizes)
    then obtain b' where gu: "get_url active (?g2\<lparr>URL := ?h1\<rparr>) = Inr (?u, put_browser b' (?g2\<lparr>URL := ?h1\<rparr>))"
      by (rule get_url_ok [OF _ u])
    let ?g3 = "put_browser b' (?g2\<lparr>URL := ?h1\<rparr>)"
    let ?e = "\<lparr>ut_name = ?t, ut_uri = ?u\<rparr>"
    have H3: "URL ?g3 = ?h1" "bookmarks ?g3 = bookmarks g" "win_label ?g3 = ?t"
      using H by (simp_all add: put_browser_def)
    have pu: "put_uri ?h1 0 ?u = Inr (?e # butlast (URL g))"
      using u by simp
    have cs: "strcmp (ut_name (hd (URL g))) ?t \<noteq> 0"
      using False okhd by (simp add: url_text_ok_def fits_def)
    have run: "shell_didReceiveTitleForFrame title active g = Inr (?g3\<lparr>URL := ?e # butlast (URL g)\<rparr>)"
      using b t lab H(1) len cs pd pn gu H3(1) pu
      by (simp add: shell_didReceiveTitleForFrame_def Let_def hd del: put_name_in put_uri_in)
    have "gui_ok (?g3\<lparr>URL := ?e # butlast (URL g)\<rparr>)"
      using bl t u ok3 by (intro gui_ok_URL) (simp_all add: table_sizes url_text_ok_def fits_def)
    with run show thesis
      by (rule that) (use H3 False in \<open>simp_all add: record_visit_def\<close>)
  qed
qed

text \<open>A sequence of title callbacks, each with the active URL at that time.\<close>

fun receive_titles :: "(string \<times> string) list \<Rightarrow> gui \<Rightarrow> gui cres" where
  "receive_titles [] g = Inr g"
| "receive_titles ((t, u) # evs) g = bindc (shell_didReceiveTitleForFrame t u g) (receive_titles evs)"

definition no_repeat :: "url_text list \<Rightarrow> bool" where
  "no_repeat h \<longleftrightarrow> (\<forall>i. Suc i < length h \<longrightarrow> ut_name (h ! i) \<noteq> [] \<longrightarrow> ut_name (h ! i) \<noteq> ut_name (h ! Suc i))"

definition visit_of :: "string \<times> string \<Rightarrow> url_text" where
  "visit_of ev = \<lparr>ut_name = c_str (fst ev), ut_uri = c_str (snd ev)\<rparr>"

lemma no_repeat_record_visit:
  assumes "no_repeat h" and "h \<noteq> []"
  shows "no_repeat (record_visit e h)"
proof (cases "ut_name (hd h) = ut_name e")
  case True
  then show ?thesis using assms(1) by (simp add: record_visit_def)
next
  case False
  have "ut_name ((e # butlast h) ! i) \<noteq> ut_name ((e # butlast h) ! Suc i)"
    if "Suc i < length (e # butlast h)" and "ut_name ((e # butlast h) ! i) \<noteq> []" for i
  proof (cases i)
    case 0
    then have "0 < length (butlast h)" using that by simp
    then have "butlast h ! 0 = hd h" using assms(2) by (simp add: nth_butlast hd_conv_nth)
    then show ?thesis using False 0 by simp
  next
    case (Suc j)
    then have "Suc j < length h" "ut_name (h ! j) \<noteq> []" "butlast h ! j = h ! j" "butlast h ! Suc j = h ! Suc j"
      using that by (auto simp: nth_butlast)
    then show ?thesis using assms(1) Suc by (simp add: no_repeat_def)
  qed
  then show ?thesis using False by (simp add: record_visit_def no_repeat_def)
qed

lemma receive_titles_ok:
  "\<lbrakk>gui_ok g; \<forall>(t, u) \<in> set evs. length (c_str t) < 1024 \<and> length (c_str u) < 1024\<rbrakk> \<Longrightarrow>
   \<exists>g'. receive_titles evs g = Inr g' \<and> gui_ok g' \<and>
     URL g' = foldl (\<lambda>h ev. record_visit (visit_of ev) h) (URL g) evs \<and>
     (no_repeat (URL g) \<longrightarrow> no_repeat (URL g'))"
proof (induction evs arbitrary: g)
  case (Cons ev evs)
  obtain t u where ev: "ev = (t, u)" by (cases ev)
  have lens: "length (c_str t) < 1024" "length (c_str u) < 1024" using Cons.prems(2) ev by auto
  obtain g1 where g1: "shell_didReceiveTitleForFrame t u g = Inr g1" "gui_ok g1"
    "URL g1 = record_visit (visit_of ev) (URL g)"
    by (rule didReceiveTitle_ok [OF Cons.prems(1) lens]) (simp add: visit_of_def ev)
  have "URL g \<noteq> []" using Cons.prems(1) by (auto simp: gui_ok_def tables_ok_def table_sizes)
  then have nr: "no_repeat (URL g) \<Longrightarrow> no_repeat (URL g1)"
    unfolding g1(3) by (rule no_repeat_record_visit [rotated])
  obtain g' where "receive_titles evs g1 = Inr g'" "gui_ok g'"
    "URL g' = foldl (\<lambda>h ev. record_visit (visit_of ev) h) (URL g1) evs"
    "no_repeat (URL g1) \<longrightarrow> no_repeat (URL g')"
    using Cons.IH [OF g1(2)] Cons.prems(2) by auto
  then show ?case using g1 nr by (simp add: ev)
qed simp

subsection \<open>The list widget\<close>

text \<open>
  The operations of FLTK's \<^verbatim>\<open>Fl_Browser\<close> that the shell calls, on a widget state
  \<^typ>\<open>'b\<close>: \<^verbatim>\<open>size()\<close>, \<^verbatim>\<open>text(line)\<close>,
  \<^verbatim>\<open>text(line, s)\<close>, \<^verbatim>\<open>add(s)\<close>, \<^verbatim>\<open>swap(a, b)\<close>,
  \<^verbatim>\<open>remove(line)\<close> and \<^verbatim>\<open>value()\<close>.
\<close>

record 'b fl_browser =
  fl_size :: "'b \<Rightarrow> nat"
  fl_text :: "'b \<Rightarrow> int \<Rightarrow> string option"
  fl_set_text :: "'b \<Rightarrow> int \<Rightarrow> string \<Rightarrow> 'b"
  fl_add :: "'b \<Rightarrow> string \<Rightarrow> 'b"
  fl_swap :: "'b \<Rightarrow> int \<Rightarrow> int \<Rightarrow> 'b"
  fl_remove :: "'b \<Rightarrow> int \<Rightarrow> 'b"
  fl_value :: "'b \<Rightarrow> int"

text \<open>
  What FLTK documents: lines are numbered from 1, \<^verbatim>\<open>text\<close> of a line that does not
  exist is null, \<^verbatim>\<open>add\<close> appends a line, \<^verbatim>\<open>swap\<close> exchanges two lines.
\<close>

definition fl_browser_laws :: "'b fl_browser \<Rightarrow> ('b \<Rightarrow> string list) \<Rightarrow> bool" where
  "fl_browser_laws fl lns \<longleftrightarrow>
     (\<forall>b. fl_size fl b = length (lns b)) \<and>
     (\<forall>b i. fl_text fl b i =
        (if 1 \<le> i \<and> i \<le> int (length (lns b)) then Some (lns b ! nat (i - 1)) else None)) \<and>
     (\<forall>b s. lns (fl_add fl b s) = lns b @ [s]) \<and>
     (\<forall>b i j. 1 \<le> i \<and> i \<le> int (length (lns b)) \<and> 1 \<le> j \<and> j \<le> int (length (lns b)) \<longrightarrow>
        lns (fl_swap fl b i j) =
          (lns b)[nat (j - 1) := lns b ! nat (i - 1), nat (i - 1) := lns b ! nat (j - 1)])"

text \<open>A list of lines with a selected line, as an instance of the widget.\<close>

definition list_browser :: "(string list \<times> int) fl_browser" where
  "list_browser = \<lparr>
     fl_size = (\<lambda>(ls, v). length ls),
     fl_text = (\<lambda>(ls, v) i. if 1 \<le> i \<and> i \<le> int (length ls) then Some (ls ! nat (i - 1)) else None),
     fl_set_text = (\<lambda>(ls, v) i s. (ls[nat (i - 1) := s], v)),
     fl_add = (\<lambda>(ls, v) s. (ls @ [s], v)),
     fl_swap = (\<lambda>(ls, v) i j. (ls[nat (j - 1) := ls ! nat (i - 1), nat (i - 1) := ls ! nat (j - 1)], v)),
     fl_remove = (\<lambda>(ls, v) i. (vec_remove (nat (i - 1)) ls, v)),
     fl_value = snd\<rparr>"

lemma list_browser_laws: "fl_browser_laws list_browser fst"
  by (simp add: fl_browser_laws_def list_browser_def split_beta)

lemma fl_laws:
  assumes "fl_browser_laws fl lns"
  shows "fl_size fl b = length (lns b)"
    and "fl_text fl b i = (if 1 \<le> i \<and> i \<le> int (length (lns b)) then Some (lns b ! nat (i - 1)) else None)"
    and "lns (fl_add fl b s) = lns b @ [s]"
    and "\<lbrakk>1 \<le> i; i \<le> int (length (lns b)); 1 \<le> j; j \<le> int (length (lns b))\<rbrakk> \<Longrightarrow>
      lns (fl_swap fl b i j) =
        (lns b)[nat (j - 1) := lns b ! nat (i - 1), nat (i - 1) := lns b ! nat (j - 1)]"
  using assms by (simp_all add: fl_browser_laws_def)

subsection \<open>Lines of the list windows\<close>

text \<open>The separator \<^verbatim>\<open>'\314'\<close> between the name and the URI of an entry.\<close>

definition sep :: char where "sep = CHR 0xCC"

definition line_of :: "url_text \<Rightarrow> string" where
  "line_of e = ut_name e @ sep # ut_uri e"

text \<open>\<^verbatim>\<open>strcpy(uri, tabpos+1); strncpy(pagename, text, tabpos-text); pagename[tabpos-text] = 0\<close>\<close>

definition copy_fields :: "string \<Rightarrow> nat \<Rightarrow> url_text cres" where
  "copy_fields txt d =
     bindc (sprintf 1024 (drop (Suc d) txt)) (\<lambda>uri.
     bindc (sprintf 1024 (take d txt)) (\<lambda>name. Inr \<lparr>ut_name = name, ut_uri = uri\<rparr>))"

definition split_line :: "string \<Rightarrow> url_text cres" where
  "split_line txt = (case strchr txt sep of None \<Rightarrow> Inl NullPointer | Some d \<Rightarrow> copy_fields txt d)"

text \<open>
  The loop of \<^verbatim>\<open>cb_history\<close> and \<^verbatim>\<open>cb_bookmarks\<close> that fills the window from a
  table: it stops at the first entry whose line is just the separator.
\<close>

fun list_entries :: "'b fl_browser \<Rightarrow> url_text list \<Rightarrow> 'b \<Rightarrow> 'b cres" where
  "list_entries fl [] b = Inr b"
| "list_entries fl (e # es) b =
     bindc (sprintf 2048 (line_of e)) (\<lambda>buffer.
       if length buffer > 1 then list_entries fl es (fl_add fl b buffer) else Inr b)"

definition cb_history :: "'b fl_browser \<Rightarrow> 'b \<Rightarrow> gui \<Rightarrow> 'b cres" where
  "cb_history fl b g = list_entries fl (URL g) b"

definition cb_bookmarks :: "'b fl_browser \<Rightarrow> 'b \<Rightarrow> gui \<Rightarrow> 'b cres" where
  "cb_bookmarks fl b g = list_entries fl (bookmarks g) b"

text \<open>
  \<^verbatim>\<open>HistoryCallback\<close> and \<^verbatim>\<open>bookmarks_cb\<close> (the two bodies are the same): load
  the selected line.
\<close>

definition load_line :: "'b fl_browser \<Rightarrow> string \<Rightarrow> 'b \<Rightarrow> gui \<Rightarrow> gui cres" where
  "load_line fl loading w g =
     (let index = fl_value fl w in
      if index = 0 then Inr g
      else case fl_text fl w index of
        None \<Rightarrow> Inl NullPointer
      | Some txt \<Rightarrow>
          bindc (split_line txt) (\<lambda>e.
          bindc (sprintf 1024 (ut_uri e)) (\<lambda>buf.
          bindc (checkurl 1024 buf) (\<lambda>buf.
          bindc (cur_browser g) (\<lambda>b.
          bindc (show_loading loading
                   (call_wk (WKPageStopLoading (currenttab g)) (put_browser (b\<lparr>loc_value := buf\<rparr>) g))) (\<lambda>g.
          Inr (loadURL (Some buf) g)))))))"

definition HistoryCallback :: "'b fl_browser \<Rightarrow> string \<Rightarrow> 'b \<Rightarrow> gui \<Rightarrow> gui cres" where
  "HistoryCallback = load_line"

definition bookmarks_cb :: "'b fl_browser \<Rightarrow> string \<Rightarrow> 'b \<Rightarrow> gui \<Rightarrow> gui cres" where
  "bookmarks_cb = load_line"

subsection \<open>Changing the bookmarks\<close>

text \<open>
  \<^verbatim>\<open>cb_add_bookmark\<close>: \<open>title_url\<close> is null for the page itself (then \<open>title\<close> and
  \<open>active\<close> are the page's title and active URL); for a link it is the text that
  \<^verbatim>\<open>context_menu_cb\<close> builds.
\<close>

definition cb_add_bookmark :: "string option \<Rightarrow> string \<Rightarrow> string \<Rightarrow> gui \<Rightarrow> gui cres" where
  "cb_add_bookmark title_url title active g =
     bindc (push_down (bookmarks g) (MAXBOOKMARKS - 1)) (\<lambda>m.
     case title_url of
       None \<Rightarrow>
         bindc (put_name m 0 (c_str title)) (\<lambda>m.
         bindc (get_url active (g\<lparr>bookmarks := m\<rparr>)) (\<lambda>(u, g).
         bindc (put_uri (bookmarks g) 0 u) (\<lambda>m. Inr (g\<lparr>bookmarks := m\<rparr>))))
     | Some tu \<Rightarrow>
         (case strchr tu CHR '','' of
            None \<Rightarrow> Inr (g\<lparr>bookmarks := m\<rparr>)
          | Some d \<Rightarrow>
              bindc (snprintf 1024 (d + 1) tu) (\<lambda>u.
              bindc (put_uri m 0 u) (\<lambda>m.
              bindc (put_name m 0 (drop (d + 1) tu)) (\<lambda>m. Inr (g\<lparr>bookmarks := m\<rparr>))))))"

text \<open>The buffers of \<^verbatim>\<open>context_menu_cb\<close>: the link's URI and title, and \<^verbatim>\<open>"%s,%s"\<close>.\<close>

definition context_menu_title_url :: "string \<Rightarrow> string \<Rightarrow> string cres" where
  "context_menu_title_url mouse_uri mouse_title =
     bindc (sprintf 1024 (c_str mouse_uri)) (\<lambda>uri.
     bindc (sprintf 1024 (c_str mouse_title)) (\<lambda>title.
     sprintf 2048 (c_str mouse_uri @ '','' @ c_str mouse_title)))"

definition add_link_bookmark :: "string \<Rightarrow> string \<Rightarrow> gui \<Rightarrow> gui cres" where
  "add_link_bookmark mouse_uri mouse_title g =
     bindc (context_menu_title_url mouse_uri mouse_title) (\<lambda>tu. cb_add_bookmark (Some tu) [] [] g)"

text \<open>\<^verbatim>\<open>cb_edit_bookmark\<close>: what the edit window shows; \<^verbatim>\<open>cb_edittext_book\<close>: saving it.\<close>

definition cb_edit_bookmark :: "'b fl_browser \<Rightarrow> 'b \<Rightarrow> url_text option cres" where
  "cb_edit_bookmark fl w = (case fl_text fl w (fl_value fl w) of
     None \<Rightarrow> Inr None
   | Some txt \<Rightarrow> bindc (split_line txt) (\<lambda>e. Inr (Some e)))"

definition cb_edittext_book :: "'b fl_browser \<Rightarrow> string \<Rightarrow> string \<Rightarrow> 'b \<Rightarrow> gui \<Rightarrow> ('b \<times> gui) cres" where
  "cb_edittext_book fl name url w g =
     (let index = fl_value fl w in
      bindc (put_name (bookmarks g) (index - 1) name) (\<lambda>m.
      bindc (put_uri m (index - 1) url) (\<lambda>m.
      bindc (arr_at m (index - 1)) (\<lambda>e.
      bindc (sprintf 2048 (line_of e)) (\<lambda>buffer.
      Inr (fl_set_text fl w index buffer, g\<lparr>bookmarks := m\<rparr>))))))"

text \<open>
  \<^verbatim>\<open>cb_sort_bookmark\<close>: an exchange sort of the widget's lines (the two loops), then the
  lines are written back into the table.
\<close>

partial_function (option) sort_inner :: "'b fl_browser \<Rightarrow> int \<Rightarrow> int \<Rightarrow> 'b \<Rightarrow> 'b cres option" where
  "sort_inner fl t r b =
     (if r \<le> int (fl_size fl b)
      then (case fl_text fl b t of
              None \<Rightarrow> Some (Inl NullPointer)
            | Some x \<Rightarrow> (case fl_text fl b r of
                None \<Rightarrow> Some (Inl NullPointer)
              | Some y \<Rightarrow> sort_inner fl t (r + 1) (if strcmp x y > 0 then fl_swap fl b t r else b)))
      else Some (Inr b))"

partial_function (option) sort_outer :: "'b fl_browser \<Rightarrow> int \<Rightarrow> 'b \<Rightarrow> 'b cres option" where
  "sort_outer fl t b =
     (if t \<le> int (fl_size fl b)
      then (case sort_inner fl t (t + 1) b of
              None \<Rightarrow> None
            | Some (Inl e) \<Rightarrow> Some (Inl e)
            | Some (Inr b) \<Rightarrow> sort_outer fl (t + 1) b)
      else Some (Inr b))"

text \<open>\<^verbatim>\<open>for (int i = 1; i < MAXBOOKMARKS; i++)\<close>, with \<open>n\<close> rounds to go.\<close>

fun write_back :: "'b fl_browser \<Rightarrow> 'b \<Rightarrow> nat \<Rightarrow> nat \<Rightarrow> url_text list \<Rightarrow> url_text list cres" where
  "write_back fl w i 0 m = Inr m"
| "write_back fl w i (Suc n) m =
     bindc (case fl_text fl w (int i) of
              None \<Rightarrow> Inr m
            | Some txt \<Rightarrow> (case strchr txt sep of
                None \<Rightarrow> Inr m
              | Some d \<Rightarrow> bindc (copy_fields txt d) (\<lambda>e.
                  bindc (put_name m (int i - 1) (ut_name e)) (\<lambda>m. put_uri m (int i - 1) (ut_uri e)))))
       (\<lambda>m. write_back fl w (Suc i) n m)"

definition cb_sort_bookmark :: "'b fl_browser \<Rightarrow> 'b \<Rightarrow> gui \<Rightarrow> ('b \<times> gui) cres option" where
  "cb_sort_bookmark fl w g = (case sort_outer fl 1 w of
     None \<Rightarrow> None
   | Some (Inl e) \<Rightarrow> Some (Inl e)
   | Some (Inr w) \<Rightarrow> Some (bindc (write_back fl w 1 (MAXBOOKMARKS - 1) (bookmarks g))
       (\<lambda>m. Inr (w, g\<lparr>bookmarks := m\<rparr>))))"

text \<open>\<^verbatim>\<open>cb_delete_bookmark\<close>: the entries behind the selected one move up, then the last is cleared.\<close>

definition cb_delete_bookmark :: "'b fl_browser \<Rightarrow> 'b \<Rightarrow> gui \<Rightarrow> ('b \<times> gui) cres" where
  "cb_delete_bookmark fl w g =
     (let index = fl_value fl w - 1; w = fl_remove fl w (index + 1) in
      bindc (push_up (bookmarks g) index (nat (int MAXBOOKMARKS - 1 - index))) (\<lambda>m.
      bindc (put_name m (int MAXBOOKMARKS) []) (\<lambda>m.
      bindc (put_uri m (int MAXBOOKMARKS) []) (\<lambda>m.
      Inr (w, g\<lparr>bookmarks := m\<rparr>)))))"

subsection \<open>The exchange sort\<close>

lemma drop_length_minus_one: "xs \<noteq> [] \<Longrightarrow> drop (length xs - 1) xs = [last xs]"
  by (cases xs rule: rev_cases) simp_all

lemma mset_drop_eq:
  assumes "mset xs = mset ys" and "take k xs = take k ys"
  shows "mset (drop k xs) = mset (drop k ys)"
proof -
  have "mset (take k xs) + mset (drop k xs) = mset (take k ys) + mset (drop k ys)"
    using assms(1) by (metis append_take_drop_id mset_append)
  then show ?thesis using assms(2) by simp
qed

lemma sort_inner_spec:
  assumes L: "fl_browser_laws fl lns"
  shows "\<lbrakk>k < j; j \<le> length (lns b); \<forall>s \<in> set (lns b). c_string s;
          \<forall>i. k \<le> i \<and> i < j \<longrightarrow> lns b ! k \<le> lns b ! i\<rbrakk> \<Longrightarrow>
    \<exists>b'. sort_inner fl (int (Suc k)) (int (Suc j)) b = Some (Inr b') \<and> mset (lns b') = mset (lns b) \<and>
      take k (lns b') = take k (lns b) \<and> (\<forall>i. k \<le> i \<and> i < length (lns b') \<longrightarrow> lns b' ! k \<le> lns b' ! i)"
proof (induction "length (lns b) - j" arbitrary: j b)
  case 0
  then have "j = length (lns b)" by simp
  then have "sort_inner fl (int (Suc k)) (int (Suc j)) b = Some (Inr b)"
    by (subst sort_inner.simps) (simp add: fl_laws [OF L])
  then show ?case using 0 \<open>j = length (lns b)\<close> by auto
next
  case (Suc n)
  let ?xs = "lns b"
  have j: "j < length ?xs" and k: "k < length ?xs" using Suc.hyps(2) Suc.prems(1) by simp_all
  let ?b = "if strcmp (?xs ! k) (?xs ! j) > 0 then fl_swap fl b (int (Suc k)) (int (Suc j)) else b"
  let ?ys = "if ?xs ! j < ?xs ! k then ?xs[j := ?xs ! k, k := ?xs ! j] else ?xs"
  have cs: "c_string (?xs ! k)" "c_string (?xs ! j)" using Suc.prems(3) j k by simp_all
  have ys: "lns ?b = ?ys"
    using j k by (simp add: strcmp_pos_iff [OF cs] fl_laws(4) [OF L])
  have ms: "mset ?ys = mset ?xs" using j k by (simp add: mset_swap)
  have tk: "take k ?ys = take k ?xs" using Suc.prems(1) by simp
  have step: "sort_inner fl (int (Suc k)) (int (Suc j)) b = sort_inner fl (int (Suc k)) (int (Suc (Suc j))) ?b"
    using j k by (subst sort_inner.simps) (simp add: fl_laws(1,2) [OF L] add.commute)
  have min: "?ys ! k \<le> ?ys ! i" if "k \<le> i \<and> i < Suc j" for i
  proof -
    have "?xs ! k \<le> ?xs ! i \<or> i = j" using Suc.prems(4) that by (cases "i = j") auto
    then show ?thesis using j k that Suc.prems(1) by (auto simp: nth_list_update)
  qed
  have len: "length ?ys = length ?xs" by simp
  have "set ?ys = set ?xs" using ms by (metis set_mset_mset)
  then have "\<exists>b'. sort_inner fl (int (Suc k)) (int (Suc (Suc j))) ?b = Some (Inr b') \<and> mset (lns b') = mset (lns ?b) \<and>
      take k (lns b') = take k (lns ?b) \<and> (\<forall>i. k \<le> i \<and> i < length (lns b') \<longrightarrow> lns b' ! k \<le> lns b' ! i)"
    using Suc.prems(1,3) Suc.hyps(2) j min by (intro Suc.hyps(1)) (simp_all only: ys len, auto)
  then show ?case unfolding step ys ms tk .
qed

lemma sort_outer_spec:
  assumes L: "fl_browser_laws fl lns"
  shows "\<lbrakk>k \<le> length (lns b); \<forall>s \<in> set (lns b). c_string s; sorted (take k (lns b));
          \<forall>x \<in> set (take k (lns b)). \<forall>y \<in> set (drop k (lns b)). x \<le> y\<rbrakk> \<Longrightarrow>
    \<exists>b'. sort_outer fl (int (Suc k)) b = Some (Inr b') \<and> mset (lns b') = mset (lns b) \<and> sorted (lns b')"
proof (induction "length (lns b) - k" arbitrary: k b)
  case 0
  then have "sort_outer fl (int (Suc k)) b = Some (Inr b)"
    by (subst sort_outer.simps) (simp add: fl_laws [OF L])
  then show ?case using 0 by simp
next
  case (Suc n)
  have k: "k < length (lns b)" using Suc.hyps(2) by simp
  have "\<exists>b'. sort_inner fl (int (Suc k)) (int (Suc (Suc k))) b = Some (Inr b') \<and> mset (lns b') = mset (lns b) \<and>
      take k (lns b') = take k (lns b) \<and> (\<forall>i. k \<le> i \<and> i < length (lns b') \<longrightarrow> lns b' ! k \<le> lns b' ! i)"
  proof (rule sort_inner_spec [OF L])
    show "\<forall>i. k \<le> i \<and> i < Suc k \<longrightarrow> lns b ! k \<le> lns b ! i"
      by (metis le_antisym less_Suc_eq_le order_refl)
  qed (use k Suc.prems(2) in simp_all)
  then obtain b' where b': "sort_inner fl (int (Suc k)) (int (Suc (Suc k))) b = Some (Inr b')"
    and ms: "mset (lns b') = mset (lns b)" and tk: "take k (lns b') = take k (lns b)"
    and min: "\<forall>i. k \<le> i \<and> i < length (lns b') \<longrightarrow> lns b' ! k \<le> lns b' ! i" by blast
  have len: "length (lns b') = length (lns b)" using ms by (rule mset_eq_length)
  have dk: "mset (drop k (lns b')) = mset (drop k (lns b))" using ms tk by (rule mset_drop_eq)
  have drop: "drop k (lns b') = lns b' ! k # drop (Suc k) (lns b')"
    using k len by (simp add: Cons_nth_drop_Suc)
  have sets: "set (drop k (lns b')) = set (drop k (lns b))" using dk by (metis set_mset_mset)
  have tSuc: "take (Suc k) (lns b') = take k (lns b) @ [lns b' ! k]"
    using k len tk by (simp add: take_Suc_conv_app_nth)
  have "lns b' ! k \<in> set (drop k (lns b))" using drop sets by (metis list.set_intros(1))
  then have so: "sorted (take (Suc k) (lns b'))"
    unfolding tSuc using Suc.prems(3,4) by (simp add: sorted_append)
  have mn: "lns b' ! k \<le> y" if "y \<in> set (drop (Suc k) (lns b'))" for y
    using that min by (auto simp: in_set_conv_nth)
  have "\<forall>x \<in> set (take (Suc k) (lns b')). \<forall>y \<in> set (drop (Suc k) (lns b')). x \<le> y"
    unfolding tSuc using mn Suc.prems(4) sets drop by auto
  moreover have "\<forall>s \<in> set (lns b'). c_string s" using Suc.prems(2) ms by (metis set_mset_mset)
  ultimately have "\<exists>b''. sort_outer fl (int (Suc (Suc k))) b' = Some (Inr b'') \<and> mset (lns b'') = mset (lns b') \<and> sorted (lns b'')"
    using so k len Suc.hyps(2) by (intro Suc.hyps(1)) simp_all
  moreover have "sort_outer fl (int (Suc k)) b = sort_outer fl (int (Suc (Suc k))) b'"
    using k b' by (subst sort_outer.simps) (simp add: fl_laws(1) [OF L] add.commute)
  ultimately show ?case using ms by simp
qed

subsection \<open>Listing and writing back\<close>

definition shown :: "url_text \<Rightarrow> bool" where
  "shown e \<longleftrightarrow> ut_name e \<noteq> [] \<or> ut_uri e \<noteq> []"

text \<open>The entries a list window shows: those before the first empty one.\<close>

definition listed :: "url_text list \<Rightarrow> url_text list" where
  "listed m = takeWhile shown m"

text \<open>Entries whose name does not contain the separator byte.\<close>

definition separable :: "url_text \<Rightarrow> bool" where
  "separable e \<longleftrightarrow> sep \<notin> set (ut_name e)"

definition unline :: "string \<Rightarrow> url_text" where
  "unline l = (case strchr l sep of
     None \<Rightarrow> empty_entry | Some d \<Rightarrow> \<lparr>ut_name = take d l, ut_uri = drop (Suc d) l\<rparr>)"

lemma strchr_line_of: "separable e \<Longrightarrow> strchr (line_of e) sep = Some (length (ut_name e))"
  by (simp add: line_of_def separable_def)

lemma unline_line_of: "separable e \<Longrightarrow> unline (line_of e) = e"
  by (simp add: unline_def strchr_line_of) (simp add: line_of_def)

lemma copy_fields_line_of:
  "\<lbrakk>url_text_ok e; separable e\<rbrakk> \<Longrightarrow> copy_fields (line_of e) (length (ut_name e)) = Inr e"
  by (simp add: copy_fields_def line_of_def url_text_ok_def fits_def)

lemma split_line_line_of: "\<lbrakk>url_text_ok e; separable e\<rbrakk> \<Longrightarrow> split_line (line_of e) = Inr e"
  by (simp add: split_line_def strchr_line_of copy_fields_line_of)

lemma length_line_of: "url_text_ok e \<Longrightarrow> length (line_of e) < 2048"
  by (simp add: line_of_def url_text_ok_def fits_def)

lemma shown_iff: "shown e \<longleftrightarrow> 1 < length (line_of e)"
  by (auto simp: shown_def line_of_def)

lemma c_string_line_of: "url_text_ok e \<Longrightarrow> c_string (line_of e)"
  by (simp add: line_of_def url_text_ok_def fits_def sep_def)

lemma list_entries_ok:
  assumes L: "fl_browser_laws fl lns"
  shows "\<forall>e \<in> set es. url_text_ok e \<Longrightarrow>
    \<exists>b'. list_entries fl es b = Inr b' \<and> lns b' = lns b @ map line_of (listed es)"
proof (induction es arbitrary: b)
  case (Cons e es)
  show ?case
  proof (cases "shown e")
    case True
    then show ?thesis
      using Cons.IH [of "fl_add fl b (line_of e)"] Cons.prems length_line_of [of e]
      by (auto simp: listed_def shown_iff fl_laws(3) [OF L])
  next
    case False
    then show ?thesis using Cons.prems length_line_of [of e] by (simp add: listed_def shown_iff)
  qed
qed (simp add: listed_def)

lemma write_back_ok:
  assumes L: "fl_browser_laws fl lns" and w: "lns w = map line_of es"
    and es: "\<forall>e \<in> set es. url_text_ok e \<and> separable e"
  shows "i + n \<le> length m \<Longrightarrow>
    \<exists>m'. write_back fl w (Suc i) n m = Inr m' \<and> length m' = length m \<and>
      (\<forall>j < length m. m' ! j = (if i \<le> j \<and> j < i + n \<and> j < length es then es ! j else m ! j))"
proof (induction n arbitrary: i m)
  case (Suc n)
  let ?m = "if i < length es then m[i := es ! i] else m"
  have i: "i < length m" using Suc.prems by simp
  have step: "write_back fl w (Suc i) (Suc n) m = write_back fl w (Suc (Suc i)) n ?m"
  proof (cases "i < length es")
    case True
    let ?e = "es ! i"
    have e: "url_text_ok ?e" "separable ?e" using es True by simp_all
    then have "length (ut_name ?e) < 1024" "length (ut_uri ?e) < 1024"
      by (simp_all add: url_text_ok_def fits_def)
    moreover have "fl_text fl w (int (Suc i)) = Some (line_of ?e)"
      using True by (simp add: fl_laws(2) [OF L] w)
    ultimately show ?thesis
      using True i e by (simp add: strchr_line_of copy_fields_line_of url_text_copy)
  next
    case False
    then have "fl_text fl w (int (Suc i)) = None"
      by (simp add: fl_laws(2) [OF L] w)
    then show ?thesis using False by simp
  qed
  have "Suc i + n \<le> length ?m" using Suc.prems by simp
  from Suc.IH [OF this] obtain m' where
    m': "write_back fl w (Suc (Suc i)) n ?m = Inr m'" "length m' = length ?m"
    "\<forall>j < length ?m. m' ! j = (if Suc i \<le> j \<and> j < Suc i + n \<and> j < length es then es ! j else ?m ! j)"
    by blast
  have "m' ! j = (if i \<le> j \<and> j < i + Suc n \<and> j < length es then es ! j else m ! j)" if "j < length m" for j
    using m'(3) that i by (cases "j = i") (auto simp: nth_list_update)
  then show ?case using m'(1,2) step by auto
qed auto

lemma write_back_all:
  assumes L: "fl_browser_laws fl lns" and w: "lns w = map line_of es"
    and es: "\<forall>e \<in> set es. url_text_ok e \<and> separable e"
    and m: "length m = MAXBOOKMARKS" and len: "length es \<le> MAXBOOKMARKS"
  shows "write_back fl w 1 (MAXBOOKMARKS - 1) m
    = Inr (take (MAXBOOKMARKS - 1) es @ drop (min (MAXBOOKMARKS - 1) (length es)) m)"
proof -
  have "\<exists>m'. write_back fl w (Suc 0) (MAXBOOKMARKS - 1) m = Inr m' \<and> length m' = length m \<and>
      (\<forall>j < length m. m' ! j = (if 0 \<le> j \<and> j < 0 + (MAXBOOKMARKS - 1) \<and> j < length es then es ! j else m ! j))"
    by (rule write_back_ok [OF L w es]) (use m in \<open>simp add: table_sizes\<close>)
  then obtain m' where m': "write_back fl w (Suc 0) (MAXBOOKMARKS - 1) m = Inr m'" "length m' = length m"
    "\<forall>j < length m. m' ! j = (if j < MAXBOOKMARKS - 1 \<and> j < length es then es ! j else m ! j)" by auto
  have "m' = take (MAXBOOKMARKS - 1) es @ drop (min (MAXBOOKMARKS - 1) (length es)) m"
    using m'(2,3) m len by (intro nth_equalityI) (auto simp: nth_append min_def)
  then show ?thesis using m'(1) by simp
qed

lemma listed_ok:
  assumes "\<forall>e \<in> set m. url_text_ok e"
  shows "\<forall>e \<in> set (listed m). url_text_ok e" and "length (listed m) \<le> length m"
  using assms by (auto simp: listed_def length_takeWhile_le dest: set_takeWhileD)

lemma listed_replace:
  assumes "mset es = mset (listed m)"
  shows "listed (es @ drop (length es) m) = es" and "mset (es @ drop (length es) m) = mset m"
proof -
  have len: "length es = length (listed m)" using assms by (rule mset_eq_length)
  then have d: "drop (length es) m = dropWhile shown m"
    by (simp add: listed_def dropWhile_eq_drop)
  have "set es = set (listed m)" using assms by (metis set_mset_mset)
  then have "\<forall>e \<in> set es. shown e" by (auto simp: listed_def dest: set_takeWhileD)
  moreover have "takeWhile shown (dropWhile shown m) = []"
    by (induction m) auto
  ultimately show "listed (es @ drop (length es) m) = es"
    by (simp add: listed_def d takeWhile_append2)
  show "mset (es @ drop (length es) m) = mset m"
    using assms by (metis d listed_def mset_append takeWhile_dropWhile_id)
qed

lemma sorted_lines_are_entries:
  assumes "mset ls = mset (map line_of es)" and "\<forall>e \<in> set es. separable e"
  obtains es' where "ls = map line_of es'" and "mset es' = mset es"
proof -
  have "set ls = set (map line_of es)" using assms(1) by (metis set_mset_mset)
  then have "\<forall>l \<in> set ls. line_of (unline l) = l"
    using assms(2) by (auto simp: unline_line_of)
  then have "ls = map line_of (map unline ls)" by (simp add: map_idI)
  moreover have "mset (map unline ls) = image_mset (\<lambda>e. unline (line_of e)) (mset es)"
    using assms(1) by (simp add: multiset.map_comp comp_def)
  moreover have "\<dots> = image_mset (\<lambda>e. e) (mset es)"
    by (rule image_mset_cong) (use assms(2) in \<open>simp add: unline_line_of\<close>)
  ultimately show thesis by (intro that [of "map unline ls"]) simp_all
qed

text \<open>C5: sorting the bookmarks window always terminates and, as long as the table is not
  completely full and no name contains the separator byte, it leaves the window's lines in
  ascending byte order, showing exactly the entries of the table, while the table keeps exactly
  the bookmarks it had.  The window is the one that the bookmark menu opens.\<close>
theorem sort_bookmarks_sorts:
  assumes L: "fl_browser_laws fl lns" and ok: "gui_ok g"
    and w0: "lns w0 = []" and w: "cb_bookmarks fl w0 g = Inr w"
    and sepa: "\<forall>e \<in> set (listed (bookmarks g)). separable e"
    and room: "length (listed (bookmarks g)) < MAXBOOKMARKS"
  shows "\<exists>w' g'. cb_sort_bookmark fl w g = Some (Inr (w', g')) \<and> gui_ok g' \<and>
    lns w' = map line_of (listed (bookmarks g')) \<and> sorted (lns w') \<and>
    mset (bookmarks g') = mset (bookmarks g)"
proof -
  let ?m = "bookmarks g"
  have m: "length ?m = MAXBOOKMARKS" and okm: "\<forall>e \<in> set ?m. url_text_ok e"
    using ok by (simp_all add: gui_ok_def tables_ok_def)
  have "\<exists>b'. list_entries fl ?m w0 = Inr b' \<and> lns b' = lns w0 @ map line_of (listed ?m)"
    by (rule list_entries_ok [OF L okm])
  then have lw: "lns w = map line_of (listed ?m)" using w w0 by (simp add: cb_bookmarks_def)
  have okl: "\<forall>e \<in> set (listed ?m). url_text_ok e" by (rule listed_ok [OF okm])
  then have "\<forall>s \<in> set (lns w). c_string s" by (auto simp: lw c_string_line_of)
  then have "\<exists>w'. sort_outer fl (int (Suc 0)) w = Some (Inr w') \<and> mset (lns w') = mset (lns w) \<and> sorted (lns w')"
    by (intro sort_outer_spec [OF L]) simp_all
  then obtain w' where so: "sort_outer fl 1 w = Some (Inr w')" and ms: "mset (lns w') = mset (lns w)"
    and st: "sorted (lns w')" by auto
  obtain es where es: "lns w' = map line_of es" "mset es = mset (listed ?m)"
    by (rule sorted_lines_are_entries [OF ms [unfolded lw] sepa])
  have "set es = set (listed ?m)" using es(2) by (metis set_mset_mset)
  then have okes: "\<forall>e \<in> set es. url_text_ok e \<and> separable e" using okl sepa by simp
  have len: "length es < MAXBOOKMARKS" using es(2) room by (metis mset_eq_length)
  let ?m' = "es @ drop (length es) ?m"
  have "write_back fl w' 1 (MAXBOOKMARKS - 1) ?m = Inr ?m'"
    using write_back_all [OF L es(1) okes m] len by (simp add: min_absorb2)
  then have run: "cb_sort_bookmark fl w g = Some (Inr (w', g\<lparr>bookmarks := ?m'\<rparr>))"
    using so by (simp add: cb_sort_bookmark_def)
  have "set ?m' = set ?m" using listed_replace(2) [OF es(2)] by (metis set_mset_mset)
  then have "gui_ok (g\<lparr>bookmarks := ?m'\<rparr>)"
    using okm m len by (intro gui_ok_bookmarks [OF ok]) simp_all
  then show ?thesis
    using run st es(1) listed_replace [OF es(2)]
    by (intro exI [of _ w'] exI [of _ "g\<lparr>bookmarks := ?m'\<rparr>"]) simp
qed

text \<open>A full bookmark table loses a bookmark when it is sorted: only 511 lines are written
  back, so the last slot of the table keeps its old entry whatever the sorted window shows there.\<close>
lemma sort_of_full_table_keeps_last_slot:
  assumes L: "fl_browser_laws fl lns" and m: "length (bookmarks g) = MAXBOOKMARKS"
    and w: "sort_outer fl 1 w = Some (Inr w')" and lw: "lns w' = map line_of es"
    and es: "\<forall>e \<in> set es. url_text_ok e \<and> separable e" and full: "length es = MAXBOOKMARKS"
  shows "\<exists>g'. cb_sort_bookmark fl w g = Some (Inr (w', g')) \<and>
    bookmarks g' = butlast es @ [last (bookmarks g)]"
proof -
  have "length (butlast es) = MAXBOOKMARKS - 1" using full by simp
  moreover have "bookmarks g \<noteq> []" using m by (auto simp: table_sizes)
  then have "drop (MAXBOOKMARKS - 1) (bookmarks g) = [last (bookmarks g)]"
    using drop_length_minus_one [of "bookmarks g"] m by simp
  ultimately have "write_back fl w' 1 (MAXBOOKMARKS - 1) (bookmarks g) = Inr (butlast es @ [last (bookmarks g)])"
    using write_back_all [OF L lw es m] full by (simp add: butlast_conv_take min_def)
  then show ?thesis using w by (simp add: cb_sort_bookmark_def)
qed

subsection \<open>Properties of the tables\<close>


lemma no_repeat_GUI: "no_repeat (URL started_gui)"
  by (simp add: no_repeat_def started_gui_def GUI_def empty_entry_def)


text \<open>A page whose title has 1024 bytes or more overflows the buffer \<open>currenttitle\<close>
  of its tab.  The title is chosen by the page.\<close>
theorem long_title_overflows:
  assumes "gui_ok g" and "1024 \<le> length (c_str title)"
  shows "shell_didReceiveTitleForFrame title active g = Inl BufferOverflow"
proof -
  have "gui_ok (g\<lparr>win_label := c_str title\<rparr>)" using assms(1) by simp
  then obtain b where "cur_browser (g\<lparr>win_label := c_str title\<rparr>) = Inr b" by (rule cur_browser_ok)
  then show ?thesis using assms(2) by (simp add: shell_didReceiveTitleForFrame_def Let_def)
qed

theorem long_title_overflows_witness:
  "shell_didReceiveTitleForFrame (replicate 2000 CHR ''t'') [] started_gui = Inl BufferOverflow"
  by (rule long_title_overflows) (simp_all add: c_str_def)

text \<open>C9: deleting a bookmark is undefined behaviour whatever line is selected, or none: after a
  valid selection the entries behind it move up by one as intended, but then not the last slot of
  the table is cleared but the slot behind it, which does not exist, and the last bookmark stays
  twice in the table; with no selection the entry before the table is overwritten.\<close>
theorem delete_bookmark_writes_out_of_bounds:
  assumes ok: "gui_ok g" and v: "0 \<le> fl_value fl w" "fl_value fl w \<le> int MAXBOOKMARKS"
  shows "cb_delete_bookmark fl w g = Inl OutOfBounds \<and>
    (fl_value fl w \<noteq> 0 \<longrightarrow>
      push_up (bookmarks g) (fl_value fl w - 1) (nat (int MAXBOOKMARKS - 1 - (fl_value fl w - 1)))
        = Inr (vec_remove (nat (fl_value fl w - 1)) (bookmarks g) @ [last (bookmarks g)]))"
proof -
  let ?m = "bookmarks g"
  have m: "length ?m = 512" and okm: "\<forall>e \<in> set ?m. url_text_ok e"
    using ok by (simp_all add: gui_ok_def tables_ok_def table_sizes)
  show ?thesis
  proof (cases "fl_value fl w = 0")
    case True
    have "push_up ?m (- 1) (Suc 511) = Inl OutOfBounds"
      using m by (simp only: push_up.simps copy_entry_def) (simp add: put_name_def url_text_ok_def)
    moreover have "nat (int MAXBOOKMARKS - 1 - (- 1)) = Suc 511" by (simp add: table_sizes)
    ultimately show ?thesis
      using True by (simp only: cb_delete_bookmark_def Let_def) simp
  next
    case False
    define i where "i = nat (fl_value fl w - 1)"
    have i: "fl_value fl w - 1 = int i" "i < 512" using v False by (simp_all add: i_def table_sizes)
    have n: "nat (int MAXBOOKMARKS - 1 - (fl_value fl w - 1)) = 511 - i"
      using i by (simp add: table_sizes)
    have "?m \<noteq> []" using m by auto
    then have "drop 511 ?m = [last ?m]" using drop_length_minus_one [of ?m] m by simp
    moreover have "push_up ?m (int i) (511 - i)
        = Inr (take i ?m @ take (511 - i) (drop (Suc i) ?m) @ drop (i + (511 - i)) ?m)"
      by (rule push_up_eq) (use m okm i in simp_all)
    ultimately have pu: "push_up ?m (int i) (511 - i) = Inr (vec_remove i ?m @ [last ?m])"
      using m i(2) by (simp add: vec_remove_def)
    have "length (vec_remove i ?m @ [last ?m]) = 512" using m i by simp
    then have "put_name (vec_remove i ?m @ [last ?m]) (int MAXBOOKMARKS) [] = Inl OutOfBounds"
      by (simp add: put_name_def table_sizes)
    then show ?thesis using pu n i(1) by (simp add: cb_delete_bookmark_def)
  qed
qed

theorem delete_bookmark_writes_out_of_bounds_witness:
  "cb_delete_bookmark list_browser ([''x''], 1) started_gui = Inl OutOfBounds"
  using delete_bookmark_writes_out_of_bounds [of started_gui list_browser "([''x''], 1)"]
  by (simp add: list_browser_def table_sizes)

text \<open>A table with two bookmarks in the wrong order, and its window.\<close>

definition two_bookmarks :: gui where
  "two_bookmarks = started_gui\<lparr>bookmarks :=
     \<lparr>ut_name = ''b'', ut_uri = ''u''\<rparr> # \<lparr>ut_name = ''a'', ut_uri = ''v''\<rparr> # empty_entry # replicate 509 empty_entry\<rparr>"

lemma gui_ok_two_bookmarks: "gui_ok two_bookmarks"
  unfolding two_bookmarks_def
  by (rule gui_ok_bookmarks) (auto simp: table_sizes url_text_ok_def empty_entry_def fits_def)

lemma listed_two_bookmarks:
  "listed (bookmarks two_bookmarks) = [\<lparr>ut_name = ''b'', ut_uri = ''u''\<rparr>, \<lparr>ut_name = ''a'', ut_uri = ''v''\<rparr>]"
  by (simp add: listed_def two_bookmarks_def shown_def empty_entry_def)

theorem sort_bookmarks_sorts_witness:
  "\<exists>w' g'. cb_sort_bookmark list_browser ([line_of \<lparr>ut_name = ''b'', ut_uri = ''u''\<rparr>,
         line_of \<lparr>ut_name = ''a'', ut_uri = ''v''\<rparr>], 0) two_bookmarks = Some (Inr (w', g')) \<and>
    sorted (fst w') \<and> mset (bookmarks g') = mset (bookmarks two_bookmarks)"
proof -
  have "cb_bookmarks list_browser ([], 0) two_bookmarks
    = Inr ([line_of \<lparr>ut_name = ''b'', ut_uri = ''u''\<rparr>, line_of \<lparr>ut_name = ''a'', ut_uri = ''v''\<rparr>], 0)"
    by (simp add: cb_bookmarks_def two_bookmarks_def list_browser_def line_of_def empty_entry_def)
  from sort_bookmarks_sorts [OF list_browser_laws gui_ok_two_bookmarks _ this]
  show ?thesis by (simp add: listed_two_bookmarks separable_def sep_def table_sizes) blast
qed

text \<open>Bookmarking a link from the context menu puts a new entry in front of the table and
  drops the oldest; the entry is the link's title and URI exactly when the URI contains no comma.
  A URI with a comma is cut there, and the rest of it becomes part of the name.\<close>
theorem link_bookmark_exact_iff_no_comma:
  assumes ok: "gui_ok g" and cs: "c_string uri" "c_string title"
    and len: "length uri + length title < 1023"
  shows "\<exists>g' e. add_link_bookmark uri title g = Inr g' \<and> gui_ok g' \<and>
    bookmarks g' = e # butlast (bookmarks g) \<and>
    (e = \<lparr>ut_name = title, ut_uri = uri\<rparr> \<longleftrightarrow> CHR '','' \<notin> set uri)"
proof -
  let ?m = "bookmarks g"
  define tu where "tu = uri @ '','' @ title"
  have m: "length ?m = 512" and okm: "\<forall>e \<in> set ?m. url_text_ok e"
    using ok by (simp_all add: gui_ok_def tables_ok_def table_sizes)
  then have ne: "?m \<noteq> []" by auto
  have "push_down ?m 511 = Inr (?m ! 0 # take 511 ?m @ drop (Suc 511) ?m)"
    by (rule push_down_eq) (use m okm in simp_all)
  then have pd: "push_down ?m (MAXBOOKMARKS - 1) = Inr (hd ?m # butlast ?m)"
    using m ne by (simp add: table_sizes butlast_conv_take hd_conv_nth)
  obtain d where d: "strchr tu CHR '','' = Some d" by (auto simp: strchr_def tu_def)
  have ltu: "length tu < 1024" using len by (simp add: tu_def)
  have dl: "d < length tu" and nd: "CHR '','' \<notin> set (take d tu)" using strchr_SomeD [OF d] by simp_all
  let ?e = "\<lparr>ut_name = drop (Suc d) tu, ut_uri = take d tu\<rparr>"
  let ?g = "g\<lparr>bookmarks := ?e # butlast ?m\<rparr>"
  have ctx: "context_menu_title_url uri title = Inr tu"
    using len cs by (simp add: context_menu_title_url_def tu_def)
  have sn: "snprintf 1024 (d + 1) tu = Inr (take d tu)" using dl ltu by (subst snprintf_fits) simp_all
  have l: "length (take d tu) < 1024" "length (drop (Suc d) tu) < 1024" using dl ltu by simp_all
  have "(hd ?m)\<lparr>ut_uri := take d tu, ut_name := drop (Suc d) tu\<rparr> = ?e" by simp
  then have "cb_add_bookmark (Some tu) [] [] g = Inr ?g"
    using pd d sn l by (simp add: cb_add_bookmark_def)
  then have run: "add_link_bookmark uri title g = Inr ?g" using ctx by (simp add: add_link_bookmark_def)
  have "c_string tu" using cs by (simp add: tu_def)
  then have "c_string (take d tu)" "c_string (drop (Suc d) tu)"
    by (auto simp: c_string_def dest: in_set_takeD in_set_dropD)
  then have "url_text_ok ?e" using l by (simp add: url_text_ok_def fits_def)
  then have okg: "gui_ok ?g"
    using okm m by (intro gui_ok_bookmarks [OF ok]) (auto simp: table_sizes dest: in_set_butlastD)
  have iff: "?e = \<lparr>ut_name = title, ut_uri = uri\<rparr> \<longleftrightarrow> CHR '','' \<notin> set uri"
  proof
    assume "?e = \<lparr>ut_name = title, ut_uri = uri\<rparr>"
    then have "take d tu = uri" by simp
    then show "CHR '','' \<notin> set uri" using nd by simp
  next
    assume "CHR '','' \<notin> set uri"
    then have "strchr (uri @ CHR '','' # title) CHR '','' = Some (length uri)" by (rule strchr_append)
    then have "d = length uri" using d by (simp add: tu_def)
    then show "?e = \<lparr>ut_name = title, ut_uri = uri\<rparr>" by (simp add: tu_def)
  qed
  show ?thesis
    by (intro exI [of _ ?g] exI [of _ ?e] conjI) (use run okg iff in simp_all)
qed

theorem link_bookmark_exact_iff_no_comma_witness:
  "\<exists>g' e. add_link_bookmark ''http://a/?x=1,2'' ''T'' started_gui = Inr g' \<and> gui_ok g' \<and>
    bookmarks g' = e # butlast (bookmarks started_gui) \<and> e \<noteq> \<lparr>ut_name = ''T'', ut_uri = ''http://a/?x=1,2''\<rparr>"
proof -
  have "\<exists>g' e. add_link_bookmark ''http://a/?x=1,2'' ''T'' started_gui = Inr g' \<and> gui_ok g' \<and>
    bookmarks g' = e # butlast (bookmarks started_gui) \<and>
    (e = \<lparr>ut_name = ''T'', ut_uri = ''http://a/?x=1,2''\<rparr> \<longleftrightarrow> CHR '','' \<notin> set ''http://a/?x=1,2'')"
    by (rule link_bookmark_exact_iff_no_comma) simp_all
  then show ?thesis by simp
qed

lemma load_line_loads:
  assumes L: "fl_browser_laws fl lns" and ok: "gui_ok g"
    and w: "lns w = map line_of es" and es: "\<forall>e \<in> set es. url_text_ok e"
    and i: "fl_value fl w = int (Suc i)" "i < length es"
    and s: "separable (es ! i)" and u: "length (ut_uri (es ! i)) < 512"
  shows "\<exists>g'. load_line fl loading w g = Inr g' \<and> gui_ok g' \<and>
    wk_calls g' = wk_calls g @ [WKPageStopLoading (currenttab g), WKPageLoadURL (currenttab g)
      (if has_scheme (ut_uri (es ! i)) then ut_uri (es ! i) else ''http://'' @ ut_uri (es ! i))]"
proof -
  let ?e = "es ! i"
  let ?u = "if has_scheme (ut_uri ?e) then ut_uri ?e else ''http://'' @ ut_uri ?e"
  have tx: "fl_text fl w (int (Suc i)) = Some (line_of ?e)"
    using i by (simp add: fl_laws(2) [OF L] w)
  have sp: "split_line (line_of ?e) = Inr ?e"
    using es i s by (intro split_line_line_of) simp_all
  have cu: "checkurl 1024 (ut_uri ?e) = Inr ?u" using u by (simp add: checkurl_eq)
  obtain b where b: "cur_browser g = Inr b" by (rule cur_browser_ok [OF ok])
  let ?g = "call_wk (WKPageStopLoading (currenttab g)) (put_browser (b\<lparr>loc_value := ?u\<rparr>) g)"
  have "gui_ok ?g" using ok by simp
  then obtain b' gs where sl: "show_loading loading ?g = Inr ((put_browser b' ?g)\<lparr>BrowserGroup := gs\<rparr>)"
    "gui_ok ((put_browser b' ?g)\<lparr>BrowserGroup := gs\<rparr>)" by (rule show_loading_ok)
  have "load_line fl loading w g = Inr (loadURL (Some ?u) ((put_browser b' ?g)\<lparr>BrowserGroup := gs\<rparr>))"
    unfolding load_line_def using i tx sp cu b sl u by (simp add: Let_def)
  then show ?thesis using sl(2) by (simp add: loadURL_def)
qed

text \<open>Choosing line \<open>i\<close> of the history window loads the URL of the \<open>i\<close>-th history entry
  (with \<open>http://\<close> in front when it has no accepted scheme) in the current tab, after stopping
  the load in progress, provided the entry's name is free of the separator byte and its URL is
  shorter than 512 bytes.\<close>
theorem history_window_loads_entry:
  assumes L: "fl_browser_laws fl lns" and ok: "gui_ok g"
    and w0: "lns w0 = []" and w: "cb_history fl w0 g = Inr w" and sel: "lns w' = lns w"
    and i: "fl_value fl w' = int (Suc i)" "i < length (listed (URL g))"
    and s: "separable (URL g ! i)" and u: "length (ut_uri (URL g ! i)) < 512"
  shows "\<exists>g'. HistoryCallback fl loading w' g = Inr g' \<and> gui_ok g' \<and>
    wk_calls g' = wk_calls g @ [WKPageStopLoading (currenttab g), WKPageLoadURL (currenttab g)
      (if has_scheme (ut_uri (URL g ! i)) then ut_uri (URL g ! i) else ''http://'' @ ut_uri (URL g ! i))]"
proof -
  have okh: "\<forall>e \<in> set (URL g). url_text_ok e" using ok by (simp add: gui_ok_def tables_ok_def)
  have "\<exists>b'. list_entries fl (URL g) w0 = Inr b' \<and> lns b' = lns w0 @ map line_of (listed (URL g))"
    by (rule list_entries_ok [OF L okh])
  then have lw: "lns w' = map line_of (listed (URL g))" using w w0 sel by (simp add: cb_history_def)
  have nth: "listed (URL g) ! i = URL g ! i" using i(2) by (simp add: listed_def takeWhile_nth)
  show ?thesis
    unfolding HistoryCallback_def
    by (rule load_line_loads [OF L ok lw listed_ok(1) [OF okh] i, unfolded nth, OF s u])
qed

theorem history_window_loads_entry_witness:
  "\<exists>g'. HistoryCallback list_browser ''Loading'' ([line_of \<lparr>ut_name = ''A'', ut_uri = ''a.org''\<rparr>], 1)
       (started_gui\<lparr>URL := \<lparr>ut_name = ''A'', ut_uri = ''a.org''\<rparr> # replicate 99 empty_entry\<rparr>) = Inr g' \<and>
    wk_calls g' = [WKPageStopLoading 0, WKPageLoadURL 0 ''http://a.org'']"
proof -
  let ?e = "\<lparr>ut_name = ''A'', ut_uri = ''a.org''\<rparr>"
  let ?g = "started_gui\<lparr>URL := ?e # replicate 99 empty_entry\<rparr>"
  have ok: "gui_ok ?g"
    by (rule gui_ok_URL) (auto simp: table_sizes url_text_ok_def fits_def empty_entry_def)
  have "replicate 99 empty_entry = empty_entry # replicate 98 empty_entry" by (simp add: numeral_eq_Suc)
  then have w: "cb_history list_browser ([], 0) ?g = Inr ([line_of ?e], 0)"
    by (simp add: cb_history_def list_browser_def line_of_def empty_entry_def)
  have "\<not> has_scheme ''a.org''"
    by (simp add: has_scheme_def accepted_schemes_def has_prefix_def strncmp_def)
  moreover have "wk_calls started_gui = []" by (simp add: started_gui_def GUI_def)
  ultimately show ?thesis
    using history_window_loads_entry [OF list_browser_laws ok _ w, of "([line_of ?e], 1)" 0 "''Loading''"]
      cur_browser_started(2)
    by (simp add: list_browser_def listed_def shown_def separable_def sep_def) blast
qed

end
