(* ===== verification/NetRider_Prefs.thy ===== *)
theory NetRider_Prefs
  imports NetRider_State
begin

text \<open>
  Saving and restoring the settings of the NetRider shell (\<^verbatim>\<open>writePrefs\<close> and
  \<^verbatim>\<open>readPrefs\<close>).  The store is FLTK's \<^verbatim>\<open>Fl_Preferences\<close>, which is not part
  of the repository: its operations are an argument of the model, and \<open>fl_prefs_laws\<close> states what
  its documentation promises.
\<close>

text \<open>
  \<^verbatim>\<open>set(key, text)\<close>, \<^verbatim>\<open>get(key, char*&, default)\<close>,
  \<^verbatim>\<open>get(key, int&, default)\<close> and \<^verbatim>\<open>get(key, char*, default, maxSize)\<close>
  on a group of the store.
\<close>

record 'p fl_prefs =
  pf_set :: "'p \<Rightarrow> string \<Rightarrow> string \<Rightarrow> string \<Rightarrow> 'p"
  pf_text :: "'p \<Rightarrow> string \<Rightarrow> string \<Rightarrow> string \<Rightarrow> string"
  pf_int :: "'p \<Rightarrow> string \<Rightarrow> string \<Rightarrow> int \<Rightarrow> int"
  pf_chars :: "'p \<Rightarrow> string \<Rightarrow> string \<Rightarrow> string \<Rightarrow> nat \<Rightarrow> string"

definition fl_prefs_laws :: "'p fl_prefs \<Rightarrow> ('p \<Rightarrow> string \<times> string \<Rightarrow> string option) \<Rightarrow> bool" where
  "fl_prefs_laws pf st \<longleftrightarrow>
     (\<forall>p grp k v. st (pf_set pf p grp k v) = (st p)((grp, k) \<mapsto> v)) \<and>
     (\<forall>p grp k d. pf_text pf p grp k d = (case st p (grp, k) of None \<Rightarrow> d | Some v \<Rightarrow> v)) \<and>
     (\<forall>p grp k d. pf_int pf p grp k d = (case st p (grp, k) of None \<Rightarrow> d | Some v \<Rightarrow> atoi v)) \<and>
     (\<forall>p grp k d n. length (case st p (grp, k) of None \<Rightarrow> d | Some v \<Rightarrow> v) < n \<longrightarrow>
        pf_chars pf p grp k d n = (case st p (grp, k) of None \<Rightarrow> d | Some v \<Rightarrow> v))"

text \<open>A map from groups and keys to texts, as an instance of the store.\<close>

definition map_prefs :: "(string \<times> string \<Rightarrow> string option) fl_prefs" where
  "map_prefs = \<lparr>
     pf_set = (\<lambda>m grp k v. m((grp, k) \<mapsto> v)),
     pf_text = (\<lambda>m grp k d. case m (grp, k) of None \<Rightarrow> d | Some v \<Rightarrow> v),
     pf_int = (\<lambda>m grp k d. case m (grp, k) of None \<Rightarrow> d | Some v \<Rightarrow> atoi v),
     pf_chars = (\<lambda>m grp k d n. take (n - 1) (case m (grp, k) of None \<Rightarrow> d | Some v \<Rightarrow> v))\<rparr>"

lemma map_prefs_laws: "fl_prefs_laws map_prefs (\<lambda>m. m)"
  by (simp add: fl_prefs_laws_def map_prefs_def split: option.split)

subsection \<open>Writing\<close>

text \<open>The two \<^verbatim>\<open>set\<close> calls for entry \<open>j\<close>, under the keys \<open>2j\<close> and \<open>2j + 1\<close>.\<close>

definition write_entry :: "'p fl_prefs \<Rightarrow> string \<Rightarrow> nat \<Rightarrow> url_text \<Rightarrow> 'p \<Rightarrow> 'p" where
  "write_entry pf grp j e p =
     pf_set pf (pf_set pf p grp (dec_nat (2 * j)) (ut_name e)) grp (dec_nat (2 * j + 1)) (ut_uri e)"

text \<open>\<^verbatim>\<open>for (n=0;n<MAXHISTORY;n++) if (URL[n].uri[0]=='\0') break;\<close>\<close>

fun count_entries :: "url_text list \<Rightarrow> nat" where
  "count_entries [] = 0"
| "count_entries (e # es) = (if ut_uri e = [] then 0 else Suc (count_entries es))"

text \<open>\<^verbatim>\<open>while (j < n)\<close>, with \<open>n\<close> rounds to go.\<close>

fun write_history :: "'p fl_prefs \<Rightarrow> url_text list \<Rightarrow> nat \<Rightarrow> nat \<Rightarrow> 'p \<Rightarrow> 'p cres" where
  "write_history pf tbl j 0 p = Inr p"
| "write_history pf tbl j (Suc n) p =
     bindc (arr_at tbl (int j)) (\<lambda>e. write_history pf tbl (Suc j) n (write_entry pf ''history'' j e p))"

text \<open>\<^verbatim>\<open>while (bookmarks[j].uri[0] != '\0')\<close>: the index is not compared with the size of the table.\<close>

function write_bookmarks :: "'p fl_prefs \<Rightarrow> url_text list \<Rightarrow> nat \<Rightarrow> 'p \<Rightarrow> (nat \<times> 'p) cres" where
  "write_bookmarks pf tbl j p =
     (case arr_at tbl (int j) of
        Inl e \<Rightarrow> Inl e
      | Inr e \<Rightarrow> if ut_uri e = [] then Inr (j, p)
               else write_bookmarks pf tbl (Suc j) (write_entry pf ''bookmarks'' j e p))"
  by pat_completeness auto
termination
  by (relation "measure (\<lambda>(pf, tbl, j, p). length tbl - j)") (auto simp: arr_at_def split: if_splits)

declare write_bookmarks.simps [simp del]

definition writePrefs :: "'p fl_prefs \<Rightarrow> gui \<Rightarrow> 'p \<Rightarrow> 'p cres" where
  "writePrefs pf g p =
     (if prefs_written g then Inr p
      else
        let p = pf_set pf p ''settings'' ''language'' (current_language g);
            p = pf_set pf p ''settings'' ''startpage'' (startpage g);
            n = count_entries (URL g) in
        bindc (sprintf 10 (dec_nat (n * 2))) (\<lambda>thecount.
        bindc (write_history pf (URL g) 0 n (pf_set pf p ''history'' ''historyitemcount'' thecount)) (\<lambda>p.
        bindc (write_bookmarks pf (bookmarks g) 0 p) (\<lambda>(j, p).
        bindc (sprintf 10 (dec_nat (2 * j))) (\<lambda>thecount.
        Inr (pf_set pf p ''bookmarks'' ''bookmarksitemcount'' thecount))))))"

subsection \<open>Reading\<close>

text \<open>\<^verbatim>\<open>for (i=0; i<n; i+=2)\<close> over a group, with entry \<open>j\<close> next and \<open>n\<close> rounds to go.\<close>

fun read_entries :: "'p fl_prefs \<Rightarrow> 'p \<Rightarrow> string \<Rightarrow> nat \<Rightarrow> nat \<Rightarrow> url_text list \<Rightarrow> url_text list cres" where
  "read_entries pf p grp j 0 tbl = Inr tbl"
| "read_entries pf p grp j (Suc n) tbl =
     bindc (sprintf 1024 (pf_text pf p grp (dec_nat (2 * j)) [])) (\<lambda>name.
     bindc (arr_at tbl (int j)) (\<lambda>e.
     bindc (sprintf 1024 (pf_text pf p grp (dec_nat (2 * j + 1)) [])) (\<lambda>uri.
     bindc (arr_put tbl (int j) \<lparr>ut_name = name, ut_uri = uri\<rparr>) (\<lambda>tbl.
     read_entries pf p grp (Suc j) n tbl))))"

definition readPrefs :: "'p fl_prefs \<Rightarrow> 'p \<Rightarrow> gui \<Rightarrow> gui cres" where
  "readPrefs pf p g =
     bindc (sprintf 1024 (pf_chars pf p ''settings'' ''language'' [] 128)) (\<lambda>buffer.
     bindc (sprintf 128 buffer) (\<lambda>lang.
     bindc (sprintf 1024 (pf_chars pf p ''settings'' ''startpage'' ''www.google.com'' 1023)) (\<lambda>buffer.
     let sp = (if length buffer = 0 then ''www.google.com'' else buffer) in
     bindc (sprintf 1024 sp) (\<lambda>sp.
     bindc (read_entries pf p ''history'' 0 (nat ((pf_int pf p ''history'' ''historyitemcount'' 0 + 1) div 2)) (URL g)) (\<lambda>h.
     bindc (read_entries pf p ''bookmarks'' 0 (nat ((pf_int pf p ''bookmarks'' ''bookmarksitemcount'' 0 + 1) div 2)) (bookmarks g)) (\<lambda>m.
     Inr (g\<lparr>current_language := lang, startpage := sp, URL := h, bookmarks := m\<rparr>)))))))"

subsection \<open>The entries that survive\<close>

text \<open>The entries before the first one without a URI.\<close>

definition saved :: "url_text list \<Rightarrow> url_text list" where
  "saved tbl = takeWhile (\<lambda>e. ut_uri e \<noteq> []) tbl"

lemma count_entries_saved: "count_entries tbl = length (saved tbl)"
  by (induction tbl) (simp_all add: saved_def)

lemma saved_nth: "j < length (saved tbl) \<Longrightarrow> saved tbl ! j = tbl ! j"
  by (simp add: saved_def takeWhile_nth)

lemma length_saved: "length (saved tbl) \<le> length tbl"
  by (simp add: saved_def length_takeWhile_le)

lemma saved_stop: "length (saved tbl) < length tbl \<Longrightarrow> ut_uri (tbl ! length (saved tbl)) = []"
  unfolding saved_def by (drule nth_length_takeWhile) simp

lemma saved_uri: "j < length (saved tbl) \<Longrightarrow> ut_uri (tbl ! j) \<noteq> []"
  unfolding saved_def using nth_mem [of j "takeWhile (\<lambda>e. ut_uri e \<noteq> []) tbl"]
  by (auto simp: takeWhile_nth dest: set_takeWhileD)

text \<open>The keys of the entries from \<open>j\<close> on that hold the table's texts.\<close>

definition holds :: "(string \<times> string \<Rightarrow> string option) \<Rightarrow> string \<Rightarrow> url_text list \<Rightarrow> nat \<Rightarrow> nat \<Rightarrow> bool" where
  "holds m grp tbl lo hi \<longleftrightarrow> (\<forall>j. lo \<le> j \<and> j < hi \<longrightarrow>
     m (grp, dec_nat (2 * j)) = Some (ut_name (tbl ! j)) \<and> m (grp, dec_nat (2 * j + 1)) = Some (ut_uri (tbl ! j)))"

lemma laws_pf:
  assumes "fl_prefs_laws pf st"
  shows "st (pf_set pf p grp k v) = (st p)((grp, k) \<mapsto> v)"
    and "pf_text pf p grp k d = (case st p (grp, k) of None \<Rightarrow> d | Some v \<Rightarrow> v)"
    and "pf_int pf p grp k i = (case st p (grp, k) of None \<Rightarrow> i | Some v \<Rightarrow> atoi v)"
    and "length (case st p (grp, k) of None \<Rightarrow> d | Some v \<Rightarrow> v) < n \<Longrightarrow>
      pf_chars pf p grp k d n = (case st p (grp, k) of None \<Rightarrow> d | Some v \<Rightarrow> v)"
  using assms unfolding fl_prefs_laws_def by blast+

lemma st_write_entry:
  assumes "fl_prefs_laws pf st"
  shows "st (write_entry pf grp j e p) =
    (st p)((grp, dec_nat (2 * j)) \<mapsto> ut_name e, (grp, dec_nat (2 * j + 1)) \<mapsto> ut_uri e)"
  by (simp add: write_entry_def laws_pf(1) [OF assms])

lemma twice_neq: "2 * j \<noteq> Suc (2 * i)" "Suc (2 * j) \<noteq> 2 * i" for i j :: nat
  by presburger+

text \<open>Keys that are not decimal numbers are not touched by the entry loops.\<close>

definition other_key :: "string \<Rightarrow> string \<times> string \<Rightarrow> bool" where
  "other_key grp k \<longleftrightarrow> fst k \<noteq> grp \<or> (\<forall>n. snd k \<noteq> dec_nat n)"

text \<open>Entries \<open>j\<close> to \<open>j + n - 1\<close> written one after the other: what both loops do while they are in range.\<close>

primrec write_from :: "'p fl_prefs \<Rightarrow> string \<Rightarrow> url_text list \<Rightarrow> nat \<Rightarrow> 'p \<Rightarrow> 'p" where
  "write_from pf grp tbl 0 p = p"
| "write_from pf grp tbl (Suc n) p = write_entry pf grp n (tbl ! n) (write_from pf grp tbl n p)"

lemma st_write_from:
  assumes L: "fl_prefs_laws pf st"
  shows "holds (st (write_from pf grp tbl n p)) grp tbl 0 n"
    and "other_key grp k \<Longrightarrow> st (write_from pf grp tbl n p) k = st p k"
proof (induction n)
  case 0
  show "holds (st (write_from pf grp tbl 0 p)) grp tbl 0 0" by (simp add: holds_def)
  show "other_key grp k \<Longrightarrow> st (write_from pf grp tbl 0 p) k = st p k" by simp
next
  case (Suc n)
  show "holds (st (write_from pf grp tbl (Suc n) p)) grp tbl 0 (Suc n)"
    using Suc.IH(1) by (auto simp: holds_def st_write_entry [OF L] less_Suc_eq twice_neq)
  show "other_key grp k \<Longrightarrow> st (write_from pf grp tbl (Suc n) p) k = st p k"
    using Suc.IH(2) by (auto simp: st_write_entry [OF L] other_key_def)
qed

lemma write_history_eq:
  "j + n \<le> length tbl \<Longrightarrow>
   write_history pf tbl j n (write_from pf ''history'' tbl j p) = Inr (write_from pf ''history'' tbl (j + n) p)"
proof (induction n arbitrary: j)
  case (Suc n)
  then show ?case using Suc.IH [of "Suc j"] by simp
qed simp

lemma write_bookmarks_eq:
  "\<lbrakk>length (saved tbl) < length tbl; j \<le> length (saved tbl)\<rbrakk> \<Longrightarrow>
   write_bookmarks pf tbl j (write_from pf ''bookmarks'' tbl j p)
     = Inr (length (saved tbl), write_from pf ''bookmarks'' tbl (length (saved tbl)) p)"
proof (induction "length (saved tbl) - j" arbitrary: j)
  case 0
  then have "j = length (saved tbl)" by simp
  then show ?case
    using 0 saved_stop [of tbl] by (simp add: write_bookmarks.simps [of pf tbl "length (saved tbl)"])
next
  case (Suc d)
  then have "j < length (saved tbl)" by simp
  then have "ut_uri (tbl ! j) \<noteq> []" "j < length tbl" "Suc j \<le> length (saved tbl)"
    using saved_uri [of j tbl] Suc.prems(1) by simp_all
  then show ?case
    using Suc.hyps(1) [of "Suc j"] Suc.hyps(2) Suc.prems(1) by (simp add: write_bookmarks.simps [of pf tbl j])
qed

lemma write_bookmarks_full:
  "\<lbrakk>length (saved tbl) = length tbl; j \<le> length tbl\<rbrakk> \<Longrightarrow> write_bookmarks pf tbl j p = Inl OutOfBounds"
proof (induction "length tbl - j" arbitrary: j p)
  case 0
  then show ?case by (simp add: write_bookmarks.simps [of pf tbl j])
next
  case (Suc d)
  then have "ut_uri (tbl ! j) \<noteq> []" "j < length tbl" using saved_uri [of j tbl] by simp_all
  then show ?case using Suc by (simp add: write_bookmarks.simps [of pf tbl j])
qed

lemma url_text_eta: "\<lparr>ut_name = ut_name e, ut_uri = ut_uri e\<rparr> = (e :: url_text)"
  by simp

lemma read_entries_eq:
  assumes L: "fl_prefs_laws pf st" and H: "holds (st p) grp src 0 k" and ok: "\<forall>e \<in> set src. url_text_ok e"
    and k: "k \<le> length src"
  shows "\<lbrakk>length tbl = length src; j + n = k; take j tbl = take j src\<rbrakk> \<Longrightarrow>
    read_entries pf p grp j n tbl = Inr (take k src @ drop k tbl)"
proof (induction n arbitrary: j tbl)
  case 0
  then show ?case using append_take_drop_id [of j tbl] by simp
next
  case (Suc n)
  have j: "j < k" "j < length src" "j < length tbl" using Suc.prems(1,2) k by simp_all
  let ?e = "src ! j"
  have "url_text_ok ?e" using ok j by simp
  then have len: "length (ut_name ?e) < 1024" "length (ut_uri ?e) < 1024"
    by (simp_all add: url_text_ok_def fits_def)
  have txt': "pf_text pf p grp (dec_nat (2 * j)) [] = ut_name ?e"
    "pf_text pf p grp (dec_nat (2 * j + 1)) [] = ut_uri ?e"
    using H j by (simp_all add: laws_pf(2) [OF L] holds_def)
  have "take (Suc j) (tbl[j := ?e]) = take (Suc j) src"
    using j Suc.prems(3) by (simp add: take_Suc_conv_app_nth)
  then have "read_entries pf p grp (Suc j) n (tbl[j := ?e]) = Inr (take k src @ drop k (tbl[j := ?e]))"
    using Suc.prems by (intro Suc.IH) simp_all
  then show ?case using len txt' j by (simp add: url_text_eta)
qed

lemma not_dec_nat: "\<not> is_digit c \<Longrightarrow> c # s \<noteq> dec_nat n" "\<not> is_digit c \<Longrightarrow> dec_nat n \<noteq> c # s"
  by (metis is_digit_dec_nat list.set_intros(1))+

lemma not_digit_letters: "\<not> is_digit CHR ''h''" "\<not> is_digit CHR ''b''" "\<not> is_digit CHR ''l''" "\<not> is_digit CHR ''s''"
  by (simp_all add: is_digit_def)

lemma holds_cong:
  "\<lbrakk>holds m grp tbl lo hi; \<And>n. m' (grp, dec_nat n) = m (grp, dec_nat n)\<rbrakk> \<Longrightarrow> holds m' grp tbl lo hi"
  by (simp add: holds_def)

lemma atoi_dec_nat: "atoi (dec_nat n) = int n"
  using atoi_dec_int [of "int n"] by (simp add: dec_int_def)

text \<open>The store after \<^verbatim>\<open>writePrefs\<close>.\<close>

lemma writePrefs_ok:
  assumes L: "fl_prefs_laws pf st" and ok: "tables_ok g" and np: "\<not> prefs_written g"
    and room: "length (saved (bookmarks g)) < MAXBOOKMARKS"
  obtains p' where "writePrefs pf g p = Inr p'"
    and "st p' (''settings'', ''language'') = Some (current_language g)"
    and "st p' (''settings'', ''startpage'') = Some (startpage g)"
    and "st p' (''history'', ''historyitemcount'') = Some (dec_nat (length (saved (URL g)) * 2))"
    and "st p' (''bookmarks'', ''bookmarksitemcount'') = Some (dec_nat (2 * length (saved (bookmarks g))))"
    and "holds (st p') ''history'' (URL g) 0 (length (saved (URL g)))"
    and "holds (st p') ''bookmarks'' (bookmarks g) 0 (length (saved (bookmarks g)))"
proof -
  let ?h = "URL g" and ?m = "bookmarks g"
  define n where "n = length (saved ?h)"
  define k where "k = length (saved ?m)"
  have len: "length ?h = 100" "length ?m = 512" using ok by (simp_all add: tables_ok_def table_sizes)
  have n: "n \<le> 100" and k: "k < 512" using len length_saved [of ?h] room by (simp_all add: n_def k_def table_sizes)
  define p2 where "p2 = pf_set pf (pf_set pf (pf_set pf p ''settings'' ''language'' (current_language g))
    ''settings'' ''startpage'' (startpage g)) ''history'' ''historyitemcount'' (dec_nat (n * 2))"
  define p3 where "p3 = write_from pf ''history'' ?h n p2"
  define p4 where "p4 = write_from pf ''bookmarks'' ?m k p3"
  define p5 where "p5 = pf_set pf p4 ''bookmarks'' ''bookmarksitemcount'' (dec_nat (2 * k))"
  have "length (dec_nat (n * 2)) < 10" "length (dec_nat (2 * k)) < 10"
    using length_dec_nat [of "n * 2" 9] length_dec_nat [of "2 * k" 9] n k by simp_all
  moreover have "write_history pf ?h 0 n p2 = Inr p3"
    using write_history_eq [of 0 n ?h pf p2] n len by (simp add: p3_def)
  moreover have "write_bookmarks pf ?m 0 p3 = Inr (k, p4)"
    using write_bookmarks_eq [of ?m 0 pf p3] k len by (simp add: p4_def k_def)
  moreover have "count_entries ?h = n" by (simp add: count_entries_saved n_def)
  ultimately have run: "writePrefs pf g p = Inr p5"
    using np by (simp add: writePrefs_def Let_def p2_def p5_def)
  have s5: "st p5 = (st p4)((''bookmarks'', ''bookmarksitemcount'') \<mapsto> dec_nat (2 * k))"
    by (simp add: p5_def laws_pf(1) [OF L])
  have s4: "st p4 q = st p3 q" if "other_key ''bookmarks'' q" for q
    unfolding p4_def by (rule st_write_from(2) [OF L that])
  have s3: "st p3 q = st p2 q" if "other_key ''history'' q" for q
    unfolding p3_def by (rule st_write_from(2) [OF L that])
  have s2: "st p2 = (st p)((''settings'', ''language'') \<mapsto> current_language g,
      (''settings'', ''startpage'') \<mapsto> startpage g, (''history'', ''historyitemcount'') \<mapsto> dec_nat (n * 2))"
    by (simp add: p2_def laws_pf(1) [OF L])
  have h3: "holds (st p3) ''history'' ?h 0 n" unfolding p3_def by (rule st_write_from(1) [OF L])
  have h4: "holds (st p4) ''bookmarks'' ?m 0 k" unfolding p4_def by (rule st_write_from(1) [OF L])
  have "holds (st p5) ''history'' ?h 0 n"
    by (rule holds_cong [OF h3]) (simp add: s5 s4 other_key_def)
  moreover have "holds (st p5) ''bookmarks'' ?m 0 k"
    by (rule holds_cong [OF h4]) (simp add: s5 not_dec_nat not_digit_letters)
  moreover have "st p5 (''settings'', ''language'') = Some (current_language g)"
    "st p5 (''settings'', ''startpage'') = Some (startpage g)"
    "st p5 (''history'', ''historyitemcount'') = Some (dec_nat (n * 2))"
    by (simp_all add: s5 s4 s3 s2 other_key_def not_dec_nat not_digit_letters)
  moreover have "st p5 (''bookmarks'', ''bookmarksitemcount'') = Some (dec_nat (2 * k))" by (simp add: s5)
  ultimately show thesis using run that unfolding n_def k_def by blast
qed

lemma saved_take: "take (length (saved tbl)) tbl = saved tbl"
  unfolding saved_def by (metis takeWhile_eq_take)

lemma ok_saved: "\<forall>e \<in> set tbl. url_text_ok e \<Longrightarrow> \<forall>e \<in> set (saved tbl). url_text_ok e"
  unfolding saved_def by (blast dest: set_takeWhileD)

text \<open>C6: restarting the browser restores its settings.  Writing the settings and reading them into
  a new window gives back the language, the start page, and from each table exactly the entries
  before the first one without a URI, in order, with the rest of the table empty; so a table
  without gaps comes back unchanged.  Writing never fails while the bookmark table has room for
  one more entry.\<close>
theorem preferences_round_trip:
  assumes L: "fl_prefs_laws pf st" and ok: "tables_ok g" and np: "\<not> prefs_written g"
    and room: "length (saved (bookmarks g)) < MAXBOOKMARKS"
    and lang: "length (current_language g) < 128" and sp: "length (startpage g) < 1023"
  shows "\<exists>p' g'. writePrefs pf g p = Inr p' \<and> readPrefs pf p' GUI = Inr g' \<and> tables_ok g' \<and>
    current_language g' = current_language g \<and>
    startpage g' = (if startpage g = [] then ''www.google.com'' else startpage g) \<and>
    URL g' = saved (URL g) @ replicate (MAXHISTORY - length (saved (URL g))) empty_entry \<and>
    bookmarks g' = saved (bookmarks g) @ replicate (MAXBOOKMARKS - length (saved (bookmarks g))) empty_entry"
proof -
  let ?h = "URL g" and ?m = "bookmarks g"
  let ?n = "length (saved ?h)" and ?k = "length (saved ?m)"
  obtain p' where w: "writePrefs pf g p = Inr p'"
    and lg: "st p' (''settings'', ''language'') = Some (current_language g)"
    and st: "st p' (''settings'', ''startpage'') = Some (startpage g)"
    and hc: "st p' (''history'', ''historyitemcount'') = Some (dec_nat (?n * 2))"
    and bc: "st p' (''bookmarks'', ''bookmarksitemcount'') = Some (dec_nat (2 * ?k))"
    and hh: "holds (st p') ''history'' ?h 0 ?n" and hm: "holds (st p') ''bookmarks'' ?m 0 ?k"
    by (rule writePrefs_ok [OF L ok np room])
  have len: "length ?h = MAXHISTORY" "length ?m = MAXBOOKMARKS"
    and okh: "\<forall>e \<in> set ?h. url_text_ok e" and okm: "\<forall>e \<in> set ?m. url_text_ok e"
    and oksp: "fits 1024 (startpage g)"
    using ok by (simp_all add: tables_ok_def)
  let ?h' = "saved ?h @ replicate (MAXHISTORY - ?n) empty_entry"
  let ?m' = "saved ?m @ replicate (MAXBOOKMARKS - ?k) empty_entry"
  have rh: "read_entries pf p' ''history'' 0 ?n (URL GUI) = Inr ?h'"
    using read_entries_eq [OF L hh okh length_saved, of "URL GUI" 0 ?n] len
    by (simp add: saved_take GUI_def)
  have rm: "read_entries pf p' ''bookmarks'' 0 ?k (bookmarks GUI) = Inr ?m'"
    using read_entries_eq [OF L hm okm length_saved, of "bookmarks GUI" 0 ?k] len
    by (simp add: saved_take GUI_def)
  have cnt: "nat ((pf_int pf p' ''history'' ''historyitemcount'' 0 + 1) div 2) = ?n"
    "nat ((pf_int pf p' ''bookmarks'' ''bookmarksitemcount'' 0 + 1) div 2) = ?k"
    by (simp_all add: laws_pf(3) [OF L] hc bc atoi_dec_nat)
  have chars: "pf_chars pf p' ''settings'' ''language'' [] 128 = current_language g"
    "pf_chars pf p' ''settings'' ''startpage'' ''www.google.com'' 1023 = startpage g"
    using lang sp laws_pf(4) [OF L, where p = p' and grp = "''settings''"] by (simp_all add: lg st)
  let ?sp = "if startpage g = [] then ''www.google.com'' else startpage g"
  let ?g = "GUI\<lparr>current_language := current_language g, startpage := ?sp, URL := ?h', bookmarks := ?m'\<rparr>"
  have r: "readPrefs pf p' GUI = Inr ?g"
    unfolding readPrefs_def cnt chars rh rm using lang sp by (simp add: Let_def)
  have "tables_ok ?g"
    using len length_saved [of ?h] length_saved [of ?m] ok_saved [OF okh] ok_saved [OF okm] oksp
    by (auto simp: tables_ok_def fits_def)
  then show ?thesis using w r by (intro exI [of _ p'] exI [of _ ?g]) simp
qed

theorem preferences_round_trip_witness:
  "\<exists>p' g'. writePrefs map_prefs (GUI\<lparr>bookmarks := \<lparr>ut_name = ''a'', ut_uri = ''u''\<rparr> # replicate 511 empty_entry\<rparr>) (\<lambda>_. None) = Inr p' \<and>
     readPrefs map_prefs p' GUI = Inr g' \<and> startpage g' = ''www.google.com'' \<and>
     bookmarks g' = \<lparr>ut_name = ''a'', ut_uri = ''u''\<rparr> # replicate 511 empty_entry"
proof -
  let ?e = "\<lparr>ut_name = ''a'', ut_uri = ''u''\<rparr>"
  let ?g = "GUI\<lparr>bookmarks := ?e # replicate 511 empty_entry\<rparr>"
  have t: "tables_ok ?g"
    using tables_ok_GUI by (auto simp: tables_ok_def table_sizes url_text_ok_def fits_def empty_entry_def)
  have "replicate 511 empty_entry = empty_entry # replicate 510 empty_entry" by (simp add: numeral_eq_Suc)
  then have sv: "saved (bookmarks ?g) = [?e]"
    by (simp add: saved_def empty_entry_def)
  have f: "\<not> prefs_written ?g" "current_language ?g = []" "startpage ?g = []" by (simp_all add: GUI_def)
  show ?thesis
    using preferences_round_trip [OF map_prefs_laws t f(1), where p = "\<lambda>_. None"] sv f(2,3)
    by (simp add: table_sizes) blast
qed

text \<open>With 512 bookmarks the loop that saves them does not stop at the end of the table: it reads
  entry 512, which does not exist, and the bookmarks are lost with the crash at exit.\<close>
theorem full_bookmarks_break_writePrefs:
  assumes "tables_ok g" and "\<not> prefs_written g" and "length (saved (bookmarks g)) = MAXBOOKMARKS"
  shows "writePrefs pf g p = Inl OutOfBounds"
proof -
  let ?n = "length (saved (URL g))"
  have len: "length (URL g) = 100" "length (bookmarks g) = MAXBOOKMARKS"
    using assms(1) by (simp_all add: tables_ok_def table_sizes)
  have n: "?n \<le> 100" using length_saved [of "URL g"] len by simp
  then have "length (dec_nat (?n * 2)) < 10" using length_dec_nat [of "?n * 2" 9] by simp
  moreover have "write_history pf (URL g) 0 ?n q = Inr (write_from pf ''history'' (URL g) ?n q)" for q
    using write_history_eq [of 0 ?n "URL g" pf q] n len by simp
  moreover have "write_bookmarks pf (bookmarks g) 0 q = Inl OutOfBounds" for q
    using assms(3) len by (intro write_bookmarks_full) simp_all
  ultimately show ?thesis
    using assms(2) by (simp add: writePrefs_def Let_def count_entries_saved)
qed

theorem full_bookmarks_break_writePrefs_witness:
  "writePrefs map_prefs (GUI\<lparr>bookmarks := replicate MAXBOOKMARKS \<lparr>ut_name = ''a'', ut_uri = ''u''\<rparr>\<rparr>) (\<lambda>_. None)
     = Inl OutOfBounds"
proof (rule full_bookmarks_break_writePrefs)
  let ?g = "GUI\<lparr>bookmarks := replicate MAXBOOKMARKS \<lparr>ut_name = ''a'', ut_uri = ''u''\<rparr>\<rparr>"
  show "tables_ok ?g" using tables_ok_GUI by (auto simp: tables_ok_def url_text_ok_def fits_def)
  show "\<not> prefs_written ?g" by (simp add: GUI_def)
  show "length (saved (bookmarks ?g)) = MAXBOOKMARKS" by (simp add: saved_def)
qed

end
