(* ===== verification/NetRider_Downloads.thy ===== *)
theory NetRider_Downloads
  imports NetRider_State
begin

text \<open>
  The download client of the NetRider shell: the callbacks from \<^verbatim>\<open>didStart\<close> to
  \<^verbatim>\<open>didCancel\<close>.  The byte counter of a tab is a C \<^verbatim>\<open>float\<close>; its
  values are integers, and \<open>float32\<close> is the rounding of a non-negative integer to single precision
  (24 bits, ties to even).  Every callback works on the tab that is current when it runs.
\<close>

subsection \<open>Single precision\<close>

text \<open>The number of low-order bits that do not fit into the 24 bits of the significand.\<close>

fun float_excess :: "nat \<Rightarrow> nat" where
  "float_excess n = (if n < 16777216 then 0 else Suc (float_excess (n div 2)))"

declare float_excess.simps [simp del]

definition float32 :: "nat \<Rightarrow> nat" where
  "float32 n =
     (let k = float_excess n; q = n div 2 ^ k; r = n mod 2 ^ k; h = 2 ^ k div 2 in
      if k = 0 then n
      else if r < h \<or> (r = h \<and> even q) then q * 2 ^ k else (q + 1) * 2 ^ k)"

lemma float32_exact: "n < 16777216 \<Longrightarrow> float32 n = n"
  by (simp add: float32_def float_excess.simps [of n])

lemma float32_stalls: "float32 16777216 = 16777216" "float32 16777217 = 16777216"
  by (simp_all add: float32_def float_excess.simps Let_def)

subsection \<open>The callbacks\<close>

definition didStart :: "nat \<Rightarrow> gui \<Rightarrow> gui cres" where
  "didStart download g =
     bindc (cur_browser g) (\<lambda>b.
     Inr (put_browser (b\<lparr>bytesdownloaded := 0, download_ref := Some download\<rparr>)
       (write_to_statusbar ''Starting file download'' g)))"

definition didReceiveResponse :: "gui \<Rightarrow> gui" where
  "didReceiveResponse g = write_to_statusbar ''Contacted server'' g"

text \<open>\<open>fmt\<close> is the conversion \<^verbatim>\<open>%'.0f\<close>, which groups digits as the locale says.\<close>

definition didReceiveData :: "(nat \<Rightarrow> string) \<Rightarrow> nat \<Rightarrow> gui \<Rightarrow> gui cres" where
  "didReceiveData fmt len g =
     bindc (cur_browser g) (\<lambda>b.
     let b = b\<lparr>bytesdownloaded := float32 (bytesdownloaded b + float32 len)\<rparr> in
     bindc (sprintf 1024 (''Downloading file: '' @ downloadfilename b @ ''   '' @ fmt (bytesdownloaded b) @ '' bytes''))
       (\<lambda>buf. Inr (write_to_statusbar buf (put_browser b g))))"

text \<open>The result is the file that is deleted first, the destination URL and the state.\<close>

definition decideDestinationWithSuggestedFilename ::
  "string \<Rightarrow> string \<Rightarrow> gui \<Rightarrow> (string \<times> string \<times> gui) cres" where
  "decideDestinationWithSuggestedFilename downloadsdir filename g =
     (let f = c_str filename in
      bindc (cur_browser g) (\<lambda>b.
      bindc (sprintf 1024 f) (\<lambda>name.
      bindc (sprintf 1024 (downloadsdir @ f)) (\<lambda>old.
      bindc (sprintf 1024 (''file://'' @ downloadsdir @ f)) (\<lambda>dest.
      Inr (old, dest, put_browser (b\<lparr>downloadfilename := name\<rparr>) g))))))"

text \<open>\<^verbatim>\<open>cb_open\<close> on a given path; \<open>chosen\<close> is the dialog's answer when no path is given.\<close>

definition cb_open :: "string option \<Rightarrow> string option \<Rightarrow> gui \<Rightarrow> gui cres" where
  "cb_open d chosen g =
     bindc (case d of
              Some p \<Rightarrow> bindc (sprintf 1024 p) (\<lambda>f. Inr (Some f))
            | None \<Rightarrow> Inr chosen) (\<lambda>f.
     case f of
       None \<Rightarrow> Inr g
     | Some f \<Rightarrow> bindc (sprintf 1024 (''file://'' @ f)) (\<lambda>u. Inr (loadURL (Some u) g)))"

text \<open>
  \<^verbatim>\<open>didFinish\<close>: \<open>confirmed\<close> is the answer to \<^emph>\<open>Do you want to run/open the file?\<close>;
  the first result is the command given to \<^verbatim>\<open>system()\<close>, if any.
\<close>

definition didFinish :: "(nat \<Rightarrow> string) \<Rightarrow> string \<Rightarrow> bool \<Rightarrow> gui \<Rightarrow> (string option \<times> gui) cres" where
  "didFinish fmt downloadsdir confirmed g =
     bindc (cur_browser g) (\<lambda>b.
     bindc (sprintf 1024 (''Download completed: '' @ downloadfilename b @ ''   '' @ fmt (bytesdownloaded b)
              @ '' bytes downloaded'')) (\<lambda>status.
     let g = write_to_statusbar status g in
     bindc (sprintf 1024 (downloadsdir @ downloadfilename b)) (\<lambda>buf.
     if \<not> confirmed then Inr (None, g)
     else if length buf < 5 then Inl OutOfBounds
     else if strncmp (drop (length buf - 5) buf) ''.html'' 5 = 0
     then bindc (cb_open (Some buf) None g) (\<lambda>g. Inr (None, g))
     else bindc (sprintf 1024 (''xdg-open '' @ buf)) (\<lambda>msg. Inr (Some msg, g)))))"

definition didFail :: "int \<Rightarrow> string \<Rightarrow> gui \<Rightarrow> gui cres" where
  "didFail errorcode errorString g =
     (let e = (if errorcode = 401 then ''Cannot write file to disk!'' else c_str errorString) in
      bindc (cur_browser g) (\<lambda>b.
      bindc (sprintf 1024 (''Failed to download file: '' @ downloadfilename b @ ''. Error code:''
               @ dec_int errorcode @ '', '' @ e))
        (\<lambda>buf. Inr (write_to_statusbar buf g))))"

definition didCancel :: "(nat \<Rightarrow> string) \<Rightarrow> gui \<Rightarrow> gui cres" where
  "didCancel fmt g =
     bindc (cur_browser g) (\<lambda>b.
     bindc (sprintf 1024 (''Downloading file: '' @ downloadfilename b @ '' canceled.   ''
              @ fmt (bytesdownloaded b) @ '' bytes downloaded''))
       (\<lambda>buf. Inr (write_to_statusbar buf g)))"

definition cb_stop_xfer :: "gui \<Rightarrow> gui cres" where
  "cb_stop_xfer g = bindc (cur_browser g) (\<lambda>b. Inr (call_wk (WKDownloadCancel (download_ref b)) g))"

text \<open>The data callbacks of one download, in order.\<close>

fun receive_chunks :: "(nat \<Rightarrow> string) \<Rightarrow> nat list \<Rightarrow> gui \<Rightarrow> gui cres" where
  "receive_chunks fmt [] g = Inr g"
| "receive_chunks fmt (n # ns) g = bindc (didReceiveData fmt n g) (receive_chunks fmt ns)"

subsection \<open>Properties\<close>

lemma didReceiveData_ok:
  assumes "gui_ok g" and "cur_browser g = Inr b" and "length (downloadfilename b) + length (fmt n) < 997"
    and n: "n = float32 (bytesdownloaded b + float32 len)"
  obtains g' where "didReceiveData fmt len g = Inr g'" and "gui_ok g'"
    and "cur_browser g' = Inr (b\<lparr>bytesdownloaded := n\<rparr>)"
proof -
  let ?b = "b\<lparr>bytesdownloaded := n\<rparr>"
  let ?m = "''Downloading file: '' @ downloadfilename b @ ''   '' @ fmt n @ '' bytes''"
  let ?g = "write_to_statusbar ?m (put_browser ?b g)"
  have "didReceiveData fmt len g = Inr ?g"
    using assms(2,3) by (simp add: didReceiveData_def Let_def n [symmetric])
  moreover have "gui_ok ?g" using assms(1) by simp
  moreover have "cur_browser ?g = Inr ?b"
    using cur_browser_put [OF assms(1), of ?b]
    by (simp add: cur_browser_def browser_at_def write_to_statusbar_def)
  ultimately show thesis by (rule that)
qed

lemma receive_chunks_exact:
  "\<lbrakk>gui_ok g; cur_browser g = Inr b; \<forall>n. length (downloadfilename b) + length (fmt n) < 997;
    bytesdownloaded b + sum_list ns < 16777216\<rbrakk> \<Longrightarrow>
   \<exists>g' b'. receive_chunks fmt ns g = Inr g' \<and> gui_ok g' \<and> cur_browser g' = Inr b' \<and>
     downloadfilename b' = downloadfilename b \<and> bytesdownloaded b' = bytesdownloaded b + sum_list ns"
proof (induction ns arbitrary: g b)
  case (Cons n ns)
  let ?t = "bytesdownloaded b + n"
  have t: "?t = float32 (bytesdownloaded b + float32 n)"
    using Cons.prems(4) by (simp add: float32_exact)
  have l: "length (downloadfilename b) + length (fmt ?t) < 997" using Cons.prems(3) by blast
  obtain g1 where g1: "didReceiveData fmt n g = Inr g1" "gui_ok g1" "cur_browser g1 = Inr (b\<lparr>bytesdownloaded := ?t\<rparr>)"
    by (rule didReceiveData_ok [where fmt = fmt and n = ?t, OF Cons.prems(1,2) l t])
  have "\<exists>g' b'. receive_chunks fmt ns g1 = Inr g' \<and> gui_ok g' \<and> cur_browser g' = Inr b' \<and>
     downloadfilename b' = downloadfilename (b\<lparr>bytesdownloaded := ?t\<rparr>) \<and>
     bytesdownloaded b' = bytesdownloaded (b\<lparr>bytesdownloaded := ?t\<rparr>) + sum_list ns"
    using Cons.prems(3,4) by (intro Cons.IH [OF g1(2,3)]) (simp_all add: add.assoc)
  then show ?case using g1(1) by (simp add: add.assoc)
qed simp

text \<open>The byte counter of a download is exact as long as less than 16 MiB have arrived, however
  the data is cut into chunks; once it has reached 16 MiB it does not count single bytes any more,
  because it is a single-precision number.\<close>
theorem download_counter:
  assumes ok: "gui_ok g" and b: "cur_browser g = Inr b"
    and fmt: "\<forall>n. length (downloadfilename b) + length (fmt n) < 997"
    and s: "didStart d g = Inr g0"
  shows "(sum_list ns < 16777216 \<longrightarrow>
      (\<exists>g' b'. receive_chunks fmt ns g0 = Inr g' \<and> cur_browser g' = Inr b' \<and> bytesdownloaded b' = sum_list ns)) \<and>
    (bytesdownloaded b = 16777216 \<longrightarrow>
      (\<exists>g' b'. didReceiveData fmt 1 g = Inr g' \<and> cur_browser g' = Inr b' \<and> bytesdownloaded b' = 16777216))"
proof (intro conjI impI)
  assume sum: "sum_list ns < 16777216"
  let ?b = "b\<lparr>bytesdownloaded := 0, download_ref := Some d\<rparr>"
  have g0: "g0 = put_browser ?b (write_to_statusbar ''Starting file download'' g)"
    using s b by (simp add: didStart_def)
  then have "gui_ok g0" "cur_browser g0 = Inr ?b" using ok by (simp_all add: cur_browser_put)
  from receive_chunks_exact [OF this, of fmt ns] fmt sum
  show "\<exists>g' b'. receive_chunks fmt ns g0 = Inr g' \<and> cur_browser g' = Inr b' \<and> bytesdownloaded b' = sum_list ns"
    by auto
next
  assume "bytesdownloaded b = 16777216"
  then have n: "16777216 = float32 (bytesdownloaded b + float32 1)"
    by (simp add: float32_exact float32_stalls)
  have "length (downloadfilename b) + length (fmt 16777216) < 997" using fmt by blast
  then obtain g' where "didReceiveData fmt 1 g = Inr g'" "cur_browser g' = Inr (b\<lparr>bytesdownloaded := 16777216\<rparr>)"
    by (rule didReceiveData_ok [where fmt = fmt and n = 16777216, OF ok b _ n])
  then show "\<exists>g' b'. didReceiveData fmt 1 g = Inr g' \<and> cur_browser g' = Inr b' \<and> bytesdownloaded b' = 16777216"
    by auto
qed

theorem download_counter_witness:
  "\<exists>g0 g' b'. didStart 7 started_gui = Inr g0 \<and> receive_chunks (\<lambda>n. []) [1000, 24] g0 = Inr g' \<and>
     cur_browser g' = Inr b' \<and> bytesdownloaded b' = 1024"
proof -
  let ?g0 = "put_browser (HtmlBrowser\<lparr>bytesdownloaded := 0, download_ref := Some 7\<rparr>)
    (write_to_statusbar ''Starting file download'' started_gui)"
  have s: "didStart 7 started_gui = Inr ?g0"
    by (simp add: didStart_def cur_browser_started)
  have "(sum_list [1000, 24] < (16777216 :: nat) \<longrightarrow>
      (\<exists>g' b'. receive_chunks (\<lambda>n. []) [1000, 24] ?g0 = Inr g' \<and> cur_browser g' = Inr b' \<and>
        bytesdownloaded b' = sum_list [1000, 24]))"
    by (rule download_counter [OF gui_ok_started cur_browser_started(1) _ s, THEN conjunct1])
      (simp add: HtmlBrowser_def)
  then show ?thesis using s by auto
qed

text \<open>C10: the file name that a server suggests for a download reaches the shell unquoted: when the
  user agrees to open a finished download that is not an HTML page, the command given to
  \<open>system()\<close> is \<open>xdg-open\<close>, a blank, the downloads directory and the suggested name as they are.\<close>
theorem suggested_name_reaches_shell:
  assumes ok: "gui_ok g" and len: "length (dir @ c_str filename) < 900" "5 \<le> length (dir @ c_str filename)"
    and fmt: "\<forall>n. length (fmt n) < 50"
    and html: "drop (length (dir @ c_str filename) - 5) (dir @ c_str filename) \<noteq> ''.html''"
    and cs: "c_string dir"
  shows "\<exists>old dest g1 g2. decideDestinationWithSuggestedFilename dir filename g = Inr (old, dest, g1) \<and>
    didFinish fmt dir True g1 = Inr (Some (''xdg-open '' @ dir @ c_str filename), g2)"
proof -
  let ?f = "c_str filename"
  obtain b where b: "cur_browser g = Inr b" by (rule cur_browser_ok [OF ok])
  let ?b = "b\<lparr>downloadfilename := ?f\<rparr>"
  have dd: "decideDestinationWithSuggestedFilename dir filename g
      = Inr (dir @ ?f, ''file://'' @ dir @ ?f, put_browser ?b g)"
    using b len by (simp add: decideDestinationWithSuggestedFilename_def Let_def)
  have cb: "cur_browser (put_browser ?b g) = Inr ?b" by (rule cur_browser_put [OF ok])
  let ?d = "drop (length (dir @ ?f) - 5) (dir @ ?f)"
  have "c_string (dir @ ?f)" using cs by simp
  then have "c_string ?d" unfolding c_string_def by (meson in_set_dropD)
  then have "strcmp ?d ''.html'' \<noteq> 0" using html by simp
  moreover have "take 5 ?d = ?d" using len(2) by simp
  ultimately have ne: "strncmp ?d ''.html'' 5 \<noteq> 0" by (simp add: strncmp_def del: drop_append)
  have "length (fmt (bytesdownloaded ?b)) < 50" using fmt by blast
  then have st: "length (''Download completed: '' @ ?f @ ''   '' @ fmt (bytesdownloaded ?b) @ '' bytes downloaded'') < 1024"
    using len(1) by simp
  have "\<exists>g2. didFinish fmt dir True (put_browser ?b g) = Inr (Some (''xdg-open '' @ dir @ ?f), g2)"
    unfolding didFinish_def using cb st ne len by (simp add: Let_def del: drop_append)
  with dd show ?thesis by blast
qed

theorem suggested_name_reaches_shell_witness:
  "\<exists>old dest g1 g2. decideDestinationWithSuggestedFilename ''/d/'' ''x;reboot'' started_gui = Inr (old, dest, g1) \<and>
    didFinish (\<lambda>n. []) ''/d/'' True g1 = Inr (Some ''xdg-open /d/x;reboot'', g2)"
  using suggested_name_reaches_shell [OF gui_ok_started, of "''/d/''" "''x;reboot''" "\<lambda>n. []"]
  by (simp add: c_str_def)

end
