(* ===== verification/WebCore_Back_Forward_List.thy ===== *)
theory WebCore_Back_Forward_List
  imports History_Spec
begin

text \<open>
  \<^verbatim>\<open>WebCore/history/BackForwardList.cpp\<close>, the back/forward list WebCore creates when the
  embedder supplies none, and \<^verbatim>\<open>BackForwardController.cpp\<close>, which drives whichever list the
  page has. As in \<open>Web_Back_Forward_List\<close>, \<open>'i\<close> is the type of pointers to history
  items. \<open>m_current\<close> is a 32-bit unsigned with \<^verbatim>\<open>UINT_MAX\<close> for "no current item"; the code
  relies on its wrap-around, which the model writes out. Calls of \<^verbatim>\<open>pageCache()->remove\<close>
  are recorded in \<open>wc_uncached\<close>.
\<close>

definition NoCurrentItemIndex :: nat where
  "NoCurrentItemIndex = 4294967295"

record 'i history_list =
  wc_page :: bool
  wc_entries :: "'i list"
  wc_entryHash :: "'i set"
  wc_current :: nat
  wc_capacity :: nat
  wc_closed :: bool
  wc_enabled :: bool
  wc_uncached :: "'i list"

definition BackForwardList :: "'i history_list" where
  "BackForwardList = \<lparr>wc_page = True, wc_entries = [], wc_entryHash = {},
     wc_current = NoCurrentItemIndex, wc_capacity = 100, wc_closed = True, wc_enabled = True,
     wc_uncached = []\<rparr>"

text \<open>Removing one entry from the vector, the hash set and the page cache.\<close>

definition drop_entry :: "'i list \<Rightarrow> 'i \<Rightarrow> 'i history_list \<Rightarrow> 'i history_list" where
  "drop_entry rest item s = s\<lparr>wc_entries := rest, wc_entryHash := wc_entryHash s - {item},
     wc_uncached := wc_uncached s @ [item]\<rparr>"

text \<open>\<^verbatim>\<open>while (m_entries.size() > targetSize)\<close>: drop the last entry.\<close>

function toss_last :: "nat \<Rightarrow> 'i history_list \<Rightarrow> 'i history_list" where
  "toss_last targetSize s =
     (if targetSize < length (wc_entries s)
      then toss_last targetSize (drop_entry (butlast (wc_entries s)) (last (wc_entries s)) s)
      else s)"
  by pat_completeness auto
termination
  by (relation "measure (\<lambda>(n, s). length (wc_entries s))") (auto simp: drop_entry_def)

declare toss_last.simps [simp del]

definition BackForwardList_addItem :: "'i \<Rightarrow> 'i history_list \<Rightarrow> 'i history_list" where
  "BackForwardList_addItem item s =
     (if wc_capacity s = 0 \<or> \<not> wc_enabled s then s
      else
        (let s1 = (if wc_current s \<noteq> NoCurrentItemIndex
                   then toss_last (u32 (wc_current s + 1)) s else s);
             s2 = (if length (wc_entries s1) = wc_capacity s1
                      \<and> (wc_current s1 \<noteq> 0 \<or> wc_capacity s1 = 1)
                   then (drop_entry (vec_remove 0 (wc_entries s1)) (hd (wc_entries s1)) s1)
                          \<lparr>wc_current := u32_dec (wc_current s1)\<rparr>
                   else s1)
         in s2\<lparr>wc_entryHash := insert item (wc_entryHash s2),
               wc_entries := vec_insert (u32 (wc_current s2 + 1)) item (wc_entries s2),
               wc_current := u32 (wc_current s2 + 1)\<rparr>))"

definition BackForwardList_goBack :: "'i history_list \<Rightarrow> 'i history_list" where
  "BackForwardList_goBack s =
     (if wc_current s > 0 then s\<lparr>wc_current := u32_dec (wc_current s)\<rparr> else s)"

text \<open>\<^verbatim>\<open>m_entries.size() - 1\<close> as a \<^verbatim>\<open>size_t\<close>: on an empty vector it wraps.\<close>

definition size_minus_one :: "'i list \<Rightarrow> nat" where
  "size_minus_one xs = (if xs = [] then 18446744073709551615 else length xs - 1)"

definition BackForwardList_goForward :: "'i history_list \<Rightarrow> 'i history_list" where
  "BackForwardList_goForward s =
     (if wc_current s < size_minus_one (wc_entries s)
      then s\<lparr>wc_current := u32 (wc_current s + 1)\<rparr> else s)"

definition BackForwardList_goToItem :: "'i option \<Rightarrow> 'i history_list \<Rightarrow> 'i history_list" where
  "BackForwardList_goToItem item s =
     (case item of
        None \<Rightarrow> s
      | Some it \<Rightarrow>
          if wc_entries s = [] then s
          else (let index = first_index it (wc_entries s)
                in if index < length (wc_entries s) then s\<lparr>wc_current := index\<rparr> else s))"

definition BackForwardList_backItem :: "'i history_list \<Rightarrow> 'i option res" where
  "BackForwardList_backItem s =
     (if wc_current s \<noteq> 0 \<and> wc_current s \<noteq> NoCurrentItemIndex
      then map_sum id Some (vec_at (wc_entries s) (wc_current s - 1)) else Inr None)"

definition BackForwardList_currentItem :: "'i history_list \<Rightarrow> 'i option res" where
  "BackForwardList_currentItem s =
     (if wc_current s \<noteq> NoCurrentItemIndex
      then map_sum id Some (vec_at (wc_entries s) (wc_current s)) else Inr None)"

definition BackForwardList_forwardItem :: "'i history_list \<Rightarrow> 'i option res" where
  "BackForwardList_forwardItem s =
     (if wc_entries s \<noteq> [] \<and> wc_current s < length (wc_entries s) - 1
      then map_sum id Some (vec_at (wc_entries s) (u32 (wc_current s + 1))) else Inr None)"

definition backListWithLimit :: "int \<Rightarrow> 'i history_list \<Rightarrow> 'i list res" where
  "backListWithLimit limit s =
     (if wc_current s \<noteq> NoCurrentItemIndex
      then vec_slice (wc_entries s) (nat (max (s32 (s32 (int (wc_current s)) - limit)) 0))
             (wc_current s)
      else Inr [])"

definition forwardListWithLimit :: "int \<Rightarrow> 'i history_list \<Rightarrow> 'i list res" where
  "forwardListWithLimit limit s =
     (if wc_entries s = [] then Inr []
      else
        (let lastEntry = u32 (length (wc_entries s) - 1)
         in if wc_current s < lastEntry
            then (let end_i = min (nat ((int (wc_current s) + limit) mod 4294967296)) lastEntry
                  in vec_slice (wc_entries s) (wc_current s + 1) (end_i + 1))
            else Inr []))"

text \<open>
  \<open>setCapacity\<close> takes an \<^verbatim>\<open>int\<close>; for a negative one the loop empties the vector and then
  asks for the last entry of an empty vector.
\<close>

definition BackForwardList_setCapacity :: "int \<Rightarrow> 'i history_list \<Rightarrow> 'i history_list res" where
  "BackForwardList_setCapacity sz s =
     (if sz < 0 then Inl VectorOverflow
      else
        (let s1 = toss_last (nat sz) s;
             s2 = (if sz = 0 then s1\<lparr>wc_current := NoCurrentItemIndex\<rparr>
                   else if wc_current s1 > size_minus_one (wc_entries s1)
                   then s1\<lparr>wc_current := u32 (size_minus_one (wc_entries s1))\<rparr>
                   else s1)
         in Inr (s2\<lparr>wc_capacity := nat sz\<rparr>)))"

definition BackForwardList_setEnabled :: "bool \<Rightarrow> 'i history_list \<Rightarrow> 'i history_list res" where
  "BackForwardList_setEnabled enabled s =
     (let s1 = s\<lparr>wc_enabled := enabled\<rparr>
      in if enabled then Inr s1
         else (let capacity = s32 (int (wc_capacity s1))
               in case BackForwardList_setCapacity 0 s1 of
                    Inl e \<Rightarrow> Inl e
                  | Inr s2 \<Rightarrow> BackForwardList_setCapacity capacity s2))"

definition BackForwardList_backListCount :: "'i history_list \<Rightarrow> int" where
  "BackForwardList_backListCount s =
     (if wc_current s = NoCurrentItemIndex then 0 else s32 (int (wc_current s)))"

definition BackForwardList_forwardListCount :: "'i history_list \<Rightarrow> int" where
  "BackForwardList_forwardListCount s =
     (if wc_current s = NoCurrentItemIndex then 0
      else s32 (int (length (wc_entries s)) - int (u32 (wc_current s + 1))))"

definition BackForwardList_itemAtIndex :: "int \<Rightarrow> 'i history_list \<Rightarrow> 'i option res" where
  "BackForwardList_itemAtIndex index s =
     (if index < - s32 (int (wc_current s)) then Inr None
      else if index > BackForwardList_forwardListCount s then Inr None
      else map_sum id Some
             (vec_at (wc_entries s) (nat ((index + int (wc_current s)) mod 4294967296))))"

definition BackForwardList_close :: "'i history_list \<Rightarrow> 'i history_list" where
  "BackForwardList_close s = s\<lparr>wc_uncached := wc_uncached s @ wc_entries s, wc_entries := [],
     wc_entryHash := {}, wc_page := False, wc_closed := True\<rparr>"

definition BackForwardList_removeItem :: "'i option \<Rightarrow> 'i history_list \<Rightarrow> 'i history_list" where
  "BackForwardList_removeItem item s =
     (case item of
        None \<Rightarrow> s
      | Some it \<Rightarrow>
          (let i = first_index it (wc_entries s)
           in if i < length (wc_entries s)
              then
                (let s1 = s\<lparr>wc_entries := vec_remove i (wc_entries s),
                            wc_entryHash := wc_entryHash s - {it}\<rparr>
                 in if wc_current s1 = NoCurrentItemIndex \<or> wc_current s1 < i then s1
                    else if wc_current s1 > i
                    then s1\<lparr>wc_current := u32_dec (wc_current s1)\<rparr>
                    else (let count = length (wc_entries s1)
                          in if wc_current s1 \<ge> count
                             then s1\<lparr>wc_current := (if count \<noteq> 0 then count - 1
                                                    else NoCurrentItemIndex)\<rparr>
                             else s1))
              else s))"

definition BackForwardList_containsItem :: "'i \<Rightarrow> 'i history_list \<Rightarrow> bool" where
  "BackForwardList_containsItem entry s \<longleftrightarrow> entry \<in> wc_entryHash s"

subsection \<open>The controller\<close>

text \<open>
  \<^verbatim>\<open>BackForwardController\<close> reaches its list through the virtual functions of
  \<^verbatim>\<open>BackForwardClient\<close>, so the client's operations are arguments. The result of
  \<open>goBackOrForward\<close> is the item it hands to \<^verbatim>\<open>Page::goToItem\<close>, if it calls it.
\<close>

definition canGoBackOrForward :: "int \<Rightarrow> int \<Rightarrow> int \<Rightarrow> bool" where
  "canGoBackOrForward forwardCount backCount distance =
     (if distance = 0 then True
      else if distance > 0 \<and> distance \<le> forwardCount then True
      else if distance < 0 \<and> s32 (- distance) \<le> backCount then True
      else False)"

definition goBackOrForward ::
  "('s \<Rightarrow> int) \<Rightarrow> ('s \<Rightarrow> int) \<Rightarrow> (int \<Rightarrow> 's \<Rightarrow> 'i option res) \<Rightarrow> int \<Rightarrow> 's \<Rightarrow> 'i option res" where
  "goBackOrForward forwardCount backCount itemAt distance s =
     (if distance = 0 then Inr None
      else
        (case itemAt distance s of
           Inl e \<Rightarrow> Inl e
         | Inr (Some item) \<Rightarrow> Inr (Some item)
         | Inr None \<Rightarrow>
             if distance > 0
             then (if forwardCount s \<noteq> 0 then itemAt (forwardCount s) s else Inr None)
             else (if backCount s \<noteq> 0 then itemAt (- backCount s) s else Inr None)))"

text \<open>\<^verbatim>\<open>goBack\<close> and \<^verbatim>\<open>goForward\<close> of the controller: the item handed to the page, or none
  (the function returns false).\<close>

definition controller_goBack :: "(int \<Rightarrow> 's \<Rightarrow> 'i option res) \<Rightarrow> 's \<Rightarrow> 'i option res" where
  "controller_goBack itemAt s = itemAt (- 1) s"

definition controller_goForward :: "(int \<Rightarrow> 's \<Rightarrow> 'i option res) \<Rightarrow> 's \<Rightarrow> 'i option res" where
  "controller_goForward itemAt s = itemAt 1 s"

definition controller_count :: "('s \<Rightarrow> int) \<Rightarrow> ('s \<Rightarrow> int) \<Rightarrow> 's \<Rightarrow> int" where
  "controller_count forwardCount backCount s = s32 (s32 (backCount s + 1) + forwardCount s)"


subsection \<open>Invariant and abstraction\<close>

definition wc_inv :: "'i history_list \<Rightarrow> bool" where
  "wc_inv s \<longleftrightarrow>
     (if wc_entries s = [] then wc_current s = NoCurrentItemIndex
      else wc_current s < length (wc_entries s))
     \<and> length (wc_entries s) \<le> wc_capacity s \<and> wc_capacity s < 2147483648"

definition wc_ready :: "'i history_list \<Rightarrow> bool" where
  "wc_ready s \<longleftrightarrow> wc_capacity s \<noteq> 0 \<and> wc_enabled s"

definition wc_zipper :: "'i history_list \<Rightarrow> 'i zipper option" where
  "wc_zipper s =
     (if wc_entries s = [] then None else Some (zipper_at (wc_entries s) (wc_current s)))"

text \<open>The hash set agrees with the vector.\<close>

definition wc_hash_ok :: "'i history_list \<Rightarrow> bool" where
  "wc_hash_ok s \<longleftrightarrow> distinct (wc_entries s) \<and> wc_entryHash s = set (wc_entries s)"

subsection \<open>The loops\<close>

lemma toss_last_eq:
  "toss_last n s = s\<lparr>wc_entries := take n (wc_entries s),
     wc_entryHash := wc_entryHash s - set (drop n (wc_entries s)),
     wc_uncached := wc_uncached s @ rev (drop n (wc_entries s))\<rparr>"
proof (induction n s rule: toss_last.induct)
  case (1 n s)
  let ?es = "wc_entries s"
  show ?case
  proof (cases "n < length ?es")
    case True
    have r: "drop n ?es = drop n (butlast ?es) @ [last ?es]"
      using True by (metis append_butlast_last_id drop_butlast drop_eq_Nil2 last_drop leD)
    have h: "wc_entryHash s - {last ?es} - set (drop n (butlast ?es))
        = wc_entryHash s - set (drop n ?es)" by (auto simp: r)
    show ?thesis
      using True 1 h by (subst toss_last.simps) (simp add: drop_entry_def take_butlast r)
  next
    case False
    then show ?thesis by (subst toss_last.simps) simp
  qed
qed

text \<open>What \<open>addItem\<close> leaves: as in the UI process, but through the wrap-around of
  \<open>m_current\<close> when the capacity is one.\<close>

definition wc_kept :: "'i history_list \<Rightarrow> 'i list" where
  "wc_kept s = (let es = take (wc_current s + 1) (wc_entries s)
                in if wc_current s + 1 = wc_capacity s then tl es else es)"

lemma addItem_nonempty:
  assumes "wc_inv s" and "wc_ready s" and "wc_entries s \<noteq> []"
  shows "wc_entries (BackForwardList_addItem x s) = wc_kept s @ [x]"
    and "wc_current (BackForwardList_addItem x s) = length (wc_kept s)"
    and "wc_entryHash (BackForwardList_addItem x s) = insert x (wc_entryHash s
           - (set (drop (wc_current s + 1) (wc_entries s))
              \<union> (if wc_current s + 1 = wc_capacity s then {hd (wc_entries s)} else {})))"
proof -
  let ?i = "wc_current s" and ?es = "wc_entries s"
  have b: "?i < length ?es" "length ?es \<le> wc_capacity s" "wc_capacity s < 2147483648"
    "?i \<noteq> NoCurrentItemIndex"
    using assms by (auto simp: wc_inv_def NoCurrentItemIndex_def)
  have len: "length (take (?i + 1) ?es) = ?i + 1" using b by simp
  have hd: "hd (take (?i + 1) ?es) = hd ?es" using b by (cases ?es) auto
  have lt: "length (tl (take (?i + 1) ?es)) = ?i" using len by simp
  have dec: "u32 (u32_dec ?i + 1) = ?i" using b by (simp add: u32_dec_def u32_def)
  have t: "u32 (?i + 1) = ?i + 1" using b by simp
  note defs = BackForwardList_addItem_def toss_last_eq drop_entry_def wc_kept_def vec_insert_def Let_def
  have full: "?i \<noteq> 0 \<or> wc_capacity s = 1" if "?i + 1 = wc_capacity s" using that by auto
  show "wc_entries (BackForwardList_addItem x s) = wc_kept s @ [x]"
    "wc_current (BackForwardList_addItem x s) = length (wc_kept s)"
    "wc_entryHash (BackForwardList_addItem x s) = insert x (wc_entryHash s
           - (set (drop (wc_current s + 1) (wc_entries s))
              \<union> (if wc_current s + 1 = wc_capacity s then {hd (wc_entries s)} else {})))"
    using b len lt dec t full assms(2) hd
    by (cases "?i + 1 = wc_capacity s"; simp add: defs wc_ready_def; blast)+
qed

lemma addItem_empty:
  assumes "wc_inv s" and "wc_ready s" and "wc_entries s = []"
  shows "BackForwardList_addItem x s =
    s\<lparr>wc_entries := [x], wc_current := 0, wc_entryHash := insert x (wc_entryHash s)\<rparr>"
  using assms
  by (simp add: BackForwardList_addItem_def wc_inv_def wc_ready_def NoCurrentItemIndex_def
      u32_def vec_insert_def)

lemma addItem_frame_wc:
  "wc_capacity (BackForwardList_addItem x s) = wc_capacity s
   \<and> wc_enabled (BackForwardList_addItem x s) = wc_enabled s"
  by (simp add: BackForwardList_addItem_def toss_last_eq drop_entry_def Let_def)

lemma length_wc_kept:
  "\<lbrakk>wc_inv s; wc_entries s \<noteq> []\<rbrakk> \<Longrightarrow> length (wc_kept s) =
     (if wc_current s + 1 = wc_capacity s then wc_current s else wc_current s + 1)"
  by (auto simp: wc_kept_def wc_inv_def Let_def)


subsection \<open>Every operation keeps the invariant\<close>

lemma wc_create_inv: "wc_inv BackForwardList"
  by (simp add: wc_inv_def BackForwardList_def)

lemma wc_addItem_ignored: "\<not> wc_ready s \<Longrightarrow> BackForwardList_addItem x s = s"
  by (auto simp: BackForwardList_addItem_def wc_ready_def)

lemma wc_addItem_inv: "wc_inv s \<Longrightarrow> wc_inv (BackForwardList_addItem x s)"
proof (cases "wc_ready s")
  case True
  assume inv: "wc_inv s"
  show ?thesis
  proof (cases "wc_entries s = []")
    case empty: True
    then show ?thesis
      using inv True by (simp add: addItem_empty wc_inv_def wc_ready_def)
  next
    case False
    then show ?thesis
      using inv addItem_nonempty [OF inv True False] length_wc_kept [OF inv False]
        addItem_frame_wc [of x s]
      by (simp add: wc_inv_def split: if_splits)
  qed
qed (simp add: wc_addItem_ignored)

lemma wc_goToItem_inv: "wc_inv s \<Longrightarrow> wc_inv (BackForwardList_goToItem x s)"
  by (auto simp: BackForwardList_goToItem_def wc_inv_def Let_def split: option.splits if_splits)

lemma wc_goBack_inv:
  "\<lbrakk>wc_inv s; wc_entries s \<noteq> []\<rbrakk> \<Longrightarrow> wc_inv (BackForwardList_goBack s)"
  by (auto simp: BackForwardList_goBack_def wc_inv_def u32_dec_def)

lemma wc_goForward_inv:
  "\<lbrakk>wc_inv s; wc_entries s \<noteq> []\<rbrakk> \<Longrightarrow> wc_inv (BackForwardList_goForward s)"
  by (auto simp: BackForwardList_goForward_def wc_inv_def size_minus_one_def)

text \<open>A non-negative capacity keeps the entries that fit, and the current index moves to the
  last of them when its entry is dropped.\<close>

lemma setCapacity_eq:
  assumes "wc_inv s" and "0 \<le> n" and "n < 2147483648"
  obtains s' where "BackForwardList_setCapacity n s = Inr s'" and "wc_inv s'"
    and "wc_entries s' = take (nat n) (wc_entries s)" and "wc_capacity s' = nat n"
    and "wc_enabled s' = wc_enabled s"
    and "wc_entries s' \<noteq> [] \<Longrightarrow> wc_current s' = min (wc_current s) (length (wc_entries s') - 1)"
proof -
  let ?s' = "projr (BackForwardList_setCapacity n s)"
  have eq: "BackForwardList_setCapacity n s = Inr ?s'"
    using assms(2) by (simp add: BackForwardList_setCapacity_def Let_def)
  note defs = BackForwardList_setCapacity_def toss_last_eq size_minus_one_def Let_def
  have e: "wc_entries ?s' = take (nat n) (wc_entries s)" "wc_capacity ?s' = nat n"
    "wc_enabled ?s' = wc_enabled s"
    using assms(2) by (simp_all add: defs)
  have c: "wc_current ?s' = min (wc_current s) (length (wc_entries ?s') - 1)"
    if "wc_entries ?s' \<noteq> []"
    using that assms e by (auto simp: defs wc_inv_def min_def)
  have "wc_entries ?s' = [] \<Longrightarrow> wc_current ?s' = NoCurrentItemIndex"
    using assms by (auto simp: defs wc_inv_def NoCurrentItemIndex_def split: if_splits)
  then have "wc_inv ?s'"
    using assms e c by (auto simp: wc_inv_def min_def)
  with eq e c show ?thesis by (intro that)
qed

lemma setEnabled_eq:
  assumes "wc_inv s"
  obtains s' where "BackForwardList_setEnabled b s = Inr s'" and "wc_inv s'"
    and "wc_enabled s' = b" and "wc_capacity s' = wc_capacity s"
    and "wc_entries s' = (if b then wc_entries s else [])"
proof (cases b)
  case True
  then show ?thesis
    using assms by (intro that [of "s\<lparr>wc_enabled := b\<rparr>"])
      (auto simp: BackForwardList_setEnabled_def wc_inv_def)
next
  case False
  let ?s = "s\<lparr>wc_enabled := b\<rparr>"
  have inv: "wc_inv ?s" using assms by (simp add: wc_inv_def)
  obtain s1 where s1: "BackForwardList_setCapacity 0 ?s = Inr s1" "wc_inv s1"
    "wc_entries s1 = []" "wc_enabled s1 = b"
    using setCapacity_eq [OF inv, of 0] by auto
  have cap: "s32 (int (wc_capacity s)) = int (wc_capacity s)" "wc_capacity s < 2147483648"
    using assms by (simp_all add: wc_inv_def)
  obtain s2 where s2: "BackForwardList_setCapacity (int (wc_capacity s)) s1 = Inr s2" "wc_inv s2"
    "wc_entries s2 = []" "wc_capacity s2 = wc_capacity s" "wc_enabled s2 = b"
    using setCapacity_eq [OF s1(2), of "int (wc_capacity s)"] cap s1(3,4) by auto
  show ?thesis
    using False s1 s2 cap by (intro that [of s2]) (simp_all add: BackForwardList_setEnabled_def)
qed

lemma wc_inv_member:
  assumes "wc_inv s" and "it \<in> set (wc_entries s)"
  shows "wc_current s < length (wc_entries s)" and "length (wc_entries s) < 2147483648"
  using assms by (cases "wc_entries s"; simp add: wc_inv_def)+

lemma removeItem_member:
  assumes "wc_inv s" and "it \<in> set (wc_entries s)"
  defines "i \<equiv> first_index it (wc_entries s)" and "n \<equiv> length (wc_entries s)"
  shows "BackForwardList_removeItem (Some it) s =
    s\<lparr>wc_entries := vec_remove i (wc_entries s), wc_entryHash := wc_entryHash s - {it},
      wc_current := (if wc_current s < i then wc_current s
                     else if wc_current s > i then wc_current s - 1
                     else if wc_current s + 1 < n then wc_current s
                     else if n = 1 then NoCurrentItemIndex else n - 2)\<rparr>"
proof -
  have b: "wc_current s < n" "n < 2147483648" "i < n"
    using wc_inv_member [OF assms(1,2)] assms by simp_all
  then have "wc_current s \<noteq> NoCurrentItemIndex" by (simp add: NoCurrentItemIndex_def)
  with b show ?thesis
    by (auto simp: BackForwardList_removeItem_def Let_def u32_dec_def i_def n_def)
qed

lemma wc_removeItem_inv:
  assumes "wc_inv s"
  shows "wc_inv (BackForwardList_removeItem x s)"
proof (cases "\<exists>it. x = Some it \<and> it \<in> set (wc_entries s)")
  case True
  then obtain it where it: "x = Some it" "it \<in> set (wc_entries s)" by blast
  have i: "first_index it (wc_entries s) < length (wc_entries s)" using it by simp
  note b = wc_inv_member [OF assms it(2)]
  have cap: "length (wc_entries s) \<le> wc_capacity s" "wc_capacity s < 2147483648"
    using assms by (simp_all add: wc_inv_def)
  show ?thesis
    using i b cap removeItem_member [OF assms it(2)]
    by (auto simp: it(1) wc_inv_def simp del: first_index_less_iff)
next
  case False
  then show ?thesis
    using assms by (auto simp: BackForwardList_removeItem_def split: option.splits)
qed


subsection \<open>The list implements the session-history contract\<close>

lemma wc_zipper_Some:
  "wc_zipper s = Some z \<longleftrightarrow> wc_entries s \<noteq> [] \<and> z = zipper_at (wc_entries s) (wc_current s)"
  by (auto simp: wc_zipper_def)

lemma wc_addItem_refines:
  assumes "wc_inv s" and "wc_ready s"
  shows "wc_zipper (BackForwardList_addItem x s)
    = Some (zipper_visit (wc_capacity s) x (wc_zipper s))"
proof (cases "wc_entries s = []")
  case True
  then show ?thesis using assms by (simp add: addItem_empty wc_zipper_def zipper_at_def)
next
  case False
  let ?i = "wc_current s" and ?es = "wc_entries s"
  have b: "?i < length ?es" "length ?es \<le> wc_capacity s"
    using assms False by (simp_all add: wc_inv_def)
  have "rev (wc_kept s) = take (wc_capacity s - 1) (?es ! ?i # rev (take ?i ?es))"
    unfolding wc_kept_def Let_def by (rule rev_take_Suc_capped [OF b])
  then show ?thesis
    using False addItem_nonempty [OF assms False] by (simp add: wc_zipper_def zipper_at_def)
qed

lemma wc_itemAtIndex_eq:
  assumes "wc_inv s" and "- 2147483648 \<le> d" and "d < 2147483648"
  shows "BackForwardList_itemAtIndex d s =
    Inr (case wc_zipper s of None \<Rightarrow> None | Some z \<Rightarrow> zipper_item_at z d)"
proof (cases "wc_entries s = []")
  case True
  then have "wc_current s = NoCurrentItemIndex" using assms by (simp add: wc_inv_def)
  then show ?thesis using True
    by (simp add: BackForwardList_itemAtIndex_def BackForwardList_forwardListCount_def wc_zipper_def
        NoCurrentItemIndex_def s32_def)
next
  case False
  let ?i = "wc_current s" and ?n = "length (wc_entries s)"
  have b: "?i < ?n" "?n < 2147483648" "?i \<noteq> NoCurrentItemIndex"
    using assms(1) False by (auto simp: wc_inv_def NoCurrentItemIndex_def)
  then have counts: "BackForwardList_forwardListCount s = int ?n - int (?i + 1)"
    "s32 (int ?i) = int ?i"
    by (simp_all add: BackForwardList_forwardListCount_def)
  show ?thesis
  proof (cases "0 \<le> int ?i + d \<and> int ?i + d < int ?n")
    case in_range: True
    then have m: "(d + int ?i) mod 4294967296 = d + int ?i"
      using b by (intro mod_pos_pos_trivial) auto
    have "nat (d + int ?i) < ?n" using in_range by linarith
    moreover have "nat (d + int ?i) = nat (int ?i + d)" by (simp add: add.commute)
    ultimately show ?thesis
      using in_range False b counts m
      by (simp add: BackForwardList_itemAtIndex_def wc_zipper_def zipper_item_at_nth)
  next
    case False
    then show ?thesis using \<open>wc_entries s \<noteq> []\<close> b counts
      by (auto simp: BackForwardList_itemAtIndex_def wc_zipper_def zipper_item_at_nth)
  qed
qed

lemma wc_goToItem_refines:
  assumes "wc_inv s" and "wc_zipper s = Some z"
  shows "x \<in> set (zipper_list z) \<Longrightarrow>
      wc_zipper (BackForwardList_goToItem (Some x) s)
        = Some (zipper_at (zipper_list z) (first_index x (zipper_list z)))"
    and "x \<notin> set (zipper_list z) \<Longrightarrow> BackForwardList_goToItem (Some x) s = s"
  using assms
  by (auto simp: BackForwardList_goToItem_def wc_zipper_def wc_inv_def Let_def split: if_splits)

lemma wc_accessors_eq:
  assumes "wc_inv s"
  shows "BackForwardList_currentItem s = Inr (map_option zcurrent (wc_zipper s))"
    and "BackForwardList_backItem s =
      Inr (case wc_zipper s of None \<Rightarrow> None | Some z \<Rightarrow> zipper_item_at z (- 1))"
    and "BackForwardList_forwardItem s =
      Inr (case wc_zipper s of None \<Rightarrow> None | Some z \<Rightarrow> zipper_item_at z 1)"
  using assms
  by (auto simp: BackForwardList_currentItem_def BackForwardList_backItem_def
      BackForwardList_forwardItem_def wc_zipper_def wc_inv_def NoCurrentItemIndex_def
      zipper_item_at_nth nat_diff_distrib nat_add_distrib)

lemma wc_counts_eq:
  assumes "wc_inv s"
  shows "BackForwardList_backListCount s =
      (case wc_zipper s of None \<Rightarrow> 0 | Some z \<Rightarrow> int (length (zback z)))"
    and "BackForwardList_forwardListCount s =
      (case wc_zipper s of None \<Rightarrow> 0 | Some z \<Rightarrow> int (length (zforward z)))"
    and "wc_capacity s < 2147483648"
    and "wc_zipper s = Some z \<Longrightarrow> length (zipper_list z) \<le> wc_capacity s"
  using assms
  by (auto simp: BackForwardList_backListCount_def BackForwardList_forwardListCount_def
      wc_zipper_def wc_inv_def NoCurrentItemIndex_def split: if_splits)

lemma wc_ready_cap: "wc_ready s \<Longrightarrow> 0 < wc_capacity s"
  by (simp add: wc_ready_def)

lemma wc_addItem_ready: "wc_ready (BackForwardList_addItem x s) = wc_ready s"
  using addItem_frame_wc [of x s] by (simp add: wc_ready_def)

interpretation wcbf: counted_history wc_ready wc_capacity wc_zipper BackForwardList_addItem
  BackForwardList_currentItem BackForwardList_backItem BackForwardList_forwardItem
  BackForwardList_itemAtIndex wc_inv "\<lambda>x. BackForwardList_goToItem (Some x)"
  BackForwardList_backListCount BackForwardList_forwardListCount
  by unfold_locales
    (simp_all add: wc_addItem_refines wc_addItem_inv wc_addItem_ignored wc_goToItem_refines
      wc_goToItem_inv wc_accessors_eq wc_itemAtIndex_eq wc_counts_eq wc_ready_cap wc_addItem_ready
      addItem_frame_wc)


subsection \<open>The hash set\<close>

lemma hash_ok_create: "wc_hash_ok BackForwardList"
  by (simp add: wc_hash_ok_def BackForwardList_def)

lemma hash_ok_addItem:
  assumes "wc_inv s" and "wc_hash_ok s" and "x \<notin> set (wc_entries s)"
  shows "wc_hash_ok (BackForwardList_addItem x s)"
proof (cases "wc_ready s")
  case ready: True
  show ?thesis
  proof (cases "wc_entries s = []")
    case True
    with assms ready show ?thesis by (simp add: addItem_empty wc_hash_ok_def)
  next
    case False
    let ?es = "wc_entries s" and ?t = "take (wc_current s + 1) (wc_entries s)"
    have d: "distinct ?es" "wc_entryHash s = set ?es"
      using assms(2) by (simp_all add: wc_hash_ok_def)
    have t: "?t = hd ?es # tl ?t" using False by (cases ?es) auto
    have dt: "distinct (hd ?es # tl ?t)" using d(1) t by (metis distinct_take)
    have kept: "set (wc_kept s) = set ?es - (set (drop (wc_current s + 1) ?es)
        \<union> (if wc_current s + 1 = wc_capacity s then {hd ?es} else {}))"
    proof (cases "wc_current s + 1 = wc_capacity s")
      case True
      have "set (tl ?t) = set ?t - {hd ?es}" using dt by (subst (2) t) auto
      also have "set ?t = set ?es - set (drop (wc_current s + 1) ?es)"
        by (rule set_diff_drop [OF d(1), symmetric])
      finally show ?thesis using True by (auto simp: wc_kept_def)
    qed (simp add: wc_kept_def set_diff_drop [OF d(1)])
    have "distinct (wc_kept s)" using d(1) by (simp add: wc_kept_def distinct_tl Let_def)
    moreover have "x \<notin> set (wc_kept s)" using kept assms(3) by blast
    ultimately show ?thesis
      using addItem_nonempty [OF assms(1) ready False] kept d by (simp add: wc_hash_ok_def)
  qed
qed (use assms in \<open>simp add: wc_addItem_ignored\<close>)

lemma hash_ok_setCapacity:
  "\<lbrakk>wc_hash_ok s; BackForwardList_setCapacity n s = Inr s'\<rbrakk> \<Longrightarrow> wc_hash_ok s'"
  by (auto simp: wc_hash_ok_def BackForwardList_setCapacity_def toss_last_eq set_diff_drop Let_def
      split: if_splits)

lemma hash_ok_setEnabled:
  assumes "wc_hash_ok s" and "BackForwardList_setEnabled b s = Inr s'"
  shows "wc_hash_ok s'"
proof -
  have ok: "wc_hash_ok (s\<lparr>wc_enabled := b\<rparr>)" using assms(1) by (simp add: wc_hash_ok_def)
  show ?thesis
    using assms(2) ok hash_ok_setCapacity [OF ok]
    by (auto simp: BackForwardList_setEnabled_def Let_def split: if_splits sum.splits
        dest: hash_ok_setCapacity)
qed

lemma hash_ok_removeItem:
  assumes "wc_inv s" and "wc_hash_ok s"
  shows "wc_hash_ok (BackForwardList_removeItem x s)"
proof (cases "\<exists>it. x = Some it \<and> it \<in> set (wc_entries s)")
  case True
  then obtain it where it: "x = Some it" "it \<in> set (wc_entries s)" by blast
  have d: "distinct (wc_entries s)" using assms(2) by (simp add: wc_hash_ok_def)
  note set_vec_remove_distinct [OF d, of "first_index it (wc_entries s)"]
  then show ?thesis
    using assms it removeItem_member [OF assms(1) it(2)] by (simp add: wc_hash_ok_def)
next
  case False
  then show ?thesis
    using assms(2) by (auto simp: BackForwardList_removeItem_def split: option.splits)
qed

lemma hash_ok_moves:
  "wc_hash_ok s \<Longrightarrow> wc_hash_ok (BackForwardList_goToItem x s)"
  "wc_hash_ok s \<Longrightarrow> wc_hash_ok (BackForwardList_goBack s)"
  "wc_hash_ok s \<Longrightarrow> wc_hash_ok (BackForwardList_goForward s)"
  by (auto simp: wc_hash_ok_def BackForwardList_goToItem_def BackForwardList_goBack_def
      BackForwardList_goForward_def Let_def split: option.splits)

subsection \<open>Reachable states\<close>

text \<open>
  Every operation of an open list. An item is added while it is not in the list (the loader
  creates a fresh item for each navigation); \<open>goBack\<close> and \<open>goForward\<close> are called on a list
  that has entries, and \<open>setCapacity\<close> with a non-negative capacity.
\<close>

inductive wc_reachable :: "'i history_list \<Rightarrow> bool" where
  create: "wc_reachable BackForwardList"
| addItem: "wc_reachable s \<Longrightarrow> x \<notin> set (wc_entries s) \<Longrightarrow> wc_reachable (BackForwardList_addItem x s)"
| goToItem: "wc_reachable s \<Longrightarrow> wc_reachable (BackForwardList_goToItem y s)"
| goBack: "wc_reachable s \<Longrightarrow> wc_entries s \<noteq> [] \<Longrightarrow> wc_reachable (BackForwardList_goBack s)"
| goForward: "wc_reachable s \<Longrightarrow> wc_entries s \<noteq> [] \<Longrightarrow> wc_reachable (BackForwardList_goForward s)"
| setCapacity: "wc_reachable s \<Longrightarrow> 0 \<le> n \<Longrightarrow> n < 2147483648 \<Longrightarrow>
    BackForwardList_setCapacity n s = Inr s' \<Longrightarrow> wc_reachable s'"
| setEnabled: "wc_reachable s \<Longrightarrow> BackForwardList_setEnabled b s = Inr s' \<Longrightarrow> wc_reachable s'"
| removeItem: "wc_reachable s \<Longrightarrow> wc_reachable (BackForwardList_removeItem y s)"

lemma wc_setCapacity_inv:
  "\<lbrakk>wc_inv s; 0 \<le> n; n < 2147483648; BackForwardList_setCapacity n s = Inr s'\<rbrakk> \<Longrightarrow> wc_inv s'"
  by (erule setCapacity_eq [where s = s and n = n]) auto

lemma wc_setEnabled_inv: "\<lbrakk>wc_inv s; BackForwardList_setEnabled b s = Inr s'\<rbrakk> \<Longrightarrow> wc_inv s'"
  by (erule setEnabled_eq [where s = s and b = b]) auto

lemmas wc_op_invs = wc_create_inv wc_addItem_inv wc_goToItem_inv wc_goBack_inv wc_goForward_inv
  wc_setCapacity_inv wc_setEnabled_inv wc_removeItem_inv

lemmas hash_ok_ops = hash_ok_create hash_ok_addItem hash_ok_moves hash_ok_setCapacity
  hash_ok_setEnabled hash_ok_removeItem

lemma wc_reachable_inv: "wc_reachable s \<Longrightarrow> wc_inv s \<and> wc_hash_ok s"
  by (induction rule: wc_reachable.induct) (blast intro: wc_op_invs hash_ok_ops)+


subsection \<open>The controller on any history that counts\<close>

lemma wc_reachable_first_item: "wc_reachable (BackForwardList_addItem (3::nat) BackForwardList)"
  by (rule wc_reachable.addItem [OF wc_reachable.create]) (simp add: BackForwardList_def)

context counted_history
begin

text \<open>Going by a distance reaches the entry at that distance, or the farthest entry in that
  direction when the distance overshoots.\<close>

definition clamped :: "'i zipper \<Rightarrow> int \<Rightarrow> int" where
  "clamped z d = max (- int (length (zback z))) (min (int (length (zforward z))) d)"

lemma goBackOrForward_clamps:
  assumes "inv s" and "hist s = Some z" and "d \<noteq> 0" and "- 2147483648 \<le> d" and "d < 2147483648"
  shows "goBackOrForward forward_count back_count item_at d s =
    Inr (if clamped z d = 0 then None else zipper_item_at z (clamped z d))"
proof -
  note c = counts_int [OF assms(1,2)]
  have fc: "forward_count s = int (length (zforward z))"
    and bc: "back_count s = int (length (zback z))"
    using assms by (simp_all add: forward_count_abs back_count_abs)
  have at: "item_at k s = Inr (zipper_item_at z k)" if "- 2147483648 \<le> k" "k < 2147483648" for k
    using item_at_abs [OF assms(1) that] assms(2) by simp
  have some: "zipper_item_at z k = None \<longleftrightarrow> k < - int (length (zback z)) \<or> k > int (length (zforward z))"
    for k by (auto simp: zipper_item_at_def)
  show ?thesis
  proof (cases "zipper_item_at z d")
    case None
    then have "d < - int (length (zback z)) \<or> d > int (length (zforward z))" by (simp add: some)
    then show ?thesis
      using None c assms(3-5) by (auto simp: goBackOrForward_def clamped_def fc bc at)
  next
    case (Some y)
    then have "clamped z d = d" using some [of d] by (simp add: clamped_def)
    then show ?thesis using Some assms(3-5) by (simp add: goBackOrForward_def at)
  qed
qed

lemma canGo_iff:
  assumes "inv s" and "hist s = Some z" and "- 2147483648 < d" and "d < 2147483648"
  shows "canGoBackOrForward (forward_count s) (back_count s) d \<longleftrightarrow> zipper_item_at z d \<noteq> None"
  using assms
  by (auto simp: canGoBackOrForward_def forward_count_abs back_count_abs zipper_item_at_def)

end

subsection \<open>Properties\<close>





text \<open>\<open>goBackOrForward\<close> (\<^verbatim>\<open>history.go(n)\<close>) on WebCore's list hands the page the entry at
  the requested distance, or the farthest entry in that direction when the distance
  overshoots, and none when there is no entry in that direction.\<close>

theorem history_go_clamps:
  assumes "wc_reachable s" and "wc_entries s \<noteq> []" and "d \<noteq> 0"
    and "- 2147483648 \<le> d" and "d < 2147483648"
  defines "i \<equiv> int (wc_current s)" and "n \<equiv> int (length (wc_entries s))"
  shows "goBackOrForward BackForwardList_forwardListCount BackForwardList_backListCount
      BackForwardList_itemAtIndex d s =
    Inr (let j = max 0 (min (n - 1) (i + d))
         in if j = i then None else Some (wc_entries s ! nat j))"
proof -
  have inv: "wc_inv s" using wc_reachable_inv [OF assms(1)] by blast
  let ?z = "zipper_at (wc_entries s) (wc_current s)"
  have b: "wc_current s < length (wc_entries s)" using inv assms(2) by (simp add: wc_inv_def)
  have c: "wcbf.clamped ?z d = max 0 (min (n - 1) (i + d)) - i"
    using b by (auto simp: wcbf.clamped_def i_def n_def min_def max_def)
  have "goBackOrForward BackForwardList_forwardListCount BackForwardList_backListCount
      BackForwardList_itemAtIndex d s =
    Inr (if wcbf.clamped ?z d = 0 then None else zipper_item_at ?z (wcbf.clamped ?z d))"
    by (rule wcbf.goBackOrForward_clamps [OF inv _ assms(3-5)])
      (simp add: wc_zipper_def assms(2))
  moreover have "zipper_item_at ?z (j - i) = Some (wc_entries s ! nat j)"
    if "0 \<le> j" "j < n" for j
    using b that by (simp add: zipper_item_at_nth i_def n_def)
  moreover have "0 \<le> max 0 (min (n - 1) (i + d))" "max 0 (min (n - 1) (i + d)) < n"
    using b unfolding n_def by linarith+
  ultimately show ?thesis unfolding c Let_def by simp
qed

theorem history_go_clamps_witness:
  "goBackOrForward BackForwardList_forwardListCount BackForwardList_backListCount
     BackForwardList_itemAtIndex (- 5)
     (BackForwardList_addItem (4::nat) (BackForwardList_addItem 3 BackForwardList)) = Inr (Some 3)"
proof -
  let ?s = "BackForwardList_addItem (4::nat) (BackForwardList_addItem 3 BackForwardList)"
  have e: "wc_entries ?s = [3, 4]" "wc_current ?s = 1"
    by (simp_all add: BackForwardList_addItem_def BackForwardList_def NoCurrentItemIndex_def
        vec_insert_def u32_def toss_last_eq)
  have "wc_reachable ?s"
    by (rule wc_reachable.addItem [OF wc_reachable_first_item]) (simp add: BackForwardList_addItem_def BackForwardList_def
        NoCurrentItemIndex_def vec_insert_def u32_def)
  then show ?thesis
    using history_go_clamps [of ?s "- 5"] e by (simp add: min_def max_def)
qed

text \<open>\<open>goForward\<close> on an empty list: \<^verbatim>\<open>m_entries.size() - 1\<close> wraps to the largest
  \<^verbatim>\<open>size_t\<close>, the guard passes, \<^verbatim>\<open>m_current\<close> wraps from \<^verbatim>\<open>UINT_MAX\<close> to 0, and the list then
  claims a current item it does not have: the next \<open>currentItem\<close> reads past the end. So the
  precondition of \<open>goForward\<close> in the reachable states is needed.\<close>

theorem goForward_on_empty_list_crashes:
  "wc_current (BackForwardList_goForward BackForwardList) = 0
   \<and> crashes (BackForwardList_currentItem (BackForwardList_goForward BackForwardList))"
  by (simp add: BackForwardList_goForward_def BackForwardList_def size_minus_one_def
      NoCurrentItemIndex_def BackForwardList_currentItem_def vec_at_def u32_def)

end
