(* ===== verification/Visited_Links.thy ===== *)
theory Visited_Links
  imports Prelude
begin

unbundle bit_operations_syntax

text \<open>
  The visited-link table (\<^verbatim>\<open>WebKit2/Shared/VisitedLinkTable.cpp\<close>) and the provider that fills
  it and shares it with the web processes (\<^verbatim>\<open>WebKit2/UIProcess/VisitedLinkProvider.cpp\<close>).

  The table is an array of 64-bit link hashes in shared memory, \<open>0\<close> marking an empty bucket, with
  open addressing and double hashing; all index arithmetic is on 32-bit words. Its probe loop has
  no bound of its own: it is a \<open>partial_function\<close>, and that it ends is a theorem about tables with
  an empty bucket. Shared memory is a list; that a block or a handle can be obtained, and the page
  size, are arguments. The table promises a set interface, the locale \<open>bounded_set\<close>, from which the
  provider's bulk insertions are derived.
\<close>

type_synonym link_hash = "64 word"

subsection \<open>The interface of a set with limited room\<close>

locale bounded_set =
  fixes ok :: "'t \<Rightarrow> bool"
    and elems :: "'t \<Rightarrow> 'k set"
    and room :: "'t \<Rightarrow> nat"
    and storable :: "'k \<Rightarrow> bool"
    and add :: "'k \<Rightarrow> 't \<Rightarrow> ('t \<times> bool) option"
    and mem :: "'k \<Rightarrow> 't \<Rightarrow> bool option"
  assumes mem_law: "ok t \<Longrightarrow> 0 < room t \<Longrightarrow> storable x \<Longrightarrow> mem x t = Some (x \<in> elems t)"
    and add_law: "ok t \<Longrightarrow> 0 < room t \<Longrightarrow> storable x \<Longrightarrow>
      \<exists>t'. add x t = Some (t', x \<notin> elems t) \<and> ok t' \<and> elems t' = insert x (elems t)
        \<and> room t' = (if x \<in> elems t then room t else room t - 1)"
begin

text \<open>Adding a sequence of keys, remembering the ones that were new.\<close>

fun add_all :: "'k list \<Rightarrow> 't \<Rightarrow> ('t \<times> 'k list) option" where
  "add_all [] t = Some (t, [])"
| "add_all (x # xs) t =
     (case add x t of None \<Rightarrow> None
      | Some (t', new) \<Rightarrow> (case add_all xs t' of None \<Rightarrow> None
          | Some (t'', added) \<Rightarrow> Some (t'', (if new then x # added else added))))"

lemma add_all_spec:
  "\<lbrakk>ok t; distinct xs; length xs < room t; \<forall>x\<in>set xs. storable x\<rbrakk> \<Longrightarrow>
     \<exists>t'. add_all xs t = Some (t', filter (\<lambda>x. x \<notin> elems t) xs) \<and> ok t'
       \<and> elems t' = elems t \<union> set xs
       \<and> room t' = room t - length (filter (\<lambda>x. x \<notin> elems t) xs)"
proof (induction xs arbitrary: t)
  case (Cons x xs)
  obtain t' where t': "add x t = Some (t', x \<notin> elems t)" "ok t'" "elems t' = insert x (elems t)"
      "room t' = (if x \<in> elems t then room t else room t - 1)"
    using add_law [of t x] Cons.prems by auto
  have "length xs < room t'" using Cons.prems t'(4) by (auto split: if_splits)
  then obtain t'' where t'': "add_all xs t' = Some (t'', filter (\<lambda>x. x \<notin> elems t') xs)" "ok t''"
      "elems t'' = elems t' \<union> set xs" "room t'' = room t' - length (filter (\<lambda>x. x \<notin> elems t') xs)"
    using Cons.IH [of t'] Cons.prems t'(2) by auto
  have "filter (\<lambda>y. y \<notin> elems t') xs = filter (\<lambda>y. y \<notin> elems t) xs"
    using Cons.prems t'(3) by (intro filter_cong) auto
  with t' t'' show ?case by auto
qed simp

end

subsection \<open>The table\<close>

definition doubleHash :: "32 word \<Rightarrow> 32 word" where
  "doubleHash key0 =
     (let key = NOT key0 + drop_bit 23 key0;
          key = key XOR push_bit 12 key;
          key = key XOR drop_bit 7 key;
          key = key XOR push_bit 2 key
      in key XOR drop_bit 20 key)"

text \<open>\<open>None\<close> is a table without shared memory.\<close>

record visited_link_table =
  vt_memory :: "link_hash list option"
  vt_tableSize :: "32 word"
  vt_tableSizeMask :: "32 word"

definition VisitedLinkTable :: visited_link_table where
  "VisitedLinkTable = \<lparr>vt_memory = None, vt_tableSize = 0, vt_tableSizeMask = 0\<rparr>"

definition setSharedMemory :: "link_hash list \<Rightarrow> visited_link_table \<Rightarrow> visited_link_table" where
  "setSharedMemory mem t =
     t\<lparr>vt_memory := Some mem, vt_tableSize := of_nat (length mem),
       vt_tableSizeMask := of_nat (length mem) - 1\<rparr>"

text \<open>
  The loop that \<^verbatim>\<open>addLinkHash\<close> and \<^verbatim>\<open>isLinkVisited\<close> share: it stops at an empty bucket or at
  the hash itself, and answers the bucket and whether it holds the hash.
\<close>

partial_function (option) probe ::
    "link_hash list \<Rightarrow> 32 word \<Rightarrow> link_hash \<Rightarrow> 32 word \<Rightarrow> 32 word \<Rightarrow> 32 word \<Rightarrow> (nat \<times> bool) option"
where
  "probe table sizeMask linkHash h k i =
     (if table ! unat i = 0 then Some (unat i, False)
      else if table ! unat i = linkHash then Some (unat i, True)
      else let k = (if k = 0 then 1 OR doubleHash h else k)
           in probe table sizeMask linkHash h k ((i + k) AND sizeMask))"

definition table_addLinkHash ::
    "link_hash \<Rightarrow> link_hash list \<Rightarrow> 32 word \<Rightarrow> (link_hash list \<times> bool) option" where
  "table_addLinkHash linkHash table sizeMask =
     (let h = ucast linkHash
      in case probe table sizeMask linkHash h 0 (h AND sizeMask) of
           None \<Rightarrow> None
         | Some (i, True) \<Rightarrow> Some (table, False)
         | Some (i, False) \<Rightarrow> Some (table[i := linkHash], True))"

definition addLinkHash ::
    "link_hash \<Rightarrow> visited_link_table \<Rightarrow> (visited_link_table \<times> bool) option" where
  "addLinkHash linkHash t =
     (case vt_memory t of None \<Rightarrow> None
      | Some table \<Rightarrow>
          (case table_addLinkHash linkHash table (vt_tableSizeMask t) of
             None \<Rightarrow> None
           | Some (table', new) \<Rightarrow> Some (t\<lparr>vt_memory := Some table'\<rparr>, new)))"

definition isLinkVisited :: "link_hash \<Rightarrow> visited_link_table \<Rightarrow> bool option" where
  "isLinkVisited linkHash t =
     (case vt_memory t of None \<Rightarrow> Some False
      | Some table \<Rightarrow>
          let h = ucast linkHash
          in map_option snd (probe table (vt_tableSizeMask t) linkHash h 0 (h AND vt_tableSizeMask t)))"

subsection \<open>The probe sequence visits every bucket\<close>

definition probe_step :: "link_hash \<Rightarrow> nat" where
  "probe_step x = unat (1 OR doubleHash (ucast x))"

definition probe_pos :: "nat \<Rightarrow> link_hash \<Rightarrow> nat \<Rightarrow> nat" where
  "probe_pos n x j = (unat (ucast x :: 32 word) + j * probe_step x) mod 2 ^ n"

lemma probe_step_odd: "odd (probe_step x)"
  by (simp add: probe_step_def unsigned_or_eq even_or_iff)

lemma probe_step_nonzero: "(1 OR doubleHash h :: 32 word) \<noteq> 0"
proof
  assume "(1 OR doubleHash h :: 32 word) = 0"
  moreover have "bit (1 OR doubleHash h) 0" by (simp add: bit_or_iff)
  ultimately show False by simp
qed

lemma probe_pos_less [simp]: "probe_pos n x j < 2 ^ n"
  by (simp add: probe_pos_def)

lemma probe_pos_inject:
  assumes "i \<le> j" "j < 2 ^ n" "probe_pos n x i = probe_pos n x j"
  shows "i = j"
proof -
  have "2 ^ n dvd (unat (ucast x :: 32 word) + j * probe_step x)
      - (unat (ucast x :: 32 word) + i * probe_step x)"
    by (subst mod_eq_dvd_iff_nat [symmetric])
      (use assms in \<open>simp_all add: probe_pos_def\<close>)
  hence "2 ^ n dvd (j - i) * probe_step x" by (simp add: diff_mult_distrib)
  moreover have "coprime (2 ^ n) (probe_step x)" using probe_step_odd by simp
  ultimately have "2 ^ n dvd j - i" by (simp add: coprime_dvd_mult_left_iff)
  with assms show ?thesis by (auto dest: dvd_imp_le)
qed

lemma inj_on_probe_pos: "inj_on (probe_pos n x) {..<2 ^ n}"
  by (rule inj_onI) (metis lessThan_iff nat_le_linear probe_pos_inject)

lemma probe_pos_surj:
  assumes "p < 2 ^ n"
  obtains j where "j < 2 ^ n" "probe_pos n x j = p"
proof -
  have "probe_pos n x ` {..<2 ^ n} = {..<2 ^ n}"
    by (rule endo_inj_surj [OF _ _ inj_on_probe_pos]) auto
  with assms that show thesis by (metis imageE lessThan_iff)
qed

lemma unat_and_mask: "unat (w AND mask n :: 32 word) = unat w mod 2 ^ n"
  using unsigned_take_bit_eq [of n w, where ?'a = nat]
  by (simp only: take_bit_eq_mask [symmetric]) (simp only: take_bit_eq_mod)

lemma probe_pos_0: "unat ((ucast x :: 32 word) AND mask n) = probe_pos n x 0"
  by (simp add: unat_and_mask probe_pos_def)

lemma probe_pos_Suc:
  assumes "n \<le> 32" "unat i = probe_pos n x j"
  shows "unat ((i + (1 OR doubleHash (ucast x))) AND mask n :: 32 word) = probe_pos n x (Suc j)"
proof -
  have "unat (i + (1 OR doubleHash (ucast x)) :: 32 word) = (probe_pos n x j + probe_step x) mod 2 ^ 32"
    using assms(2) by (simp add: unat_word_ariths probe_step_def)
  moreover have "m mod 2 ^ 32 mod 2 ^ n = m mod 2 ^ n" for m :: nat
    by (rule mod_mod_cancel [OF le_imp_power_dvd [OF assms(1)]])
  ultimately show ?thesis
    by (simp add: unat_and_mask probe_pos_def mod_simps algebra_simps)
qed

text \<open>The search ends at the first bucket on the sequence that is empty or holds the hash.\<close>

lemma probe_finds:
  assumes "n \<le> 32" "length table = 2 ^ n"
    and stop: "table ! probe_pos n x J = 0 \<or> table ! probe_pos n x J = x"
    and before: "\<And>j. j < J \<Longrightarrow> table ! probe_pos n x j \<noteq> 0 \<and> table ! probe_pos n x j \<noteq> x"
  shows "\<lbrakk>j \<le> J; unat i = probe_pos n x j; k = 0 \<or> k = 1 OR doubleHash (ucast x)\<rbrakk> \<Longrightarrow>
    probe table (mask n) x (ucast x) k i
      = Some (probe_pos n x J, table ! probe_pos n x J \<noteq> 0)"
proof (induction "J - j" arbitrary: j i k)
  case 0
  hence "j = J" by simp
  with stop 0 show ?case by (subst probe.simps) auto
next
  case (Suc d)
  hence "j < J" by simp
  from before [OF this] have "table ! unat i \<noteq> 0" "table ! unat i \<noteq> x" using Suc by simp_all
  hence "probe table (mask n) x (ucast x) k i
      = probe table (mask n) x (ucast x) (1 OR doubleHash (ucast x))
          ((i + (1 OR doubleHash (ucast x))) AND mask n)"
    using Suc.prems(3) probe_step_nonzero [of "ucast x"]
    by (subst probe.simps) (auto simp: Let_def)
  also have "\<dots> = Some (probe_pos n x J, table ! probe_pos n x J \<noteq> 0)"
    by (rule Suc.hyps(1) [of "Suc j"])
      (use Suc \<open>j < J\<close> probe_pos_Suc [OF assms(1) Suc.prems(2)] in auto)
  finally show ?case .
qed

subsection \<open>The table is a set\<close>

text \<open>
  The invariant of open addressing: every hash in the table is found by its own probe sequence
  before an empty bucket. (It follows that no hash is stored twice.)
\<close>

definition reached_at :: "nat \<Rightarrow> link_hash list \<Rightarrow> link_hash \<Rightarrow> nat \<Rightarrow> bool" where
  "reached_at n table x j \<longleftrightarrow> j < 2 ^ n \<and> table ! probe_pos n x j = x
     \<and> (\<forall>j'<j. table ! probe_pos n x j' \<noteq> 0 \<and> table ! probe_pos n x j' \<noteq> x)"

definition table_ok :: "nat \<Rightarrow> link_hash list \<Rightarrow> bool" where
  "table_ok n table \<longleftrightarrow> n \<le> 32 \<and> length table = 2 ^ n
     \<and> (\<forall>p < 2 ^ n. table ! p \<noteq> 0 \<longrightarrow>
          (\<exists>j. reached_at n table (table ! p) j \<and> probe_pos n (table ! p) j = p))"

definition table_links :: "link_hash list \<Rightarrow> link_hash set" where
  "table_links table = set table - {0}"

definition table_room :: "link_hash list \<Rightarrow> nat" where
  "table_room table = count_list table 0"

lemma table_room_pos: "0 < table_room table \<longleftrightarrow> (\<exists>p < length table. table ! p = 0)"
proof -
  have "0 < table_room table \<longleftrightarrow> 0 \<in> set table"
    unfolding table_room_def by (metis count_list_0_iff neq0_conv)
  thus ?thesis by (auto simp: in_set_conv_nth)
qed

text \<open>Where the search for \<open>x\<close> stops, in a table with room.\<close>

lemma search_stops:
  assumes ok: "table_ok n table" and room: "0 < table_room table"
  obtains J where "table ! probe_pos n x J = 0 \<or> table ! probe_pos n x J = x"
    and "\<And>j. j < J \<Longrightarrow> table ! probe_pos n x j \<noteq> 0 \<and> table ! probe_pos n x j \<noteq> x"
    and "J < 2 ^ n"
proof -
  let ?stop = "\<lambda>j. table ! probe_pos n x j = 0 \<or> table ! probe_pos n x j = x"
  obtain p where "p < 2 ^ n" "table ! p = 0"
    using ok room by (auto simp: table_room_pos table_ok_def)
  then obtain j0 where j0: "j0 < 2 ^ n" "?stop j0" by (metis probe_pos_surj)
  let ?J = "LEAST j. ?stop j"
  have "?stop ?J" using j0(2) by (rule LeastI)
  moreover have "\<not> ?stop j" if "j < ?J" for j using that by (rule not_less_Least)
  moreover have "?J < 2 ^ n" using Least_le [of ?stop, OF j0(2)] j0(1) by simp
  ultimately show thesis using that by blast
qed

lemma search_decides:
  assumes ok: "table_ok n table" and x: "x \<noteq> 0"
    and stop: "table ! probe_pos n x J = 0 \<or> table ! probe_pos n x J = x"
    and before: "\<And>j. j < J \<Longrightarrow> table ! probe_pos n x j \<noteq> 0 \<and> table ! probe_pos n x j \<noteq> x"
  shows "table ! probe_pos n x J \<noteq> 0 \<longleftrightarrow> x \<in> table_links table"
proof
  assume "table ! probe_pos n x J \<noteq> 0"
  with stop have "table ! probe_pos n x J = x" by simp
  moreover have "probe_pos n x J < length table" using ok by (simp add: table_ok_def)
  ultimately have "x \<in> set table" by (metis nth_mem)
  with x show "x \<in> table_links table" by (simp add: table_links_def)
next
  assume "x \<in> table_links table"
  then obtain p where p: "p < 2 ^ n" "table ! p = x"
    using ok by (auto simp: table_links_def table_ok_def in_set_conv_nth)
  then obtain j where j: "reached_at n table x j" using ok x by (auto simp: table_ok_def)
  have "J = j"
  proof (rule antisym)
    show "J \<le> j" using j before [of j] unfolding reached_at_def by (metis linorder_not_less)
    show "j \<le> J" using j stop unfolding reached_at_def by (metis linorder_not_less)
  qed
  with j x show "table ! probe_pos n x J \<noteq> 0" by (simp add: reached_at_def)
qed

lemma probe_eq:
  assumes ok: "table_ok n table" and room: "0 < table_room table" and x: "x \<noteq> 0"
  obtains J where "probe table (mask n) x (ucast x) 0 (ucast x AND mask n)
      = Some (probe_pos n x J, x \<in> table_links table)"
    and "J < 2 ^ n" "table ! probe_pos n x J = (if x \<in> table_links table then x else 0)"
    and "\<And>j. j < J \<Longrightarrow> table ! probe_pos n x j \<noteq> 0 \<and> table ! probe_pos n x j \<noteq> x"
proof -
  obtain J where J: "table ! probe_pos n x J = 0 \<or> table ! probe_pos n x J = x"
    "\<And>j. j < J \<Longrightarrow> table ! probe_pos n x j \<noteq> 0 \<and> table ! probe_pos n x j \<noteq> x" "J < 2 ^ n"
    using search_stops [OF ok room] by metis
  have dec: "table ! probe_pos n x J \<noteq> 0 \<longleftrightarrow> x \<in> table_links table"
    by (rule search_decides [OF ok x J(1,2)])
  have "probe table (mask n) x (ucast x) 0 (ucast x AND mask n)
      = Some (probe_pos n x J, table ! probe_pos n x J \<noteq> 0)"
    by (rule probe_finds [OF _ _ J(1,2)])
      (use ok probe_pos_0 [of x n] in \<open>auto simp: table_ok_def\<close>)
  with dec J that [of J] show thesis by (cases "x \<in> table_links table") simp_all
qed

lemma reached_at_update:
  assumes "reached_at n table y j" "table ! p = 0" "y \<noteq> 0" "x \<noteq> 0" "x \<noteq> y" "p < length table"
  shows "reached_at n (table[p := x]) y j"
  using assms by (auto simp: reached_at_def nth_list_update)

lemma table_ok_insert:
  assumes ok: "table_ok n table" and x: "x \<noteq> 0" "x \<notin> table_links table" and J: "J < 2 ^ n"
    and empty: "table ! probe_pos n x J = 0"
    and before: "\<And>j. j < J \<Longrightarrow> table ! probe_pos n x j \<noteq> 0 \<and> table ! probe_pos n x j \<noteq> x"
  shows "table_ok n (table[probe_pos n x J := x])" (is "table_ok n ?t")
proof -
  have len: "probe_pos n x J < length table" using ok by (simp add: table_ok_def)
  have "\<exists>j. reached_at n ?t (?t ! p) j \<and> probe_pos n (?t ! p) j = p"
    if p: "p < 2 ^ n" "?t ! p \<noteq> 0" for p
  proof (cases "p = probe_pos n x J")
    case True
    have "probe_pos n x j \<noteq> probe_pos n x J" if "j < J" for j
      using that J probe_pos_inject [of j J n x] by auto
    hence "\<forall>j<J. ?t ! probe_pos n x j = table ! probe_pos n x j"
      by (metis nth_list_update_neq)
    hence "reached_at n ?t x J" using before J len by (simp add: reached_at_def)
    with True len show ?thesis by auto
  next
    case False
    with p have tp: "?t ! p = table ! p" "table ! p \<noteq> 0" by simp_all
    then obtain j where j: "reached_at n table (table ! p) j" "probe_pos n (table ! p) j = p"
      using ok p(1) by (auto simp: table_ok_def)
    have "table ! p \<in> set table" using ok p(1) by (simp add: table_ok_def)
    hence "x \<noteq> table ! p" using x tp(2) by (auto simp: table_links_def)
    with reached_at_update [OF j(1) empty tp(2) x(1) _ len] j(2) tp(1) show ?thesis by auto
  qed
  with ok show ?thesis by (auto simp: table_ok_def)
qed

lemma table_links_insert:
  assumes "p < length table" "table ! p = 0" "x \<noteq> 0"
  shows "table_links (table[p := x]) = insert x (table_links table)"
proof -
  have "set (table[p := x]) \<subseteq> insert x (set table)" by (rule set_update_subset_insert)
  moreover have "y \<in> set (table[p := x])" if "y \<in> set table" "y \<noteq> 0" for y
  proof -
    obtain q where "q < length table" "table ! q = y" using \<open>y \<in> set table\<close> by (metis in_set_conv_nth)
    with assms that show ?thesis by (metis length_list_update nth_list_update_neq nth_mem)
  qed
  moreover have "x \<in> set (table[p := x])" using assms by (simp add: set_update_memI)
  ultimately show ?thesis using assms(3) by (auto simp: table_links_def)
qed

lemma count_list_update:
  assumes "p < length table" "table ! p = 0" "x \<noteq> 0"
  shows "table_room (table[p := x]) = table_room table - 1"
proof -
  obtain xs ys where "table = xs @ 0 # ys" "length xs = p"
    using assms id_take_nth_drop [of p table] by (metis length_take min.absorb4)
  thus ?thesis using assms(3) by (auto simp: table_room_def)
qed

lemma table_addLinkHash_spec:
  assumes ok: "table_ok n table" and room: "0 < table_room table" and x: "x \<noteq> 0"
  shows "\<exists>table'. table_addLinkHash x table (mask n) = Some (table', x \<notin> table_links table)
    \<and> table_ok n table' \<and> table_links table' = insert x (table_links table)
    \<and> table_room table' = (if x \<in> table_links table then table_room table else table_room table - 1)"
proof -
  obtain J where J: "probe table (mask n) x (ucast x) 0 (ucast x AND mask n)
      = Some (probe_pos n x J, x \<in> table_links table)"
    "J < 2 ^ n" "table ! probe_pos n x J = (if x \<in> table_links table then x else 0)"
    "\<And>j. j < J \<Longrightarrow> table ! probe_pos n x j \<noteq> 0 \<and> table ! probe_pos n x j \<noteq> x"
    using probe_eq [OF ok room x] by metis
  show ?thesis
  proof (cases "x \<in> table_links table")
    case True
    with J(1) ok show ?thesis by (auto simp: table_addLinkHash_def Let_def)
  next
    case False
    have len: "probe_pos n x J < length table" using ok by (simp add: table_ok_def)
    have empty: "table ! probe_pos n x J = 0" using J(3) False by simp
    from J(1) False have "table_addLinkHash x table (mask n) = Some (table[probe_pos n x J := x], True)"
      by (simp add: table_addLinkHash_def Let_def)
    with False table_ok_insert [OF ok x False J(2) empty J(4)] table_links_insert [OF len empty x]
      count_list_update [OF len empty x]
    show ?thesis by simp
  qed
qed

text \<open>The interface of the table as a set, for a table that has its shared memory.\<close>

definition vt_sized :: "nat \<Rightarrow> visited_link_table \<Rightarrow> bool" where
  "vt_sized n t \<longleftrightarrow> (\<exists>table. vt_memory t = Some table \<and> table_ok n table
     \<and> vt_tableSizeMask t = mask n)"

definition vt_links :: "visited_link_table \<Rightarrow> link_hash set" where
  "vt_links t = (case vt_memory t of None \<Rightarrow> {} | Some table \<Rightarrow> table_links table)"

definition vt_room :: "visited_link_table \<Rightarrow> nat" where
  "vt_room t = (case vt_memory t of None \<Rightarrow> 0 | Some table \<Rightarrow> table_room table)"

lemma isLinkVisited_spec:
  assumes "vt_sized n t" "0 < vt_room t" "x \<noteq> 0"
  shows "isLinkVisited x t = Some (x \<in> vt_links t)"
proof -
  obtain table where t: "vt_memory t = Some table" "table_ok n table" "vt_tableSizeMask t = mask n"
    using assms(1) by (auto simp: vt_sized_def)
  have room: "0 < table_room table" using assms(2) t(1) by (simp add: vt_room_def)
  obtain J where "probe table (mask n) x (ucast x) 0 (ucast x AND mask n)
      = Some (probe_pos n x J, x \<in> table_links table)"
    using probe_eq [OF t(2) room assms(3)] by metis
  with t show ?thesis by (simp add: isLinkVisited_def vt_links_def Let_def)
qed

lemma addLinkHash_spec:
  assumes "vt_sized n t" "0 < vt_room t" "x \<noteq> 0"
  shows "\<exists>t'. addLinkHash x t = Some (t', x \<notin> vt_links t) \<and> vt_sized n t'
    \<and> vt_links t' = insert x (vt_links t)
    \<and> vt_room t' = (if x \<in> vt_links t then vt_room t else vt_room t - 1)"
proof -
  obtain table where t: "vt_memory t = Some table" "table_ok n table" "vt_tableSizeMask t = mask n"
    using assms(1) by (auto simp: vt_sized_def)
  have room: "0 < table_room table" using assms(2) t(1) by (simp add: vt_room_def)
  obtain table' where "table_addLinkHash x table (mask n) = Some (table', x \<notin> table_links table)"
    "table_ok n table'" "table_links table' = insert x (table_links table)"
    "table_room table' = (if x \<in> table_links table then table_room table else table_room table - 1)"
    using table_addLinkHash_spec [OF t(2) room assms(3)] by auto
  with t show ?thesis
    by (intro exI [of _ "t\<lparr>vt_memory := Some table'\<rparr>"])
      (auto simp: addLinkHash_def vt_sized_def vt_links_def vt_room_def)
qed

interpretation visited: bounded_set "vt_sized n" vt_links vt_room "\<lambda>x. x \<noteq> 0" addLinkHash
    isLinkVisited for n
  by unfold_locales (simp_all add: isLinkVisited_spec addLinkHash_spec)

lemma table_distinct:
  assumes ok: "table_ok n table" and p: "p < 2 ^ n" "q < 2 ^ n" "table ! p = table ! q" "table ! p \<noteq> 0"
  shows "p = q"
proof -
  obtain i where i: "reached_at n table (table ! p) i" "probe_pos n (table ! p) i = p"
    using ok p by (auto simp: table_ok_def)
  obtain j where j: "reached_at n table (table ! p) j" "probe_pos n (table ! p) j = q"
    using ok p by (metis table_ok_def)
  have "i = j" using i(1) j(1) unfolding reached_at_def by (metis linorder_neqE_nat)
  with i j show ?thesis by simp
qed

lemma count_list_zeros: "count_list xs y + length (filter (\<lambda>x. x \<noteq> y) xs) = length xs"
  by (induction xs) auto

lemma room_and_links:
  assumes ok: "table_ok n table"
  shows "table_room table + card (table_links table) = 2 ^ n"
proof -
  have "distinct (filter (\<lambda>x. x \<noteq> 0) xs)"
    if "\<And>p q. \<lbrakk>p < length xs; q < length xs; xs ! p = xs ! q; xs ! p \<noteq> 0\<rbrakk> \<Longrightarrow> p = q"
    for xs :: "link_hash list"
    using that
  proof (induction xs)
    case (Cons x xs)
    have "distinct (filter (\<lambda>x. x \<noteq> 0) xs)"
    proof (rule Cons.IH)
      fix p q assume "p < length xs" "q < length xs" "xs ! p = xs ! q" "xs ! p \<noteq> 0"
      with Cons.prems [of "Suc p" "Suc q"] show "p = q" by simp
    qed
    moreover have "x \<notin> set xs" if "x \<noteq> 0"
    proof
      assume "x \<in> set xs"
      then obtain p where "p < length xs" "xs ! p = x" by (metis in_set_conv_nth)
      with Cons.prems [of 0 "Suc p"] that show False by simp
    qed
    ultimately show ?case by simp
  qed simp
  hence "distinct (filter (\<lambda>x. x \<noteq> 0) table)"
    using ok table_distinct [OF ok] by (simp add: table_ok_def)
  hence "length (filter (\<lambda>x. x \<noteq> 0) table) = card (set (filter (\<lambda>x. x \<noteq> 0) table))"
    by (rule distinct_card [symmetric])
  also have "set (filter (\<lambda>x. x \<noteq> 0) table) = table_links table" by (auto simp: table_links_def)
  finally show ?thesis
    using count_list_zeros [of table 0] ok by (simp add: table_room_def table_ok_def)
qed

subsection \<open>The size of the table\<close>

definition nextPowerOf2 :: "32 word \<Rightarrow> 32 word" where
  "nextPowerOf2 v0 =
     (let v = v0 - 1;
          v = v OR drop_bit 1 v;
          v = v OR drop_bit 2 v;
          v = v OR drop_bit 4 v;
          v = v OR drop_bit 8 v;
          v = v OR drop_bit 16 v
      in v + 1)"

definition VisitedLinkTableMaxLoad :: "32 word" where
  "VisitedLinkTableMaxLoad = 2"

text \<open>\<open>pageSize\<close> is \<^verbatim>\<open>SharedMemory::systemPageSize()\<close>; a link hash has 8 bytes.\<close>

definition tableSizeForKeyCount :: "nat \<Rightarrow> 32 word \<Rightarrow> 32 word" where
  "tableSizeForKeyCount pageSize keyCount =
     (let tableSize = nextPowerOf2 (keyCount * VisitedLinkTableMaxLoad);
          minimumTableSize = pageSize div 8
      in if unat tableSize < minimumTableSize then of_nat minimumTableSize else tableSize)"

lemma smear_step:
  fixes a w :: "32 word"
  assumes "\<And>i. bit a i \<longleftrightarrow> (\<exists>d<m. bit w (i + d))"
  shows "bit (a OR drop_bit m a) i \<longleftrightarrow> (\<exists>d < m + m. bit w (i + d))"
proof
  assume "bit (a OR drop_bit m a) i"
  then consider d where "d < m" "bit w (i + d)" | d where "d < m" "bit w (i + m + d)"
    by (auto simp: bit_or_iff bit_drop_bit_eq assms add.commute)
  thus "\<exists>d < m + m. bit w (i + d)"
  proof cases
    case (1 d)
    thus ?thesis by (intro exI [of _ d]) simp
  next
    case (2 d)
    thus ?thesis by (intro exI [of _ "m + d"]) (simp add: add.assoc)
  qed
next
  assume "\<exists>d < m + m. bit w (i + d)"
  then obtain d where d: "d < m + m" "bit w (i + d)" by blast
  show "bit (a OR drop_bit m a) i"
  proof (cases "d < m")
    case True
    with d show ?thesis by (auto simp: bit_or_iff assms)
  next
    case False
    with d have "d - m < m" "bit w (i + m + (d - m))" by simp_all
    hence "bit a (m + i)" by (auto simp: assms add.commute)
    thus ?thesis by (simp add: bit_or_iff bit_drop_bit_eq)
  qed
qed

lemma nextPowerOf2_smear:
  obtains s where "nextPowerOf2 v = s + 1" "\<And>i. bit s i \<longleftrightarrow> (\<exists>d<32. bit (v - 1) (i + d))"
proof -
  let ?w = "v - 1 :: 32 word"
  let ?s1 = "?w OR drop_bit 1 ?w"
  let ?s2 = "?s1 OR drop_bit 2 ?s1"
  let ?s4 = "?s2 OR drop_bit 4 ?s2"
  let ?s8 = "?s4 OR drop_bit 8 ?s4"
  let ?s16 = "?s8 OR drop_bit 16 ?s8"
  have 1: "bit ?s1 i \<longleftrightarrow> (\<exists>d<2. bit ?w (i + d))" for i
    using smear_step [of ?w 1 ?w] by (simp add: less_Suc_eq numeral_2_eq_2)
  have 2: "bit ?s2 i \<longleftrightarrow> (\<exists>d<4. bit ?w (i + d))" for i
    using smear_step [of ?s1 2 ?w, OF 1] by simp
  have 4: "bit ?s4 i \<longleftrightarrow> (\<exists>d<8. bit ?w (i + d))" for i
    using smear_step [of ?s2 4 ?w, OF 2] by simp
  have 8: "bit ?s8 i \<longleftrightarrow> (\<exists>d<16. bit ?w (i + d))" for i
    using smear_step [of ?s4 8 ?w, OF 4] by simp
  have 16: "bit ?s16 i \<longleftrightarrow> (\<exists>d<32. bit ?w (i + d))" for i
    using smear_step [of ?s8 16 ?w, OF 8] by simp
  show thesis by (rule that [of ?s16, OF _ 16]) (simp add: nextPowerOf2_def Let_def)
qed

lemma nextPowerOf2_top_bit:
  fixes v :: "32 word"
  assumes "2 ^ m \<le> unat (v - 1)" "unat (v - 1) < 2 ^ Suc m"
  shows "nextPowerOf2 v = 2 ^ Suc m"
proof -
  let ?w = "v - 1"
  obtain s where s: "nextPowerOf2 v = s + 1" "\<And>i. bit s i \<longleftrightarrow> (\<exists>d<32. bit ?w (i + d))"
    using nextPowerOf2_smear [of v] by metis
  have "2 ^ m < (2 :: nat) ^ 32"
    using assms(1) unsigned_less [of ?w, where ?'a = nat] by simp
  hence m: "m < 32" by (simp only: power_strict_increasing_iff one_less_numeral_iff semiring_norm)
  have bit_w: "bit ?w i \<longleftrightarrow> odd (unat ?w div 2 ^ i)" for i
    using bit_unsigned_iff [of ?w i, where ?'a = nat] by (simp add: bit_iff_odd)
  have "unat ?w div 2 ^ m = 1" using assms by (simp add: div_nat_eqI)
  hence top: "bit ?w m" by (simp add: bit_w)
  have above: "\<not> bit ?w i" if "m < i" for i
  proof -
    have "(2 :: nat) ^ Suc m \<le> 2 ^ i" using that by (intro power_increasing) simp_all
    with assms(2) have "unat ?w < 2 ^ i" by linarith
    thus ?thesis by (simp add: bit_w)
  qed
  have "bit s i \<longleftrightarrow> i < Suc m" for i
  proof
    assume "bit s i"
    then obtain d where "bit ?w (i + d)" by (auto simp: s(2))
    with above [of "i + d"] show "i < Suc m" by linarith
  next
    assume "i < Suc m"
    with top m show "bit s i" unfolding s(2) by (intro exI [of _ "m - i"]) simp
  qed
  hence "s = mask (Suc m)"
    using m by (intro bit_eqI) (simp add: bit_mask_iff)
  with s(1) show ?thesis by (simp add: mask_eq_exp_minus_1)
qed

lemma nextPowerOf2_spec:
  assumes "1 \<le> unat v" "unat v \<le> 2 ^ 31"
  obtains n where "n \<le> 31" "nextPowerOf2 v = 2 ^ n" "unat v \<le> 2 ^ n" "\<And>m. unat v \<le> 2 ^ m \<Longrightarrow> n \<le> m"
proof (cases "unat v = 1")
  case True
  hence "v = 1" by (metis unat_1 word_unat_eq_iff)
  with that [of 0] show thesis by (simp add: nextPowerOf2_def)
next
  case False
  have w: "unat (v - 1) = unat v - 1"
    using assms(1) by (subst unat_sub) (simp_all add: word_le_nat_alt)
  have "\<exists>m. 2 ^ m \<le> unat (v - 1) \<and> unat (v - 1) < 2 ^ (m + 1)"
    using False assms(1) w by (intro ex_power_ivl1) simp_all
  then obtain m where m: "2 ^ m \<le> unat (v - 1)" "unat (v - 1) < 2 ^ Suc m" by auto
  have "(2 :: nat) ^ m < 2 ^ 31" using m(1) assms w False by simp
  hence "m < 31" by (simp only: power_strict_increasing_iff one_less_numeral_iff semiring_norm)
  moreover have "Suc m \<le> k" if "unat v \<le> 2 ^ k" for k
  proof -
    have "(2 :: nat) ^ m < 2 ^ k" using m(1) that w False assms(1) by linarith
    thus ?thesis by simp
  qed
  moreover have "unat v \<le> 2 ^ Suc m" using m(2) w by linarith
  ultimately show thesis using that [of "Suc m"] nextPowerOf2_top_bit [OF m] by simp
qed

lemma nextPowerOf2_0: "nextPowerOf2 0 = 0"
  by (simp add: nextPowerOf2_def)

subsection \<open>The provider\<close>

datatype visited_link_message =
    VisitedLinkStateChanged "link_hash list"
  | AllVisitedLinkStateChanged
  | SetVisitedLinkTable

record visited_link_provider =
  vp_processes :: "nat \<Rightarrow> nat"
  vp_with :: "nat list"
  vp_without :: "nat list"
  vp_keyCount :: "32 word"
  vp_tableSize :: "32 word"
  vp_table :: visited_link_table
  vp_pending :: "link_hash list"
  vp_timer :: bool
  vp_sent :: "(nat \<times> visited_link_message) list"

definition VisitedLinkProvider :: visited_link_provider where
  "VisitedLinkProvider = \<lparr>vp_processes = (\<lambda>_. 0), vp_with = [], vp_without = [], vp_keyCount = 0,
     vp_tableSize = 0, vp_table = VisitedLinkTable, vp_pending = [], vp_timer = False, vp_sent = []\<rparr>"

text \<open>\<^verbatim>\<open>HashSet::add\<close>; a hash set is iterated in some order, that of the list.\<close>

definition hashset_add :: "'a \<Rightarrow> 'a list \<Rightarrow> 'a list" where
  "hashset_add x xs = (if x \<in> set xs then xs else xs @ [x])"

definition provider_addProcess :: "nat \<Rightarrow> visited_link_provider \<Rightarrow> visited_link_provider" where
  "provider_addProcess proc p = p\<lparr>vp_processes := (vp_processes p)(proc := vp_processes p proc + 1)\<rparr>"

definition provider_removeProcess :: "nat \<Rightarrow> visited_link_provider \<Rightarrow> visited_link_provider" where
  "provider_removeProcess proc p =
     p\<lparr>vp_processes := (vp_processes p)(proc := vp_processes p proc - 1)\<rparr>"

definition processDidFinishLaunching :: "nat \<Rightarrow> visited_link_provider \<Rightarrow> visited_link_provider" where
  "processDidFinishLaunching proc p =
     (let p = p\<lparr>vp_without := hashset_add proc (vp_without p)\<rparr>
      in if vp_keyCount p \<noteq> 0 then p\<lparr>vp_timer := True\<rparr> else p)"

definition addVisitedLink :: "link_hash \<Rightarrow> visited_link_provider \<Rightarrow> visited_link_provider" where
  "addVisitedLink linkHash p =
     (let p = p\<lparr>vp_pending := hashset_add linkHash (vp_pending p)\<rparr>
      in if \<not> vp_timer p then p\<lparr>vp_timer := True\<rparr> else p)"

definition processDidClose :: "nat \<Rightarrow> visited_link_provider \<Rightarrow> visited_link_provider" where
  "processDidClose proc p =
     p\<lparr>vp_with := removeAll proc (vp_with p), vp_without := removeAll proc (vp_without p)\<rparr>"

text \<open>Re-adding the old table's hashes; the answer of \<^verbatim>\<open>addLinkHash\<close> is only asserted on.\<close>

fun readd_links :: "link_hash list \<Rightarrow> visited_link_table \<Rightarrow> visited_link_table option" where
  "readd_links [] t = Some t"
| "readd_links (x # xs) t =
     (if x = 0 then readd_links xs t
      else case addLinkHash x t of None \<Rightarrow> None | Some (t', _) \<Rightarrow> readd_links xs t')"

fun add_pending :: "link_hash list \<Rightarrow> visited_link_table \<Rightarrow> (visited_link_table \<times> link_hash list) option" where
  "add_pending [] t = Some (t, [])"
| "add_pending (x # xs) t =
     (case addLinkHash x t of None \<Rightarrow> None
      | Some (t', new) \<Rightarrow> (case add_pending xs t' of None \<Rightarrow> None
          | Some (t'', added) \<Rightarrow> Some (t'', (if new then x # added else added))))"

definition notify_process ::
    "bool \<Rightarrow> link_hash list \<Rightarrow> nat \<Rightarrow> visited_link_provider \<Rightarrow> visited_link_provider" where
  "notify_process resized added proc p =
     (if resized then p\<lparr>vp_without := hashset_add proc (vp_without p)\<rparr>
      else if length added \<le> 20
           then p\<lparr>vp_sent := vp_sent p @ [(proc, VisitedLinkStateChanged added)]\<rparr>
           else p\<lparr>vp_sent := vp_sent p @ [(proc, AllVisitedLinkStateChanged)]\<rparr>)"

text \<open>A failure to create a handle leaves the function, with the rest of the processes untold.\<close>

fun share_table ::
    "(nat \<Rightarrow> bool) \<Rightarrow> nat list \<Rightarrow> visited_link_provider \<Rightarrow> visited_link_provider" where
  "share_table handle_ok [] p = p\<lparr>vp_without := []\<rparr>"
| "share_table handle_ok (proc # procs) p =
     (if \<not> handle_ok proc then p
      else share_table handle_ok procs
             (p\<lparr>vp_sent := vp_sent p @ [(proc, SetVisitedLinkTable), (proc, AllVisitedLinkStateChanged)],
                vp_with := hashset_add proc (vp_with p)\<rparr>))"

text \<open>The table the pending links are added to: a new one that holds the old links when it has to
  grow. The outer \<open>None\<close> is a loop that does not end, the inner one a failed allocation.\<close>

definition resize_table ::
    "bool \<Rightarrow> 32 word \<Rightarrow> visited_link_provider \<Rightarrow> visited_link_provider option option" where
  "resize_table alloc_ok newTableSize p =
     (if vp_tableSize p = newTableSize then Some (Some p)
      else if \<not> alloc_ok then Some None
      else let current = vt_memory (vp_table p);
               table = setSharedMemory (replicate (unat newTableSize) 0) (vp_table p);
               p = p\<lparr>vp_tableSize := newTableSize\<rparr>
           in case current of None \<Rightarrow> Some (Some (p\<lparr>vp_table := table\<rparr>))
              | Some hashes \<Rightarrow> (case readd_links hashes table of None \<Rightarrow> None
                  | Some table \<Rightarrow> Some (Some (p\<lparr>vp_table := table\<rparr>))))"

definition pendingVisitedLinksTimerFired ::
    "nat \<Rightarrow> bool \<Rightarrow> (nat \<Rightarrow> bool) \<Rightarrow> visited_link_provider \<Rightarrow> visited_link_provider option" where
  "pendingVisitedLinksTimerFired pageSize alloc_ok handle_ok p0 =
     (let pending = vp_pending p0;
          p = p0\<lparr>vp_pending := [], vp_timer := False\<rparr>;
          currentTableSize = vp_tableSize p;
          newTableSize = max currentTableSize
            (tableSizeForKeyCount pageSize (vp_keyCount p + of_nat (length pending)))
      in case resize_table alloc_ok newTableSize p of
           None \<Rightarrow> None
         | Some None \<Rightarrow> Some p
         | Some (Some p) \<Rightarrow>
             (case add_pending pending (vp_table p) of
                None \<Rightarrow> None
              | Some (table, added) \<Rightarrow>
                  let p = p\<lparr>vp_table := table, vp_keyCount := vp_keyCount p + of_nat (length pending)\<rparr>;
                      p = fold (notify_process (currentTableSize \<noteq> newTableSize) added) (vp_with p) p
                  in Some (share_table handle_ok (vp_without p) p)))"

subsection \<open>No link is lost\<close>

lemma add_pending_add_all: "add_pending xs t = visited.add_all xs t"
  by (induction xs arbitrary: t) (auto split: option.splits)

lemma readd_links_add_all:
  "readd_links xs t = map_option fst (visited.add_all (filter (\<lambda>x. x \<noteq> 0) xs) t)"
  by (induction xs arbitrary: t) (auto split: option.splits)

lemma vt_room_links: "vt_sized n t \<Longrightarrow> vt_room t + card (vt_links t) = 2 ^ n"
  using room_and_links by (auto simp: vt_sized_def vt_room_def vt_links_def)

lemma unat_2_power: "n \<le> 31 \<Longrightarrow> unat (2 ^ n :: 32 word) = 2 ^ n"
proof -
  assume "n \<le> 31"
  hence "(2 :: nat) ^ n < 2 ^ 32" by (intro power_strict_increasing) simp_all
  hence "unat (of_nat (2 ^ n) :: 32 word) = 2 ^ n"
    by (subst unat_of_nat) (intro mod_less, simp)
  thus ?thesis by (simp only: of_nat_power of_nat_numeral)
qed

lemma tableSizeForKeyCount_spec:
  assumes "pageSize = 8 * 2 ^ b" "b \<le> 31" "2 * unat keyCount \<le> 2 ^ 31"
  obtains n where "n \<le> 31" "tableSizeForKeyCount pageSize keyCount = 2 ^ n"
    "2 * unat keyCount \<le> 2 ^ n" "b \<le> n"
proof -
  have u: "unat (keyCount * 2) = 2 * unat keyCount"
    using assms(3) by (simp add: unat_word_ariths)
  let ?ts = "nextPowerOf2 (keyCount * VisitedLinkTableMaxLoad)"
  have page: "tableSizeForKeyCount pageSize keyCount = (if unat ?ts < 2 ^ b then 2 ^ b else ?ts)"
    using assms(1) by (simp add: tableSizeForKeyCount_def Let_def)
  show thesis
  proof (cases "keyCount = 0")
    case True
    with page have "tableSizeForKeyCount pageSize keyCount = 2 ^ b"
      by (simp add: VisitedLinkTableMaxLoad_def nextPowerOf2_0)
    with that [of b] assms True show thesis by simp
  next
    case False
    hence "0 < unat keyCount" by (simp add: unat_gt_0)
    hence "1 \<le> unat (keyCount * 2)" "unat (keyCount * 2) \<le> 2 ^ 31" using u assms(3) by simp_all
    then obtain n where n: "n \<le> 31" "nextPowerOf2 (keyCount * 2) = 2 ^ n" "unat (keyCount * 2) \<le> 2 ^ n"
      using nextPowerOf2_spec by metis
    show thesis
    proof (cases "n < b")
      case True
      hence "(2 :: nat) ^ n < 2 ^ b" by simp
      with page n True have "tableSizeForKeyCount pageSize keyCount = 2 ^ b"
        by (simp add: VisitedLinkTableMaxLoad_def unat_2_power)
      moreover have "2 * unat keyCount \<le> 2 ^ b" using n(3) u \<open>(2 :: nat) ^ n < 2 ^ b\<close> by linarith
      ultimately show thesis using that [of b] assms(2) by simp
    next
      case False
      with page n have "tableSizeForKeyCount pageSize keyCount = 2 ^ n"
        by (simp add: VisitedLinkTableMaxLoad_def unat_2_power)
      with that [of n] n u False show thesis by simp
    qed
  qed
qed

lemma fresh_table:
  assumes "n \<le> 31"
  shows "vt_sized n (setSharedMemory (replicate (unat (2 ^ n :: 32 word)) 0) t)"
    "vt_links (setSharedMemory (replicate (unat (2 ^ n :: 32 word)) 0) t) = {}"
  using assms
  by (simp_all add: vt_sized_def vt_links_def setSharedMemory_def table_ok_def table_links_def
      unat_2_power mask_eq_exp_minus_1)

definition provider_inv :: "visited_link_provider \<Rightarrow> bool" where
  "provider_inv p \<longleftrightarrow>
     distinct (vp_pending p) \<and> 0 \<notin> set (vp_pending p)
     \<and> (if vt_memory (vp_table p) = None then vp_tableSize p = 0 \<and> vp_keyCount p = 0
        else \<exists>n \<le> 31. vt_sized n (vp_table p) \<and> vp_tableSize p = 2 ^ n
          \<and> card (vt_links (vp_table p)) \<le> unat (vp_keyCount p)
          \<and> 2 * unat (vp_keyCount p) \<le> 2 ^ n)"

lemma distinct_links: "table_ok n table \<Longrightarrow> distinct (filter (\<lambda>x. x \<noteq> 0) table)"
proof -
  assume ok: "table_ok n table"
  have "set (filter (\<lambda>x. x \<noteq> 0) table) = table_links table" by (auto simp: table_links_def)
  moreover have "length (filter (\<lambda>x. x \<noteq> 0) table) = card (table_links table)"
    using room_and_links [OF ok] count_list_zeros [of table 0] ok
    by (simp add: table_ok_def table_room_def)
  ultimately show "distinct (filter (\<lambda>x. x \<noteq> 0) table)" by (intro card_distinct) simp
qed

lemma max_2_power:
  assumes "m \<le> 31" "n \<le> 31"
  shows "max (2 ^ m) (2 ^ n) = (2 ^ max m n :: 32 word)"
  using assms by (auto simp: max_def word_le_nat_alt unat_2_power)

lemma resize_table_keeps_links:
  assumes inv: "provider_inv p" and n: "n \<le> 31"
    and need: "2 * unat (vp_keyCount p) \<le> 2 ^ n"
    and size: "newSize = 2 ^ n"
  shows "\<exists>q. resize_table True newSize p = Some (Some q) \<and> vt_sized n (vp_table q)
    \<and> vt_links (vp_table q) = vt_links (vp_table p) \<and> vp_tableSize q = 2 ^ n
    \<and> vp_keyCount q = vp_keyCount p \<and> vp_with q = vp_with p \<and> vp_without q = vp_without p
    \<and> vp_sent q = vp_sent p \<and> vp_pending q = vp_pending p"
proof (cases "vt_memory (vp_table p)")
  case None
  hence "vp_tableSize p = 0" using inv by (simp add: provider_inv_def)
  moreover have "(2 ^ n :: 32 word) \<noteq> 0" using n unat_2_power [OF n] by (metis power_not_zero unat_0 zero_neq_numeral)
  ultimately show ?thesis
    using None n fresh_table [OF n, of "vp_table p"] size
    by (simp add: resize_table_def Let_def vt_links_def)
next
  case (Some table)
  then obtain m where m: "m \<le> 31" "vt_sized m (vp_table p)" "vp_tableSize p = 2 ^ m"
      "card (vt_links (vp_table p)) \<le> unat (vp_keyCount p)"
    using inv by (auto simp: provider_inv_def)
  have ok: "table_ok m table" using m(2) Some by (simp add: vt_sized_def)
  let ?fresh = "setSharedMemory (replicate (unat (2 ^ n :: 32 word)) 0) (vp_table p)"
  let ?xs = "filter (\<lambda>x. x \<noteq> 0) table"
  have links: "set ?xs = vt_links (vp_table p)"
    using Some by (auto simp: vt_links_def table_links_def)
  show ?thesis
  proof (cases "vp_tableSize p = newSize")
    case True
    hence "m = n" using m(1,3) n size unat_2_power by (metis power_inject_exp one_less_numeral_iff semiring_norm(76))
    with True m show ?thesis by (simp add: resize_table_def)
  next
    case False
    have "length ?xs = card (vt_links (vp_table p))"
      using distinct_card [OF distinct_links [OF ok]] links by simp
    moreover have "card (vt_links (vp_table p)) < 2 ^ n"
      using need m(4) zero_less_power [of "2::nat" n] by linarith
    ultimately have "length ?xs < vt_room ?fresh"
      using vt_room_links [OF fresh_table(1) [OF n, of "vp_table p"]] fresh_table(2) [OF n, of "vp_table p"]
      by simp
    hence "\<exists>t'. visited.add_all ?xs ?fresh = Some (t', filter (\<lambda>x. x \<notin> vt_links ?fresh) ?xs)
        \<and> vt_sized n t' \<and> vt_links t' = vt_links ?fresh \<union> set ?xs
        \<and> vt_room t' = vt_room ?fresh - length (filter (\<lambda>x. x \<notin> vt_links ?fresh) ?xs)"
      by (intro visited.add_all_spec [OF fresh_table(1) [OF n] distinct_links [OF ok]]) simp_all
    then obtain t' where t': "visited.add_all ?xs ?fresh = Some (t', filter (\<lambda>x. x \<notin> vt_links ?fresh) ?xs)"
        "vt_sized n t'" "vt_links t' = vt_links ?fresh \<union> set ?xs"
      by blast
    hence "readd_links table ?fresh = Some t'" by (simp add: readd_links_add_all)
    with False Some t' links fresh_table(2) [OF n, of "vp_table p"] size show ?thesis
      by (simp add: resize_table_def Let_def)
  qed
qed

lemma fold_notify_resized:
  "fold (notify_process True added) procs p
     = p\<lparr>vp_without := fold hashset_add procs (vp_without p)\<rparr>"
  by (induction procs arbitrary: p) (simp_all add: notify_process_def)

lemma fold_notify_same:
  "fold (notify_process False added) procs p
     = p\<lparr>vp_sent := vp_sent p @ map (\<lambda>proc. (proc, if length added \<le> 20
          then VisitedLinkStateChanged added else AllVisitedLinkStateChanged)) procs\<rparr>"
  by (induction procs arbitrary: p) (simp_all add: notify_process_def)

lemma share_table_eq:
  "(\<forall>proc\<in>set procs. handle_ok proc) \<Longrightarrow> share_table handle_ok procs p
     = p\<lparr>vp_sent := vp_sent p @ concat (map (\<lambda>proc. [(proc, SetVisitedLinkTable),
           (proc, AllVisitedLinkStateChanged)]) procs),
         vp_with := fold hashset_add procs (vp_with p), vp_without := []\<rparr>"
  by (induction procs arbitrary: p) simp_all

lemma set_fold_hashset_add [simp]: "set (fold hashset_add xs ys) = set ys \<union> set xs"
  by (induction xs arbitrary: ys) (auto simp: hashset_add_def)

lemma provider_links_card:
  "provider_inv p \<Longrightarrow> card (vt_links (vp_table p)) \<le> unat (vp_keyCount p)"
  by (auto simp: provider_inv_def vt_links_def split: if_splits)

lemma unat_add_small:
  fixes k :: "32 word"
  assumes "2 * (unat k + l) \<le> 2 ^ 31"
  shows "unat (k + of_nat l) = unat k + l"
proof -
  have "unat (of_nat l :: 32 word) = l" using assms by (subst unat_of_nat) (intro mod_less, simp)
  with assms show ?thesis by (simp add: unat_word_ariths)
qed

lemma new_table_size:
  assumes inv: "provider_inv p" and page: "pageSize = 8 * 2 ^ b" "b \<le> 31"
    and small: "2 * unat keyCount \<le> 2 ^ 31"
  obtains n where "n \<le> 31" "max (vp_tableSize p) (tableSizeForKeyCount pageSize keyCount) = 2 ^ n"
    "2 * unat keyCount \<le> 2 ^ n"
proof -
  obtain n where n: "n \<le> 31" "tableSizeForKeyCount pageSize keyCount = 2 ^ n"
      "2 * unat keyCount \<le> 2 ^ n"
    using tableSizeForKeyCount_spec [OF page small] by metis
  show thesis
  proof (cases "vt_memory (vp_table p) = None")
    case True
    with inv n that [of n] show thesis by (simp add: provider_inv_def)
  next
    case False
    then obtain m where m: "m \<le> 31" "vp_tableSize p = 2 ^ m" using inv by (auto simp: provider_inv_def)
    have "(2 :: nat) ^ n \<le> 2 ^ max m n" by simp
    with n(3) have "2 * unat keyCount \<le> 2 ^ max m n" by linarith
    with that [of "max m n"] m n show thesis by (simp add: max_2_power)
  qed
qed

text \<open>The table after the timer has fired, with what the notifications need to know.\<close>

lemma timer_fired_table:
  assumes inv: "provider_inv p" and page: "pageSize = 8 * 2 ^ b" "b \<le> 31"
    and small: "2 * (unat (vp_keyCount p) + length (vp_pending p)) \<le> 2 ^ 31"
  defines "new \<equiv> max (vp_tableSize p)
    (tableSizeForKeyCount pageSize (vp_keyCount p + of_nat (length (vp_pending p))))"
  obtains n q table where "n \<le> 31"
    "resize_table True new (p\<lparr>vp_pending := [], vp_timer := False\<rparr>) = Some (Some q)"
    "vp_with q = vp_with p" "vp_without q = vp_without p" "vp_sent q = vp_sent p"
    "vp_keyCount q = vp_keyCount p" "vp_tableSize q = new" "new = 2 ^ n" "vp_pending q = []"
    "add_pending (vp_pending p) (vp_table q)
       = Some (table, filter (\<lambda>x. x \<notin> vt_links (vp_table p)) (vp_pending p))"
    "vt_sized n table" "vt_links table = vt_links (vp_table p) \<union> set (vp_pending p)"
    "2 * (unat (vp_keyCount p) + length (vp_pending p)) \<le> 2 ^ n"
proof -
  let ?kc = "vp_keyCount p + of_nat (length (vp_pending p)) :: 32 word"
  let ?p = "p\<lparr>vp_pending := [], vp_timer := False\<rparr>"
  have kc: "unat ?kc = unat (vp_keyCount p) + length (vp_pending p)"
    by (rule unat_add_small [OF small])
  obtain n where n: "n \<le> 31" "new = 2 ^ n" "2 * unat ?kc \<le> 2 ^ n"
    using new_table_size [OF inv page, of ?kc] small kc unfolding new_def by metis
  have inv': "provider_inv ?p" using inv by (simp add: provider_inv_def)
  obtain q where q: "resize_table True new ?p = Some (Some q)" "vt_sized n (vp_table q)"
      "vt_links (vp_table q) = vt_links (vp_table p)" "vp_tableSize q = 2 ^ n"
      "vp_keyCount q = vp_keyCount p" "vp_with q = vp_with p" "vp_without q = vp_without p"
      "vp_sent q = vp_sent p" "vp_pending q = []"
    using resize_table_keeps_links [OF inv' n(1) _ n(2)] n(3) kc by auto
  have "(0 :: nat) < 2 ^ n" by simp
  hence "length (vp_pending p) < vt_room (vp_table q)"
    using vt_room_links [OF q(2), unfolded q(3)] provider_links_card [OF inv] n(3) kc by linarith
  hence "\<exists>t'. visited.add_all (vp_pending p) (vp_table q)
        = Some (t', filter (\<lambda>x. x \<notin> vt_links (vp_table q)) (vp_pending p))
      \<and> vt_sized n t' \<and> vt_links t' = vt_links (vp_table q) \<union> set (vp_pending p)
      \<and> vt_room t' = vt_room (vp_table q) - length (filter (\<lambda>x. x \<notin> vt_links (vp_table q)) (vp_pending p))"
    using inv by (intro visited.add_all_spec [OF q(2)]) (auto simp: provider_inv_def)
  then obtain table where "add_pending (vp_pending p) (vp_table q)
       = Some (table, filter (\<lambda>x. x \<notin> vt_links (vp_table p)) (vp_pending p))"
    "vt_sized n table" "vt_links table = vt_links (vp_table p) \<union> set (vp_pending p)"
    by (auto simp: add_pending_add_all q(3))
  with that n q kc show thesis by auto
qed

lemma timer_fired:
  assumes inv: "provider_inv p" and page: "pageSize = 8 * 2 ^ b" "b \<le> 31"
    and small: "2 * (unat (vp_keyCount p) + length (vp_pending p)) \<le> 2 ^ 31"
    and handles: "\<And>proc. handle_ok proc"
  defines "added \<equiv> filter (\<lambda>x. x \<notin> vt_links (vp_table p)) (vp_pending p)"
  shows "\<exists>q sent. pendingVisitedLinksTimerFired pageSize True handle_ok p = Some q
    \<and> provider_inv q
    \<and> vt_links (vp_table q) = vt_links (vp_table p) \<union> set (vp_pending p)
    \<and> (\<forall>x. x \<noteq> 0 \<longrightarrow> isLinkVisited x (vp_table q) = Some (x \<in> vt_links (vp_table q)))
    \<and> 2 * card (vt_links (vp_table q)) \<le> unat (vp_tableSize q)
    \<and> vp_tableSize p \<le> vp_tableSize q
    \<and> vp_pending q = [] \<and> vp_without q = []
    \<and> set (vp_with q) = set (vp_with p) \<union> set (vp_without p)
    \<and> vp_sent q = vp_sent p @ sent
    \<and> (\<forall>proc \<in> set (vp_without p). (proc, SetVisitedLinkTable) \<in> set sent)
    \<and> (\<forall>proc \<in> set (vp_with p).
         if vp_tableSize q = vp_tableSize p
         then (proc, if length added \<le> 20 then VisitedLinkStateChanged added
                     else AllVisitedLinkStateChanged) \<in> set sent
         else (proc, SetVisitedLinkTable) \<in> set sent)"
proof -
  define new where "new = max (vp_tableSize p)
    (tableSizeForKeyCount pageSize (vp_keyCount p + of_nat (length (vp_pending p))))"
  obtain n q table where t: "n \<le> 31"
    "resize_table True new (p\<lparr>vp_pending := [], vp_timer := False\<rparr>) = Some (Some q)"
    "vp_with q = vp_with p" "vp_without q = vp_without p" "vp_sent q = vp_sent p"
    "vp_keyCount q = vp_keyCount p" "vp_tableSize q = new" "new = 2 ^ n" "vp_pending q = []"
    "add_pending (vp_pending p) (vp_table q) = Some (table, added)"
    "vt_sized n table" "vt_links table = vt_links (vp_table p) \<union> set (vp_pending p)"
    "2 * (unat (vp_keyCount p) + length (vp_pending p)) \<le> 2 ^ n"
    using timer_fired_table [OF inv page small] unfolding new_def added_def by metis
  let ?q1 = "q\<lparr>vp_table := table, vp_keyCount := vp_keyCount p + of_nat (length (vp_pending p))\<rparr>"
  let ?q2 = "fold (notify_process (vp_tableSize p \<noteq> new) added) (vp_with p) ?q1"
  let ?r = "share_table handle_ok (vp_without ?q2) ?q2"
  have fired: "pendingVisitedLinksTimerFired pageSize True handle_ok p = Some ?r"
    using t by (simp add: pendingVisitedLinksTimerFired_def Let_def new_def [symmetric])
  have "finite (vt_links (vp_table p))"
    by (auto simp: vt_links_def table_links_def split: option.split)
  hence "card (vt_links table) \<le> card (vt_links (vp_table p)) + length (vp_pending p)"
    unfolding t(12) by (meson List.finite_set add_le_mono card_Un_le card_length le_refl order_trans)
  with provider_links_card [OF inv]
  have card: "card (vt_links table) \<le> unat (vp_keyCount p) + length (vp_pending p)" by linarith
  have r: "vp_table ?r = table" "vp_tableSize ?r = 2 ^ n" "vp_pending ?r = []" "vp_without ?r = []"
    "vp_keyCount ?r = vp_keyCount p + of_nat (length (vp_pending p))"
    using handles t by (cases "vp_tableSize p = new";
        simp add: share_table_eq fold_notify_same fold_notify_resized)+
  have with_set: "set (vp_with ?r) = set (vp_with p) \<union> set (vp_without p)"
    using handles t by (cases "vp_tableSize p = new")
      (auto simp: share_table_eq fold_notify_same fold_notify_resized)
  have inv': "provider_inv ?r"
    using r t(1,11,13) card unat_add_small [OF small] t(11)
    by (auto simp: provider_inv_def vt_sized_def)
  have "(0 :: nat) < 2 ^ n" by simp
  hence "0 < vt_room table" using vt_room_links [OF t(11)] card t(13) [unfolded distrib_left]
    by linarith
  hence look: "\<forall>x. x \<noteq> 0 \<longrightarrow> isLinkVisited x table = Some (x \<in> vt_links table)"
    using isLinkVisited_spec [OF t(11)] by blast
  have half: "2 * card (vt_links table) \<le> unat (2 ^ n :: 32 word)"
    using card t(13) [unfolded distrib_left] unat_2_power [OF t(1)] by linarith
  have grow: "vp_tableSize p \<le> 2 ^ n" using t(8) unfolding new_def by (metis max.cobounded1)
  show ?thesis
  proof (cases "vp_tableSize p = new")
    case True
    thus ?thesis
      using handles t fired r with_set inv' look half grow
      by (intro exI [of _ ?r]) (simp add: share_table_eq fold_notify_same)
  next
    case False
    thus ?thesis
      using handles t fired r with_set inv' look half grow
      by (intro exI [of _ ?r]) (auto simp: share_table_eq fold_notify_resized)
  qed
qed

text \<open>C30: When the timer fires, and memory and handles can be had, both probe loops and all
  insertions end; afterwards exactly the old and the pending links are visited; the table is at
  least half empty and no smaller than before, so every later lookup ends too; and every process
  learns of it: one that already had the table is told exactly the links that are new (or, if they
  are more than 20, that all may have changed), and one that had none, or every one when the table
  was moved, is given the new table.\<close>

theorem timer_publishes_visited_links:
  assumes inv: "provider_inv p" and page: "pageSize = 8 * 2 ^ b" "b \<le> 31"
    and small: "2 * (unat (vp_keyCount p) + length (vp_pending p)) \<le> 2 ^ 31"
    and handles: "\<And>proc. handle_ok proc"
  defines "added \<equiv> filter (\<lambda>x. x \<notin> vt_links (vp_table p)) (vp_pending p)"
  shows "\<exists>q sent. pendingVisitedLinksTimerFired pageSize True handle_ok p = Some q
    \<and> provider_inv q
    \<and> vt_links (vp_table q) = vt_links (vp_table p) \<union> set (vp_pending p)
    \<and> (\<forall>x. x \<noteq> 0 \<longrightarrow> isLinkVisited x (vp_table q) = Some (x \<in> vt_links (vp_table q)))
    \<and> 2 * card (vt_links (vp_table q)) \<le> unat (vp_tableSize q)
    \<and> vp_tableSize p \<le> vp_tableSize q
    \<and> vp_pending q = [] \<and> vp_without q = []
    \<and> set (vp_with q) = set (vp_with p) \<union> set (vp_without p)
    \<and> vp_sent q = vp_sent p @ sent
    \<and> (\<forall>proc \<in> set (vp_without p). (proc, SetVisitedLinkTable) \<in> set sent)
    \<and> (\<forall>proc \<in> set (vp_with p).
         if vp_tableSize q = vp_tableSize p
         then (proc, if length added \<le> 20 then VisitedLinkStateChanged added
                     else AllVisitedLinkStateChanged) \<in> set sent
         else (proc, SetVisitedLinkTable) \<in> set sent)"
  unfolding added_def using assms(1-5) by (rule timer_fired)

lemma sample_provider_inv: "provider_inv (addVisitedLink 5 VisitedLinkProvider)"
  by (simp add: provider_inv_def addVisitedLink_def VisitedLinkProvider_def VisitedLinkTable_def
      hashset_add_def Let_def)

theorem timer_publishes_visited_links_witness:
  "\<exists>q. pendingVisitedLinksTimerFired 4096 True (\<lambda>_. True) (addVisitedLink 5 VisitedLinkProvider) = Some q
     \<and> isLinkVisited 5 (vp_table q) = Some True \<and> isLinkVisited 6 (vp_table q) = Some False"
proof -
  let ?p = "addVisitedLink 5 VisitedLinkProvider"
  have p: "vp_pending ?p = [5]" "vt_links (vp_table ?p) = {}" "vp_keyCount ?p = 0"
    by (simp_all add: addVisitedLink_def VisitedLinkProvider_def VisitedLinkTable_def hashset_add_def
        vt_links_def Let_def)
  obtain q where "pendingVisitedLinksTimerFired 4096 True (\<lambda>_. True) ?p = Some q"
    "vt_links (vp_table q) = {5}"
    "\<forall>x. x \<noteq> 0 \<longrightarrow> isLinkVisited x (vp_table q) = Some (x \<in> vt_links (vp_table q))"
    using timer_publishes_visited_links [OF sample_provider_inv, of 4096 9 "\<lambda>_. True"] p by auto
  thus ?thesis by auto
qed

text \<open>The table is a set: a lookup in a table with an empty bucket always ends and answers
  membership, and an insertion ends, adds exactly the new link, says whether it was new, and leaves
  the table searchable. In particular no probe sequence misses the only empty bucket.\<close>

theorem table_implements_set:
  assumes "vt_sized n t" "0 < vt_room t" "x \<noteq> 0"
  shows "isLinkVisited x t = Some (x \<in> vt_links t)
    \<and> (\<exists>t'. addLinkHash x t = Some (t', x \<notin> vt_links t) \<and> vt_sized n t'
         \<and> vt_links t' = insert x (vt_links t)
         \<and> (0 < vt_room t' \<longrightarrow> (\<forall>y. y \<noteq> 0 \<longrightarrow> isLinkVisited y t' = Some (y = x \<or> y \<in> vt_links t))))"
proof -
  obtain t' where t': "addLinkHash x t = Some (t', x \<notin> vt_links t)" "vt_sized n t'"
      "vt_links t' = insert x (vt_links t)"
    using visited.add_law [OF assms] by blast
  show ?thesis
    using visited.mem_law [OF assms] t' visited.mem_law [OF t'(2)] by auto
qed

definition sample_table :: visited_link_table where
  "sample_table = setSharedMemory [0, 0] VisitedLinkTable"

theorem table_implements_set_witness:
  "isLinkVisited 3 sample_table = Some False
     \<and> (\<exists>t'. addLinkHash 3 sample_table = Some (t', True) \<and> isLinkVisited 3 t' = Some True)"
proof -
  have ok: "vt_sized 1 sample_table"
    by (simp add: vt_sized_def sample_table_def setSharedMemory_def table_ok_def less_2_cases_iff
        mask_eq_exp_minus_1)
  have room: "vt_room sample_table = 2" and none: "vt_links sample_table = {}"
    by (simp_all add: vt_room_def vt_links_def sample_table_def setSharedMemory_def table_room_def
        table_links_def)
  from table_implements_set [OF ok, of 3] obtain t' where t': "isLinkVisited 3 sample_table = Some False"
    "addLinkHash 3 sample_table = Some (t', True)" "vt_sized 1 t'" "vt_links t' = {3}"
    "0 < vt_room t' \<longrightarrow> isLinkVisited 3 t' = Some True"
    using room none by auto
  have "0 < vt_room t'" using vt_room_links [OF t'(3)] t'(4) by simp
  with t' show ?thesis by blast
qed

text \<open>When the shared memory for a larger table cannot be had, the links that were pending are
  gone: they are neither visited nor pending any more, and no process is told.\<close>

theorem failed_allocation_loses_links:
  "pendingVisitedLinksTimerFired 4096 False (\<lambda>_. True) (addVisitedLink 5 VisitedLinkProvider)
     = Some VisitedLinkProvider
   \<and> isLinkVisited 5 (vp_table VisitedLinkProvider) = Some False"
proof -
  have "tableSizeForKeyCount 4096 1 = 512"
    by (simp add: tableSizeForKeyCount_def VisitedLinkTableMaxLoad_def nextPowerOf2_def Let_def)
  thus ?thesis
    by (simp add: pendingVisitedLinksTimerFired_def addVisitedLink_def VisitedLinkProvider_def
        VisitedLinkTable_def hashset_add_def resize_table_def Let_def isLinkVisited_def)
qed

subsection \<open>When a search ends\<close>

lemma probe_stops_at:
  assumes "probe table (mask n) x h k i = Some y" "unat i < 2 ^ n"
  shows "fst y < 2 ^ n \<and> (table ! fst y = 0 \<or> table ! fst y = x)"
proof -
  let ?P = "\<lambda>table (msk :: 32 word) x (h :: 32 word) (k :: 32 word) i y. msk = mask n \<longrightarrow> unat (i :: 32 word) < 2 ^ n \<longrightarrow>
    fst (y :: nat \<times> bool) < 2 ^ n \<and> (table ! fst y = (0 :: link_hash) \<or> table ! fst y = x)"
  have "?P table (mask n) x h k i y"
  proof (rule probe.raw_induct [where P = ?P, OF _ assms(1)], goal_cases)
    case (1 f table msk x h k i y)
    show ?case
    proof (intro impI)
      assume m: "msk = mask n" and i: "unat i < 2 ^ n"
      show "fst y < 2 ^ n \<and> (table ! fst y = 0 \<or> table ! fst y = x)"
      proof (cases "table ! unat i = 0 \<or> table ! unat i = x")
        case True
        with 1(2) i show ?thesis by (auto split: if_splits)
      next
        case False
        let ?k = "if k = 0 then 1 OR doubleHash h else k"
        have "unat ((i + ?k) AND mask n) < 2 ^ n"
          unfolding take_bit_eq_mask [symmetric] unsigned_take_bit_eq by (rule take_bit_nat_less_exp)
        moreover have "f table msk x h ?k ((i + ?k) AND msk) = Some y"
          using 1(2) False by (simp add: Let_def split: if_splits)
        ultimately show ?thesis using 1(1) [of table msk x h ?k "(i + ?k) AND msk" y] m by simp
      qed
    qed
  qed
  with assms(2) show ?thesis by simp
qed

lemma full_search_hangs:
  assumes "table_ok n table" "table_room table = 0" "x \<notin> table_links table" "x \<noteq> 0"
  shows "probe table (mask n) x (ucast x) 0 (ucast x AND mask n) = None"
proof (rule ccontr)
  assume "\<not> ?thesis"
  then obtain y where y: "probe table (mask n) x (ucast x) 0 (ucast x AND mask n) = Some y" by auto
  have "unat (ucast x AND mask n :: 32 word) < 2 ^ n"
    unfolding take_bit_eq_mask [symmetric] unsigned_take_bit_eq by (rule take_bit_nat_less_exp)
  from probe_stops_at [OF y this] have "fst y < length table" "table ! fst y = 0 \<or> table ! fst y = x"
    using assms(1) by (auto simp: table_ok_def)
  hence "0 \<in> set table \<or> x \<in> set table" by (metis nth_mem)
  with assms(2-4) show False by (auto simp: table_room_def table_links_def count_list_0_iff)
qed

lemma stored_search_ends:
  assumes "table_ok n table" "x \<in> table_links table"
  shows "probe table (mask n) x (ucast x) 0 (ucast x AND mask n) \<noteq> None"
proof -
  obtain p where p: "p < 2 ^ n" "table ! p = x" "x \<noteq> 0"
    using assms by (auto simp: table_links_def table_ok_def in_set_conv_nth)
  then obtain j where j: "reached_at n table x j" using assms(1) by (auto simp: table_ok_def)
  have "unat (ucast x AND mask n :: 32 word) = probe_pos n x 0"
    by (simp add: unat_and_mask probe_pos_def)
  with probe_finds [of n table x j 0 "ucast x AND mask n" 0] assms(1) j show ?thesis
    by (simp add: table_ok_def reached_at_def)
qed

text \<open>C37: The probe loop has no bound of its own. A search ends exactly if the table has an empty
  bucket or holds the link; in a full table the search for any other link never returns, so that the
  table must never be allowed to fill up.\<close>

theorem search_ends_iff:
  assumes "vt_sized n t" and "x \<noteq> 0"
  shows "(\<exists>b. isLinkVisited x t = Some b) \<longleftrightarrow> 0 < vt_room t \<or> x \<in> vt_links t"
proof -
  obtain table where t: "vt_memory t = Some table" "table_ok n table" "vt_tableSizeMask t = mask n"
    using assms(1) by (auto simp: vt_sized_def)
  have search: "isLinkVisited x t = map_option snd (probe table (mask n) x (ucast x) 0 (ucast x AND mask n))"
    using t by (simp add: isLinkVisited_def Let_def)
  have links: "vt_links t = table_links table" "vt_room t = table_room table"
    using t by (simp_all add: vt_links_def vt_room_def)
  show ?thesis
  proof (cases "table_room table = 0")
    case True
    thus ?thesis
      using full_search_hangs [OF t(2) True _ assms(2)] stored_search_ends [OF t(2), of x]
      unfolding search links by (cases "x \<in> table_links table") auto
  next
    case False
    thus ?thesis using isLinkVisited_spec [OF assms(1) _ assms(2)] links by simp
  qed
qed

theorem search_ends_iff_witness:
  "isLinkVisited 3 (setSharedMemory [5] VisitedLinkTable) = None
   \<and> (\<exists>b. isLinkVisited 5 (setSharedMemory [5] VisitedLinkTable) = Some b)"
proof -
  let ?t = "setSharedMemory [5] VisitedLinkTable"
  have ok: "vt_sized 0 ?t"
    by (simp add: vt_sized_def setSharedMemory_def table_ok_def reached_at_def probe_pos_def)
  have "vt_room ?t = 0" "vt_links ?t = {5}"
    by (auto simp: vt_room_def vt_links_def setSharedMemory_def table_room_def table_links_def)
  with search_ends_iff [OF ok, of 3] search_ends_iff [OF ok, of 5] show ?thesis by auto
qed

end
