(* ===== verification/Base64.thy ===== *)
theory Base64
  imports Prelude
begin

unbundle bit_operations_syntax

text \<open>
  The Base64 codec, \<^verbatim>\<open>WTF/wtf/text/Base64.cpp\<close>: both alphabets, the three encoding and four
  decoding policies. Bytes are 8-bit words; the input of the decoder is a list of code units (the
  template is used for 8-bit and 16-bit characters). Lengths are \<^verbatim>\<open>unsigned\<close> and wrap where the
  code computes with them. The output vector has the size computed beforehand and its accesses are
  checked, so writing past it is a crash; the decoder works in place in that vector.
\<close>


datatype encode_policy = Base64DoNotInsertLFs | Base64InsertLFs | Base64URLPolicy

datatype decode_policy =
    Base64FailOnInvalidCharacterOrExcessPadding
  | Base64FailOnInvalidCharacter
  | Base64IgnoreWhitespace
  | Base64IgnoreInvalidCharacters

definition nonAlphabet :: byte where
  "nonAlphabet = - 1"

definition base64EncMap :: "byte list" where
  "base64EncMap =
    [0x41, 0x42, 0x43, 0x44, 0x45, 0x46, 0x47, 0x48,
     0x49, 0x4A, 0x4B, 0x4C, 0x4D, 0x4E, 0x4F, 0x50,
     0x51, 0x52, 0x53, 0x54, 0x55, 0x56, 0x57, 0x58,
     0x59, 0x5A, 0x61, 0x62, 0x63, 0x64, 0x65, 0x66,
     0x67, 0x68, 0x69, 0x6A, 0x6B, 0x6C, 0x6D, 0x6E,
     0x6F, 0x70, 0x71, 0x72, 0x73, 0x74, 0x75, 0x76,
     0x77, 0x78, 0x79, 0x7A, 0x30, 0x31, 0x32, 0x33,
     0x34, 0x35, 0x36, 0x37, 0x38, 0x39, 0x2B, 0x2F]"

definition base64DecMap :: "byte list" where
  "base64DecMap =
    [nonAlphabet, nonAlphabet, nonAlphabet, nonAlphabet, nonAlphabet, nonAlphabet, nonAlphabet, nonAlphabet,
     nonAlphabet, nonAlphabet, nonAlphabet, nonAlphabet, nonAlphabet, nonAlphabet, nonAlphabet, nonAlphabet,
     nonAlphabet, nonAlphabet, nonAlphabet, nonAlphabet, nonAlphabet, nonAlphabet, nonAlphabet, nonAlphabet,
     nonAlphabet, nonAlphabet, nonAlphabet, nonAlphabet, nonAlphabet, nonAlphabet, nonAlphabet, nonAlphabet,
     nonAlphabet, nonAlphabet, nonAlphabet, nonAlphabet, nonAlphabet, nonAlphabet, nonAlphabet, nonAlphabet,
     nonAlphabet, nonAlphabet, nonAlphabet, 0x3E, nonAlphabet, nonAlphabet, nonAlphabet, 0x3F,
     0x34, 0x35, 0x36, 0x37, 0x38, 0x39, 0x3A, 0x3B,
     0x3C, 0x3D, nonAlphabet, nonAlphabet, nonAlphabet, nonAlphabet, nonAlphabet, nonAlphabet,
     nonAlphabet, 0x00, 0x01, 0x02, 0x03, 0x04, 0x05, 0x06,
     0x07, 0x08, 0x09, 0x0A, 0x0B, 0x0C, 0x0D, 0x0E,
     0x0F, 0x10, 0x11, 0x12, 0x13, 0x14, 0x15, 0x16,
     0x17, 0x18, 0x19, nonAlphabet, nonAlphabet, nonAlphabet, nonAlphabet, nonAlphabet,
     nonAlphabet, 0x1A, 0x1B, 0x1C, 0x1D, 0x1E, 0x1F, 0x20,
     0x21, 0x22, 0x23, 0x24, 0x25, 0x26, 0x27, 0x28,
     0x29, 0x2A, 0x2B, 0x2C, 0x2D, 0x2E, 0x2F, 0x30,
     0x31, 0x32, 0x33, nonAlphabet, nonAlphabet, nonAlphabet, nonAlphabet, nonAlphabet]"

definition base64URLEncMap :: "byte list" where
  "base64URLEncMap =
    [0x41, 0x42, 0x43, 0x44, 0x45, 0x46, 0x47, 0x48,
     0x49, 0x4A, 0x4B, 0x4C, 0x4D, 0x4E, 0x4F, 0x50,
     0x51, 0x52, 0x53, 0x54, 0x55, 0x56, 0x57, 0x58,
     0x59, 0x5A, 0x61, 0x62, 0x63, 0x64, 0x65, 0x66,
     0x67, 0x68, 0x69, 0x6A, 0x6B, 0x6C, 0x6D, 0x6E,
     0x6F, 0x70, 0x71, 0x72, 0x73, 0x74, 0x75, 0x76,
     0x77, 0x78, 0x79, 0x7A, 0x30, 0x31, 0x32, 0x33,
     0x34, 0x35, 0x36, 0x37, 0x38, 0x39, 0x2D, 0x5F]"

definition base64URLDecMap :: "byte list" where
  "base64URLDecMap =
    [nonAlphabet, nonAlphabet, nonAlphabet, nonAlphabet, nonAlphabet, nonAlphabet, nonAlphabet, nonAlphabet,
     nonAlphabet, nonAlphabet, nonAlphabet, nonAlphabet, nonAlphabet, nonAlphabet, nonAlphabet, nonAlphabet,
     nonAlphabet, nonAlphabet, nonAlphabet, nonAlphabet, nonAlphabet, nonAlphabet, nonAlphabet, nonAlphabet,
     nonAlphabet, nonAlphabet, nonAlphabet, nonAlphabet, nonAlphabet, nonAlphabet, nonAlphabet, nonAlphabet,
     nonAlphabet, nonAlphabet, nonAlphabet, nonAlphabet, nonAlphabet, nonAlphabet, nonAlphabet, nonAlphabet,
     nonAlphabet, nonAlphabet, nonAlphabet, nonAlphabet, nonAlphabet, 0x3E, nonAlphabet, nonAlphabet,
     0x34, 0x35, 0x36, 0x37, 0x38, 0x39, 0x3A, 0x3B,
     0x3C, 0x3D, nonAlphabet, nonAlphabet, nonAlphabet, nonAlphabet, nonAlphabet, nonAlphabet,
     nonAlphabet, 0x00, 0x01, 0x02, 0x03, 0x04, 0x05, 0x06,
     0x07, 0x08, 0x09, 0x0A, 0x0B, 0x0C, 0x0D, 0x0E,
     0x0F, 0x10, 0x11, 0x12, 0x13, 0x14, 0x15, 0x16,
     0x17, 0x18, 0x19, nonAlphabet, nonAlphabet, nonAlphabet, nonAlphabet, 0x3F,
     nonAlphabet, 0x1A, 0x1B, 0x1C, 0x1D, 0x1E, 0x1F, 0x20,
     0x21, 0x22, 0x23, 0x24, 0x25, 0x26, 0x27, 0x28,
     0x29, 0x2A, 0x2B, 0x2C, 0x2D, 0x2E, 0x2F, 0x30,
     0x31, 0x32, 0x33, nonAlphabet, nonAlphabet, nonAlphabet, nonAlphabet, nonAlphabet]"

subsection \<open>Encoding\<close>

text \<open>
  The main loop: three bytes become four characters, with a line feed before every group that
  starts a new line of 76. \<open>out\<close> is what has been written so far.
\<close>

fun encode_loop :: "bool \<Rightarrow> byte list \<Rightarrow> int \<Rightarrow> byte list \<Rightarrow> byte list \<Rightarrow> int \<times> byte list \<times> byte list" where
  "encode_loop insertLFs encodeMap count out (a # b # c # rest) =
     (let out = (if insertLFs \<and> count \<noteq> 0 \<and> count mod 76 = 0 then out @ [10] else out);
          count = (if insertLFs then s32 (count + 4) else count);
          out = out @ [encodeMap ! unat (drop_bit 2 a AND 63),
                       encodeMap ! unat ((drop_bit 4 b AND 15) OR (push_bit 4 a AND 63)),
                       encodeMap ! unat ((drop_bit 6 c AND 3) OR (push_bit 2 b AND 63)),
                       encodeMap ! unat (c AND 63)]
      in encode_loop insertLFs encodeMap count out rest)"
| "encode_loop insertLFs encodeMap count out rest = (count, out, rest)"

text \<open>The one or two bytes that are left.\<close>

definition encode_tail :: "bool \<Rightarrow> byte list \<Rightarrow> int \<Rightarrow> byte list \<Rightarrow> byte list \<Rightarrow> byte list" where
  "encode_tail insertLFs encodeMap count out rest =
     (let lf = (if insertLFs \<and> 0 < count \<and> count mod 76 = 0 then [10] else [])
      in case rest of
           [] \<Rightarrow> out
         | [a] \<Rightarrow> out @ lf @ [encodeMap ! unat (drop_bit 2 a AND 63),
                            encodeMap ! unat (push_bit 4 a AND 63)]
         | a # b # _ \<Rightarrow> out @ lf @ [encodeMap ! unat (drop_bit 2 a AND 63),
                            encodeMap ! unat ((drop_bit 4 b AND 15) OR (push_bit 4 a AND 63)),
                            encodeMap ! unat (push_bit 2 b AND 63)])"

definition maxInputBufferSize :: nat where
  "maxInputBufferSize = 4294967295 div 77 * 76 div 4 * 3 - 2"

definition encoded_length :: "encode_policy \<Rightarrow> nat \<Rightarrow> bool \<times> nat" where
  "encoded_length policy len =
     (let outLength = u32 (u32 (len + 2) div 3 * 4);
          insertLFs = (policy = Base64InsertLFs \<and> outLength > 76)
      in (insertLFs, if insertLFs then u32 (outLength + (outLength - 1) div 76) else outLength))"

definition base64EncodeInternal ::
    "byte list \<Rightarrow> encode_policy \<Rightarrow> byte list \<Rightarrow> byte list res" where
  "base64EncodeInternal data policy encodeMap =
     (if data = [] then Inr []
      else if length data > maxInputBufferSize then Inr []
      else case encoded_length policy (length data) of
        (insertLFs, outLength) \<Rightarrow>
          (case encode_loop insertLFs encodeMap 0 [] data of
             (count, out, rest) \<Rightarrow>
               let out = encode_tail insertLFs encodeMap count out rest
               in if length out > outLength then Inl VectorOverflow
                  else if policy = Base64URLPolicy then Inr out
                  else Inr (out @ replicate (outLength - length out) 61)))"

definition base64Encode :: "byte list \<Rightarrow> encode_policy \<Rightarrow> byte list res" where
  "base64Encode data policy = base64EncodeInternal data policy base64EncMap"

definition base64URLEncode :: "byte list \<Rightarrow> byte list res" where
  "base64URLEncode data = base64EncodeInternal data Base64URLPolicy base64URLEncMap"

subsection \<open>Decoding\<close>

text \<open>
  \<^verbatim>\<open>isSpaceOrNewline\<close> is decided by the Unicode database for characters above 127; that part is
  the argument \<open>spaceNeutral\<close>.
\<close>

definition isSpaceOrNewline :: "(nat \<Rightarrow> bool) \<Rightarrow> nat \<Rightarrow> bool" where
  "isSpaceOrNewline spaceNeutral c =
     (if c \<le> 127 then c \<le> 32 \<and> (c = 32 \<or> (c \<le> 13 \<and> c \<ge> 9)) else spaceNeutral c)"

text \<open>The scan of the input: the number of equals signs and the values of the characters; \<open>None\<close> is
  a \<^verbatim>\<open>return false\<close>.\<close>

fun decode_scan ::
    "(nat \<Rightarrow> bool) \<Rightarrow> decode_policy \<Rightarrow> byte list \<Rightarrow> nat \<Rightarrow> nat \<Rightarrow> byte list \<Rightarrow> nat list \<Rightarrow> (nat \<times> byte list) option"
where
  "decode_scan sp policy decodeMap len eqs out [] = Some (eqs, out)"
| "decode_scan sp policy decodeMap len eqs out (ch # rest) =
     (if ch = 61
      then let eqs = eqs + 1
           in if policy = Base64FailOnInvalidCharacterOrExcessPadding \<and> (len mod 4 \<noteq> 0 \<or> eqs > 2)
              then None else decode_scan sp policy decodeMap len eqs out rest
      else let decoded = (if ch < 128 then decodeMap ! ch else nonAlphabet)
           in if decoded \<noteq> nonAlphabet
              then if eqs \<noteq> 0 then None
                   else decode_scan sp policy decodeMap len eqs (out @ [decoded]) rest
              else if policy = Base64FailOnInvalidCharacterOrExcessPadding
                      \<or> policy = Base64FailOnInvalidCharacter
                      \<or> policy = Base64IgnoreWhitespace \<and> \<not> isSpaceOrNewline sp ch
              then None else decode_scan sp policy decodeMap len eqs out rest)"

text \<open>The conversion of four characters to three bytes, in place.\<close>

function decode_loop :: "byte list \<Rightarrow> nat \<Rightarrow> nat \<Rightarrow> nat \<Rightarrow> byte list \<times> nat \<times> nat" where
  "decode_loop out sidx didx outLength =
     (if outLength > 1 \<and> didx < outLength - 2
      then let out = out[didx := push_bit 2 (out ! sidx) OR (drop_bit 4 (out ! (sidx + 1)) AND 3)];
               out = out[didx + 1 := push_bit 4 (out ! (sidx + 1)) OR (drop_bit 2 (out ! (sidx + 2)) AND 15)];
               out = out[didx + 2 := push_bit 6 (out ! (sidx + 2)) OR (out ! (sidx + 3) AND 63)]
           in decode_loop out (sidx + 4) (didx + 3) outLength
      else (out, sidx, didx))"
  by pat_completeness auto
termination
  by (relation "measure (\<lambda>(out, sidx, didx, outLength). outLength - didx)") auto

declare decode_loop.simps [simp del]

text \<open>\<^verbatim>\<open>Vector<char>::grow\<close> does not initialise the new elements; a zero stands for what they
  happen to hold.\<close>

definition base64DecodeInternal ::
    "(nat \<Rightarrow> bool) \<Rightarrow> nat list \<Rightarrow> decode_policy \<Rightarrow> byte list \<Rightarrow> byte list option" where
  "base64DecodeInternal sp data policy decodeMap =
     (if data = [] then Some []
      else case decode_scan sp policy decodeMap (length data) 0 [] data of
        None \<Rightarrow> None
      | Some (eqs, chars) \<Rightarrow>
          let outLength = length chars;
              out = chars @ replicate (length data - length chars) 0
          in if outLength = 0 then (if eqs = 0 then Some out else None)
             else if outLength mod 4 = 1 then None
             else let outLength = outLength - (outLength + 3) div 4
                  in if outLength = 0 then None
                     else case decode_loop out 0 0 outLength of
                       (out, sidx, didx) \<Rightarrow>
                         let out = (if didx < outLength
                                    then out[didx := push_bit 2 (out ! sidx)
                                               OR (drop_bit 4 (out ! (sidx + 1)) AND 3)]
                                    else out);
                             didx = didx + 1;
                             out = (if didx < outLength
                                    then out[didx := push_bit 4 (out ! (sidx + 1))
                                               OR (drop_bit 2 (out ! (sidx + 2)) AND 15)]
                                    else out)
                         in Some (if outLength < length out then take outLength out else out))"

definition base64Decode :: "(nat \<Rightarrow> bool) \<Rightarrow> nat list \<Rightarrow> decode_policy \<Rightarrow> byte list option" where
  "base64Decode sp data policy = base64DecodeInternal sp data policy base64DecMap"

definition base64URLDecode :: "(nat \<Rightarrow> bool) \<Rightarrow> nat list \<Rightarrow> byte list option" where
  "base64URLDecode sp data = base64DecodeInternal sp data Base64FailOnInvalidCharacter base64URLDecMap"

subsection \<open>Reference definitions\<close>

fun sextets :: "byte list \<Rightarrow> byte list" where
  "sextets (a # b # c # rest) =
     [drop_bit 2 a AND 63, (drop_bit 4 b AND 15) OR (push_bit 4 a AND 63),
      (drop_bit 6 c AND 3) OR (push_bit 2 b AND 63), c AND 63] @ sextets rest"
| "sextets [a, b] = [drop_bit 2 a AND 63, (drop_bit 4 b AND 15) OR (push_bit 4 a AND 63), push_bit 2 b AND 63]"
| "sextets [a] = [drop_bit 2 a AND 63, push_bit 4 a AND 63]"
| "sextets [] = []"

fun unsextets :: "byte list \<Rightarrow> byte list" where
  "unsextets (p # q # r # s # rest) =
     [push_bit 2 p OR (drop_bit 4 q AND 3), push_bit 4 q OR (drop_bit 2 r AND 15),
      push_bit 6 r OR (s AND 63)] @ unsextets rest"
| "unsextets [p, q, r] = [push_bit 2 p OR (drop_bit 4 q AND 3), push_bit 4 q OR (drop_bit 2 r AND 15)]"
| "unsextets [p, q] = [push_bit 2 p OR (drop_bit 4 q AND 3)]"
| "unsextets _ = []"

lemma less_8_cases: "n < (8::nat) \<Longrightarrow> n = 0 \<or> n = 1 \<or> n = 2 \<or> n = 3 \<or> n = 4 \<or> n = 5 \<or> n = 6 \<or> n = 7"
  by arith

lemma byte_eqI:
  fixes x y :: byte
  assumes "bit x 0 = bit y 0" "bit x 1 = bit y 1" "bit x 2 = bit y 2" "bit x 3 = bit y 3"
    "bit x 4 = bit y 4" "bit x 5 = bit y 5" "bit x 6 = bit y 6" "bit x 7 = bit y 7"
  shows "x = y"
proof (rule bit_word_eqI)
  fix n assume "n < LENGTH(8)"
  hence "n < 8" by simp
  with less_8_cases [OF this] assms show "bit x n = bit y n" by auto
qed

lemma byte_split:
  fixes a b c :: byte
  shows "push_bit 2 (drop_bit 2 a) AND 252 OR drop_bit 4 (push_bit 4 a) AND 3 = a"
    "push_bit 4 (drop_bit 4 b) AND 240 OR drop_bit 2 (push_bit 2 b) AND 15 = b"
    "push_bit 6 (drop_bit 6 c) AND 192 OR c AND 63 = c"
  by (rule byte_eqI; simp add: bit_or_iff bit_and_iff bit_push_bit_iff bit_drop_bit_eq bit_numeral_rec)+

lemma unsextets_sextets: "unsextets (sextets d) = d"
  by (induction d rule: sextets.induct) (simp_all add: byte_split)

lemma and_63_less: "unat (x AND 63 :: byte) < 64"
proof -
  have "x AND 63 = take_bit 6 x" by (simp add: take_bit_eq_mask mask_eq_exp_minus_1)
  hence "unat (x AND 63) = take_bit 6 (unat x)" by (simp add: unsigned_take_bit_eq)
  also have "\<dots> < 2 ^ 6" by (rule take_bit_nat_less_exp)
  finally show ?thesis by simp
qed

lemma sextets_less: "v \<in> set (sextets d) \<Longrightarrow> unat v < 64"
proof (induction d rule: sextets.induct)
  case (1 a b c rest)
  have "(drop_bit 4 b AND 15) OR (push_bit 4 a AND 63) = ((drop_bit 4 b AND 15) OR (push_bit 4 a AND 63)) AND 63"
    "(drop_bit 6 c AND 3) OR (push_bit 2 b AND 63) = ((drop_bit 6 c AND 3) OR (push_bit 2 b AND 63)) AND 63"
    by (rule byte_eqI; simp add: bit_or_iff bit_and_iff bit_numeral_rec)+
  then show ?case using 1 and_63_less by (simp only: sextets.simps set_append set_simps Un_iff insert_iff empty_iff) metis
next
  case (2 a b)
  have "(drop_bit 4 b AND 15) OR (push_bit 4 a AND 63) = ((drop_bit 4 b AND 15) OR (push_bit 4 a AND 63)) AND 63"
    by (rule byte_eqI; simp add: bit_or_iff bit_and_iff bit_numeral_rec)+
  then show ?case using 2 and_63_less by (simp only: sextets.simps set_simps insert_iff empty_iff) metis
qed (auto simp: and_63_less)

lemma length_sextets: "length (sextets d) = (4 * length d + 2) div 3"
  by (induction d rule: sextets.induct) simp_all

lemma sextets_shape:
  "length (sextets d) mod 4 \<noteq> 1" "4 * ((length d + 2) div 3) - length (sextets d) \<le> 2"
proof -
  have "length d mod 3 < 3" by simp
  then obtain q s where qs: "length d = 3 * q + s" "s = 0 \<or> s = 1 \<or> s = 2"
    by (metis div_mult_mod_eq mult.commute less_Suc_eq numeral_3_eq_3 numeral_2_eq_2 less_one One_nat_def)
  have "length (sextets d) = 4 * q + (if s = 0 then 0 else s + 1)" "(length d + 2) div 3 = q + (if s = 0 then 0 else 1)"
    unfolding length_sextets using qs by (elim disjE; simp)+
  thus "length (sextets d) mod 4 \<noteq> 1" "4 * ((length d + 2) div 3) - length (sextets d) \<le> 2"
    using qs(2) by auto
qed

subsection \<open>What the encoder writes\<close>

definition encode_from :: "bool \<Rightarrow> byte list \<Rightarrow> nat \<Rightarrow> byte list \<Rightarrow> byte list \<Rightarrow> byte list" where
  "encode_from insertLFs encodeMap g out d =
     (case encode_loop insertLFs encodeMap (4 * int g) out d of
        (count, out, rest) \<Rightarrow> encode_tail insertLFs encodeMap count out rest)"

definition groups :: "'a list \<Rightarrow> nat" where
  "groups d = (length d + 2) div 3"

lemma groups_simps [simp]:
  "groups [] = 0" "groups [a] = 1" "groups [a, b] = 1" "groups (a # b # c # d) = Suc (groups d)"
  by (simp_all add: groups_def)

lemma encode_from_plain:
  "encode_from False m g out d = out @ map (\<lambda>v. m ! unat v) (sextets d)"
proof -
  have "(case encode_loop False m cnt out d of (count, out, rest) \<Rightarrow> encode_tail False m count out rest)
      = out @ map (\<lambda>v. m ! unat v) (sextets d)" for cnt
    by (induction d arbitrary: out cnt rule: sextets.induct) (simp_all add: encode_tail_def)
  thus ?thesis by (simp add: encode_from_def)
qed

text \<open>Line feeds go before every group whose index is a positive multiple of 19.\<close>

lemma line_feed_step: "(if 0 < g \<and> 19 dvd g then 1 else 0) + (g - 1) div 19 = (g :: nat) div 19"
proof (cases "19 dvd g")
  case True
  then obtain k where "g = 19 * k" by (elim dvdE)
  thus ?thesis by (cases k) auto
next
  case False
  then obtain h where g: "g = Suc h" by (cases g) auto
  have "Suc h div 19 = h div 19" using False g by (simp add: div_Suc dvd_eq_mod_eq_0)
  with False g show ?thesis by simp
qed

lemma line_feed_cond: "4 * int g mod 76 = 0 \<longleftrightarrow> 19 dvd g"
  by presburger

lemma encoded_not_lf:
  assumes "\<And>v :: byte. unat v < 64 \<Longrightarrow> m ! unat v \<noteq> 10"
  shows "\<forall>x \<in> set (map (\<lambda>v. m ! unat v) (sextets d)). x \<noteq> (10 :: byte)"
proof
  fix x assume "x \<in> set (map (\<lambda>v. m ! unat v) (sextets d))"
  then obtain v where "v \<in> set (sextets d)" "x = m ! unat v" by auto
  moreover from this(1) have "unat v < 64" by (rule sextets_less)
  ultimately show "x \<noteq> 10" using assms [of v] by simp
qed

lemma encode_from_lines:
  assumes "4 * (g + groups d) < 2147483648" "\<And>v :: byte. unat v < 64 \<Longrightarrow> m ! unat v \<noteq> 10"
  shows "\<exists>chunk. encode_from True m g out d = out @ chunk
    \<and> filter (\<lambda>c. c \<noteq> 10) chunk = map (\<lambda>v. m ! unat v) (sextets d)
    \<and> set chunk \<subseteq> insert 10 (set (map (\<lambda>v. m ! unat v) (sextets d)))
    \<and> length chunk + (g - 1) div 19 = length (sextets d) + (g + groups d - 1) div 19"
  using assms(1)
proof (induction d arbitrary: g out rule: sextets.induct)
  case (1 a b c rest)
  let ?lf = "if 0 < g \<and> 19 dvd g then [10] else [] :: byte list"
  let ?q = "take 4 (map (\<lambda>v. m ! unat v) (sextets (a # b # c # rest)))"
  have cnt: "s32 (4 * int g + 4) = 4 * int (Suc g)"
    using 1(2) by (subst s32_id) simp_all
  have step: "encode_from True m g out (a # b # c # rest) = encode_from True m (Suc g) (out @ ?lf @ ?q) rest"
    unfolding encode_from_def using cnt by (simp add: Let_def line_feed_cond)
  obtain chunk where ch: "encode_from True m (Suc g) (out @ ?lf @ ?q) rest = (out @ ?lf @ ?q) @ chunk"
    "filter (\<lambda>c. c \<noteq> 10) chunk = map (\<lambda>v. m ! unat v) (sextets rest)"
    "set chunk \<subseteq> insert 10 (set (map (\<lambda>v. m ! unat v) (sextets rest)))"
    "length chunk + (Suc g - 1) div 19 = length (sextets rest) + (Suc g + groups rest - 1) div 19"
    using 1(1) [of "Suc g" "out @ ?lf @ ?q"] 1(2) by auto
  have ne: "\<forall>x \<in> set (map (\<lambda>v. m ! unat v) (sextets (a # b # c # rest))). x \<noteq> 10"
    by (rule encoded_not_lf [OF assms(2)])
  show ?case
  proof (intro exI conjI)
    show "encode_from True m g out (a # b # c # rest) = out @ (?lf @ ?q @ chunk)" using step ch(1) by simp
    show "filter (\<lambda>c. c \<noteq> 10) (?lf @ ?q @ chunk) = map (\<lambda>v. m ! unat v) (sextets (a # b # c # rest))"
      using ne ch(2) by simp
    show "set (?lf @ ?q @ chunk) \<subseteq> insert 10 (set (map (\<lambda>v. m ! unat v) (sextets (a # b # c # rest))))"
      using ch(3) by auto
    show "length (?lf @ ?q @ chunk) + (g - 1) div 19
        = length (sextets (a # b # c # rest)) + (g + groups (a # b # c # rest) - 1) div 19"
      using ch(4) line_feed_step [of g] by (cases "0 < g \<and> 19 dvd g") auto
  qed
next
  case (2 a b)
  let ?lf = "if 0 < g \<and> 19 dvd g then [10] else [] :: byte list"
  have ne: "\<forall>x \<in> set (map (\<lambda>v. m ! unat v) (sextets [a, b])). x \<noteq> 10"
    by (rule encoded_not_lf [OF assms(2)])
  show ?case
    by (rule exI [of _ "?lf @ map (\<lambda>v. m ! unat v) (sextets [a, b])"], cases "0 < g \<and> 19 dvd g")
      (use ne line_feed_step [of g] in \<open>auto simp: encode_from_def encode_tail_def line_feed_cond\<close>)
next
  case (3 a)
  let ?lf = "if 0 < g \<and> 19 dvd g then [10] else [] :: byte list"
  have ne: "\<forall>x \<in> set (map (\<lambda>v. m ! unat v) (sextets [a])). x \<noteq> 10"
    by (rule encoded_not_lf [OF assms(2)])
  show ?case
    by (rule exI [of _ "?lf @ map (\<lambda>v. m ! unat v) (sextets [a])"], cases "0 < g \<and> 19 dvd g")
      (use ne line_feed_step [of g] in \<open>auto simp: encode_from_def encode_tail_def line_feed_cond\<close>)
next
  case 4
  show ?case by (simp add: encode_from_def encode_tail_def)
qed

lemma u32_small_mult: "n \<le> maxInputBufferSize \<Longrightarrow> u32 (u32 (n + 2) div 3 * 4) = (n + 2) div 3 * 4"
  by (simp add: maxInputBufferSize_def)

text \<open>The size computed beforehand does not wrap, and with line feeds it is exact.\<close>

lemma encoded_length_eq:
  assumes "length d \<le> maxInputBufferSize"
  shows "encoded_length policy (length d) =
    (policy = Base64InsertLFs \<and> 76 < 4 * groups d,
     4 * groups d + (if policy = Base64InsertLFs \<and> 76 < 4 * groups d then (groups d - 1) div 19 else 0))"
proof -
  have len: "u32 (u32 (length d + 2) div 3 * 4) = 4 * groups d"
    using u32_small_mult [OF assms] by (simp add: groups_def)
  have bound: "4 * groups d + (groups d - 1) div 19 < 4294967296"
    using assms by (simp add: groups_def maxInputBufferSize_def)
  have lfs: "(4 * groups d - 1) div 76 = (groups d - 1) div 19" if "76 < 4 * groups d"
  proof -
    have "4 * groups d - 1 = 4 * (groups d - 1) + 3" using that by simp
    also have "\<dots> div 76 = (groups d - 1) div 19" by presburger
    finally show ?thesis .
  qed
  show ?thesis
    unfolding encoded_length_def Let_def len
    using bound lfs by (cases "policy = Base64InsertLFs \<and> 76 < 4 * groups d") auto
qed

lemma length_sextets_groups: "length (sextets d) \<le> 4 * groups d" "d \<noteq> [] \<Longrightarrow> 0 < groups d"
  unfolding length_sextets groups_def by (linarith, cases d) simp_all

lemma encode_result:
  assumes len: "length d \<le> 1610612733" and m: "\<And>v :: byte. unat v < 64 \<Longrightarrow> m ! unat v \<noteq> 10"
  shows "\<exists>e pad. base64EncodeInternal d policy m = Inr (e @ replicate pad 61)
    \<and> filter (\<lambda>c. c \<noteq> 10) e = map (\<lambda>v. m ! unat v) (sextets d)
    \<and> (policy \<noteq> Base64InsertLFs \<longrightarrow> e = map (\<lambda>v. m ! unat v) (sextets d))
    \<and> (policy \<noteq> Base64URLPolicy \<longrightarrow> pad = 4 * groups d - length (sextets d))
    \<and> (policy = Base64URLPolicy \<longrightarrow> pad = 0)
    \<and> set e \<subseteq> insert 10 (set (map (\<lambda>v. m ! unat v) (sextets d)))"
proof (cases "d = []")
  case True
  thus ?thesis by (intro exI [of _ "[]"] exI [of _ 0]) (simp add: base64EncodeInternal_def)
next
  case False
  have max: "length d \<le> maxInputBufferSize" using len by (simp add: maxInputBufferSize_def)
  define ins where "ins = (policy = Base64InsertLFs \<and> 76 < 4 * groups d)"
  let ?L = "4 * groups d + (if ins then (groups d - 1) div 19 else 0)"
  have red: "base64EncodeInternal d policy m =
      (let out = encode_from ins m 0 [] d
       in if length out > ?L then Inl VectorOverflow
          else if policy = Base64URLPolicy then Inr out
          else Inr (out @ replicate (?L - length out) 61))"
    unfolding base64EncodeInternal_def encoded_length_eq [OF max] encode_from_def ins_def [symmetric]
    using False max by (cases "encode_loop ins m 0 [] d") (simp add: Let_def)
  have g: "4 * (0 + groups d) < 2147483648" using len by (simp add: groups_def)
  obtain chunk where ch: "encode_from ins m 0 [] d = chunk"
    "filter (\<lambda>c. c \<noteq> 10) chunk = map (\<lambda>v. m ! unat v) (sextets d)"
    "\<not> ins \<Longrightarrow> chunk = map (\<lambda>v. m ! unat v) (sextets d)"
    "set chunk \<subseteq> insert 10 (set (map (\<lambda>v. m ! unat v) (sextets d)))"
    "length chunk = length (sextets d) + (if ins then (groups d - 1) div 19 else 0)"
  proof (cases ins)
    case True
    from encode_from_lines [OF g m, of "[]"] that True show thesis by auto
  next
    case ins: False
    have "filter (\<lambda>c. c \<noteq> 10) (map (\<lambda>v. m ! unat v) (sextets d)) = map (\<lambda>v. m ! unat v) (sextets d)"
      unfolding filter_id_conv by (rule encoded_not_lf [OF m])
    with ins that [of "map (\<lambda>v. m ! unat v) (sextets d)"] show thesis
      by (simp add: encode_from_plain subset_insertI)
  qed
  have "length chunk \<le> ?L" using ch(5) length_sextets_groups(1) [of d] by simp
  hence "base64EncodeInternal d policy m = Inr (chunk @ replicate
      (if policy = Base64URLPolicy then 0 else 4 * groups d - length (sextets d)) 61)"
    unfolding red ch(1) Let_def using ch(5) by auto
  with ch show ?thesis
    by (intro exI [of _ chunk] exI conjI) (auto simp: ins_def)
qed

subsection \<open>What the decoder computes\<close>

lemma unsextets_append: "length xs mod 4 = 0 \<Longrightarrow> unsextets (xs @ ys) = unsextets xs @ unsextets ys"
proof (induction xs rule: unsextets.induct)
  case (1 p q r s rest)
  then show ?case by simp
qed simp_all

text \<open>After \<open>j\<close> rounds in place: the first \<open>3 * j\<close> bytes are done, the characters from \<open>4 * j\<close> on are
  still there.\<close>

definition decoded_upto :: "byte list \<Rightarrow> byte list \<Rightarrow> nat \<Rightarrow> bool" where
  "decoded_upto v out j \<longleftrightarrow> length v \<le> length out \<and> take (3 * j) out = unsextets (take (4 * j) v)
     \<and> (\<forall>i. 4 * j \<le> i \<and> i < length v \<longrightarrow> out ! i = v ! i)"

lemma take_4_more:
  assumes "4 * j + 4 \<le> length v"
  shows "take (4 * Suc j) v = take (4 * j) v @ [v ! (4 * j), v ! (4 * j + 1), v ! (4 * j + 2), v ! (4 * j + 3)]"
proof -
  have "take (4 * Suc j) v = take (4 * j) v @ take 4 (drop (4 * j) v)"
    by (simp add: take_add [symmetric] add.commute)
  also have "take 4 (drop (4 * j) v) = [v ! (4 * j), v ! (4 * j + 1), v ! (4 * j + 2), v ! (4 * j + 3)]"
    using assms by (intro nth_equalityI) (auto simp: less_Suc_eq numeral_eq_Suc)
  finally show ?thesis .
qed

lemma take_three_updates:
  assumes "n + 3 \<le> length xs"
  shows "take (n + 3) (xs[n := a, n + 1 := b, n + 2 := c]) = take n xs @ [a, b, c]"
proof -
  obtain x y z zs where "drop n xs = x # y # z # zs"
    using assms by (metis Suc_le_length_iff add_le_imp_le_diff length_drop numeral_3_eq_3 add.commute)
  then obtain ys where "xs = ys @ x # y # z # zs" "length ys = n"
    using assms by (metis append_take_drop_id length_take min.absorb2 le_add1 order_trans)
  thus ?thesis by (auto simp: list_update_append nth_append)
qed

lemma decode_round:
  assumes inv: "decoded_upto v out j" and len: "4 * j + 4 \<le> length v"
  defines "out1 \<equiv> out[3 * j := push_bit 2 (out ! (4 * j)) OR (drop_bit 4 (out ! (4 * j + 1)) AND 3)]"
  defines "out2 \<equiv> out1[3 * j + 1 := push_bit 4 (out1 ! (4 * j + 1)) OR (drop_bit 2 (out1 ! (4 * j + 2)) AND 15)]"
  defines "out3 \<equiv> out2[3 * j + 2 := push_bit 6 (out2 ! (4 * j + 2)) OR (out2 ! (4 * j + 3) AND 63)]"
  shows "decoded_upto v out3 (Suc j)"
proof -
  have rd: "out ! (4 * j) = v ! (4 * j)" "out ! (4 * j + 1) = v ! (4 * j + 1)"
    "out ! (4 * j + 2) = v ! (4 * j + 2)" "out ! (4 * j + 3) = v ! (4 * j + 3)"
    using inv len by (simp_all add: decoded_upto_def)
  have out3: "out3 = out[3 * j := push_bit 2 (v ! (4 * j)) OR (drop_bit 4 (v ! (4 * j + 1)) AND 3),
      3 * j + 1 := push_bit 4 (v ! (4 * j + 1)) OR (drop_bit 2 (v ! (4 * j + 2)) AND 15),
      3 * j + 2 := push_bit 6 (v ! (4 * j + 2)) OR (v ! (4 * j + 3) AND 63)]"
    using rd by (simp add: out3_def out2_def out1_def)
  have "take (3 * Suc j) out3 = unsextets (take (4 * Suc j) v)"
  proof -
    have "unsextets (take (4 * Suc j) v) = unsextets (take (4 * j) v) @ unsextets
        [v ! (4 * j), v ! (4 * j + 1), v ! (4 * j + 2), v ! (4 * j + 3)]"
      unfolding take_4_more [OF len] by (rule unsextets_append) (use len in simp)
    moreover have "take (3 * Suc j) out3 = take (3 * j) out @ unsextets
        [v ! (4 * j), v ! (4 * j + 1), v ! (4 * j + 2), v ! (4 * j + 3)]"
      using inv len take_three_updates [of "3 * j" out]
      by (simp add: out3 decoded_upto_def add.commute)
    ultimately show ?thesis using inv by (simp add: decoded_upto_def)
  qed
  moreover have "\<forall>i. 4 * Suc j \<le> i \<and> i < length v \<longrightarrow> out3 ! i = v ! i"
    using inv by (simp add: out3 decoded_upto_def)
  ultimately show ?thesis using inv by (simp add: out3 decoded_upto_def)
qed

lemma decode_loop_rounds:
  assumes v: "length v = 4 * k + r" "r < 4" and L: "L = 3 * k + (r - 1)"
  shows "\<lbrakk>decoded_upto v out j; j \<le> k\<rbrakk> \<Longrightarrow>
    \<exists>out'. decode_loop out (4 * j) (3 * j) L = (out', 4 * k, 3 * k) \<and> decoded_upto v out' k
      \<and> length out' = length out"
proof (induction "k - j" arbitrary: j out)
  case 0
  hence "j = k" by simp
  with 0 v L show ?case by (subst decode_loop.simps) auto
next
  case (Suc x)
  hence jk: "j < k" "Suc j \<le> k" "x = k - Suc j" by simp_all
  have go: "L > 1 \<and> 3 * j < L - 2" using jk L by simp
  show ?case
    using Suc.hyps(1) [OF jk(3) decode_round [OF Suc.prems(1)] jk(2)] v jk(2) go
    by (subst decode_loop.simps) (simp add: Let_def add.commute)
qed

text \<open>The in-place conversion of a successful scan is the reference function.\<close>

lemma base64DecodeInternal_eq:
  assumes "data \<noteq> []" and scan: "decode_scan sp policy decodeMap (length data) 0 [] data = Some (eqs, v)"
    and len: "length v \<le> length data" "v \<noteq> []" "length v mod 4 \<noteq> 1"
  shows "base64DecodeInternal sp data policy decodeMap = Some (unsextets v)"
proof -
  obtain k r where kr: "length v = 4 * k + r" "r < 4" "r \<noteq> 1"
    using len(3) by (metis div_mult_mod_eq mod_less_divisor mult.commute zero_less_numeral)
  define L where "L = length v - (length v + 3) div 4"
  have r: "r = 0 \<or> r = 2 \<or> r = 3" using kr by arith
  hence L: "L = 3 * k + (r - 1)" unfolding L_def kr(1) by (elim disjE) simp_all
  have "0 < L" using L r kr(1) len(2) by (cases k) auto
  let ?out = "v @ replicate (length data - length v) 0"
  have "decoded_upto v ?out 0" by (simp add: decoded_upto_def nth_append)
  from decode_loop_rounds [OF kr(1,2) L this]
  obtain out where loop: "decode_loop ?out 0 0 L = (out, 4 * k, 3 * k)" and upto: "decoded_upto v out k"
    by auto
  have lens: "length v \<le> length out" "L \<le> length v" using upto by (simp_all add: decoded_upto_def L_def)
  have short: "(if L < length xs then take L xs else xs) = take L xs" if "L \<le> length xs" for xs :: "byte list"
    using that by auto
  have split: "v = take (4 * k) v @ drop (4 * k) v" "take (3 * k) out = unsextets (take (4 * k) v)"
    using upto by (simp_all add: decoded_upto_def)
  have v: "unsextets v = take (3 * k) out @ unsextets (drop (4 * k) v)"
    using split unsextets_append [of "take (4 * k) v" "drop (4 * k) v"] kr(1) by simp
  have rd: "out ! i = v ! i" if "4 * k \<le> i" "i < length v" for i
    using upto that by (simp add: decoded_upto_def)
  have take1: "take (Suc n) (xs[n := x]) = take n xs @ [x]" if "n < length xs" for n x and xs :: "byte list"
    using that by (simp add: take_Suc_conv_app_nth)
  have "base64DecodeInternal sp data policy decodeMap =
      Some (take L (let out = (if 3 * k < L then out[3 * k := push_bit 2 (out ! (4 * k)) OR (drop_bit 4 (out ! (4 * k + 1)) AND 3)] else out)
                    in if 3 * k + 1 < L then out[3 * k + 1 := push_bit 4 (out ! (4 * k + 1)) OR (drop_bit 2 (out ! (4 * k + 2)) AND 15)] else out))"
    using assms(1) scan len \<open>0 < L\<close> lens loop short
    by (simp add: base64DecodeInternal_def Let_def L_def [symmetric])
  also have "\<dots> = Some (unsextets v)"
    using r
  proof (elim disjE)
    assume "r = 0"
    with L v kr(1) show ?thesis by simp
  next
    assume r: "r = 2"
    have "drop (4 * k) v = [v ! (4 * k), v ! (4 * k + 1)]"
      using kr(1) r by (intro nth_equalityI) (auto simp: less_Suc_eq numeral_eq_Suc)
    with L r v kr(1) rd take1 [of "3 * k" out] lens show ?thesis by simp
  next
    assume r: "r = 3"
    have "drop (4 * k) v = [v ! (4 * k), v ! (4 * k + 1), v ! (4 * k + 2)]"
      using kr(1) r by (intro nth_equalityI) (auto simp: less_Suc_eq numeral_eq_Suc)
    with L r v kr(1) rd take1 [of "3 * k" out] take1 [of "3 * k + 1" "out[3 * k := x]" for x] lens
    show ?thesis by simp
  qed
  finally show ?thesis .
qed

subsection \<open>An alphabet and its inverse\<close>

locale base64_alphabet =
  fixes enc dec :: "byte list"
  assumes alphabet: "unat (v :: byte) < 64 \<Longrightarrow>
      unat (enc ! unat v) < 128 \<and> dec ! unat (enc ! unat v) = v \<and> enc ! unat v \<noteq> 10 \<and> enc ! unat v \<noteq> 61"
    and lf: "dec ! 10 = nonAlphabet"
begin

lemma scan_char:
  assumes "unat v < 64"
  shows "decode_scan sp policy dec len 0 out (unat (enc ! unat v) # rest)
    = decode_scan sp policy dec len 0 (out @ [v]) rest"
proof -
  have "v \<noteq> nonAlphabet" using assms by (auto simp: nonAlphabet_def unsigned_minus_1_eq_mask mask_eq_exp_minus_1)
  moreover have "unat (enc ! unat v) \<noteq> 61"
    using alphabet [OF assms] by (simp add: word_unat_eq_iff)
  ultimately show ?thesis using alphabet [OF assms] by simp
qed

lemma scan_line_feed:
  "policy = Base64IgnoreWhitespace \<or> policy = Base64IgnoreInvalidCharacters \<Longrightarrow>
     decode_scan sp policy dec len 0 out (10 # rest) = decode_scan sp policy dec len 0 out rest"
  by (auto simp: lf isSpaceOrNewline_def)

lemma scan_encoded:
  assumes "policy = Base64IgnoreWhitespace \<or> policy = Base64IgnoreInvalidCharacters \<or> 10 \<notin> set e"
    and "filter (\<lambda>c. c \<noteq> 10) e = map (\<lambda>v. enc ! unat v) sx" and "\<forall>v\<in>set sx. unat v < 64"
  shows "decode_scan sp policy dec len 0 out (map unat e @ rest)
    = decode_scan sp policy dec len 0 (out @ sx) rest"
  using assms
proof (induction e arbitrary: sx out)
  case (Cons c e)
  show ?case
  proof (cases "c = 10")
    case True
    with Cons.prems(1) have "policy = Base64IgnoreWhitespace \<or> policy = Base64IgnoreInvalidCharacters"
      by simp
    moreover have "decode_scan sp policy dec len 0 out (map unat e @ rest)
        = decode_scan sp policy dec len 0 (out @ sx) rest"
      by (rule Cons.IH) (use Cons.prems True in auto)
    ultimately show ?thesis using True by (simp add: scan_line_feed del: decode_scan.simps)
  next
    case False
    with Cons.prems obtain v sx' where v: "sx = v # sx'" "c = enc ! unat v" "unat v < 64"
        "filter (\<lambda>c. c \<noteq> 10) e = map (\<lambda>v. enc ! unat v) sx'"
      by (cases sx) auto
    have "decode_scan sp policy dec len 0 (out @ [v]) (map unat e @ rest)
        = decode_scan sp policy dec len 0 ((out @ [v]) @ sx') rest"
      by (rule Cons.IH) (use Cons.prems v in auto)
    with v show ?thesis by (simp add: scan_char del: decode_scan.simps)
  qed
qed simp

lemma scan_padding:
  "\<not> (policy = Base64FailOnInvalidCharacterOrExcessPadding \<and> 0 < p \<and> (len mod 4 \<noteq> 0 \<or> k + p > 2)) \<Longrightarrow>
     decode_scan sp policy dec len k out (replicate p 61) = Some (k + p, out)"
  by (induction p arbitrary: k) (auto simp: Let_def)

lemma encode_decode:
  assumes len: "length d \<le> 1610612733"
    and pol: "policy = Base64InsertLFs \<Longrightarrow>
      policy' = Base64IgnoreWhitespace \<or> policy' = Base64IgnoreInvalidCharacters"
  shows "\<exists>e. base64EncodeInternal d policy enc = Inr e
    \<and> base64DecodeInternal sp (map unat e) policy' dec = Some d"
proof (cases "d = []")
  case True
  thus ?thesis by (simp add: base64EncodeInternal_def base64DecodeInternal_def)
next
  case False
  have no_lf: "enc ! unat v \<noteq> 10" if "unat v < 64" for v :: byte using alphabet [OF that] by simp
  have "\<exists>e pad. base64EncodeInternal d policy enc = Inr (e @ replicate pad 61)
    \<and> filter (\<lambda>c. c \<noteq> 10) e = map (\<lambda>v. enc ! unat v) (sextets d)
    \<and> (policy \<noteq> Base64InsertLFs \<longrightarrow> e = map (\<lambda>v. enc ! unat v) (sextets d))
    \<and> (policy \<noteq> Base64URLPolicy \<longrightarrow> pad = 4 * groups d - length (sextets d))
    \<and> (policy = Base64URLPolicy \<longrightarrow> pad = 0)
    \<and> set e \<subseteq> insert 10 (set (map (\<lambda>v. enc ! unat v) (sextets d)))"
    by (rule encode_result [OF len]) (rule no_lf)
  then obtain e pad where e: "base64EncodeInternal d policy enc = Inr (e @ replicate pad 61)"
    "filter (\<lambda>c. c \<noteq> 10) e = map (\<lambda>v. enc ! unat v) (sextets d)"
    "policy \<noteq> Base64InsertLFs \<longrightarrow> e = map (\<lambda>v. enc ! unat v) (sextets d)"
    "policy \<noteq> Base64URLPolicy \<longrightarrow> pad = 4 * groups d - length (sextets d)"
    "policy = Base64URLPolicy \<longrightarrow> pad = 0"
    by blast
  have sx: "\<forall>v\<in>set (sextets d). unat v < 64" using sextets_less by blast
  have lens: "length (sextets d) mod 4 \<noteq> 1" "sextets d \<noteq> []" "4 * groups d - length (sextets d) \<le> 2"
    "length (sextets d) \<le> 4 * groups d"
  proof -
    show "length (sextets d) mod 4 \<noteq> 1" "4 * groups d - length (sextets d) \<le> 2"
      unfolding groups_def by (rule sextets_shape)+
    show "sextets d \<noteq> []" using False by (cases d rule: sextets.cases) auto
    show "length (sextets d) \<le> 4 * groups d" by (rule length_sextets_groups)
  qed
  let ?e = "e @ replicate pad 61"
  have esx: "length (sextets d) \<le> length e"
    using e(2) by (metis length_filter_le length_map)
  have "length ?e mod 4 = 0" if "policy' = Base64FailOnInvalidCharacterOrExcessPadding" "0 < pad"
  proof -
    have "policy \<noteq> Base64InsertLFs" using pol that(1) by auto
    with e(3,4,5) that(2) lens(4) show ?thesis by auto
  qed
  hence "decode_scan sp policy' dec (length ?e) 0 (sextets d) (replicate pad 61) = Some (0 + pad, sextets d)"
    using e(4,5) lens(3) by (intro scan_padding) auto
  moreover have "policy' = Base64IgnoreWhitespace \<or> policy' = Base64IgnoreInvalidCharacters \<or> 10 \<notin> set e"
    using pol e(3) encoded_not_lf [OF no_lf, of d] by fastforce
  ultimately have scan: "decode_scan sp policy' dec (length (map unat ?e)) 0 [] (map unat ?e) = Some (pad, sextets d)"
    using scan_encoded [OF _ e(2) sx] by simp
  have "map unat ?e \<noteq> []" using esx lens(2) by auto
  hence "base64DecodeInternal sp (map unat ?e) policy' dec = Some (unsextets (sextets d))"
    by (rule base64DecodeInternal_eq [OF _ scan]) (use esx lens in simp_all)
  with e(1) show ?thesis by (simp add: unsextets_sextets)
qed

end

lemma byte_of_nat: "unat (v :: byte) < 64 \<Longrightarrow> \<exists>k<64. unat v = k \<and> v = of_nat k"
  by auto

lemma alphabet_by_tables:
  assumes "length enc = 64" "map (\<lambda>c. dec ! unat c) enc = map of_nat [0..<64]"
    and "\<forall>c\<in>set enc. unat c < 128 \<and> c \<noteq> 10 \<and> c \<noteq> 61" and "unat (v :: byte) < 64"
  shows "unat (enc ! unat v) < 128 \<and> dec ! unat (enc ! unat v) = v \<and> enc ! unat v \<noteq> 10 \<and> enc ! unat v \<noteq> 61"
proof -
  have "enc ! unat v \<in> set enc" using assms(1,4) by simp
  moreover have "map (\<lambda>c. dec ! unat c) enc ! unat v = v"
    unfolding assms(2) using assms(4) by simp
  hence "dec ! unat (enc ! unat v) = v" using assms(1,4) by simp
  ultimately show ?thesis using assms(3) by blast
qed

interpretation standard: base64_alphabet base64EncMap base64DecMap
proof unfold_locales
  fix v :: byte assume "unat v < 64"
  thus "unat (base64EncMap ! unat v) < 128 \<and> base64DecMap ! unat (base64EncMap ! unat v) = v
      \<and> base64EncMap ! unat v \<noteq> 10 \<and> base64EncMap ! unat v \<noteq> 61"
    by (rule alphabet_by_tables [rotated -1])
      (simp_all add: base64EncMap_def base64DecMap_def upt_rec)
next
  show "base64DecMap ! 10 = nonAlphabet" by (simp add: base64DecMap_def)
qed

interpretation url_safe: base64_alphabet base64URLEncMap base64URLDecMap
proof unfold_locales
  fix v :: byte assume "unat v < 64"
  thus "unat (base64URLEncMap ! unat v) < 128 \<and> base64URLDecMap ! unat (base64URLEncMap ! unat v) = v
      \<and> base64URLEncMap ! unat v \<noteq> 10 \<and> base64URLEncMap ! unat v \<noteq> 61"
    by (rule alphabet_by_tables [rotated -1])
      (simp_all add: base64URLEncMap_def base64URLDecMap_def upt_rec)
next
  show "base64URLDecMap ! 10 = nonAlphabet" by (simp add: base64URLDecMap_def)
qed

subsection \<open>Properties of the codec\<close>

text \<open>C31: Encoding never writes past the output vector and decoding inverts it: for every byte
  string of at most 1610612733 bytes, each encoding policy succeeds, and every decoding policy that
  accepts its line feeds returns the original bytes (line feeds are accepted by the two policies
  that ignore characters).\<close>

theorem base64_round_trip:
  assumes "length d \<le> 1610612733"
    and "policy = Base64InsertLFs \<longrightarrow>
      policy' = Base64IgnoreWhitespace \<or> policy' = Base64IgnoreInvalidCharacters"
  shows "\<exists>e. base64Encode d policy = Inr e \<and> base64Decode sp (map unat e) policy' = Some d"
  unfolding base64Encode_def base64Decode_def
  by (rule standard.encode_decode [OF assms(1)]) (use assms(2) in blast)

theorem base64_round_trip_witness:
  "\<exists>e. base64Encode [0xDE, 0xAD, 0xBE, 0xEF] Base64DoNotInsertLFs = Inr e
     \<and> base64Decode (\<lambda>_. False) (map unat e) Base64FailOnInvalidCharacterOrExcessPadding
         = Some [0xDE, 0xAD, 0xBE, 0xEF]"
  by (rule base64_round_trip) simp_all

text \<open>The URL-safe variant, which has its own alphabet and no padding, is inverted too.\<close>

theorem base64URL_round_trip:
  assumes "length d \<le> 1610612733"
  shows "\<exists>e. base64URLEncode d = Inr e \<and> base64URLDecode sp (map unat e) = Some d"
  unfolding base64URLEncode_def base64URLDecode_def
  by (rule url_safe.encode_decode [OF assms]) simp

theorem base64URL_round_trip_witness:
  "\<exists>e. base64URLEncode [0xFB, 0xFF] = Inr e \<and> base64URLDecode (\<lambda>_. False) (map unat e) = Some [0xFB, 0xFF]"
  by (rule base64URL_round_trip) simp

lemma decode_scan_length:
  "decode_scan sp policy m len k out data = Some (eqs, v) \<Longrightarrow> length v \<le> length out + length data"
  by (induction sp policy m len k out data rule: decode_scan.induct)
    (auto simp: Let_def split: if_splits)

text \<open>The decoder, which converts in place in its output vector, computes the reference
  conversion: whenever the scan finds characters, the input is accepted unless one character is left
  over, and the result is the conversion of the characters it kept, three bytes for every four. No
  byte is read after it was overwritten.\<close>

theorem decode_in_place_is_reference:
  assumes "decode_scan sp policy m (length data) 0 [] data = Some (eqs, v)" and "v \<noteq> []"
  shows "base64DecodeInternal sp data policy m
    = (if length v mod 4 = 1 then None else Some (unsextets v))"
proof -
  have "data \<noteq> []" using assms by auto
  moreover have "length v \<le> length data" using decode_scan_length [OF assms(1)] by simp
  ultimately show ?thesis
    using base64DecodeInternal_eq [OF _ assms(1)] assms by (auto simp: base64DecodeInternal_def)
qed

theorem decode_in_place_is_reference_witness:
  "base64Decode (\<lambda>_. False) [84, 87, 70, 117] Base64FailOnInvalidCharacter = Some [77, 97, 110]"
proof -
  have "decode_scan (\<lambda>_. False) Base64FailOnInvalidCharacter base64DecMap
      (length [84, 87, 70, 117 :: nat]) 0 [] [84, 87, 70, 117] = Some (0, [19, 22, 5, 46])"
    by (simp add: base64DecMap_def nonAlphabet_def Let_def)
  from decode_in_place_is_reference [OF this] show ?thesis by (simp add: base64Decode_def)
qed

text \<open>When a decoding policy ignores characters and the input has no others, the decoder
  reports success with a result as long as the input, made of bytes it never wrote.\<close>

theorem ignored_input_decodes_to_unwritten_bytes:
  "base64Decode sp [32, 10, 32] Base64IgnoreWhitespace = Some (replicate 3 0)
   \<and> base64Decode sp [33] Base64IgnoreInvalidCharacters = Some (replicate 1 0)
   \<and> base64Decode sp [] Base64IgnoreWhitespace = Some []"
  by (simp add: base64Decode_def base64DecodeInternal_def base64DecMap_def nonAlphabet_def
      isSpaceOrNewline_def Let_def numeral_3_eq_3)

end
