(* ===== verification/UTF8.thy ===== *)
theory UTF8
  imports Prelude
begin

unbundle bit_operations_syntax

text \<open>
  The conversions between UTF-8 and UTF-16, \<^verbatim>\<open>WTF/wtf/unicode/UTF8.cpp\<close>. Bytes, 16-bit code
  units and code points are natural numbers below their bounds; the bit operations are those of the
  source. A pair of pointers into a buffer is the list of what is left of it, and the target is the
  list written so far with its capacity, so backing up a pointer keeps the old list.
\<close>

datatype conversion_result = conversionOK | sourceExhausted | targetExhausted | sourceIllegal

definition replacementCharacter :: nat where
  "replacementCharacter = 0xFFFD"

subsection \<open>Single sequences\<close>

definition inlineUTF8SequenceLengthNonASCII :: "nat \<Rightarrow> nat" where
  "inlineUTF8SequenceLengthNonASCII b0 =
     (if b0 AND 0xC0 \<noteq> 0xC0 then 0
      else if b0 AND 0xE0 = 0xC0 then 2
      else if b0 AND 0xF0 = 0xE0 then 3
      else if b0 AND 0xF8 = 0xF0 then 4
      else 0)"

definition inlineUTF8SequenceLength :: "nat \<Rightarrow> nat" where
  "inlineUTF8SequenceLength b0 = (if b0 < 0x80 then 1 else inlineUTF8SequenceLengthNonASCII b0)"

text \<open>The bytes of a null-terminated string from an offset on; past the list there is the terminator.\<close>

definition byte_at :: "nat list \<Rightarrow> nat \<Rightarrow> nat" where
  "byte_at s i = (if i < length s then s ! i else 0)"

definition decodeUTF8Sequence :: "nat list \<Rightarrow> int" where
  "decodeUTF8Sequence s =
     (let b0 = byte_at s 0; len = inlineUTF8SequenceLength b0 in
      if len = 0 then - 1 else
      let b1 = byte_at s 1 in
      if len = 1 then (if b1 \<noteq> 0 then - 1 else int b0) else
      if b1 AND 0xC0 \<noteq> 0x80 then - 1 else
      let b2 = byte_at s 2 in
      if len = 2 then
        (if b2 \<noteq> 0 then - 1
         else let c = push_bit 6 (b0 AND 0x1F) OR (b1 AND 0x3F)
              in if c < 0x80 then - 1 else int c) else
      if b2 AND 0xC0 \<noteq> 0x80 then - 1 else
      let b3 = byte_at s 3 in
      if len = 3 then
        (if b3 \<noteq> 0 then - 1
         else let c = push_bit 12 (b0 AND 0xF) OR push_bit 6 (b1 AND 0x3F) OR (b2 AND 0x3F)
              in if c < 0x800 then - 1
                 else if 0xD800 \<le> c \<and> c \<le> 0xDFFF then - 1 else int c) else
      if b3 AND 0xC0 \<noteq> 0x80 then - 1 else
      let b4 = byte_at s 4 in
      if len = 4 then
        (if b4 \<noteq> 0 then - 1
         else let c = push_bit 18 (b0 AND 0x7) OR push_bit 12 (b1 AND 0x3F) OR push_bit 6 (b2 AND 0x3F)
                        OR (b3 AND 0x3F)
              in if c < 0x10000 \<or> 0x10FFFF < c then - 1 else int c) else - 1)"

definition firstByteMark :: "nat list" where
  "firstByteMark = [0x00, 0x00, 0xC0, 0xE0, 0xF0, 0xF8, 0xFC]"

text \<open>
  The \<^verbatim>\<open>switch\<close> that writes a character backwards, case after case falling through: \<open>k\<close> bytes
  are still to be written before what is already there.
\<close>

fun write_bytes :: "nat \<Rightarrow> nat \<Rightarrow> nat \<Rightarrow> nat list \<Rightarrow> nat list" where
  "write_bytes bytesToWrite ch (Suc (Suc k)) acc =
     write_bytes bytesToWrite (drop_bit 6 ch) (Suc k) (((ch OR 0x80) AND 0xBF) # acc)"
| "write_bytes bytesToWrite ch (Suc 0) acc = (ch OR firstByteMark ! bytesToWrite) mod 256 # acc"
| "write_bytes bytesToWrite ch 0 acc = acc"

subsection \<open>To UTF-8\<close>

fun convertLatin1ToUTF8 ::
    "nat \<Rightarrow> nat list \<Rightarrow> nat list \<Rightarrow> conversion_result \<times> nat list \<times> nat list" where
  "convertLatin1ToUTF8 capacity target [] = (conversionOK, [], target)"
| "convertLatin1ToUTF8 capacity target (ch # source) =
     (let bytesToWrite = (if ch < 0x80 then 1 else 2)
      in if length target + bytesToWrite > capacity then (targetExhausted, ch # source, target)
         else convertLatin1ToUTF8 capacity (target @ write_bytes bytesToWrite ch bytesToWrite []) source)"

definition bytesToWrite16 :: "nat \<Rightarrow> nat \<times> nat" where
  "bytesToWrite16 ch =
     (if ch < 0x80 then (1, ch) else if ch < 0x800 then (2, ch) else if ch < 0x10000 then (3, ch)
      else if ch < 0x110000 then (4, ch) else (3, replacementCharacter))"

text \<open>How the next character is read: its value and what follows it, or why the loop stops.\<close>

fun next_utf16 :: "bool \<Rightarrow> nat list \<Rightarrow> conversion_result + (nat \<times> nat list)" where
  "next_utf16 strict (ch # source) =
     (if 0xD800 \<le> ch \<and> ch \<le> 0xDBFF
      then (case source of
              ch2 # source' \<Rightarrow>
                (if 0xDC00 \<le> ch2 \<and> ch2 \<le> 0xDFFF
                 then Inr (push_bit 10 (ch - 0xD800) + (ch2 - 0xDC00) + 0x10000, source')
                 else if strict then Inl sourceIllegal else Inr (ch, source))
            | [] \<Rightarrow> Inl sourceExhausted)
      else if strict \<and> 0xDC00 \<le> ch \<and> ch \<le> 0xDFFF then Inl sourceIllegal
      else Inr (ch, source))"
| "next_utf16 strict [] = Inl conversionOK"

lemma next_utf16_shorter: "next_utf16 strict src = Inr (ch, rest) \<Longrightarrow> length rest < length src"
  by (cases src) (auto split: if_splits list.splits)

function convertUTF16ToUTF8 ::
    "bool \<Rightarrow> nat \<Rightarrow> nat list \<Rightarrow> nat list \<Rightarrow> conversion_result \<times> nat list \<times> nat list" where
  "convertUTF16ToUTF8 strict capacity target source =
     (case next_utf16 strict source of
        Inl r \<Rightarrow> (r, source, target)
      | Inr (ch0, rest) \<Rightarrow>
          (case bytesToWrite16 ch0 of
             (bytesToWrite, ch) \<Rightarrow>
               if length target + bytesToWrite > capacity then (targetExhausted, source, target)
               else convertUTF16ToUTF8 strict capacity
                      (target @ write_bytes bytesToWrite ch bytesToWrite []) rest))"
  by pat_completeness auto
termination
  by (relation "measure (\<lambda>(strict, capacity, target, source). length source)")
    (auto simp: next_utf16_shorter)

declare convertUTF16ToUTF8.simps [simp del]

subsection \<open>From UTF-8\<close>

text \<open>\<^verbatim>\<open>source\<close> is known to have \<open>len\<close> bytes.\<close>

definition isLegalUTF8 :: "nat list \<Rightarrow> nat \<Rightarrow> bool" where
  "isLegalUTF8 source len =
     (let b0 = source ! 0;
          case1 = \<not> (0x80 \<le> b0 \<and> b0 < 0xC2) \<and> \<not> (0xF4 < b0);
          case2 = (let a = source ! 1
                   in if 0xBF < a then False
                      else if b0 = 0xE0 then (if a < 0xA0 then False else case1)
                      else if b0 = 0xED then (if 0x9F < a then False else case1)
                      else if b0 = 0xF0 then (if a < 0x90 then False else case1)
                      else if b0 = 0xF4 then (if 0x8F < a then False else case1)
                      else if a < 0x80 then False else case1);
          case3 = (let a = source ! 2 in if a < 0x80 \<or> 0xBF < a then False else case2);
          case4 = (let a = source ! 3 in if a < 0x80 \<or> 0xBF < a then False else case3)
      in if len = 4 then case4 else if len = 3 then case3 else if len = 2 then case2
         else if len = 1 then case1 else False)"

definition offsetsFromUTF8 :: "int list" where
  "offsetsFromUTF8 = [0x00000000, 0x00003080, 0x000E2080, 0x03C82080]"

text \<open>The accumulation of up to four bytes (the cases for five and six are never reached: the
  length comes from the first byte).\<close>

fun read_bytes :: "int \<Rightarrow> nat list \<Rightarrow> nat \<Rightarrow> int" where
  "read_bytes character source (Suc (Suc k)) =
     read_bytes (push_bit 6 (character + int (hd source))) (tl source) (Suc k)"
| "read_bytes character source (Suc 0) = character + int (hd source)"
| "read_bytes character source 0 = character"

definition readUTF8Sequence :: "nat list \<Rightarrow> nat \<Rightarrow> int" where
  "readUTF8Sequence source len = read_bytes 0 source len - offsetsFromUTF8 ! (len - 1)"

definition U_IS_BMP :: "int \<Rightarrow> bool" where
  "U_IS_BMP c \<longleftrightarrow> 0 \<le> c \<and> c \<le> 0xFFFF"

definition U_IS_SURROGATE :: "int \<Rightarrow> bool" where
  "U_IS_SURROGATE c \<longleftrightarrow> 0xD800 \<le> c \<and> c \<le> 0xDFFF"

definition U_IS_SUPPLEMENTARY :: "int \<Rightarrow> bool" where
  "U_IS_SUPPLEMENTARY c \<longleftrightarrow> 0x10000 \<le> c \<and> c \<le> 0x10FFFF"

definition U16_LEAD :: "int \<Rightarrow> nat" where
  "U16_LEAD c = nat (drop_bit 10 c + 0xD7C0)"

definition U16_TRAIL :: "int \<Rightarrow> nat" where
  "U16_TRAIL c = nat ((c AND 0x3FF) OR 0xDC00)"

text \<open>The source that is left, the target, and the disjunction of all code units written.\<close>

function convert8to16 ::
    "bool \<Rightarrow> nat \<Rightarrow> nat list \<Rightarrow> nat \<Rightarrow> nat list \<Rightarrow> conversion_result \<times> nat list \<times> nat list \<times> nat" where
  "convert8to16 strict capacity target orAllData source =
     (if source = [] then (conversionOK, source, target, orAllData)
      else
        let len = inlineUTF8SequenceLength (hd source)
        in if length source < len then (sourceExhausted, source, target, orAllData)
           else if \<not> isLegalUTF8 source len then (sourceIllegal, source, target, orAllData)
           else
             let character = readUTF8Sequence source len
             in if length target \<ge> capacity then (targetExhausted, source, target, orAllData)
                else if U_IS_BMP character
                then if U_IS_SURROGATE character
                     then if strict then (sourceIllegal, source, target, orAllData)
                          else convert8to16 strict capacity (target @ [replacementCharacter])
                                 (orAllData OR replacementCharacter) (drop len source)
                     else convert8to16 strict capacity (target @ [nat character])
                            (orAllData OR nat character) (drop len source)
                else if U_IS_SUPPLEMENTARY character
                then if length target + 1 \<ge> capacity then (targetExhausted, source, target, orAllData)
                     else convert8to16 strict capacity (target @ [U16_LEAD character, U16_TRAIL character])
                            0xffff (drop len source)
                else if strict then (sourceIllegal, source, target, orAllData)
                else convert8to16 strict capacity (target @ [replacementCharacter])
                       (orAllData OR replacementCharacter) (drop len source))"
  by pat_completeness auto
termination
proof (relation "measure (\<lambda>(strict, capacity, target, orAllData, source). length source)", goal_cases)
  case 1
  show ?case by simp
qed (auto simp: isLegalUTF8_def Let_def split: if_splits)

declare convert8to16.simps [simp del]

definition convertUTF8ToUTF16 ::
    "bool \<Rightarrow> nat \<Rightarrow> nat list \<Rightarrow> conversion_result \<times> nat list \<times> nat list \<times> bool" where
  "convertUTF8ToUTF16 strict capacity source =
     (case convert8to16 strict capacity [] 0 source of
        (r, rest, target, orAllData) \<Rightarrow> (r, rest, target, orAllData < 0x80))"

text \<open>
  \<^verbatim>\<open>equalUTF16WithUTF8\<close>: the UTF-16 pointer is advanced without looking at its end; reading past
  it is the value \<open>None\<close>.
\<close>

function equalUTF16WithUTF8 :: "nat list \<Rightarrow> nat list \<Rightarrow> bool option" where
  "equalUTF16WithUTF8 a b =
     (if b = [] then Some (a = [])
      else if hd b < 0x80
      then (case a of [] \<Rightarrow> None
            | x # a' \<Rightarrow> if x \<noteq> hd b then Some False else equalUTF16WithUTF8 a' (tl b))
      else
        let len = inlineUTF8SequenceLengthNonASCII (hd b)
        in if length b < len then Some False
           else if \<not> isLegalUTF8 b len then Some False
           else
             let character = readUTF8Sequence b len
             in if U_IS_BMP character
                then if U_IS_SURROGATE character then Some False
                     else (case a of [] \<Rightarrow> None
                           | x # a' \<Rightarrow> if int x \<noteq> character then Some False
                                      else equalUTF16WithUTF8 a' (drop len b))
                else if U_IS_SUPPLEMENTARY character
                then (case a of [] \<Rightarrow> None
                      | x # a' \<Rightarrow>
                          if x \<noteq> U16_LEAD character then Some False
                          else (case a' of [] \<Rightarrow> None
                                | y # a'' \<Rightarrow> if y \<noteq> U16_TRAIL character then Some False
                                            else equalUTF16WithUTF8 a'' (drop len b)))
                else Some False)"
  by pat_completeness auto
termination
proof (relation "measure (\<lambda>(a, b). length b)", goal_cases)
  case 1
  show ?case by simp
qed (auto simp: isLegalUTF8_def Let_def split: if_splits)

declare equalUTF16WithUTF8.simps [simp del]

subsection \<open>Bit operations as arithmetic\<close>

lemma or_eq_add:
  fixes c m :: nat
  assumes "c < 2 ^ k" "2 ^ k dvd m"
  shows "c OR m = c + m"
proof -
  have disj: "bit c n \<Longrightarrow> bit m n \<Longrightarrow> False" for n
  proof (cases "n < k")
    case True
    obtain q where "m = 2 ^ k * q" using assms(2) by (elim dvdE)
    hence "m = push_bit k q" by (simp add: push_bit_eq_mult mult.commute)
    with True show "bit c n \<Longrightarrow> bit m n \<Longrightarrow> False" by (simp add: bit_push_bit_iff_nat)
  next
    case False
    hence "(2 :: nat) ^ k \<le> 2 ^ n" by simp
    with assms(1) have "c < 2 ^ n" by linarith
    thus "bit c n \<Longrightarrow> bit m n \<Longrightarrow> False" by (simp add: bit_iff_odd)
  qed
  have "c AND m = 0" by (rule bit_eqI) (use disj in \<open>auto simp: bit_and_iff\<close>)
  thus ?thesis by (simp add: disjunctive_add_eq_or)
qed

lemma and_mask_nat: "(n :: nat) AND (2 ^ k - 1) = n mod 2 ^ k"
  by (simp only: mask_eq_exp_minus_1 [symmetric] take_bit_eq_mask [symmetric] take_bit_eq_mod)

lemma and_high_mask:
  fixes n :: nat
  shows "n AND push_bit k (mask j) = 2 ^ k * (n div 2 ^ k mod 2 ^ j)"
proof -
  have "n AND push_bit k (mask j) = push_bit k (take_bit j (drop_bit k n))"
    by (rule bit_eqI) (auto simp: bit_simps)
  thus ?thesis by (simp add: push_bit_eq_mult take_bit_eq_mod drop_bit_eq_div mult.commute)
qed

lemma high_masks:
  fixes b :: nat
  assumes "b < 256"
  shows "b AND 0xC0 = 64 * (b div 64)" "b AND 0xE0 = 32 * (b div 32)" "b AND 0xF0 = 16 * (b div 16)"
    "b AND 0xF8 = 8 * (b div 8)"
  using and_high_mask [of b 6 2] and_high_mask [of b 5 3] and_high_mask [of b 4 4] and_high_mask [of b 3 5] assms
  by (simp_all add: mask_eq_exp_minus_1 push_bit_eq_mult)

lemma continuation_byte: "((ch :: nat) OR 0x80) AND 0xBF = 0x80 + ch mod 64"
proof -
  have "(ch OR 0x80) AND 0xBF = (ch AND 0x3F) OR (0x80 :: nat)"
  proof (rule bit_eqI)
    fix n show "bit ((ch OR 0x80) AND 0xBF) n \<longleftrightarrow> bit ((ch AND 0x3F) OR (0x80 :: nat)) n"
    proof (cases "n < 8")
      case True
      hence "n = 0 \<or> n = 1 \<or> n = 2 \<or> n = 3 \<or> n = 4 \<or> n = 5 \<or> n = 6 \<or> n = 7" by arith
      thus ?thesis by (elim disjE)
          (simp_all add: bit_or_iff bit_and_iff bit_numeral_rec bit_0 even_or_iff even_and_iff)
    next
      case False
      hence le: "(256 :: nat) \<le> 2 ^ n" using power_increasing [of 8 n "2 :: nat"] by simp
      hence "\<not> bit (0xBF :: nat) n" "\<not> bit (0x3F :: nat) n" "\<not> bit (0x80 :: nat) n"
        by (simp_all add: bit_iff_odd)
      thus ?thesis by (simp add: bit_or_iff bit_and_iff)
    qed
  qed
  also have "\<dots> = ch mod 64 + 0x80"
    using and_mask_nat [of ch 6] or_eq_add [of "ch mod 64" 6 128] by simp
  finally show ?thesis by simp
qed

lemma first_bytes:
  "c < 32 \<Longrightarrow> (c OR 0xC0 :: nat) = c + 0xC0" "c < 16 \<Longrightarrow> (c OR 0xE0 :: nat) = c + 0xE0"
  "c < 8 \<Longrightarrow> (c OR 0xF0 :: nat) = c + 0xF0"
  using or_eq_add [of c 5 192] or_eq_add [of c 4 224] or_eq_add [of c 3 240] by simp_all

lemma sequence_length:
  assumes "b < 256"
  shows "inlineUTF8SequenceLength b =
    (if b < 0x80 then 1 else if b < 0xC0 then 0 else if b < 0xE0 then 2 else if b < 0xF0 then 3
     else if b < 0xF8 then 4 else 0)"
  unfolding inlineUTF8SequenceLength_def inlineUTF8SequenceLengthNonASCII_def high_masks [OF assms]
  using assms by auto

subsection \<open>Characters and their encodings\<close>

definition scalar :: "nat \<Rightarrow> bool" where
  "scalar cp \<longleftrightarrow> cp < 0xD800 \<or> 0xE000 \<le> cp \<and> cp < 0x110000"

definition utf8_of :: "nat \<Rightarrow> nat list" where
  "utf8_of cp =
     (if cp < 0x80 then [cp]
      else if cp < 0x800 then [0xC0 + cp div 64, 0x80 + cp mod 64]
      else if cp < 0x10000 then [0xE0 + cp div 4096, 0x80 + cp div 64 mod 64, 0x80 + cp mod 64]
      else [0xF0 + cp div 262144, 0x80 + cp div 4096 mod 64, 0x80 + cp div 64 mod 64, 0x80 + cp mod 64])"

definition utf16_of :: "nat \<Rightarrow> nat list" where
  "utf16_of cp =
     (if cp < 0x10000 then [cp]
      else [0xD800 + (cp - 0x10000) div 1024, 0xDC00 + (cp - 0x10000) mod 1024])"

lemma utf8_of_length: "0 < length (utf8_of cp)" "length (utf8_of cp) \<le> 4" "utf8_of cp \<noteq> []"
  by (simp_all add: utf8_of_def)

lemma write_bytes_utf8:
  assumes "cp < 0x110000"
  shows "bytesToWrite16 cp = (length (utf8_of cp), cp)"
    "write_bytes (length (utf8_of cp)) cp (length (utf8_of cp)) [] = utf8_of cp"
proof -
  show "bytesToWrite16 cp = (length (utf8_of cp), cp)"
    using assms by (simp add: bytesToWrite16_def utf8_of_def)
  have d: "cp div 64 div 64 = cp div 4096" "cp div 4096 div 64 = cp div 262144"
    by (simp_all add: div_mult2_eq [symmetric])
  consider "cp < 0x80" | "0x80 \<le> cp" "cp < 0x800" | "0x800 \<le> cp" "cp < 0x10000"
    | "0x10000 \<le> cp" "cp < 0x110000" using assms by linarith
  thus "write_bytes (length (utf8_of cp)) cp (length (utf8_of cp)) [] = utf8_of cp"
  proof cases
    case 1
    thus ?thesis by (simp add: utf8_of_def firstByteMark_def)
  next
    case 2
    hence "cp div 64 < 32" by linarith
    with 2 show ?thesis
      by (simp add: utf8_of_def continuation_byte drop_bit_eq_div firstByteMark_def first_bytes)
  next
    case 3
    hence "cp div 4096 < 16" by linarith
    with 3 show ?thesis
      by (simp add: utf8_of_def continuation_byte drop_bit_eq_div firstByteMark_def first_bytes d)
  next
    case 4
    hence "cp div 262144 < 8" by linarith
    with 4 show ?thesis
      by (simp add: utf8_of_def continuation_byte drop_bit_eq_div firstByteMark_def first_bytes d)
  qed
qed

lemma div_mod_64: "(l :: nat) < 64 \<Longrightarrow> (64 * q + l) div 64 = q \<and> (64 * q + l) mod 64 = l"
  by simp

lemma utf8_of_forms:
  "\<lbrakk>2 \<le> h; h < 32; l < 64\<rbrakk> \<Longrightarrow> utf8_of (64 * h + l) = [0xC0 + h, 0x80 + l]"
  "\<lbrakk>i = 0 \<longrightarrow> 32 \<le> h; i < 16; h < 64; l < 64\<rbrakk> \<Longrightarrow>
     utf8_of (4096 * i + 64 * h + l) = [0xE0 + i, 0x80 + h, 0x80 + l]"
  "\<lbrakk>j = 0 \<longrightarrow> 16 \<le> i; j = 4 \<longrightarrow> i < 16; j < 5; i < 64; h < 64; l < 64\<rbrakk> \<Longrightarrow>
     utf8_of (262144 * j + 4096 * i + 64 * h + l) = [0xF0 + j, 0x80 + i, 0x80 + h, 0x80 + l]"
proof -
  assume "2 \<le> h" "h < 32" "l < 64"
  thus "utf8_of (64 * h + l) = [0xC0 + h, 0x80 + l]" by (simp add: utf8_of_def)
next
  assume a: "i = 0 \<longrightarrow> 32 \<le> h" "i < 16" "h < 64" "l < 64"
  have ge: "2048 \<le> 4096 * i + 64 * h + l" using a by (cases i) auto
  have lt: "4096 * i + 64 * h + l < 65536" using a by linarith
  have "4096 * i + 64 * h + l = 64 * (64 * i + h) + l" by simp
  hence d: "(4096 * i + 64 * h + l) div 64 = 64 * i + h" "(4096 * i + 64 * h + l) mod 64 = l"
    using div_mod_64 [OF a(4), of "64 * i + h"] by simp_all
  have "(4096 * i + 64 * h + l) div 4096 = i" using a by linarith
  with ge lt d a show "utf8_of (4096 * i + 64 * h + l) = [0xE0 + i, 0x80 + h, 0x80 + l]"
    by (simp add: utf8_of_def)
next
  assume a: "j = 0 \<longrightarrow> 16 \<le> i" "j = 4 \<longrightarrow> i < 16" "j < 5" "i < 64" "h < 64" "l < 64"
  let ?c = "262144 * j + 4096 * i + 64 * h + l"
  have ge: "65536 \<le> ?c" using a by (cases j) auto
  have "?c = 64 * (4096 * j + 64 * i + h) + l" by simp
  hence d: "?c div 64 = 4096 * j + 64 * i + h" "?c mod 64 = l"
    using div_mod_64 [OF a(6), of "4096 * j + 64 * i + h"] by simp_all
  have "?c div 4096 = 64 * j + i" "?c div 262144 = j" using a by linarith+
  moreover have "(4096 * j + 64 * i + h) mod 64 = h" "(64 * j + i) mod 64 = i"
    using div_mod_64 [OF a(5), of "64 * j + i"] div_mod_64 [OF a(4), of j] by simp_all
  ultimately show "utf8_of ?c = [0xF0 + j, 0x80 + i, 0x80 + h, 0x80 + l]"
    using ge d by (simp add: utf8_of_def)
qed

text \<open>Every character has one of these forms.\<close>

lemma scalar_cases:
  assumes "scalar cp"
  obtains "cp < 0x80"
  | h l where "cp = 64 * h + l" "2 \<le> h" "h < 32" "l < 64"
  | i h l where "cp = 4096 * i + 64 * h + l" "i = 0 \<longrightarrow> 32 \<le> h" "i = 13 \<longrightarrow> h < 32" "i < 16" "h < 64" "l < 64"
  | j i h l where "cp = 262144 * j + 4096 * i + 64 * h + l" "j = 0 \<longrightarrow> 16 \<le> i" "j = 4 \<longrightarrow> i < 16"
      "j < 5" "i < 64" "h < 64" "l < 64"
proof -
  let ?l = "cp mod 64" and ?h = "cp div 64 mod 64" and ?i = "cp div 4096 mod 64" and ?j = "cp div 262144"
  have cp: "cp = 64 * (cp div 64) + ?l" by simp
  have cp2: "cp div 64 = 64 * (cp div 4096) + ?h" by (simp add: div_mult2_eq [of cp 64 64, simplified])
  have cp3: "cp div 4096 = 64 * ?j + ?i" by (simp add: div_mult2_eq [of cp 4096 64, simplified])
  consider "cp < 0x80" | "0x80 \<le> cp" "cp < 0x800" | "0x800 \<le> cp" "cp < 0x10000"
    | "0x10000 \<le> cp" "cp < 0x110000" using assms unfolding scalar_def by linarith
  thus thesis
  proof cases
    case 1
    with that(1) show thesis by blast
  next
    case 2
    hence "2 \<le> cp div 64" "cp div 64 < 32" by linarith+
    with that(2) [of "cp div 64" ?l] cp show thesis by simp
  next
    case 3
    have "cp = 4096 * (cp div 4096) + 64 * ?h + ?l" using cp cp2 by linarith
    moreover have "cp div 4096 < 16" using 3 by linarith
    moreover have "cp div 4096 = 0 \<longrightarrow> 32 \<le> ?h" using 3 cp2 by linarith
    moreover have "cp div 4096 = 13 \<longrightarrow> ?h < 32" using 3 cp cp2 assms unfolding scalar_def by linarith
    ultimately show thesis using that(3) [of "cp div 4096" ?h ?l] by simp
  next
    case 4
    have "cp = 262144 * ?j + 4096 * ?i + 64 * ?h + ?l" using cp cp2 cp3 by linarith
    moreover have "?j < 5" using 4 by linarith
    moreover have "?j = 0 \<longrightarrow> 16 \<le> ?i" "?j = 4 \<longrightarrow> ?i < 16" using 4 cp3 by linarith+
    ultimately show thesis using that(4) [of ?j ?i ?h ?l] by simp
  qed
qed

text \<open>The encoding of a character is recognised by its first byte, is legal, and is read back.\<close>

lemmas sequence_defs = sequence_length isLegalUTF8_def readUTF8Sequence_def offsetsFromUTF8_def
  push_bit_eq_mult

lemma utf8_of_is_legal:
  assumes "scalar cp"
  shows "inlineUTF8SequenceLength (hd (utf8_of cp @ rest)) = length (utf8_of cp)
    \<and> isLegalUTF8 (utf8_of cp @ rest) (length (utf8_of cp))
    \<and> readUTF8Sequence (utf8_of cp @ rest) (length (utf8_of cp)) = int cp"
  using assms
proof (cases rule: scalar_cases)
  case 1
  hence "utf8_of cp = [cp]" by (simp add: utf8_of_def)
  with 1 show ?thesis by (simp add: sequence_defs)
next
  case (2 h l)
  hence "utf8_of cp = [0xC0 + h, 0x80 + l]" by (simp add: utf8_of_forms)
  with 2 show ?thesis by (simp add: sequence_defs)
next
  case (3 i h l)
  hence "utf8_of cp = [0xE0 + i, 0x80 + h, 0x80 + l]" by (simp only: utf8_of_forms)
  with 3 show ?thesis by (cases "i = 0"; cases "i = 13"; simp add: sequence_defs)
next
  case (4 j i h l)
  hence "utf8_of cp = [0xF0 + j, 0x80 + i, 0x80 + h, 0x80 + l]" by (simp only: utf8_of_forms)
  with 4 show ?thesis by (cases "j = 0"; cases "j = 4"; simp add: sequence_defs)
qed

lemma byte_offset: "a \<le> (b :: nat) \<Longrightarrow> \<exists>x. b = a + x"
  by (rule le_Suc_ex)

text \<open>
  Conversely a legal sequence is the encoding of a character, with no overlong form and no
  surrogate; but only if its second byte is a continuation byte at all, which
  \<^verbatim>\<open>isLegalUTF8\<close> does not check after the first bytes \<open>0xED\<close> and \<open>0xF4\<close>.
\<close>

definition second_byte_ok :: "nat list \<Rightarrow> bool" where
  "second_byte_ok s \<longleftrightarrow> (2 \<le> length s \<and> (s ! 0 = 0xED \<or> s ! 0 = 0xF4) \<longrightarrow> 0x80 \<le> s ! 1)"

lemma legal_is_utf8_of:
  assumes bytes: "\<forall>b\<in>set s. b < 256" and s: "s \<noteq> []" "inlineUTF8SequenceLength (hd s) = n"
    "n \<le> length s" and legal: "isLegalUTF8 s n" and second: "second_byte_ok s"
  obtains cp where "scalar cp" "take n s = utf8_of cp" "n = length (utf8_of cp)" "readUTF8Sequence s n = int cp"
proof -
  have "\<exists>cp. scalar cp \<and> take n s = utf8_of cp"
  proof -
    obtain b0 s1 where s0: "s = b0 # s1" using s(1) by (cases s) auto
    have b0: "b0 < 256" using bytes s0 by simp
    have n: "n = (if b0 < 0x80 then 1 else if b0 < 0xC0 then 0 else if b0 < 0xE0 then 2
        else if b0 < 0xF0 then 3 else if b0 < 0xF8 then 4 else 0)"
      using s(2) s0 by (simp add: sequence_length [OF b0])
    consider "b0 < 0x80" "n = 1" | "n = 0" | "0xC0 \<le> b0" "b0 < 0xE0" "n = 2"
      | "0xE0 \<le> b0" "b0 < 0xF0" "n = 3" | "0xF0 \<le> b0" "b0 < 0xF8" "n = 4"
      using n by (auto split: if_splits)
    thus ?thesis
    proof cases
      case 1
      thus ?thesis using s0 by (intro exI [of _ b0]) (simp add: scalar_def utf8_of_def)
    next
      case 2
      thus ?thesis using legal by (simp add: isLegalUTF8_def)
    next
      case 3
      then obtain b1 s2 where s1: "s1 = b1 # s2" using s(3) s0 by (cases s1) auto
      obtain h where h: "b0 = 0xC0 + h" using byte_offset 3 by blast
      have b1: "0x80 \<le> b1" "b1 \<le> 0xBF" "0xC2 \<le> b0"
        using legal 3 s0 s1 by (auto simp: isLegalUTF8_def Let_def split: if_splits)
      obtain l where l: "b1 = 0x80 + l" using byte_offset b1 by blast
      show ?thesis
        using 3 b1 s0 s1 h l utf8_of_forms(1) [of h l]
        by (intro exI [of _ "64 * h + l"]) (simp add: scalar_def)
    next
      case 4
      then obtain b1 b2 s2 where s1: "s1 = b1 # b2 # s2"
        using s(3) s0 by (cases s1; cases "tl s1") auto
      obtain i where i: "b0 = 0xE0 + i" using byte_offset 4 by blast
      have b: "0x80 \<le> b1" "b1 \<le> 0xBF" "0x80 \<le> b2" "b2 \<le> 0xBF" "b0 = 0xE0 \<longrightarrow> 0xA0 \<le> b1" "b0 = 0xED \<longrightarrow> b1 \<le> 0x9F"
        using legal second 4 s0 s1 by (auto simp: isLegalUTF8_def second_byte_ok_def Let_def split: if_splits)
      obtain h l where hl: "b1 = 0x80 + h" "b2 = 0x80 + l"
        using byte_offset [OF b(1)] byte_offset [OF b(3)] by blast
      have "4096 * i + 64 * h + l < 0xD800 \<or> 0xE000 \<le> 4096 * i + 64 * h + l"
        using b i hl 4 by (cases "i < 13"; cases "i = 13") auto
      thus ?thesis
        using 4 b s0 s1 i hl utf8_of_forms(2) [of i h l]
        by (intro exI [of _ "4096 * i + 64 * h + l"]) (auto simp: scalar_def)
    next
      case 5
      then obtain b1 b2 b3 s2 where s1: "s1 = b1 # b2 # b3 # s2"
        using s(3) s0 by (cases s1; cases "tl s1"; cases "tl (tl s1)") auto
      obtain j where j: "b0 = 0xF0 + j" using byte_offset 5 by blast
      have b: "0x80 \<le> b1" "b1 \<le> 0xBF" "0x80 \<le> b2" "b2 \<le> 0xBF" "0x80 \<le> b3" "b3 \<le> 0xBF" "b0 \<le> 0xF4"
          "b0 = 0xF0 \<longrightarrow> 0x90 \<le> b1" "b0 = 0xF4 \<longrightarrow> b1 \<le> 0x8F"
        using legal second 5 s0 s1 by (auto simp: isLegalUTF8_def second_byte_ok_def Let_def split: if_splits)
      obtain i h l where ihl: "b1 = 0x80 + i" "b2 = 0x80 + h" "b3 = 0x80 + l"
        using byte_offset [OF b(1)] byte_offset [OF b(3)] byte_offset [OF b(5)] by blast
      have r: "j = 0 \<longrightarrow> 16 \<le> i" "j = 4 \<longrightarrow> i < 16" "j < 5" "i < 64" "h < 64" "l < 64"
        using b unfolding j ihl by auto
      have "0xE000 \<le> 262144 * j + 4096 * i + 64 * h + l" using r by (cases "j = 0") simp_all
      moreover have "262144 * j + 4096 * i + 64 * h + l < 0x110000" using r by (cases "j = 4") simp_all
      ultimately show ?thesis
        using 5 s0 s1 j ihl utf8_of_forms(3) [OF r]
        by (intro exI [of _ "262144 * j + 4096 * i + 64 * h + l"]) (simp add: scalar_def)
    qed
  qed
  then obtain cp where cp: "scalar cp" "take n s = utf8_of cp" by blast
  have len: "n = length (utf8_of cp)" using cp(2) s(3) by (metis length_take min.absorb2)
  have "s = utf8_of cp @ drop n s" using cp(2) by (metis append_take_drop_id)
  with utf8_of_is_legal [OF cp(1), of "drop n s"] len have "readUTF8Sequence s n = int cp" by metis
  with that cp len show thesis by blast
qed

lemma not_legal_0: "\<not> isLegalUTF8 s 0"
  by (simp add: isLegalUTF8_def)

subsubsection \<open>UTF-16\<close>

lemma next_utf16_of:
  assumes "scalar cp"
  shows "next_utf16 strict (utf16_of cp @ rest) = Inr (cp, rest)"
proof (cases "cp < 0x10000")
  case True
  with assms show ?thesis by (auto simp: utf16_of_def scalar_def)
next
  case False
  hence d: "(cp - 0x10000) div 1024 < 1024" using assms unfolding scalar_def by linarith
  have m: "(cp - 0x10000) mod 1024 < 1024" by simp
  have "1024 * ((cp - 0x10000) div 1024) + (cp - 0x10000) mod 1024 = cp - 0x10000" by simp
  with False d m show ?thesis
    by (simp add: utf16_of_def push_bit_eq_mult mult.commute)
qed

lemma surrogate_halves:
  assumes "0x10000 \<le> cp" "cp < 0x110000"
  shows "[U16_LEAD (int cp), U16_TRAIL (int cp)] = utf16_of cp"
proof -
  have "drop_bit 10 (int cp) + 0xD7C0 = int (cp div 1024 + 0xD7C0)"
    by (simp add: drop_bit_eq_div zdiv_int)
  hence "U16_LEAD (int cp) = cp div 1024 + 0xD7C0"
    unfolding U16_LEAD_def by (simp only: nat_int)
  moreover have "cp div 1024 = (cp - 0x10000) div 1024 + 64" using assms by linarith
  ultimately have lead: "U16_LEAD (int cp) = 0xD800 + (cp - 0x10000) div 1024" by simp
  have "(int cp AND 0x3FF) OR 0xDC00 = int ((cp AND 0x3FF) OR 0xDC00)"
    by (simp add: of_nat_and_eq of_nat_or_eq)
  also have "(cp AND 0x3FF) OR 0xDC00 = cp mod 1024 + 0xDC00"
    using and_mask_nat [of cp 10] or_eq_add [of "cp mod 1024" 10 "0xDC00"] by simp
  also have "cp mod 1024 = (cp - 0x10000) mod 1024"
    using assms mod_add_self2 [of "cp - 0x10000" 1024] mod_mult_self2 [of "cp - 0x10000" 1024 64] by simp
  finally have "U16_TRAIL (int cp) = (cp - 0x10000) mod 1024 + 0xDC00"
    unfolding U16_TRAIL_def by (simp only: nat_int)
  with lead assms show ?thesis by (simp add: utf16_of_def)
qed

lemma encoded_lengths: "0 < length (utf16_of cp)" "length (utf8_of cp) \<le> 3 * length (utf16_of cp)"
  by (simp_all add: utf16_of_def utf8_of_def)

definition utf16_text :: "nat list \<Rightarrow> nat list" where
  "utf16_text cps = concat (map utf16_of cps)"

definition utf8_text :: "nat list \<Rightarrow> nat list" where
  "utf8_text cps = concat (map utf8_of cps)"

lemma text_simps [simp]:
  "utf16_text [] = []" "utf16_text (c # cs) = utf16_of c @ utf16_text cs"
  "utf8_text [] = []" "utf8_text (c # cs) = utf8_of c @ utf8_text cs"
  by (simp_all add: utf16_text_def utf8_text_def)

lemma utf8_text_length: "length (utf8_text cps) \<le> 3 * length (utf16_text cps)"
  by (induction cps) (use encoded_lengths in \<open>auto simp: add_mono\<close>)

subsection \<open>The encoder on well-formed text\<close>

lemma encode_text:
  assumes "\<forall>c\<in>set cps. scalar c" "length target + length (utf8_text cps) \<le> capacity"
  shows "convertUTF16ToUTF8 strict capacity target (utf16_text cps)
    = (conversionOK, [], target @ utf8_text cps)"
  using assms
proof (induction cps arbitrary: target)
  case Nil
  then show ?case by (subst convertUTF16ToUTF8.simps) simp
next
  case (Cons c cs)
  hence sc: "scalar c" and lt: "c < 0x110000" by (auto simp: scalar_def)
  have room: "length target + length (utf8_of c) \<le> capacity" using Cons.prems(2) by simp
  have "convertUTF16ToUTF8 strict capacity target (utf16_text (c # cs))
      = convertUTF16ToUTF8 strict capacity (target @ utf8_of c) (utf16_text cs)"
    using room by (subst convertUTF16ToUTF8.simps)
      (simp add: next_utf16_of [OF sc] write_bytes_utf8 [OF lt])
  also have "\<dots> = (conversionOK, [], (target @ utf8_of c) @ utf8_text cs)"
    by (rule Cons.IH) (use Cons.prems in auto)
  finally show ?case by simp
qed

subsection \<open>The decoder\<close>

lemma or_less_128: "(a OR b :: nat) < 128 \<longleftrightarrow> a < 128 \<and> b < 128"
proof -
  have small: "n < 128 \<longleftrightarrow> drop_bit 7 n = 0" for n :: nat by (auto simp: drop_bit_eq_div)
  have zero: "x OR y = 0 \<longleftrightarrow> x = 0 \<and> y = 0" for x y :: nat
    by (auto simp: bit_eq_iff bit_or_iff)
  show ?thesis unfolding small by (simp add: drop_bit_or zero)
qed

text \<open>One step on the encoding of a character.\<close>

lemma decode_step:
  assumes sc: "scalar c" and room: "length target + length (utf16_of c) \<le> capacity"
  shows "\<exists>o'. convert8to16 strict capacity target ors (utf8_of c @ rest)
      = convert8to16 strict capacity (target @ utf16_of c) o' rest
    \<and> (o' < 128 \<longleftrightarrow> ors < 128 \<and> c < 128)"
proof -
  note l = utf8_of_is_legal [OF sc, of rest]
  have lt: "c < 0x110000" using sc by (auto simp: scalar_def)
  have ne: "utf8_of c \<noteq> []" using utf8_of_length by simp
  have dr: "drop (length (utf8_of c)) (utf8_of c @ rest) = rest" by simp
  have t: "\<not> capacity \<le> length target" using room encoded_lengths(1) [of c] by linarith
  show ?thesis
  proof (cases "c < 0x10000")
    case True
    hence c: "U_IS_BMP (int c)" "\<not> U_IS_SURROGATE (int c)" "utf16_of c = [c]"
      using sc by (auto simp: U_IS_BMP_def U_IS_SURROGATE_def scalar_def utf16_of_def)
    have "convert8to16 strict capacity target ors (utf8_of c @ rest)
        = convert8to16 strict capacity (target @ [c]) (ors OR c) rest"
      using ne l t c dr by (subst convert8to16.simps) (simp add: Let_def)
    with c show ?thesis by (intro exI [of _ "ors OR c"]) (simp add: or_less_128)
  next
    case False
    hence c: "\<not> U_IS_BMP (int c)" "U_IS_SUPPLEMENTARY (int c)"
        "[U16_LEAD (int c), U16_TRAIL (int c)] = utf16_of c"
      using lt surrogate_halves by (auto simp: U_IS_BMP_def U_IS_SUPPLEMENTARY_def)
    have t2: "\<not> capacity \<le> length target + 1" using room False by (simp add: utf16_of_def)
    have "convert8to16 strict capacity target ors (utf8_of c @ rest)
        = convert8to16 strict capacity (target @ utf16_of c) 0xffff rest"
      using ne l t t2 c dr by (subst convert8to16.simps) (simp add: Let_def)
    with False show ?thesis by (intro exI [of _ 65535]) simp
  qed
qed

lemma decode_text:
  assumes "\<forall>c\<in>set cps. scalar c" "length target + length (utf16_text cps) \<le> capacity"
  shows "\<exists>o'. convert8to16 strict capacity target ors (utf8_text cps)
      = (conversionOK, [], target @ utf16_text cps, o')
    \<and> (o' < 128 \<longleftrightarrow> ors < 128 \<and> (\<forall>c\<in>set cps. c < 128))"
  using assms
proof (induction cps arbitrary: target ors)
  case Nil
  then show ?case by (subst convert8to16.simps) simp
next
  case (Cons c cs)
  have "length target + length (utf16_of c) \<le> capacity" using Cons.prems(2) by simp
  then obtain o1 where o1: "convert8to16 strict capacity target ors (utf8_of c @ utf8_text cs)
      = convert8to16 strict capacity (target @ utf16_of c) o1 (utf8_text cs)"
      "o1 < 128 \<longleftrightarrow> ors < 128 \<and> c < 128"
    using decode_step [of c target capacity strict ors "utf8_text cs"] Cons.prems(1) by auto
  obtain o' where "convert8to16 strict capacity (target @ utf16_of c) o1 (utf8_text cs)
      = (conversionOK, [], (target @ utf16_of c) @ utf16_text cs, o')"
      "o' < 128 \<longleftrightarrow> o1 < 128 \<and> (\<forall>c\<in>set cs. c < 128)"
    using Cons.IH [of "target @ utf16_of c" o1] Cons.prems by auto
  with o1 show ?case by auto
qed

text \<open>What one step of the decoder reads, legal second byte or not, is never a surrogate nor beyond
  the last character.\<close>

lemma short_second_byte_value:
  assumes "\<forall>b\<in>set s. b < 256" "\<not> second_byte_ok s" "inlineUTF8SequenceLength (hd s) = n" "n \<le> length s"
    and "isLegalUTF8 s n"
  shows "0 \<le> readUTF8Sequence s n \<and> readUTF8Sequence s n < 0xD800
    \<or> U_IS_SUPPLEMENTARY (readUTF8Sequence s n)"
proof -
  have ex: "2 \<le> length s" "s ! 0 = 0xED \<or> s ! 0 = 0xF4" "s ! 1 < 0x80"
    using assms(2) by (auto simp: second_byte_ok_def)
  then obtain b0 b1 s2 where s: "s = b0 # b1 # s2" by (cases s; cases "tl s") auto
  from ex(2) show ?thesis
  proof
    assume e: "s ! 0 = 0xED"
    hence n: "n = 3" using assms(3) s by (simp add: sequence_length)
    then obtain b2 s3 where s2: "s2 = b2 # s3" using assms(4) s by (cases s2) auto
    have "0x80 \<le> b2 \<and> b2 \<le> 0xBF" using assms(5) n s s2 by (auto simp: isLegalUTF8_def Let_def split: if_splits)
    with e ex(3) s s2 n show ?thesis
      by (simp add: readUTF8Sequence_def offsetsFromUTF8_def push_bit_eq_mult numeral_3_eq_3)
  next
    assume e: "s ! 0 = 0xF4"
    hence n: "n = Suc (Suc (Suc (Suc 0)))" using assms(3) s by (simp add: sequence_length)
    then obtain b2 b3 s3 where s2: "s2 = b2 # b3 # s3" using assms(4) s by (cases s2; cases "tl s2") auto
    have "0x80 \<le> b2 \<and> b2 \<le> 0xBF \<and> 0x80 \<le> b3 \<and> b3 \<le> 0xBF"
      using assms(5) n s s2 by (auto simp: isLegalUTF8_def Let_def split: if_splits)
    with e ex(3) s s2 n show ?thesis
      by (simp add: readUTF8Sequence_def offsetsFromUTF8_def push_bit_eq_mult U_IS_SUPPLEMENTARY_def)
  qed
qed

lemma legal_value:
  assumes "\<forall>b\<in>set s. b < 256" "s \<noteq> []" "inlineUTF8SequenceLength (hd s) = n" "n \<le> length s" "isLegalUTF8 s n"
  shows "U_IS_BMP (readUTF8Sequence s n) \<and> \<not> U_IS_SURROGATE (readUTF8Sequence s n)
    \<or> U_IS_SUPPLEMENTARY (readUTF8Sequence s n)"
proof (cases "second_byte_ok s")
  case True
  obtain cp where "scalar cp" "readUTF8Sequence s n = int cp"
    using legal_is_utf8_of [OF assms True] by metis
  thus ?thesis
    by (auto simp: scalar_def U_IS_BMP_def U_IS_SURROGATE_def U_IS_SUPPLEMENTARY_def)
next
  case False
  with short_second_byte_value [OF assms(1) False assms(3-5)] show ?thesis
    by (auto simp: U_IS_BMP_def U_IS_SURROGATE_def)
qed

text \<open>C32: Converting well-formed UTF-16 text to UTF-8 and back returns it, in either strictness and
  with a target of three bytes per code unit: no conversion fails, nothing is left over, and the
  all-ASCII flag is set exactly if every character is ASCII.\<close>

theorem utf16_utf8_round_trip:
  assumes "\<forall>c\<in>set cps. scalar c"
    and "3 * length (utf16_text cps) \<le> capacity8" and "length (utf16_text cps) \<le> capacity16"
  shows "\<exists>bytes. convertUTF16ToUTF8 strict capacity8 [] (utf16_text cps) = (conversionOK, [], bytes)
    \<and> convertUTF8ToUTF16 strict' capacity16 bytes
        = (conversionOK, [], utf16_text cps, \<forall>c\<in>set cps. c < 0x80)"
proof -
  have "convertUTF16ToUTF8 strict capacity8 [] (utf16_text cps) = (conversionOK, [], [] @ utf8_text cps)"
    by (rule encode_text [OF assms(1)]) (use assms(2) utf8_text_length [of cps] in simp)
  moreover obtain o' where "convert8to16 strict' capacity16 [] 0 (utf8_text cps) = (conversionOK, [], utf16_text cps, o')"
      "o' < 128 \<longleftrightarrow> (\<forall>c\<in>set cps. c < 128)"
    using decode_text [OF assms(1), of "[]" capacity16 strict' 0] assms(3) by auto
  ultimately show ?thesis by (auto simp: convertUTF8ToUTF16_def)
qed

theorem utf16_utf8_round_trip_witness:
  "\<exists>bytes. convertUTF16ToUTF8 True 12 [] (utf16_text [0x41, 0x1F600]) = (conversionOK, [], bytes)
    \<and> convertUTF8ToUTF16 True 3 bytes = (conversionOK, [], [0x41, 0xD83D, 0xDE00], False)"
  using utf16_utf8_round_trip [of "[0x41, 0x1F600]" 12 3 True True]
  by (simp add: scalar_def utf16_of_def)

lemma convert8to16_stops:
  assumes "s \<noteq> []" "let n = inlineUTF8SequenceLength (hd s) in \<not> (n \<le> length s \<and> isLegalUTF8 s n) \<or> capacity \<le> length target
      \<or> (\<exists>c. scalar c \<and> s = utf8_of c @ drop n s \<and> n = length (utf8_of c) \<and> capacity < length target + length (utf16_of c))"
  shows "\<exists>r. convert8to16 strict capacity target ors s = (r, s, target, ors) \<and> r \<noteq> conversionOK"
proof -
  let ?n = "inlineUTF8SequenceLength (hd s)"
  show ?thesis
  proof (cases "?n \<le> length s \<and> isLegalUTF8 s ?n \<and> \<not> capacity \<le> length target")
    case False
    thus ?thesis using assms(1) by (subst convert8to16.simps) (auto simp: Let_def)
  next
    case go: True
    then obtain c where c: "scalar c" "s = utf8_of c @ drop ?n s" "?n = length (utf8_of c)" "capacity < length target + length (utf16_of c)"
      using assms(2) by (auto simp: Let_def)
    have big: "\<not> c < 0x10000" using c(4) go by (auto simp: utf16_of_def)
    have rd: "readUTF8Sequence s ?n = int c"
      using utf8_of_is_legal [OF c(1), of "drop ?n s"] c(2,3) by metis
    have "convert8to16 strict capacity target ors s = (targetExhausted, s, target, ors)"
      using go rd c(1,4) big assms(1)
      by (subst convert8to16.simps) (auto simp: Let_def U_IS_BMP_def U_IS_SUPPLEMENTARY_def scalar_def utf16_of_def)
    thus ?thesis by simp
  qed
qed

lemma convert8to16_consumes:
  assumes "convert8to16 strict capacity target ors s = (r, rest, out, o')" "length target \<le> capacity"
    "\<forall>b\<in>set s. b < 256" "\<forall>k. second_byte_ok (drop k s)"
  shows "\<exists>cps. (\<forall>c\<in>set cps. scalar c) \<and> s = utf8_text cps @ rest \<and> out = target @ utf16_text cps
    \<and> length out \<le> capacity \<and> (r = conversionOK \<longleftrightarrow> rest = [])"
  using assms
proof (induction "length s" arbitrary: s target ors rule: less_induct)
  case less
  let ?n = "inlineUTF8SequenceLength (hd s)"
  consider (end_of_text) "s = []" | (stop) r' where "s \<noteq> []" "convert8to16 strict capacity target ors s = (r', s, target, ors)" "r' \<noteq> conversionOK"
    | (go) c where "s \<noteq> []" "scalar c" "s = utf8_of c @ drop ?n s" "?n = length (utf8_of c)" "length target + length (utf16_of c) \<le> capacity"
  proof (cases "s = [] \<or> \<not> (?n \<le> length s \<and> isLegalUTF8 s ?n)")
    case True
    thus thesis using convert8to16_stops [of s capacity target strict ors, unfolded Let_def] that(1,2) by blast
  next
    case False
    then obtain c where c: "scalar c" "take ?n s = utf8_of c" "?n = length (utf8_of c)"
      using legal_is_utf8_of [OF less.prems(3) _ refl] less.prems(4) by (metis drop_0)
    have "s = utf8_of c @ drop ?n s" using c(2) by (metis append_take_drop_id)
    thus thesis using convert8to16_stops [of s capacity target strict ors, unfolded Let_def] that(2,3) c(1,3) False not_le by blast
  qed
  thus ?case
  proof cases
    case end_of_text
    thus ?thesis using less.prems(1,2) by (subst (asm) convert8to16.simps) (auto intro!: exI [of _ "[]"])
  next
    case stop
    thus ?thesis using less.prems(1,2) by (auto intro!: exI [of _ "[]"])
  next
    case go
    obtain o1 where o1: "convert8to16 strict capacity target ors s = convert8to16 strict capacity (target @ utf16_of c) o1 (drop ?n s)"
      using decode_step [OF go(2,5), of strict ors "drop ?n s"] go(3) by metis
    have "length (drop ?n s) < length s" using go(1,4) utf8_of_length(1) [of c] by simp
    moreover have "\<forall>b\<in>set (drop ?n s). b < 256" "\<forall>k. second_byte_ok (drop k (drop ?n s))"
      using less.prems(3,4) by (auto dest: in_set_dropD simp: drop_drop)
    ultimately obtain cps where "\<forall>c\<in>set cps. scalar c" "drop ?n s = utf8_text cps @ rest"
        "out = (target @ utf16_of c) @ utf16_text cps" "length out \<le> capacity" "r = conversionOK \<longleftrightarrow> rest = []"
      using less.hyps [of "drop ?n s" "target @ utf16_of c" o1] o1 less.prems(1) go(5) by auto
    with go(2,3) show ?thesis by (intro exI [of _ "c # cps"]) auto
  qed
qed

text \<open>C33: Whatever the decoder consumes is well formed: when no first byte \<open>0xED\<close> or \<open>0xF4\<close> is
  followed by a byte below \<open>0x80\<close>, the consumed prefix is the encoding of a sequence of characters (no
  overlong forms, no surrogates, nothing beyond the last character) and the output is their UTF-16,
  for every result, so that a conversion that stopped for lack of room can be resumed with what is
  left.\<close>

theorem decoder_consumes_well_formed_text:
  assumes "\<forall>b\<in>set s. b < 256" and "\<forall>k. second_byte_ok (drop k s)"
    and "convertUTF8ToUTF16 strict capacity s = (r, rest, out, ascii)"
  shows "\<exists>cps. (\<forall>c\<in>set cps. scalar c) \<and> s = utf8_text cps @ rest \<and> out = utf16_text cps
    \<and> length out \<le> capacity \<and> (r = conversionOK \<longleftrightarrow> rest = [])"
  using convert8to16_consumes [of strict capacity "[]" 0 s] assms
  by (auto simp: convertUTF8ToUTF16_def split: prod.splits)

definition sample_utf8 :: "nat list" where
  "sample_utf8 = [0xE2, 0x82, 0xAC, 0x41]"

lemma sample_utf8_ok: "\<forall>k. second_byte_ok (drop k sample_utf8)"
proof
  fix k :: nat
  have "k = 0 \<or> k = 1 \<or> k = 2 \<or> 3 \<le> k" by arith
  thus "second_byte_ok (drop k sample_utf8)"
    by (elim disjE) (auto simp: second_byte_ok_def sample_utf8_def numeral_2_eq_2)
qed

theorem decoder_consumes_well_formed_text_witness:
  "\<exists>r rest out ascii. convertUTF8ToUTF16 True 1 sample_utf8 = (r, rest, out, ascii)
    \<and> (\<exists>cps. sample_utf8 = utf8_text cps @ rest \<and> out = utf16_text cps \<and> length out \<le> 1)"
proof -
  obtain r rest out ascii where c: "convertUTF8ToUTF16 True 1 sample_utf8 = (r, rest, out, ascii)"
    by (cases "convertUTF8ToUTF16 True 1 sample_utf8") auto
  moreover have "\<forall>b\<in>set sample_utf8. b < 256" by (simp add: sample_utf8_def)
  ultimately show ?thesis
    using decoder_consumes_well_formed_text [OF _ sample_utf8_ok c] by blast
qed

text \<open>The lenient decoder is the strict one: the legality check that both make first already
  refuses every encoded surrogate and everything beyond the last character, so the branches that
  would substitute the replacement character are never taken.\<close>

theorem lenient_decoder_is_strict:
  assumes "\<forall>b\<in>set s. b < 256"
  shows "convertUTF8ToUTF16 False capacity s = convertUTF8ToUTF16 True capacity s"
proof -
  have "convert8to16 False capacity target ors s = convert8to16 True capacity target ors s"
    if "\<forall>b\<in>set s. b < 256" for target ors s
    using that
  proof (induction "length s" arbitrary: s target ors rule: less_induct)
    case less
    let ?n = "inlineUTF8SequenceLength (hd s)"
    have ih: "convert8to16 False capacity t' o' (drop ?n s) = convert8to16 True capacity t' o' (drop ?n s)"
      if "s \<noteq> []" "?n \<noteq> 0" for t' o'
      by (rule less.hyps) (use that less.prems in \<open>auto dest: in_set_dropD\<close>)
    show ?case
    proof (cases "s \<noteq> [] \<and> ?n \<le> length s \<and> isLegalUTF8 s ?n")
      case False
      thus ?thesis
        unfolding convert8to16.simps [of False capacity target ors s]
          convert8to16.simps [of True capacity target ors s]
        by (auto simp: Let_def)
    next
      case True
      hence "?n \<noteq> 0" using not_legal_0 by metis
      hence ih': "convert8to16 False capacity t' o' (drop ?n s) = convert8to16 True capacity t' o' (drop ?n s)"
        for t' o' using ih True by blast
      have "U_IS_BMP (readUTF8Sequence s ?n) \<and> \<not> U_IS_SURROGATE (readUTF8Sequence s ?n)
          \<or> U_IS_SUPPLEMENTARY (readUTF8Sequence s ?n)"
        by (rule legal_value [OF less.prems]) (use True in auto)
      with True show ?thesis
        unfolding convert8to16.simps [of False capacity target ors s]
          convert8to16.simps [of True capacity target ors s]
        by (auto simp: Let_def ih' U_IS_BMP_def U_IS_SUPPLEMENTARY_def)
    qed
  qed
  from this [OF assms] show ?thesis by (simp add: convertUTF8ToUTF16_def)
qed

theorem lenient_decoder_is_strict_witness:
  "convertUTF8ToUTF16 False 4 [0xED, 0xA0, 0x80] = convertUTF8ToUTF16 True 4 [0xED, 0xA0, 0x80]"
  by (rule lenient_decoder_is_strict) simp

text \<open>After the first byte \<open>0xED\<close> (or \<open>0xF4\<close>) the second byte is only checked from above, so an
  ASCII byte is accepted as a continuation byte: the strict decoder takes \<open>ED 3C 80\<close> for the single
  character \<open>U+BF00\<close>, swallowing a \<open><\<close>, although the sequence is not the encoding of any
  character.\<close>

theorem decoder_accepts_ascii_continuation:
  "convertUTF8ToUTF16 True 4 [0xED, 0x3C, 0x80] = (conversionOK, [], [0xBF00], False)
   \<and> decodeUTF8Sequence [0xED, 0x3C, 0x80] = - 1
   \<and> utf8_of 0xBF00 = [0xEB, 0xBC, 0x80]"
proof -
  have "convert8to16 True 4 [] 0 [0xED, 0x3C, 0x80] = (conversionOK, [], [0xBF00], 0xBF00)"
    by (subst convert8to16.simps, subst convert8to16.simps)
      (simp add: Let_def sequence_defs numeral_3_eq_3 U_IS_BMP_def U_IS_SURROGATE_def)
  moreover have "decodeUTF8Sequence [0xED, 0x3C, 0x80] = - 1"
    by (simp add: decodeUTF8Sequence_def byte_at_def sequence_length high_masks)
  ultimately show ?thesis by (simp add: convertUTF8ToUTF16_def utf8_of_def)
qed

subsection \<open>Comparing without converting\<close>

lemma equal_step:
  assumes sc: "scalar c"
  shows "equalUTF16WithUTF8 a (utf8_of c @ rest) =
    (if length (utf16_of c) \<le> length a
     then if take (length (utf16_of c)) a = utf16_of c
          then equalUTF16WithUTF8 (drop (length (utf16_of c)) a) rest else Some False
     else if a = [] \<or> hd a = hd (utf16_of c) then None else Some False)"
proof -
  note l = utf8_of_is_legal [OF sc, of rest]
  have ne: "utf8_of c \<noteq> []" using utf8_of_length by simp
  show ?thesis
  proof (cases "c < 0x80")
    case True
    hence "utf8_of c = [c]" "utf16_of c = [c]" by (simp_all add: utf8_of_def utf16_of_def)
    with True show ?thesis by (subst equalUTF16WithUTF8.simps) (auto split: list.split)
  next
    case big: False
    have hd: "\<not> hd (utf8_of c @ rest) < 0x80"
      using big sc by (auto simp: utf8_of_def)
    hence len: "inlineUTF8SequenceLengthNonASCII (hd (utf8_of c @ rest)) = length (utf8_of c)"
      using l by (simp add: inlineUTF8SequenceLength_def)
    show ?thesis
    proof (cases "c < 0x10000")
      case True
      hence c: "U_IS_BMP (int c)" "\<not> U_IS_SURROGATE (int c)" "utf16_of c = [c]"
        using sc by (auto simp: U_IS_BMP_def U_IS_SURROGATE_def scalar_def utf16_of_def)
      with hd len l ne show ?thesis
        by (subst equalUTF16WithUTF8.simps) (auto simp: Let_def split: list.split)
    next
      case False
      hence c: "\<not> U_IS_BMP (int c)" "U_IS_SUPPLEMENTARY (int c)"
          "utf16_of c = [U16_LEAD (int c), U16_TRAIL (int c)]"
        using sc surrogate_halves [of c] by (auto simp: U_IS_BMP_def U_IS_SUPPLEMENTARY_def scalar_def)
      with hd len l ne show ?thesis
        by (subst equalUTF16WithUTF8.simps) (auto simp: Let_def split: list.split)
    qed
  qed
qed

text \<open>On well-formed UTF-8 that is not longer than the UTF-16 text, the comparison that works
  without a buffer answers whether converting would give that text.\<close>

theorem equalUTF16WithUTF8_is_equality:
  assumes "\<forall>c\<in>set cps. scalar c" and "length (utf16_text cps) \<le> length a"
  shows "equalUTF16WithUTF8 a (utf8_text cps) = Some (a = utf16_text cps)"
  using assms
proof (induction cps arbitrary: a)
  case Nil
  then show ?case by (subst equalUTF16WithUTF8.simps) simp
next
  case (Cons c cs)
  let ?k = "length (utf16_of c)"
  have split: "a = utf16_text (c # cs) \<longleftrightarrow> take ?k a = utf16_of c \<and> drop ?k a = utf16_text cs"
    using append_eq_conv_conj [of "utf16_of c" "utf16_text cs" a] by auto
  have "length (utf16_text cs) \<le> length (drop ?k a)" using Cons.prems(2) by simp
  with Cons.IH [of "drop ?k a"] Cons.prems split show ?case by (simp add: equal_step)
qed

theorem equalUTF16WithUTF8_is_equality_witness:
  "equalUTF16WithUTF8 [0x20AC, 0x41] (utf8_text [0x20AC, 0x41]) = Some True"
  using equalUTF16WithUTF8_is_equality [of "[0x20AC, 0x41]" "[0x20AC, 0x41]"]
  by (simp add: scalar_def utf16_of_def)

end
