(* ===== verification/IPC_Arguments.thy ===== *)
theory IPC_Arguments
  imports Prelude
begin

unbundle bit_operations_syntax

text \<open>
  The argument encoding of the messages between WebKit2's processes
  (\<^verbatim>\<open>Platform/IPC/ArgumentEncoder\<close>, \<^verbatim>\<open>ArgumentDecoder\<close>,
  \<^verbatim>\<open>ArgumentCoders\<close>).  The encoder's buffer is a list of bytes whose length is its
  capacity; bytes that were allocated but not written come from a parameter.  The decoder holds the
  received bytes at a 64-bit address, and every read is checked against them: a read outside is the
  result \<open>Fault\<close>, a rejected message the result \<open>Fail\<close>.
\<close>

type_synonym address = "64 word"

subsection \<open>Machine integers in memory\<close>

text \<open>The bytes of an integer of \<open>k\<close> bytes in memory order (little endian) and back.\<close>

primrec le_bytes :: "nat \<Rightarrow> nat \<Rightarrow> byte list" where
  "le_bytes 0 n = []"
| "le_bytes (Suc k) n = of_nat (n mod 256) # le_bytes k (n div 256)"

primrec le_value :: "byte list \<Rightarrow> nat" where
  "le_value [] = 0"
| "le_value (b # bs) = unat b + 256 * le_value bs"

lemma length_le_bytes [simp]: "length (le_bytes k n) = k"
  by (induction k arbitrary: n) simp_all

lemma unat_byte_mod: "unat (of_nat (n mod 256) :: byte) = n mod 256"
  by (simp add: unat_of_nat)

lemma le_value_bytes: "n < 256 ^ k \<Longrightarrow> le_value (le_bytes k n) = n"
proof (induction k arbitrary: n)
  case (Suc k)
  then have "n div 256 < 256 ^ k" by (simp add: div_less_iff_less_mult mult.commute)
  then show ?case using Suc.IH by (simp add: unat_byte_mod)
qed simp

lemma le_value_less: "le_value bs < 256 ^ length bs"
proof (induction bs)
  case (Cons b bs)
  have "unat b < 256" using unsigned_less [of b] by simp
  then show ?case using Cons.IH by simp
qed simp

subsection \<open>The encoder\<close>

text \<open>\<^verbatim>\<open>Attachment\<close>: a file descriptor that travels beside the bytes; -1 is none.\<close>

datatype attachment_type = Uninitialized | SocketType | MappedMemoryType

record attachment =
  a_type :: attachment_type
  a_fileDescriptor :: int
  a_size :: nat

record encoder =
  e_buffer :: "byte list"
  e_size :: nat
  e_attachments :: "attachment list"

definition e_capacity :: "encoder \<Rightarrow> nat" where
  "e_capacity e = length (e_buffer e)"

text \<open>\<open>junk\<close> gives the contents of memory that was not written.\<close>

definition ArgumentEncoder :: "(nat \<Rightarrow> byte) \<Rightarrow> encoder" where
  "ArgumentEncoder junk = \<lparr>e_buffer = map junk [0..<512], e_size = 0, e_attachments = []\<rparr>"

definition roundUpToAlignment :: "nat \<Rightarrow> nat \<Rightarrow> nat" where
  "roundUpToAlignment value alignment = ((value + alignment - 1) div alignment) * alignment"

text \<open>\<^verbatim>\<open>while (newCapacity < alignedSize + size) newCapacity *= 2;\<close>\<close>

function grow_capacity :: "nat \<Rightarrow> nat \<Rightarrow> nat" where
  "grow_capacity need newCapacity =
     (if newCapacity < need \<and> 0 < newCapacity then grow_capacity need (newCapacity * 2) else newCapacity)"
  by pat_completeness auto
termination
  by (relation "measure (\<lambda>(need, c). need - c)") auto

declare grow_capacity.simps [simp del]

text \<open>
  \<^verbatim>\<open>ArgumentEncoder::grow\<close>: the result is the offset of the reserved bytes.  \<open>capacity\<close> is at
  least 512, so the doubling loop ends.
\<close>

definition grow :: "(nat \<Rightarrow> byte) \<Rightarrow> nat \<Rightarrow> nat \<Rightarrow> encoder \<Rightarrow> nat \<times> encoder" where
  "grow junk alignment n e =
     (let alignedSize = roundUpToAlignment (e_size e) alignment in
      (alignedSize,
       (if e_capacity e < alignedSize + n
        then let newCapacity = grow_capacity (alignedSize + n) (roundUpToAlignment (e_capacity e * 2) 4096)
             in e\<lparr>e_buffer := take (e_size e) (e_buffer e) @ map junk [e_size e..<newCapacity],
                  e_size := alignedSize + n\<rparr>
        else e\<lparr>e_size := alignedSize + n\<rparr>)))"

text \<open>\<^verbatim>\<open>memcpy\<close> into the buffer.\<close>

definition store :: "nat \<Rightarrow> byte list \<Rightarrow> encoder \<Rightarrow> encoder" where
  "store off bs e = e\<lparr>e_buffer := take off (e_buffer e) @ bs @ drop (off + length bs) (e_buffer e)\<rparr>"

definition encodeFixedLengthData :: "(nat \<Rightarrow> byte) \<Rightarrow> byte list \<Rightarrow> nat \<Rightarrow> encoder \<Rightarrow> encoder" where
  "encodeFixedLengthData junk bs alignment e =
     (let (off, e) = grow junk alignment (length bs) e in store off bs e)"

text \<open>\<^verbatim>\<open>encode(uint8_t)\<close> to \<^verbatim>\<open>encode(uint64_t)\<close>: \<open>k\<close> bytes, aligned to \<open>k\<close>.\<close>

definition encode_int :: "(nat \<Rightarrow> byte) \<Rightarrow> nat \<Rightarrow> nat \<Rightarrow> encoder \<Rightarrow> encoder" where
  "encode_int junk k n e = encodeFixedLengthData junk (le_bytes k n) k e"

definition encode_bool :: "(nat \<Rightarrow> byte) \<Rightarrow> bool \<Rightarrow> encoder \<Rightarrow> encoder" where
  "encode_bool junk b e = encode_int junk 1 (if b then 1 else 0) e"

definition encode_uint8 :: "(nat \<Rightarrow> byte) \<Rightarrow> 8 word \<Rightarrow> encoder \<Rightarrow> encoder" where
  "encode_uint8 junk n e = encode_int junk 1 (unat n) e"

definition encode_uint16 :: "(nat \<Rightarrow> byte) \<Rightarrow> 16 word \<Rightarrow> encoder \<Rightarrow> encoder" where
  "encode_uint16 junk n e = encode_int junk 2 (unat n) e"

definition encode_uint32 :: "(nat \<Rightarrow> byte) \<Rightarrow> 32 word \<Rightarrow> encoder \<Rightarrow> encoder" where
  "encode_uint32 junk n e = encode_int junk 4 (unat n) e"

definition encode_uint64 :: "(nat \<Rightarrow> byte) \<Rightarrow> 64 word \<Rightarrow> encoder \<Rightarrow> encoder" where
  "encode_uint64 junk n e = encode_int junk 8 (unat n) e"

definition encodeVariableLengthByteArray :: "(nat \<Rightarrow> byte) \<Rightarrow> byte list \<Rightarrow> encoder \<Rightarrow> encoder" where
  "encodeVariableLengthByteArray junk bs e =
     encodeFixedLengthData junk bs 1 (encode_uint64 junk (of_nat (length bs)) e)"

definition addAttachment :: "attachment \<Rightarrow> encoder \<Rightarrow> encoder" where
  "addAttachment a e = e\<lparr>e_attachments := e_attachments e @ [a]\<rparr>"

definition releaseAttachments :: "encoder \<Rightarrow> attachment list \<times> encoder" where
  "releaseAttachments e = (e_attachments e, e\<lparr>e_attachments := []\<rparr>)"

subsection \<open>The decoder\<close>

record decoder =
  d_base :: address
  d_mem :: "byte list"
  d_pos :: address
  d_attachments :: "attachment list"

text \<open>
  The result of a decoding function: it returned \<^verbatim>\<open>true\<close> with a value, it returned
  \<^verbatim>\<open>false\<close>, or it did something undefined: read outside the buffer, used a
  \<^verbatim>\<open>bool\<close> whose byte is neither 0 nor 1, or put one of the two key values that mark unused
  buckets into a hash table.
\<close>

datatype fault = OutOfBoundsRead | TrapValue | ReservedKey

datatype 'a decoded = Fault fault | Fail | Value 'a

type_synonym 'a dec = "decoder \<Rightarrow> 'a decoded \<times> decoder"

text \<open>\<^verbatim>\<open>if (!decoder.decode(x)) return false;\<close> followed by the rest of the function.\<close>

definition dbind :: "'a dec \<Rightarrow> ('a \<Rightarrow> 'b dec) \<Rightarrow> 'b dec" where
  "dbind f g d = (case f d of
     (Fault r, d) \<Rightarrow> (Fault r, d) | (Fail, d) \<Rightarrow> (Fail, d) | (Value x, d) \<Rightarrow> g x d)"

definition dreturn :: "'a \<Rightarrow> 'a dec" where
  "dreturn x d = (Value x, d)"

definition d_end :: "decoder \<Rightarrow> address" where
  "d_end d = d_base d + of_nat (length (d_mem d))"

definition ArgumentDecoder :: "address \<Rightarrow> byte list \<Rightarrow> attachment list \<Rightarrow> decoder" where
  "ArgumentDecoder base buffer attachments =
     \<lparr>d_base = base, d_mem = buffer, d_pos = base, d_attachments = attachments\<rparr>"

definition isInvalid :: "decoder \<Rightarrow> bool" where
  "isInvalid d \<longleftrightarrow> d_pos d > d_end d"

definition markInvalid :: "decoder \<Rightarrow> decoder" where
  "markInvalid d = d\<lparr>d_pos := d_end d + 1\<rparr>"

text \<open>\<^verbatim>\<open>(ptr + mask) & ~mask\<close>\<close>

definition align_pointer :: "address \<Rightarrow> nat \<Rightarrow> address" where
  "align_pointer ptr alignment =
     (let alignmentMask = of_nat (alignment - 1) in (ptr + alignmentMask) AND NOT alignmentMask)"

definition alignedBufferIsLargeEnoughToContain :: "address \<Rightarrow> address \<Rightarrow> address \<Rightarrow> bool" where
  "alignedBufferIsLargeEnoughToContain alignedPosition bufferEnd n \<longleftrightarrow>
     alignedPosition \<le> bufferEnd \<and> n \<le> bufferEnd - alignedPosition"

definition alignBufferPosition :: "nat \<Rightarrow> address \<Rightarrow> decoder \<Rightarrow> bool \<times> decoder" where
  "alignBufferPosition alignment n d =
     (let alignedPosition = align_pointer (d_pos d) alignment in
      if \<not> alignedBufferIsLargeEnoughToContain alignedPosition (d_end d) n then (False, markInvalid d)
      else (True, d\<lparr>d_pos := alignedPosition\<rparr>))"

definition bufferIsLargeEnoughToContain :: "nat \<Rightarrow> address \<Rightarrow> decoder \<Rightarrow> bool" where
  "bufferIsLargeEnoughToContain alignment n d =
     alignedBufferIsLargeEnoughToContain (align_pointer (d_pos d) alignment) (d_end d) n"

text \<open>The template over an element type of \<open>k\<close> bytes, with its overflow test.\<close>

definition bufferIsLargeEnoughToContainElements :: "nat \<Rightarrow> address \<Rightarrow> decoder \<Rightarrow> bool" where
  "bufferIsLargeEnoughToContainElements k numElements d =
     (if unat numElements > (2 ^ 64 - 1) div k then False
      else bufferIsLargeEnoughToContain k (numElements * of_nat k) d)"

text \<open>\<^verbatim>\<open>memcpy\<close> out of the buffer: \<open>None\<close> when the bytes are not inside it.\<close>

definition load :: "decoder \<Rightarrow> nat \<Rightarrow> byte list option" where
  "load d n =
     (let off = unat (d_pos d - d_base d) in
      if off + n \<le> length (d_mem d) then Some (take n (drop off (d_mem d))) else None)"

definition decodeFixedLengthData :: "nat \<Rightarrow> nat \<Rightarrow> byte list dec" where
  "decodeFixedLengthData n alignment d =
     (case alignBufferPosition alignment (of_nat n) d of
        (False, d) \<Rightarrow> (Fail, d)
      | (True, d) \<Rightarrow> (case load d n of
            None \<Rightarrow> (Fault OutOfBoundsRead, d)
          | Some bs \<Rightarrow> (Value bs, d\<lparr>d_pos := d_pos d + of_nat n\<rparr>)))"

text \<open>\<^verbatim>\<open>decode(uint8_t&)\<close> to \<^verbatim>\<open>decode(uint64_t&)\<close>.\<close>

definition decode_int :: "nat \<Rightarrow> nat dec" where
  "decode_int k = dbind (decodeFixedLengthData k k) (\<lambda>bs. dreturn (le_value bs))"

definition decode_bool :: "bool dec" where
  "decode_bool = dbind (decode_int 1) (\<lambda>n d.
     if n = 0 then (Value False, d) else if n = 1 then (Value True, d) else (Fault TrapValue, d))"

definition decode_uint8 :: "8 word dec" where
  "decode_uint8 = dbind (decode_int 1) (\<lambda>n. dreturn (of_nat n))"

definition decode_uint16 :: "16 word dec" where
  "decode_uint16 = dbind (decode_int 2) (\<lambda>n. dreturn (of_nat n))"

definition decode_uint32 :: "32 word dec" where
  "decode_uint32 = dbind (decode_int 4) (\<lambda>n. dreturn (of_nat n))"

definition decode_uint64 :: "64 word dec" where
  "decode_uint64 = dbind (decode_int 8) (\<lambda>n. dreturn (of_nat n))"

definition decodeVariableLengthByteArray :: "byte list dec" where
  "decodeVariableLengthByteArray = dbind decode_uint64 (\<lambda>n d.
     case alignBufferPosition 1 n d of
       (False, d) \<Rightarrow> (Fail, d)
     | (True, d) \<Rightarrow> (case load d (unat n) of
           None \<Rightarrow> (Fault OutOfBoundsRead, d)
         | Some bs \<Rightarrow> (Value bs, d\<lparr>d_pos := d_pos d + n\<rparr>)))"

definition removeAttachment :: "attachment dec" where
  "removeAttachment d =
     (if d_attachments d = [] then (Fail, d)
      else (Value (last (d_attachments d)), d\<lparr>d_attachments := butlast (d_attachments d)\<rparr>))"

subsection \<open>Coders of composite types\<close>

text \<open>A \<^verbatim>\<open>CString\<close>: null, or its bytes.\<close>

type_synonym c_string_value = "byte list option"

definition encode_CString :: "(nat \<Rightarrow> byte) \<Rightarrow> c_string_value \<Rightarrow> encoder \<Rightarrow> encoder" where
  "encode_CString junk s e = (case s of
     None \<Rightarrow> encode_uint32 junk (- 1) e
   | Some bs \<Rightarrow> encodeFixedLengthData junk bs 1 (encode_uint32 junk (of_nat (length bs)) e))"

definition decode_CString :: "c_string_value dec" where
  "decode_CString = dbind decode_uint32 (\<lambda>len.
     if len = - 1 then dreturn None
     else (\<lambda>d. if \<not> bufferIsLargeEnoughToContainElements 1 (ucast len) d then (Fail, markInvalid d)
       else dbind (decodeFixedLengthData (unat len) 1) (\<lambda>bs. dreturn (Some bs)) d))"

text \<open>A \<^verbatim>\<open>String\<close>: null, Latin-1 characters or UTF-16 code units.\<close>

datatype wtf_text = Null_string | Chars8 "8 word list" | Chars16 "16 word list"

definition encode_String :: "(nat \<Rightarrow> byte) \<Rightarrow> wtf_text \<Rightarrow> encoder \<Rightarrow> encoder" where
  "encode_String junk s e = (case s of
     Null_string \<Rightarrow> encode_uint32 junk (- 1) e
   | Chars8 cs \<Rightarrow> encodeFixedLengthData junk cs 1
       (encode_bool junk True (encode_uint32 junk (of_nat (length cs)) e))
   | Chars16 cs \<Rightarrow> encodeFixedLengthData junk (concat (map (\<lambda>c. le_bytes 2 (unat c)) cs)) 2
       (encode_bool junk False (encode_uint32 junk (of_nat (length cs)) e)))"

text \<open>The code units in a row of bytes.\<close>

fun units16 :: "byte list \<Rightarrow> 16 word list" where
  "units16 (a # b # bs) = of_nat (le_value [a, b]) # units16 bs"
| "units16 _ = []"

text \<open>\<^verbatim>\<open>decodeStringText\<close> for a character type of \<open>k\<close> bytes.\<close>

definition decodeStringText :: "nat \<Rightarrow> 32 word \<Rightarrow> byte list dec" where
  "decodeStringText k len d =
     (if \<not> bufferIsLargeEnoughToContainElements k (ucast len) d then (Fail, markInvalid d)
      else decodeFixedLengthData (unat len * k) k d)"

definition decode_String :: "wtf_text dec" where
  "decode_String = dbind decode_uint32 (\<lambda>len.
     if len = - 1 then dreturn Null_string
     else dbind decode_bool (\<lambda>is8Bit.
       if is8Bit then dbind (decodeStringText 1 len) (\<lambda>bs. dreturn (Chars8 bs))
       else dbind (decodeStringText 2 len) (\<lambda>bs. dreturn (Chars16 (units16 bs)))))"

text \<open>Pairs, and vectors of elements with their own coder.\<close>

definition encode_pair ::
  "('a \<Rightarrow> encoder \<Rightarrow> encoder) \<Rightarrow> ('b \<Rightarrow> encoder \<Rightarrow> encoder) \<Rightarrow> 'a \<times> 'b \<Rightarrow> encoder \<Rightarrow> encoder" where
  "encode_pair f g p e = g (snd p) (f (fst p) e)"

definition decode_pair :: "'a dec \<Rightarrow> 'b dec \<Rightarrow> ('a \<times> 'b) dec" where
  "decode_pair f g = dbind f (\<lambda>x. dbind g (\<lambda>y. dreturn (x, y)))"

definition encode_vector :: "(nat \<Rightarrow> byte) \<Rightarrow> ('a \<Rightarrow> encoder \<Rightarrow> encoder) \<Rightarrow> 'a list \<Rightarrow> encoder \<Rightarrow> encoder" where
  "encode_vector junk f xs e = fold f xs (encode_uint64 junk (of_nat (length xs)) e)"

text \<open>\<^verbatim>\<open>for (size_t i = 0; i < size; ++i)\<close>, with \<open>n\<close> rounds to go.\<close>

primrec decode_elements :: "'a dec \<Rightarrow> nat \<Rightarrow> 'a list dec" where
  "decode_elements f 0 = dreturn []"
| "decode_elements f (Suc n) = dbind f (\<lambda>x. dbind (decode_elements f n) (\<lambda>xs. dreturn (x # xs)))"

definition decode_vector :: "'a dec \<Rightarrow> 'a list dec" where
  "decode_vector f = dbind decode_uint64 (\<lambda>n. decode_elements f (unat n))"

text \<open>Vectors of integers of \<open>k\<close> bytes are copied in one piece.\<close>

definition encode_vector_int :: "(nat \<Rightarrow> byte) \<Rightarrow> nat \<Rightarrow> nat list \<Rightarrow> encoder \<Rightarrow> encoder" where
  "encode_vector_int junk k ns e =
     encodeFixedLengthData junk (concat (map (le_bytes k) ns)) k (encode_uint64 junk (of_nat (length ns)) e)"

function split_ints :: "nat \<Rightarrow> byte list \<Rightarrow> nat list" where
  "split_ints k bs = (if k = 0 \<or> length bs < k then [] else le_value (take k bs) # split_ints k (drop k bs))"
  by pat_completeness auto
termination
  by (relation "measure (\<lambda>(k, bs). length bs)") auto

declare split_ints.simps [simp del]

definition decode_vector_int :: "nat \<Rightarrow> nat list dec" where
  "decode_vector_int k = dbind decode_uint64 (\<lambda>n d.
     if \<not> bufferIsLargeEnoughToContainElements k n d then (Fail, markInvalid d)
     else (case decodeFixedLengthData (unat n * k) k d of
         (Fault r, d) \<Rightarrow> (Fault r, d)
       | (Fail, d) \<Rightarrow> (Value (replicate (unat n) 0), d)
       | (Value bs, d) \<Rightarrow> (Value (split_ints k bs), d)))"

text \<open>
  Hash maps, as the entries in the order of the table; a repeated key invalidates the message.
  \<open>reserved\<close> are the keys that mark empty and deleted buckets: \<^verbatim>\<open>HashMap::add\<close> only
  asserts that the key is not one of them.
\<close>

definition encode_hash_map ::
  "(nat \<Rightarrow> byte) \<Rightarrow> ('a \<Rightarrow> encoder \<Rightarrow> encoder) \<Rightarrow> ('b \<Rightarrow> encoder \<Rightarrow> encoder) \<Rightarrow> ('a \<times> 'b) list \<Rightarrow> encoder \<Rightarrow> encoder" where
  "encode_hash_map junk f g kvs e = fold (encode_pair f g) kvs (encode_uint64 junk (of_nat (length kvs)) e)"

primrec decode_entries :: "('a \<Rightarrow> bool) \<Rightarrow> 'a dec \<Rightarrow> 'b dec \<Rightarrow> nat \<Rightarrow> ('a \<times> 'b) list \<Rightarrow> ('a \<times> 'b) list dec" where
  "decode_entries reserved f g 0 acc = dreturn acc"
| "decode_entries reserved f g (Suc n) acc =
     dbind f (\<lambda>k. dbind g (\<lambda>v d.
       if reserved k then (Fault ReservedKey, d)
       else if k \<in> fst ` set acc then (Fail, markInvalid d)
       else decode_entries reserved f g n (acc @ [(k, v)]) d))"

definition decode_hash_map :: "('a \<Rightarrow> bool) \<Rightarrow> 'a dec \<Rightarrow> 'b dec \<Rightarrow> ('a \<times> 'b) list dec" where
  "decode_hash_map reserved f g = dbind decode_uint64 (\<lambda>n. decode_entries reserved f g (unat n) [])"

subsection \<open>Well-formed encoders\<close>

definition enc_wf :: "encoder \<Rightarrow> bool" where
  "enc_wf e \<longleftrightarrow> e_size e \<le> e_capacity e \<and> 512 \<le> e_capacity e"

definition e_content :: "encoder \<Rightarrow> byte list" where
  "e_content e = take (e_size e) (e_buffer e)"

lemma enc_wf_init [simp]: "enc_wf (ArgumentEncoder junk)" "e_content (ArgumentEncoder junk) = []"
  "e_size (ArgumentEncoder junk) = 0"
  by (simp_all add: enc_wf_def e_capacity_def ArgumentEncoder_def e_content_def)

lemma length_e_content [simp]: "enc_wf e \<Longrightarrow> length (e_content e) = e_size e"
  by (simp add: e_content_def enc_wf_def e_capacity_def)

lemma roundUp_ge: "0 < a \<Longrightarrow> n \<le> roundUpToAlignment n a"
proof -
  assume a: "0 < a"
  have "(n + a - 1) mod a < a" using a by simp
  moreover have "(n + a - 1) div a * a + (n + a - 1) mod a = n + a - 1" by simp
  ultimately show ?thesis using a unfolding roundUpToAlignment_def by linarith
qed

lemma roundUp_less: "0 < a \<Longrightarrow> roundUpToAlignment n a < n + a"
proof -
  assume a: "0 < a"
  have "(n + a - 1) div a * a \<le> n + a - 1" by simp
  then show ?thesis using a unfolding roundUpToAlignment_def by linarith
qed

lemma roundUp_1 [simp]: "roundUpToAlignment n (Suc 0) = n"
  by (simp add: roundUpToAlignment_def)

lemma roundUp_pos: "\<lbrakk>0 < n; 0 < a\<rbrakk> \<Longrightarrow> 0 < roundUpToAlignment n a"
  using roundUp_ge [of a n] by simp

lemma grow_capacity_ge: "0 < c \<Longrightarrow> need \<le> grow_capacity need c"
proof (induction need c rule: grow_capacity.induct)
  case (1 need c)
  then show ?case by (subst grow_capacity.simps) auto
qed

lemma grow_capacity_mono: "c \<le> grow_capacity need c"
proof (induction need c rule: grow_capacity.induct)
  case (1 need c)
  then show ?case by (subst grow_capacity.simps) auto
qed

lemma encodeFixedLengthData_ok:
  assumes wf: "enc_wf e" and a: "0 < a"
  obtains pad where "enc_wf (encodeFixedLengthData junk bs a e)"
    and "e_size (encodeFixedLengthData junk bs a e) = roundUpToAlignment (e_size e) a + length bs"
    and "e_content (encodeFixedLengthData junk bs a e) = e_content e @ pad @ bs"
    and "length pad = roundUpToAlignment (e_size e) a - e_size e"
    and "e_attachments (encodeFixedLengthData junk bs a e) = e_attachments e"
proof -
  let ?off = "roundUpToAlignment (e_size e) a" and ?n = "length bs"
  obtain e1 where g: "grow junk a ?n e = (?off, e1)" by (simp add: grow_def Let_def)
  have off: "e_size e \<le> ?off" by (rule roundUp_ge [OF a])
  have e1: "e_size e1 = ?off + ?n \<and> ?off + ?n \<le> length (e_buffer e1) \<and> 512 \<le> length (e_buffer e1) \<and>
      take (e_size e) (e_buffer e1) = e_content e \<and> e_attachments e1 = e_attachments e"
  proof (cases "e_capacity e < ?off + ?n")
    case True
    let ?c = "roundUpToAlignment (e_capacity e * 2) 4096"
    have c: "512 \<le> ?c" using roundUp_ge [of 4096 "e_capacity e * 2"] wf by (simp add: enc_wf_def)
    then have ge: "?off + ?n \<le> grow_capacity (?off + ?n) ?c" "512 \<le> grow_capacity (?off + ?n) ?c"
      using grow_capacity_ge [of ?c "?off + ?n"] grow_capacity_mono [of ?c "?off + ?n"] by simp_all
    moreover have "e_buffer e1 = e_content e @ map junk [e_size e..<grow_capacity (?off + ?n) ?c]"
      using g True by (auto simp: grow_def Let_def e_content_def)
    ultimately show ?thesis using g True off wf by (auto simp: grow_def Let_def)
  next
    case False
    then show ?thesis using g off wf by (auto simp: grow_def Let_def e_content_def enc_wf_def e_capacity_def)
  qed
  let ?pad = "take (?off - e_size e) (drop (e_size e) (e_buffer e1))"
  have "take ?off (e_buffer e1) = e_content e @ ?pad"
    using e1 off take_add [of "e_size e" "?off - e_size e" "e_buffer e1"] by simp
  moreover have "e_content (store ?off bs e1) = take ?off (e_buffer e1) @ bs"
    using e1 by (simp add: e_content_def store_def)
  moreover have "enc_wf (store ?off bs e1)" using e1 by (simp add: enc_wf_def store_def e_capacity_def)
  moreover have "length ?pad = ?off - e_size e"
    using e1 by (simp add: min_absorb2 diff_le_mono)
  ultimately show thesis
    using that [of ?pad] g e1 by (simp add: encodeFixedLengthData_def store_def)
qed

subsection \<open>Aligned pointers\<close>

lemma and_not_mask_eq: "w AND NOT (mask k) = push_bit k (drop_bit k w)" for w :: "64 word"
  by (rule bit_word_eqI) (auto simp: bit_and_iff bit_not_iff bit_mask_iff bit_push_bit_iff bit_drop_bit_eq)

lemma unat_and_not_mask: "unat (w AND NOT (mask k)) = unat w div 2 ^ k * 2 ^ k" for w :: "64 word"
proof -
  have "unat w div 2 ^ k * 2 ^ k \<le> unat w" by simp
  moreover have lt: "unat w < 2 ^ 64" using unsigned_less [of w] by simp
  ultimately have "unat w div 2 ^ k * 2 ^ k < 2 ^ 64" by linarith
  moreover have "unat (push_bit k (drop_bit k w)) = take_bit 64 (unat w div 2 ^ k * 2 ^ k)"
    by (simp only: unsigned_push_bit_eq unsigned_drop_bit_eq)
      (simp add: push_bit_eq_mult drop_bit_eq_div take_bit_nat_eq_self [OF lt])
  ultimately show ?thesis by (simp add: and_not_mask_eq take_bit_nat_eq_self)
qed

lemma unat_align_pointer:
  assumes "a = 2 ^ k" and "unat p + a \<le> 2 ^ 64" and "k < 64"
  shows "unat (align_pointer p a) = roundUpToAlignment (unat p) a"
proof -
  have m: "(of_nat (a - 1) :: 64 word) = mask k"
    using assms(1) by (simp add: mask_eq_exp_minus_1)
  have "unat (p + mask k) = unat p + (a - 1)"
  proof -
    have "a - 1 < 2 ^ 64" using assms(2) by simp
    then have "unat (of_nat (a - 1) :: 64 word) = a - 1"
      by (subst unat_of_nat) (simp add: take_bit_nat_eq_self)
    then have "unat (mask k :: 64 word) = a - 1" by (simp only: m)
    then show ?thesis using assms(1,2) by (simp add: unat_word_ariths)
  qed
  then have "unat ((p + mask k) AND NOT (mask k)) = (unat p + (a - 1)) div a * a"
    using unat_and_not_mask [of "p + mask k" k] assms(1) by simp
  moreover have "unat p + (a - 1) = unat p + a - 1" using assms(1) by simp
  ultimately show ?thesis by (simp only: align_pointer_def Let_def m roundUpToAlignment_def)
qed

lemma roundUp_add_multiple: "\<lbrakk>a dvd b; 0 < a\<rbrakk> \<Longrightarrow> roundUpToAlignment (b + n) a = b + roundUpToAlignment n a"
proof -
  assume "a dvd b" and a: "0 < a"
  then obtain q where b: "b = a * q" by (elim dvdE)
  have eq: "b + n + a - 1 = a * q + (n + a - 1)" using a b by simp
  have "(b + n + a - 1) div a = q + (n + a - 1) div a"
    unfolding eq using a by (intro div_mult_self4) simp
  then show ?thesis unfolding roundUpToAlignment_def using b by (simp add: add_mult_distrib add_mult_distrib2 mult.commute)
qed

subsection \<open>Well-formed decoders\<close>

text \<open>The buffer comes from \<^verbatim>\<open>malloc\<close>: it is aligned and does not reach the end of the address space.\<close>

definition dec_wf :: "decoder \<Rightarrow> bool" where
  "dec_wf d \<longleftrightarrow> 8 dvd unat (d_base d) \<and> unat (d_base d) + length (d_mem d) + 16 < 2 ^ 64"

text \<open>The decoder with its position at offset \<open>m\<close>.\<close>

definition d_at :: "decoder \<Rightarrow> nat \<Rightarrow> decoder" where
  "d_at d m = d\<lparr>d_pos := d_base d + of_nat m\<rparr>"

definition dec_inv :: "decoder \<Rightarrow> bool" where
  "dec_inv d \<longleftrightarrow> dec_wf d \<and> (\<exists>m \<le> length (d_mem d) + 1. d = d_at d m)"

lemma d_at_simps [simp]:
  "d_base (d_at d m) = d_base d" "d_mem (d_at d m) = d_mem d" "d_attachments (d_at d m) = d_attachments d"
  "d_at (d_at d m) n = d_at d n" "dec_wf (d_at d m) = dec_wf d" "d_end (d_at d m) = d_end d"
  by (simp_all add: d_at_def dec_wf_def d_end_def)

lemma unat_offset:
  assumes "dec_wf d" and "m \<le> length (d_mem d) + 16"
  shows "unat (d_base d + of_nat m) = unat (d_base d) + m"
proof -
  have m: "m < 2 ^ 64" and s: "unat (d_base d) + m < 2 ^ 64" using assms by (simp_all add: dec_wf_def)
  have "unat (of_nat m :: address) = m" using m by (subst unat_of_nat) (simp add: take_bit_nat_eq_self)
  then show ?thesis using s by (simp add: unat_word_ariths)
qed

lemma unat_d_end: "dec_wf d \<Longrightarrow> unat (d_end d) = unat (d_base d) + length (d_mem d)"
  by (simp add: d_end_def unat_offset)

lemma markInvalid_eq: "markInvalid d = d_at d (length (d_mem d) + 1)"
  by (simp add: markInvalid_def d_at_def d_end_def add.assoc)

lemma unat_sub_base:
  assumes "dec_wf d" and "m \<le> length (d_mem d) + 16"
  shows "unat (d_pos (d_at d m) - d_base d) = m"
proof -
  have "m < 2 ^ 64" using assms by (simp add: dec_wf_def)
  then have "unat (of_nat m :: address) = m" by (subst unat_of_nat) (simp add: take_bit_nat_eq_self)
  then show ?thesis by (simp add: d_at_def)
qed

definition alignments :: "nat set" where
  "alignments = {1, 2, 4, 8}"

lemma alignmentsE:
  assumes "a \<in> alignments"
  obtains k where "a = 2 ^ k" and "k < 64" and "0 < a" and "a \<le> 8" and "a dvd 8"
proof -
  have "a = 2 ^ 0 \<or> a = 2 ^ 1 \<or> a = 2 ^ 2 \<or> a = 2 ^ 3" using assms by (auto simp: alignments_def)
  then show thesis
    using that [of 0] that [of 1] that [of 2] that [of 3] by auto
qed

lemma align_at:
  assumes wf: "dec_wf d" and a: "a \<in> alignments" and m: "m \<le> length (d_mem d) + 1"
  shows "align_pointer (d_pos (d_at d m)) a = d_base d + of_nat (roundUpToAlignment m a)"
    and "roundUpToAlignment m a \<le> length (d_mem d) + 16"
proof -
  obtain k where k: "a = 2 ^ k" "k < 64" "0 < a" "a \<le> 8" "a dvd 8" by (rule alignmentsE [OF a])
  have u: "unat (d_pos (d_at d m)) = unat (d_base d) + m"
    using unat_offset [OF wf, of m] m by (simp add: d_at_def)
  have "unat (d_pos (d_at d m)) + a \<le> 2 ^ 64" using u wf m k(4) by (simp add: dec_wf_def)
  then have "unat (align_pointer (d_pos (d_at d m)) a) = roundUpToAlignment (unat (d_base d) + m) a"
    using unat_align_pointer [OF k(1) _ k(2)] u by simp
  also have "\<dots> = unat (d_base d) + roundUpToAlignment m a"
    using wf k(3,5) by (intro roundUp_add_multiple) (auto simp: dec_wf_def dest: dvd_trans)
  also show le: "roundUpToAlignment m a \<le> length (d_mem d) + 16"
    using roundUp_less [OF k(3), of m] m k(4) by simp
  then have "unat (d_base d) + roundUpToAlignment m a = unat (d_base d + of_nat (roundUpToAlignment m a))"
    by (simp add: unat_offset [OF wf])
  finally show "align_pointer (d_pos (d_at d m)) a = d_base d + of_nat (roundUpToAlignment m a)"
    by (simp add: word_unat_eq_iff)
qed

lemma large_enough_iff:
  assumes wf: "dec_wf d" and r: "r \<le> length (d_mem d) + 16" and n: "unat w = n"
  shows "alignedBufferIsLargeEnoughToContain (d_base d + of_nat r) (d_end d) w \<longleftrightarrow> r + n \<le> length (d_mem d)"
proof -
  have u: "unat (d_base d + of_nat r) = unat (d_base d) + r" by (rule unat_offset [OF wf r])
  have e: "unat (d_end d) = unat (d_base d) + length (d_mem d)" by (rule unat_d_end [OF wf])
  show ?thesis
  proof (cases "r \<le> length (d_mem d)")
    case True
    then have le: "d_base d + of_nat r \<le> d_end d" using u e by (simp add: word_le_nat_alt)
    then have "unat (d_end d - (d_base d + of_nat r)) = length (d_mem d) - r"
      using u e by (simp add: unat_sub)
    then show ?thesis
      using le True n by (auto simp: alignedBufferIsLargeEnoughToContain_def word_le_nat_alt)
  next
    case False
    then have "\<not> d_base d + of_nat r \<le> d_end d" using u e by (simp add: word_le_nat_alt)
    then show ?thesis using False by (simp add: alignedBufferIsLargeEnoughToContain_def)
  qed
qed

lemma alignBufferPosition_at:
  assumes wf: "dec_wf d" and a: "a \<in> alignments" and m: "m \<le> length (d_mem d) + 1" and n: "unat w = n"
  shows "alignBufferPosition a w (d_at d m) =
    (if roundUpToAlignment m a + n \<le> length (d_mem d) then (True, d_at d (roundUpToAlignment m a))
     else (False, d_at d (length (d_mem d) + 1)))"
  using align_at [OF wf a m] large_enough_iff [OF wf align_at(2) [OF wf a m] n]
  by (simp add: alignBufferPosition_def Let_def markInvalid_eq) (simp add: d_at_def)

lemma bufferIsLargeEnough_at:
  assumes wf: "dec_wf d" and a: "a \<in> alignments" and m: "m \<le> length (d_mem d) + 1" and n: "unat w = n"
  shows "bufferIsLargeEnoughToContain a w (d_at d m) \<longleftrightarrow> roundUpToAlignment m a + n \<le> length (d_mem d)"
  using align_at [OF wf a m] large_enough_iff [OF wf align_at(2) [OF wf a m] n]
  by (simp add: bufferIsLargeEnoughToContain_def)

lemma decodeFixedLengthData_at:
  assumes wf: "dec_wf d" and a: "a \<in> alignments" and m: "m \<le> length (d_mem d) + 1" and n: "n < 2 ^ 64"
  shows "decodeFixedLengthData n a (d_at d m) =
    (if roundUpToAlignment m a + n \<le> length (d_mem d)
     then (Value (take n (drop (roundUpToAlignment m a) (d_mem d))), d_at d (roundUpToAlignment m a + n))
     else (Fail, d_at d (length (d_mem d) + 1)))"
proof -
  let ?r = "roundUpToAlignment m a"
  have u: "unat (of_nat n :: address) = n" using n by (subst unat_of_nat) (simp add: take_bit_nat_eq_self)
  show ?thesis
  proof (cases "?r + n \<le> length (d_mem d)")
    case True
    then have "unat (d_pos (d_at d ?r) - d_base d) = ?r" by (intro unat_sub_base [OF wf]) simp
    then have "load (d_at d ?r) n = Some (take n (drop ?r (d_mem d)))"
      using True by (simp add: load_def)
    moreover have "(d_at d ?r)\<lparr>d_pos := d_pos (d_at d ?r) + of_nat n\<rparr> = d_at d (?r + n)"
      by (simp add: d_at_def add.assoc)
    ultimately show ?thesis
      using True by (simp add: decodeFixedLengthData_def alignBufferPosition_at [OF wf a m u])
  next
    case False
    then show ?thesis by (simp add: decodeFixedLengthData_def alignBufferPosition_at [OF wf a m u])
  qed
qed

subsection \<open>What one coder promises\<close>

text \<open>The decoder's buffer starts with what the encoder has produced so far.\<close>

definition reads :: "decoder \<Rightarrow> encoder \<Rightarrow> bool" where
  "reads d e \<longleftrightarrow> (\<exists>rest. d_mem d = e_content e @ rest)"

locale coder =
  fixes enc :: "'a \<Rightarrow> encoder \<Rightarrow> encoder"
    and dec :: "'a dec"
    and ok :: "'a \<Rightarrow> bool"
  assumes enc_keeps: "\<lbrakk>ok x; enc_wf e\<rbrakk> \<Longrightarrow> enc_wf (enc x e)"
    and enc_extends: "\<lbrakk>ok x; enc_wf e\<rbrakk> \<Longrightarrow> \<exists>bs. e_content (enc x e) = e_content e @ bs"
    and dec_enc: "\<lbrakk>ok x; enc_wf e; dec_wf d; reads d (enc x e)\<rbrakk> \<Longrightarrow>
      dec (d_at d (e_size e)) = (Value x, d_at d (e_size (enc x e)))"
begin

lemma reads_before: "\<lbrakk>ok x; enc_wf e; reads d (enc x e)\<rbrakk> \<Longrightarrow> reads d e"
  using enc_extends [of x e] by (auto simp: reads_def)

lemma fold_keeps: "\<lbrakk>\<forall>x \<in> set xs. ok x; enc_wf e\<rbrakk> \<Longrightarrow> enc_wf (fold enc xs e)"
  by (induction xs arbitrary: e) (simp_all add: enc_keeps)

lemma fold_extends: "\<lbrakk>\<forall>x \<in> set xs. ok x; enc_wf e\<rbrakk> \<Longrightarrow> \<exists>bs. e_content (fold enc xs e) = e_content e @ bs"
proof (induction xs arbitrary: e)
  case (Cons x xs)
  obtain bs where bs: "e_content (enc x e) = e_content e @ bs" using enc_extends [of x e] Cons.prems by auto
  obtain cs where cs: "e_content (fold enc xs (enc x e)) = e_content (enc x e) @ cs"
    using Cons.IH [of "enc x e"] Cons.prems enc_keeps by auto
  show ?case using bs cs by simp
qed simp

lemma elements_round_trip:
  "\<lbrakk>\<forall>x \<in> set xs. ok x; enc_wf e; dec_wf d; reads d (fold enc xs e)\<rbrakk> \<Longrightarrow>
   decode_elements dec (length xs) (d_at d (e_size e)) = (Value xs, d_at d (e_size (fold enc xs e)))"
proof (induction xs arbitrary: e)
  case Nil
  then show ?case by (simp add: dreturn_def)
next
  case (Cons x xs)
  have wf: "enc_wf (enc x e)" using Cons.prems enc_keeps by simp
  obtain bs where "e_content (fold enc xs (enc x e)) = e_content (enc x e) @ bs"
    using fold_extends [OF _ wf, of xs] Cons.prems by auto
  then have "reads d (enc x e)" using Cons.prems(4) by (auto simp: reads_def)
  then have "dec (d_at d (e_size e)) = (Value x, d_at d (e_size (enc x e)))"
    using Cons.prems by (intro dec_enc) simp_all
  moreover have "decode_elements dec (length xs) (d_at d (e_size (enc x e)))
      = (Value xs, d_at d (e_size (fold enc xs (enc x e))))"
    using Cons.prems wf by (intro Cons.IH) simp_all
  ultimately show ?case by (simp add: dbind_def dreturn_def)
qed

end

lemma encodeFixed_extends:
  "\<lbrakk>enc_wf e; 0 < a\<rbrakk> \<Longrightarrow> \<exists>cs. e_content (encodeFixedLengthData junk bs a e) = e_content e @ cs"
  by (rule encodeFixedLengthData_ok [of e a junk bs]) auto

lemma encodeFixed_keeps: "\<lbrakk>enc_wf e; 0 < a\<rbrakk> \<Longrightarrow> enc_wf (encodeFixedLengthData junk bs a e)"
  by (rule encodeFixedLengthData_ok [of e a junk bs]) auto

lemma fixed_round_trip:
  assumes e: "enc_wf e" and a: "a \<in> alignments" and d: "dec_wf d"
    and r: "reads d (encodeFixedLengthData junk bs a e)"
  shows "decodeFixedLengthData (length bs) a (d_at d (e_size e))
      = (Value bs, d_at d (e_size (encodeFixedLengthData junk bs a e)))"
    and "roundUpToAlignment (e_size e) a + length bs \<le> length (d_mem d)"
    and "e_size e \<le> length (d_mem d) + 1" and "length bs < 2 ^ 64"
proof -
  have a0: "0 < a" using a by (auto simp: alignments_def)
  let ?r = "roundUpToAlignment (e_size e) a"
  obtain pad where sz: "e_size (encodeFixedLengthData junk bs a e) = ?r + length bs"
    and ct: "e_content (encodeFixedLengthData junk bs a e) = e_content e @ pad @ bs"
    and pad: "length pad = ?r - e_size e"
    by (rule encodeFixedLengthData_ok [OF e a0, of junk bs])
  obtain rest where mem: "d_mem d = (e_content e @ pad) @ bs @ rest"
    using r ct by (auto simp: reads_def)
  have len: "length (e_content e @ pad) = ?r" using e pad roundUp_ge [OF a0, of "e_size e"] by simp
  then show fit: "?r + length bs \<le> length (d_mem d)" using mem by simp
  then show m: "e_size e \<le> length (d_mem d) + 1" using roundUp_ge [OF a0, of "e_size e"] by simp
  show n: "length bs < 2 ^ 64" using fit d by (simp add: dec_wf_def)
  have "take (length bs) (drop ?r (d_mem d)) = bs" using mem len by simp
  then show "decodeFixedLengthData (length bs) a (d_at d (e_size e))
      = (Value bs, d_at d (e_size (encodeFixedLengthData junk bs a e)))"
    using decodeFixedLengthData_at [OF d a m n] fit sz by simp
qed

lemma int_coder:
  assumes k: "k \<in> alignments"
  shows "coder (encode_int junk k) (decode_int k) (\<lambda>n. n < 256 ^ k)"
proof
  fix x :: nat and e :: encoder and d :: decoder
  have k0: "0 < k" using k by (auto simp: alignments_def)
  assume x: "x < 256 ^ k" and e: "enc_wf e"
  show "enc_wf (encode_int junk k x e)" using encodeFixed_keeps [OF e k0] by (simp add: encode_int_def)
  show "\<exists>bs. e_content (encode_int junk k x e) = e_content e @ bs"
    using encodeFixed_extends [OF e k0] by (simp add: encode_int_def)
  assume d: "dec_wf d" and r: "reads d (encode_int junk k x e)"
  show "decode_int k (d_at d (e_size e)) = (Value x, d_at d (e_size (encode_int junk k x e)))"
    using fixed_round_trip(1) [OF e k d r [unfolded encode_int_def]] le_value_bytes [OF x]
    by (simp add: decode_int_def dbind_def dreturn_def encode_int_def)
qed

text \<open>A coder for a type that is represented by another: words by numbers, booleans by bytes.\<close>

lemma coder_map:
  assumes c: "coder enc dec ok" and ok: "\<And>x. ok' x \<Longrightarrow> ok (f x)"
    and enc: "\<And>x e. enc' x e = enc (f x) e"
    and dec: "\<And>x d d'. \<lbrakk>ok' x; dec d = (Value (f x), d')\<rbrakk> \<Longrightarrow> dec' d = (Value x, d')"
  shows "coder enc' dec' ok'"
proof
  fix x :: 'b and e :: encoder and d :: decoder
  assume x: "ok' x" and e: "enc_wf e"
  show "enc_wf (enc' x e)" using coder.enc_keeps [OF c ok [OF x] e] by (simp add: enc)
  show "\<exists>bs. e_content (enc' x e) = e_content e @ bs"
    using coder.enc_extends [OF c ok [OF x] e] by (simp add: enc)
  assume "dec_wf d" and "reads d (enc' x e)"
  then show "dec' (d_at d (e_size e)) = (Value x, d_at d (e_size (enc' x e)))"
    using coder.dec_enc [OF c ok [OF x] e] by (intro dec [OF x]) (simp add: enc)
qed

interpretation uint8_coder: coder "encode_uint8 junk" decode_uint8 "\<lambda>_. True" for junk
proof (rule coder_map [OF int_coder [of 1 junk], where f = unat])
  show "(1 :: nat) \<in> alignments" by (simp add: alignments_def)
  show "unat (x :: 8 word) < 256 ^ 1" for x using unsigned_less [of x] by simp
qed (simp_all add: encode_uint8_def decode_uint8_def dbind_def dreturn_def)

interpretation uint16_coder: coder "encode_uint16 junk" decode_uint16 "\<lambda>_. True" for junk
proof (rule coder_map [OF int_coder [of 2 junk], where f = unat])
  show "(2 :: nat) \<in> alignments" by (simp add: alignments_def)
  show "unat (x :: 16 word) < 256 ^ 2" for x using unsigned_less [of x] by simp
qed (simp_all add: encode_uint16_def decode_uint16_def dbind_def dreturn_def)

interpretation uint32_coder: coder "encode_uint32 junk" decode_uint32 "\<lambda>_. True" for junk
proof (rule coder_map [OF int_coder [of 4 junk], where f = unat])
  show "(4 :: nat) \<in> alignments" by (simp add: alignments_def)
  show "unat (x :: 32 word) < 256 ^ 4" for x using unsigned_less [of x] by simp
qed (simp_all add: encode_uint32_def decode_uint32_def dbind_def dreturn_def)

interpretation uint64_coder: coder "encode_uint64 junk" decode_uint64 "\<lambda>_. True" for junk
proof (rule coder_map [OF int_coder [of 8 junk], where f = unat])
  show "(8 :: nat) \<in> alignments" by (simp add: alignments_def)
  show "unat (x :: 64 word) < 256 ^ 8" for x using unsigned_less [of x] by simp
qed (simp_all add: encode_uint64_def decode_uint64_def dbind_def dreturn_def)

interpretation bool_coder: coder "encode_bool junk" decode_bool "\<lambda>_. True" for junk
proof (rule coder_map [OF int_coder [of 1 junk], where f = "\<lambda>b. if b then 1 else 0"])
  show "(1 :: nat) \<in> alignments" by (simp add: alignments_def)
qed (auto simp: encode_bool_def decode_bool_def dbind_def)

subsection \<open>Strings, pairs, vectors\<close>

lemma elements_fit_iff:
  assumes wf: "dec_wf d" and k: "k \<in> alignments" and m: "m \<le> length (d_mem d) + 1"
  shows "bufferIsLargeEnoughToContainElements k w (d_at d m) \<longleftrightarrow>
    roundUpToAlignment m k + unat w * k \<le> length (d_mem d)"
proof (cases "unat w > (2 ^ 64 - 1) div k")
  case True
  have k0: "0 < k" using k by (auto simp: alignments_def)
  then have "2 ^ 64 - 1 < unat w * k" using True by (simp add: div_less_iff_less_mult)
  then have "\<not> unat w * k \<le> length (d_mem d)" using wf by (simp add: dec_wf_def)
  then show ?thesis using True by (simp add: bufferIsLargeEnoughToContainElements_def)
next
  case False
  have k0: "0 < k" "k \<le> 8" using k by (auto simp: alignments_def)
  have le: "unat w * k \<le> 2 ^ 64 - 1" using False k0 by (simp add: not_less less_eq_div_iff_mult_less_eq)
  have "unat (of_nat k :: address) = k" using k0(2) by (subst unat_of_nat) (simp add: take_bit_nat_eq_self)
  then have "unat (w * of_nat k) = unat w * k" using le by (simp add: unat_word_ariths)
  from bufferIsLargeEnough_at [OF wf k m this] False show ?thesis
    by (simp add: bufferIsLargeEnoughToContainElements_def)
qed

lemma unat_ucast_32: "unat (ucast (w :: 32 word) :: address) = unat w"
  by (simp add: unsigned_ucast_eq take_bit_nat_eq_self less_le_trans [OF unsigned_less])

lemma unat_length_32: "n < 2 ^ 32 - 1 \<Longrightarrow> unat (of_nat n :: 32 word) = n \<and> (of_nat n :: 32 word) \<noteq> - 1"
proof -
  assume n: "n < 2 ^ 32 - 1"
  then have u: "unat (of_nat n :: 32 word) = n" by (subst unat_of_nat) (simp add: take_bit_nat_eq_self)
  moreover have "unat (- 1 :: 32 word) = 2 ^ 32 - 1" by (simp add: unsigned_minus_1_eq_mask mask_eq_exp_minus_1)
  ultimately show ?thesis using n by auto
qed

text \<open>Text of \<open>k\<close> bytes per character behind its length.\<close>

lemma text_round_trip:
  assumes e: "enc_wf e" and k: "k \<in> alignments" and d: "dec_wf d"
    and n: "length bs = n * k" "n < 2 ^ 32 - 1"
    and r: "reads d (encodeFixedLengthData junk bs k e)"
  shows "bufferIsLargeEnoughToContainElements k (ucast (of_nat n :: 32 word)) (d_at d (e_size e))"
    and "decodeStringText k (of_nat n) (d_at d (e_size e))
      = (Value bs, d_at d (e_size (encodeFixedLengthData junk bs k e)))"
proof -
  note f = fixed_round_trip [OF e k d r]
  have u: "unat (ucast (of_nat n :: 32 word) :: address) = n" "unat (of_nat n :: 32 word) = n"
    using unat_length_32 [OF n(2)] by (simp_all only: unat_ucast_32)
  show fit: "bufferIsLargeEnoughToContainElements k (ucast (of_nat n :: 32 word)) (d_at d (e_size e))"
    using f(2) n(1) by (simp add: elements_fit_iff [OF d k f(3)] u)
  show "decodeStringText k (of_nat n) (d_at d (e_size e))
      = (Value bs, d_at d (e_size (encodeFixedLengthData junk bs k e)))"
    using fit f(1) n(1) by (simp add: decodeStringText_def u)
qed

lemma reads_fixed: "\<lbrakk>enc_wf e; 0 < a; reads d (encodeFixedLengthData junk bs a e)\<rbrakk> \<Longrightarrow> reads d e"
  using encodeFixed_extends [of e a junk bs] by (auto simp: reads_def)

lemma extends_trans:
  "\<lbrakk>\<exists>bs. e_content e1 = e_content e @ bs; \<exists>bs. e_content e2 = e_content e1 @ bs\<rbrakk> \<Longrightarrow>
   \<exists>bs. e_content e2 = e_content e @ bs"
  by auto

lemma one_two_alignments [simp]: "1 \<in> alignments" "Suc 0 \<in> alignments" "2 \<in> alignments" "4 \<in> alignments" "8 \<in> alignments"
  by (simp_all add: alignments_def)

lemma units16_le_bytes: "units16 (concat (map (\<lambda>c. le_bytes 2 (unat c)) cs)) = cs"
proof (induction cs)
  case (Cons c cs)
  have c: "unat c < 256 ^ 2" using unsigned_less [of c] by simp
  obtain a b where ab: "le_bytes 2 (unat c) = [a, b]" by (simp add: numeral_2_eq_2)
  have "of_nat (le_value [a, b]) = c" using le_value_bytes [OF c] ab by simp
  then show ?case using Cons.IH by (simp only: concat.simps list.map ab append.simps units16.simps)
qed simp

lemma length_le_bytes_map: "length (concat (map (\<lambda>c. le_bytes 2 (unat c)) cs)) = length cs * 2"
  by (induction cs) simp_all

definition text_ok :: "wtf_text \<Rightarrow> bool" where
  "text_ok s \<longleftrightarrow> (case s of Null_string \<Rightarrow> True
     | Chars8 cs \<Rightarrow> length cs < 2 ^ 32 - 1 | Chars16 cs \<Rightarrow> length cs < 2 ^ 32 - 1)"

lemma text_header:
  assumes e: "enc_wf e" and n: "n < 2 ^ 32 - 1" and d: "dec_wf d"
    and r: "reads d (encode_bool junk b (encode_uint32 junk (of_nat n) e))"
  shows "decode_uint32 (d_at d (e_size e)) = (Value (of_nat n), d_at d (e_size (encode_uint32 junk (of_nat n) e)))"
    and "decode_bool (d_at d (e_size (encode_uint32 junk (of_nat n) e)))
      = (Value b, d_at d (e_size (encode_bool junk b (encode_uint32 junk (of_nat n) e))))"
proof -
  have e1: "enc_wf (encode_uint32 junk (of_nat n) e)" using e by (intro uint32_coder.enc_keeps) simp_all
  have "reads d (encode_uint32 junk (of_nat n) e)" using r by (intro bool_coder.reads_before [OF _ e1]) simp_all
  then show "decode_uint32 (d_at d (e_size e)) = (Value (of_nat n), d_at d (e_size (encode_uint32 junk (of_nat n) e)))"
    using e d by (intro uint32_coder.dec_enc) simp_all
  show "decode_bool (d_at d (e_size (encode_uint32 junk (of_nat n) e)))
      = (Value b, d_at d (e_size (encode_bool junk b (encode_uint32 junk (of_nat n) e))))"
    using e1 d r by (intro bool_coder.dec_enc) simp_all
qed

interpretation string_coder: coder "encode_String junk" decode_String text_ok for junk
proof
  fix s :: wtf_text and e :: encoder and d :: decoder
  assume s: "text_ok s" and e: "enc_wf e"
  let ?h = "\<lambda>n b. encode_bool junk b (encode_uint32 junk (of_nat n) e)"
  have u: "enc_wf (encode_uint32 junk w e)" for w using e by (intro uint32_coder.enc_keeps) simp_all
  then have h: "enc_wf (?h n b)" for n b by (intro bool_coder.enc_keeps) simp_all
  have hx: "\<exists>bs. e_content (?h n b) = e_content e @ bs" for n b
    by (rule extends_trans [OF uint32_coder.enc_extends [OF _ e] bool_coder.enc_extends [OF _ u]]) simp_all
  show "enc_wf (encode_String junk s e)"
    using u encodeFixed_keeps [OF h] by (cases s) (simp_all add: encode_String_def)
  show "\<exists>bs. e_content (encode_String junk s e) = e_content e @ bs"
  proof (cases s)
    case Null_string
    then show ?thesis using uint32_coder.enc_extends [OF TrueI e] by (simp add: encode_String_def)
  next
    case (Chars8 cs)
    show ?thesis
      unfolding encode_String_def Chars8 wtf_text.case
      by (rule extends_trans [OF hx encodeFixed_extends [OF h]]) simp
  next
    case (Chars16 cs)
    show ?thesis
      unfolding encode_String_def Chars16 wtf_text.case
      by (rule extends_trans [OF hx encodeFixed_extends [OF h]]) simp
  qed
  assume d: "dec_wf d" and r: "reads d (encode_String junk s e)"
  show "decode_String (d_at d (e_size e)) = (Value s, d_at d (e_size (encode_String junk s e)))"
  proof (cases s)
    case Null_string
    then show ?thesis
      using uint32_coder.dec_enc [OF TrueI e d, of junk "- 1"] r
      by (simp add: decode_String_def encode_String_def dbind_def dreturn_def)
  next
    case (Chars8 cs)
    have n: "length cs < 2 ^ 32 - 1" using s Chars8 by (simp add: text_ok_def)
    have r': "reads d (encodeFixedLengthData junk cs 1 (?h (length cs) True))"
      using r Chars8 by (simp add: encode_String_def)
    note hd = text_header [OF e n d reads_fixed [OF h _ r']]
    have "decodeStringText 1 (of_nat (length cs)) (d_at d (e_size (?h (length cs) True)))
        = (Value cs, d_at d (e_size (encodeFixedLengthData junk cs 1 (?h (length cs) True))))"
      using text_round_trip(2) [OF h _ d _ n r'] by simp
    then show ?thesis
      using hd unat_length_32 [OF n] Chars8
      by (simp add: decode_String_def encode_String_def dbind_def dreturn_def)
  next
    case (Chars16 cs)
    let ?bs = "concat (map (\<lambda>c. le_bytes 2 (unat c)) cs)"
    have n: "length cs < 2 ^ 32 - 1" using s Chars16 by (simp add: text_ok_def)
    have r': "reads d (encodeFixedLengthData junk ?bs 2 (?h (length cs) False))"
      using r Chars16 by (simp add: encode_String_def)
    note hd = text_header [OF e n d reads_fixed [OF h _ r']]
    have "decodeStringText 2 (of_nat (length cs)) (d_at d (e_size (?h (length cs) False)))
        = (Value ?bs, d_at d (e_size (encodeFixedLengthData junk ?bs 2 (?h (length cs) False))))"
      using text_round_trip(2) [OF h _ d length_le_bytes_map n r'] by simp
    then show ?thesis
      using hd unat_length_32 [OF n] Chars16
      by (simp add: decode_String_def encode_String_def dbind_def dreturn_def units16_le_bytes)
  qed
qed


text \<open>A run of bytes behind its length: data references, C strings.\<close>

lemma fixed_coder:
  assumes "a \<in> alignments"
  shows "coder (\<lambda>bs. encodeFixedLengthData junk bs a) (decodeFixedLengthData n a) (\<lambda>bs. length bs = n)"
proof
  fix bs :: "byte list" and e :: encoder and d :: decoder
  have a0: "0 < a" using assms by (auto simp: alignments_def)
  assume n: "length bs = n" and e: "enc_wf e"
  show "enc_wf (encodeFixedLengthData junk bs a e)" by (rule encodeFixed_keeps [OF e a0])
  show "\<exists>cs. e_content (encodeFixedLengthData junk bs a e) = e_content e @ cs"
    by (rule encodeFixed_extends [OF e a0])
  assume "dec_wf d" and "reads d (encodeFixedLengthData junk bs a e)"
  then show "decodeFixedLengthData n a (d_at d (e_size e))
      = (Value bs, d_at d (e_size (encodeFixedLengthData junk bs a e)))"
    using fixed_round_trip(1) [OF e assms] n by auto
qed

text \<open>
  One coder after another: what the second one encodes and expects depends on what the first one
  carried, and the decoder reads the first value before it knows how to read the second.
\<close>

lemma coder_seq:
  assumes c1: "coder enc1 dec1 ok1"
    and c2: "\<And>x. ok x \<Longrightarrow> coder enc2 (dec2 (fs x)) (ok2 (fs x))"
    and ok1: "\<And>x. ok x \<Longrightarrow> ok1 (fs x)" and ok2: "\<And>x. ok x \<Longrightarrow> ok2 (fs x) (sn x)"
    and enc: "\<And>x e. enc x e = enc2 (sn x) (enc1 (fs x) e)"
    and dec: "\<And>x d d' d''. \<lbrakk>ok x; dec1 d = (Value (fs x), d'); dec2 (fs x) d' = (Value (sn x), d'')\<rbrakk>
      \<Longrightarrow> dec d = (Value x, d'')"
  shows "coder enc dec ok"
proof
  fix x and e :: encoder and d :: decoder
  assume x: "ok x" and e: "enc_wf e"
  note c1' = c1 and c2' = c2 [OF x]
  have e1: "enc_wf (enc1 (fs x) e)" by (rule coder.enc_keeps [OF c1 ok1 [OF x] e])
  show "enc_wf (enc x e)" unfolding enc by (rule coder.enc_keeps [OF c2' ok2 [OF x] e1])
  show "\<exists>bs. e_content (enc x e) = e_content e @ bs"
    unfolding enc
    by (rule extends_trans [OF coder.enc_extends [OF c1 ok1 [OF x] e] coder.enc_extends [OF c2' ok2 [OF x] e1]])
  assume d: "dec_wf d" and r: "reads d (enc x e)"
  have r1: "reads d (enc1 (fs x) e)" using coder.reads_before [OF c2' ok2 [OF x] e1] r by (simp add: enc)
  show "dec (d_at d (e_size e)) = (Value x, d_at d (e_size (enc x e)))"
    unfolding enc
    by (rule dec [OF x coder.dec_enc [OF c1 ok1 [OF x] e d r1]])
      (rule coder.dec_enc [OF c2' ok2 [OF x] e1 d r [unfolded enc]])
qed


lemma decodeVariableLengthByteArray_eq:
  "decodeVariableLengthByteArray = dbind decode_uint64 (\<lambda>n. decodeFixedLengthData (unat n) 1)"
  unfolding decodeVariableLengthByteArray_def
  by (rule arg_cong [where f = "dbind decode_uint64"]) (simp add: decodeFixedLengthData_def fun_eq_iff split: prod.split bool.split option.split)

lemma unat_length_64: "n < 2 ^ 64 \<Longrightarrow> unat (of_nat n :: 64 word) = n"
  by (subst unat_of_nat) (simp add: take_bit_nat_eq_self)

interpretation data_coder: coder "encodeVariableLengthByteArray junk" decodeVariableLengthByteArray
  "\<lambda>bs. length bs < 2 ^ 64" for junk
proof (rule coder_seq [where fs = "\<lambda>bs. of_nat (length bs)" and sn = "\<lambda>bs. bs",
      OF uint64_coder.coder_axioms [of junk] fixed_coder [where junk = junk and a = 1]])
  show "length bs = unat (of_nat (length bs) :: 64 word)" if "length bs < 2 ^ 64" for bs :: "byte list"
    using that by (simp only: unat_length_64)
qed (simp_all add: encodeVariableLengthByteArray_def decodeVariableLengthByteArray_eq dbind_def)

interpretation cstring_coder: coder "encode_CString junk" decode_CString
  "\<lambda>s. case s of None \<Rightarrow> True | Some bs \<Rightarrow> length bs < 2 ^ 32 - 1" for junk
proof
  fix s :: c_string_value and e :: encoder and d :: decoder
  assume s: "case s of None \<Rightarrow> True | Some bs \<Rightarrow> length bs < 2 ^ 32 - 1" and e: "enc_wf e"
  have u: "enc_wf (encode_uint32 junk w e)" for w using e by (intro uint32_coder.enc_keeps) simp_all
  note ux = uint32_coder.enc_extends [OF TrueI e]
  show "enc_wf (encode_CString junk s e)"
    using u encodeFixed_keeps [OF u] by (cases s) (simp_all add: encode_CString_def)
  show "\<exists>bs. e_content (encode_CString junk s e) = e_content e @ bs"
  proof (cases s)
    case None
    then show ?thesis using ux by (simp add: encode_CString_def)
  next
    case (Some bs)
    show ?thesis
      unfolding encode_CString_def Some option.case
      by (rule extends_trans [OF ux encodeFixed_extends [OF u]]) simp
  qed
  assume d: "dec_wf d" and r: "reads d (encode_CString junk s e)"
  show "decode_CString (d_at d (e_size e)) = (Value s, d_at d (e_size (encode_CString junk s e)))"
  proof (cases s)
    case None
    then show ?thesis
      using uint32_coder.dec_enc [OF TrueI e d, of junk "- 1"] r
      by (simp add: decode_CString_def encode_CString_def dbind_def dreturn_def)
  next
    case (Some bs)
    let ?e = "encode_uint32 junk (of_nat (length bs)) e"
    have n: "length bs < 2 ^ 32 - 1" using s Some by simp
    have r': "reads d (encodeFixedLengthData junk bs 1 ?e)" using r Some by (simp add: encode_CString_def)
    have hd: "decode_uint32 (d_at d (e_size e)) = (Value (of_nat (length bs)), d_at d (e_size ?e))"
      by (rule uint32_coder.dec_enc [OF TrueI e d reads_fixed [OF u _ r']]) simp
    have t: "bufferIsLargeEnoughToContainElements 1 (ucast (of_nat (length bs) :: 32 word)) (d_at d (e_size ?e))"
      using text_round_trip(1) [OF u _ d _ n r'] by simp
    show ?thesis
      using hd t fixed_round_trip(1) [OF u _ d r'] unat_length_32 [OF n] Some
      by (simp add: decode_CString_def encode_CString_def dbind_def dreturn_def)
  qed
qed

lemma pair_coder:
  assumes "coder enc1 dec1 ok1" and "coder enc2 dec2 ok2"
  shows "coder (encode_pair enc1 enc2) (decode_pair dec1 dec2) (\<lambda>p. ok1 (fst p) \<and> ok2 (snd p))"
  by (rule coder_seq [OF assms(1), of _ _ "\<lambda>_. dec2" fst "\<lambda>_. ok2" snd])
    (simp_all add: assms(2) encode_pair_def decode_pair_def dbind_def dreturn_def)

context coder
begin

lemma elements_coder: "coder (fold enc) (decode_elements dec n) (\<lambda>xs. length xs = n \<and> (\<forall>x \<in> set xs. ok x))"
proof
  fix xs and e :: encoder and d :: decoder
  assume xs: "length xs = n \<and> (\<forall>x \<in> set xs. ok x)" and e: "enc_wf e"
  show "enc_wf (fold enc xs e)" using fold_keeps xs e by blast
  show "\<exists>bs. e_content (fold enc xs e) = e_content e @ bs" using fold_extends xs e by blast
  assume "dec_wf d" and "reads d (fold enc xs e)"
  then show "decode_elements dec n (d_at d (e_size e)) = (Value xs, d_at d (e_size (fold enc xs e)))"
    using elements_round_trip xs e by blast
qed

lemma vector_coder:
  "coder (encode_vector junk enc) (decode_vector dec) (\<lambda>xs. length xs < 2 ^ 64 \<and> (\<forall>x \<in> set xs. ok x))"
proof (rule coder_seq [where fs = "\<lambda>xs. of_nat (length xs)" and sn = "\<lambda>xs. xs",
      OF uint64_coder.coder_axioms [of junk] elements_coder])
  show "length xs = unat (of_nat (length xs) :: 64 word) \<and> (\<forall>x \<in> set xs. ok x)"
    if "length xs < 2 ^ 64 \<and> (\<forall>x \<in> set xs. ok x)" for xs
    using that unat_length_64 [of "length xs"] by metis
qed (simp_all add: encode_vector_def decode_vector_def dbind_def)

end

lemma split_ints_concat:
  assumes "0 < k" and "\<forall>n \<in> set ns. n < 256 ^ k"
  shows "split_ints k (concat (map (le_bytes k) ns)) = ns"
  using assms(2)
proof (induction ns)
  case Nil
  then show ?case using assms(1) by (subst split_ints.simps) simp
next
  case (Cons n ns)
  then show ?case using assms(1) by (subst split_ints.simps) (simp add: le_value_bytes)
qed

lemma length_concat_le_bytes [simp]: "length (concat (map (le_bytes k) ns)) = length ns * k"
  by (induction ns) simp_all

lemma vector_int_coder:
  assumes k: "k \<in> alignments"
  shows "coder (encode_vector_int junk k) (decode_vector_int k)
    (\<lambda>ns. length ns < 2 ^ 64 \<and> (\<forall>n \<in> set ns. n < 256 ^ k))"
proof
  fix ns :: "nat list" and e :: encoder and d :: decoder
  assume ok: "length ns < 2 ^ 64 \<and> (\<forall>n \<in> set ns. n < 256 ^ k)" and e: "enc_wf e"
  have k0: "0 < k" using k by (auto simp: alignments_def)
  let ?bs = "concat (map (le_bytes k) ns)" and ?w = "of_nat (length ns) :: 64 word"
  let ?e = "encode_uint64 junk ?w e"
  have u: "enc_wf ?e" by (rule uint64_coder.enc_keeps [OF TrueI e])
  show "enc_wf (encode_vector_int junk k ns e)"
    using encodeFixed_keeps [OF u k0] by (simp add: encode_vector_int_def)
  show "\<exists>bs. e_content (encode_vector_int junk k ns e) = e_content e @ bs"
    unfolding encode_vector_int_def
    by (rule extends_trans [OF uint64_coder.enc_extends [OF TrueI e] encodeFixed_extends [OF u k0]])
  assume d: "dec_wf d" and r: "reads d (encode_vector_int junk k ns e)"
  have r': "reads d (encodeFixedLengthData junk ?bs k ?e)" using r by (simp add: encode_vector_int_def)
  have w: "unat ?w = length ns" using ok by (simp only: unat_length_64)
  have hd: "decode_uint64 (d_at d (e_size e)) = (Value ?w, d_at d (e_size ?e))"
    by (rule uint64_coder.dec_enc [OF TrueI e d reads_fixed [OF u k0 r']])
  note f = fixed_round_trip [OF u k d r']
  have fit: "bufferIsLargeEnoughToContainElements k ?w (d_at d (e_size ?e))"
    using f(2) unfolding elements_fit_iff [OF d k f(3)] w by simp
  have "decodeFixedLengthData (unat ?w * k) k (d_at d (e_size ?e))
      = (Value ?bs, d_at d (e_size (encodeFixedLengthData junk ?bs k ?e)))"
    using f(1) unfolding w by simp
  then show "decode_vector_int k (d_at d (e_size e)) = (Value ns, d_at d (e_size (encode_vector_int junk k ns e)))"
    using hd fit split_ints_concat [OF k0, of ns] ok
    unfolding decode_vector_int_def encode_vector_int_def dbind_def by simp
qed

lemma entries_round_trip:
  assumes c1: "coder enc1 dec1 ok1" and c2: "coder enc2 dec2 ok2"
  shows "\<lbrakk>\<forall>p \<in> set kvs. ok1 (fst p) \<and> ok2 (snd p) \<and> \<not> reserved (fst p); distinct (map fst (acc @ kvs));
      enc_wf e; dec_wf d; reads d (fold (encode_pair enc1 enc2) kvs e)\<rbrakk> \<Longrightarrow>
    decode_entries reserved dec1 dec2 (length kvs) acc (d_at d (e_size e))
      = (Value (acc @ kvs), d_at d (e_size (fold (encode_pair enc1 enc2) kvs e)))"
proof (induction kvs arbitrary: acc e)
  case Nil
  then show ?case by (simp add: dreturn_def)
next
  case (Cons p kvs)
  let ?e1 = "enc1 (fst p) e" and ?e2 = "encode_pair enc1 enc2 p e"
  note pc = pair_coder [OF c1 c2]
  have ok: "ok1 (fst p)" "ok2 (snd p)" "\<not> reserved (fst p)" using Cons.prems(1) by simp_all
  have w1: "enc_wf ?e1" by (rule coder.enc_keeps [OF c1 ok(1) Cons.prems(3)])
  have w2: "enc_wf ?e2" using coder.enc_keeps [OF pc _ Cons.prems(3)] ok by simp
  obtain bs where "e_content (fold (encode_pair enc1 enc2) kvs ?e2) = e_content ?e2 @ bs"
    using coder.fold_extends [OF pc _ w2, of kvs] Cons.prems(1) by auto
  then have r2: "reads d ?e2" using Cons.prems(5) by (auto simp: reads_def)
  then have r1: "reads d ?e1" using coder.reads_before [OF c2 ok(2) w1] by (simp add: encode_pair_def)
  have d1: "dec1 (d_at d (e_size e)) = (Value (fst p), d_at d (e_size ?e1))"
    by (rule coder.dec_enc [OF c1 ok(1) Cons.prems(3,4) r1])
  have d2: "dec2 (d_at d (e_size ?e1)) = (Value (snd p), d_at d (e_size ?e2))"
    using coder.dec_enc [OF c2 ok(2) w1 Cons.prems(4)] r2 by (simp add: encode_pair_def)
  have "decode_entries reserved dec1 dec2 (length kvs) (acc @ [p]) (d_at d (e_size ?e2))
      = (Value ((acc @ [p]) @ kvs), d_at d (e_size (fold (encode_pair enc1 enc2) kvs ?e2)))"
    using Cons.prems w2 by (intro Cons.IH) simp_all
  moreover have "fst p \<notin> fst ` set acc" using Cons.prems(2) by auto
  ultimately show ?case using d1 d2 ok(3) by (simp add: dbind_def)
qed

lemma hash_map_coder:
  assumes c1: "coder enc1 dec1 ok1" and c2: "coder enc2 dec2 ok2"
  shows "coder (encode_hash_map junk enc1 enc2) (decode_hash_map reserved dec1 dec2)
    (\<lambda>kvs. length kvs < 2 ^ 64 \<and> distinct (map fst kvs) \<and>
       (\<forall>p \<in> set kvs. ok1 (fst p) \<and> ok2 (snd p) \<and> \<not> reserved (fst p)))"
proof
  fix kvs and e :: encoder and d :: decoder
  assume ok: "length kvs < 2 ^ 64 \<and> distinct (map fst kvs) \<and>
      (\<forall>p \<in> set kvs. ok1 (fst p) \<and> ok2 (snd p) \<and> \<not> reserved (fst p))" and e: "enc_wf e"
  let ?w = "of_nat (length kvs) :: 64 word"
  let ?e = "encode_uint64 junk ?w e"
  note pc = pair_coder [OF c1 c2]
  have u: "enc_wf ?e" by (rule uint64_coder.enc_keeps [OF TrueI e])
  have p: "\<forall>p \<in> set kvs. ok1 (fst p) \<and> ok2 (snd p)" using ok by blast
  show "enc_wf (encode_hash_map junk enc1 enc2 kvs e)"
    unfolding encode_hash_map_def by (rule coder.fold_keeps [OF pc p u])
  have x: "\<exists>bs. e_content (fold (encode_pair enc1 enc2) kvs ?e) = e_content ?e @ bs"
    by (rule coder.fold_extends [OF pc p u])
  show "\<exists>bs. e_content (encode_hash_map junk enc1 enc2 kvs e) = e_content e @ bs"
    unfolding encode_hash_map_def by (rule extends_trans [OF uint64_coder.enc_extends [OF TrueI e] x])
  assume d: "dec_wf d" and r: "reads d (encode_hash_map junk enc1 enc2 kvs e)"
  have r1: "reads d ?e" using r x by (auto simp: reads_def encode_hash_map_def)
  have w: "unat ?w = length kvs" using ok by (simp only: unat_length_64)
  have "decode_entries reserved dec1 dec2 (unat ?w) [] (d_at d (e_size ?e))
      = (Value ([] @ kvs), d_at d (e_size (fold (encode_pair enc1 enc2) kvs ?e)))"
    unfolding w using ok r by (intro entries_round_trip [OF c1 c2 _ _ u d]) (simp_all add: encode_hash_map_def)
  then show "decode_hash_map reserved dec1 dec2 (d_at d (e_size e))
      = (Value kvs, d_at d (e_size (encode_hash_map junk enc1 enc2 kvs e)))"
    using uint64_coder.dec_enc [OF TrueI e d r1]
    unfolding decode_hash_map_def encode_hash_map_def dbind_def by simp
qed

end
