(* ===== verification/IPC_Messages.thy ===== *)
theory IPC_Messages
  imports IPC_Arguments
begin

text \<open>
  The types that travel in messages, as a datatype: \<^verbatim>\<open>ArgumentCoder<T>\<close> is chosen by the
  type, and the coders of compound types call those of their parts.  Over it, decoding what was
  encoded returns it, and decoding arbitrary bytes stays inside them.  On top of the arguments,
  the header of a message (\<^verbatim>\<open>MessageEncoder\<close>, \<^verbatim>\<open>MessageDecoder\<close>) and the table that
  finds its receiver (\<^verbatim>\<open>MessageReceiverMap\<close>).
\<close>

subsection \<open>Types and values of arguments\<close>

text \<open>
  \<open>T_int k\<close> is any arithmetic type of \<open>k\<close> bytes (integers and floating-point numbers by their
  bits), \<open>T_enum\<close> an enumeration, \<open>T_pod n a\<close> a plain structure of \<open>n\<close> bytes aligned to \<open>a\<close>,
  \<open>T_ints k\<close> a vector of an arithmetic type, \<open>T_vector\<close> a vector of any other type.
\<close>

datatype ipc_type =
    T_bool
  | T_int nat
  | T_enum
  | T_pod nat nat
  | T_data
  | T_cstring
  | T_string
  | T_pair ipc_type ipc_type
  | T_ints nat
  | T_vector ipc_type
  | T_map ipc_type ipc_type

datatype ipc_value =
    V_bool bool
  | V_int nat
  | V_bytes "byte list"
  | V_cstring c_string_value
  | V_string wtf_text
  | V_pair ipc_value ipc_value
  | V_ints "nat list"
  | V_vector "ipc_value list"
  | V_map "(ipc_value \<times> ipc_value) list"

text \<open>The parts of a value.\<close>

fun the_bool :: "ipc_value \<Rightarrow> bool" where
  "the_bool (V_bool b) = b"
| "the_bool _ = False"

fun the_int :: "ipc_value \<Rightarrow> nat" where
  "the_int (V_int n) = n"
| "the_int _ = 0"

fun the_bytes :: "ipc_value \<Rightarrow> byte list" where
  "the_bytes (V_bytes bs) = bs"
| "the_bytes _ = []"

fun the_cstring :: "ipc_value \<Rightarrow> c_string_value" where
  "the_cstring (V_cstring s) = s"
| "the_cstring _ = None"

fun the_string :: "ipc_value \<Rightarrow> wtf_text" where
  "the_string (V_string s) = s"
| "the_string _ = Null_string"

fun the_pair :: "ipc_value \<Rightarrow> ipc_value \<times> ipc_value" where
  "the_pair (V_pair x y) = (x, y)"
| "the_pair v = (v, v)"

fun the_ints :: "ipc_value \<Rightarrow> nat list" where
  "the_ints (V_ints ns) = ns"
| "the_ints _ = []"

fun the_vector :: "ipc_value \<Rightarrow> ipc_value list" where
  "the_vector (V_vector vs) = vs"
| "the_vector _ = []"

fun the_map :: "ipc_value \<Rightarrow> (ipc_value \<times> ipc_value) list" where
  "the_map (V_map kvs) = kvs"
| "the_map _ = []"

text \<open>
  The keys a hash table reserves: 0 and the largest number of an unsigned type, the null string.
\<close>

definition reserved_key :: "ipc_type \<Rightarrow> ipc_value \<Rightarrow> bool" where
  "reserved_key t v = (case t of
     T_int k \<Rightarrow> the_int v = 0 \<or> the_int v = 256 ^ k - 1
   | T_string \<Rightarrow> the_string v = Null_string
   | _ \<Rightarrow> False)"

text \<open>\<^verbatim>\<open>encoder << t\<close>: the coder that the type selects.\<close>

primrec encode_arg :: "(nat \<Rightarrow> byte) \<Rightarrow> ipc_type \<Rightarrow> ipc_value \<Rightarrow> encoder \<Rightarrow> encoder" where
  "encode_arg junk T_bool = (\<lambda>v. encode_bool junk (the_bool v))"
| "encode_arg junk (T_int k) = (\<lambda>v. encode_int junk k (the_int v))"
| "encode_arg junk T_enum = (\<lambda>v. encode_int junk 8 (the_int v))"
| "encode_arg junk (T_pod n a) = (\<lambda>v. encodeFixedLengthData junk (the_bytes v) a)"
| "encode_arg junk T_data = (\<lambda>v. encodeVariableLengthByteArray junk (the_bytes v))"
| "encode_arg junk T_cstring = (\<lambda>v. encode_CString junk (the_cstring v))"
| "encode_arg junk T_string = (\<lambda>v. encode_String junk (the_string v))"
| "encode_arg junk (T_pair t u) = (\<lambda>v. encode_pair (encode_arg junk t) (encode_arg junk u) (the_pair v))"
| "encode_arg junk (T_ints k) = (\<lambda>v. encode_vector_int junk k (the_ints v))"
| "encode_arg junk (T_vector t) = (\<lambda>v. encode_vector junk (encode_arg junk t) (the_vector v))"
| "encode_arg junk (T_map t u) = (\<lambda>v. encode_hash_map junk (encode_arg junk t) (encode_arg junk u) (the_map v))"

definition dmap :: "('a \<Rightarrow> 'b) \<Rightarrow> 'a dec \<Rightarrow> 'b dec" where
  "dmap f g = dbind g (\<lambda>x. dreturn (f x))"

primrec decode_arg :: "ipc_type \<Rightarrow> ipc_value dec" where
  "decode_arg T_bool = dmap V_bool decode_bool"
| "decode_arg (T_int k) = dmap V_int (decode_int k)"
| "decode_arg T_enum = dmap V_int (decode_int 8)"
| "decode_arg (T_pod n a) = dmap V_bytes (decodeFixedLengthData n a)"
| "decode_arg T_data = dmap V_bytes decodeVariableLengthByteArray"
| "decode_arg T_cstring = dmap V_cstring decode_CString"
| "decode_arg T_string = dmap V_string decode_String"
| "decode_arg (T_pair t u) = dmap (\<lambda>(x, y). V_pair x y) (decode_pair (decode_arg t) (decode_arg u))"
| "decode_arg (T_ints k) = dmap V_ints (decode_vector_int k)"
| "decode_arg (T_vector t) = dmap V_vector (decode_vector (decode_arg t))"
| "decode_arg (T_map t u) = dmap V_map (decode_hash_map (reserved_key t) (decode_arg t) (decode_arg u))"

text \<open>The types the code has: the sizes of machine types, keys that are numbers or strings.\<close>

primrec wf_type :: "ipc_type \<Rightarrow> bool" where
  "wf_type T_bool = True"
| "wf_type (T_int k) = (k \<in> alignments)"
| "wf_type T_enum = True"
| "wf_type (T_pod n a) = (0 < n \<and> n < 2 ^ 64 \<and> a \<in> alignments)"
| "wf_type T_data = True"
| "wf_type T_cstring = True"
| "wf_type T_string = True"
| "wf_type (T_pair t u) = (wf_type t \<and> wf_type u)"
| "wf_type (T_ints k) = (k \<in> alignments)"
| "wf_type (T_vector t) = wf_type t"
| "wf_type (T_map t u) = (wf_type t \<and> (t = T_string \<or> (\<exists>k. t = T_int k)) \<and> wf_type u)"

text \<open>The values of a type that an object of the running program can have.\<close>

primrec has_type :: "ipc_type \<Rightarrow> ipc_value \<Rightarrow> bool" where
  "has_type T_bool v \<longleftrightarrow> v = V_bool (the_bool v)"
| "has_type (T_int k) v \<longleftrightarrow> v = V_int (the_int v) \<and> the_int v < 256 ^ k"
| "has_type T_enum v \<longleftrightarrow> v = V_int (the_int v) \<and> the_int v < 256 ^ 8"
| "has_type (T_pod n a) v \<longleftrightarrow> v = V_bytes (the_bytes v) \<and> length (the_bytes v) = n"
| "has_type T_data v \<longleftrightarrow> v = V_bytes (the_bytes v) \<and> length (the_bytes v) < 2 ^ 64"
| "has_type T_cstring v \<longleftrightarrow> v = V_cstring (the_cstring v) \<and>
     (case the_cstring v of None \<Rightarrow> True | Some bs \<Rightarrow> length bs < 2 ^ 32 - 1)"
| "has_type T_string v \<longleftrightarrow> v = V_string (the_string v) \<and> text_ok (the_string v)"
| "has_type (T_pair t u) v \<longleftrightarrow> v = V_pair (fst (the_pair v)) (snd (the_pair v)) \<and>
     has_type t (fst (the_pair v)) \<and> has_type u (snd (the_pair v))"
| "has_type (T_ints k) v \<longleftrightarrow> v = V_ints (the_ints v) \<and>
     length (the_ints v) < 2 ^ 64 \<and> (\<forall>n \<in> set (the_ints v). n < 256 ^ k)"
| "has_type (T_vector t) v \<longleftrightarrow> v = V_vector (the_vector v) \<and>
     length (the_vector v) < 2 ^ 64 \<and> (\<forall>x \<in> set (the_vector v). has_type t x)"
| "has_type (T_map t u) v \<longleftrightarrow> v = V_map (the_map v) \<and>
     length (the_map v) < 2 ^ 64 \<and> distinct (map fst (the_map v)) \<and>
     (\<forall>p \<in> set (the_map v). has_type t (fst p) \<and> has_type u (snd p) \<and> \<not> reserved_key t (fst p))"

subsection \<open>Round trip\<close>

lemma dmap_coder:
  assumes c: "coder enc dec ok" and ok: "\<And>v. ok' v \<Longrightarrow> v = con (sel v) \<and> ok (sel v)"
  shows "coder (\<lambda>v. enc (sel v)) (dmap con dec) ok'"
proof (rule coder_map [OF c])
  show "ok (sel v)" if "ok' v" for v using ok [OF that] ..
  show "dmap con dec d = (Value v, d')" if "ok' v" and "dec d = (Value (sel v), d')" for v d d'
    using that ok [OF that(1)] by (simp add: dmap_def dbind_def dreturn_def)
qed simp

lemma arg_coder: "wf_type t \<Longrightarrow> coder (encode_arg junk t) (decode_arg t) (has_type t)"
proof (induction t)
  case T_bool
  show ?case unfolding encode_arg.simps decode_arg.simps
    by (rule dmap_coder [OF bool_coder.coder_axioms]) simp
next
  case (T_int k)
  then show ?case unfolding encode_arg.simps decode_arg.simps
    by (intro dmap_coder [OF int_coder]) simp_all
next
  case T_enum
  then show ?case unfolding encode_arg.simps decode_arg.simps
    by (intro dmap_coder [OF int_coder]) simp_all
next
  case (T_pod n a)
  then show ?case unfolding encode_arg.simps decode_arg.simps
    by (intro dmap_coder [OF fixed_coder]) simp_all
next
  case T_data
  show ?case unfolding encode_arg.simps decode_arg.simps
    by (rule dmap_coder [OF data_coder.coder_axioms]) simp
next
  case T_cstring
  show ?case unfolding encode_arg.simps decode_arg.simps
    by (rule dmap_coder [OF cstring_coder.coder_axioms]) simp
next
  case T_string
  show ?case unfolding encode_arg.simps decode_arg.simps
    by (rule dmap_coder [OF string_coder.coder_axioms]) simp
next
  case (T_pair t u)
  then show ?case unfolding encode_arg.simps decode_arg.simps
    by (intro dmap_coder [OF pair_coder [of _ _ "has_type t" _ _ "has_type u"]]) (simp_all add: case_prod_beta)
next
  case (T_ints k)
  then show ?case unfolding encode_arg.simps decode_arg.simps
    by (intro dmap_coder [OF vector_int_coder]) simp_all
next
  case (T_vector t)
  then show ?case unfolding encode_arg.simps decode_arg.simps
    by (intro dmap_coder [OF coder.vector_coder]) auto
next
  case (T_map t u)
  then show ?case unfolding encode_arg.simps decode_arg.simps
    by (intro dmap_coder [OF hash_map_coder]) auto
qed


subsection \<open>Arbitrary bytes\<close>

text \<open>
  What a decoding step that started at offset \<open>m\<close> may lead to: it never moves backwards, and a
  value takes at least \<open>n\<close> bytes; after a failure the decoder is invalid; after a success, and when
  it stops at an undefined value, it is still inside the buffer; it does not read outside.
\<close>

definition lands :: "nat \<Rightarrow> decoder \<Rightarrow> nat \<Rightarrow> 'a decoded \<times> decoder \<Rightarrow> bool" where
  "lands n d m res \<longleftrightarrow> (\<exists>m'. snd res = d_at d m' \<and> m \<le> m' \<and>
     (case fst res of
        Fault q \<Rightarrow> q \<noteq> OutOfBoundsRead \<and> m' \<le> length (d_mem d)
      | Fail \<Rightarrow> m' = length (d_mem d) + 1
      | Value x \<Rightarrow> m + n \<le> m' \<and> m' \<le> length (d_mem d)))"

text \<open>\<open>continues f\<close>: a step taken inside the buffer.\<close>

definition continues :: "'a dec \<Rightarrow> bool" where
  "continues f \<longleftrightarrow> (\<forall>d m. dec_wf d \<longrightarrow> m \<le> length (d_mem d) \<longrightarrow> lands 0 d m (f (d_at d m)))"

text \<open>
  The contract of a decoding function: from any position, also that of an invalid decoder; a value
  takes at least one byte.
\<close>

locale reader =
  fixes dec :: "'a dec"
  assumes step: "\<lbrakk>dec_wf d; m \<le> length (d_mem d) + 1\<rbrakk> \<Longrightarrow> lands 1 d m (dec (d_at d m))"
begin

lemma continues_dec: "continues dec"
  unfolding continues_def
proof (intro allI impI)
  fix d :: decoder and m
  assume "dec_wf d" and "m \<le> length (d_mem d)"
  then have "lands 1 d m (dec (d_at d m))" by (intro step) simp_all
  then show "lands 0 d m (dec (d_at d m))"
    by (auto simp: lands_def split: decoded.split)
qed

lemma stays_invalid:
  assumes "dec_wf d"
  shows "dec (d_at d (length (d_mem d) + 1)) = (Fail, d_at d (length (d_mem d) + 1))"
proof -
  obtain r d' where res: "dec (d_at d (length (d_mem d) + 1)) = (r, d')" by fastforce
  with step [OF assms, of "length (d_mem d) + 1"] show ?thesis
    by (cases r) (auto simp: lands_def)
qed

end

lemma lands_dbind:
  assumes f: "lands n d m (f (d_at d m))" and d: "dec_wf d" and g: "\<And>x. continues (g x)"
  shows "lands n d m (dbind f g (d_at d m))"
proof -
  obtain r d' where res: "f (d_at d m) = (r, d')" by fastforce
  show ?thesis
  proof (cases r)
    case (Value x)
    then obtain m' where m': "d' = d_at d m'" "m + n \<le> m'" "m' \<le> length (d_mem d)"
      using f res by (auto simp: lands_def)
    then have "lands 0 d m' (g x (d_at d m'))" using g [of x] d by (simp add: continues_def)
    then show ?thesis
      using res Value m' by (auto simp: lands_def dbind_def split: decoded.splits)
  qed (use f res in \<open>auto simp: lands_def dbind_def\<close>)
qed

lemma continues_dbind: "\<lbrakk>continues f; \<And>x. continues (g x)\<rbrakk> \<Longrightarrow> continues (dbind f g)"
  unfolding continues_def [of f] continues_def [of "dbind f g"] by (blast intro: lands_dbind)

lemma continues_dreturn: "continues (dreturn x)"
  by (auto simp: continues_def lands_def dreturn_def)

lemma reader_dbind: "\<lbrakk>reader f; \<And>x. continues (g x)\<rbrakk> \<Longrightarrow> reader (dbind f g)"
  unfolding reader_def by (blast intro: lands_dbind)

lemma continues_if: "\<lbrakk>continues f; continues g\<rbrakk> \<Longrightarrow> continues (if b then f else g)"
  by simp

lemma continues_fail: "continues (\<lambda>d. (Fail, markInvalid d))"
  by (auto simp: continues_def lands_def markInvalid_eq)

lemma continues_fault: "q \<noteq> OutOfBoundsRead \<Longrightarrow> continues (\<lambda>d. (Fault q, d))"
  by (auto simp: continues_def lands_def)

lemma continues_test:
  "\<lbrakk>continues f; continues g\<rbrakk> \<Longrightarrow> continues (\<lambda>d. if b d then f d else g d)"
  by (simp add: continues_def)

lemmas continues_intros =
  continues_dbind continues_dreturn continues_if continues_fail continues_fault continues_test
  reader.continues_dec

lemma fixed_lands:
  assumes a: "a \<in> alignments" and n: "n < 2 ^ 64" and d: "dec_wf d" and m: "m \<le> length (d_mem d) + 1"
  shows "lands n d m (decodeFixedLengthData n a (d_at d m))"
proof -
  have "0 < a" using a by (auto simp: alignments_def)
  then have "m \<le> roundUpToAlignment m a" by (rule roundUp_ge)
  then show ?thesis using m by (auto simp: decodeFixedLengthData_at [OF d a m n] lands_def)
qed

lemma fixed_continues: "\<lbrakk>a \<in> alignments; n < 2 ^ 64\<rbrakk> \<Longrightarrow> continues (decodeFixedLengthData n a)"
  unfolding continues_def
proof (intro allI impI)
  fix d :: decoder and m
  assume "a \<in> alignments" "n < 2 ^ 64" "dec_wf d" "m \<le> length (d_mem d)"
  then have "lands n d m (decodeFixedLengthData n a (d_at d m))" by (intro fixed_lands) simp_all
  then show "lands 0 d m (decodeFixedLengthData n a (d_at d m))"
    by (auto simp: lands_def split: decoded.splits)
qed

lemma fixed_reader: "\<lbrakk>a \<in> alignments; 0 < n; n < 2 ^ 64\<rbrakk> \<Longrightarrow> reader (decodeFixedLengthData n a)"
proof
  fix d :: decoder and m
  assume n: "0 < n" and "a \<in> alignments" "n < 2 ^ 64" "dec_wf d" "m \<le> length (d_mem d) + 1"
  then have "lands n d m (decodeFixedLengthData n a (d_at d m))" by (intro fixed_lands) simp_all
  then show "lands 1 d m (decodeFixedLengthData n a (d_at d m))"
    using n by (auto simp: lands_def split: decoded.splits)
qed

lemma int_reader: "k \<in> alignments \<Longrightarrow> reader (decode_int k)"
  unfolding decode_int_def
  by (intro reader_dbind fixed_reader continues_dreturn) (auto simp: alignments_def)

lemma unat_less: "unat (w :: 'a::len word) < 2 ^ LENGTH('a)"
  by (rule unsigned_less)

interpretation uint32_reader: reader decode_uint32
  unfolding decode_uint32_def by (intro reader_dbind int_reader continues_dreturn) simp

interpretation uint64_reader: reader decode_uint64
  unfolding decode_uint64_def by (intro reader_dbind int_reader continues_dreturn) simp

interpretation bool_reader: reader decode_bool
  unfolding decode_bool_def by (intro reader_dbind int_reader continues_test) (auto simp: continues_def lands_def)

interpretation data_reader: reader decodeVariableLengthByteArray
  unfolding decodeVariableLengthByteArray_eq
  by (intro reader_dbind uint64_reader.reader_axioms fixed_continues)
    (use unat_less [where 'a = 64] in \<open>simp_all\<close>)

lemma unat_times: "k \<in> alignments \<Longrightarrow> unat (len :: 32 word) * k < 2 ^ 64"
  using unat_less [of len] by (auto simp: alignments_def)

interpretation cstring_reader: reader decode_CString
  unfolding decode_CString_def
  by (intro reader_dbind uint32_reader.reader_axioms continues_intros fixed_continues)
    (use unat_times [of 1] in \<open>simp_all add: alignments_def\<close>)

lemma text_continues: "k \<in> alignments \<Longrightarrow> continues (decodeStringText k len)"
  unfolding decodeStringText_def
  by (intro continues_intros fixed_continues unat_times)

interpretation string_reader: reader decode_String
  unfolding decode_String_def
  by (intro reader_dbind uint32_reader.reader_axioms continues_if continues_dbind continues_dreturn
      bool_reader.continues_dec text_continues) simp_all

lemma pair_reader: "\<lbrakk>reader f; reader g\<rbrakk> \<Longrightarrow> reader (decode_pair f g)"
  unfolding decode_pair_def by (intro reader_dbind continues_intros)

context reader
begin

lemma elements_continue: "continues (decode_elements dec n)"
  by (induction n) (simp_all add: continues_dreturn continues_dbind continues_dec)

lemma vector_reader: "reader (decode_vector dec)"
  unfolding decode_vector_def
  by (intro reader_dbind uint64_reader.reader_axioms elements_continue)

lemma entries_continue: "reader f \<Longrightarrow> continues (decode_entries reserved dec f n acc)"
proof (induction n arbitrary: acc)
  case 0
  then show ?case by (simp add: continues_dreturn)
next
  case (Suc n)
  show ?case
    unfolding decode_entries.simps
    by (intro continues_dbind continues_dec reader.continues_dec [OF Suc.prems] continues_test
        continues_fail continues_fault Suc.IH [OF Suc.prems]) simp
qed

lemma hash_map_reader: "reader f \<Longrightarrow> reader (decode_hash_map reserved dec f)"
  unfolding decode_hash_map_def
  by (intro reader_dbind uint64_reader.reader_axioms entries_continue)

end

text \<open>
  The vector of numbers ignores the result of its one read; after the size test that read cannot
  fail.
\<close>

lemma vector_int_read:
  assumes k: "k \<in> alignments" and d: "dec_wf d" and m: "m \<le> length (d_mem d) + 1"
    and fit: "bufferIsLargeEnoughToContainElements k w (d_at d m)"
  shows "\<exists>bs. length bs = unat w * k \<and> roundUpToAlignment m k + unat w * k \<le> length (d_mem d) \<and>
    decodeFixedLengthData (unat w * k) k (d_at d m) = (Value bs, d_at d (roundUpToAlignment m k + unat w * k))"
proof -
  have le: "roundUpToAlignment m k + unat w * k \<le> length (d_mem d)"
    using fit by (simp only: elements_fit_iff [OF d k m])
  then have "unat w * k < 2 ^ 64" using d by (simp add: dec_wf_def)
  from decodeFixedLengthData_at [OF d k m this] le show ?thesis by simp
qed

lemma vector_int_reader: "k \<in> alignments \<Longrightarrow> reader (decode_vector_int k)"
  unfolding decode_vector_int_def
proof (intro reader_dbind uint64_reader.reader_axioms)
  fix w :: "64 word"
  assume k: "k \<in> alignments"
  then have k0: "0 < k" by (auto simp: alignments_def)
  let ?f = "\<lambda>d. if \<not> bufferIsLargeEnoughToContainElements k w d then (Fail, markInvalid d)
     else (case decodeFixedLengthData (unat w * k) k d of
         (Fault r, d) \<Rightarrow> (Fault r, d)
       | (Fail, d) \<Rightarrow> (Value (replicate (unat w) 0), d)
       | (Value bs, d) \<Rightarrow> (Value (split_ints k bs), d))"
  show "continues ?f"
    unfolding continues_def
  proof (intro allI impI)
    fix d :: decoder and m
    assume d: "dec_wf d" and m: "m \<le> length (d_mem d)"
    show "lands 0 d m (?f (d_at d m))"
    proof (cases "bufferIsLargeEnoughToContainElements k w (d_at d m)")
      case True
      have "m \<le> roundUpToAlignment m k" by (rule roundUp_ge [OF k0])
      then show ?thesis using vector_int_read [OF k d _ True] m True by (auto simp: lands_def)
    next
      case False
      then show ?thesis using m by (auto simp: lands_def markInvalid_eq)
    qed
  qed
qed

lemma dmap_reader: "reader f \<Longrightarrow> reader (dmap h f)"
  unfolding dmap_def by (intro reader_dbind continues_dreturn)

lemma arg_reader: "wf_type t \<Longrightarrow> reader (decode_arg t)"
proof (induction t)
  case (T_int k) then show ?case by (simp add: dmap_reader int_reader)
next
  case T_enum then show ?case by (simp add: dmap_reader int_reader)
next
  case (T_pod n a) then show ?case by (simp add: dmap_reader fixed_reader)
next
  case (T_pair t u) then show ?case by (simp add: dmap_reader pair_reader)
next
  case (T_ints k) then show ?case by (simp add: dmap_reader vector_int_reader)
next
  case (T_vector t) then show ?case by (simp add: dmap_reader reader.vector_reader)
next
  case (T_map t u) then show ?case by (simp add: dmap_reader reader.hash_map_reader)
qed (simp_all add: dmap_reader bool_reader.reader_axioms data_reader.reader_axioms
    cstring_reader.reader_axioms string_reader.reader_axioms)

subsection \<open>What the processes can rely on\<close>

definition argument_bytes :: "(nat \<Rightarrow> byte) \<Rightarrow> ipc_type \<Rightarrow> ipc_value \<Rightarrow> byte list" where
  "argument_bytes junk t v = e_content (encode_arg junk t v (ArgumentEncoder junk))"

lemma ArgumentDecoder_at: "ArgumentDecoder base bs atts = d_at (ArgumentDecoder base bs atts) 0"
  by (simp add: ArgumentDecoder_def d_at_def)

lemma d_at_isInvalid:
  assumes "dec_wf d" and "m \<le> length (d_mem d) + 1"
  shows "isInvalid (d_at d m) \<longleftrightarrow> m = length (d_mem d) + 1"
proof -
  have "unat (d_pos (d_at d m)) = unat (d_base d) + m"
    using unat_offset [OF assms(1), of m] assms(2) by (simp add: d_at_def)
  then show ?thesis
    using unat_d_end [OF assms(1)] assms(2) by (auto simp: isInvalid_def word_less_nat_alt)
qed

text \<open>C11: What a process encodes, of any type that a message argument can have, the other process
  decodes to the same value, and it has then read exactly the bytes of the argument; neither the bytes
  that pad it nor those that follow it matter.\<close>

theorem arguments_round_trip:
  assumes "wf_type t" and "has_type t v"
    and "dec_wf (ArgumentDecoder base (argument_bytes junk t v @ rest) atts)"
  shows "decode_arg t (ArgumentDecoder base (argument_bytes junk t v @ rest) atts)
    = (Value v, d_at (ArgumentDecoder base (argument_bytes junk t v @ rest) atts) (length (argument_bytes junk t v)))"
proof -
  let ?e = "encode_arg junk t v (ArgumentEncoder junk)"
  let ?d = "ArgumentDecoder base (argument_bytes junk t v @ rest) atts"
  note c = arg_coder [OF assms(1), of junk]
  have "enc_wf ?e" using coder.enc_keeps [OF c assms(2)] by simp
  then have len: "length (argument_bytes junk t v) = e_size ?e" by (simp add: argument_bytes_def)
  have "reads ?d ?e" by (simp add: reads_def ArgumentDecoder_def argument_bytes_def)
  then have "decode_arg t (d_at ?d (e_size (ArgumentEncoder junk))) = (Value v, d_at ?d (e_size ?e))"
    using assms(3) by (intro coder.dec_enc [OF c assms(2)]) simp_all
  then show ?thesis using ArgumentDecoder_at [of base "argument_bytes junk t v @ rest" atts] len by simp
qed

lemma e_size_encodeFixed: "e_size (encodeFixedLengthData junk bs a e) = roundUpToAlignment (e_size e) a + length bs"
  by (simp add: encodeFixedLengthData_def grow_def store_def Let_def)

lemmas encoded_size = encode_arg.simps encode_pair_def encode_String_def encode_vector_def encode_vector_int_def
  encode_bool_def encode_uint32_def encode_uint64_def encode_int_def e_size_encodeFixed

lemma length_argument_bytes:
  "\<lbrakk>wf_type t; has_type t v\<rbrakk> \<Longrightarrow> length (argument_bytes junk t v) = e_size (encode_arg junk t v (ArgumentEncoder junk))"
  using coder.enc_keeps [OF arg_coder [of t junk], of v "ArgumentEncoder junk"] by (simp add: argument_bytes_def)

definition sample_type :: ipc_type where
  "sample_type = T_pair T_string (T_vector (T_ints 4))"

definition sample_value :: ipc_value where
  "sample_value = V_pair (V_string (Chars8 [104, 105])) (V_vector [V_ints [7, 70000], V_ints []])"

lemma sample_ok: "wf_type sample_type" "has_type sample_type sample_value"
  "length (argument_bytes junk sample_type sample_value) = 40"
proof -
  show w: "wf_type sample_type" by (simp add: sample_type_def)
  show t: "has_type sample_type sample_value" by (simp add: sample_type_def sample_value_def text_ok_def)
  show "length (argument_bytes junk sample_type sample_value) = 40"
    using length_argument_bytes [OF w t, of junk]
    by (simp add: sample_type_def sample_value_def encoded_size roundUpToAlignment_def)
qed

theorem arguments_round_trip_witness:
  "decode_arg sample_type (ArgumentDecoder 4096 (argument_bytes (\<lambda>_. 170) sample_type sample_value @ [1, 2]) [])
    = (Value sample_value,
       d_at (ArgumentDecoder 4096 (argument_bytes (\<lambda>_. 170) sample_type sample_value @ [1, 2]) []) 40)"
  using arguments_round_trip [OF sample_ok(1,2), of 4096 "\<lambda>_. 170" "[1, 2]" "[]"] sample_ok(3)
  by (simp add: dec_wf_def ArgumentDecoder_def)

text \<open>C12: Whatever bytes arrive, decoding an argument of any type reads only inside the buffer, leaves
  the buffer alone, and reports failure exactly when it has marked the decoder invalid; an invalid
  decoder rejects every later argument.\<close>

theorem hostile_bytes:
  assumes "wf_type t" and "wf_type u" and "dec_wf (ArgumentDecoder base bs atts)"
  shows "case decode_arg t (ArgumentDecoder base bs atts) of (r, d') \<Rightarrow>
    r \<noteq> Fault OutOfBoundsRead \<and> d_mem d' = bs \<and> d_base d' = base \<and> dec_inv d' \<and>
    (isInvalid d' \<longleftrightarrow> r = Fail) \<and> (r = Fail \<longrightarrow> decode_arg u d' = (Fail, d'))"
proof -
  obtain r d' where res: "decode_arg t (ArgumentDecoder base bs atts) = (r, d')" by fastforce
  let ?d = "ArgumentDecoder base bs atts"
  have mem: "d_mem ?d = bs" "d_base ?d = base" by (simp_all add: ArgumentDecoder_def)
  have "lands 1 ?d 0 (decode_arg t (d_at ?d 0))" using arg_reader [OF assms(1)] assms(3) by (simp add: reader_def)
  then have "lands 1 ?d 0 (r, d')" using ArgumentDecoder_at [of base bs atts] res by simp
  then obtain m where m: "d' = d_at ?d m" "m \<le> length bs + 1" "r \<noteq> Fault OutOfBoundsRead"
      "r = Fail \<longleftrightarrow> m = length bs + 1"
    using mem by (cases r) (auto simp: lands_def)
  have inv: "isInvalid d' \<longleftrightarrow> r = Fail" using d_at_isInvalid [OF assms(3), of m] m mem by simp
  have "decode_arg u d' = (Fail, d')" if "r = Fail"
    using reader.stays_invalid [OF arg_reader [OF assms(2)] assms(3)] m(1,4) mem that by simp
  moreover have "dec_inv d'" unfolding dec_inv_def using m(1,2) mem assms(3) by (auto intro: exI [of _ m])
  ultimately show ?thesis using m inv mem res by simp
qed

theorem hostile_bytes_witness:
  "case decode_arg (T_vector T_string) (ArgumentDecoder 4096 [255, 255, 255, 255, 0, 0, 0, 0, 1, 0, 0, 0, 1, 104] []) of (r, d') \<Rightarrow>
    r \<noteq> Fault OutOfBoundsRead \<and> d_mem d' = [255, 255, 255, 255, 0, 0, 0, 0, 1, 0, 0, 0, 1, 104] \<and> d_base d' = 4096 \<and>
    dec_inv d' \<and> (isInvalid d' \<longleftrightarrow> r = Fail) \<and> (r = Fail \<longrightarrow> decode_arg T_data d' = (Fail, d'))"
  by (rule hostile_bytes [of "T_vector T_string" T_data 4096 "[255, 255, 255, 255, 0, 0, 0, 0, 1, 0, 0, 0, 1, 104]" "[]"])
    (simp_all add: dec_wf_def ArgumentDecoder_def)

lemma elements_length:
  assumes r: "reader f" and d: "dec_wf d"
  shows "\<lbrakk>m \<le> length (d_mem d); decode_elements f n (d_at d m) = (Value xs, d')\<rbrakk> \<Longrightarrow>
    length xs = n \<and> m + n \<le> length (d_mem d)"
proof (induction n arbitrary: m xs)
  case (Suc n)
  obtain q d1 where f: "f (d_at d m) = (q, d1)" by fastforce
  obtain x where q: "q = Value x" using Suc.prems(2) f by (cases q) (simp_all add: dbind_def)
  have "lands 1 d m (q, d1)" using reader.step [OF r d, of m] Suc.prems(1) f by simp
  then obtain m1 where m1: "d1 = d_at d m1" "m < m1" "m1 \<le> length (d_mem d)"
    using q by (auto simp: lands_def)
  obtain ys where "decode_elements f n (d_at d m1) = (Value ys, d')" and "xs = x # ys"
    using Suc.prems(2) f q m1(1)
    by (auto simp: dbind_def dreturn_def split: prod.splits decoded.splits)
  then show ?case using Suc.IH [OF m1(3)] m1(2) by fastforce
qed (auto simp: dreturn_def)

text \<open>A vector that a message makes the receiver build has fewer elements than the message has
  bytes, whatever number of elements the message claims.\<close>

theorem vector_bounded_by_message:
  assumes "wf_type t" and "dec_wf (ArgumentDecoder base bs atts)"
    and "fst (decode_arg (T_vector t) (ArgumentDecoder base bs atts)) = Value (V_vector vs)"
  shows "length vs < length bs"
proof -
  let ?d = "ArgumentDecoder base bs atts"
  have mem: "d_mem ?d = bs" by (simp add: ArgumentDecoder_def)
  obtain d' where d': "decode_arg (T_vector t) ?d = (Value (V_vector vs), d')" using assms(3) by (metis prod.collapse)
  obtain q d1 where q: "decode_uint64 ?d = (q, d1)" by fastforce
  obtain w where w: "q = Value w" and vs: "decode_elements (decode_arg t) (unat w) d1 = (Value vs, d')"
    using d' q by (cases q) (auto simp: decode_vector_def dmap_def dbind_def dreturn_def split: prod.splits decoded.splits)
  have "lands 1 ?d 0 (q, d1)"
    using uint64_reader.step [OF assms(2), of 0] q ArgumentDecoder_at [of base bs atts] by simp
  then obtain m where m: "d1 = d_at ?d m" "0 < m" "m \<le> length (d_mem ?d)"
    using w by (auto simp: lands_def)
  from elements_length [OF arg_reader [OF assms(1)] assms(2) m(3) vs [unfolded m(1)]] m(2) mem
  show ?thesis by simp
qed

definition sample_vector :: "byte list" where
  "sample_vector = argument_bytes (\<lambda>_. 0) (T_vector T_bool) (V_vector [V_bool True, V_bool False])"

lemma sample_vector_ok: "length sample_vector = 10" "dec_wf (ArgumentDecoder 4096 sample_vector [])"
  "fst (decode_arg (T_vector T_bool) (ArgumentDecoder 4096 sample_vector [])) = Value (V_vector [V_bool True, V_bool False])"
proof -
  have w: "wf_type (T_vector T_bool)" "has_type (T_vector T_bool) (V_vector [V_bool True, V_bool False])" by simp_all
  show len: "length sample_vector = 10"
    unfolding sample_vector_def using length_argument_bytes [OF w, of "\<lambda>_. 0"]
    by (simp add: encoded_size roundUpToAlignment_def)
  then show wf: "dec_wf (ArgumentDecoder 4096 sample_vector [])" by (simp add: dec_wf_def ArgumentDecoder_def)
  let ?e = "encode_arg (\<lambda>_. 0) (T_vector T_bool) (V_vector [V_bool True, V_bool False]) (ArgumentEncoder (\<lambda>_. 0))"
  have "reads (ArgumentDecoder 4096 sample_vector []) ?e"
    by (simp add: reads_def ArgumentDecoder_def sample_vector_def argument_bytes_def)
  from coder.dec_enc [OF arg_coder [OF w(1)] w(2) _ wf this] ArgumentDecoder_at [of 4096 sample_vector "[]"]
  show "fst (decode_arg (T_vector T_bool) (ArgumentDecoder 4096 sample_vector [])) = Value (V_vector [V_bool True, V_bool False])"
    by simp
qed

theorem vector_bounded_by_message_witness: "length [V_bool True, V_bool False] < length sample_vector"
  by (rule vector_bounded_by_message [OF _ sample_vector_ok(2,3)]) simp

end
