(* ===== verification/IPC_Header.thy ===== *)
theory IPC_Header
  imports IPC_Messages
begin

text \<open>
  The header in front of the arguments of a message (\<^verbatim>\<open>MessageEncoder\<close>,
  \<^verbatim>\<open>MessageDecoder\<close>) and the table that finds the receiver of a message by its name and
  destination (\<^verbatim>\<open>MessageReceiverMap\<close>).
\<close>

unbundle bit_operations_syntax

subsection \<open>Message encoder\<close>

definition SyncMessage :: byte where "SyncMessage = 1"

definition DispatchMessageWhenWaitingForSyncReply :: byte where
  "DispatchMessageWhenWaitingForSyncReply = 2"

definition MessageEncoder :: "(nat \<Rightarrow> byte) \<Rightarrow> byte list \<Rightarrow> byte list \<Rightarrow> 64 word \<Rightarrow> encoder" where
  "MessageEncoder junk messageReceiverName messageName destinationID =
     encode_uint64 junk destinationID
       (encodeVariableLengthByteArray junk messageName
         (encodeVariableLengthByteArray junk messageReceiverName
           (encode_uint8 junk 0 (ArgumentEncoder junk))))"

text \<open>A change of the first byte of the buffer, \<^verbatim>\<open>*buffer() |= flag\<close> or \<^verbatim>\<open>*buffer() &= ~flag\<close>.\<close>

definition update_flags :: "(byte \<Rightarrow> byte) \<Rightarrow> encoder \<Rightarrow> encoder" where
  "update_flags f e = e\<lparr>e_buffer := (e_buffer e)[0 := f (e_buffer e ! 0)]\<rparr>"

definition setIsSyncMessage :: "bool \<Rightarrow> encoder \<Rightarrow> encoder" where
  "setIsSyncMessage isSyncMessage =
     update_flags (\<lambda>b. if isSyncMessage then b OR SyncMessage else b AND NOT SyncMessage)"

definition setShouldDispatchMessageWhenWaitingForSyncReply :: "bool \<Rightarrow> encoder \<Rightarrow> encoder" where
  "setShouldDispatchMessageWhenWaitingForSyncReply shouldDispatch =
     update_flags (\<lambda>b. if shouldDispatch then b OR DispatchMessageWhenWaitingForSyncReply
       else b AND NOT DispatchMessageWhenWaitingForSyncReply)"

subsection \<open>Message decoder\<close>

record message =
  m_decoder :: decoder
  m_messageFlags :: byte
  m_messageReceiverName :: "byte list"
  m_messageName :: "byte list"
  m_destinationID :: "64 word"

text \<open>
  The constructor.  The flags and the destination have no initialiser: they are \<open>flags0\<close> and
  \<open>dest0\<close> until they are decoded.
\<close>

definition MessageDecoder :: "byte \<Rightarrow> 64 word \<Rightarrow> address \<Rightarrow> byte list \<Rightarrow> attachment list \<Rightarrow> message" where
  "MessageDecoder flags0 dest0 base buffer attachments =
     (let d = ArgumentDecoder base buffer attachments;
          m = \<lparr>m_decoder = d, m_messageFlags = flags0, m_messageReceiverName = [], m_messageName = [], m_destinationID = dest0\<rparr>
      in case decode_uint8 d of
        (Value f, d) \<Rightarrow>
          (let m = m\<lparr>m_decoder := d, m_messageFlags := f\<rparr>
           in case decodeVariableLengthByteArray d of
             (Value r, d) \<Rightarrow>
               (let m = m\<lparr>m_decoder := d, m_messageReceiverName := r\<rparr>
                in case decodeVariableLengthByteArray d of
                  (Value n, d) \<Rightarrow>
                    (let m = m\<lparr>m_decoder := d, m_messageName := n\<rparr>
                     in case decode_uint64 d of
                       (Value i, d) \<Rightarrow> m\<lparr>m_decoder := d, m_destinationID := i\<rparr>
                     | (_, d) \<Rightarrow> m\<lparr>m_decoder := d\<rparr>)
                | (_, d) \<Rightarrow> m\<lparr>m_decoder := d\<rparr>)
           | (_, d) \<Rightarrow> m\<lparr>m_decoder := d\<rparr>)
      | (_, d) \<Rightarrow> m\<lparr>m_decoder := d\<rparr>)"

definition isSyncMessage :: "message \<Rightarrow> bool" where
  "isSyncMessage m \<longleftrightarrow> m_messageFlags m AND SyncMessage \<noteq> 0"

definition shouldDispatchMessageWhenWaitingForSyncReply :: "message \<Rightarrow> bool" where
  "shouldDispatchMessageWhenWaitingForSyncReply m \<longleftrightarrow>
     m_messageFlags m AND DispatchMessageWhenWaitingForSyncReply \<noteq> 0"

subsection \<open>Message receivers\<close>

text \<open>\<open>'r\<close> is the type of references to receivers.  A set replaces what was there.\<close>

record 'r receiver_map =
  m_globalMessageReceivers :: "byte list \<rightharpoonup> 'r"
  m_messageReceivers :: "byte list \<times> 64 word \<rightharpoonup> 'r"

definition MessageReceiverMap :: "'r receiver_map" where
  "MessageReceiverMap = \<lparr>m_globalMessageReceivers = Map.empty, m_messageReceivers = Map.empty\<rparr>"

definition addMessageReceiver_global :: "byte list \<Rightarrow> 'r \<Rightarrow> 'r receiver_map \<Rightarrow> 'r receiver_map" where
  "addMessageReceiver_global n r m = m\<lparr>m_globalMessageReceivers := (m_globalMessageReceivers m)(n \<mapsto> r)\<rparr>"

definition addMessageReceiver :: "byte list \<Rightarrow> 64 word \<Rightarrow> 'r \<Rightarrow> 'r receiver_map \<Rightarrow> 'r receiver_map" where
  "addMessageReceiver n i r m = m\<lparr>m_messageReceivers := (m_messageReceivers m)((n, i) \<mapsto> r)\<rparr>"

definition removeMessageReceiver_global :: "byte list \<Rightarrow> 'r receiver_map \<Rightarrow> 'r receiver_map" where
  "removeMessageReceiver_global n m = m\<lparr>m_globalMessageReceivers := (m_globalMessageReceivers m)(n := None)\<rparr>"

definition removeMessageReceiver :: "byte list \<Rightarrow> 64 word \<Rightarrow> 'r receiver_map \<Rightarrow> 'r receiver_map" where
  "removeMessageReceiver n i m = m\<lparr>m_messageReceivers := (m_messageReceivers m)((n, i) := None)\<rparr>"

definition receiver_map_invalidate :: "'r receiver_map \<Rightarrow> 'r receiver_map" where
  "receiver_map_invalidate m = m\<lparr>m_globalMessageReceivers := Map.empty, m_messageReceivers := Map.empty\<rparr>"

text \<open>
  The receiver whose \<^verbatim>\<open>didReceiveMessage\<close> (or \<^verbatim>\<open>didReceiveSyncMessage\<close>) is called;
  \<open>None\<close> when the function returns \<^verbatim>\<open>false\<close>.
\<close>

definition dispatchMessage :: "'r receiver_map \<Rightarrow> message \<Rightarrow> 'r option" where
  "dispatchMessage m msg = (case m_globalMessageReceivers m (m_messageReceiverName msg) of
     Some r \<Rightarrow> Some r
   | None \<Rightarrow> m_messageReceivers m (m_messageReceiverName msg, m_destinationID msg))"

subsection \<open>Changing the flags of an encoded message\<close>

text \<open>Encoders that only append: they commute with a change of the first byte.\<close>

definition appends :: "(encoder \<Rightarrow> encoder) \<Rightarrow> bool" where
  "appends g \<longleftrightarrow> (\<forall>e f. enc_wf e \<longrightarrow> 0 < e_size e \<longrightarrow>
     g (update_flags f e) = update_flags f (g e) \<and> enc_wf (g e) \<and> 0 < e_size (g e))"

lemma update_flags_simps [simp]:
  "e_size (update_flags f e) = e_size e" "e_capacity (update_flags f e) = e_capacity e"
  "enc_wf (update_flags f e) = enc_wf e" "length (e_buffer (update_flags f e)) = length (e_buffer e)"
  by (simp_all add: update_flags_def e_capacity_def enc_wf_def)

lemma update_flags_compose: "update_flags f (update_flags g e) = update_flags (\<lambda>b. f (g b)) e"
  by (cases "e_buffer e") (simp_all add: update_flags_def)

lemma fixed_appends:
  assumes "0 < a"
  shows "appends (encodeFixedLengthData junk bs a)"
  unfolding appends_def
proof (intro allI impI conjI)
  fix e :: encoder and f
  assume wf: "enc_wf e" and pos: "0 < e_size e"
  have ne: "0 < length (e_buffer e)" using wf by (auto simp: enc_wf_def e_capacity_def)
  have off: "0 < roundUpToAlignment (e_size e) a" by (rule roundUp_pos [OF pos assms])
  show "encodeFixedLengthData junk bs a (update_flags f e) = update_flags f (encodeFixedLengthData junk bs a e)"
    using pos ne off
    by (auto simp: encodeFixedLengthData_def grow_def store_def update_flags_def e_capacity_def Let_def
        take_update_swap list_update_append nth_append)
  show "enc_wf (encodeFixedLengthData junk bs a e)" by (rule encodeFixed_keeps [OF wf assms])
  show "0 < e_size (encodeFixedLengthData junk bs a e)" using off by (simp add: e_size_encodeFixed)
qed

lemma appends_compose:
  assumes f: "appends f" and g: "appends g"
  shows "appends (\<lambda>e. f (g e))"
  unfolding appends_def
proof (intro allI impI)
  fix e :: encoder and h
  assume "enc_wf e" and "0 < e_size e"
  then have 1: "g (update_flags h e) = update_flags h (g e) \<and> enc_wf (g e) \<and> 0 < e_size (g e)"
    using g unfolding appends_def by blast
  then have "f (update_flags h (g e)) = update_flags h (f (g e)) \<and> enc_wf (f (g e)) \<and> 0 < e_size (f (g e))"
    using f unfolding appends_def by blast
  with 1 show "f (g (update_flags h e)) = update_flags h (f (g e)) \<and> enc_wf (f (g e)) \<and> 0 < e_size (f (g e))"
    by (simp only:)
qed

lemma appends_fold: "(\<And>x. appends (f x)) \<Longrightarrow> appends (fold f xs)"
proof (induction xs)
  case Nil
  then show ?case by (simp add: appends_def)
next
  case (Cons x xs)
  have "appends (\<lambda>e. fold f xs (f x e))"
    by (rule appends_compose [OF Cons.IH [OF Cons.prems] Cons.prems])
  then show ?case by (simp add: comp_def)
qed

lemma int_appends: "0 < k \<Longrightarrow> appends (encode_int junk k n)"
  unfolding encode_int_def by (rule fixed_appends)

lemma uint_appends: "appends (encode_uint8 junk b)" "appends (encode_uint32 junk w)"
  "appends (encode_uint64 junk i)" "appends (encode_bool junk c)"
  unfolding encode_uint8_def encode_uint32_def encode_uint64_def encode_bool_def by (rule int_appends; simp)+

lemma data_appends: "appends (encodeVariableLengthByteArray junk bs)"
  unfolding encodeVariableLengthByteArray_def
  by (rule appends_compose [of "encodeFixedLengthData junk bs 1", OF fixed_appends uint_appends(3)]) simp

lemma CString_appends: "appends (encode_CString junk c)"
proof (cases c)
  case None
  show ?thesis unfolding encode_CString_def None option.case by (rule uint_appends(2))
next
  case (Some bs)
  show ?thesis
    unfolding encode_CString_def Some option.case
    by (rule appends_compose [of "encodeFixedLengthData junk bs 1", OF fixed_appends uint_appends(2)]) simp
qed

lemma String_appends: "appends (encode_String junk s)"
proof -
  have h: "appends (\<lambda>e. encode_bool junk b (encode_uint32 junk w e))" for b w
    by (rule appends_compose [of "encode_bool junk b", OF uint_appends(4) uint_appends(2)])
  have t: "appends (\<lambda>e. encodeFixedLengthData junk bs a (encode_bool junk b (encode_uint32 junk w e)))"
    if "0 < a" for bs a b w
    by (rule appends_compose [of "encodeFixedLengthData junk bs a", OF fixed_appends [OF that] h])
  show ?thesis
    unfolding encode_String_def by (cases s) (simp_all only: wtf_text.case uint_appends(2) t zero_less_numeral zero_less_one)
qed

lemma vector_appends: "(\<And>x. appends (f x)) \<Longrightarrow> appends (encode_vector junk f xs)"
  unfolding encode_vector_def
  by (rule appends_compose [of "fold f xs", OF appends_fold uint_appends(3)])

lemma vector_int_appends: "0 < k \<Longrightarrow> appends (encode_vector_int junk k ns)"
  unfolding encode_vector_int_def
  by (rule appends_compose [of "encodeFixedLengthData junk (concat (map (le_bytes k) ns)) k", OF fixed_appends uint_appends(3)])

lemma pair_appends: "\<lbrakk>\<And>x. appends (f x); \<And>x. appends (g x)\<rbrakk> \<Longrightarrow> appends (encode_pair f g p)"
  unfolding encode_pair_def by (rule appends_compose [of "g (snd p)" "f (fst p)"])

lemma hash_map_appends:
  assumes "\<And>x. appends (f x)" and "\<And>x. appends (g x)"
  shows "appends (encode_hash_map junk f g kvs)"
  unfolding encode_hash_map_def
  by (rule appends_compose [of "fold (encode_pair f g) kvs", OF appends_fold [OF pair_appends [OF assms]] uint_appends(3)])

lemma arg_appends: "wf_type t \<Longrightarrow> appends (encode_arg junk t v)"
proof (induction t arbitrary: v)
  case (T_int k) then show ?case by (auto simp: alignments_def intro: int_appends)
next
  case T_enum then show ?case by (auto intro: int_appends)
next
  case (T_pod n a) then show ?case by (auto simp: alignments_def intro: fixed_appends)
next
  case (T_pair t u) then show ?case by (simp add: pair_appends)
next
  case (T_ints k) then show ?case by (auto simp: alignments_def intro: vector_int_appends)
next
  case (T_vector t) then show ?case by (simp add: vector_appends)
next
  case (T_map t u) then show ?case by (simp add: hash_map_appends)
qed (simp_all add: uint_appends data_appends CString_appends String_appends)

text \<open>The encoder of a message whose flags are \<open>w\<close> from the start.\<close>

definition header_encoder :: "(nat \<Rightarrow> byte) \<Rightarrow> byte \<Rightarrow> byte list \<Rightarrow> byte list \<Rightarrow> 64 word \<Rightarrow> encoder" where
  "header_encoder junk w r n i =
     encode_uint64 junk i (encodeVariableLengthByteArray junk n
       (encodeVariableLengthByteArray junk r (encode_uint8 junk w (ArgumentEncoder junk))))"

lemma MessageEncoder_eq: "MessageEncoder junk = header_encoder junk 0"
  by (simp add: MessageEncoder_def header_encoder_def fun_eq_iff)

lemma first_byte: "update_flags f (encode_uint8 junk w (ArgumentEncoder junk)) = encode_uint8 junk (f w) (ArgumentEncoder junk)"
proof -
  have "[0..<512] = 0 # [Suc 0..<512]" by (rule upt_conv_Cons) simp
  then have "map junk [0..<512] = junk 0 # map junk [Suc 0..<512]" by simp
  moreover have "unat v mod 256 = unat v" for v :: byte using unat_less [of v] by simp
  ultimately show ?thesis
    by (simp add: encode_uint8_def encode_int_def encodeFixedLengthData_def grow_def store_def
        ArgumentEncoder_def update_flags_def Let_def e_capacity_def roundUpToAlignment_def)
qed

lemma header_flags:
  assumes "wf_type t"
  shows "update_flags f (header_encoder junk w r n i) = header_encoder junk (f w) r n i"
    and "update_flags f (encode_arg junk t v (header_encoder junk w r n i))
      = encode_arg junk t v (header_encoder junk (f w) r n i)"
proof -
  let ?e = "\<lambda>w. encode_uint8 junk w (ArgumentEncoder junk)"
  let ?g = "\<lambda>e. encode_uint64 junk i (encodeVariableLengthByteArray junk n (encodeVariableLengthByteArray junk r e))"
  have wf: "enc_wf (?e w)" using uint8_coder.enc_keeps [OF TrueI] by simp
  have sz: "0 < e_size (?e w)" by (simp add: encode_uint8_def encode_int_def e_size_encodeFixed)
  have g: "appends ?g"
    by (rule appends_compose [OF uint_appends(3) appends_compose [OF data_appends data_appends]])
  have h: "appends (\<lambda>e. encode_arg junk t v (?g e))"
    by (rule appends_compose [OF arg_appends [OF assms] g])
  show "update_flags f (header_encoder junk w r n i) = header_encoder junk (f w) r n i"
    using g wf sz first_byte [of f junk w] unfolding appends_def header_encoder_def by metis
  show "update_flags f (encode_arg junk t v (header_encoder junk w r n i))
      = encode_arg junk t v (header_encoder junk (f w) r n i)"
    using h wf sz first_byte [of f junk w] unfolding appends_def header_encoder_def by metis
qed

text \<open>C13: A message arrives as it was sent: the receiver reads the receiver's name, the message's
  name, the destination, both flags and the arguments, although the sync flag is set before and the
  dispatch flag after the arguments are encoded.\<close>

theorem message_round_trip:
  assumes t: "wf_type t" "has_type t v" and len: "length r < 2 ^ 64" "length n < 2 ^ 64"
    and "buffer = e_content (setShouldDispatchMessageWhenWaitingForSyncReply dispatch
      (encode_arg junk t v (setIsSyncMessage sync (MessageEncoder junk r n i))))"
    and d: "dec_wf (ArgumentDecoder base buffer atts)"
  shows "let m = MessageDecoder flags0 dest0 base buffer atts in
    m_messageReceiverName m = r \<and> m_messageName m = n \<and> m_destinationID m = i \<and>
    isSyncMessage m = sync \<and> shouldDispatchMessageWhenWaitingForSyncReply m = dispatch \<and>
    fst (decode_arg t (m_decoder m)) = Value v"
proof -
  define w where "w = (if dispatch then (if sync then 3 else 2) else (if sync then 1 else (0 :: byte)))"
  let ?e1 = "encode_uint8 junk w (ArgumentEncoder junk)"
  let ?e2 = "encodeVariableLengthByteArray junk r ?e1"
  let ?e3 = "encodeVariableLengthByteArray junk n ?e2"
  let ?e4 = "encode_uint64 junk i ?e3"
  let ?e5 = "encode_arg junk t v ?e4"
  let ?d = "ArgumentDecoder base buffer atts"
  have "buffer = e_content (encode_arg junk t v (header_encoder junk w r n i))"
    unfolding assms(5) setShouldDispatchMessageWhenWaitingForSyncReply_def setIsSyncMessage_def MessageEncoder_eq
      header_flags [OF t(1)] w_def
    by (simp add: SyncMessage_def DispatchMessageWhenWaitingForSyncReply_def)
  then have r5: "reads ?d ?e5" by (simp add: reads_def ArgumentDecoder_def header_encoder_def)
  have w1: "enc_wf ?e1" using uint8_coder.enc_keeps [OF TrueI] by simp
  have w2: "enc_wf ?e2" by (rule data_coder.enc_keeps [OF len(1) w1])
  have w3: "enc_wf ?e3" by (rule data_coder.enc_keeps [OF len(2) w2])
  have w4: "enc_wf ?e4" by (rule uint64_coder.enc_keeps [OF TrueI w3])
  note c = arg_coder [OF t(1), of junk]
  have r4: "reads ?d ?e4" by (rule coder.reads_before [OF c t(2) w4 r5])
  have r3: "reads ?d ?e3" by (rule uint64_coder.reads_before [OF TrueI w3 r4])
  have r2: "reads ?d ?e2" by (rule data_coder.reads_before [OF len(2) w2 r3])
  have r1: "reads ?d ?e1" by (rule data_coder.reads_before [OF len(1) w1 r2])
  have "decode_uint8 (d_at ?d (e_size (ArgumentEncoder junk))) = (Value w, d_at ?d (e_size ?e1))"
    by (rule uint8_coder.dec_enc [OF TrueI _ d r1]) simp
  then have "decode_uint8 ?d = (Value w, d_at ?d (e_size ?e1))"
    using ArgumentDecoder_at [of base buffer atts] by simp
  moreover note data_coder.dec_enc [OF len(1) w1 d r2] data_coder.dec_enc [OF len(2) w2 d r3]
    uint64_coder.dec_enc [OF TrueI w3 d r4] coder.dec_enc [OF c t(2) w4 d r5]
  ultimately show ?thesis
    by (simp add: MessageDecoder_def Let_def isSyncMessage_def shouldDispatchMessageWhenWaitingForSyncReply_def
        w_def SyncMessage_def DispatchMessageWhenWaitingForSyncReply_def)
qed

lemma length_e_content_simp: "enc_wf e \<Longrightarrow> length (e_content e) = e_size e"
  by simp

definition sample_message :: "byte list" where
  "sample_message = e_content (setShouldDispatchMessageWhenWaitingForSyncReply True
     (encode_arg (\<lambda>_. 170) sample_type sample_value (setIsSyncMessage True (MessageEncoder (\<lambda>_. 170) [80] [71, 111] 7))))"

lemma length_sample_message: "length sample_message = 88"
proof -
  let ?h = "header_encoder (\<lambda>_. 170) 3 [80] [71, 111] 7"
  have eq: "sample_message = e_content (encode_arg (\<lambda>_. 170) sample_type sample_value ?h)"
    unfolding sample_message_def setShouldDispatchMessageWhenWaitingForSyncReply_def setIsSyncMessage_def
      MessageEncoder_eq header_flags [OF sample_ok(1)]
    by (simp add: SyncMessage_def DispatchMessageWhenWaitingForSyncReply_def)
  have "enc_wf ?h"
    unfolding header_encoder_def
    by (intro uint64_coder.enc_keeps data_coder.enc_keeps uint8_coder.enc_keeps) simp_all
  then have "enc_wf (encode_arg (\<lambda>_. 170) sample_type sample_value ?h)"
    by (rule coder.enc_keeps [OF arg_coder [OF sample_ok(1)] sample_ok(2)])
  then show ?thesis
    unfolding eq
    by (subst length_e_content_simp)
      (simp_all add: header_encoder_def encodeVariableLengthByteArray_def encode_uint8_def sample_type_def sample_value_def
        encoded_size roundUpToAlignment_def)
qed

theorem message_round_trip_witness:
  "let m = MessageDecoder 255 9 4096 sample_message [] in
    m_messageReceiverName m = [80] \<and> m_messageName m = [71, 111] \<and> m_destinationID m = 7 \<and>
    isSyncMessage m = True \<and> shouldDispatchMessageWhenWaitingForSyncReply m = True \<and>
    fst (decode_arg sample_type (m_decoder m)) = Value sample_value"
  by (rule message_round_trip [OF sample_ok(1,2) _ _ sample_message_def])
    (simp_all add: dec_wf_def ArgumentDecoder_def length_sample_message)

text \<open>A message cut off behind the name of its receiver is still delivered: nothing between the
  decoder and the receiver table looks at the validity of the decoder, the message has an empty name,
  and the destination that selects the receiver is the indeterminate contents of a field that was
  never assigned.\<close>

theorem truncated_header_is_dispatched:
  assumes len: "length r < 2 ^ 64"
    and buf: "buffer = e_content (encodeVariableLengthByteArray junk r (encode_uint8 junk w (ArgumentEncoder junk)))"
    and d: "dec_wf (ArgumentDecoder base buffer atts)"
    and g: "m_globalMessageReceivers receivers r = None"
  shows "let m = MessageDecoder flags0 dest0 base buffer atts in
    m_messageReceiverName m = r \<and> m_messageName m = [] \<and> m_destinationID m = dest0 \<and> isInvalid (m_decoder m) \<and>
    dispatchMessage (addMessageReceiver r dest0 x receivers) m = Some x"
proof -
  let ?e1 = "encode_uint8 junk w (ArgumentEncoder junk)"
  let ?e2 = "encodeVariableLengthByteArray junk r ?e1"
  let ?d = "ArgumentDecoder base buffer atts" and ?n = "length buffer"
  have mem: "d_mem ?d = buffer" by (simp add: ArgumentDecoder_def)
  have w1: "enc_wf ?e1" using uint8_coder.enc_keeps [OF TrueI] by simp
  have w2: "enc_wf ?e2" by (rule data_coder.enc_keeps [OF len w1])
  then have n: "e_size ?e2 = ?n" using buf by simp
  have r2: "reads ?d ?e2" using buf by (simp add: reads_def ArgumentDecoder_def)
  have r1: "reads ?d ?e1" by (rule data_coder.reads_before [OF len w1 r2])
  have "decode_uint8 (d_at ?d (e_size (ArgumentEncoder junk))) = (Value w, d_at ?d (e_size ?e1))"
    by (rule uint8_coder.dec_enc [OF TrueI _ d r1]) simp
  then have 1: "decode_uint8 ?d = (Value w, d_at ?d (e_size ?e1))"
    using ArgumentDecoder_at [of base buffer atts] by simp
  have 2: "decodeVariableLengthByteArray (d_at ?d (e_size ?e1)) = (Value r, d_at ?d ?n)"
    using data_coder.dec_enc [OF len w1 d r2] n by simp
  have "\<not> roundUpToAlignment ?n 8 + 8 \<le> ?n" using roundUp_ge [of 8 ?n] by simp
  then have "decodeFixedLengthData 8 8 (d_at ?d ?n) = (Fail, d_at ?d (?n + 1))"
    using decodeFixedLengthData_at [OF d, of 8 ?n 8] mem by simp
  then have 3: "decodeVariableLengthByteArray (d_at ?d ?n) = (Fail, d_at ?d (?n + 1))"
    by (simp add: decodeVariableLengthByteArray_eq decode_uint64_def decode_int_def dbind_def)
  have "isInvalid (d_at ?d (?n + 1))" using d_at_isInvalid [OF d] mem by simp
  then show ?thesis
    using 1 2 3 g by (simp add: MessageDecoder_def Let_def dispatchMessage_def addMessageReceiver_def)
qed

definition sample_truncated :: "byte list" where
  "sample_truncated = e_content (encodeVariableLengthByteArray (\<lambda>_. 0) [80] (encode_uint8 (\<lambda>_. 0) 0 (ArgumentEncoder (\<lambda>_. 0))))"

lemma length_sample_truncated: "length sample_truncated = 17"
  unfolding sample_truncated_def
  by (subst length_e_content_simp)
    (auto simp: encodeVariableLengthByteArray_def encode_uint8_def encoded_size roundUpToAlignment_def
      intro!: encodeFixed_keeps)

theorem truncated_header_is_dispatched_witness:
  "let m = MessageDecoder 255 9 4096 sample_truncated [] in
    m_messageReceiverName m = [80] \<and> m_messageName m = [] \<and> m_destinationID m = 9 \<and> isInvalid (m_decoder m) \<and>
    dispatchMessage (addMessageReceiver [80] 9 ''receiver'' MessageReceiverMap) m = Some ''receiver''"
  by (rule truncated_header_is_dispatched [OF _ sample_truncated_def])
    (simp_all add: dec_wf_def ArgumentDecoder_def length_sample_truncated MessageReceiverMap_def)

end
