(* ===== verification/IPC_Connection.thy ===== *)
theory IPC_Connection
  imports IPC_Header
begin

text \<open>
  The connection between two processes (\<^verbatim>\<open>Platform/IPC/Connection.cpp\<close>): incoming
  messages are routed on the connection's work queue and dispatched on the client's run loop; a
  thread that waits for the reply to a synchronous message keeps dispatching the messages that are
  marked for it.  Several connections share a run loop and its \<^verbatim>\<open>SyncMessageState\<close>, so the
  state is that of all of them.  Each definition is what one thread does between two points where
  it waits or calls the client; the code of the client is a parameter, and since it may do anything
  to the state, it also stands for what other threads do meanwhile.
\<close>

subsection \<open>State\<close>

text \<open>\<^verbatim>\<open>PendingSyncReply\<close>.\<close>

record pending_reply =
  pr_syncRequestID :: "64 word"
  pr_replyDecoder :: "message option"
  pr_didReceiveReply :: bool

definition PendingSyncReply :: "64 word \<Rightarrow> pending_reply" where
  "PendingSyncReply i = \<lparr>pr_syncRequestID = i, pr_replyDecoder = None, pr_didReceiveReply = False\<rparr>"

text \<open>\<^verbatim>\<open>SecondaryThreadPendingSyncReply\<close>: the reply and the semaphore.\<close>

record secondary_reply =
  sr_replyDecoder :: "message option"
  sr_signalled :: bool

type_synonym wait_key = "(byte list \<times> byte list) \<times> 64 word"

record conn =
  c_client :: bool
  c_syncRequestID :: "64 word"
  c_onlySendWhenProcessing :: bool
  c_shouldExitOnSyncMessageSendFailure :: bool
  c_hasDidCloseCallback :: bool
  c_isConnected :: bool
  c_workQueueMessageReceivers :: "byte list \<rightharpoonup> nat \<times> nat"
  c_inSendSyncCount :: "32 word"
  c_inDispatchMessageCount :: "32 word"
  c_inDispatchMarkedCount :: "32 word"
  c_didReceiveInvalidMessage :: bool
  c_incomingMessages :: "message list"
  c_outgoingMessages :: "encoder list"
  c_waitForMessageMap :: "wait_key \<rightharpoonup> message option"
  c_shouldWaitForSyncReplies :: bool
  c_pendingSyncReplies :: "pending_reply list"
  c_secondaryReplies :: "64 word \<rightharpoonup> secondary_reply"

text \<open>Work for the client's run loop, for a connection's queue, and for the queue of a receiver.\<close>

datatype task =
    DispatchMessagesForConnection nat
  | DispatchOneMessage nat
  | DispatchDidReceiveInvalidMessage nat "byte list" "byte list"
  | DispatchConnectionDidClose nat

datatype queue_task =
    SendOutgoingMessages nat
  | PlatformInvalidate nat
  | AddReceiver nat "byte list" nat nat
  | RemoveReceiver nat "byte list"

text \<open>What the client and the receivers are told.\<close>

datatype event =
    DidReceiveMessage nat message
  | DidReceiveSyncMessage nat message
  | DidReceiveInvalidMessage nat "byte list" "byte list"
  | DidClose nat
  | DidCloseOnWorkQueue nat
  | Sent nat encoder

record world =
  w_conns :: "nat \<Rightarrow> conn"
  w_didSchedule :: "nat set"
  w_syncMessages :: "(nat \<times> message) list"
  w_semaphore :: bool
  w_tasks :: "task list"
  w_queue_tasks :: "queue_task list"
  w_receiver_tasks :: "(nat \<times> nat \<times> nat \<times> message) list"
  w_exited :: bool
  w_log :: "event list"

definition upd :: "nat \<Rightarrow> (conn \<Rightarrow> conn) \<Rightarrow> world \<Rightarrow> world" where
  "upd c f w = w\<lparr>w_conns := (w_conns w)(c := f (w_conns w c))\<rparr>"

definition run_loop_dispatch :: "task \<Rightarrow> world \<Rightarrow> world" where
  "run_loop_dispatch t w = w\<lparr>w_tasks := w_tasks w @ [t]\<rparr>"

definition queue_dispatch :: "queue_task \<Rightarrow> world \<Rightarrow> world" where
  "queue_dispatch t w = w\<lparr>w_queue_tasks := w_queue_tasks w @ [t]\<rparr>"

definition log_event :: "event \<Rightarrow> world \<Rightarrow> world" where
  "log_event x w = w\<lparr>w_log := w_log w @ [x]\<rparr>"

text \<open>
  The code of the client: what a call of it does to the message (its decoder moves), to the reply
  and to the state.
\<close>

record client_code =
  cc_didReceiveMessage :: "nat \<Rightarrow> message \<Rightarrow> world \<Rightarrow> message \<times> world"
  cc_didReceiveSyncMessage :: "nat \<Rightarrow> message \<Rightarrow> encoder \<Rightarrow> world \<Rightarrow> message \<times> encoder option \<times> world"
  cc_didReceiveInvalidMessage :: "nat \<Rightarrow> byte list \<Rightarrow> byte list \<Rightarrow> world \<Rightarrow> world"
  cc_didClose :: "nat \<Rightarrow> world \<Rightarrow> world"

definition new_connection :: conn where
  "new_connection = \<lparr>c_client = True, c_syncRequestID = 0, c_onlySendWhenProcessing = False,
     c_shouldExitOnSyncMessageSendFailure = False, c_hasDidCloseCallback = False, c_isConnected = False,
     c_workQueueMessageReceivers = Map.empty, c_inSendSyncCount = 0, c_inDispatchMessageCount = 0,
     c_inDispatchMarkedCount = 0, c_didReceiveInvalidMessage = False, c_incomingMessages = [],
     c_outgoingMessages = [], c_waitForMessageMap = Map.empty, c_shouldWaitForSyncReplies = True,
     c_pendingSyncReplies = [], c_secondaryReplies = Map.empty\<rparr>"

definition isValid :: "nat \<Rightarrow> world \<Rightarrow> bool" where
  "isValid c w \<longleftrightarrow> c_client (w_conns w c)"

subsection \<open>Sending\<close>

definition DispatchMessageEvenWhenWaitingForSyncReply :: "32 word" where
  "DispatchMessageEvenWhenWaitingForSyncReply = 1"

definition sendMessage :: "nat \<Rightarrow> encoder \<Rightarrow> 32 word \<Rightarrow> world \<Rightarrow> bool \<times> world" where
  "sendMessage c e flags w =
     (if \<not> isValid c w then (False, w)
      else
        let k = w_conns w c;
            e = (if flags AND DispatchMessageEvenWhenWaitingForSyncReply \<noteq> 0 \<and>
                    (\<not> c_onlySendWhenProcessing k \<or> c_inDispatchMarkedCount k \<noteq> 0)
                 then setShouldDispatchMessageWhenWaitingForSyncReply True e else e)
        in (True, queue_dispatch (SendOutgoingMessages c)
              (upd c (\<lambda>k. k\<lparr>c_outgoingMessages := c_outgoingMessages k @ [e]\<rparr>) w)))"

definition sendSyncReply :: "nat \<Rightarrow> encoder \<Rightarrow> world \<Rightarrow> bool \<times> world" where
  "sendSyncReply c e w = sendMessage c e 0 w"

definition createSyncMessageEncoder ::
  "(nat \<Rightarrow> byte) \<Rightarrow> nat \<Rightarrow> byte list \<Rightarrow> byte list \<Rightarrow> 64 word \<Rightarrow> world \<Rightarrow> encoder \<times> 64 word \<times> world" where
  "createSyncMessageEncoder junk c r n i w =
     (let e = setIsSyncMessage True (MessageEncoder junk r n i);
          syncRequestID = c_syncRequestID (w_conns w c) + 1
      in (encode_uint64 junk syncRequestID e, syncRequestID,
          upd c (\<lambda>k. k\<lparr>c_syncRequestID := syncRequestID\<rparr>) w))"

definition canSendOutgoingMessages :: "nat \<Rightarrow> world \<Rightarrow> bool" where
  "canSendOutgoingMessages c w \<longleftrightarrow> c_isConnected (w_conns w c)"

text \<open>
  \<open>sendOutgoingMessages\<close>: \<open>accepts\<close> tells whether the platform's \<^verbatim>\<open>sendOutgoingMessage\<close> sends
  the message.  A message is taken from the queue before it is sent.
\<close>

primrec send_loop :: "(encoder \<Rightarrow> bool) \<Rightarrow> encoder list \<Rightarrow> encoder list \<times> encoder list" where
  "send_loop accepts [] = ([], [])"
| "send_loop accepts (e # es) =
     (if accepts e then (let (sent, left) = send_loop accepts es in (e # sent, left)) else ([], es))"

definition sendOutgoingMessages :: "(encoder \<Rightarrow> bool) \<Rightarrow> nat \<Rightarrow> world \<Rightarrow> world" where
  "sendOutgoingMessages accepts c w =
     (if \<not> canSendOutgoingMessages c w then w
      else let (sent, left) = send_loop accepts (c_outgoingMessages (w_conns w c)) in
        fold (\<lambda>e. log_event (Sent c e)) sent (upd c (\<lambda>k. k\<lparr>c_outgoingMessages := left\<rparr>) w))"

subsection \<open>Routing incoming messages\<close>

text \<open>\<^verbatim>\<open>SyncMessageState::processIncomingMessage\<close>.\<close>

definition SyncMessageState_processIncomingMessage :: "nat \<Rightarrow> message \<Rightarrow> world \<Rightarrow> bool \<times> world" where
  "SyncMessageState_processIncomingMessage c m w =
     (if \<not> shouldDispatchMessageWhenWaitingForSyncReply m then (False, w)
      else
        let w = (if c \<notin> w_didSchedule w
                 then run_loop_dispatch (DispatchMessagesForConnection c)
                        (w\<lparr>w_didSchedule := insert c (w_didSchedule w)\<rparr>)
                 else w)
        in (True, w\<lparr>w_syncMessages := w_syncMessages w @ [(c, m)], w_semaphore := True\<rparr>))"

definition enqueueIncomingMessage :: "nat \<Rightarrow> message \<Rightarrow> world \<Rightarrow> world" where
  "enqueueIncomingMessage c m w =
     run_loop_dispatch (DispatchOneMessage c)
       (upd c (\<lambda>k. k\<lparr>c_incomingMessages := c_incomingMessages k @ [m]\<rparr>) w)"

text \<open>The search down the stack of pending replies; the result tells whether it was the top one.\<close>

fun deliver_reply :: "message \<Rightarrow> pending_reply list \<Rightarrow> (bool \<times> pending_reply list) option" where
  "deliver_reply m [] = None"
| "deliver_reply m (p # ps) = (case deliver_reply m ps of
     Some (isTop, ps') \<Rightarrow> Some (isTop, p # ps')
   | None \<Rightarrow> (if pr_syncRequestID p \<noteq> m_destinationID m then None
       else Some (ps = [], p\<lparr>pr_replyDecoder := Some m, pr_didReceiveReply := True\<rparr> # ps)))"

definition processIncomingSyncReply :: "nat \<Rightarrow> message \<Rightarrow> world \<Rightarrow> world" where
  "processIncomingSyncReply c m w =
     (case deliver_reply m (c_pendingSyncReplies (w_conns w c)) of
        Some (isTop, ps) \<Rightarrow>
          (let w = upd c (\<lambda>k. k\<lparr>c_pendingSyncReplies := ps\<rparr>) w
           in if isTop then w\<lparr>w_semaphore := True\<rparr> else w)
      | None \<Rightarrow> (case c_secondaryReplies (w_conns w c) (m_destinationID m) of
            Some r \<Rightarrow> upd c (\<lambda>k. k\<lparr>c_secondaryReplies := (c_secondaryReplies k)
                (m_destinationID m \<mapsto> r\<lparr>sr_replyDecoder := Some m, sr_signalled := True\<rparr>)\<rparr>) w
          | None \<Rightarrow> w))"

definition IPC_name :: "byte list" where
  "IPC_name = [73, 80, 67]"

text \<open>The name \<^verbatim>\<open>"SyncMessageReply"\<close>.\<close>

definition SyncMessageReply_name :: "byte list" where
  "SyncMessageReply_name = [83, 121, 110, 99, 77, 101, 115, 115, 97, 103, 101, 82, 101, 112, 108, 121]"

text \<open>The names reported for a message with an empty header; \<open>len\<close> is the message's length in decimal.\<close>

definition unknown_names :: "(nat \<Rightarrow> byte list) \<Rightarrow> message \<Rightarrow> byte list \<times> byte list" where
  "unknown_names fmt m = ([60, 117, 110, 107, 110, 111, 119, 110, 32, 109, 101, 115, 115, 97, 103, 101, 62],
     fmt (length (d_mem (m_decoder m))))"

definition processIncomingMessage :: "(nat \<Rightarrow> byte list) \<Rightarrow> nat \<Rightarrow> message \<Rightarrow> world \<Rightarrow> world" where
  "processIncomingMessage fmt c m w =
     (if m_messageReceiverName m = IPC_name \<and> m_messageName m = SyncMessageReply_name
      then processIncomingSyncReply c m w
      else if m_messageReceiverName m = []
      then (if m_messageName m = []
            then run_loop_dispatch (case unknown_names fmt m of (r, n) \<Rightarrow> DispatchDidReceiveInvalidMessage c r n) w
            else run_loop_dispatch (DispatchDidReceiveInvalidMessage c (m_messageReceiverName m) (m_messageName m)) w)
      else case c_workQueueMessageReceivers (w_conns w c) (m_messageReceiverName m) of
        Some (q, r) \<Rightarrow> w\<lparr>w_receiver_tasks := w_receiver_tasks w @ [(q, r, c, m)]\<rparr>
      | None \<Rightarrow> (case SyncMessageState_processIncomingMessage c m w of
            (True, w) \<Rightarrow> w
          | (False, w) \<Rightarrow>
              (let key = ((m_messageReceiverName m, m_messageName m), m_destinationID m) in
               if c_waitForMessageMap (w_conns w c) key \<noteq> None
               then upd c (\<lambda>k. k\<lparr>c_waitForMessageMap := (c_waitForMessageMap k)(key \<mapsto> Some m)\<rparr>) w
               else enqueueIncomingMessage c m w)))"

subsection \<open>Dispatching\<close>

text \<open>
  \<open>dispatchSyncMessage\<close>: an absent or zero request ID invalidates the message; otherwise the client
  gets a reply to fill in, and what it leaves is sent.  The result is the message with its decoder.
\<close>

definition dispatchSyncMessage :: "(nat \<Rightarrow> byte) \<Rightarrow> client_code \<Rightarrow> nat \<Rightarrow> message \<Rightarrow> world \<Rightarrow> message \<times> world" where
  "dispatchSyncMessage junk client c m w =
     (case decode_uint64 (m_decoder m) of
        (Value syncRequestID, d) \<Rightarrow>
          (if syncRequestID = 0 then (m\<lparr>m_decoder := markInvalid d\<rparr>, w)
           else
             let m = m\<lparr>m_decoder := d\<rparr>;
                 reply = MessageEncoder junk IPC_name SyncMessageReply_name syncRequestID;
                 (m, r, w) = cc_didReceiveSyncMessage client c m reply (log_event (DidReceiveSyncMessage c m) w)
             in (m, case r of Some e \<Rightarrow> snd (sendSyncReply c e w) | None \<Rightarrow> w))
      | (_, d) \<Rightarrow> (m\<lparr>m_decoder := markInvalid d\<rparr>, w))"

definition dispatch_to_client :: "client_code \<Rightarrow> nat \<Rightarrow> message \<Rightarrow> world \<Rightarrow> message \<times> world" where
  "dispatch_to_client client c m w = cc_didReceiveMessage client c m (log_event (DidReceiveMessage c m) w)"

text \<open>\<^verbatim>\<open>dispatchMessage(std::unique_ptr<MessageDecoder>)\<close>.\<close>

definition conn_dispatchMessage :: "(nat \<Rightarrow> byte) \<Rightarrow> client_code \<Rightarrow> nat \<Rightarrow> message \<Rightarrow> world \<Rightarrow> world" where
  "conn_dispatchMessage junk client c m w =
     (if \<not> isValid c w then w
      else
        let marked = shouldDispatchMessageWhenWaitingForSyncReply m;
            oldDidReceiveInvalidMessage = c_didReceiveInvalidMessage (w_conns w c);
            w = upd c (\<lambda>k. k\<lparr>c_inDispatchMessageCount := c_inDispatchMessageCount k + 1,
                  c_inDispatchMarkedCount := c_inDispatchMarkedCount k + (if marked then 1 else 0),
                  c_didReceiveInvalidMessage := False\<rparr>) w;
            (m, w) = (if isSyncMessage m then dispatchSyncMessage junk client c m w else dispatch_to_client client c m w);
            w = upd c (\<lambda>k. k\<lparr>c_didReceiveInvalidMessage := c_didReceiveInvalidMessage k \<or> isInvalid (m_decoder m),
                  c_inDispatchMessageCount := c_inDispatchMessageCount k - 1,
                  c_inDispatchMarkedCount := c_inDispatchMarkedCount k - (if marked then 1 else 0)\<rparr>) w;
            w = (if c_didReceiveInvalidMessage (w_conns w c) \<and> isValid c w
                 then cc_didReceiveInvalidMessage client c (m_messageReceiverName m) (m_messageName m)
                        (log_event (DidReceiveInvalidMessage c (m_messageReceiverName m) (m_messageName m)) w)
                 else w)
        in upd c (\<lambda>k. k\<lparr>c_didReceiveInvalidMessage := oldDidReceiveInvalidMessage\<rparr>) w)"

definition dispatchOneMessage :: "(nat \<Rightarrow> byte) \<Rightarrow> client_code \<Rightarrow> nat \<Rightarrow> world \<Rightarrow> world" where
  "dispatchOneMessage junk client c w = (case c_incomingMessages (w_conns w c) of
     [] \<Rightarrow> w
   | m # ms \<Rightarrow> conn_dispatchMessage junk client c m (upd c (\<lambda>k. k\<lparr>c_incomingMessages := ms\<rparr>) w))"

text \<open>
  \<^verbatim>\<open>SyncMessageState::dispatchMessages\<close>: the queue is taken, each message of the allowed
  connection (any, if there is none given) dispatched, and the others put back behind what has
  arrived since.
\<close>

primrec dispatch_taken ::
  "(nat \<Rightarrow> byte) \<Rightarrow> client_code \<Rightarrow> nat option \<Rightarrow> (nat \<times> message) list \<Rightarrow> world \<Rightarrow> (nat \<times> message) list \<times> world" where
  "dispatch_taken junk client allowed [] w = ([], w)"
| "dispatch_taken junk client allowed (x # xs) w =
     (if allowed \<noteq> None \<and> allowed \<noteq> Some (fst x)
      then (let (rest, w) = dispatch_taken junk client allowed xs w in (x # rest, w))
      else dispatch_taken junk client allowed xs (conn_dispatchMessage junk client (fst x) (snd x) w))"

definition dispatchMessages :: "(nat \<Rightarrow> byte) \<Rightarrow> client_code \<Rightarrow> nat option \<Rightarrow> world \<Rightarrow> world" where
  "dispatchMessages junk client allowed w =
     (let (messagesToPutBack, w) = dispatch_taken junk client allowed (w_syncMessages w) (w\<lparr>w_syncMessages := []\<rparr>)
      in w\<lparr>w_syncMessages := w_syncMessages w @ messagesToPutBack\<rparr>)"

definition dispatchMessageAndReset :: "(nat \<Rightarrow> byte) \<Rightarrow> client_code \<Rightarrow> nat \<Rightarrow> world \<Rightarrow> world" where
  "dispatchMessageAndReset junk client c w =
     dispatchMessages junk client (Some c) (w\<lparr>w_didSchedule := w_didSchedule w - {c}\<rparr>)"

definition dispatchDidReceiveInvalidMessage :: "client_code \<Rightarrow> nat \<Rightarrow> byte list \<Rightarrow> byte list \<Rightarrow> world \<Rightarrow> world" where
  "dispatchDidReceiveInvalidMessage client c r n w =
     (if \<not> isValid c w then w
      else cc_didReceiveInvalidMessage client c r n (log_event (DidReceiveInvalidMessage c r n) w))"

subsection \<open>Closing\<close>

definition platformInvalidate :: "nat \<Rightarrow> world \<Rightarrow> world" where
  "platformInvalidate c w = upd c (\<lambda>k. k\<lparr>c_isConnected := False\<rparr>) w"

definition invalidate :: "nat \<Rightarrow> world \<Rightarrow> world" where
  "invalidate c w =
     (if \<not> isValid c w then w
      else queue_dispatch (PlatformInvalidate c) (upd c (\<lambda>k. k\<lparr>c_client := False\<rparr>) w))"

definition markCurrentlyDispatchedMessageAsInvalid :: "nat \<Rightarrow> world \<Rightarrow> world" where
  "markCurrentlyDispatchedMessageAsInvalid c w = upd c (\<lambda>k. k\<lparr>c_didReceiveInvalidMessage := True\<rparr>) w"

definition connectionDidClose :: "nat \<Rightarrow> world \<Rightarrow> world" where
  "connectionDidClose c w =
     (let w = platformInvalidate c w;
          w = upd c (\<lambda>k. k\<lparr>c_shouldWaitForSyncReplies := False,
                c_secondaryReplies := (\<lambda>i. map_option (\<lambda>r. r\<lparr>sr_signalled := True\<rparr>) (c_secondaryReplies k i))\<rparr>) w;
          w = (if c_pendingSyncReplies (w_conns w c) \<noteq> [] then w\<lparr>w_semaphore := True\<rparr> else w);
          w = (if c_hasDidCloseCallback (w_conns w c) then log_event (DidCloseOnWorkQueue c) w else w)
      in run_loop_dispatch (DispatchConnectionDidClose c) w)"

definition dispatchConnectionDidClose :: "client_code \<Rightarrow> nat \<Rightarrow> world \<Rightarrow> world" where
  "dispatchConnectionDidClose client c w =
     (if \<not> isValid c w then w
      else cc_didClose client c (log_event (DidClose c) (upd c (\<lambda>k. k\<lparr>c_client := False\<rparr>) w)))"

subsection \<open>Synchronous messages\<close>

definition didFailToSendSyncMessage :: "nat \<Rightarrow> world \<Rightarrow> world" where
  "didFailToSendSyncMessage c w =
     (if c_shouldExitOnSyncMessageSendFailure (w_conns w c) then w\<lparr>w_exited := True\<rparr> else w)"

text \<open>
  \<open>waitForSyncReply\<close>.  Each round that does not return ends in a wait for the semaphore: an element
  \<open>Some f\<close> of the list is a wait that ended because the semaphore was signalled, \<open>f\<close> being what the
  other threads did until then, \<open>None\<close> one that timed out.  When the list is used up the thread is
  still waiting.
\<close>

datatype wait_result = Returned "message option" world | Waiting world

fun waitForSyncReply ::
  "(nat \<Rightarrow> byte) \<Rightarrow> client_code \<Rightarrow> nat \<Rightarrow> (world \<Rightarrow> world) option list \<Rightarrow> world \<Rightarrow> wait_result" where
  "waitForSyncReply junk client c waits w =
     (let w = dispatchMessages junk client None w;
          p = last (c_pendingSyncReplies (w_conns w c))
      in if pr_didReceiveReply p \<or> \<not> c_shouldWaitForSyncReplies (w_conns w c)
         then Returned (pr_replyDecoder p)
                (upd c (\<lambda>k. k\<lparr>c_pendingSyncReplies := butlast (c_pendingSyncReplies k) @ [p\<lparr>pr_replyDecoder := None\<rparr>]\<rparr>) w)
         else if \<not> isValid c w then Returned None w
         else case waits of
             [] \<Rightarrow> Waiting w
           | None # _ \<Rightarrow> Returned None w
           | Some f # ws \<Rightarrow> waitForSyncReply junk client c ws ((f w)\<lparr>w_semaphore := False\<rparr>))"

declare waitForSyncReply.simps [simp del]

text \<open>The part of \<open>sendSyncMessage\<close> before the wait; \<open>None\<close> when it returns at once.\<close>

definition sendSync_begin :: "nat \<Rightarrow> 64 word \<Rightarrow> encoder \<Rightarrow> world \<Rightarrow> world option \<times> world" where
  "sendSync_begin c syncRequestID e w =
     (if \<not> isValid c w \<or> \<not> c_shouldWaitForSyncReplies (w_conns w c)
      then (None, didFailToSendSyncMessage c w)
      else
        let w = upd c (\<lambda>k. k\<lparr>c_pendingSyncReplies := c_pendingSyncReplies k @ [PendingSyncReply syncRequestID],
              c_inSendSyncCount := c_inSendSyncCount k + 1\<rparr>) w;
            (_, w) = sendMessage c e DispatchMessageEvenWhenWaitingForSyncReply w
        in (Some w, w))"

definition sendSync_end :: "nat \<Rightarrow> message option \<Rightarrow> world \<Rightarrow> message option \<times> world" where
  "sendSync_end c reply w =
     (let w = upd c (\<lambda>k. k\<lparr>c_inSendSyncCount := c_inSendSyncCount k - 1,
            c_pendingSyncReplies := butlast (c_pendingSyncReplies k)\<rparr>) w
      in (reply, if reply = None then didFailToSendSyncMessage c w else w))"

text \<open>\<open>sendSyncMessage\<close> on the client's run loop.\<close>

definition sendSyncMessage ::
  "(nat \<Rightarrow> byte) \<Rightarrow> client_code \<Rightarrow> nat \<Rightarrow> 64 word \<Rightarrow> encoder \<Rightarrow> (world \<Rightarrow> world) option list \<Rightarrow> world \<Rightarrow> wait_result" where
  "sendSyncMessage junk client c syncRequestID e waits w =
     (case sendSync_begin c syncRequestID e w of
        (None, w) \<Rightarrow> Returned None w
      | (Some w, _) \<Rightarrow> (case waitForSyncReply junk client c waits w of
            Waiting w \<Rightarrow> Waiting w
          | Returned r w \<Rightarrow> (case sendSync_end c r w of (r, w) \<Rightarrow> Returned r w)))"

text \<open>
  \<open>sendSyncMessageFromSecondaryThread\<close>: what happens before the thread waits for its own semaphore,
  and after the wait has ended.
\<close>

definition secondary_begin :: "nat \<Rightarrow> 64 word \<Rightarrow> encoder \<Rightarrow> world \<Rightarrow> world option" where
  "secondary_begin c syncRequestID e w =
     (if \<not> isValid c w \<or> \<not> c_shouldWaitForSyncReplies (w_conns w c) then None
      else Some (snd (sendMessage c e 0 (upd c (\<lambda>k. k\<lparr>c_secondaryReplies :=
        (c_secondaryReplies k)(syncRequestID \<mapsto> \<lparr>sr_replyDecoder = None, sr_signalled = False\<rparr>)\<rparr>) w))))"

definition secondary_end :: "nat \<Rightarrow> 64 word \<Rightarrow> world \<Rightarrow> message option \<times> world" where
  "secondary_end c syncRequestID w =
     ((case c_secondaryReplies (w_conns w c) syncRequestID of Some r \<Rightarrow> sr_replyDecoder r | None \<Rightarrow> None),
      upd c (\<lambda>k. k\<lparr>c_secondaryReplies := (c_secondaryReplies k)(syncRequestID := None)\<rparr>) w)"

subsection \<open>Waiting for a message\<close>

text \<open>
  \<open>waitForMessage\<close> in the sections between its locks: look through the incoming messages; enter
  the key; then, after each wake-up, take the message if it has come; after a timeout, give up.
\<close>

definition message_key :: "message \<Rightarrow> wait_key" where
  "message_key m = ((m_messageReceiverName m, m_messageName m), m_destinationID m)"

fun take_message :: "wait_key \<Rightarrow> message list \<Rightarrow> (message \<times> message list) option" where
  "take_message key [] = None"
| "take_message key (m # ms) =
     (if message_key m = key then Some (m, ms)
      else case take_message key ms of Some (x, ms') \<Rightarrow> Some (x, m # ms') | None \<Rightarrow> None)"

definition wait_check :: "nat \<Rightarrow> wait_key \<Rightarrow> world \<Rightarrow> message option \<times> world" where
  "wait_check c key w = (case take_message key (c_incomingMessages (w_conns w c)) of
     Some (m, ms) \<Rightarrow> (Some m, upd c (\<lambda>k. k\<lparr>c_incomingMessages := ms\<rparr>) w)
   | None \<Rightarrow> (None, w))"

definition wait_insert :: "nat \<Rightarrow> wait_key \<Rightarrow> world \<Rightarrow> world" where
  "wait_insert c key w = upd c (\<lambda>k. k\<lparr>c_waitForMessageMap := (c_waitForMessageMap k)(key \<mapsto> None)\<rparr>) w"

definition wait_poll :: "nat \<Rightarrow> wait_key \<Rightarrow> world \<Rightarrow> message option \<times> world" where
  "wait_poll c key w = (case c_waitForMessageMap (w_conns w c) key of
     Some (Some m) \<Rightarrow> (Some m, upd c (\<lambda>k. k\<lparr>c_waitForMessageMap := (c_waitForMessageMap k)(key := None)\<rparr>) w)
   | _ \<Rightarrow> (None, w))"

definition wait_timeout :: "nat \<Rightarrow> wait_key \<Rightarrow> world \<Rightarrow> world" where
  "wait_timeout c key w = upd c (\<lambda>k. k\<lparr>c_waitForMessageMap := (c_waitForMessageMap k)(key := None)\<rparr>) w"

text \<open>
  The whole function: \<open>between\<close> is what other threads do between the first two sections, the list
  gives the waits as for \<open>waitForSyncReply\<close>.
\<close>

fun wait_loop :: "nat \<Rightarrow> wait_key \<Rightarrow> (world \<Rightarrow> world) option list \<Rightarrow> world \<Rightarrow> wait_result" where
  "wait_loop c key waits w = (case wait_poll c key w of
     (Some m, w) \<Rightarrow> Returned (Some m) w
   | (None, w) \<Rightarrow> (case waits of
       [] \<Rightarrow> Waiting w
     | None # _ \<Rightarrow> Returned None (wait_timeout c key w)
     | Some f # ws \<Rightarrow> wait_loop c key ws (f w)))"

declare wait_loop.simps [simp del]

definition waitForMessage ::
  "nat \<Rightarrow> wait_key \<Rightarrow> (world \<Rightarrow> world) \<Rightarrow> (world \<Rightarrow> world) option list \<Rightarrow> world \<Rightarrow> wait_result" where
  "waitForMessage c key between waits w = (case wait_check c key w of
     (Some m, w) \<Rightarrow> Returned (Some m) w
   | (None, w) \<Rightarrow> wait_loop c key waits (wait_insert c key (between w)))"

subsection \<open>Receivers with their own queue\<close>

definition addWorkQueueMessageReceiver :: "nat \<Rightarrow> byte list \<Rightarrow> nat \<Rightarrow> nat \<Rightarrow> world \<Rightarrow> world" where
  "addWorkQueueMessageReceiver c n q r w = queue_dispatch (AddReceiver c n q r) w"

definition removeWorkQueueMessageReceiver :: "nat \<Rightarrow> byte list \<Rightarrow> world \<Rightarrow> world" where
  "removeWorkQueueMessageReceiver c n w = queue_dispatch (RemoveReceiver c n) w"

text \<open>\<^verbatim>\<open>HashMap::add\<close> keeps an entry that is already there.\<close>

definition addWorkQueueMessageReceiverOnConnectionWorkQueue :: "nat \<Rightarrow> byte list \<Rightarrow> nat \<Rightarrow> nat \<Rightarrow> world \<Rightarrow> world" where
  "addWorkQueueMessageReceiverOnConnectionWorkQueue c n q r w =
     upd c (\<lambda>k. if c_workQueueMessageReceivers k n = None
       then k\<lparr>c_workQueueMessageReceivers := (c_workQueueMessageReceivers k)(n \<mapsto> (q, r))\<rparr> else k) w"

definition removeWorkQueueMessageReceiverOnConnectionWorkQueue :: "nat \<Rightarrow> byte list \<Rightarrow> world \<Rightarrow> world" where
  "removeWorkQueueMessageReceiverOnConnectionWorkQueue c n w =
     upd c (\<lambda>k. k\<lparr>c_workQueueMessageReceivers := (c_workQueueMessageReceivers k)(n := None)\<rparr>) w"

text \<open>The client code stands for the receiver; invalid messages are dropped silently.\<close>

definition dispatchWorkQueueMessageReceiverMessage ::
  "(nat \<Rightarrow> byte) \<Rightarrow> client_code \<Rightarrow> nat \<Rightarrow> message \<Rightarrow> world \<Rightarrow> world" where
  "dispatchWorkQueueMessageReceiverMessage junk receiver c m w =
     (if \<not> isSyncMessage m then snd (dispatch_to_client receiver c m w)
      else snd (dispatchSyncMessage junk receiver c m w))"

subsection \<open>Running the queues\<close>

definition run_task :: "(nat \<Rightarrow> byte) \<Rightarrow> client_code \<Rightarrow> task \<Rightarrow> world \<Rightarrow> world" where
  "run_task junk client t w = (case t of
     DispatchMessagesForConnection c \<Rightarrow> dispatchMessageAndReset junk client c w
   | DispatchOneMessage c \<Rightarrow> dispatchOneMessage junk client c w
   | DispatchDidReceiveInvalidMessage c r n \<Rightarrow> dispatchDidReceiveInvalidMessage client c r n w
   | DispatchConnectionDidClose c \<Rightarrow> dispatchConnectionDidClose client c w)"

text \<open>The run loop takes its next task and runs it.\<close>

definition run_loop_step :: "(nat \<Rightarrow> byte) \<Rightarrow> client_code \<Rightarrow> world \<Rightarrow> world" where
  "run_loop_step junk client w = (case w_tasks w of
     [] \<Rightarrow> w
   | t # ts \<Rightarrow> run_task junk client t (w\<lparr>w_tasks := ts\<rparr>))"

definition run_queue_task :: "(encoder \<Rightarrow> bool) \<Rightarrow> queue_task \<Rightarrow> world \<Rightarrow> world" where
  "run_queue_task accepts t w = (case t of
     SendOutgoingMessages c \<Rightarrow> sendOutgoingMessages accepts c w
   | PlatformInvalidate c \<Rightarrow> platformInvalidate c w
   | AddReceiver c n q r \<Rightarrow> addWorkQueueMessageReceiverOnConnectionWorkQueue c n q r w
   | RemoveReceiver c n \<Rightarrow> removeWorkQueueMessageReceiverOnConnectionWorkQueue c n w)"

definition queue_step :: "(encoder \<Rightarrow> bool) \<Rightarrow> world \<Rightarrow> world" where
  "queue_step accepts w = (case w_queue_tasks w of
     [] \<Rightarrow> w
   | t # ts \<Rightarrow> run_queue_task accepts t (w\<lparr>w_queue_tasks := ts\<rparr>))"

subsection \<open>Delivery\<close>

lemma upd_simps [simp]:
  "w_conns (upd c f w) c = f (w_conns w c)" "c' \<noteq> c \<Longrightarrow> w_conns (upd c f w) c' = w_conns w c'"
  "w_didSchedule (upd c f w) = w_didSchedule w" "w_syncMessages (upd c f w) = w_syncMessages w"
  "w_semaphore (upd c f w) = w_semaphore w" "w_tasks (upd c f w) = w_tasks w"
  "w_queue_tasks (upd c f w) = w_queue_tasks w" "w_exited (upd c f w) = w_exited w" "w_log (upd c f w) = w_log w"
  "w_receiver_tasks (upd c f w) = w_receiver_tasks w"
  by (simp_all add: upd_def)

lemma dispatch_simps [simp]:
  "w_conns (run_loop_dispatch t w) = w_conns w" "w_didSchedule (run_loop_dispatch t w) = w_didSchedule w"
  "w_syncMessages (run_loop_dispatch t w) = w_syncMessages w" "w_tasks (run_loop_dispatch t w) = w_tasks w @ [t]"
  "w_conns (queue_dispatch q w) = w_conns w" "w_didSchedule (queue_dispatch q w) = w_didSchedule w"
  "w_syncMessages (queue_dispatch q w) = w_syncMessages w" "w_tasks (queue_dispatch q w) = w_tasks w"
  "w_conns (log_event x w) = w_conns w" "w_didSchedule (log_event x w) = w_didSchedule w"
  "w_syncMessages (log_event x w) = w_syncMessages w" "w_tasks (log_event x w) = w_tasks w"
  "w_semaphore (run_loop_dispatch t w) = w_semaphore w" "w_semaphore (queue_dispatch q w) = w_semaphore w"
  by (simp_all add: run_loop_dispatch_def queue_dispatch_def log_event_def)

text \<open>
  Every message that waits for the run loop has a task there: one per message in the queue of a
  connection, one per connection for the messages that may interrupt a wait.
\<close>

definition delivery_inv :: "world \<Rightarrow> bool" where
  "delivery_inv w \<longleftrightarrow>
     (\<forall>c. length (c_incomingMessages (w_conns w c)) \<le> count_list (w_tasks w) (DispatchOneMessage c)) \<and>
     fst ` set (w_syncMessages w) \<subseteq> w_didSchedule w \<and>
     (\<forall>c \<in> w_didSchedule w. DispatchMessagesForConnection c \<in> set (w_tasks w))"

text \<open>
  What the client may do while it is called: anything that keeps the messages it finds scheduled;
  in particular it does not run the tasks of the run loop itself.
\<close>

definition orderly :: "(world \<Rightarrow> world) \<Rightarrow> bool" where
  "orderly f \<longleftrightarrow> (\<forall>w. delivery_inv w \<longrightarrow> delivery_inv (f w) \<and> w_didSchedule w \<subseteq> w_didSchedule (f w))"

definition orderly_client :: "client_code \<Rightarrow> bool" where
  "orderly_client client \<longleftrightarrow>
     (\<forall>c m. orderly (\<lambda>w. snd (cc_didReceiveMessage client c m w))) \<and>
     (\<forall>c m e. orderly (\<lambda>w. snd (snd (cc_didReceiveSyncMessage client c m e w)))) \<and>
     (\<forall>c r n. orderly (cc_didReceiveInvalidMessage client c r n)) \<and>
     (\<forall>c. orderly (cc_didClose client c))"

lemma orderlyD: "\<lbrakk>orderly f; delivery_inv w\<rbrakk> \<Longrightarrow> delivery_inv (f w)"
  "\<lbrakk>orderly f; delivery_inv w\<rbrakk> \<Longrightarrow> w_didSchedule w \<subseteq> w_didSchedule (f w)"
  by (simp_all add: orderly_def)

lemma orderly_compose: "\<lbrakk>orderly f; orderly g\<rbrakk> \<Longrightarrow> orderly (\<lambda>w. f (g w))"
  unfolding orderly_def by (meson order_trans)

text \<open>Steps that leave the queues alone.\<close>

lemma orderly_upd:
  assumes "\<And>k. length (c_incomingMessages (f k)) \<le> length (c_incomingMessages k)"
  shows "orderly (upd c f)"
proof -
  have "length (c_incomingMessages (w_conns (upd c f w) c')) \<le> length (c_incomingMessages (w_conns w c'))" for w c'
    using assms by (cases "c' = c") simp_all
  then show ?thesis unfolding orderly_def delivery_inv_def by (auto intro: order_trans)
qed

lemma delivery_frame:
  "\<lbrakk>delivery_inv w; \<And>c. length (c_incomingMessages (w_conns w' c)) \<le> length (c_incomingMessages (w_conns w c));
    w_syncMessages w' = w_syncMessages w; w_didSchedule w' = w_didSchedule w; w_tasks w' = w_tasks w\<rbrakk> \<Longrightarrow> delivery_inv w'"
  unfolding delivery_inv_def by (metis order_trans)

lemma orderly_frame:
  assumes "\<And>w. w_conns (f w) = w_conns w" "\<And>w. w_syncMessages (f w) = w_syncMessages w"
    "\<And>w. w_didSchedule (f w) = w_didSchedule w" "\<And>w. w_tasks (f w) = w_tasks w"
  shows "orderly f"
  unfolding orderly_def using assms by (auto intro: delivery_frame)

lemma orderly_log: "orderly (log_event x)"
  by (rule orderly_frame) simp_all

lemma orderly_queue_dispatch: "orderly (queue_dispatch t)"
  by (rule orderly_frame) simp_all

lemma orderly_run_loop_dispatch: "orderly (run_loop_dispatch t)"
  unfolding orderly_def delivery_inv_def by (auto intro: le_SucI)

lemma orderly_id: "orderly (\<lambda>w. w)"
  by (simp add: orderly_def)

lemma orderly_if: "\<lbrakk>orderly f; orderly g\<rbrakk> \<Longrightarrow> orderly (\<lambda>w. if b w then f w else g w)"
  by (simp add: orderly_def)

lemma orderly_sendMessage: "orderly (\<lambda>w. snd (sendMessage c e flags w))"
proof -
  have "orderly (\<lambda>w. queue_dispatch (SendOutgoingMessages c)
      (upd c (\<lambda>k. k\<lparr>c_outgoingMessages := c_outgoingMessages k @ [e']\<rparr>) w))" for e'
    by (rule orderly_compose [OF orderly_queue_dispatch orderly_upd]) simp
  then show ?thesis by (simp add: sendMessage_def Let_def orderly_def)
qed

lemma orderly_enqueue: "orderly (enqueueIncomingMessage c m)"
proof -
  have "length (c_incomingMessages (w_conns (enqueueIncomingMessage c m w) c'))
      \<le> count_list (w_tasks (enqueueIncomingMessage c m w)) (DispatchOneMessage c')"
    if "\<forall>c. length (c_incomingMessages (w_conns w c)) \<le> count_list (w_tasks w) (DispatchOneMessage c)" for w c'
    using that by (cases "c' = c") (auto simp: enqueueIncomingMessage_def)
  then show ?thesis by (auto simp: orderly_def delivery_inv_def) (auto simp: enqueueIncomingMessage_def)
qed

lemma orderly_sync: "orderly (\<lambda>w. snd (SyncMessageState_processIncomingMessage c m w))"
  unfolding orderly_def delivery_inv_def SyncMessageState_processIncomingMessage_def
  by (auto simp: Let_def intro: trans_le_add1)

lemma processIncomingSyncReply_frame:
  "c_incomingMessages (w_conns (processIncomingSyncReply c m w) c') = c_incomingMessages (w_conns w c')"
  "w_syncMessages (processIncomingSyncReply c m w) = w_syncMessages w"
  "w_didSchedule (processIncomingSyncReply c m w) = w_didSchedule w"
  "w_tasks (processIncomingSyncReply c m w) = w_tasks w"
  by (cases "c' = c"; auto simp: processIncomingSyncReply_def Let_def split: option.split prod.split)+

lemma orderly_syncReply: "orderly (processIncomingSyncReply c m)"
  unfolding orderly_def by (auto intro: delivery_frame simp: processIncomingSyncReply_frame)

lemma orderly_processIncomingMessage: "orderly (processIncomingMessage fmt c m)"
proof -
  have rt: "orderly (\<lambda>w. w\<lparr>w_receiver_tasks := w_receiver_tasks w @ [x]\<rparr>)" for x
    by (rule orderly_frame) simp_all
  have wm: "orderly (upd c (\<lambda>k. k\<lparr>c_waitForMessageMap := (c_waitForMessageMap k)(key \<mapsto> Some m)\<rparr>))" for key
    by (rule orderly_upd) simp
  have "delivery_inv (processIncomingMessage fmt c m w) \<and> w_didSchedule w \<subseteq> w_didSchedule (processIncomingMessage fmt c m w)"
    if "delivery_inv w" for w
  proof -
    note o = orderlyD [OF _ that]
    obtain b w1 where st: "SyncMessageState_processIncomingMessage c m w = (b, w1)" by fastforce
    have w1: "delivery_inv w1" "w_didSchedule w \<subseteq> w_didSchedule w1" using o [OF orderly_sync [of c m]] st by simp_all
    have w1': "\<not> b \<Longrightarrow> w1 = w" using st by (auto simp: SyncMessageState_processIncomingMessage_def Let_def split: if_splits)
    show ?thesis
      using o [OF orderly_syncReply] o [OF orderly_run_loop_dispatch] o [OF rt] o [OF wm] o [OF orderly_enqueue] st w1 w1'
      unfolding processIncomingMessage_def
      by (simp add: Let_def split: option.split prod.split bool.split)
  qed
  then show ?thesis by (simp add: orderly_def)
qed

lemma orderly_clientD:
  assumes "orderly_client client"
  shows "orderly (\<lambda>w. snd (cc_didReceiveMessage client c m w))"
    and "orderly (\<lambda>w. snd (snd (cc_didReceiveSyncMessage client c m e w)))"
    and "orderly (cc_didReceiveInvalidMessage client c r n)" and "orderly (cc_didClose client c)"
  using assms by (simp_all add: orderly_client_def)

lemma orderly_dispatchSync:
  assumes cl: "orderly_client client"
  shows "orderly (\<lambda>w. snd (dispatchSyncMessage junk client c m w))"
  unfolding orderly_def
proof (intro allI impI)
  fix w
  assume w: "delivery_inv w"
  obtain r d where dec: "decode_uint64 (m_decoder m) = (r, d)" by fastforce
  show "delivery_inv (snd (dispatchSyncMessage junk client c m w)) \<and>
      w_didSchedule w \<subseteq> w_didSchedule (snd (dispatchSyncMessage junk client c m w))"
  proof (cases "\<exists>i. r = Value i \<and> i \<noteq> 0")
    case False
    then show ?thesis using dec w by (cases r) (auto simp: dispatchSyncMessage_def)
  next
    case True
    then obtain i where i: "r = Value i" "i \<noteq> 0" by blast
    let ?m = "m\<lparr>m_decoder := d\<rparr>"
    let ?e = "MessageEncoder junk IPC_name SyncMessageReply_name i"
    obtain m' r' w' where cb: "cc_didReceiveSyncMessage client c ?m ?e (log_event (DidReceiveSyncMessage c ?m) w) = (m', r', w')"
      by (metis prod_cases3)
    have lg: "delivery_inv (log_event (DidReceiveSyncMessage c ?m) w)" by (rule orderlyD(1) [OF orderly_log w])
    have w': "delivery_inv w'" "w_didSchedule w \<subseteq> w_didSchedule w'"
      using orderlyD [OF orderly_clientD(2) [OF cl] lg, of c ?m ?e] cb by simp_all
    show ?thesis
    proof (cases r')
      case None
      then show ?thesis using dec i cb w' by (simp add: dispatchSyncMessage_def Let_def)
    next
      case (Some e)
      then show ?thesis
        using dec i cb w' orderlyD [OF orderly_sendMessage w'(1), of c e 0]
        by (auto simp: dispatchSyncMessage_def sendSyncReply_def Let_def)
    qed
  qed
qed

lemma orderly_conn_dispatchMessage:
  assumes cl: "orderly_client client"
  shows "orderly (conn_dispatchMessage junk client c m)"
proof -
  define marked where "marked = shouldDispatchMessageWhenWaitingForSyncReply m"
  define before where "before = upd c (\<lambda>k. k\<lparr>c_inDispatchMessageCount := c_inDispatchMessageCount k + 1,
    c_inDispatchMarkedCount := c_inDispatchMarkedCount k + (if marked then 1 else 0), c_didReceiveInvalidMessage := False\<rparr>)"
  define call where "call w = (if isSyncMessage m then dispatchSyncMessage junk client c m w else dispatch_to_client client c m w)" for w
  define after where "after m' = upd c (\<lambda>k. k\<lparr>c_didReceiveInvalidMessage := c_didReceiveInvalidMessage k \<or> isInvalid (m_decoder m'),
    c_inDispatchMessageCount := c_inDispatchMessageCount k - 1,
    c_inDispatchMarkedCount := c_inDispatchMarkedCount k - (if marked then 1 else 0)\<rparr>)" for m' :: message
  define report where "report m' w = (if c_didReceiveInvalidMessage (w_conns w c) \<and> isValid c w
    then cc_didReceiveInvalidMessage client c (m_messageReceiverName m') (m_messageName m')
      (log_event (DidReceiveInvalidMessage c (m_messageReceiverName m') (m_messageName m')) w) else w)" for m' :: message and w
  define restore where "restore b = upd c (\<lambda>k. k\<lparr>c_didReceiveInvalidMessage := b\<rparr>)" for b
  have ob: "orderly before" unfolding before_def by (rule orderly_upd) simp
  have oa: "orderly (after m')" for m' unfolding after_def by (rule orderly_upd) simp
  have "orderly (\<lambda>w. cc_didReceiveInvalidMessage client c r n (log_event x w))" for r n x
    by (rule orderly_compose [OF orderly_clientD(3) [OF cl] orderly_log])
  then have op: "orderly (report m')" for m' unfolding report_def by (intro orderly_if orderly_id)
  have os: "orderly (restore b)" for b unfolding restore_def by (rule orderly_upd) simp
  have "orderly (\<lambda>w. snd (cc_didReceiveMessage client c m (log_event x w)))" for x
    by (rule orderly_compose [OF orderly_clientD(1) [OF cl] orderly_log])
  then have oc: "orderly (\<lambda>w. snd (call w))"
    unfolding call_def using orderly_dispatchSync [OF cl]
    by (cases "isSyncMessage m") (simp_all add: dispatch_to_client_def)
  have eq: "conn_dispatchMessage junk client c m w = (if \<not> isValid c w then w else
      restore (c_didReceiveInvalidMessage (w_conns w c))
        (report (fst (call (before w))) (after (fst (call (before w))) (snd (call (before w))))))" for w
    by (simp add: conn_dispatchMessage_def restore_def report_def after_def call_def before_def marked_def Let_def case_prod_beta)
  have "orderly (\<lambda>w. restore b (report m1 (after m2 (snd (call (before w))))))" for b m1 m2
    by (rule orderly_compose [OF os orderly_compose [OF op orderly_compose [OF oa orderly_compose [OF oc ob]]]])
  then show ?thesis unfolding orderly_def eq by simp
qed

lemma dispatch_taken_ok:
  assumes cl: "orderly_client client"
  shows "\<lbrakk>delivery_inv w; dispatch_taken junk client allowed xs w = (rest, w')\<rbrakk> \<Longrightarrow>
    delivery_inv w' \<and> w_didSchedule w \<subseteq> w_didSchedule w' \<and>
    (\<forall>x \<in> set rest. x \<in> set xs \<and> allowed \<noteq> None \<and> allowed \<noteq> Some (fst x))"
proof (induction xs arbitrary: w rest)
  case Nil
  then show ?case by simp
next
  case (Cons x xs)
  show ?case
  proof (cases "allowed \<noteq> None \<and> allowed \<noteq> Some (fst x)")
    case True
    then obtain rest1 where "dispatch_taken junk client allowed xs w = (rest1, w')" and "rest = x # rest1"
      using Cons.prems(2) by (auto split: prod.splits)
    then show ?thesis using Cons.IH [OF Cons.prems(1)] True by auto
  next
    case False
    let ?w = "conn_dispatchMessage junk client (fst x) (snd x) w"
    note o = orderlyD [OF orderly_conn_dispatchMessage [OF cl] Cons.prems(1)]
    have "dispatch_taken junk client allowed xs ?w = (rest, w')" using Cons.prems(2) False by auto
    from Cons.IH [OF o(1) this] o(2) show ?thesis by fastforce
  qed
qed

lemma delivery_putback:
  "\<lbrakk>delivery_inv w; fst ` set xs \<subseteq> w_didSchedule w\<rbrakk> \<Longrightarrow> delivery_inv (w\<lparr>w_syncMessages := w_syncMessages w @ xs\<rparr>)"
  by (auto simp: delivery_inv_def)

lemma orderly_dispatchMessages: "orderly_client client \<Longrightarrow> orderly (dispatchMessages junk client None)"
  unfolding orderly_def
proof (intro allI impI)
  fix w
  assume cl: "orderly_client client" and w: "delivery_inv w"
  obtain rest w' where t: "dispatch_taken junk client None (w_syncMessages w) (w\<lparr>w_syncMessages := []\<rparr>) = (rest, w')" by fastforce
  have "delivery_inv (w\<lparr>w_syncMessages := []\<rparr>)" using w by (simp add: delivery_inv_def)
  note r = dispatch_taken_ok [OF cl this t]
  have "rest = []"
  proof (cases rest)
    case (Cons x xs)
    then have "x \<in> set rest" by simp
    with r show ?thesis by blast
  qed
  moreover have "delivery_inv w'" "w_didSchedule w \<subseteq> w_didSchedule w'" using r by simp_all
  ultimately show "delivery_inv (dispatchMessages junk client None w) \<and> w_didSchedule w \<subseteq> w_didSchedule (dispatchMessages junk client None w)"
    using t delivery_putback [of w' "[]"] by (simp add: dispatchMessages_def)
qed

text \<open>The task of a connection runs when it has been taken from the run loop.\<close>

lemma dispatchMessageAndReset_ok:
  assumes cl: "orderly_client client"
    and w: "delivery_inv (w\<lparr>w_didSchedule := w_didSchedule w - {c}, w_syncMessages := []\<rparr>)"
    and s: "fst ` set (w_syncMessages w) \<subseteq> w_didSchedule w"
  shows "delivery_inv (dispatchMessageAndReset junk client c w)"
proof -
  let ?w = "w\<lparr>w_didSchedule := w_didSchedule w - {c}, w_syncMessages := []\<rparr>"
  obtain rest w' where t: "dispatch_taken junk client (Some c) (w_syncMessages w) ?w = (rest, w')" by fastforce
  note r = dispatch_taken_ok [OF cl w t]
  have "fst ` set rest \<subseteq> w_didSchedule w'" using r s by (auto simp: image_subset_iff)
  then show ?thesis
    using t r delivery_putback [of w' rest] by (simp add: dispatchMessageAndReset_def dispatchMessages_def)
qed

lemma run_loop_step_ok:
  assumes cl: "orderly_client client" and w: "delivery_inv w"
  shows "delivery_inv (run_loop_step junk client w)"
proof (cases "w_tasks w")
  case Nil
  then show ?thesis using w by (simp add: run_loop_step_def)
next
  case (Cons t ts)
  let ?w = "w\<lparr>w_tasks := ts\<rparr>"
  have in1: "length (c_incomingMessages (w_conns w c)) \<le> count_list (t # ts) (DispatchOneMessage c)" for c
    using w Cons by (simp add: delivery_inv_def)
  have sub: "fst ` set (w_syncMessages w) \<subseteq> w_didSchedule w" using w by (simp add: delivery_inv_def)
  have tk: "DispatchMessagesForConnection c \<in> set (t # ts)" if "c \<in> w_didSchedule w" for c
    using w Cons that by (auto simp: delivery_inv_def)
  show ?thesis
  proof (cases t)
    case (DispatchMessagesForConnection c)
    have in2: "length (c_incomingMessages (w_conns w c')) \<le> count_list ts (DispatchOneMessage c')" for c'
      using in1 [of c'] DispatchMessagesForConnection by simp
    have "delivery_inv (?w\<lparr>w_didSchedule := w_didSchedule ?w - {c}, w_syncMessages := []\<rparr>)"
      using in2 tk DispatchMessagesForConnection by (auto simp: delivery_inv_def)
    from dispatchMessageAndReset_ok [OF cl this] sub show ?thesis
      using Cons DispatchMessagesForConnection by (simp add: run_loop_step_def run_task_def)
  next
    case (DispatchOneMessage c)
    show ?thesis
    proof (cases "c_incomingMessages (w_conns w c)")
      case Nil
      have "length (c_incomingMessages (w_conns w c')) \<le> count_list ts (DispatchOneMessage c')" for c'
        using in1 [of c'] Nil DispatchOneMessage by (cases "c' = c") simp_all
      then have "delivery_inv ?w" using sub tk DispatchOneMessage by (auto simp: delivery_inv_def)
      then show ?thesis using Cons DispatchOneMessage Nil by (simp add: run_loop_step_def run_task_def dispatchOneMessage_def)
    next
      case (Cons m ms)
      let ?u = "upd c (\<lambda>k. k\<lparr>c_incomingMessages := ms\<rparr>) ?w"
      have "length (c_incomingMessages (w_conns ?u c')) \<le> count_list ts (DispatchOneMessage c')" for c'
        using in1 [of c'] Cons DispatchOneMessage by (cases "c' = c") simp_all
      then have "delivery_inv ?u" using sub tk DispatchOneMessage by (auto simp: delivery_inv_def)
      then show ?thesis
        using orderlyD(1) [OF orderly_conn_dispatchMessage [OF cl]] \<open>w_tasks w = t # ts\<close> DispatchOneMessage Cons
        by (simp add: run_loop_step_def run_task_def dispatchOneMessage_def)
    qed
  next
    case (DispatchDidReceiveInvalidMessage c r n)
    have "length (c_incomingMessages (w_conns w c')) \<le> count_list ts (DispatchOneMessage c')" for c'
      using in1 [of c'] DispatchDidReceiveInvalidMessage by simp
    then have inv: "delivery_inv ?w" using sub tk DispatchDidReceiveInvalidMessage by (auto simp: delivery_inv_def)
    have "orderly (\<lambda>w. cc_didReceiveInvalidMessage client c r n (log_event x w))" for x
      by (rule orderly_compose [OF orderly_clientD(3) [OF cl] orderly_log])
    note o = orderlyD(1) [OF this inv]
    show ?thesis
      using o inv Cons DispatchDidReceiveInvalidMessage
      by (simp add: run_loop_step_def run_task_def dispatchDidReceiveInvalidMessage_def)
  next
    case (DispatchConnectionDidClose c)
    have "length (c_incomingMessages (w_conns w c')) \<le> count_list ts (DispatchOneMessage c')" for c'
      using in1 [of c'] DispatchConnectionDidClose by simp
    then have inv: "delivery_inv ?w" using sub tk DispatchConnectionDidClose by (auto simp: delivery_inv_def)
    have u: "orderly (upd c (\<lambda>k. k\<lparr>c_client := False\<rparr>))" by (rule orderly_upd) simp
    have "orderly (\<lambda>w. cc_didClose client c (log_event x (upd c (\<lambda>k. k\<lparr>c_client := False\<rparr>) w)))" for x
      by (rule orderly_compose [OF orderly_clientD(4) [OF cl] orderly_compose [OF orderly_log u]])
    note o = orderlyD(1) [OF this inv]
    show ?thesis
      using o inv Cons DispatchConnectionDidClose
      by (simp add: run_loop_step_def run_task_def dispatchConnectionDidClose_def)
  qed
qed

text \<open>
  What the threads of the process can do with the connections: a message arrives, the run loop or a
  queue runs its next task, the client or a waiting thread calls one of the operations.
\<close>

inductive conn_step :: "(nat \<Rightarrow> byte) \<Rightarrow> client_code \<Rightarrow> (nat \<Rightarrow> byte list) \<Rightarrow> world \<Rightarrow> world \<Rightarrow> bool"
  for junk client fmt where
  arrive: "conn_step junk client fmt w (processIncomingMessage fmt c m w)"
| run_loop: "conn_step junk client fmt w (run_loop_step junk client w)"
| queue: "conn_step junk client fmt w (queue_step accepts w)"
| send: "conn_step junk client fmt w (snd (sendMessage c e flags w))"
| create_sync: "conn_step junk client fmt w (snd (snd (createSyncMessageEncoder junk c r n i w)))"
| sync_begin: "conn_step junk client fmt w (snd (sendSync_begin c i e w))"
| sync_round: "conn_step junk client fmt w (dispatchMessages junk client None w)"
| sync_end: "conn_step junk client fmt w (snd (sendSync_end c reply w))"
| secondary_begin: "secondary_begin c i e w = Some w' \<Longrightarrow> conn_step junk client fmt w w'"
| secondary_end: "conn_step junk client fmt w (snd (secondary_end c i w))"
| wait_check: "conn_step junk client fmt w (snd (wait_check c key w))"
| wait_insert: "conn_step junk client fmt w (wait_insert c key w)"
| wait_poll: "conn_step junk client fmt w (snd (wait_poll c key w))"
| wait_timeout: "conn_step junk client fmt w (wait_timeout c key w)"
| close: "conn_step junk client fmt w (connectionDidClose c w)"
| invalidate: "conn_step junk client fmt w (invalidate c w)"
| mark_invalid: "conn_step junk client fmt w (markCurrentlyDispatchedMessageAsInvalid c w)"

inductive conn_reachable :: "(nat \<Rightarrow> byte) \<Rightarrow> client_code \<Rightarrow> (nat \<Rightarrow> byte list) \<Rightarrow> world \<Rightarrow> bool"
  for junk client fmt where
  start: "\<lbrakk>w_tasks w = []; w_syncMessages w = []; w_didSchedule w = {}; \<And>c. c_incomingMessages (w_conns w c) = []\<rbrakk>
    \<Longrightarrow> conn_reachable junk client fmt w"
| step: "\<lbrakk>conn_reachable junk client fmt w; conn_step junk client fmt w w'\<rbrakk> \<Longrightarrow> conn_reachable junk client fmt w'"

lemma take_message_length: "take_message key ms = Some (m, ms') \<Longrightarrow> length ms' \<le> length ms"
  by (induction ms arbitrary: ms') (auto split: if_splits option.splits)

lemma orderly_queue_step: "orderly (queue_step accepts)"
proof -
  have lg: "orderly (fold (\<lambda>e. log_event (Sent c e)) es)" for c es
  proof (induction es)
    case Nil
    show ?case using orderly_id by (simp add: id_def)
  next
    case (Cons e es)
    show ?case using orderly_compose [OF Cons.IH orderly_log] by (simp add: comp_def)
  qed
  have u: "orderly (upd c (\<lambda>k. k\<lparr>c_outgoingMessages := es\<rparr>))" for c es by (rule orderly_upd) simp
  have s: "orderly (sendOutgoingMessages accepts c)" for c
    unfolding orderly_def sendOutgoingMessages_def
    using orderlyD [OF orderly_compose [OF lg u]] by (simp split: prod.split)
  have p: "orderly (platformInvalidate c)" for c unfolding platformInvalidate_def by (rule orderly_upd) simp
  have a: "orderly (addWorkQueueMessageReceiverOnConnectionWorkQueue c n q r)" for c n q r
    unfolding addWorkQueueMessageReceiverOnConnectionWorkQueue_def by (rule orderly_upd) simp
  have r: "orderly (removeWorkQueueMessageReceiverOnConnectionWorkQueue c n)" for c n
    unfolding removeWorkQueueMessageReceiverOnConnectionWorkQueue_def by (rule orderly_upd) simp
  have t: "orderly (run_queue_task accepts t)" for t
    by (cases t) (simp_all add: run_queue_task_def [abs_def] s p a r)
  have "orderly (\<lambda>w. w\<lparr>w_queue_tasks := ts\<rparr>)" for ts by (rule orderly_frame) simp_all
  from orderly_compose [OF t this] show ?thesis
    unfolding orderly_def queue_step_def by (simp split: list.split)
qed

lemma conn_step_ok:
  assumes cl: "orderly_client client" and "conn_step junk client fmt w w'" and w: "delivery_inv w"
  shows "delivery_inv w'"
  using assms(2)
proof cases
  case (arrive c m)
  then show ?thesis using orderlyD(1) [OF orderly_processIncomingMessage w] by simp
next
  case run_loop
  then show ?thesis using run_loop_step_ok [OF cl w] by simp
next
  case (queue accepts)
  then show ?thesis using orderlyD(1) [OF orderly_queue_step w] by simp
next
  case (send c e flags)
  then show ?thesis using orderlyD(1) [OF orderly_sendMessage w] by simp
next
  case (create_sync c r n i)
  then show ?thesis using orderlyD(1) [OF orderly_upd w] by (simp add: createSyncMessageEncoder_def Let_def)
next
  case (sync_begin c i e)
  let ?f = "\<lambda>k. k\<lparr>c_pendingSyncReplies := c_pendingSyncReplies k @ [PendingSyncReply i], c_inSendSyncCount := c_inSendSyncCount k + 1\<rparr>"
  have "orderly (upd c ?f)" by (rule orderly_upd) simp
  from orderlyD(1) [OF orderly_compose [OF orderly_sendMessage this] w]
  have "delivery_inv (snd (sendMessage c e DispatchMessageEvenWhenWaitingForSyncReply (upd c ?f w)))" .
  moreover have "delivery_inv (didFailToSendSyncMessage c w)"
    using w by (simp add: didFailToSendSyncMessage_def delivery_inv_def)
  ultimately show ?thesis using sync_begin by (simp add: sendSync_begin_def Let_def case_prod_beta)
next
  case sync_round
  then show ?thesis using orderlyD(1) [OF orderly_dispatchMessages [OF cl] w] by simp
next
  case (sync_end c reply)
  let ?w = "upd c (\<lambda>k. k\<lparr>c_inSendSyncCount := c_inSendSyncCount k - 1, c_pendingSyncReplies := butlast (c_pendingSyncReplies k)\<rparr>) w"
  have "delivery_inv ?w" by (rule orderlyD(1) [OF orderly_upd w]) simp
  then show ?thesis using sync_end by (simp add: sendSync_end_def didFailToSendSyncMessage_def Let_def delivery_inv_def)
next
  case (secondary_begin c i e)
  let ?f = "\<lambda>k. k\<lparr>c_secondaryReplies := (c_secondaryReplies k)(i \<mapsto> \<lparr>sr_replyDecoder = None, sr_signalled = False\<rparr>)\<rparr>"
  have "orderly (upd c ?f)" by (rule orderly_upd) simp
  from orderlyD(1) [OF orderly_compose [OF orderly_sendMessage this] w] show ?thesis
    using secondary_begin by (auto simp: secondary_begin_def split: if_splits)
next
  case (secondary_end c i)
  then show ?thesis using orderlyD(1) [OF orderly_upd w] by (simp add: secondary_end_def)
next
  case (wait_check c key)
  show ?thesis
  proof (cases "take_message key (c_incomingMessages (w_conns w c))")
    case (Some p)
    obtain m ms where p: "p = (m, ms)" by fastforce
    have "length (c_incomingMessages (w_conns (upd c (\<lambda>k. k\<lparr>c_incomingMessages := ms\<rparr>) w) c'))
        \<le> length (c_incomingMessages (w_conns w c'))" for c'
      using take_message_length Some p by (cases "c' = c") fastforce+
    then have "delivery_inv (upd c (\<lambda>k. k\<lparr>c_incomingMessages := ms\<rparr>) w)" by (intro delivery_frame [OF w]) simp_all
    then show ?thesis using wait_check Some p by (simp add: wait_check_def)
  qed (use wait_check w in \<open>simp add: wait_check_def\<close>)
next
  case (wait_insert c key)
  then show ?thesis using orderlyD(1) [OF orderly_upd w] by (simp add: wait_insert_def)
next
  case (wait_poll c key)
  then show ?thesis using orderlyD(1) [OF orderly_upd w] w by (auto simp: wait_poll_def split: option.split)
next
  case (wait_timeout c key)
  then show ?thesis using orderlyD(1) [OF orderly_upd w] by (simp add: wait_timeout_def)
next
  case (close c)
  have in1: "c_incomingMessages (w_conns (connectionDidClose c w) c') = c_incomingMessages (w_conns w c')" for c'
    by (cases "c' = c") (simp_all add: connectionDidClose_def platformInvalidate_def Let_def)
  show ?thesis
    using w in1 unfolding close delivery_inv_def
    by (auto simp: connectionDidClose_def platformInvalidate_def Let_def)
next
  case (invalidate c)
  have "orderly (\<lambda>w. queue_dispatch (PlatformInvalidate c) (upd c (\<lambda>k. k\<lparr>c_client := False\<rparr>) w))"
    by (rule orderly_compose [OF orderly_queue_dispatch orderly_upd]) simp
  from orderlyD(1) [OF this w] show ?thesis using invalidate w by (simp add: invalidate_def)
next
  case (mark_invalid c)
  then show ?thesis using orderlyD(1) [OF orderly_upd w] by (simp add: markCurrentlyDispatchedMessageAsInvalid_def)
qed


text \<open>A client that keeps the state as it is and answers every synchronous message with the empty reply.\<close>

definition quiet_client :: client_code where
  "quiet_client = \<lparr>cc_didReceiveMessage = \<lambda>c m w. (m, w), cc_didReceiveSyncMessage = \<lambda>c m e w. (m, Some e, w),
     cc_didReceiveInvalidMessage = \<lambda>c r n w. w, cc_didClose = \<lambda>c w. w\<rparr>"

definition sample_world :: world where
  "sample_world = \<lparr>w_conns = \<lambda>_. new_connection, w_didSchedule = {}, w_syncMessages = [], w_semaphore = False,
     w_tasks = [], w_queue_tasks = [], w_receiver_tasks = [], w_exited = False, w_log = []\<rparr>"

definition simple_message :: "byte \<Rightarrow> byte list \<Rightarrow> byte list \<Rightarrow> 64 word \<Rightarrow> message" where
  "simple_message flags r n i = \<lparr>m_decoder = ArgumentDecoder 4096 [] [], m_messageFlags = flags,
     m_messageReceiverName = r, m_messageName = n, m_destinationID = i\<rparr>"

lemma simple_message_simps [simp]:
  "m_messageReceiverName (simple_message f r n i) = r" "m_messageName (simple_message f r n i) = n"
  "m_destinationID (simple_message f r n i) = i" "m_messageFlags (simple_message f r n i) = f"
  by (simp_all add: simple_message_def)

lemma orderly_quiet: "orderly_client quiet_client"
  by (simp add: orderly_client_def quiet_client_def orderly_def)

lemma sample_world_simps [simp]:
  "w_tasks sample_world = []" "w_syncMessages sample_world = []" "w_didSchedule sample_world = {}"
  "w_conns sample_world c = new_connection" "w_log sample_world = []"
  by (simp_all add: sample_world_def)

lemma new_connection_simps [simp]:
  "c_client new_connection" "c_incomingMessages new_connection = []" "c_workQueueMessageReceivers new_connection = Map.empty"
  "c_waitForMessageMap new_connection = Map.empty" "c_pendingSyncReplies new_connection = []"
  "c_shouldWaitForSyncReplies new_connection" "\<not> c_didReceiveInvalidMessage new_connection"
  by (simp_all add: new_connection_def)

lemma names_differ [simp]: "[80] \<noteq> IPC_name" "IPC_name \<noteq> []"
  by (simp_all add: IPC_name_def)

lemma flags_simps [simp]:
  "shouldDispatchMessageWhenWaitingForSyncReply (simple_message 2 r n i)"
  "\<not> shouldDispatchMessageWhenWaitingForSyncReply (simple_message 0 r n i)"
  "\<not> isSyncMessage (simple_message 0 r n i)" "\<not> isSyncMessage (simple_message 2 r n i)"
  by (simp_all add: shouldDispatchMessageWhenWaitingForSyncReply_def isSyncMessage_def
      DispatchMessageWhenWaitingForSyncReply_def SyncMessage_def)

definition sample_arrived :: world where
  "sample_arrived = processIncomingMessage (\<lambda>_. []) 0 (simple_message 0 [80] [71] 5)
     (processIncomingMessage (\<lambda>_. []) 0 (simple_message 2 [80] [72] 5) sample_world)"

definition sample_idle :: world where
  "sample_idle = run_loop_step (\<lambda>_. 0) quiet_client (run_loop_step (\<lambda>_. 0) quiet_client sample_arrived)"

lemma sample_arrived_tasks: "w_tasks sample_arrived = [DispatchMessagesForConnection 0, DispatchOneMessage 0]"
  by (simp add: sample_arrived_def processIncomingMessage_def SyncMessageState_processIncomingMessage_def
      enqueueIncomingMessage_def Let_def)

lemma quiet_tasks: "\<not> isSyncMessage m \<Longrightarrow> w_tasks (conn_dispatchMessage junk quiet_client c m w) = w_tasks w"
  by (simp add: conn_dispatchMessage_def quiet_client_def dispatch_to_client_def Let_def)

lemma sample_arrived_messages:
  "w_syncMessages sample_arrived = [(0, simple_message 2 [80] [72] 5)]"
  "c_incomingMessages (w_conns sample_arrived 0) = [simple_message 0 [80] [71] 5]"
  by (simp_all add: sample_arrived_def processIncomingMessage_def SyncMessageState_processIncomingMessage_def
      enqueueIncomingMessage_def Let_def)

lemma quiet_incoming:
  "\<not> isSyncMessage m \<Longrightarrow> c_incomingMessages (w_conns (conn_dispatchMessage junk quiet_client c m w) c) = c_incomingMessages (w_conns w c)"
  by (simp add: conn_dispatchMessage_def quiet_client_def dispatch_to_client_def Let_def)

lemma sample_idle_tasks: "w_tasks sample_idle = []"
proof -
  let ?w = "run_loop_step (\<lambda>_. 0) quiet_client sample_arrived"
  have "w_tasks ?w = [DispatchOneMessage 0]"
    by (simp add: run_loop_step_def sample_arrived_tasks run_task_def dispatchMessageAndReset_def dispatchMessages_def
        sample_arrived_messages quiet_tasks)
  moreover have "c_incomingMessages (w_conns ?w 0) = [simple_message 0 [80] [71] 5]"
    by (simp add: run_loop_step_def sample_arrived_tasks run_task_def dispatchMessageAndReset_def dispatchMessages_def
        sample_arrived_messages quiet_incoming)
  ultimately show ?thesis
    unfolding sample_idle_def run_loop_step_def [of _ _ ?w] by (simp add: run_task_def dispatchOneMessage_def quiet_tasks)
qed

lemma sample_idle_reachable: "conn_reachable (\<lambda>_. 0) quiet_client (\<lambda>_. []) sample_idle"
proof -
  let ?r = "conn_reachable (\<lambda>_. 0) quiet_client (\<lambda>_. [])"
  have 0: "?r sample_world" by (rule conn_reachable.start) simp_all
  have 1: "?r sample_arrived"
    unfolding sample_arrived_def
    by (rule conn_reachable.step [OF conn_reachable.step [OF 0 conn_step.arrive] conn_step.arrive])
  show ?thesis
    unfolding sample_idle_def
    by (rule conn_reachable.step [OF conn_reachable.step [OF 1 conn_step.run_loop] conn_step.run_loop])
qed


subsection \<open>Replies to synchronous messages\<close>

lemma dispatchMessages_empty [simp]: "w_syncMessages w = [] \<Longrightarrow> dispatchMessages junk client a w = w"
  by (simp add: dispatchMessages_def)

definition is_reply :: "message \<Rightarrow> 64 word \<Rightarrow> bool" where
  "is_reply m i \<longleftrightarrow> m_messageReceiverName m = IPC_name \<and> m_messageName m = SyncMessageReply_name \<and> m_destinationID m = i"

definition answered :: "64 word \<Rightarrow> message \<Rightarrow> pending_reply" where
  "answered i m = \<lparr>pr_syncRequestID = i, pr_replyDecoder = Some m, pr_didReceiveReply = True\<rparr>"

lemma deliver_reply_append:
  "deliver_reply m (ps @ qs) = (case deliver_reply m qs of
     Some (isTop, qs') \<Rightarrow> Some (isTop, ps @ qs')
   | None \<Rightarrow> (case deliver_reply m ps of
       Some (isTop, ps') \<Rightarrow> Some (isTop \<and> qs = [], ps' @ qs) | None \<Rightarrow> None))"
  by (induction ps) (auto split: option.split prod.split)

lemma deliver_reply_hit:
  "m_destinationID m = pr_syncRequestID p \<Longrightarrow>
   deliver_reply m (ps @ [p]) = Some (True, ps @ [p\<lparr>pr_replyDecoder := Some m, pr_didReceiveReply := True\<rparr>])"
  by (simp add: deliver_reply_append)

lemma deliver_reply_below:
  "\<lbrakk>m_destinationID m = pr_syncRequestID p; m_destinationID m \<noteq> pr_syncRequestID q\<rbrakk> \<Longrightarrow>
   deliver_reply m (ps @ [p, q]) = Some (False, ps @ [p\<lparr>pr_replyDecoder := Some m, pr_didReceiveReply := True\<rparr>, q])"
  by (simp add: deliver_reply_append)

lemma sendSync_begin_ok:
  assumes "isValid c w" and "c_shouldWaitForSyncReplies (w_conns w c)" and "w_syncMessages w = []"
  obtains w1 where "sendSync_begin c j e w = (Some w1, w1)" and "isValid c w1"
    and "c_shouldWaitForSyncReplies (w_conns w1 c)" and "w_syncMessages w1 = []"
    and "c_pendingSyncReplies (w_conns w1 c) = c_pendingSyncReplies (w_conns w c) @ [PendingSyncReply j]"
    and "c_shouldExitOnSyncMessageSendFailure (w_conns w1 c) = c_shouldExitOnSyncMessageSendFailure (w_conns w c)"
    and "w_exited w1 = w_exited w"
  using assms that
  by (simp add: sendSync_begin_def sendMessage_def isValid_def Let_def queue_dispatch_def)

lemma wait_round:
  assumes "w_syncMessages w = []" and "c_pendingSyncReplies (w_conns w c) = ps @ [PendingSyncReply j]"
    and "c_shouldWaitForSyncReplies (w_conns w c)" and "isValid c w"
  shows "waitForSyncReply junk client c (Some f # ws) w = waitForSyncReply junk client c ws ((f w)\<lparr>w_semaphore := False\<rparr>)"
  using assms by (subst waitForSyncReply.simps) (simp add: PendingSyncReply_def)


definition sample_nested :: world where
  "sample_nested = upd 0 (\<lambda>k. k\<lparr>c_pendingSyncReplies := [PendingSyncReply 1]\<rparr>) sample_world"


text \<open>When the connection closes, a thread that waits for the reply to a synchronous message stops
  waiting without a reply, its request is taken from the stack again, and the process exits if it was
  told to exit in that case.\<close>

theorem close_ends_sync_wait:
  assumes "isValid c w" and "c_shouldWaitForSyncReplies (w_conns w c)" and "w_syncMessages w = []"
  shows "\<exists>w'. sendSyncMessage junk client c j e [Some (connectionDidClose c)] w = Returned None w' \<and>
      c_pendingSyncReplies (w_conns w' c) = c_pendingSyncReplies (w_conns w c) \<and>
      w_exited w' = (w_exited w \<or> c_shouldExitOnSyncMessageSendFailure (w_conns w c)) \<and>
      DispatchConnectionDidClose c \<in> set (w_tasks w')"
proof -
  obtain w1 where w1: "sendSync_begin c j e w = (Some w1, w1)" "isValid c w1"
      "c_shouldWaitForSyncReplies (w_conns w1 c)" "w_syncMessages w1 = []"
      "c_pendingSyncReplies (w_conns w1 c) = c_pendingSyncReplies (w_conns w c) @ [PendingSyncReply j]"
      "c_shouldExitOnSyncMessageSendFailure (w_conns w1 c) = c_shouldExitOnSyncMessageSendFailure (w_conns w c)"
      "w_exited w1 = w_exited w"
    by (rule sendSync_begin_ok [OF assms, of j e])
  define w2 where "w2 = (connectionDidClose c w1)\<lparr>w_semaphore := False\<rparr>"
  have w2: "\<not> c_shouldWaitForSyncReplies (w_conns w2 c)" "w_syncMessages w2 = []"
      "c_pendingSyncReplies (w_conns w2 c) = c_pendingSyncReplies (w_conns w c) @ [PendingSyncReply j]"
      "c_shouldExitOnSyncMessageSendFailure (w_conns w2 c) = c_shouldExitOnSyncMessageSendFailure (w_conns w c)"
      "w_exited w2 = w_exited w" "DispatchConnectionDidClose c \<in> set (w_tasks w2)"
    using w1 by (simp_all add: w2_def connectionDidClose_def platformInvalidate_def Let_def log_event_def run_loop_dispatch_def)
  have "waitForSyncReply junk client c [Some (connectionDidClose c)] w1 = waitForSyncReply junk client c [] w2"
    using wait_round [OF w1(4,5,3,2)] by (simp add: w2_def)
  also have "\<dots> = Returned None (upd c (\<lambda>k. k\<lparr>c_pendingSyncReplies :=
      butlast (c_pendingSyncReplies k) @ [(PendingSyncReply j)\<lparr>pr_replyDecoder := None\<rparr>]\<rparr>) w2)"
    using w2 by (subst waitForSyncReply.simps) (simp add: PendingSyncReply_def)
  finally show ?thesis
    using w1(1) w2 by (simp add: sendSyncMessage_def sendSync_end_def didFailToSendSyncMessage_def Let_def)
qed

theorem close_ends_sync_wait_witness:
  "\<exists>w'. sendSyncMessage (\<lambda>_. 0) quiet_client 0 2 (ArgumentEncoder (\<lambda>_. 0)) [Some (connectionDidClose 0)] sample_nested = Returned None w' \<and>
      c_pendingSyncReplies (w_conns w' 0) = c_pendingSyncReplies (w_conns sample_nested 0) \<and>
      w_exited w' = (w_exited sample_nested \<or> c_shouldExitOnSyncMessageSendFailure (w_conns sample_nested 0)) \<and>
      DispatchConnectionDidClose 0 \<in> set (w_tasks w')"
  by (rule close_ends_sync_wait) (simp_all add: sample_nested_def isValid_def)

subsection \<open>Two races\<close>

text \<open>A message for the client that nothing intercepts.\<close>

definition ordinary :: "nat \<Rightarrow> message \<Rightarrow> world \<Rightarrow> bool" where
  "ordinary c m w \<longleftrightarrow> m_messageReceiverName m \<noteq> [] \<and> m_messageReceiverName m \<noteq> IPC_name \<and>
     c_workQueueMessageReceivers (w_conns w c) (m_messageReceiverName m) = None \<and>
     \<not> shouldDispatchMessageWhenWaitingForSyncReply m"

lemma processIncomingMessage_ordinary:
  "ordinary c m w \<Longrightarrow> processIncomingMessage fmt c m w =
     (if c_waitForMessageMap (w_conns w c) (message_key m) \<noteq> None
      then upd c (\<lambda>k. k\<lparr>c_waitForMessageMap := (c_waitForMessageMap k)(message_key m \<mapsto> Some m)\<rparr>) w
      else enqueueIncomingMessage c m w)"
  by (auto simp: ordinary_def processIncomingMessage_def SyncMessageState_processIncomingMessage_def message_key_def Let_def)

text \<open>C16: A thread that waits for a message gets it when it arrives during the wait.  When it arrives
  after the thread has looked through the queue and before the thread has said what it waits for, it is
  put into the queue and the thread waits until it times out, although the message is there.\<close>

theorem wait_for_message_race:
  assumes o: "ordinary c m w" and q: "take_message (message_key m) (c_incomingMessages (w_conns w c)) = None"
    and free: "c_waitForMessageMap (w_conns w c) (message_key m) = None"
  shows "(\<exists>w'. waitForMessage c (message_key m) (\<lambda>w. w) [Some (processIncomingMessage fmt c m)] w = Returned (Some m) w') \<and>
    (\<exists>w'. waitForMessage c (message_key m) (processIncomingMessage fmt c m) [None] w = Returned None w' \<and>
      m \<in> set (c_incomingMessages (w_conns w' c)))"
proof (rule conjI)
  let ?k = "message_key m"
  let ?w1 = "wait_insert c ?k w"
  have k: "c_waitForMessageMap (w_conns ?w1 c) ?k = Some None" by (simp add: wait_insert_def)
  have "ordinary c m ?w1" using o by (simp add: ordinary_def wait_insert_def)
  from processIncomingMessage_ordinary [OF this] k
  have p: "processIncomingMessage fmt c m ?w1 = upd c (\<lambda>k. k\<lparr>c_waitForMessageMap := (c_waitForMessageMap k)(?k \<mapsto> Some m)\<rparr>) ?w1"
    by simp
  have "waitForMessage c ?k (\<lambda>w. w) [Some (processIncomingMessage fmt c m)] w = wait_loop c ?k [] (processIncomingMessage fmt c m ?w1)"
    using q k by (simp add: waitForMessage_def wait_check_def wait_loop.simps [of _ _ "[Some _]"] wait_poll_def)
  then show "\<exists>w'. waitForMessage c ?k (\<lambda>w. w) [Some (processIncomingMessage fmt c m)] w = Returned (Some m) w'"
    by (simp add: p wait_loop.simps wait_poll_def)
  have "waitForMessage c ?k (processIncomingMessage fmt c m) [None] w
      = Returned None (wait_timeout c ?k (wait_insert c ?k (enqueueIncomingMessage c m w)))"
    using q free processIncomingMessage_ordinary [OF o]
    by (simp add: waitForMessage_def wait_check_def wait_loop.simps wait_poll_def) (simp add: wait_insert_def)
  then show "\<exists>w'. waitForMessage c ?k (processIncomingMessage fmt c m) [None] w = Returned None w' \<and>
      m \<in> set (c_incomingMessages (w_conns w' c))"
    by (simp add: wait_timeout_def wait_insert_def enqueueIncomingMessage_def)
qed

theorem wait_for_message_race_witness:
  "(\<exists>w'. waitForMessage 0 (message_key (simple_message 0 [80] [71] 5)) (\<lambda>w. w)
       [Some (processIncomingMessage (\<lambda>_. []) 0 (simple_message 0 [80] [71] 5))] sample_world
       = Returned (Some (simple_message 0 [80] [71] 5)) w') \<and>
   (\<exists>w'. waitForMessage 0 (message_key (simple_message 0 [80] [71] 5))
       (processIncomingMessage (\<lambda>_. []) 0 (simple_message 0 [80] [71] 5)) [None] sample_world = Returned None w' \<and>
     simple_message 0 [80] [71] 5 \<in> set (c_incomingMessages (w_conns w' 0)))"
  by (rule wait_for_message_race) (simp_all add: ordinary_def)

text \<open>A client during whose call a message arrives for connection \<open>b\<close>.\<close>

definition arriving_client :: "(nat \<Rightarrow> byte list) \<Rightarrow> nat \<Rightarrow> message \<Rightarrow> client_code" where
  "arriving_client fmt b m = quiet_client\<lparr>cc_didReceiveMessage := \<lambda>c m' w. (m', processIncomingMessage fmt b m w)\<rparr>"

text \<open>A message that is marked to be dispatched during a wait, and that nothing intercepts.\<close>

definition urgent :: "nat \<Rightarrow> message \<Rightarrow> world \<Rightarrow> bool" where
  "urgent c m w \<longleftrightarrow> m_messageReceiverName m \<noteq> [] \<and> m_messageReceiverName m \<noteq> IPC_name \<and>
     c_workQueueMessageReceivers (w_conns w c) (m_messageReceiverName m) = None \<and>
     shouldDispatchMessageWhenWaitingForSyncReply m"

lemma urgent_queued:
  "urgent c m w \<Longrightarrow> w_syncMessages (processIncomingMessage fmt c m w) = w_syncMessages w @ [(c, m)]"
  by (simp add: urgent_def processIncomingMessage_def SyncMessageState_processIncomingMessage_def Let_def)

text \<open>Messages of a connection can change their order: the messages of other connections that are
  put back go behind those that arrived while a message of this connection was being dispatched.\<close>

theorem put_back_reorders:
  assumes "a \<noteq> b" and "isValid a w" and "\<not> isSyncMessage mA" and "w_syncMessages w = [(b, mB), (a, mA)]"
    and "urgent b mC w"
  shows "w_syncMessages (dispatchMessageAndReset junk (arriving_client fmt b mC) a w) = [(b, mC), (b, mB)]"
proof -
  let ?w = "w\<lparr>w_didSchedule := w_didSchedule w - {a}, w_syncMessages := []\<rparr>"
  let ?cl = "arriving_client fmt b mC"
  have q: "w_syncMessages (conn_dispatchMessage junk ?cl a mA ?w) = [(b, mC)]"
  proof -
    have u: "urgent b mC (log_event x (upd a f ?w))" for x f
      using assms(1,5) by (simp add: urgent_def)
    show ?thesis
      using assms(2,3) urgent_queued [OF u, of fmt]
      by (simp add: conn_dispatchMessage_def arriving_client_def quiet_client_def dispatch_to_client_def isValid_def Let_def)
  qed
  then show ?thesis
    using assms(1,4) by (simp add: dispatchMessageAndReset_def dispatchMessages_def)
qed

definition sample_two :: world where
  "sample_two = sample_world\<lparr>w_syncMessages := [(1, simple_message 2 [80] [65] 5), (0, simple_message 2 [80] [66] 5)], w_didSchedule := {0, 1}\<rparr>"

theorem put_back_reorders_witness:
  "w_syncMessages (dispatchMessageAndReset (\<lambda>_. 0) (arriving_client (\<lambda>_. []) 1 (simple_message 2 [80] [67] 5)) 0 sample_two)
    = [(1, simple_message 2 [80] [67] 5), (1, simple_message 2 [80] [65] 5)]"
  by (rule put_back_reorders [where mA = "simple_message 2 [80] [66] 5"])
    (simp_all add: sample_two_def isValid_def urgent_def)

end
