(* ===== verification/IPC_Unix.thy ===== *)
theory IPC_Unix
  imports IPC_Arguments
begin

text \<open>
  Messages on a Unix domain socket (\<^verbatim>\<open>Platform/IPC/unix/ConnectionUnix.cpp\<close>): how a message
  and its file descriptors are put into one packet, large bodies into shared memory, and how the
  receiver takes them out of its read buffer again.  Structures are copied to the socket as they
  are in memory (64-bit layout, padding indeterminate).
\<close>

subsection \<open>Structures in the packet\<close>

definition messageMaxSize :: nat where "messageMaxSize = 4096"

definition attachmentMaxAmount :: nat where "attachmentMaxAmount = 255"

text \<open>\<^verbatim>\<open>MessageInfo\<close>: two sizes, a \<^verbatim>\<open>bool\<close> and padding.\<close>

record message_info =
  i_bodySize :: "64 word"
  i_attachmentCount :: "64 word"
  i_isMessageBodyOutOfLine :: bool

definition MessageInfo :: "nat \<Rightarrow> nat \<Rightarrow> message_info" where
  "MessageInfo bodySize attachmentCount =
     \<lparr>i_bodySize = of_nat bodySize, i_attachmentCount = of_nat attachmentCount, i_isMessageBodyOutOfLine = False\<rparr>"

definition setMessageBodyIsOutOfLine :: "message_info \<Rightarrow> message_info" where
  "setMessageBodyIsOutOfLine i =
     i\<lparr>i_isMessageBodyOutOfLine := True, i_attachmentCount := i_attachmentCount i + 1\<rparr>"

definition sizeof_info :: nat where "sizeof_info = 24"

definition info_bytes :: "byte list \<Rightarrow> message_info \<Rightarrow> byte list" where
  "info_bytes padding i = le_bytes 8 (unat (i_bodySize i)) @ le_bytes 8 (unat (i_attachmentCount i)) @
     [if i_isMessageBodyOutOfLine i then 1 else 0] @ take 7 padding"

definition read_info :: "byte list \<Rightarrow> message_info" where
  "read_info bs = \<lparr>i_bodySize = of_nat (le_value (take 8 bs)), i_attachmentCount = of_nat (le_value (take 8 (drop 8 bs))),
     i_isMessageBodyOutOfLine = (bs ! 16 \<noteq> 0)\<rparr>"

text \<open>\<^verbatim>\<open>AttachmentInfo\<close>: the type as a number, a size, a \<^verbatim>\<open>bool\<close>, and padding.\<close>

record attachment_info =
  t_type :: nat
  t_size :: "64 word"
  t_isNull :: bool

definition type_number :: "attachment_type \<Rightarrow> nat" where
  "type_number t = (case t of Uninitialized \<Rightarrow> 0 | SocketType \<Rightarrow> 1 | MappedMemoryType \<Rightarrow> 2)"

definition attachment_bytes :: "byte list \<Rightarrow> attachment_info \<Rightarrow> byte list" where
  "attachment_bytes padding t = le_bytes 4 (t_type t) @ take 4 padding @ le_bytes 8 (unat (t_size t)) @
     [if t_isNull t then 1 else 0] @ take 7 (drop 4 padding)"

definition read_attachment :: "byte list \<Rightarrow> attachment_info" where
  "read_attachment bs = \<lparr>t_type = le_value (take 4 bs), t_size = of_nat (le_value (take 8 (drop 8 bs))),
     t_isNull = (bs ! 16 \<noteq> 0)\<rparr>"

text \<open>\<^verbatim>\<open>memcpy\<close> of \<open>n\<close> of them.\<close>

primrec read_attachments :: "nat \<Rightarrow> byte list \<Rightarrow> attachment_info list" where
  "read_attachments 0 bs = []"
| "read_attachments (Suc n) bs = read_attachment (take 24 bs) # read_attachments n (drop 24 bs)"

subsection \<open>Sending\<close>

text \<open>The switch over the type: what is sent for an attachment, and the descriptor if there is one.\<close>

definition describe_attachment :: "attachment \<Rightarrow> attachment_info \<times> int list" where
  "describe_attachment a =
     (let i = \<lparr>t_type = type_number (a_type a), t_size = 0, t_isNull = False\<rparr> in
      case a_type a of
        Uninitialized \<Rightarrow> (i, [])
      | _ \<Rightarrow>
        (let i = (if a_type a = MappedMemoryType then i\<lparr>t_size := of_nat (a_size a)\<rparr> else i) in
         if a_fileDescriptor a \<noteq> -1 then (i, [a_fileDescriptor a]) else (i\<lparr>t_isNull := True\<rparr>, [])))"

text \<open>
  \<open>sendOutgoingMessage\<close>: the bytes and descriptors given to \<^verbatim>\<open>sendmsg\<close>, or \<open>None\<close> when it
  returns \<^verbatim>\<open>false\<close> before.  \<open>shm\<close> puts bytes into new shared memory and gives a descriptor for it.
\<close>

definition sendOutgoingMessage ::
  "(byte list \<Rightarrow> int option) \<Rightarrow> byte list \<Rightarrow> byte list \<Rightarrow> attachment list \<Rightarrow> (byte list \<times> int list) option" where
  "sendOutgoingMessage shm padding body attachments =
     (if length attachments > attachmentMaxAmount - 1 then None
      else
        let messageInfo = MessageInfo (length body) (length attachments);
            messageSizeWithBodyInline = sizeof_info + length attachments * 24 + length body;
            packet = (\<lambda>info atts. (info_bytes padding info @ concat (map (attachment_bytes padding \<circ> fst \<circ> describe_attachment) atts) @
              (if \<not> i_isMessageBodyOutOfLine info then body else []), concat (map (snd \<circ> describe_attachment) atts)))
        in if messageSizeWithBodyInline > messageMaxSize \<and> body \<noteq> []
           then (case shm body of
                None \<Rightarrow> None
              | Some fd \<Rightarrow> Some (packet (setMessageBodyIsOutOfLine messageInfo)
                  (attachments @ [\<lparr>a_type = MappedMemoryType, a_fileDescriptor = fd, a_size = length body\<rparr>])))
           else Some (packet messageInfo attachments))"

subsection \<open>Receiving\<close>

record unix_conn =
  u_readBuffer :: "byte list"
  u_readBufferSize :: nat
  u_fileDescriptors :: "int list"
  u_fileDescriptorsSize :: "64 word"

definition platformInitialize :: unix_conn where
  "platformInitialize = \<lparr>u_readBuffer = replicate messageMaxSize 0, u_readBufferSize = 0,
     u_fileDescriptors = replicate attachmentMaxAmount 0, u_fileDescriptorsSize = 0\<rparr>"

text \<open>
  Results of \<open>processMessage\<close>: it returned \<^verbatim>\<open>false\<close>; it crashed on a failed check or a null
  pointer; it read outside the memory it was given; or it handed a message over and returned
  \<^verbatim>\<open>true\<close>.
\<close>

datatype processed =
    NotYet
  | Crashed
  | ReadOutOfBounds
  | Handed "byte list" "attachment list" unix_conn

text \<open>The loop over the attachments, \<open>k\<close> descriptors having been used: \<open>None\<close> on an index check failure.\<close>

fun take_attachments :: "int \<Rightarrow> int list \<Rightarrow> nat \<Rightarrow> attachment_info list \<Rightarrow> attachment list option" where
  "take_attachments uninit fds k [] = Some []"
| "take_attachments uninit fds k (t # ts) =
     (let a = (\<lambda>ty fd. \<lparr>a_type = ty, a_fileDescriptor = fd, a_size = (if ty = MappedMemoryType then unat (t_size t) else 0)\<rparr>) in
      if t_type t = 1 \<or> t_type t = 2
      then (let ty = (if t_type t = 2 then MappedMemoryType else SocketType) in
            if t_isNull t then map_option ((#) (a ty (-1))) (take_attachments uninit fds k ts)
            else if k < length fds then map_option ((#) (a ty (fds ! k))) (take_attachments uninit fds (Suc k) ts)
            else None)
      else map_option ((#) \<lparr>a_type = Uninitialized, a_fileDescriptor = uninit, a_size = 0\<rparr>) (take_attachments uninit fds k ts))"

definition counts_descriptor :: "attachment_info \<Rightarrow> bool" where
  "counts_descriptor t \<longleftrightarrow> (t_type t = 1 \<or> t_type t = 2) \<and> \<not> t_isNull t"

text \<open>
  \<^verbatim>\<open>memmove\<close> of \<open>n\<close> bytes within an array of 4-byte integers, from element \<open>src\<close> to the
  beginning; \<open>None\<close> when it leaves the array.  The last element may be replaced in its low bytes only.
\<close>

definition replace_low :: "nat \<Rightarrow> int \<Rightarrow> int \<Rightarrow> int" where
  "replace_low k new old = old - old mod 256 ^ k + new mod 256 ^ k"

definition move_ints :: "nat \<Rightarrow> nat \<Rightarrow> int list \<Rightarrow> int list option" where
  "move_ints src n fds =
     (let q = n div 4; r = n mod 4 in
      if r = 0
      then (if src + q \<le> length fds then Some (take q (drop src fds) @ drop q fds) else None)
      else (if src + q < length fds
            then Some (take q (drop src fds) @ replace_low r (fds ! (src + q)) (fds ! q) # drop (Suc q) fds) else None))"

text \<open>
  The end of \<open>processMessage\<close>: the length of the used descriptors is computed in bytes, and then
  used as a number of elements, both to find the rest and to count it.
\<close>

definition drop_descriptors :: "nat \<Rightarrow> unix_conn \<Rightarrow> unix_conn option" where
  "drop_descriptors count u =
     (if count = 0 then Some u
      else if unat (u_fileDescriptorsSize u) > count
      then
        let fileDescriptorsLength = of_nat (count * 4) :: 64 word
        in map_option (\<lambda>fds. u\<lparr>u_fileDescriptors := fds, u_fileDescriptorsSize := u_fileDescriptorsSize u - fileDescriptorsLength\<rparr>)
             (move_ints (unat fileDescriptorsLength) (unat (u_fileDescriptorsSize u - fileDescriptorsLength)) (u_fileDescriptors u))
      else Some (u\<lparr>u_fileDescriptorsSize := 0\<rparr>))"

text \<open>
  \<open>processMessage\<close>.  \<open>map_fd\<close> gives the memory behind a descriptor, \<open>alloc\<close> whether an allocation
  of that many bytes succeeds, \<open>uninit\<close> is the indeterminate descriptor of a default-constructed
  attachment.
\<close>

definition processMessage ::
  "(int \<Rightarrow> nat \<Rightarrow> byte list option) \<Rightarrow> (nat \<Rightarrow> bool) \<Rightarrow> int \<Rightarrow> unix_conn \<Rightarrow> processed" where
  "processMessage map_fd alloc uninit u =
     (if u_readBufferSize u < sizeof_info then NotYet
      else
        let messageInfo = read_info (u_readBuffer u);
            outOfLine = i_isMessageBodyOutOfLine messageInfo;
            messageLength = unat (24 + i_attachmentCount messageInfo * 24 + (if outOfLine then 0 else i_bodySize messageInfo));
            n = unat (i_attachmentCount messageInfo)
        in if u_readBufferSize u < messageLength then NotYet
           else if n \<noteq> 0 \<and> (n * 24 \<ge> 2 ^ 64 \<or> \<not> alloc (n * 24)) then Crashed
           else if sizeof_info + n * 24 > length (u_readBuffer u) then ReadOutOfBounds
           else
             let infos = read_attachments n (drop sizeof_info (u_readBuffer u));
                 fdCount = length (filter counts_descriptor infos);
                 m = (if n \<noteq> 0 \<and> outOfLine then n - 1 else n)
             in case take_attachments uninit (u_fileDescriptors u) 0 (take m infos) of
                  None \<Rightarrow> Crashed
                | Some atts \<Rightarrow>
                    (let body = (if outOfLine
                          then (if n = 0 then Inl Crashed
                                else if t_isNull (infos ! m) then Inl NotYet
                                else if fdCount = 0 \<or> fdCount - 1 \<ge> length (u_fileDescriptors u) then Inl Crashed
                                else case map_fd (u_fileDescriptors u ! (fdCount - 1)) (unat (t_size (infos ! m))) of
                                    None \<Rightarrow> Inl NotYet
                                  | Some mem \<Rightarrow> Inr mem)
                          else Inr (drop (sizeof_info + n * 24) (u_readBuffer u)));
                         size = unat (i_bodySize messageInfo)
                     in case body of
                          Inl r \<Rightarrow> r
                        | Inr mem \<Rightarrow>
                            if \<not> alloc size then Crashed
                            else if size > length mem then ReadOutOfBounds
                            else
                              let u = (if u_readBufferSize u > messageLength
                                    then u\<lparr>u_readBuffer := take (u_readBufferSize u - messageLength) (drop messageLength (u_readBuffer u)) @
                                             drop (u_readBufferSize u - messageLength) (u_readBuffer u),
                                           u_readBufferSize := u_readBufferSize u - messageLength\<rparr>
                                    else u\<lparr>u_readBufferSize := 0\<rparr>)
                              in case drop_descriptors fdCount u of
                                   None \<Rightarrow> ReadOutOfBounds
                                 | Some u \<Rightarrow> Handed (take size mem) (rev atts) u))"

text \<open>
  One round of \<open>readyReadHandler\<close>: \<^verbatim>\<open>recvmsg\<close> puts the bytes and descriptors of a packet behind
  what is there; \<open>None\<close> when the place for the descriptors is not inside the array.
\<close>

definition receive_packet :: "byte list \<times> int list \<Rightarrow> unix_conn \<Rightarrow> unix_conn option" where
  "receive_packet p u =
     (let n = u_readBufferSize u; bs = take (length (u_readBuffer u) - n) (fst p); fds = snd p;
          k = unat (u_fileDescriptorsSize u)
      in if fds \<noteq> [] \<and> k + length fds > length (u_fileDescriptors u) then None
         else Some (u\<lparr>u_readBuffer := take n (u_readBuffer u) @ bs @ drop (n + length bs) (u_readBuffer u),
                u_readBufferSize := n + length bs,
                u_fileDescriptors := take k (u_fileDescriptors u) @ fds @ drop (k + length fds) (u_fileDescriptors u),
                u_fileDescriptorsSize := u_fileDescriptorsSize u + of_nat (length fds)\<rparr>))"

subsection \<open>Structures survive the copy\<close>

lemma unat_of_le_value: "unat w < 256 ^ 8 \<Longrightarrow> (of_nat (le_value (le_bytes 8 (unat w))) :: 64 word) = w"
  by (simp add: le_value_bytes)

lemma word64_less: "unat (w :: 64 word) < 256 ^ 8"
  using unsigned_less [of w] by simp

lemma read_info_bytes: "11 \<le> length padding \<Longrightarrow> read_info (info_bytes padding i @ rest) = i"
  unfolding read_info_def info_bytes_def
  by (simp add: unat_of_le_value [OF word64_less] nth_append)

lemma length_info_bytes: "11 \<le> length padding \<Longrightarrow> length (info_bytes padding i) = 24"
  by (simp add: info_bytes_def)

lemma length_attachment_bytes: "11 \<le> length padding \<Longrightarrow> length (attachment_bytes padding t) = 24"
  by (simp add: attachment_bytes_def)

lemma read_attachment_bytes:
  "\<lbrakk>11 \<le> length padding; t_type t < 256 ^ 4\<rbrakk> \<Longrightarrow> read_attachment (attachment_bytes padding t) = t"
  unfolding read_attachment_def attachment_bytes_def
  by (simp add: unat_of_le_value [OF word64_less] nth_append le_value_bytes)

lemma read_attachments_concat:
  "\<lbrakk>11 \<le> length padding; \<forall>t \<in> set ts. t_type t < 256 ^ 4\<rbrakk> \<Longrightarrow>
   read_attachments (length ts) (concat (map (attachment_bytes padding) ts) @ rest) = ts"
  by (induction ts) (simp_all add: length_attachment_bytes read_attachment_bytes)

lemma length_attachments_concat:
  "11 \<le> length padding \<Longrightarrow> length (concat (map (attachment_bytes padding) ts)) = length ts * 24"
  by (induction ts) (simp_all add: length_attachment_bytes)

subsection \<open>A packet is understood\<close>

text \<open>The attachments the program makes.\<close>

definition proper :: "attachment \<Rightarrow> bool" where
  "proper a \<longleftrightarrow> (case a_type a of Uninitialized \<Rightarrow> False | SocketType \<Rightarrow> a_size a = 0 | MappedMemoryType \<Rightarrow> a_size a < 2 ^ 64)"

lemma describe_proper:
  assumes "proper a"
  shows "t_type (fst (describe_attachment a)) < 256 ^ 4"
    and "length (snd (describe_attachment a)) = (if counts_descriptor (fst (describe_attachment a)) then 1 else 0)"
  using assms
  by (auto simp: proper_def describe_attachment_def counts_descriptor_def type_number_def Let_def split: attachment_type.split)

lemma take_attachments_proper:
  assumes p: "proper a"
  shows "take_attachments uninit (pre @ snd (describe_attachment a) @ post) (length pre) (fst (describe_attachment a) # ts)
    = map_option ((#) a) (take_attachments uninit (pre @ snd (describe_attachment a) @ post)
        (length (pre @ snd (describe_attachment a))) ts)"
proof -
  obtain ty fd sz where a: "a = \<lparr>a_type = ty, a_fileDescriptor = fd, a_size = sz\<rparr>" by (cases a)
  show ?thesis
    using p unfolding a
    by (cases ty) (auto simp: proper_def describe_attachment_def type_number_def Let_def unat_of_nat take_bit_nat_eq_self)
qed

lemma take_attachments_all:
  assumes "\<forall>a \<in> set atts. proper a"
  shows "take_attachments uninit (pre @ concat (map (snd \<circ> describe_attachment) atts) @ post) (length pre)
    (map (fst \<circ> describe_attachment) atts) = Some atts"
  using assms
proof (induction atts arbitrary: pre)
  case (Cons a atts)
  have "take_attachments uninit ((pre @ snd (describe_attachment a)) @ concat (map (snd \<circ> describe_attachment) atts) @ post)
      (length (pre @ snd (describe_attachment a))) (map (fst \<circ> describe_attachment) atts) = Some atts"
    using Cons.prems by (intro Cons.IH) simp
  then show ?case
    using take_attachments_proper [of a uninit pre "concat (map (snd \<circ> describe_attachment) atts) @ post"] Cons.prems
    by (simp add: comp_def del: take_attachments.simps)
qed simp

lemma count_descriptors:
  "\<forall>a \<in> set atts. proper a \<Longrightarrow>
   length (filter counts_descriptor (map (fst \<circ> describe_attachment) atts)) = length (concat (map (snd \<circ> describe_attachment) atts))"
  by (induction atts) (simp_all add: describe_proper(2))

lemma descriptors_le: "length (concat (map (snd \<circ> describe_attachment) atts)) \<le> length atts"
proof (induction atts)
  case (Cons a atts)
  have "length (snd (describe_attachment a)) \<le> 1"
    by (auto simp: describe_attachment_def Let_def split: attachment_type.split)
  then show ?case using Cons by simp
qed simp

text \<open>A connection that has nothing pending.\<close>

definition idle :: "unix_conn \<Rightarrow> bool" where
  "idle u \<longleftrightarrow> length (u_readBuffer u) = messageMaxSize \<and> u_readBufferSize u = 0 \<and>
     length (u_fileDescriptors u) = attachmentMaxAmount \<and> u_fileDescriptorsSize u = 0"

lemma receive_idle:
  assumes "idle u" and "length bs \<le> messageMaxSize" and "length fds \<le> attachmentMaxAmount"
  obtains u1 rb rf where "receive_packet (bs, fds) u = Some u1" and "u_readBuffer u1 = bs @ rb"
    and "u_readBufferSize u1 = length bs" and "u_fileDescriptors u1 = fds @ rf"
    and "u_fileDescriptorsSize u1 = of_nat (length fds)" and "length (u_readBuffer u1) = messageMaxSize"
    and "length (u_fileDescriptors u1) = attachmentMaxAmount"
  using assms that by (simp add: receive_packet_def idle_def Let_def)

lemma drop_all_descriptors:
  "\<lbrakk>u_fileDescriptorsSize u = of_nat n; n \<le> attachmentMaxAmount\<rbrakk> \<Longrightarrow>
   drop_descriptors n u = Some (u\<lparr>u_fileDescriptorsSize := 0\<rparr>)"
  by (simp add: drop_descriptors_def attachmentMaxAmount_def unat_of_nat take_bit_nat_eq_self)

text \<open>
  One round of receiving, when the packet holds the information \<open>info\<close>, the descriptions of \<open>atts\<close>
  and the bytes \<open>inline\<close>.
\<close>

lemma process_packet:
  assumes u: "idle u" and pad: "11 \<le> length padding" and pr: "\<forall>a \<in> set atts. proper a"
    and fit: "24 + length atts * 24 + length inline \<le> messageMaxSize"
    and info: "i_attachmentCount info = of_nat (length atts)"
      "\<not> i_isMessageBodyOutOfLine info \<Longrightarrow> i_bodySize info = of_nat (length inline)"
      "i_isMessageBodyOutOfLine info \<Longrightarrow> inline = []"
  obtains u1 rb rf where
    "receive_packet (info_bytes padding info @ concat (map (attachment_bytes padding \<circ> fst \<circ> describe_attachment) atts) @ inline,
       concat (map (snd \<circ> describe_attachment) atts)) u = Some u1"
    and "read_info (u_readBuffer u1) = info"
    and "u_readBufferSize u1 = 24 + length atts * 24 + length inline"
    and "unat (24 + i_attachmentCount info * 24 + (if i_isMessageBodyOutOfLine info then 0 else i_bodySize info)) = u_readBufferSize u1"
    and "unat (i_attachmentCount info) = length atts"
    and "read_attachments (length atts) (drop sizeof_info (u_readBuffer u1)) = map (fst \<circ> describe_attachment) atts"
    and "u_fileDescriptors u1 = concat (map (snd \<circ> describe_attachment) atts) @ rf"
    and "drop (sizeof_info + length atts * 24) (u_readBuffer u1) = inline @ rb"
    and "u_fileDescriptorsSize u1 = of_nat (length (concat (map (snd \<circ> describe_attachment) atts)))"
    and "length (u_readBuffer u1) = messageMaxSize" and "length (u_fileDescriptors u1) = attachmentMaxAmount"
proof -
  let ?ts = "map (fst \<circ> describe_attachment) atts" and ?fds = "concat (map (snd \<circ> describe_attachment) atts)"
  let ?at = "concat (map (attachment_bytes padding) ?ts)"
  let ?bs = "info_bytes padding info @ ?at @ inline"
  have at: "concat (map (attachment_bytes padding \<circ> fst \<circ> describe_attachment) atts) = ?at" by (simp add: comp_assoc)
  have len: "length ?bs = 24 + length atts * 24 + length inline"
    using length_attachments_concat [OF pad, of ?ts] by (simp add: length_info_bytes [OF pad])
  have n: "length atts < 170" "length inline < 4096" using fit by (simp_all add: messageMaxSize_def)
  have fl: "length ?fds \<le> attachmentMaxAmount"
    using descriptors_le [of atts] n(1) by (simp add: attachmentMaxAmount_def)
  have bl: "length ?bs \<le> messageMaxSize" using fit unfolding len .
  obtain u1 rb rf where u1: "receive_packet (?bs, ?fds) u = Some u1" "u_readBuffer u1 = ?bs @ rb"
      "u_readBufferSize u1 = length ?bs" "u_fileDescriptors u1 = ?fds @ rf" "u_fileDescriptorsSize u1 = of_nat (length ?fds)"
      "length (u_readBuffer u1) = messageMaxSize" "length (u_fileDescriptors u1) = attachmentMaxAmount"
    by (rule receive_idle [OF u bl fl])
  have ty: "\<forall>t \<in> set ?ts. t_type t < 256 ^ 4" using pr describe_proper(1) by auto
  have un: "unat (of_nat (length atts) :: 64 word) = length atts"
    using n(1) by (subst unat_of_nat) (simp add: take_bit_nat_eq_self)
  have "24 + i_attachmentCount info * 24 + (if i_isMessageBodyOutOfLine info then 0 else i_bodySize info)
      = (of_nat (24 + length atts * 24 + length inline) :: 64 word)"
    using info by (cases "i_isMessageBodyOutOfLine info") simp_all
  then have ml: "unat (24 + i_attachmentCount info * 24 + (if i_isMessageBodyOutOfLine info then 0 else i_bodySize info))
      = 24 + length atts * 24 + length inline"
    using n by (simp only:) (subst unat_of_nat, simp add: take_bit_nat_eq_self)
  have d: "drop sizeof_info (u_readBuffer u1) = ?at @ inline @ rb"
    using u1(2) pad by (simp add: sizeof_info_def length_info_bytes)
  show thesis
  proof (rule that)
    show "read_info (u_readBuffer u1) = info" using u1(2) read_info_bytes [OF pad] by simp
    show "read_attachments (length atts) (drop sizeof_info (u_readBuffer u1)) = ?ts"
      unfolding d using read_attachments_concat [OF pad ty, of "inline @ rb"] by simp
    have "drop (sizeof_info + length atts * 24) (u_readBuffer u1) = drop (length atts * 24) (drop sizeof_info (u_readBuffer u1))"
      by (simp add: add.commute)
    then show "drop (sizeof_info + length atts * 24) (u_readBuffer u1) = inline @ rb"
      unfolding d using length_attachments_concat [OF pad, of ?ts] by simp
  qed (use u1 ml un info(1) len in \<open>simp_all add: at\<close>)
qed

lemma process_packet_inline:
  assumes "idle u" and "11 \<le> length padding" and "\<forall>a \<in> set atts. proper a"
    and "24 + length atts * 24 + length body \<le> messageMaxSize" and "\<forall>n. alloc n"
  shows "\<exists>u1 u2. receive_packet (info_bytes padding (MessageInfo (length body) (length atts)) @
        concat (map (attachment_bytes padding \<circ> fst \<circ> describe_attachment) atts) @ body,
      concat (map (snd \<circ> describe_attachment) atts)) u = Some u1 \<and>
    processMessage map_fd alloc uninit u1 = Handed body (rev atts) u2 \<and> idle u2"
proof -
  let ?info = "MessageInfo (length body) (length atts)"
  let ?fds = "concat (map (snd \<circ> describe_attachment) atts)"
  obtain u1 rb rf where r: "receive_packet (info_bytes padding ?info @
        concat (map (attachment_bytes padding \<circ> fst \<circ> describe_attachment) atts) @ body, ?fds) u = Some u1"
      "read_info (u_readBuffer u1) = ?info" "u_readBufferSize u1 = 24 + length atts * 24 + length body"
      "unat (24 + i_attachmentCount ?info * 24 + (if i_isMessageBodyOutOfLine ?info then 0 else i_bodySize ?info)) = u_readBufferSize u1"
      "unat (i_attachmentCount ?info) = length atts"
      "read_attachments (length atts) (drop sizeof_info (u_readBuffer u1)) = map (fst \<circ> describe_attachment) atts"
      "u_fileDescriptors u1 = ?fds @ rf" "drop (sizeof_info + length atts * 24) (u_readBuffer u1) = body @ rb"
      "u_fileDescriptorsSize u1 = of_nat (length ?fds)"
      "length (u_readBuffer u1) = messageMaxSize" "length (u_fileDescriptors u1) = attachmentMaxAmount"
    by (rule process_packet [OF assms(1-4), of ?info]) (simp_all add: MessageInfo_def)
  have n: "length atts < 170" "length body < 4096" using assms(4) by (simp_all add: messageMaxSize_def)
  have inl: "\<not> i_isMessageBodyOutOfLine ?info" by (simp add: MessageInfo_def)
  have size: "unat (i_bodySize ?info) = length body"
    using n(2) by (simp add: MessageInfo_def unat_of_nat take_bit_nat_eq_self)
  have fl: "length ?fds \<le> attachmentMaxAmount" using descriptors_le [of atts] n(1) by (simp add: attachmentMaxAmount_def)
  have t: "take_attachments uninit (u_fileDescriptors u1) 0 (map (fst \<circ> describe_attachment) atts) = Some atts"
    using take_attachments_all [OF assms(3), of uninit "[]" rf] r(7) by simp
  let ?u = "u1\<lparr>u_readBufferSize := 0\<rparr>"
  have dd: "drop_descriptors (length ?fds) ?u = Some (?u\<lparr>u_fileDescriptorsSize := 0\<rparr>)"
    using r(9) fl by (intro drop_all_descriptors) simp_all
  have "processMessage map_fd alloc uninit u1 = Handed body (rev atts) (?u\<lparr>u_fileDescriptorsSize := 0\<rparr>)"
    unfolding processMessage_def Let_def r(2,4,5,6) count_descriptors [OF assms(3)]
    using r(3) r(8) r(10) inl size assms(4,5) n t dd
    by (simp add: sizeof_info_def messageMaxSize_def)
  moreover have "idle (?u\<lparr>u_fileDescriptorsSize := 0\<rparr>)" using r(10,11) by (simp add: idle_def)
  ultimately show ?thesis using r(1) by blast
qed

lemma process_packet_out_of_line:
  assumes "idle u" and "11 \<le> length padding" and "\<forall>a \<in> set atts. proper a"
    and "48 + length atts * 24 \<le> messageMaxSize" and "length body < 2 ^ 64" and "\<forall>n. alloc n"
    and "fd \<noteq> -1" and "map_fd fd (length body) = Some body"
  defines "all \<equiv> atts @ [\<lparr>a_type = MappedMemoryType, a_fileDescriptor = fd, a_size = length body\<rparr>]"
  shows "\<exists>u1 u2. receive_packet (info_bytes padding (setMessageBodyIsOutOfLine (MessageInfo (length body) (length atts))) @
        concat (map (attachment_bytes padding \<circ> fst \<circ> describe_attachment) all) @ [],
      concat (map (snd \<circ> describe_attachment) all)) u = Some u1 \<and>
    processMessage map_fd alloc uninit u1 = Handed body (rev atts) u2 \<and> idle u2"
proof -
  let ?info = "setMessageBodyIsOutOfLine (MessageInfo (length body) (length atts))"
  let ?fds = "concat (map (snd \<circ> describe_attachment) all)" and ?fds' = "concat (map (snd \<circ> describe_attachment) atts)"
  let ?ts = "map (fst \<circ> describe_attachment) all"
  have pr: "\<forall>a \<in> set all. proper a" using assms(3,5) by (auto simp: all_def proper_def)
  have la: "length all = Suc (length atts)" by (simp add: all_def)
  have fds: "?fds = ?fds' @ [fd]" using assms(7) by (simp add: all_def describe_attachment_def)
  have fit: "24 + length all * 24 + length ([] :: byte list) \<le> messageMaxSize" using assms(4) la by simp
  obtain u1 rb rf where r: "receive_packet (info_bytes padding ?info @
        concat (map (attachment_bytes padding \<circ> fst \<circ> describe_attachment) all) @ [], ?fds) u = Some u1"
      "read_info (u_readBuffer u1) = ?info" "u_readBufferSize u1 = 24 + length all * 24 + length ([] :: byte list)"
      "unat (24 + i_attachmentCount ?info * 24 + (if i_isMessageBodyOutOfLine ?info then 0 else i_bodySize ?info)) = u_readBufferSize u1"
      "unat (i_attachmentCount ?info) = length all"
      "read_attachments (length all) (drop sizeof_info (u_readBuffer u1)) = ?ts"
      "u_fileDescriptors u1 = ?fds @ rf"
      "u_fileDescriptorsSize u1 = of_nat (length ?fds)"
      "length (u_readBuffer u1) = messageMaxSize" "length (u_fileDescriptors u1) = attachmentMaxAmount"
    by (rule process_packet [OF assms(1,2) pr fit, of ?info]) (simp_all add: MessageInfo_def setMessageBodyIsOutOfLine_def la)
  have n: "length atts < 170" using assms(4) by (simp add: messageMaxSize_def)
  have ool: "i_isMessageBodyOutOfLine ?info" by (simp add: setMessageBodyIsOutOfLine_def)
  have un: "unat (of_nat (length body) :: 64 word) = length body"
    using assms(5) by (subst unat_of_nat) (simp add: take_bit_nat_eq_self)
  then have size: "unat (i_bodySize ?info) = length body" by (simp add: MessageInfo_def setMessageBodyIsOutOfLine_def)
  have fl: "length ?fds \<le> attachmentMaxAmount" using descriptors_le [of all] n la by (simp add: attachmentMaxAmount_def)
  have tk: "take (length atts) ?ts = map (fst \<circ> describe_attachment) atts" by (simp add: all_def)
  have nth: "?ts ! length atts = \<lparr>t_type = 2, t_size = of_nat (length body), t_isNull = False\<rparr>"
    using assms(7) by (simp add: all_def nth_append describe_attachment_def type_number_def)
  have t: "take_attachments uninit (u_fileDescriptors u1) 0 (map (fst \<circ> describe_attachment) atts) = Some atts"
    using take_attachments_all [OF assms(3), of uninit "[]" "fd # rf"] r(7) fds by simp
  have last: "u_fileDescriptors u1 ! (length ?fds - 1) = fd" using r(7) fds by simp
  have fc: "0 < length ?fds" "length ?fds - 1 < length (u_fileDescriptors u1)" using fds fl r(10) by simp_all
  let ?u = "u1\<lparr>u_readBufferSize := 0\<rparr>"
  have dd: "drop_descriptors (length ?fds) ?u = Some (?u\<lparr>u_fileDescriptorsSize := 0\<rparr>)"
    using r(8) fl by (intro drop_all_descriptors) simp_all
  have "processMessage map_fd alloc uninit u1 = Handed body (rev atts) (?u\<lparr>u_fileDescriptorsSize := 0\<rparr>)"
    unfolding processMessage_def Let_def r(2,4,5,6) count_descriptors [OF pr]
    using r(3) r(9) ool size un assms(4,6,8) n la tk nth t last fc dd
    by (simp add: sizeof_info_def messageMaxSize_def)
  moreover have "idle (?u\<lparr>u_fileDescriptorsSize := 0\<rparr>)" using r(9,10) by (simp add: idle_def)
  ultimately show ?thesis using r(1) by blast
qed

text \<open>
  Shared memory as the sender and the receiver see it: what is put into it is what a mapping of that
  size shows.
\<close>

definition shared_memory :: "(byte list \<Rightarrow> int option) \<Rightarrow> (int \<Rightarrow> nat \<Rightarrow> byte list option) \<Rightarrow> bool" where
  "shared_memory shm map_fd \<longleftrightarrow> (\<forall>bs. case shm bs of Some fd \<Rightarrow> fd \<noteq> -1 \<and> map_fd fd (length bs) = Some bs | None \<Rightarrow> True)"

text \<open>C17: A message with at most 168 attachments that is put on the socket is taken off it again, with
  its body, inline or in shared memory, and its attachments in the reverse order, so that the decoder,
  which takes them from the end, gets the first one first; the connection is idle afterwards.\<close>

theorem packet_round_trip:
  assumes "idle u" and "11 \<le> length padding" and "\<forall>a \<in> set atts. proper a" and "length atts \<le> 168"
    and "length body < 2 ^ 64" and "\<forall>n. alloc n" and "shared_memory shm map_fd"
    and "sendOutgoingMessage shm padding body atts = Some p"
  shows "\<exists>u1 u2. receive_packet p u = Some u1 \<and> processMessage map_fd alloc uninit u1 = Handed body (rev atts) u2 \<and> idle u2"
proof (cases "sizeof_info + length atts * 24 + length body > messageMaxSize \<and> body \<noteq> []")
  case True
  then obtain fd where fd: "shm body = Some fd" using assms(4,8)
    by (cases "shm body") (simp_all add: sendOutgoingMessage_def Let_def attachmentMaxAmount_def)
  then have law: "fd \<noteq> -1" "map_fd fd (length body) = Some body"
    using assms(7) by (auto simp: shared_memory_def dest: spec [of _ body])
  have fit: "48 + length atts * 24 \<le> messageMaxSize" using assms(4) by (simp add: messageMaxSize_def)
  have "i_isMessageBodyOutOfLine (setMessageBodyIsOutOfLine i)" for i by (simp add: setMessageBodyIsOutOfLine_def)
  then show ?thesis
    using process_packet_out_of_line [where map_fd = map_fd and uninit = uninit, OF assms(1-3) fit assms(5,6) law] assms(4,8) fd True
    by (auto simp: sendOutgoingMessage_def Let_def attachmentMaxAmount_def)
next
  case False
  have fit: "24 + length atts * 24 + length body \<le> messageMaxSize"
    using False assms(4) by (auto simp: sizeof_info_def messageMaxSize_def)
  have "\<not> i_isMessageBodyOutOfLine (MessageInfo n k)" for n k by (simp add: MessageInfo_def)
  then show ?thesis
    using process_packet_inline [OF assms(1-3) fit assms(6), of map_fd uninit] assms(4,8) False
    by (auto simp: sendOutgoingMessage_def Let_def attachmentMaxAmount_def)
qed

text \<open>Memory whose descriptor is the number of bytes in it, all of them 7.\<close>

definition sample_shm :: "byte list \<Rightarrow> int option" where
  "sample_shm bs = (if list_all (\<lambda>b. b = 7) bs then Some (int (length bs)) else None)"

definition sample_map :: "int \<Rightarrow> nat \<Rightarrow> byte list option" where
  "sample_map fd n = (if n = nat fd then Some (replicate n 7) else None)"

lemma sample_shared_memory: "shared_memory sample_shm sample_map"
proof -
  have "list_all (\<lambda>b. b = 7) bs \<Longrightarrow> replicate (length bs) 7 = bs" for bs :: "byte list"
    by (induction bs) simp_all
  then show ?thesis by (simp add: shared_memory_def sample_shm_def sample_map_def)
qed

lemma idle_init: "idle platformInitialize"
  by (simp add: idle_def platformInitialize_def)

definition sample_socket :: attachment where
  "sample_socket = \<lparr>a_type = SocketType, a_fileDescriptor = 12, a_size = 0\<rparr>"

definition sample_packet :: "byte list \<times> int list" where
  "sample_packet = the (sendOutgoingMessage sample_shm (replicate 11 0) (replicate 5000 7) [sample_socket])"

lemma sample_sent: "sendOutgoingMessage sample_shm (replicate 11 0) (replicate 5000 7) [sample_socket] = Some sample_packet"
  by (simp add: sample_packet_def sendOutgoingMessage_def attachmentMaxAmount_def sizeof_info_def messageMaxSize_def
      sample_shm_def list_all_length Let_def)

theorem packet_round_trip_witness:
  "\<exists>u1 u2. receive_packet sample_packet platformInitialize = Some u1 \<and>
     processMessage sample_map (\<lambda>_. True) 3 u1 = Handed (replicate 5000 7) (rev [sample_socket]) u2 \<and> idle u2"
  by (rule packet_round_trip [OF idle_init _ _ _ _ _ sample_shared_memory sample_sent])
    (simp_all add: proper_def sample_socket_def)

text \<open>A message with 170 to 254 attachments, which the sender accepts, is never delivered: the
  packet is larger than the read buffer, so the receiver waits for the rest with a full buffer.\<close>

theorem many_attachments_are_stuck:
  assumes "idle u" and "11 \<le> length padding" and "\<forall>a \<in> set atts. proper a"
    and "170 \<le> length atts" and "length atts \<le> 254" and "length body < 2 ^ 63"
    and p: "sendOutgoingMessage shm padding body atts = Some p" and u1: "receive_packet p u = Some u1"
  shows "processMessage map_fd alloc uninit u1 = NotYet \<and> u_readBufferSize u1 = messageMaxSize"
proof -
  define ool where "ool \<longleftrightarrow> body \<noteq> []"
  define info where "info = (if ool then setMessageBodyIsOutOfLine (MessageInfo (length body) (length atts))
    else MessageInfo (length body) (length atts))"
  have big: "sizeof_info + length atts * 24 + length body > messageMaxSize"
    using assms(4) by (simp add: sizeof_info_def messageMaxSize_def)
  have oi: "i_isMessageBodyOutOfLine info \<longleftrightarrow> ool"
    by (simp add: info_def setMessageBodyIsOutOfLine_def MessageInfo_def)
  obtain all where all: "length all = length atts + (if ool then 1 else 0)"
    and fst: "fst p = info_bytes padding info @ concat (map (attachment_bytes padding) (map (fst \<circ> describe_attachment) all))"
  proof (cases ool)
    case True
    then obtain fd where "shm body = Some fd"
      using p big assms(5) by (cases "shm body") (simp_all add: ool_def sendOutgoingMessage_def Let_def attachmentMaxAmount_def)
    then show thesis
      using that [of "atts @ [\<lparr>a_type = MappedMemoryType, a_fileDescriptor = fd, a_size = length body\<rparr>]"]
        p big assms(5) True oi
      by (auto simp: ool_def info_def sendOutgoingMessage_def Let_def attachmentMaxAmount_def comp_assoc)
  next
    case False
    then show thesis
      using that [of atts] p assms(5) oi
      by (auto simp: ool_def info_def sendOutgoingMessage_def Let_def attachmentMaxAmount_def comp_assoc)
  qed
  have cnt: "unat (i_attachmentCount info) = length all"
    using assms(5) all by (simp add: info_def setMessageBodyIsOutOfLine_def MessageInfo_def unat_word_ariths unat_of_nat take_bit_nat_eq_self)
  have ml: "unat (24 + i_attachmentCount info * 24 + (if ool then 0 else i_bodySize info)) = 24 + length all * 24"
  proof -
    have z: "(if ool then 0 else i_bodySize info) = 0"
      by (simp add: ool_def info_def MessageInfo_def)
    have "unat (i_attachmentCount info * 24) = length all * 24"
      using cnt assms(5) all by (simp add: unat_word_ariths)
    then show ?thesis using assms(5) all by (simp add: z unat_word_ariths)
  qed
  have len: "length (fst p) = 24 + length all * 24"
    using length_attachments_concat [OF assms(2), of "map (fst \<circ> describe_attachment) all"]
    unfolding fst by (simp add: length_info_bytes [OF assms(2)])
  have rb: "u_readBuffer u1 = take messageMaxSize (fst p)" "u_readBufferSize u1 = messageMaxSize"
    using u1 assms(1) len all assms(4)
    by (auto simp: receive_packet_def idle_def Let_def messageMaxSize_def split: if_splits)
  have "take messageMaxSize (fst p) = info_bytes padding info @ take (messageMaxSize - 24) (drop 24 (fst p))"
    unfolding fst by (simp add: length_info_bytes [OF assms(2)] messageMaxSize_def)
  then have "read_info (u_readBuffer u1) = info" using rb read_info_bytes [OF assms(2)] by simp
  then show ?thesis
    using rb ml oi all assms(4) by (simp add: processMessage_def Let_def sizeof_info_def messageMaxSize_def)
qed

definition sample_many :: "byte list \<times> int list" where
  "sample_many = the (sendOutgoingMessage sample_shm (replicate 11 0) [] (replicate 170 sample_socket))"

lemma sample_many_sent: "sendOutgoingMessage sample_shm (replicate 11 0) [] (replicate 170 sample_socket) = Some sample_many"
  by (simp add: sample_many_def sendOutgoingMessage_def attachmentMaxAmount_def Let_def)

lemma sample_many_descriptors: "length (snd sample_many) \<le> 170"
  using descriptors_le [of "replicate 170 sample_socket"]
  by (simp add: sample_many_def sendOutgoingMessage_def attachmentMaxAmount_def Let_def)

lemma sample_many_received: "receive_packet sample_many platformInitialize = Some (the (receive_packet sample_many platformInitialize))"
  using sample_many_descriptors by (simp add: receive_packet_def platformInitialize_def attachmentMaxAmount_def Let_def)

theorem many_attachments_are_stuck_witness:
  "processMessage sample_map (\<lambda>_. True) 3 (the (receive_packet sample_many platformInitialize)) = NotYet \<and>
   u_readBufferSize (the (receive_packet sample_many platformInitialize)) = messageMaxSize"
  by (rule many_attachments_are_stuck [OF idle_init _ _ _ _ _ sample_many_sent sample_many_received])
    (simp_all add: proper_def sample_socket_def)

text \<open>
  The size of a body in shared memory is taken from the packet and not compared with the memory: a
  sender that claims more makes the receiver read past the mapping.
\<close>

lemma out_of_line_size_is_trusted:
  assumes "idle u" and "11 \<le> length padding" and "fd \<noteq> -1" and "sz < 2 ^ 64" and "\<forall>n. alloc n"
    and "map_fd fd sz = Some mem" and "length mem < unat bodySize"
  shows "\<exists>u1. receive_packet
      (info_bytes padding \<lparr>i_bodySize = bodySize, i_attachmentCount = 1, i_isMessageBodyOutOfLine = True\<rparr> @
       attachment_bytes padding \<lparr>t_type = 2, t_size = of_nat sz, t_isNull = False\<rparr>, [fd]) u = Some u1 \<and>
    processMessage map_fd alloc uninit u1 = ReadOutOfBounds"
proof -
  let ?a = "\<lparr>a_type = MappedMemoryType, a_fileDescriptor = fd, a_size = sz\<rparr>"
  let ?info = "\<lparr>i_bodySize = bodySize, i_attachmentCount = 1, i_isMessageBodyOutOfLine = True\<rparr>"
  have d: "describe_attachment ?a = (\<lparr>t_type = 2, t_size = of_nat sz, t_isNull = False\<rparr>, [fd])"
    using assms(3) by (simp add: describe_attachment_def type_number_def)
  have un: "unat (of_nat sz :: 64 word) = sz"
    using assms(4) by (subst unat_of_nat) (simp add: take_bit_nat_eq_self)
  have pr: "\<forall>a \<in> set [?a]. proper a" using assms(4) by (simp add: proper_def)
  have fit: "24 + length [?a] * 24 + length ([] :: byte list) \<le> messageMaxSize" by (simp add: messageMaxSize_def)
  obtain u1 rb rf where r: "receive_packet (info_bytes padding ?info @
        concat (map (attachment_bytes padding \<circ> fst \<circ> describe_attachment) [?a]) @ [], concat (map (snd \<circ> describe_attachment) [?a])) u = Some u1"
      "read_info (u_readBuffer u1) = ?info" "u_readBufferSize u1 = 24 + length [?a] * 24 + length ([] :: byte list)"
      "unat (24 + i_attachmentCount ?info * 24 + (if i_isMessageBodyOutOfLine ?info then 0 else i_bodySize ?info)) = u_readBufferSize u1"
      "read_attachments (length [?a]) (drop sizeof_info (u_readBuffer u1)) = map (fst \<circ> describe_attachment) [?a]"
      "u_fileDescriptors u1 = concat (map (snd \<circ> describe_attachment) [?a]) @ rf"
      "length (u_readBuffer u1) = messageMaxSize"
    by (rule process_packet [OF assms(1,2) pr fit, of ?info]) simp_all
  have "processMessage map_fd alloc uninit u1 = ReadOutOfBounds"
    unfolding processMessage_def Let_def r(2)
    using r(3-7) assms(5-7) un d
    by (simp add: sizeof_info_def messageMaxSize_def counts_descriptor_def)
  then show ?thesis using r(1) d by auto
qed

lemma unat_wrap:
  fixes x y :: "64 word"
  assumes "unat x < unat y"
  shows "unat (x - y) = 2 ^ 64 + unat x - unat y"
proof -
  have x: "0 \<le> uint x" and y: "uint y < 2 ^ 64" using unsigned_less [of y] by simp_all
  have lt: "uint x < uint y" using assms by (simp only: word_less_nat_alt [symmetric] word_less_def)
  have "uint (x - y) = (uint x - uint y) mod 2 ^ 64" by (simp add: uint_word_ariths)
  also have "\<dots> = (uint x - uint y + 2 ^ 64) mod 2 ^ 64" by simp
  also have "\<dots> = uint x - uint y + 2 ^ 64" using x y lt by (intro mod_pos_pos_trivial) linarith+
  finally have "int (unat (x - y)) = int (unat x) - int (unat y) + 2 ^ 64" by (simp only: uint_nat)
  then have "int (unat (x - y) + unat y) = int (2 ^ 64 + unat x)" by simp
  then have "unat (x - y) + unat y = 2 ^ 64 + unat x" by (simp only: of_nat_eq_iff)
  then show ?thesis by simp
qed

text \<open>When more descriptors have arrived than the message uses, the rest is not kept: four times as
  many are dropped as were used, and with fewer than that left over the size wraps around, so that the
  descriptors are moved from far outside the array.\<close>

theorem descriptors_dropped_fourfold:
  assumes "0 < count" and "count < n" and "n \<le> attachmentMaxAmount"
    and "u_fileDescriptorsSize u = of_nat n" and "length (u_fileDescriptors u) = attachmentMaxAmount"
  shows "if n < 4 * count then drop_descriptors count u = None
    else \<exists>fds. drop_descriptors count u = Some (u\<lparr>u_fileDescriptors := fds, u_fileDescriptorsSize := of_nat (n - 4 * count)\<rparr>)"
proof -
  have n: "n \<le> 255" using assms(3) by (simp add: attachmentMaxAmount_def)
  have un: "unat (of_nat n :: 64 word) = n" "unat (of_nat (count * 4) :: 64 word) = count * 4"
    using n assms(2) by (subst unat_of_nat, simp add: take_bit_nat_eq_self)+
  have dd: "drop_descriptors count u = map_option
      (\<lambda>fds. u\<lparr>u_fileDescriptors := fds, u_fileDescriptorsSize := of_nat n - of_nat (count * 4)\<rparr>)
      (move_ints (count * 4) (unat (of_nat n - of_nat (count * 4) :: 64 word)) (u_fileDescriptors u))"
    unfolding drop_descriptors_def Let_def assms(4) un using assms(1,2) by simp
  show ?thesis
  proof (cases "n < 4 * count")
    case True
    have "unat (of_nat n - of_nat (count * 4) :: 64 word) = 2 ^ 64 + n - count * 4"
      using unat_wrap [of "of_nat n" "of_nat (count * 4)"] True unfolding un by simp
    then have "255 * 4 < unat (of_nat n - of_nat (count * 4) :: 64 word)" using n assms(2) by simp
    then have "255 < unat (of_nat n - of_nat (count * 4) :: 64 word) div 4 + 1" by linarith
    then have "move_ints (count * 4) (unat (of_nat n - of_nat (count * 4) :: 64 word)) (u_fileDescriptors u) = None"
      using assms(1,5) by (simp add: move_ints_def Let_def attachmentMaxAmount_def)
    then show ?thesis using dd True by simp
  next
    case False
    have eq: "(of_nat n - of_nat (count * 4) :: 64 word) = of_nat (n - 4 * count)"
      using False by (simp add: of_nat_diff mult.commute)
    have "unat (of_nat (n - 4 * count) :: 64 word) = n - 4 * count"
      using n by (simp add: unat_of_nat take_bit_nat_eq_self)
    moreover have "\<exists>fds. move_ints (count * 4) (n - 4 * count) (u_fileDescriptors u) = Some fds"
    proof -
      have "count * 4 + (n - 4 * count) div 4 < 255 \<or> (n - 4 * count) mod 4 = 0 \<and> count * 4 + (n - 4 * count) div 4 \<le> 255"
        using False n assms(1) by presburger
      then show ?thesis using assms(5) by (auto simp: move_ints_def Let_def attachmentMaxAmount_def)
    qed
    ultimately show ?thesis using dd False unfolding eq by auto
  qed
qed

theorem descriptors_dropped_fourfold_witness:
  "if 2 < 4 * (1 :: nat) then drop_descriptors 1 (platformInitialize\<lparr>u_fileDescriptorsSize := 2\<rparr>) = None
    else \<exists>fds. drop_descriptors 1 (platformInitialize\<lparr>u_fileDescriptorsSize := 2\<rparr>)
      = Some (platformInitialize\<lparr>u_fileDescriptorsSize := 2, u_fileDescriptors := fds, u_fileDescriptorsSize := of_nat (2 - 4 * 1)\<rparr>)"
  by (rule descriptors_dropped_fourfold [of 1 2 "platformInitialize\<lparr>u_fileDescriptorsSize := 2\<rparr>"])
    (simp_all add: attachmentMaxAmount_def platformInitialize_def)

end
