(* ===== verification/String_Hash.thy ===== *)
theory String_Hash
  imports UTF8
begin

unbundle bit_operations_syntax

text \<open>
  The string hash (\<^verbatim>\<open>WTF/wtf/StringHasher.h\<close>), the hash of UTF-8 text that is computed while it
  is decoded (\<^verbatim>\<open>calculateStringHashAndLengthFromUTF8MaskingTop8Bits\<close> of
  \<^verbatim>\<open>WTF/wtf/unicode/UTF8.cpp\<close>), and the step that keeps a hash apart from the marker of a deleted
  bucket (\<^verbatim>\<open>WTF/wtf/text/StringHash.h\<close>).

  A \<^verbatim>\<open>UChar\<close> is a 16-bit word and an \<^verbatim>\<open>unsigned\<close> a 32-bit word, so all arithmetic wraps as it
  does in the source. A hasher that has no pending character still holds the last one it had: two
  hashers are compared by \<open>same_hasher\<close>, which ignores such a left-over, and \<open>feed\<close>, adding the
  characters one at a time, is the reference the other ways of adding text are compared with.
\<close>

type_synonym uchar = "16 word"
type_synonym unsigned = "32 word"

subsection \<open>The hasher\<close>

definition stringHashingStartValue :: unsigned where
  "stringHashingStartValue = 0x9E3779B9"

definition flagCount :: nat where
  "flagCount = 8"

record string_hasher =
  m_hash :: unsigned
  m_hasPendingCharacter :: bool
  m_pendingCharacter :: uchar

definition StringHasher :: string_hasher where
  "StringHasher = \<lparr>m_hash = stringHashingStartValue, m_hasPendingCharacter = False, m_pendingCharacter = 0\<rparr>"

definition mix_pair :: "unsigned \<Rightarrow> uchar \<Rightarrow> uchar \<Rightarrow> unsigned" where
  "mix_pair hash a b =
     (let hash = hash + ucast a;
          hash = push_bit 16 hash XOR (push_bit 11 (ucast b) XOR hash)
      in hash + drop_bit 11 hash)"

definition addPairAssumingAligned :: "uchar \<Rightarrow> uchar \<Rightarrow> string_hasher \<Rightarrow> string_hasher" where
  "addPairAssumingAligned a b h = h\<lparr>m_hash := mix_pair (m_hash h) a b\<rparr>"

definition addCharacter :: "uchar \<Rightarrow> string_hasher \<Rightarrow> string_hasher" where
  "addCharacter character h =
     (if m_hasPendingCharacter h
      then addPairAssumingAligned (m_pendingCharacter h) character (h\<lparr>m_hasPendingCharacter := False\<rparr>)
      else h\<lparr>m_pendingCharacter := character, m_hasPendingCharacter := True\<rparr>)"

definition addPair :: "uchar \<Rightarrow> uchar \<Rightarrow> string_hasher \<Rightarrow> string_hasher" where
  "addPair a b h =
     (if m_hasPendingCharacter h
      then (addPairAssumingAligned (m_pendingCharacter h) a h)\<lparr>m_pendingCharacter := b\<rparr>
      else addPairAssumingAligned a b h)"

text \<open>The loop over a buffer of known length: \<open>pairs\<close> rounds of two characters, then the odd one.\<close>

fun add_pairs :: "nat \<Rightarrow> uchar list \<Rightarrow> string_hasher \<Rightarrow> uchar list \<times> string_hasher" where
  "add_pairs 0 s h = (s, h)"
| "add_pairs (Suc pairs) s h = add_pairs pairs (drop 2 s) (addPairAssumingAligned (s ! 0) (s ! 1) h)"

definition addCharactersAssumingAligned :: "uchar list \<Rightarrow> nat \<Rightarrow> string_hasher \<Rightarrow> string_hasher" where
  "addCharactersAssumingAligned s len h =
     (case add_pairs (len div 2) s h of
        (rest, h') \<Rightarrow> if odd len then addCharacter (rest ! 0) h' else h')"

definition addCharacters :: "uchar list \<Rightarrow> nat \<Rightarrow> string_hasher \<Rightarrow> string_hasher" where
  "addCharacters s len h =
     (if m_hasPendingCharacter h \<and> len \<noteq> 0
      then addCharactersAssumingAligned (tl s) (len - 1)
             (addPairAssumingAligned (m_pendingCharacter h) (hd s) (h\<lparr>m_hasPendingCharacter := False\<rparr>))
      else addCharactersAssumingAligned s len h)"

text \<open>The loop over a null-terminated buffer; the end of the list is its terminator.\<close>

fun addTerminatedAssumingAligned :: "uchar list \<Rightarrow> string_hasher \<Rightarrow> string_hasher" where
  "addTerminatedAssumingAligned [] h = h"
| "addTerminatedAssumingAligned [a] h = (if a = 0 then h else addCharacter a h)"
| "addTerminatedAssumingAligned (a # b # s) h =
     (if a = 0 then h
      else if b = 0 then addCharacter a h
      else addTerminatedAssumingAligned s (addPairAssumingAligned a b h))"

definition addTerminated :: "uchar list \<Rightarrow> string_hasher \<Rightarrow> string_hasher" where
  "addTerminated s h =
     (case s of
        a # s' \<Rightarrow>
          if m_hasPendingCharacter h \<and> a \<noteq> 0
          then addTerminatedAssumingAligned s'
                 (addPairAssumingAligned (m_pendingCharacter h) a (h\<lparr>m_hasPendingCharacter := False\<rparr>))
          else addTerminatedAssumingAligned s h
      | [] \<Rightarrow> h)"

definition avalancheBits :: "string_hasher \<Rightarrow> unsigned" where
  "avalancheBits h =
     (let result = m_hash h;
          result =
            (if m_hasPendingCharacter h
             then let result = result + ucast (m_pendingCharacter h);
                      result = result XOR push_bit 11 result
                  in result + drop_bit 17 result
             else result);
          result = result XOR push_bit 3 result;
          result = result + drop_bit 5 result;
          result = result XOR push_bit 2 result;
          result = result + drop_bit 15 result
      in result XOR push_bit 10 result)"

definition hashWithTop8BitsMasked :: "string_hasher \<Rightarrow> unsigned" where
  "hashWithTop8BitsMasked h =
     (let result = avalancheBits h AND (push_bit (4 * 8 - flagCount) 1 - 1)
      in if result = 0 then drop_bit flagCount 0x80000000 else result)"

definition hasher_hash :: "string_hasher \<Rightarrow> unsigned" where
  "hasher_hash h = (let result = avalancheBits h in if result = 0 then 0x80000000 else result)"

definition computeHashAndMaskTop8Bits :: "uchar list \<Rightarrow> unsigned" where
  "computeHashAndMaskTop8Bits s = hashWithTop8BitsMasked (addCharactersAssumingAligned s (length s) StringHasher)"

definition computeHashAndMaskTop8BitsTerminated :: "uchar list \<Rightarrow> unsigned" where
  "computeHashAndMaskTop8BitsTerminated s = hashWithTop8BitsMasked (addTerminatedAssumingAligned s StringHasher)"

definition computeHash :: "uchar list \<Rightarrow> unsigned" where
  "computeHash s = hasher_hash (addCharactersAssumingAligned s (length s) StringHasher)"

definition computeHashTerminated :: "uchar list \<Rightarrow> unsigned" where
  "computeHashTerminated s = hasher_hash (addTerminatedAssumingAligned s StringHasher)"

text \<open>Memory is read as 16-bit units, the low byte first.\<close>

fun uchars_of_bytes :: "byte list \<Rightarrow> uchar list" where
  "uchars_of_bytes (a # b # bs) = (ucast a OR push_bit 8 (ucast b)) # uchars_of_bytes bs"
| "uchars_of_bytes bs = []"

definition hashMemory :: "byte list \<Rightarrow> unsigned" where
  "hashMemory bytes = computeHashAndMaskTop8Bits (uchars_of_bytes bytes)"

definition avoidDeletedValue :: "unsigned \<Rightarrow> unsigned" where
  "avoidDeletedValue hash = hash OR push_bit 31 (if hash + 1 = 0 then 1 else 0)"

subsection \<open>Hashing UTF-8 text\<close>

text \<open>
  Without an end pointer (\<open>bounded\<close> false) the text is null-terminated; the end of the list is its
  terminator. The out parameters \<^verbatim>\<open>dataLength\<close> and \<^verbatim>\<open>utf16Length\<close> are returned beside the hash.
\<close>

definition utf8_at_end :: "bool \<Rightarrow> nat list \<Rightarrow> bool" where
  "utf8_at_end bounded s = (if bounded then s = [] else byte_at s 0 = 0)"

definition utf8_cut_short :: "bool \<Rightarrow> nat list \<Rightarrow> nat \<Rightarrow> bool" where
  "utf8_cut_short bounded s len =
     (if bounded then length s < len else list_ex (\<lambda>i. byte_at s i = 0) [1..<len])"

function hash_utf8 ::
    "bool \<Rightarrow> nat list \<Rightarrow> string_hasher \<Rightarrow> unsigned \<Rightarrow> unsigned \<Rightarrow> unsigned \<times> unsigned \<times> unsigned" where
  "hash_utf8 bounded s h dataLength utf16Length =
     (if utf8_at_end bounded s then (hashWithTop8BitsMasked h, dataLength, utf16Length)
      else if hd s < 0x80
      then hash_utf8 bounded (tl s) (addCharacter (of_nat (hd s)) h) (dataLength + 1) (utf16Length + 1)
      else
        let len = inlineUTF8SequenceLengthNonASCII (hd s);
            dataLength = dataLength + of_nat len
        in if utf8_cut_short bounded s len then (0, dataLength, utf16Length)
           else if \<not> isLegalUTF8 s len then (0, dataLength, utf16Length)
           else
             let character = readUTF8Sequence s len
             in if U_IS_BMP character
                then if U_IS_SURROGATE character then (0, dataLength, utf16Length)
                     else hash_utf8 bounded (drop len s) (addCharacter (of_int character) h)
                            dataLength (utf16Length + 1)
                else if U_IS_SUPPLEMENTARY character
                then hash_utf8 bounded (drop len s)
                       (addPair (of_nat (U16_LEAD character)) (of_nat (U16_TRAIL character)) h)
                       dataLength (utf16Length + 2)
                else (0, dataLength, utf16Length))"
  by pat_completeness auto
termination
proof (relation "measure (\<lambda>(bounded, s, h, d, u). length s)", goal_cases)
  case 1
  show ?case by simp
qed (auto simp: utf8_at_end_def byte_at_def isLegalUTF8_def Let_def split: if_splits)

declare hash_utf8.simps [simp del]

text \<open>A null pointer gives the hash \<open>0\<close> and leaves the out parameters alone.\<close>

definition calculateStringHashAndLengthFromUTF8MaskingTop8Bits ::
    "bool \<Rightarrow> nat list option \<Rightarrow> unsigned \<Rightarrow> unsigned \<Rightarrow> unsigned \<times> unsigned \<times> unsigned" where
  "calculateStringHashAndLengthFromUTF8MaskingTop8Bits bounded data dataLength utf16Length =
     (case data of
        None \<Rightarrow> (0, dataLength, utf16Length)
      | Some s \<Rightarrow> hash_utf8 bounded s StringHasher 0 0)"

subsection \<open>All ways of adding text agree\<close>

text \<open>Anything that takes characters one by one, up to a relation that the step respects.\<close>

locale text_sink =
  fixes put :: "'c \<Rightarrow> 'h \<Rightarrow> 'h"
    and same :: "'h \<Rightarrow> 'h \<Rightarrow> bool"
  assumes same_refl [simp, intro]: "same h h"
    and same_sym: "same h h' \<Longrightarrow> same h' h"
    and same_trans [trans]: "same h h' \<Longrightarrow> same h' h'' \<Longrightarrow> same h h''"
    and put_same: "same h h' \<Longrightarrow> same (put c h) (put c h')"
begin

lemma fold_same: "same h h' \<Longrightarrow> same (fold put cs h) (fold put cs h')"
  by (induction cs arbitrary: h h') (auto intro: put_same)

text \<open>Adding a text in pieces: each piece may be added by a routine of its own.\<close>

lemma pieces_same:
  assumes "\<And>cs add h. (cs, add) \<in> set ps \<Longrightarrow> same (add h) (fold put cs h)"
  shows "same (fold (\<lambda>(cs, add). add) ps h) (fold put (concat (map fst ps)) h)"
  using assms
proof (induction ps arbitrary: h)
  case (Cons p ps)
  obtain cs add where p: "p = (cs, add)" by (cases p)
  have "same (fold (\<lambda>(cs, add). add) ps (add h)) (fold put (concat (map fst ps)) (add h))"
    by (rule Cons.IH) (use Cons.prems in auto)
  also have "same \<dots> (fold put (concat (map fst ps)) (fold put cs h))"
    by (rule fold_same) (use Cons.prems p in auto)
  finally show ?case by (simp add: p)
qed simp

end

definition same_hasher :: "string_hasher \<Rightarrow> string_hasher \<Rightarrow> bool" where
  "same_hasher h h' \<longleftrightarrow> m_hash h = m_hash h' \<and> m_hasPendingCharacter h = m_hasPendingCharacter h'
     \<and> (m_hasPendingCharacter h \<longrightarrow> m_pendingCharacter h = m_pendingCharacter h')"

abbreviation feed :: "uchar list \<Rightarrow> string_hasher \<Rightarrow> string_hasher" where
  "feed cs h \<equiv> fold addCharacter cs h"

interpretation hasher_sink: text_sink addCharacter same_hasher
  by unfold_locales (auto simp: same_hasher_def addCharacter_def addPairAssumingAligned_def)

lemma same_hasher_hash:
  assumes "same_hasher h h'"
  shows "hasher_hash h = hasher_hash h'" "hashWithTop8BitsMasked h = hashWithTop8BitsMasked h'"
proof -
  have "avalancheBits h = avalancheBits h'"
    using assms by (cases "m_hasPendingCharacter h'") (simp_all add: same_hasher_def avalancheBits_def)
  thus "hasher_hash h = hasher_hash h'" "hashWithTop8BitsMasked h = hashWithTop8BitsMasked h'"
    by (simp_all add: hasher_hash_def hashWithTop8BitsMasked_def)
qed

lemma addPairAssumingAligned_feed:
  "\<not> m_hasPendingCharacter h \<Longrightarrow> same_hasher (addPairAssumingAligned a b h) (feed [a, b] h)"
  by (simp add: same_hasher_def addCharacter_def addPairAssumingAligned_def)

lemma addPairAssumingAligned_pending [simp]:
  "m_hasPendingCharacter (addPairAssumingAligned a b h) = m_hasPendingCharacter h"
  by (simp add: addPairAssumingAligned_def)

lemma addPair_feed: "same_hasher (addPair a b h) (feed [a, b] h)"
  by (simp add: same_hasher_def addCharacter_def addPair_def addPairAssumingAligned_def)

lemma add_pairs_feed:
  assumes "\<not> m_hasPendingCharacter h" "2 * n \<le> length s"
  shows "\<exists>h'. add_pairs n s h = (drop (2 * n) s, h') \<and> \<not> m_hasPendingCharacter h'
    \<and> same_hasher h' (feed (take (2 * n) s) h)"
  using assms
proof (induction n arbitrary: s h)
  case (Suc n)
  obtain a b r where s: "s = a # b # r" using Suc.prems(2) by (cases s; cases "tl s") auto
  obtain h' where h': "add_pairs n r (addPairAssumingAligned a b h) = (drop (2 * n) r, h')"
      "\<not> m_hasPendingCharacter h'" "same_hasher h' (feed (take (2 * n) r) (addPairAssumingAligned a b h))"
    using Suc.IH [of "addPairAssumingAligned a b h" r] Suc.prems s by auto
  have "same_hasher h' (feed (take (2 * n) r) (feed [a, b] h))"
    using h'(3) hasher_sink.fold_same [OF addPairAssumingAligned_feed [OF Suc.prems(1)]]
    by (rule hasher_sink.same_trans)
  with h' s show ?case by (simp add: numeral_2_eq_2)
qed simp

lemma addCharactersAssumingAligned_feed:
  assumes "\<not> m_hasPendingCharacter h" "len \<le> length s"
  shows "same_hasher (addCharactersAssumingAligned s len h) (feed (take len s) h)"
proof -
  let ?n = "len div 2"
  have "2 * ?n \<le> length s" using assms(2) by linarith
  then obtain h' where h': "add_pairs ?n s h = (drop (2 * ?n) s, h')"
      "same_hasher h' (feed (take (2 * ?n) s) h)"
    using add_pairs_feed [OF assms(1)] by blast
  show ?thesis
  proof (cases "odd len")
    case True
    hence len: "len = Suc (2 * ?n)" by presburger
    hence "2 * ?n < length s" using assms(2) by linarith
    hence "take len s = take (2 * ?n) s @ [s ! (2 * ?n)]" by (subst len) (rule take_Suc_conv_app_nth)
    moreover have "drop (2 * ?n) s ! 0 = s ! (2 * ?n)" using \<open>2 * ?n < length s\<close> by simp
    ultimately show ?thesis
      using h' True hasher_sink.put_same [OF h'(2), of "s ! (2 * ?n)"]
      by (simp add: addCharactersAssumingAligned_def)
  next
    case False
    hence "2 * ?n = len" by presburger
    with h' False show ?thesis by (simp add: addCharactersAssumingAligned_def)
  qed
qed

text \<open>The pending character and the first of a text form a pair.\<close>

lemma finish_pair:
  "m_hasPendingCharacter h \<Longrightarrow>
     addPairAssumingAligned (m_pendingCharacter h) c (h\<lparr>m_hasPendingCharacter := False\<rparr>) = addCharacter c h
     \<and> \<not> m_hasPendingCharacter (addCharacter c h)"
  by (simp add: addCharacter_def)

lemma addCharacters_feed:
  assumes "len \<le> length s"
  shows "same_hasher (addCharacters s len h) (feed (take len s) h)"
proof (cases "m_hasPendingCharacter h \<and> len \<noteq> 0")
  case True
  obtain c r where s: "s = c # r" using True assms by (cases s) auto
  obtain k where k: "len = Suc k" using True by (cases len) auto
  have "same_hasher (addCharactersAssumingAligned r k (addCharacter c h)) (feed (take k r) (addCharacter c h))"
    by (rule addCharactersAssumingAligned_feed) (use finish_pair True assms s k in auto)
  with True s k finish_pair [of h c] show ?thesis by (simp add: addCharacters_def)
next
  case False
  show ?thesis
  proof (cases "len = 0")
    case True
    thus ?thesis by (simp add: addCharacters_def addCharactersAssumingAligned_def)
  next
    case nz: False
    with False show ?thesis
      using addCharactersAssumingAligned_feed [OF _ assms, of h] by (auto simp: addCharacters_def)
  qed
qed

lemma addTerminatedAssumingAligned_feed:
  "\<not> m_hasPendingCharacter h \<Longrightarrow>
     same_hasher (addTerminatedAssumingAligned s h) (feed (takeWhile (\<lambda>c. c \<noteq> 0) s) h)"
proof (induction s h rule: addTerminatedAssumingAligned.induct)
  case (3 a b s h)
  show ?case
  proof (cases "a = 0 \<or> b = 0")
    case False
    have "same_hasher (addTerminatedAssumingAligned s (addPairAssumingAligned a b h))
        (feed (takeWhile (\<lambda>c. c \<noteq> 0) s) (addPairAssumingAligned a b h))"
      by (rule "3.IH") (use False "3.prems" in auto)
    also have "same_hasher \<dots> (feed (takeWhile (\<lambda>c. c \<noteq> 0) s) (feed [a, b] h))"
      by (rule hasher_sink.fold_same) (rule addPairAssumingAligned_feed [OF "3.prems"])
    finally show ?thesis using False by simp
  qed auto
qed auto

lemma addTerminated_feed: "same_hasher (addTerminated s h) (feed (takeWhile (\<lambda>c. c \<noteq> 0) s) h)"
proof (cases s)
  case (Cons a r)
  show ?thesis
  proof (cases "m_hasPendingCharacter h")
    case True
    with finish_pair [OF True, of a] addTerminatedAssumingAligned_feed [of "addCharacter a h" r] Cons
    show ?thesis by (cases r) (auto simp: addTerminated_def)
  next
    case False
    with addTerminatedAssumingAligned_feed [OF False, of s] Cons show ?thesis
      by (simp add: addTerminated_def)
  qed
qed (simp add: addTerminated_def)

lemma no_pending_StringHasher [simp]: "\<not> m_hasPendingCharacter StringHasher"
  by (simp add: StringHasher_def)

lemma computeHash_feed:
  "computeHash s = hasher_hash (feed s StringHasher)"
  "computeHashAndMaskTop8Bits s = hashWithTop8BitsMasked (feed s StringHasher)"
  using addCharactersAssumingAligned_feed [of StringHasher "length s" s]
  by (simp_all add: computeHash_def computeHashAndMaskTop8Bits_def same_hasher_hash)

lemma computeHashTerminated_feed:
  "computeHashTerminated s = hasher_hash (feed (takeWhile (\<lambda>c. c \<noteq> 0) s) StringHasher)"
  "computeHashAndMaskTop8BitsTerminated s = hashWithTop8BitsMasked (feed (takeWhile (\<lambda>c. c \<noteq> 0) s) StringHasher)"
  using addTerminatedAssumingAligned_feed [of StringHasher s]
  by (simp_all add: computeHashTerminated_def computeHashAndMaskTop8BitsTerminated_def same_hasher_hash)

subsection \<open>The values of a hash\<close>

lemma hasher_hash_nonzero: "hasher_hash h \<noteq> 0"
  by (simp add: hasher_hash_def Let_def)

lemma masked_hash_range:
  "hashWithTop8BitsMasked h \<noteq> 0" "unat (hashWithTop8BitsMasked h) < 2 ^ 24"
proof -
  have mask: "push_bit (4 * 8 - flagCount) 1 - 1 = (mask 24 :: unsigned)"
    by (simp add: flagCount_def mask_eq_exp_minus_1)
  show "hashWithTop8BitsMasked h \<noteq> 0" by (simp add: hashWithTop8BitsMasked_def Let_def flagCount_def)
  have "unat (avalancheBits h AND mask 24) < 2 ^ 24"
    unfolding take_bit_eq_mask [symmetric] unsigned_take_bit_eq by (rule take_bit_nat_less_exp)
  thus "unat (hashWithTop8BitsMasked h) < 2 ^ 24"
    unfolding hashWithTop8BitsMasked_def mask by (simp add: Let_def flagCount_def)
qed

text \<open>The ways to add a piece of text to a hasher.\<close>

datatype piece = Single uchar | TwoChars uchar uchar | Buffer "uchar list" | Terminated "uchar list"

fun piece_text :: "piece \<Rightarrow> uchar list" where
  "piece_text (Single c) = [c]"
| "piece_text (TwoChars a b) = [a, b]"
| "piece_text (Buffer s) = s"
| "piece_text (Terminated s) = takeWhile (\<lambda>c. c \<noteq> 0) s"

fun add_piece :: "piece \<Rightarrow> string_hasher \<Rightarrow> string_hasher" where
  "add_piece (Single c) h = addCharacter c h"
| "add_piece (TwoChars a b) h = addPair a b h"
| "add_piece (Buffer s) h = addCharacters s (length s) h"
| "add_piece (Terminated s) h = addTerminated s h"

lemma add_piece_feed: "same_hasher (add_piece p h) (feed (piece_text p) h)"
proof (cases p)
  case (TwoChars a b)
  thus ?thesis using addPair_feed [of a b h] by simp
next
  case (Buffer s)
  thus ?thesis using addCharacters_feed [of "length s" s h] by simp
qed (simp_all add: addTerminated_feed)

lemma pieces_feed: "same_hasher (fold add_piece ps h) (feed (concat (map piece_text ps)) h)"
proof -
  let ?ps = "map (\<lambda>p. (piece_text p, add_piece p)) ps"
  have "same_hasher (fold (\<lambda>(cs, add). add) ?ps h) (feed (concat (map fst ?ps)) h)"
    by (rule hasher_sink.pieces_same) (auto simp: add_piece_feed)
  moreover have "fold (\<lambda>(cs, add). add) ?ps h = fold add_piece ps h"
    by (simp add: fold_map comp_def)
  moreover have "map fst ?ps = map piece_text ps" by simp
  ultimately show ?thesis by metis
qed

text \<open>The hash depends on the text only, not on how it is cut up: whatever mixture of single
  characters, pairs, buffers and null-terminated strings is added, the result is the hash of the whole
  text computed at once. No text hashes to \<open>0\<close>, the mark of a hash not computed yet, and the masked
  hash leaves the top eight bits free for the flags of the string.\<close>

theorem hash_of_pieces:
  "hasher_hash (fold add_piece ps StringHasher) = computeHash (concat (map piece_text ps))
   \<and> hashWithTop8BitsMasked (fold add_piece ps StringHasher)
       = computeHashAndMaskTop8Bits (concat (map piece_text ps))
   \<and> computeHash s \<noteq> 0 \<and> computeHashAndMaskTop8Bits s \<noteq> 0
   \<and> unat (computeHashAndMaskTop8Bits s) < 2 ^ 24"
  using same_hasher_hash [OF pieces_feed [of ps StringHasher]] masked_hash_range [of "feed s StringHasher"]
  by (simp add: computeHash_feed hasher_hash_nonzero)

lemma avoidDeletedValue_id: "avoidDeletedValue hash = hash"
proof (cases "hash + 1 = 0")
  case True
  hence "hash = - 1" by (simp add: eq_neg_iff_add_eq_0)
  thus ?thesis by (simp add: avoidDeletedValue_def)
qed (simp add: avoidDeletedValue_def)

text \<open>\<^verbatim>\<open>AlreadyHashed::avoidDeletedValue\<close> changes no hash at all: setting a bit of all ones
  leaves all ones, so the value \<open>0xFFFFFFFF\<close> it is meant to avoid is returned as it is, against the
  assertion that follows.\<close>

theorem avoidDeletedValue_avoids_nothing:
  "avoidDeletedValue hash = hash \<and> avoidDeletedValue 0xFFFFFFFF = 0xFFFFFFFF"
  by (simp add: avoidDeletedValue_id)

subsection \<open>Hashing while decoding\<close>

lemma legal_cut_short:
  assumes "inlineUTF8SequenceLengthNonASCII (hd s) = n" "\<not> utf8_at_end bounded s"
    and "\<not> bounded \<longrightarrow> 0 \<notin> set s"
  shows "utf8_cut_short bounded s n \<longleftrightarrow> length s < n"
proof (cases bounded)
  case False
  have "list_ex (\<lambda>i. byte_at s i = 0) [1..<n] \<longleftrightarrow> length s < n"
  proof
    assume "list_ex (\<lambda>i. byte_at s i = 0) [1..<n]"
    then obtain i where "i < n" "byte_at s i = 0" by (auto simp: list_ex_iff)
    with assms(3) False show "length s < n"
      by (metis byte_at_def dual_order.strict_trans2 not_less nth_mem)
  next
    assume "length s < n"
    moreover have "0 < length s" using assms(2) False by (auto simp: utf8_at_end_def byte_at_def)
    ultimately show "list_ex (\<lambda>i. byte_at s i = 0) [1..<n]"
      by (auto simp: list_ex_iff byte_at_def Suc_le_eq intro!: bexI [of _ "length s"])
  qed
  with False show ?thesis by (simp add: utf8_cut_short_def)
qed (simp add: utf8_cut_short_def)

lemma at_end_Nil:
  "(\<not> bounded \<longrightarrow> 0 \<notin> set s) \<Longrightarrow> utf8_at_end bounded s \<longleftrightarrow> s = []"
  by (cases s) (auto simp: utf8_at_end_def byte_at_def)

text \<open>One round of the decoder and one of the hasher read the same sequence.\<close>

definition sequence_units :: "nat list \<Rightarrow> nat list" where
  "sequence_units s =
     (let c = readUTF8Sequence s (inlineUTF8SequenceLength (hd s))
      in if U_IS_BMP c then [nat c] else [U16_LEAD c, U16_TRAIL c])"

lemma ascii_sequence:
  assumes "s \<noteq> []" "hd s < 0x80"
  shows "inlineUTF8SequenceLength (hd s) = 1" "isLegalUTF8 s 1" "readUTF8Sequence s 1 = int (hd s)"
  using assms by (cases s;
    simp add: inlineUTF8SequenceLength_def isLegalUTF8_def readUTF8Sequence_def offsetsFromUTF8_def)+

lemma sequence_units_length:
  assumes "s \<noteq> []" "isLegalUTF8 s (inlineUTF8SequenceLength (hd s))"
  shows "length (sequence_units s) \<le> inlineUTF8SequenceLength (hd s)"
proof (cases "hd s < 0x80")
  case True
  thus ?thesis using ascii_sequence [OF assms(1) True]
    by (simp add: sequence_units_def U_IS_BMP_def)
next
  case False
  hence "inlineUTF8SequenceLength (hd s) \<noteq> 0" using assms(2) not_legal_0 by metis
  hence "2 \<le> inlineUTF8SequenceLength (hd s)" using False
    by (auto simp: inlineUTF8SequenceLength_def inlineUTF8SequenceLengthNonASCII_def split: if_splits)
  thus ?thesis by (simp add: sequence_units_def Let_def)
qed

lemma decoder_round:
  assumes "\<forall>b\<in>set s. b < 256" "s \<noteq> []" "length target + length s \<le> capacity"
  shows "if length s < inlineUTF8SequenceLength (hd s) \<or> \<not> isLegalUTF8 s (inlineUTF8SequenceLength (hd s))
    then \<exists>r. r \<noteq> conversionOK \<and> convert8to16 True capacity target ors s = (r, s, target, ors)
    else \<exists>o'. convert8to16 True capacity target ors s
      = convert8to16 True capacity (target @ sequence_units s) o' (drop (inlineUTF8SequenceLength (hd s)) s)"
proof (cases "length s < inlineUTF8SequenceLength (hd s) \<or> \<not> isLegalUTF8 s (inlineUTF8SequenceLength (hd s))")
  case True
  thus ?thesis using assms(2) by (subst convert8to16.simps) (auto simp: Let_def)
next
  case False
  let ?n = "inlineUTF8SequenceLength (hd s)"
  have v: "U_IS_BMP (readUTF8Sequence s ?n) \<and> \<not> U_IS_SURROGATE (readUTF8Sequence s ?n)
      \<or> U_IS_SUPPLEMENTARY (readUTF8Sequence s ?n)"
    by (rule legal_value [OF assms(1,2) refl]) (use False in auto)
  have "length target + length (sequence_units s) \<le> capacity"
    using sequence_units_length [OF assms(2)] False assms(3) by linarith
  with v False assms(2) show ?thesis
    by (subst convert8to16.simps)
      (auto simp: Let_def sequence_units_def U_IS_BMP_def U_IS_SUPPLEMENTARY_def)
qed

lemma hash_round:
  assumes "\<forall>b\<in>set s. b < 256" "s \<noteq> []" "\<not> bounded \<longrightarrow> 0 \<notin> set s"
  shows "if length s < inlineUTF8SequenceLength (hd s) \<or> \<not> isLegalUTF8 s (inlineUTF8SequenceLength (hd s))
    then \<exists>d'. hash_utf8 bounded s h d u = (0, d', u)
    else \<exists>h'. same_hasher h' (feed (map of_nat (sequence_units s)) h)
      \<and> hash_utf8 bounded s h d u
        = hash_utf8 bounded (drop (inlineUTF8SequenceLength (hd s)) s) h'
            (d + of_nat (inlineUTF8SequenceLength (hd s))) (u + of_nat (length (sequence_units s)))"
proof (cases "hd s < 0x80")
  case True
  note a = ascii_sequence [OF assms(2) True]
  have "sequence_units s = [hd s]" using a True by (simp add: sequence_units_def U_IS_BMP_def)
  with a True assms at_end_Nil [of bounded s] show ?thesis
    by (subst hash_utf8.simps) (auto simp: drop_Suc Suc_le_eq)
next
  case False
  let ?n = "inlineUTF8SequenceLength (hd s)"
  have n: "inlineUTF8SequenceLengthNonASCII (hd s) = ?n" using False by (simp add: inlineUTF8SequenceLength_def)
  have e: "\<not> utf8_at_end bounded s" using at_end_Nil [of bounded s] assms(2,3) by blast
  note cut = legal_cut_short [OF n e assms(3)]
  show ?thesis
  proof (cases "length s < ?n \<or> \<not> isLegalUTF8 s ?n")
    case True
    with n e cut False show ?thesis by (subst hash_utf8.simps) (auto simp: Let_def)
  next
    case ok: False
    have v: "U_IS_BMP (readUTF8Sequence s ?n) \<and> \<not> U_IS_SURROGATE (readUTF8Sequence s ?n)
        \<or> U_IS_SUPPLEMENTARY (readUTF8Sequence s ?n)"
      by (rule legal_value [OF assms(1,2) refl]) (use ok in auto)
    show ?thesis
    proof (cases "U_IS_BMP (readUTF8Sequence s ?n)")
      case True
      hence "of_int (readUTF8Sequence s ?n) = (of_nat (nat (readUTF8Sequence s ?n)) :: uchar)"
        by (simp add: U_IS_BMP_def)
      with True v ok n e cut False show ?thesis
        by (subst hash_utf8.simps)
          (auto simp: Let_def sequence_units_def U_IS_BMP_def U_IS_SUPPLEMENTARY_def)
    next
      case big: False
      with v ok n e cut False show ?thesis
        using addPair_feed by (subst hash_utf8.simps) (auto simp: Let_def sequence_units_def)
    qed
  qed
qed

lemma hash_utf8_decodes:
  assumes "\<forall>b\<in>set s. b < 256" "\<not> bounded \<longrightarrow> 0 \<notin> set s" "length target + length s \<le> capacity"
    and "same_hasher h (feed (map of_nat target) StringHasher)"
    and "convert8to16 True capacity target ors s = (r, rest, out, o')"
  shows "if r = conversionOK
    then hash_utf8 bounded s h d u = (hashWithTop8BitsMasked (feed (map of_nat out) StringHasher),
        d + of_nat (length s), u + of_nat (length out) - of_nat (length target))
    else fst (hash_utf8 bounded s h d u) = 0"
  using assms
proof (induction "length s" arbitrary: s target h ors d u rule: less_induct)
  case less
  show ?case
  proof (cases "s = []")
    case True
    hence "r = conversionOK" "out = target" using less.prems(5) by (simp_all add: convert8to16.simps)
    with True less.prems(4) show ?thesis
      by (subst hash_utf8.simps) (simp add: at_end_Nil same_hasher_hash)
  next
    case False
    let ?n = "inlineUTF8SequenceLength (hd s)"
    note dr = decoder_round [OF less.prems(1) False less.prems(3), of ors]
    note hr = hash_round [OF less.prems(1) False less.prems(2), of h d u]
    show ?thesis
    proof (cases "length s < ?n \<or> \<not> isLegalUTF8 s ?n")
      case True
      with dr hr less.prems(5) show ?thesis by auto
    next
      case ok: False
      have "?n \<noteq> 0" using ok not_legal_0 by metis
      hence shorter: "length (drop ?n s) < length s" using False by simp
      obtain o2 where o2: "convert8to16 True capacity (target @ sequence_units s) o2 (drop ?n s) = (r, rest, out, o')"
        using dr ok less.prems(5) by auto
      obtain h' where h': "same_hasher h' (feed (map of_nat (sequence_units s)) h)"
          "hash_utf8 bounded s h d u = hash_utf8 bounded (drop ?n s) h'
             (d + of_nat ?n) (u + of_nat (length (sequence_units s)))"
        using hr ok by auto
      have "same_hasher h' (feed (map of_nat (target @ sequence_units s)) StringHasher)"
        using hasher_sink.same_trans [OF h'(1) hasher_sink.fold_same [OF less.prems(4)]] by simp
      moreover have "length (target @ sequence_units s) + length (drop ?n s) \<le> capacity"
        using sequence_units_length [OF False] ok less.prems(3) by simp
      moreover have "\<forall>b\<in>set (drop ?n s). b < 256" "\<not> bounded \<longrightarrow> 0 \<notin> set (drop ?n s)"
        using less.prems(1,2) by (auto dest: in_set_dropD)
      ultimately have "if r = conversionOK
        then hash_utf8 bounded (drop ?n s) h' (d + of_nat ?n) (u + of_nat (length (sequence_units s)))
          = (hashWithTop8BitsMasked (feed (map of_nat out) StringHasher),
             d + of_nat ?n + of_nat (length (drop ?n s)),
             u + of_nat (length (sequence_units s)) + of_nat (length out)
               - of_nat (length (target @ sequence_units s)))
        else fst (hash_utf8 bounded (drop ?n s) h' (d + of_nat ?n) (u + of_nat (length (sequence_units s)))) = 0"
        using less.hyps [OF shorter] o2 by blast
      moreover have "of_nat ?n + of_nat (length (drop ?n s)) = (of_nat (length s) :: unsigned)"
        using ok by (simp flip: of_nat_add)
      ultimately show ?thesis using h'(2) by (simp add: algebra_simps)
    qed
  qed
qed

text \<open>C34: Hashing UTF-8 text without converting it gives what converting it first would: for any
  bytes at all, the hash is that of the UTF-16 text the strict decoder produces, with the two lengths,
  and it is \<open>0\<close> exactly if the decoder refuses the text. Text without an end pointer, ended by its
  null byte, is treated alike.\<close>

theorem utf8_hash_is_hash_of_conversion:
  assumes "\<forall>b\<in>set s. b < 256" and "\<not> bounded \<longrightarrow> 0 \<notin> set s"
    and "convertUTF8ToUTF16 True (length s) s = (r, rest, out, ascii)"
  shows "(r = conversionOK \<longrightarrow>
        calculateStringHashAndLengthFromUTF8MaskingTop8Bits bounded (Some s) dl ul
          = (computeHashAndMaskTop8Bits (map of_nat out), of_nat (length s), of_nat (length out)))
    \<and> (fst (calculateStringHashAndLengthFromUTF8MaskingTop8Bits bounded (Some s) dl ul) = 0
        \<longleftrightarrow> r \<noteq> conversionOK)"
proof -
  obtain o' where "convert8to16 True (length s) [] 0 s = (r, rest, out, o')"
    using assms(3) by (auto simp: convertUTF8ToUTF16_def split: prod.splits)
  from hash_utf8_decodes [OF assms(1,2) _ _ this, of StringHasher 0 0] show ?thesis
    by (auto simp: calculateStringHashAndLengthFromUTF8MaskingTop8Bits_def computeHash_feed
        masked_hash_range split: if_splits)
qed

theorem utf8_hash_is_hash_of_conversion_witness:
  "calculateStringHashAndLengthFromUTF8MaskingTop8Bits False (Some [0x41, 0xE2, 0x82, 0xAC]) 0 0
     = (computeHashAndMaskTop8Bits [0x41, 0x20AC], 4, 2)"
proof -
  have enc: "utf8_text [0x41, 0x20AC] = [0x41, 0xE2, 0x82, 0xAC]" "utf16_text [0x41, 0x20AC] = [0x41, 0x20AC]"
    by (simp_all add: utf8_of_def utf16_of_def)
  obtain o' where "convert8to16 True 4 [] 0 [0x41, 0xE2, 0x82, 0xAC] = (conversionOK, [], [0x41, 0x20AC], o')"
    using decode_text [of "[0x41, 0x20AC]" "[]" 4 True 0] unfolding enc by (auto simp: scalar_def)
  hence "convertUTF8ToUTF16 True (length [0x41, 0xE2, 0x82, 0xAC]) [0x41, 0xE2, 0x82, 0xAC]
      = (conversionOK, [], [0x41, 0x20AC], o' < 0x80)"
    by (simp add: convertUTF8ToUTF16_def eval_nat_numeral)
  from utf8_hash_is_hash_of_conversion [OF _ _ this, of False 0 0] show ?thesis by simp
qed

end
