(* ===== verification/Link_Hash.thy ===== *)
theory Link_Hash
  imports String_Hash Visited_Links
begin

unbundle bit_operations_syntax

text \<open>
  From a link to the hash under which it is coloured, \<^verbatim>\<open>WebCore/platform/LinkHash.cpp\<close>: the link is
  resolved against the base URL with a simplified algorithm that works in place on a buffer, marking
  what is to go with null characters and squeezing them out at the end.

  Characters are natural numbers, below 256 in the instance for 8-bit strings and below 65536 in the
  one for 16-bit strings; the templates do the same for both, and \<^verbatim>\<open>getCharactersWithUpconvert\<close> keeps
  the values. \<^verbatim>\<open>notFound\<close> is \<open>None\<close>. Of the base URL only its string and the three offsets the code
  asks for are used.
\<close>

subsection \<open>Searching\<close>

text \<open>\<^verbatim>\<open>for (i = position; i < loopLimit; ++i) if (...) return i;\<close>\<close>

function find_from :: "(nat \<Rightarrow> bool) \<Rightarrow> nat \<Rightarrow> nat \<Rightarrow> nat option" where
  "find_from match i loopLimit =
     (if i < loopLimit then if match i then Some i else find_from match (Suc i) loopLimit else None)"
  by pat_completeness auto
termination
  by (relation "measure (\<lambda>(match, i, loopLimit). loopLimit - i)") auto

declare find_from.simps [simp del]

definition findSlashDotDotSlash :: "nat list \<Rightarrow> nat \<Rightarrow> nat option" where
  "findSlashDotDotSlash characters position =
     (if length characters < 4 then None
      else find_from (\<lambda>i. characters ! i = 0x2F \<and> characters ! (i + 1) = 0x2E
               \<and> characters ! (i + 2) = 0x2E \<and> characters ! (i + 3) = 0x2F)
             position (length characters - 3))"

definition findSlashSlash :: "nat list \<Rightarrow> nat \<Rightarrow> nat option" where
  "findSlashSlash characters position =
     (if length characters < 2 then None
      else find_from (\<lambda>i. characters ! i = 0x2F \<and> characters ! (i + 1) = 0x2F)
             position (length characters - 1))"

definition findSlashDotSlash :: "nat list \<Rightarrow> nat \<Rightarrow> nat option" where
  "findSlashDotSlash characters position =
     (if length characters < 3 then None
      else find_from (\<lambda>i. characters ! i = 0x2F \<and> characters ! (i + 1) = 0x2E
               \<and> characters ! (i + 2) = 0x2F)
             position (length characters - 2))"

definition containsColonSlashSlash :: "nat list \<Rightarrow> bool" where
  "containsColonSlashSlash characters =
     (if length characters < 3 then False
      else find_from (\<lambda>i. characters ! i = 0x3A \<and> characters ! (i + 1) = 0x2F
               \<and> characters ! (i + 2) = 0x2F)
             0 (length characters - 2) \<noteq> None)"

text \<open>\<^verbatim>\<open>WTF::find\<close> and \<^verbatim>\<open>WTF::reverseFind\<close> for a single character.\<close>

definition find_char :: "nat list \<Rightarrow> nat \<Rightarrow> nat \<Rightarrow> nat option" where
  "find_char characters matchCharacter index =
     find_from (\<lambda>i. characters ! i = matchCharacter) index (length characters)"

fun reverse_from :: "nat list \<Rightarrow> nat \<Rightarrow> nat \<Rightarrow> nat option" where
  "reverse_from characters matchCharacter 0 =
     (if characters ! 0 \<noteq> matchCharacter then None else Some 0)"
| "reverse_from characters matchCharacter (Suc index) =
     (if characters ! Suc index \<noteq> matchCharacter then reverse_from characters matchCharacter index
      else Some (Suc index))"

definition reverseFind :: "nat list \<Rightarrow> nat \<Rightarrow> nat \<Rightarrow> nat option" where
  "reverseFind characters matchCharacter index =
     (if length characters = 0 then None
      else reverse_from characters matchCharacter
             (if length characters \<le> index then length characters - 1 else index))"

subsection \<open>Cleaning a path in place\<close>

text \<open>The second loop of \<^verbatim>\<open>squeezeOutNullCharacters\<close>, which moves characters down.\<close>

function squeeze_from :: "nat list \<Rightarrow> nat \<Rightarrow> nat \<Rightarrow> nat list" where
  "squeeze_from string i j =
     (if i < length string
      then if string ! i \<noteq> 0 then squeeze_from (string[j := string ! i]) (Suc i) (Suc j)
           else squeeze_from string (Suc i) j
      else take j string)"
  by pat_completeness auto
termination
  by (relation "measure (\<lambda>(string, i, j). length string - i)") auto

declare squeeze_from.simps [simp del]

definition squeezeOutNullCharacters :: "nat list \<Rightarrow> nat list" where
  "squeezeOutNullCharacters string =
     (let i = first_index 0 string
      in if i = length string then string else squeeze_from string (Suc i) i)"

text \<open>\<^verbatim>\<open>for (i = first; i < last; ++i) path[i] = 0;\<close>\<close>

definition zero_range :: "nat \<Rightarrow> nat \<Rightarrow> nat list \<Rightarrow> nat list" where
  "zero_range a b path = fold (\<lambda>i path. path[i := 0]) [a..<b] path"

lemma length_zero_range [simp]: "length (zero_range a b path) = length path"
proof -
  have "length (fold (\<lambda>i path. path[i := 0]) js path) = length path" for js and path :: "nat list"
    by (induction js arbitrary: path) auto
  thus ?thesis by (simp add: zero_range_def)
qed

lemma find_from_bounds: "find_from P i l = Some k \<Longrightarrow> i \<le> k \<and> k < l \<and> P k"
proof (induction P i l rule: find_from.induct)
  case (1 P i l)
  from "1.prems" show ?case
    by (subst (asm) find_from.simps) (auto split: if_splits dest!: "1.IH" Suc_leD)
qed

definition dotdot_step :: "nat list \<Rightarrow> nat \<Rightarrow> nat list" where
  "dotdot_step path slash =
     (case (if slash \<noteq> 0 then reverseFind path 0x2F (slash - 1) else None) of
        None \<Rightarrow> path[slash := 0, slash + 1 := 0, slash + 2 := 0]
      | Some previousSlash \<Rightarrow>
          if previousSlash > 3 \<and> path ! (previousSlash - 2) = 0x3A \<and> path ! (previousSlash - 1) = 0x2F
          then path[slash := 0, slash + 1 := 0, slash + 2 := 0]
          else zero_range previousSlash (slash + 3) path)"

lemma length_dotdot_step [simp]: "length (dotdot_step path slash) = length path"
  by (simp add: dotdot_step_def split: option.split)

function dotdot_loop :: "nat list \<Rightarrow> nat \<Rightarrow> nat list" where
  "dotdot_loop path slash =
     (case findSlashDotDotSlash (dotdot_step path slash) (slash + 3) of
        Some slash' \<Rightarrow> dotdot_loop (dotdot_step path slash) slash'
      | None \<Rightarrow> dotdot_step path slash)"
  by pat_completeness auto
termination
  by (relation "measure (\<lambda>(path, slash). length path - slash)")
    (auto simp: findSlashDotDotSlash_def split: if_splits dest!: find_from_bounds)

declare dotdot_loop.simps [simp del]

definition cleanSlashDotDotSlashes :: "nat list \<Rightarrow> nat \<Rightarrow> nat list" where
  "cleanSlashDotDotSlashes path firstSlash = squeezeOutNullCharacters (dotdot_loop path firstSlash)"

function merge_loop :: "nat list \<Rightarrow> nat \<Rightarrow> nat \<Rightarrow> nat list" where
  "merge_loop path refPos slash =
     (if slash < refPos
      then if slash = 0 \<or> path ! (slash - 1) \<noteq> 0x3A
           then (case findSlashSlash (path[slash := 0]) (slash + 1) of
                   None \<Rightarrow> path[slash := 0]
                 | Some slash' \<Rightarrow> merge_loop (path[slash := 0]) refPos slash')
           else (case findSlashSlash path (slash + 2) of
                   None \<Rightarrow> path
                 | Some slash' \<Rightarrow> merge_loop path refPos slash')
      else path)"
  by pat_completeness auto
termination
  by (relation "measure (\<lambda>(path, refPos, slash). length path - slash)")
    (auto simp: findSlashSlash_def split: if_splits dest!: find_from_bounds)

declare merge_loop.simps [simp del]

definition mergeDoubleSlashes :: "nat list \<Rightarrow> nat \<Rightarrow> nat list" where
  "mergeDoubleSlashes path firstSlash =
     (let refPos = (case find_char path 0x23 0 of
                      None \<Rightarrow> length path | Some r \<Rightarrow> if r = 0 then length path else r)
      in squeezeOutNullCharacters (merge_loop path refPos firstSlash))"

function dot_loop :: "nat list \<Rightarrow> nat \<Rightarrow> nat list" where
  "dot_loop path slash =
     (let path' = path[slash := 0, slash + 1 := 0]
      in case findSlashDotSlash path' (slash + 2) of
           Some slash' \<Rightarrow> dot_loop path' slash'
         | None \<Rightarrow> path')"
  by pat_completeness auto
termination
  by (relation "measure (\<lambda>(path, slash). length path - slash)")
    (auto simp: findSlashDotSlash_def split: if_splits dest!: find_from_bounds)

declare dot_loop.simps [simp del]

definition cleanSlashDotSlashes :: "nat list \<Rightarrow> nat \<Rightarrow> nat list" where
  "cleanSlashDotSlashes path firstSlash = squeezeOutNullCharacters (dot_loop path firstSlash)"

definition cleanPath :: "nat list \<Rightarrow> nat list" where
  "cleanPath path =
     (let path = (case findSlashDotDotSlash path 0 of
                    None \<Rightarrow> path | Some firstSlash \<Rightarrow> cleanSlashDotDotSlashes path firstSlash);
          path = (case findSlashSlash path 0 of
                    None \<Rightarrow> path | Some firstSlash \<Rightarrow> mergeDoubleSlashes path firstSlash)
      in case findSlashDotSlash path 0 of
           None \<Rightarrow> path | Some firstSlash \<Rightarrow> cleanSlashDotSlashes path firstSlash)"

subsection \<open>Resolving and hashing a link\<close>

definition matchLetter :: "nat \<Rightarrow> nat \<Rightarrow> bool" where
  "matchLetter c lowercaseLetter \<longleftrightarrow> c OR 0x20 = lowercaseLetter"

text \<open>\<^verbatim>\<open>while (pos < length && characters[pos] != '/') ++pos; return pos == length;\<close>\<close>

definition no_slash_from :: "nat list \<Rightarrow> nat \<Rightarrow> bool" where
  "no_slash_from characters pos \<longleftrightarrow> find_char characters 0x2F pos = None"

definition needsTrailingSlash :: "nat list \<Rightarrow> bool" where
  "needsTrailingSlash characters =
     (if length characters < 6 then False
      else if \<not> matchLetter (characters ! 0) 0x68 \<or> \<not> matchLetter (characters ! 1) 0x74
        \<or> \<not> matchLetter (characters ! 2) 0x74 \<or> \<not> matchLetter (characters ! 3) 0x70 then False
      else if \<not> (characters ! 4 = 0x3A \<or> matchLetter (characters ! 4) 0x73 \<and> characters ! 5 = 0x3A)
      then False
      else
        let pos = (if characters ! 4 = 0x3A then 5 else 6);
            pos = (if pos + 1 < length characters \<and> characters ! pos = 0x2F
                     \<and> characters ! (pos + 1) = 0x2F then pos + 2 else pos)
        in no_slash_from characters pos)"

record base_url =
  base_string :: "nat list"
  pathStart :: nat
  pathEnd :: nat
  pathAfterLastSlash :: nat

definition visitedURLInline :: "base_url \<Rightarrow> nat list \<Rightarrow> nat list" where
  "visitedURLInline base characters =
     (if characters = [] then []
      else
        let hasColonSlashSlash = containsColonSlashSlash characters
        in if hasColonSlashSlash \<and> \<not> needsTrailingSlash characters then characters
           else if hasColonSlashSlash then characters @ [0x2F]
           else
             let buffer =
                   (if hd characters = 0x2F then take (pathStart base) (base_string base)
                    else if hd characters = 0x23 then take (pathEnd base) (base_string base)
                    else take (pathAfterLastSlash base) (base_string base)) @ characters;
                 buffer = cleanPath buffer
             in if needsTrailingSlash buffer then buffer @ [0x2F] else buffer)"

definition visitedLinkHashInline :: "nat list \<Rightarrow> link_hash" where
  "visitedLinkHashInline url = ucast (avoidDeletedValue (computeHash (map of_nat url)))"

text \<open>The hash of a URL that was visited, and of a link in a page.\<close>

definition visitedLinkHash :: "nat list \<Rightarrow> link_hash" where
  "visitedLinkHash url = visitedLinkHashInline url"

definition visitedLinkHash_of_link :: "base_url \<Rightarrow> nat list \<Rightarrow> link_hash" where
  "visitedLinkHash_of_link base attributeURL =
     (if attributeURL = [] then 0
      else let url = visitedURLInline base attributeURL
           in if url = [] then 0 else visitedLinkHashInline url)"

definition LinkHashHash_hash :: "link_hash \<Rightarrow> 32 word" where
  "LinkHashHash_hash key = ucast key"

subsection \<open>Lemmas on the loops\<close>

lemma find_from_skip:
  assumes "i \<le> j" "\<And>k. i \<le> k \<Longrightarrow> k < j \<Longrightarrow> k < l \<Longrightarrow> \<not> P k"
  shows "find_from P i l = find_from P j l"
  using assms
proof (induction "j - i" arbitrary: i)
  case (Suc d)
  show ?case
  proof (cases "i < l")
    case True
    have "find_from P i l = find_from P (Suc i) l"
      using Suc.prems(2) [of i] Suc.hyps(2) True by (subst find_from.simps) simp
    also have "\<dots> = find_from P j l" by (rule Suc.hyps(1)) (use Suc.prems Suc.hyps(2) in auto)
    finally show ?thesis .
  next
    case False
    with Suc.prems(1) show ?thesis by (simp add: find_from.simps)
  qed
qed simp

lemma find_from_here: "i < l \<Longrightarrow> P i \<Longrightarrow> find_from P i l = Some i"
  by (simp add: find_from.simps)

lemma find_from_end: "l \<le> i \<Longrightarrow> find_from P i l = None"
  by (simp add: find_from.simps)

lemma find_from_None: "(\<And>k. i \<le> k \<Longrightarrow> k < l \<Longrightarrow> \<not> P k) \<Longrightarrow> find_from P i l = None"
  using find_from_skip [of i "max i l" l P] by (simp add: find_from_end)

lemma squeeze_from_filter:
  "j \<le> i \<Longrightarrow> i \<le> length s \<Longrightarrow>
     squeeze_from s i j = take j s @ filter (\<lambda>c. c \<noteq> 0) (drop i s)"
proof (induction s i j rule: squeeze_from.induct)
  case (1 s i j)
  show ?case
  proof (cases "i < length s")
    case True
    have "drop i s = s ! i # drop (Suc i) s" using True by (simp add: Cons_nth_drop_Suc)
    moreover have "take (Suc j) (s[j := s ! i]) = take j s @ [s ! i]"
      using True "1.prems" by (simp add: take_Suc_conv_app_nth)
    moreover have "drop (Suc i) (s[j := s ! i]) = drop (Suc i) s" using "1.prems" by simp
    ultimately show ?thesis
      using 1 True by (subst squeeze_from.simps) simp
  next
    case False
    with "1.prems" show ?thesis by (subst squeeze_from.simps) simp
  qed
qed

lemma take_first_index: "c \<notin> set (take (first_index c s) s)"
  by (induction s) auto

lemma filter_no_null: "0 \<notin> set (s :: nat list) \<Longrightarrow> filter (\<lambda>c. c \<noteq> 0) s = s"
  by (induction s) auto

lemma squeezeOutNullCharacters_filter: "squeezeOutNullCharacters s = filter (\<lambda>c. c \<noteq> 0) s"
proof (cases "0 \<in> set s")
  case True
  let ?i = "first_index 0 s"
  have lt: "?i < length s" using True by simp
  have "s = take ?i s @ 0 # drop (Suc ?i) s"
    using id_take_nth_drop [OF lt] True by simp
  hence "filter (\<lambda>c. c \<noteq> 0) s = filter (\<lambda>c. c \<noteq> 0) (take ?i s) @ filter (\<lambda>c. c \<noteq> 0) (drop (Suc ?i) s)"
    by (metis (mono_tags, lifting) filter.simps(2) filter_append)
  moreover have "filter (\<lambda>c. c \<noteq> 0) (take ?i s) = take ?i s"
    by (rule filter_no_null) (rule take_first_index)
  ultimately show ?thesis
    using squeeze_from_filter [of ?i "Suc ?i" s, OF _ Suc_leI [OF lt]] by (simp add: squeezeOutNullCharacters_def Let_def)
next
  case False
  hence "first_index 0 s = length s" using first_index_le [of 0 s] first_index_less_iff [of 0 s] by linarith
  moreover have "filter (\<lambda>c. c \<noteq> 0) s = s" using False by (rule filter_no_null)
  ultimately show ?thesis by (simp add: squeezeOutNullCharacters_def)
qed

lemma zero_range_append:
  "zero_range (length xs) (length xs + length ys) (xs @ ys @ zs) = xs @ replicate (length ys) 0 @ zs"
proof (induction ys arbitrary: xs)
  case (Cons y ys)
  have "[length xs..<length xs + length (y # ys)] = length xs # [length (xs @ [0])..<length (xs @ [0]) + length ys]"
    by (simp add: upt_conv_Cons del: upt_Suc)
  thus ?case using Cons.IH [of "xs @ [0]"] by (simp add: zero_range_def list_update_append)
qed (simp add: zero_range_def)

lemma reverse_from_last:
  assumes "c \<notin> set ys"
  shows "reverse_from (xs @ c # ys @ zs) c (length xs + length ys) = Some (length xs)"
  using assms
proof (induction ys arbitrary: zs rule: rev_induct)
  case Nil
  then show ?case by (cases "length xs") (auto simp: nth_append)
next
  case (snoc y ys)
  have "(xs @ c # (ys @ [y]) @ zs) ! Suc (length xs + length ys) = y" by (simp add: nth_append)
  with snoc.IH [of "y # zs"] snoc.prems show ?case by simp
qed

lemma reverseFind_last:
  "c \<notin> set ys \<Longrightarrow> reverseFind (xs @ c # ys @ zs) c (length xs + length ys) = Some (length xs)"
  using reverse_from_last [of c ys xs zs] by (simp add: reverseFind_def)

text \<open>A position further on.\<close>

definition later :: "nat \<Rightarrow> nat option \<Rightarrow> nat option" where
  "later n r = map_option (\<lambda>k. n + k) r"

lemma later_simps [simp]:
  "later n None = None" "later n (Some k) = Some (n + k)" "later 0 r = r"
  "later n (later m r) = later (n + m) r"
  by (simp_all add: later_def option.map_comp comp_def option.map_ident add.assoc)

text \<open>The searches as recursions over the list, so that a position in the buffer is the part
  before it.\<close>

lemma find_from_shift:
  "find_from P (c + i) (c + l) = later c (find_from (\<lambda>i. P (c + i)) i l)"
proof (induction "l - i" arbitrary: i)
  case 0
  thus ?case by (simp add: find_from_end)
next
  case (Suc d)
  hence "find_from P (c + Suc i) (c + l) = later c (find_from (\<lambda>i. P (c + i)) (Suc i) l)"
    by (metis Suc_diff_Suc Suc_inject zero_less_Suc zero_less_diff)
  thus ?case
    by (subst (2) find_from.simps, subst find_from.simps) simp
qed

lemma nth_after:
  "(C @ L) ! Suc (length C + i) = L ! Suc i" "(C @ L) ! Suc (Suc (length C + i)) = L ! Suc (Suc i)"
  by (simp_all add: nth_append)

lemma find_shift:
  "findSlashDotDotSlash (C @ L) (length C) = later (length C) (findSlashDotDotSlash L 0)"
  "findSlashSlash (C @ L) (length C) = later (length C) (findSlashSlash L 0)"
  "findSlashDotSlash (C @ L) (length C) = later (length C) (findSlashDotSlash L 0)"
proof -
  show "findSlashDotDotSlash (C @ L) (length C) = later (length C) (findSlashDotDotSlash L 0)"
  proof (cases "length L < 4")
    case False
    thus ?thesis using find_from_shift [of _ "length C" 0 "length L - 3"]
      by (simp add: findSlashDotDotSlash_def add.assoc nth_after)
  qed (simp add: findSlashDotDotSlash_def find_from_end)
  show "findSlashSlash (C @ L) (length C) = later (length C) (findSlashSlash L 0)"
  proof (cases "length L < 2")
    case False
    thus ?thesis using find_from_shift [of _ "length C" 0 "length L - 1"]
      by (simp add: findSlashSlash_def add.assoc nth_after)
  qed (simp add: findSlashSlash_def find_from_end)
  show "findSlashDotSlash (C @ L) (length C) = later (length C) (findSlashDotSlash L 0)"
  proof (cases "length L < 3")
    case False
    thus ?thesis using find_from_shift [of _ "length C" 0 "length L - 2"]
      by (simp add: findSlashDotSlash_def add.assoc nth_after)
  qed (simp add: findSlashDotSlash_def find_from_end)
qed

text \<open>The text a search looks for.\<close>

definition starts_with :: "nat list \<Rightarrow> nat list \<Rightarrow> bool" where
  "starts_with pat s \<longleftrightarrow> take (length pat) s = pat"

lemma starts_with_simps [simp]:
  "starts_with [] s" "\<not> starts_with (p # ps) []"
  "starts_with (p # ps) (c # s) \<longleftrightarrow> p = c \<and> starts_with ps s"
  by (auto simp: starts_with_def)

lemma find_Nil [simp]:
  "findSlashDotDotSlash [] i = None" "findSlashSlash [] i = None" "findSlashDotSlash [] i = None"
  by (simp_all add: findSlashDotDotSlash_def findSlashSlash_def findSlashDotSlash_def)

lemma find_from_0:
  "find_from P 0 l = (if 0 < l \<and> P 0 then Some 0 else find_from P (Suc 0) l)"
  by (subst find_from.simps) (simp add: find_from_end)

lemma starts_with_pats:
  "starts_with [a, b, c, d] s \<longleftrightarrow> \<not> length s < 4 \<and> s ! 0 = a \<and> s ! 1 = b \<and> s ! 2 = c \<and> s ! 3 = d"
  "starts_with [a, b, c] s \<longleftrightarrow> \<not> length s < 3 \<and> s ! 0 = a \<and> s ! 1 = b \<and> s ! 2 = c"
  "starts_with [a, b] s \<longleftrightarrow> \<not> length s < 2 \<and> s ! 0 = a \<and> s ! 1 = b"
proof -
  show "starts_with [a, b] s \<longleftrightarrow> \<not> length s < 2 \<and> s ! 0 = a \<and> s ! 1 = b"
    by (cases s; cases "tl s") auto
  show "starts_with [a, b, c] s \<longleftrightarrow> \<not> length s < 3 \<and> s ! 0 = a \<and> s ! 1 = b \<and> s ! 2 = c"
    by (cases s; cases "tl s"; cases "tl (tl s)") (auto simp: numeral_2_eq_2 numeral_3_eq_3)
  show "starts_with [a, b, c, d] s \<longleftrightarrow> \<not> length s < 4 \<and> s ! 0 = a \<and> s ! 1 = b \<and> s ! 2 = c \<and> s ! 3 = d"
    by (cases s; cases "tl s"; cases "tl (tl s)"; cases "tl (tl (tl s))") (auto simp: numeral_2_eq_2 numeral_3_eq_3)
qed

lemma find_at_0:
  "findSlashDotDotSlash s 0
     = (if starts_with [0x2F, 0x2E, 0x2E, 0x2F] s then Some 0 else findSlashDotDotSlash s (Suc 0))"
  "findSlashSlash s 0 = (if starts_with [0x2F, 0x2F] s then Some 0 else findSlashSlash s (Suc 0))"
  "findSlashDotSlash s 0
     = (if starts_with [0x2F, 0x2E, 0x2F] s then Some 0 else findSlashDotSlash s (Suc 0))"
  unfolding starts_with_pats findSlashDotDotSlash_def findSlashSlash_def findSlashDotSlash_def
  by (subst find_from_0, simp add: numeral_2_eq_2)+

lemma find_Cons:
  "findSlashDotDotSlash (c # L) 0 = (if starts_with [0x2F, 0x2E, 0x2E, 0x2F] (c # L) then Some 0
     else later 1 (findSlashDotDotSlash L 0))"
  "findSlashSlash (c # L) 0 = (if starts_with [0x2F, 0x2F] (c # L) then Some 0
     else later 1 (findSlashSlash L 0))"
  "findSlashDotSlash (c # L) 0 = (if starts_with [0x2F, 0x2E, 0x2F] (c # L) then Some 0
     else later 1 (findSlashDotSlash L 0))"
proof -
  note shift = find_shift [of "[c]" L, simplified length_Cons list.size append_Cons append_Nil]
  show "findSlashDotDotSlash (c # L) 0 = (if starts_with [0x2F, 0x2E, 0x2E, 0x2F] (c # L) then Some 0
     else later 1 (findSlashDotDotSlash L 0))"
    by (subst find_at_0) (simp only: shift One_nat_def)
  show "findSlashSlash (c # L) 0 = (if starts_with [0x2F, 0x2F] (c # L) then Some 0
     else later 1 (findSlashSlash L 0))"
    by (subst find_at_0) (simp only: shift One_nat_def)
  show "findSlashDotSlash (c # L) 0 = (if starts_with [0x2F, 0x2E, 0x2F] (c # L) then Some 0
     else later 1 (findSlashDotSlash L 0))"
    by (subst find_at_0) (simp only: shift One_nat_def)
qed

lemma find_skip:
  assumes "0x2F \<notin> set s"
  shows "findSlashDotDotSlash (s @ L) 0 = later (length s) (findSlashDotDotSlash L 0)"
    "findSlashSlash (s @ L) 0 = later (length s) (findSlashSlash L 0)"
    "findSlashDotSlash (s @ L) 0 = later (length s) (findSlashDotSlash L 0)"
  using assms
  by (induction s) (auto simp: find_Cons )

subsection \<open>Paths as sequences of segments\<close>

definition seg_path :: "nat list list \<Rightarrow> nat list" where
  "seg_path segs = concat (map (\<lambda>s. 0x2F # s) segs)"

lemma seg_path_simps [simp]:
  "seg_path [] = []" "seg_path (s # segs) = 0x2F # s @ seg_path segs"
  "seg_path (segs @ segs') = seg_path segs @ seg_path segs'"
  by (simp_all add: seg_path_def)

text \<open>What cleaning means: a segment \<open>..\<close> that is not the last one takes the one before it away (at
  the root it just goes), and a segment \<open>.\<close> that is not the last one goes.\<close>

fun resolve_up :: "nat list list \<Rightarrow> nat list list \<Rightarrow> nat list list" where
  "resolve_up st [] = rev st"
| "resolve_up st [s] = rev (s # st)"
| "resolve_up st (s # t # segs) =
     (if s = [0x2E, 0x2E] then resolve_up (tl st) (t # segs) else resolve_up (s # st) (t # segs))"

fun drop_here :: "nat list list \<Rightarrow> nat list list" where
  "drop_here (s # t # segs) =
     (if s = [0x2E] then drop_here (t # segs) else s # drop_here (t # segs))"
| "drop_here segs = segs"

definition plain_segment :: "nat list \<Rightarrow> bool" where
  "plain_segment s \<longleftrightarrow> 0x2F \<notin> set s \<and> 0 \<notin> set s"

definition plain_segs :: "nat list list \<Rightarrow> bool" where
  "plain_segs segs \<longleftrightarrow> (\<forall>s\<in>set segs. plain_segment s) \<and> [] \<notin> set (butlast segs)"

lemma plain_segs_Cons: "plain_segs (s # t # segs) \<longleftrightarrow> plain_segment s \<and> s \<noteq> [] \<and> plain_segs (t # segs)"
  by (auto simp: plain_segs_def)

lemma find_segs:
  assumes "plain_segment s"
  shows "findSlashDotDotSlash (0x2F # s @ seg_path segs) 0 = (if s = [0x2E, 0x2E] \<and> segs \<noteq> [] then Some 0
       else later (Suc (length s)) (findSlashDotDotSlash (seg_path segs) 0))"
    and "findSlashDotSlash (0x2F # s @ seg_path segs) 0 = (if s = [0x2E] \<and> segs \<noteq> [] then Some 0
       else later (Suc (length s)) (findSlashDotSlash (seg_path segs) 0))"
    and "findSlashSlash (0x2F # s @ seg_path segs) 0 = (if s = [] \<and> segs \<noteq> [] then Some 0
       else later (Suc (length s)) (findSlashSlash (seg_path segs) 0))"
proof -
  have s: "0x2F \<notin> set s" using assms by (simp add: plain_segment_def)
  have "starts_with [0x2F, 0x2E, 0x2E, 0x2F] (0x2F # s @ seg_path segs) \<longleftrightarrow> s = [0x2E, 0x2E] \<and> segs \<noteq> []"
    "starts_with [0x2F, 0x2E, 0x2F] (0x2F # s @ seg_path segs) \<longleftrightarrow> s = [0x2E] \<and> segs \<noteq> []"
    "starts_with [0x2F, 0x2F] (0x2F # s @ seg_path segs) \<longleftrightarrow> s = [] \<and> segs \<noteq> []"
    using s by (cases s; cases "tl s"; cases "tl (tl s)"; cases segs; auto)+
  thus "findSlashDotDotSlash (0x2F # s @ seg_path segs) 0 = (if s = [0x2E, 0x2E] \<and> segs \<noteq> [] then Some 0
       else later (Suc (length s)) (findSlashDotDotSlash (seg_path segs) 0))"
    "findSlashDotSlash (0x2F # s @ seg_path segs) 0 = (if s = [0x2E] \<and> segs \<noteq> [] then Some 0
       else later (Suc (length s)) (findSlashDotSlash (seg_path segs) 0))"
    "findSlashSlash (0x2F # s @ seg_path segs) 0 = (if s = [] \<and> segs \<noteq> [] then Some 0
       else later (Suc (length s)) (findSlashSlash (seg_path segs) 0))"
    by (simp_all add: find_Cons find_skip [OF s] del: starts_with_simps)
qed

text \<open>Scheme and host, in front of the path.\<close>

definition origin :: "nat list \<Rightarrow> nat list \<Rightarrow> nat list" where
  "origin scheme host = scheme @ [0x3A, 0x2F, 0x2F] @ host"

definition plain_origin :: "nat list \<Rightarrow> nat list \<Rightarrow> bool" where
  "plain_origin scheme host \<longleftrightarrow> 2 \<le> length scheme \<and> 0x2F \<notin> set scheme \<and> 0 \<notin> set scheme
     \<and> plain_segment host \<and> host \<noteq> [0x2E] \<and> host \<noteq> [0x2E, 0x2E]"

lemma find_past_origin:
  assumes "plain_origin scheme host"
  shows "findSlashDotDotSlash (origin scheme host @ seg_path segs) 0
      = findSlashDotDotSlash (origin scheme host @ seg_path segs) (length (origin scheme host))"
    and "findSlashDotSlash (origin scheme host @ seg_path segs) 0
      = findSlashDotSlash (origin scheme host @ seg_path segs) (length (origin scheme host))"
    and "findSlashSlash (origin scheme host @ seg_path segs) 0 = Some (length scheme + 1)"
proof -
  have sch: "0x2F \<notin> set scheme" and host: "plain_segment host" "host \<noteq> [0x2E]" "host \<noteq> [0x2E, 0x2E]"
    using assms by (simp_all add: plain_origin_def)
  have o: "origin scheme host @ seg_path segs
      = scheme @ 0x3A # 0x2F # 0x2F # host @ seg_path segs" by (simp add: origin_def)
  have len: "length (origin scheme host) = length scheme + Suc (Suc (Suc (length host)))"
    by (simp add: origin_def)
  show "findSlashDotDotSlash (origin scheme host @ seg_path segs) 0
      = findSlashDotDotSlash (origin scheme host @ seg_path segs) (length (origin scheme host))"
    unfolding find_shift unfolding len
    by (simp add: o find_skip [OF sch] find_Cons [of "0x3A"] find_Cons [of _ "0x2F # _"]
        find_segs [OF host(1)] host)
  show "findSlashDotSlash (origin scheme host @ seg_path segs) 0
      = findSlashDotSlash (origin scheme host @ seg_path segs) (length (origin scheme host))"
    unfolding find_shift unfolding len
    by (simp add: o find_skip [OF sch] find_Cons [of "0x3A"] find_Cons [of _ "0x2F # _"]
        find_segs [OF host(1)] host)
  show "findSlashSlash (origin scheme host @ seg_path segs) 0 = Some (length scheme + 1)"
    by (simp add: o find_skip [OF sch] find_Cons)
qed

subsection \<open>Segments that go up\<close>

text \<open>
  The buffer before the loop's position: the origin, then the segments kept so far (last first in
  the stack), with null characters where something was removed.
\<close>

inductive marked :: "nat list \<Rightarrow> nat list \<Rightarrow> nat list list \<Rightarrow> bool" for org where
  start: "marked org org []"
| nulls: "marked org C st \<Longrightarrow> marked org (C @ replicate m 0) st"
| segment: "marked org C st \<Longrightarrow> plain_segment s \<Longrightarrow> s \<noteq> [] \<Longrightarrow> marked org (C @ 0x2F # s) (s # st)"

lemma marked_Nil: "marked org C st \<Longrightarrow> st = [] \<Longrightarrow> \<exists>k. C = org @ replicate k 0"
  by (induction rule: marked.induct) (auto simp flip: replicate_add intro: exI [of _ 0])

lemma marked_Cons:
  "marked org C st \<Longrightarrow> st \<noteq> [] \<Longrightarrow> \<exists>A ys. C = A @ 0x2F # ys \<and> 0x2F \<notin> set ys \<and> marked org A (tl st)"
proof (induction rule: marked.induct)
  case (nulls C st m)
  then obtain A ys where "C = A @ 0x2F # ys" "0x2F \<notin> set ys" "marked org A (tl st)" by blast
  thus ?case by (intro exI [of _ A] exI [of _ "ys @ replicate m 0"]) auto
next
  case (segment C st s)
  thus ?case by (intro exI [of _ C] exI [of _ s]) (auto simp: plain_segment_def)
qed simp

lemma marked_filter:
  "marked org C st \<Longrightarrow> 0 \<notin> set org \<Longrightarrow> filter (\<lambda>c. c \<noteq> 0) C = org @ seg_path (rev st)"
proof (induction rule: marked.induct)
  case (segment C st s)
  thus ?case using filter_no_null [of s] by (simp add: plain_segment_def)
next
  case start
  thus ?case by (rule filter_no_null [THEN trans]) simp
qed simp

lemma ends_like_host:
  assumes "3 < length A" "(A @ L) ! (length A - 2) = 0x3A" "(A @ L) ! (length A - 1) = 0x2F"
  shows "last A = 0x2F \<and> last (butlast A) = 0x3A"
proof -
  have ne: "A \<noteq> []" "butlast A \<noteq> []" using assms(1) by (auto simp flip: length_greater_0_conv)
  have "last A = A ! (length A - 1)" "last (butlast A) = butlast A ! (length A - 2)"
    using ne by (simp_all add: last_conv_nth numeral_2_eq_2)
  moreover have "length A - 2 < length A" "length A - Suc 0 < length A" using assms(1) by simp_all
  ultimately show ?thesis using assms by (simp add: nth_append nth_butlast)
qed

lemma marked_not_host:
  assumes "marked org C st" "org = origin scheme host" "plain_origin scheme host"
  shows "\<not> (last C = 0x2F \<and> last (butlast C) = 0x3A)"
  using assms
proof (induction rule: marked.induct)
  case start
  thus ?case by (cases host rule: rev_cases) (auto simp: origin_def plain_origin_def plain_segment_def butlast_append)
next
  case (nulls C st m)
  thus ?case by (cases m) auto
next
  case (segment C st s)
  have "last (C @ 0x2F # s) \<in> set s" using segment.hyps(3) by simp
  with segment.hyps(2) show ?case by (auto simp: plain_segment_def)
qed

lemma dotdot_step_up:
  assumes "marked (origin scheme host) C st" "plain_origin scheme host"
  shows "\<exists>C'. dotdot_step (C @ [0x2F, 0x2E, 0x2E] @ rest) (length C) = C' @ rest
    \<and> length C' = length C + 3 \<and> marked (origin scheme host) C' (tl st)"
proof (cases "st = []")
  case True
  obtain k where C: "C = origin scheme host @ replicate k 0" using marked_Nil [OF assms(1) True] by blast
  let ?path = "C @ [0x2F, 0x2E, 0x2E] @ rest"
  have path: "?path = (scheme @ [0x3A, 0x2F]) @ 0x2F # (host @ replicate k 0) @ [0x2F, 0x2E, 0x2E] @ rest"
    by (simp add: C origin_def)
  have "0x2F \<notin> set (host @ replicate k 0)"
    using assms(2) by (auto simp: plain_origin_def plain_segment_def)
  from reverseFind_last [OF this, of "scheme @ [0x3A, 0x2F]" "[0x2F, 0x2E, 0x2E] @ rest"]
  have "reverseFind ?path 0x2F (length C - 1) = Some (length scheme + 2)"
    unfolding path by (simp add: C origin_def add.commute)
  moreover have "?path ! length scheme = 0x3A" "?path ! Suc (length scheme) = 0x2F"
    unfolding path by (simp_all add: nth_append)
  moreover have "2 \<le> length scheme" "C \<noteq> []" using assms(2) by (auto simp: plain_origin_def C origin_def)
  ultimately have "dotdot_step ?path (length C) = ?path[length C := 0, length C + 1 := 0, length C + 2 := 0]"
    by (simp add: dotdot_step_def)
  also have "\<dots> = (C @ replicate 3 0) @ rest"
    by (simp add: list_update_append numeral_3_eq_3)
  finally show ?thesis using marked.nulls [OF assms(1), of 3] True by auto
next
  case False
  obtain A ys where C: "C = A @ 0x2F # ys" "0x2F \<notin> set ys" "marked (origin scheme host) A (tl st)"
    using marked_Cons [OF assms(1) False] by blast
  let ?path = "C @ [0x2F, 0x2E, 0x2E] @ rest"
  have path: "?path = A @ (0x2F # ys @ [0x2F, 0x2E, 0x2E]) @ rest" by (simp add: C)
  have find: "reverseFind ?path 0x2F (length C - 1) = Some (length A)"
    using reverseFind_last [OF C(2), of A "[0x2F, 0x2E, 0x2E] @ rest"] by (simp add: C)
  have "\<not> (length A > 3 \<and> ?path ! (length A - 2) = 0x3A \<and> ?path ! (length A - 1) = 0x2F)"
    unfolding path using ends_like_host [of A] marked_not_host [OF C(3) refl assms(2)] by blast
  with find have "dotdot_step ?path (length C) = zero_range (length A) (length C + 3) ?path"
    by (auto simp: dotdot_step_def C)
  also have "\<dots> = (A @ replicate (length ys + 4) 0) @ rest"
    unfolding path using zero_range_append [of A "0x2F # ys @ [0x2F, 0x2E, 0x2E]" rest] by (simp add: C eval_nat_numeral)
  finally show ?thesis using marked.nulls [OF C(3), of "length ys + 4"] by (auto simp: C)
qed

text \<open>The loop, from a position on.\<close>

definition up_from :: "nat list \<Rightarrow> nat \<Rightarrow> nat list" where
  "up_from path position =
     (case findSlashDotDotSlash path position of Some slash \<Rightarrow> dotdot_loop path slash | None \<Rightarrow> path)"

lemma dotdot_loop_up_from: "dotdot_loop path slash = up_from (dotdot_step path slash) (slash + 3)"
  by (subst dotdot_loop.simps) (simp add: up_from_def split: option.split)

lemma up_from_skip:
  assumes "plain_segment s" "\<not> (s = [0x2E, 0x2E] \<and> segs \<noteq> [])"
  shows "up_from (C @ seg_path (s # segs)) (length C)
    = up_from ((C @ 0x2F # s) @ seg_path segs) (length (C @ 0x2F # s))"
proof -
  have "findSlashDotDotSlash (C @ seg_path (s # segs)) (length C)
      = findSlashDotDotSlash ((C @ 0x2F # s) @ seg_path segs) (length (C @ 0x2F # s))"
    unfolding find_shift using assms by (auto simp: find_segs)
  thus ?thesis unfolding up_from_def by (simp split: option.split)
qed

lemma up_from_resolves:
  assumes "marked (origin scheme host) C st" "plain_origin scheme host" "plain_segs segs"
  shows "filter (\<lambda>c. c \<noteq> 0) (up_from (C @ seg_path segs) (length C))
    = origin scheme host @ seg_path (resolve_up st segs)"
proof -
  have org: "0 \<notin> set (origin scheme host)"
    using assms(2) by (auto simp: origin_def plain_origin_def plain_segment_def)
  from assms(1,3) show ?thesis
  proof (induction segs arbitrary: C st rule: induct_list012)
    case 1
    thus ?case using marked_filter [OF _ org] find_shift(1) [of C "[]"] by (simp add: up_from_def)
  next
    case (2 s)
    have s: "plain_segment s" using "2.prems" by (simp add: plain_segs_def)
    have "up_from (C @ seg_path [s]) (length C) = C @ 0x2F # s"
      using up_from_skip [OF s, of "[]" C] find_shift(1) [of "C @ 0x2F # s" "[]"] by (simp add: up_from_def)
    moreover have "filter (\<lambda>c. c \<noteq> 0) s = s" by (rule filter_no_null) (use s in \<open>simp add: plain_segment_def\<close>)
    ultimately show ?case using marked_filter [OF "2.prems"(1) org] by simp
  next
    case (3 s t segs)
    have s: "plain_segment s" "s \<noteq> []" "plain_segs (t # segs)" using "3.prems"(2) by (simp_all add: plain_segs_Cons)
    show ?case
    proof (cases "s = [0x2E, 0x2E]")
      case True
      obtain C' where C': "dotdot_step (C @ [0x2F, 0x2E, 0x2E] @ seg_path (t # segs)) (length C) = C' @ seg_path (t # segs)"
          "length C' = length C + 3" "marked (origin scheme host) C' (tl st)"
        using dotdot_step_up [OF "3.prems"(1) assms(2)] by blast
      have "findSlashDotDotSlash (C @ seg_path (s # t # segs)) (length C) = Some (length C)"
        unfolding find_shift using find_segs(1) [OF s(1), of "t # segs"] True by simp
      hence "up_from (C @ seg_path (s # t # segs)) (length C) = up_from (C' @ seg_path (t # segs)) (length C')"
        using C' True by (simp add: up_from_def [of "C @ _"] dotdot_loop_up_from)
      with "3.IH"(2) [OF C'(3) s(3)] True show ?thesis by simp
    next
      case False
      hence "up_from (C @ seg_path (s # t # segs)) (length C)
          = up_from ((C @ 0x2F # s) @ seg_path (t # segs)) (length (C @ 0x2F # s))"
        by (intro up_from_skip s) simp
      with "3.IH"(2) [OF marked.segment [OF "3.prems"(1) s(1,2)] s(3)] False show ?thesis by simp
    qed
  qed
qed

lemma in_set_tlD: "x \<in> set (tl xs) \<Longrightarrow> x \<in> set xs"
  by (cases xs) auto

lemma resolve_up_keeps:
  "x \<in> set (resolve_up st segs) \<Longrightarrow> x \<in> set st \<or> x \<in> set segs"
  "x \<in> set (butlast (resolve_up st segs)) \<Longrightarrow> segs \<noteq> [] \<Longrightarrow> x \<in> set st \<or> x \<in> set (butlast segs)"
  by (induction st segs rule: resolve_up.induct) (auto split: if_splits dest: in_set_tlD)

lemma resolve_up_not_Nil: "segs \<noteq> [] \<Longrightarrow> resolve_up st segs \<noteq> []"
  by (induction st segs rule: resolve_up.induct) auto

lemma plain_resolve_up: "plain_segs segs \<Longrightarrow> plain_segs (resolve_up [] segs)"
  by (cases "segs = []") (auto simp: plain_segs_def dest!: resolve_up_keeps)

subsection \<open>Segments that stay\<close>

definition here_from :: "nat list \<Rightarrow> nat \<Rightarrow> nat list" where
  "here_from path position =
     (case findSlashDotSlash path position of Some slash \<Rightarrow> dot_loop path slash | None \<Rightarrow> path)"

lemma dot_loop_here_from:
  "dot_loop path slash = here_from (path[slash := 0, slash + 1 := 0]) (slash + 2)"
  by (subst dot_loop.simps) (simp add: here_from_def Let_def split: option.split)

lemma here_from_skip:
  assumes "plain_segment s" "\<not> (s = [0x2E] \<and> segs \<noteq> [])"
  shows "here_from (C @ seg_path (s # segs)) (length C)
    = here_from ((C @ 0x2F # s) @ seg_path segs) (length (C @ 0x2F # s))"
proof -
  have "findSlashDotSlash (C @ seg_path (s # segs)) (length C)
      = findSlashDotSlash ((C @ 0x2F # s) @ seg_path segs) (length (C @ 0x2F # s))"
    unfolding find_shift using assms by (auto simp: find_segs)
  thus ?thesis unfolding here_from_def by (simp split: option.split)
qed

lemma here_from_drops:
  assumes "plain_segs segs"
  shows "filter (\<lambda>c. c \<noteq> 0) (here_from (C @ seg_path segs) (length C))
    = filter (\<lambda>c. c \<noteq> 0) C @ seg_path (drop_here segs)"
  using assms
proof (induction segs arbitrary: C rule: induct_list012)
  case 1
  thus ?case using find_shift(3) [of C "[]"] by (simp add: here_from_def)
next
  case (2 s)
  have s: "plain_segment s" using "2.prems" by (simp add: plain_segs_def)
  have "here_from (C @ seg_path [s]) (length C) = C @ 0x2F # s"
    using here_from_skip [OF s, of "[]" C] find_shift(3) [of "C @ 0x2F # s" "[]"] by (simp add: here_from_def)
  moreover have "filter (\<lambda>c. c \<noteq> 0) s = s" by (rule filter_no_null) (use s in \<open>simp add: plain_segment_def\<close>)
  ultimately show ?case by simp
next
  case (3 s t segs)
  have s: "plain_segment s" "plain_segs (t # segs)" using "3.prems" by (simp_all add: plain_segs_Cons)
  show ?case
  proof (cases "s = [0x2E]")
    case True
    have "findSlashDotSlash (C @ seg_path (s # t # segs)) (length C) = Some (length C)"
      unfolding find_shift using find_segs(2) [OF s(1), of "t # segs"] True by simp
    hence "here_from (C @ seg_path (s # t # segs)) (length C)
        = here_from ((C @ [0, 0]) @ seg_path (t # segs)) (length (C @ [0, 0]))"
      using True by (simp add: here_from_def [of "C @ _" "length C"] dot_loop_here_from list_update_append)
    with "3.IH"(2) [OF s(2), of "C @ [0, 0]"] True show ?thesis by simp
  next
    case False
    have "filter (\<lambda>c. c \<noteq> 0) s = s" by (rule filter_no_null) (use s in \<open>simp add: plain_segment_def\<close>)
    with False "3.IH"(2) [OF s(2), of "C @ 0x2F # s"] here_from_skip [OF s(1), of "t # segs" C]
    show ?thesis by simp
  qed
qed

subsection \<open>The cleaned path\<close>

lemma no_double_slash:
  "plain_segs segs \<Longrightarrow> findSlashSlash (seg_path segs) 0 = None"
proof (induction segs rule: induct_list012)
  case (2 s)
  thus ?case using find_segs(3) [of s "[]"] by (simp add: plain_segs_def)
next
  case (3 s t segs)
  thus ?case using find_segs(3) [of s "t # segs"] by (simp add: plain_segs_Cons)
qed simp

lemma no_double_slash_after_host:
  assumes "plain_origin scheme host" "plain_segs segs"
  shows "findSlashSlash (origin scheme host @ seg_path segs) (length scheme + 3) = None"
proof -
  have "origin scheme host @ seg_path segs = (scheme @ [0x3A, 0x2F, 0x2F]) @ host @ seg_path segs"
    by (simp add: origin_def)
  moreover have "length scheme + 3 = length (scheme @ [0x3A, 0x2F, 0x2F])" by simp
  moreover have "0x2F \<notin> set host" using assms(1) by (simp add: plain_origin_def plain_segment_def)
  note find_skip(2) [OF this, of "seg_path segs"]
  ultimately show ?thesis
    using find_shift(2) [of "scheme @ [0x3A, 0x2F, 0x2F]" "host @ seg_path segs"]
    by (simp only: no_double_slash [OF assms(2)] later_simps)
qed

lemma plain_no_null:
  assumes "plain_origin scheme host" "plain_segs segs"
  shows "0 \<notin> set (origin scheme host @ seg_path segs)"
  using assms by (auto simp: origin_def plain_origin_def plain_segs_def plain_segment_def seg_path_def)

lemma merge_keeps:
  assumes "plain_origin scheme host" "plain_segs segs"
  shows "mergeDoubleSlashes (origin scheme host @ seg_path segs) (length scheme + 1)
    = origin scheme host @ seg_path segs"
proof -
  let ?p = "origin scheme host @ seg_path segs"
  have "?p ! length scheme = 0x3A" by (simp add: origin_def nth_append)
  hence "merge_loop ?p r (length scheme + 1) = ?p" for r
    using no_double_slash_after_host [OF assms]
    by (subst merge_loop.simps) (simp add: numeral_3_eq_3)
  thus ?thesis
    by (simp only: mergeDoubleSlashes_def Let_def squeezeOutNullCharacters_filter
        filter_no_null [OF plain_no_null [OF assms]])
qed

lemma cleanPath_segments:
  assumes "plain_origin scheme host" "plain_segs segs"
  shows "cleanPath (origin scheme host @ seg_path segs)
    = origin scheme host @ seg_path (drop_here (resolve_up [] segs))"
proof -
  let ?o = "origin scheme host" and ?up = "resolve_up [] segs"
  note up = plain_resolve_up [OF assms(2)]
  have 1: "(case findSlashDotDotSlash (?o @ seg_path segs) 0 of None \<Rightarrow> ?o @ seg_path segs
      | Some f \<Rightarrow> cleanSlashDotDotSlashes (?o @ seg_path segs) f) = ?o @ seg_path ?up"
    using up_from_resolves [OF marked.start assms] filter_no_null [OF plain_no_null [OF assms]]
    by (cases "findSlashDotDotSlash (?o @ seg_path segs) (length ?o)")
      (simp_all add: up_from_def find_past_origin [OF assms(1)] cleanSlashDotDotSlashes_def
        squeezeOutNullCharacters_filter del: filter_append)
  have 2: "findSlashSlash (?o @ seg_path ?up) 0 = Some (length scheme + 1)"
    by (rule find_past_origin [OF assms(1)])
  have 3: "(case findSlashDotSlash (?o @ seg_path ?up) 0 of None \<Rightarrow> ?o @ seg_path ?up
      | Some f \<Rightarrow> cleanSlashDotSlashes (?o @ seg_path ?up) f) = ?o @ seg_path (drop_here ?up)"
    using here_from_drops [OF up, of ?o] filter_no_null [OF plain_no_null [OF assms(1) up]]
      filter_no_null [of ?o] plain_no_null [OF assms(1) up]
    by (cases "findSlashDotSlash (?o @ seg_path ?up) (length ?o)")
      (simp_all add: here_from_def find_past_origin [OF assms(1)] cleanSlashDotSlashes_def
        squeezeOutNullCharacters_filter del: filter_append)
  show ?thesis
    unfolding cleanPath_def Let_def 1 2 option.case merge_keeps [OF assms(1) up] 3 ..
qed

subsection \<open>Resolving a link\<close>

lemma find_from_NoneD: "find_from P i l = None \<Longrightarrow> i \<le> k \<Longrightarrow> k < l \<Longrightarrow> \<not> P k"
proof (induction "k - i" arbitrary: i)
  case 0
  thus ?case by (auto simp: find_from.simps [of P i] split: if_splits)
next
  case (Suc d)
  have "find_from P (Suc i) l = None"
    using Suc.prems Suc.hyps(2) by (auto simp: find_from.simps [of P i] split: if_splits)
  moreover have "d = k - Suc i" "Suc i \<le> k" using Suc.hyps(2) by auto
  ultimately show ?case using Suc.hyps(1) Suc.prems(3) by blast
qed

lemma no_trailing_slash_needed:
  assumes "segs \<noteq> []"
  shows "\<not> needsTrailingSlash (origin scheme host @ seg_path segs)"
proof
  let ?s = "origin scheme host @ seg_path segs"
  assume need: "needsTrailingSlash ?s"
  have colon: "?s ! length scheme = 0x3A" by (simp add: origin_def nth_append)
  have letters: "matchLetter (?s ! 0) 0x68" "matchLetter (?s ! 1) 0x74" "matchLetter (?s ! 2) 0x74"
      "matchLetter (?s ! 3) 0x70"
    using need by (auto simp: needsTrailingSlash_def split: if_splits)
  have "\<not> matchLetter 0x3A 0x68" "\<not> matchLetter 0x3A 0x74" "\<not> matchLetter 0x3A 0x70" by (simp_all add: matchLetter_def)
  with letters colon have "length scheme \<noteq> 0 \<and> length scheme \<noteq> 1 \<and> length scheme \<noteq> 2 \<and> length scheme \<noteq> 3" by metis
  hence len: "4 \<le> length scheme" by arith
  obtain pos where pos: "no_slash_from ?s pos" "pos \<le> 7 \<or> pos \<le> 8 \<and> ?s ! 4 \<noteq> 0x3A"
    using need by (auto simp: needsTrailingSlash_def Let_def split: if_splits)
  have "pos \<le> length scheme + 3"
  proof (cases "length scheme = 4")
    case True
    thus ?thesis using pos(2) colon by auto
  next
    case False
    thus ?thesis using pos(2) len by auto
  qed
  hence "pos \<le> length (origin scheme host)" by (simp add: origin_def)
  moreover have "?s ! length (origin scheme host) = 0x2F" "length (origin scheme host) < length ?s"
    using assms by (cases segs; simp)+
  ultimately show False
    using pos(1) find_from_NoneD unfolding no_slash_from_def find_char_def by blast
qed

lemma drop_here_not_Nil: "segs \<noteq> [] \<Longrightarrow> drop_here segs \<noteq> []"
  by (induction segs rule: drop_here.induct) auto

lemma resolve_in_place:
  assumes "plain_origin scheme host" "plain_segs segs" "segs \<noteq> []"
  shows "(let buffer = cleanPath (origin scheme host @ seg_path segs)
       in if needsTrailingSlash buffer then buffer @ [0x2F] else buffer)
    = origin scheme host @ seg_path (drop_here (resolve_up [] segs))"
  unfolding cleanPath_segments [OF assms(1,2)] Let_def
  using no_trailing_slash_needed [OF drop_here_not_Nil [OF resolve_up_not_Nil [OF assms(3)]]] by simp

lemma visitedLinkHashInline_nonzero: "visitedLinkHashInline url \<noteq> 0"
proof -
  have up: "ucast w = (0 :: link_hash) \<longleftrightarrow> w = 0" for w :: unsigned
  proof
    have "(ucast (ucast w :: link_hash) :: unsigned) = w" by (simp add: ucast_up_ucast_id is_up)
    thus "ucast w = (0 :: link_hash) \<Longrightarrow> w = 0" by (metis unsigned_0)
  qed simp
  show ?thesis
    by (simp add: visitedLinkHashInline_def avoidDeletedValue_id up computeHash_feed hasher_hash_nonzero)
qed

text \<open>C35: A link without a scheme is resolved against the page as the specification by segments
  says: a link that starts with a slash from the root, any other from the directory of the page, each
  \<open>..\<close> taking a segment away but never the host, each \<open>.\<close> dropped; and the hash under which the link
  is coloured is the one that visiting the resolved address records, which is never \<open>0\<close>.\<close>

theorem link_hash_is_hash_of_resolved_url:
  assumes "plain_origin scheme host" and "plain_segs (dir @ segs)" and "segs \<noteq> []"
    and "base_string base = origin scheme host @ seg_path dir @ 0x2F # leaf"
    and "pathStart base = length (origin scheme host)"
    and "pathAfterLastSlash base = length (origin scheme host @ seg_path dir) + 1"
    and "link = tl (seg_path segs)" "\<not> containsColonSlashSlash link"
    and "link \<noteq> []" "hd link \<noteq> 0x2F" "hd link \<noteq> 0x23"
  shows "visitedURLInline base link
        = origin scheme host @ seg_path (drop_here (resolve_up [] (dir @ segs)))
    \<and> visitedLinkHash_of_link base link
        = visitedLinkHash (origin scheme host @ seg_path (drop_here (resolve_up [] (dir @ segs))))
    \<and> (\<not> containsColonSlashSlash (0x2F # link) \<longrightarrow>
        visitedURLInline base (0x2F # link) = origin scheme host @ seg_path (drop_here (resolve_up [] segs)))
    \<and> visitedLinkHash_of_link base link \<noteq> 0"
proof -
  have segs: "0x2F # link = seg_path segs" using assms(3,7) by (cases segs) auto
  have "plain_segs segs" using assms(2) by (auto simp: plain_segs_def butlast_append split: if_splits)
  have 1: "visitedURLInline base link
      = origin scheme host @ seg_path (drop_here (resolve_up [] (dir @ segs)))"
    using resolve_in_place [OF assms(1,2)] assms(3,4,6,8-11)
    by (simp add: visitedURLInline_def segs)
  have 2: "visitedURLInline base (0x2F # link) = origin scheme host @ seg_path (drop_here (resolve_up [] segs))"
    if "\<not> containsColonSlashSlash (0x2F # link)"
    using resolve_in_place [OF assms(1) \<open>plain_segs segs\<close> assms(3)] assms(4,5) that
    by (simp add: visitedURLInline_def flip: segs)
  have "origin scheme host @ seg_path x \<noteq> []" for x by (simp add: origin_def)
  with 1 2 assms(9) visitedLinkHashInline_nonzero show ?thesis
    by (simp add: visitedLinkHash_of_link_def visitedLinkHash_def)
qed

text \<open>A page \<open>http://h/a/b\<close> with the link \<open>../c\<close>.\<close>

definition sample_scheme :: "nat list" where
  "sample_scheme = [0x68, 0x74, 0x74, 0x70]"

definition sample_base :: base_url where
  "sample_base = \<lparr>base_string = origin sample_scheme [0x68] @ seg_path [[0x61]] @ [0x2F, 0x62],
     pathStart = 8, pathEnd = 12, pathAfterLastSlash = 11\<rparr>"

lemma sample_origin: "plain_origin sample_scheme [0x68]"
  by (simp add: plain_origin_def plain_segment_def sample_scheme_def)

theorem link_hash_is_hash_of_resolved_url_witness:
  "visitedURLInline sample_base [0x2E, 0x2E, 0x2F, 0x63] = origin sample_scheme [0x68] @ [0x2F, 0x63]"
proof -
  have none: "\<not> containsColonSlashSlash [0x2E, 0x2E, 0x2F, 0x63]"
    by (simp add: containsColonSlashSlash_def find_from_None numeral_2_eq_2 less_Suc_eq find_from.simps)
  have "visitedURLInline sample_base [0x2E, 0x2E, 0x2F, 0x63]
      = origin sample_scheme [0x68] @ seg_path (drop_here (resolve_up [] ([[0x61]] @ [[0x2E, 0x2E], [0x63]])))"
    by (rule link_hash_is_hash_of_resolved_url [OF sample_origin, of "[[0x61]]" "[[0x2E, 0x2E], [0x63]]", THEN conjunct1])
      (use none in \<open>simp_all add: plain_segs_def plain_segment_def sample_base_def origin_def sample_scheme_def\<close>)
  thus ?thesis by simp
qed

text \<open>Because the segments \<open>..\<close> are handled before the segments \<open>.\<close>, a \<open>./..\<close> takes only the
  \<open>.\<close> away: the page \<open>http://h/\<close> with the link \<open>a/./../b\<close> asks for the colour of \<open>http://h/a/b\<close>,
  although following the link goes to \<open>http://h/b\<close>, as does the link \<open>a/../b\<close>.\<close>

theorem dot_before_dotdot_is_miscoloured:
  "cleanPath (origin sample_scheme [0x68] @ seg_path [[0x61], [0x2E], [0x2E, 0x2E], [0x62]])
     = origin sample_scheme [0x68] @ seg_path [[0x61], [0x62]]
   \<and> cleanPath (origin sample_scheme [0x68] @ seg_path [[0x61], [0x2E, 0x2E], [0x62]])
     = origin sample_scheme [0x68] @ seg_path [[0x62]]"
  using cleanPath_segments [OF sample_origin, of "[[0x61], [0x2E], [0x2E, 0x2E], [0x62]]"]
    cleanPath_segments [OF sample_origin, of "[[0x61], [0x2E, 0x2E], [0x62]]"]
  by (simp add: plain_segs_def plain_segment_def)

end
