(* ===== verification/Visited_Colouring.thy ===== *)
theory Visited_Colouring
  imports Link_Hash
begin

text \<open>
  Visited links from end to end: a committed page is recorded in the UI process
  (\<^verbatim>\<open>WebContext::addVisitedLink\<close>) or reported by a web process (\<^verbatim>\<open>WebProcess::addVisitedLink\<close>), the
  provider publishes the table, and a web process looks up the hash of a link in the table it was
  given (\<^verbatim>\<open>WebProcess::isLinkVisited\<close>, reached through \<^verbatim>\<open>VisitedLinkTableController\<close>).

  Shared memory is passed by handing over its contents: the table of a web process holds what the
  provider's holds at that time. That the memory can be mapped is an argument.
\<close>

subsection \<open>The UI process\<close>

definition WebContext_addVisitedLinkHash :: "link_hash \<Rightarrow> visited_link_provider \<Rightarrow> visited_link_provider" where
  "WebContext_addVisitedLinkHash linkHash p = addVisitedLink linkHash p"

definition WebContext_addVisitedLink :: "nat list \<Rightarrow> visited_link_provider \<Rightarrow> visited_link_provider" where
  "WebContext_addVisitedLink visitedURL p =
     (if visitedURL = [] then p else WebContext_addVisitedLinkHash (visitedLinkHash visitedURL) p)"

subsection \<open>The links of a document\<close>

datatype element_kind = HTMLAnchor | OtherHTML | SVG | OtherElement

datatype e_inside_link = NotInsideLink | InsideUnvisitedLink | InsideVisitedLink

text \<open>An element, with the link state its style was last resolved with. A null string is \<open>None\<close>.\<close>

record element =
  el_kind :: element_kind
  el_isLink :: bool
  el_href :: "nat list option"
  el_xlinkHref :: "nat list option"
  el_cachedVisitedLinkHash :: link_hash
  el_needsStyleRecalc :: bool
  el_elementLinkState :: e_inside_link

text \<open>A document in tree order, with its \<^verbatim>\<open>VisitedLinkState\<close>; it may have lost its frame or page.\<close>

record link_document =
  doc_baseURL :: base_url
  doc_elements :: "element list"
  doc_inPage :: bool
  doc_linksCheckedForVisitedState :: "link_hash list"

definition linkAttribute :: "element \<Rightarrow> nat list option" where
  "linkAttribute e =
     (if \<not> el_isLink e then None
      else case el_kind e of
             HTMLAnchor \<Rightarrow> el_href e
           | OtherHTML \<Rightarrow> el_href e
           | SVG \<Rightarrow> el_xlinkHref e
           | OtherElement \<Rightarrow> None)"

text \<open>An attribute that is null is empty.\<close>

definition attribute_text :: "nat list option \<Rightarrow> nat list" where
  "attribute_text a = (case a of None \<Rightarrow> [] | Some s \<Rightarrow> s)"

definition HTMLAnchorElement_visitedLinkHash :: "base_url \<Rightarrow> element \<Rightarrow> link_hash \<times> element" where
  "HTMLAnchorElement_visitedLinkHash base e =
     (let e = (if el_cachedVisitedLinkHash e = 0
               then e\<lparr>el_cachedVisitedLinkHash := visitedLinkHash_of_link base (attribute_text (el_href e))\<rparr>
               else e)
      in (el_cachedVisitedLinkHash e, e))"

definition linkHashForElement :: "base_url \<Rightarrow> element \<Rightarrow> link_hash \<times> element" where
  "linkHashForElement base e =
     (if el_kind e = HTMLAnchor then HTMLAnchorElement_visitedLinkHash base e
      else case linkAttribute e of
             Some attribute \<Rightarrow> (visitedLinkHash_of_link base attribute, e)
           | None \<Rightarrow> (0, e))"

definition VisitedLinkState :: "base_url \<Rightarrow> element list \<Rightarrow> bool \<Rightarrow> link_document" where
  "VisitedLinkState base elements inPage =
     \<lparr>doc_baseURL = base, doc_elements = elements, doc_inPage = inPage,
      doc_linksCheckedForVisitedState = []\<rparr>"

definition setNeedsStyleRecalc :: "element \<Rightarrow> element" where
  "setNeedsStyleRecalc e = e\<lparr>el_needsStyleRecalc := True\<rparr>"

definition invalidateStyleForAllLinks :: "link_document \<Rightarrow> link_document" where
  "invalidateStyleForAllLinks d =
     (if doc_linksCheckedForVisitedState d = [] then d
      else d\<lparr>doc_elements := map (\<lambda>e. if el_isLink e then setNeedsStyleRecalc e else e) (doc_elements d)\<rparr>)"

definition invalidateStyleForLink :: "link_hash \<Rightarrow> link_document \<Rightarrow> link_document" where
  "invalidateStyleForLink linkHash d =
     (if linkHash \<notin> set (doc_linksCheckedForVisitedState d) then d
      else d\<lparr>doc_elements := map (\<lambda>e. case linkHashForElement (doc_baseURL d) e of
               (hash, e') \<Rightarrow> if hash = linkHash then setNeedsStyleRecalc e' else e') (doc_elements d)\<rparr>)"

text \<open>The state, the element with its cache, and the links checked; \<open>None\<close> is a lookup that does
  not end.\<close>

definition determineLinkStateSlowCase ::
    "(link_hash \<Rightarrow> bool option) \<Rightarrow> base_url \<Rightarrow> bool \<Rightarrow> element \<Rightarrow> link_hash list
      \<Rightarrow> (e_inside_link \<times> element \<times> link_hash list) option" where
  "determineLinkStateSlowCase isVisited base inPage e linksChecked =
     (case linkAttribute e of
        None \<Rightarrow> Some (NotInsideLink, e, linksChecked)
      | Some attribute \<Rightarrow>
          if attribute = [] then Some (InsideVisitedLink, e, linksChecked)
          else
            let (hash, e) = (if el_kind e = HTMLAnchor then HTMLAnchorElement_visitedLinkHash base e
                             else (visitedLinkHash_of_link base attribute, e))
            in if hash = 0 then Some (InsideUnvisitedLink, e, linksChecked)
               else if \<not> inPage then Some (InsideUnvisitedLink, e, linksChecked)
               else
                 let linksChecked = hashset_add hash linksChecked
                 in case isVisited hash of
                      None \<Rightarrow> None
                    | Some visited \<Rightarrow>
                        Some (if \<not> visited then InsideUnvisitedLink else InsideVisitedLink, e, linksChecked))"

definition determineLinkState ::
    "(link_hash \<Rightarrow> bool option) \<Rightarrow> base_url \<Rightarrow> bool \<Rightarrow> element \<Rightarrow> link_hash list
      \<Rightarrow> (e_inside_link \<times> element \<times> link_hash list) option" where
  "determineLinkState isVisited base inPage e linksChecked =
     (if \<not> el_isLink e then Some (NotInsideLink, e, linksChecked)
      else determineLinkStateSlowCase isVisited base inPage e linksChecked)"

text \<open>Style resolution asks for the link state of each element that needs it
  (\<^verbatim>\<open>StyleResolver::State::initElement\<close>).\<close>

definition initElement ::
    "(link_hash \<Rightarrow> bool option) \<Rightarrow> base_url \<Rightarrow> bool \<Rightarrow> element \<Rightarrow> link_hash list
      \<Rightarrow> (element \<times> link_hash list) option" where
  "initElement isVisited base inPage e linksChecked =
     (case determineLinkState isVisited base inPage e linksChecked of
        None \<Rightarrow> None
      | Some (state, e, linksChecked) \<Rightarrow>
          Some (e\<lparr>el_elementLinkState := state, el_needsStyleRecalc := False\<rparr>, linksChecked))"

fun recalc_elements ::
    "(link_hash \<Rightarrow> bool option) \<Rightarrow> base_url \<Rightarrow> bool \<Rightarrow> element list \<Rightarrow> link_hash list
      \<Rightarrow> (element list \<times> link_hash list) option" where
  "recalc_elements isVisited base inPage [] linksChecked = Some ([], linksChecked)"
| "recalc_elements isVisited base inPage (e # es) linksChecked =
     (case (if el_needsStyleRecalc e then initElement isVisited base inPage e linksChecked
            else Some (e, linksChecked)) of
        None \<Rightarrow> None
      | Some (e, linksChecked) \<Rightarrow>
          (case recalc_elements isVisited base inPage es linksChecked of
             None \<Rightarrow> None
           | Some (es, linksChecked) \<Rightarrow> Some (e # es, linksChecked)))"

definition recalc_document :: "(link_hash \<Rightarrow> bool option) \<Rightarrow> link_document \<Rightarrow> link_document option" where
  "recalc_document isVisited d =
     (case recalc_elements isVisited (doc_baseURL d) (doc_inPage d) (doc_elements d)
             (doc_linksCheckedForVisitedState d) of
        None \<Rightarrow> None
      | Some (es, linksChecked) \<Rightarrow>
          Some (d\<lparr>doc_elements := es, doc_linksCheckedForVisitedState := linksChecked\<rparr>))"

subsection \<open>A web process\<close>

text \<open>The pages with the documents of their frames; a page that is closing has lost its core page.\<close>

record web_process_links =
  wp_visitedLinkTable :: visited_link_table
  wp_shouldTrackVisitedLinks :: bool
  wp_pages :: "link_document list option list"
  wp_pageCacheMarked :: bool

definition Page_invalidateStylesForAllLinks :: "link_document list \<Rightarrow> link_document list" where
  "Page_invalidateStylesForAllLinks page = map invalidateStyleForAllLinks page"

definition Page_invalidateStylesForLink :: "link_hash \<Rightarrow> link_document list \<Rightarrow> link_document list" where
  "Page_invalidateStylesForLink linkHash page = map (invalidateStyleForLink linkHash) page"

definition WebProcess_setVisitedLinkTable ::
    "bool \<Rightarrow> link_hash list \<Rightarrow> web_process_links \<Rightarrow> web_process_links" where
  "WebProcess_setVisitedLinkTable map_ok mem wp =
     (if \<not> map_ok then wp else wp\<lparr>wp_visitedLinkTable := setSharedMemory mem (wp_visitedLinkTable wp)\<rparr>)"

definition WebProcess_visitedLinkStateChanged :: "link_hash list \<Rightarrow> web_process_links \<Rightarrow> web_process_links" where
  "WebProcess_visitedLinkStateChanged linkHashes wp =
     wp\<lparr>wp_pages := map (map_option (fold Page_invalidateStylesForLink linkHashes)) (wp_pages wp),
        wp_pageCacheMarked := True\<rparr>"

definition WebProcess_allVisitedLinkStateChanged :: "web_process_links \<Rightarrow> web_process_links" where
  "WebProcess_allVisitedLinkStateChanged wp =
     wp\<lparr>wp_pages := map (map_option Page_invalidateStylesForAllLinks) (wp_pages wp),
        wp_pageCacheMarked := True\<rparr>"

definition WebProcess_isLinkVisited :: "link_hash \<Rightarrow> web_process_links \<Rightarrow> bool option" where
  "WebProcess_isLinkVisited linkHash wp = isLinkVisited linkHash (wp_visitedLinkTable wp)"

text \<open>The messages \<^verbatim>\<open>AddVisitedLinkHash\<close> that are sent.\<close>

definition WebProcess_addVisitedLink :: "link_hash \<Rightarrow> web_process_links \<Rightarrow> link_hash list option" where
  "WebProcess_addVisitedLink linkHash wp =
     (case WebProcess_isLinkVisited linkHash wp of
        None \<Rightarrow> None
      | Some visited \<Rightarrow> Some (if visited \<or> \<not> wp_shouldTrackVisitedLinks wp then [] else [linkHash]))"

text \<open>The store a page asks (\<^verbatim>\<open>VisitedLinkTableController\<close>).\<close>

definition VisitedLinkTableController_isLinkVisited :: "web_process_links \<Rightarrow> link_hash \<Rightarrow> bool option" where
  "VisitedLinkTableController_isLinkVisited wp linkHash = WebProcess_isLinkVisited linkHash wp"

definition VisitedLinkTableController_addVisitedLink :: "web_process_links \<Rightarrow> link_hash \<Rightarrow> link_hash list option" where
  "VisitedLinkTableController_addVisitedLink wp linkHash = WebProcess_addVisitedLink linkHash wp"

text \<open>The messages of the provider, delivered; a table that comes with one is that of the provider.\<close>

fun deliver_link_message ::
    "bool \<Rightarrow> visited_link_provider \<Rightarrow> visited_link_message \<Rightarrow> web_process_links \<Rightarrow> web_process_links" where
  "deliver_link_message map_ok p SetVisitedLinkTable wp =
     (case vt_memory (vp_table p) of None \<Rightarrow> wp
      | Some mem \<Rightarrow> WebProcess_setVisitedLinkTable map_ok mem wp)"
| "deliver_link_message map_ok p (VisitedLinkStateChanged hashes) wp =
     WebProcess_visitedLinkStateChanged hashes wp"
| "deliver_link_message map_ok p AllVisitedLinkStateChanged wp = WebProcess_allVisitedLinkStateChanged wp"

text \<open>What the provider writes to the memory it shares is seen by the process that maps it.\<close>

definition sees_memory :: "visited_link_provider \<Rightarrow> web_process_links \<Rightarrow> web_process_links" where
  "sees_memory p wp =
     wp\<lparr>wp_visitedLinkTable := (wp_visitedLinkTable wp)\<lparr>vt_memory := vt_memory (vp_table p)\<rparr>\<rparr>"

fun all_some :: "'a option list \<Rightarrow> 'a list option" where
  "all_some [] = Some []"
| "all_some (x # xs) = (case x of None \<Rightarrow> None | Some y \<Rightarrow> map_option ((#) y) (all_some xs))"

text \<open>Style resolution in all documents of all pages.\<close>

definition recalcStyle :: "web_process_links \<Rightarrow> web_process_links option" where
  "recalcStyle wp =
     map_option (\<lambda>pages. wp\<lparr>wp_pages := pages\<rparr>)
       (all_some (map (\<lambda>page. case page of
            None \<Rightarrow> Some None
          | Some docs \<Rightarrow> map_option Some
              (all_some (map (recalc_document (VisitedLinkTableController_isLinkVisited wp)) docs))) (wp_pages wp)))"

subsection \<open>What a link should look like\<close>

definition element_hash :: "base_url \<Rightarrow> element \<Rightarrow> link_hash" where
  "element_hash base e = visitedLinkHash_of_link base (attribute_text (linkAttribute e))"

definition link_colour :: "link_hash set \<Rightarrow> base_url \<Rightarrow> bool \<Rightarrow> element \<Rightarrow> e_inside_link" where
  "link_colour V base inPage e =
     (case linkAttribute e of
        None \<Rightarrow> NotInsideLink
      | Some attribute \<Rightarrow>
          if attribute = [] \<or> inPage \<and> element_hash base e \<noteq> 0 \<and> element_hash base e \<in> V
          then InsideVisitedLink else InsideUnvisitedLink)"

definition cache_ok :: "base_url \<Rightarrow> element \<Rightarrow> bool" where
  "cache_ok base e \<longleftrightarrow> el_kind e = HTMLAnchor \<longrightarrow>
     el_cachedVisitedLinkHash e = 0
     \<or> el_cachedVisitedLinkHash e = visitedLinkHash_of_link base (attribute_text (el_href e))"

text \<open>An element whose style is settled shows its colour, for all hashes but those of \<open>S\<close>, whose
  change is still to be announced; and the hash it asked for is on record.\<close>

definition element_coherent ::
    "link_hash set \<Rightarrow> link_hash set \<Rightarrow> base_url \<Rightarrow> bool \<Rightarrow> link_hash set \<Rightarrow> element \<Rightarrow> bool" where
  "element_coherent V S base inPage linksChecked e \<longleftrightarrow> cache_ok base e
     \<and> (\<not> el_needsStyleRecalc e \<longrightarrow>
         (inPage \<and> element_hash base e \<in> S \<or> el_elementLinkState e = link_colour V base inPage e)
         \<and> (inPage \<and> element_hash base e \<noteq> 0 \<longrightarrow> element_hash base e \<in> linksChecked))"

definition document_coherent :: "link_hash set \<Rightarrow> link_hash set \<Rightarrow> link_document \<Rightarrow> bool" where
  "document_coherent V S d \<longleftrightarrow>
     (\<forall>e\<in>set (doc_elements d). element_coherent V S (doc_baseURL d) (doc_inPage d)
        (set (doc_linksCheckedForVisitedState d)) e)"

definition process_coherent :: "link_hash set \<Rightarrow> link_hash set \<Rightarrow> web_process_links \<Rightarrow> bool" where
  "process_coherent V S wp \<longleftrightarrow>
     (\<forall>docs d. Some docs \<in> set (wp_pages wp) \<and> d \<in> set docs \<longrightarrow> document_coherent V S d)"

definition document_shows :: "link_hash set \<Rightarrow> link_document \<Rightarrow> bool" where
  "document_shows V d \<longleftrightarrow>
     (\<forall>e\<in>set (doc_elements d). \<not> el_needsStyleRecalc e
        \<and> el_elementLinkState e = link_colour V (doc_baseURL d) (doc_inPage d) e)"

lemma hash_of_empty [simp]: "visitedLinkHash_of_link base [] = 0"
  by (simp add: visitedLinkHash_of_link_def)

lemma linkAttribute_updates [simp]:
  "linkAttribute (e\<lparr>el_cachedVisitedLinkHash := c\<rparr>) = linkAttribute e"
  "linkAttribute (e\<lparr>el_elementLinkState := st\<rparr>) = linkAttribute e"
  "linkAttribute (e\<lparr>el_needsStyleRecalc := n\<rparr>) = linkAttribute e"
  by (simp_all add: linkAttribute_def split: element_kind.split)

lemma element_updates [simp]:
  "element_hash base (e\<lparr>el_cachedVisitedLinkHash := c\<rparr>) = element_hash base e"
  "element_hash base (e\<lparr>el_elementLinkState := st\<rparr>) = element_hash base e"
  "element_hash base (e\<lparr>el_needsStyleRecalc := n\<rparr>) = element_hash base e"
  by (simp_all add: element_hash_def)

lemma colour_updates [simp]:
  "link_colour V base inPage (e\<lparr>el_cachedVisitedLinkHash := c\<rparr>) = link_colour V base inPage e"
  "link_colour V base inPage (e\<lparr>el_elementLinkState := st\<rparr>) = link_colour V base inPage e"
  "link_colour V base inPage (e\<lparr>el_needsStyleRecalc := n\<rparr>) = link_colour V base inPage e"
  "cache_ok base (e\<lparr>el_elementLinkState := st\<rparr>) = cache_ok base e"
  "cache_ok base (e\<lparr>el_needsStyleRecalc := n\<rparr>) = cache_ok base e"
  by (simp_all add: link_colour_def cache_ok_def split: option.split)

lemma needs_recalc [simp]:
  "element_hash base (setNeedsStyleRecalc e) = element_hash base e"
  "cache_ok base (setNeedsStyleRecalc e) = cache_ok base e"
  "el_needsStyleRecalc (setNeedsStyleRecalc e)"
  by (simp_all add: setNeedsStyleRecalc_def)

lemma element_hash_not_link: "\<not> el_isLink e \<Longrightarrow> element_hash base e = 0"
  by (simp add: element_hash_def linkAttribute_def attribute_text_def)

lemma anchor_hash:
  assumes "cache_ok base e" "el_kind e = HTMLAnchor"
  shows "\<exists>c. HTMLAnchorElement_visitedLinkHash base e
      = (visitedLinkHash_of_link base (attribute_text (el_href e)), e\<lparr>el_cachedVisitedLinkHash := c\<rparr>)
    \<and> cache_ok base (e\<lparr>el_cachedVisitedLinkHash := c\<rparr>)"
  using assms
  by (intro exI [of _ "visitedLinkHash_of_link base (attribute_text (el_href e))"])
    (auto simp: HTMLAnchorElement_visitedLinkHash_def cache_ok_def)

lemma link_hash_of_element:
  assumes "cache_ok base e"
  shows "\<exists>h c. linkHashForElement base e = (h, e\<lparr>el_cachedVisitedLinkHash := c\<rparr>)
    \<and> cache_ok base (e\<lparr>el_cachedVisitedLinkHash := c\<rparr>) \<and> (el_isLink e \<longrightarrow> h = element_hash base e)"
proof (cases "el_kind e = HTMLAnchor")
  case True
  with anchor_hash [OF assms True] show ?thesis
    by (auto simp: linkHashForElement_def element_hash_def linkAttribute_def)
next
  case False
  with assms show ?thesis
    by (intro exI [of _ "element_hash base e"] exI [of _ "el_cachedVisitedLinkHash e"])
      (auto simp: linkHashForElement_def element_hash_def attribute_text_def split: option.split)
qed

lemma link_colour_cong:
  "(inPage \<Longrightarrow> element_hash base e \<noteq> 0 \<Longrightarrow> element_hash base e \<in> V \<longleftrightarrow> element_hash base e \<in> V') \<Longrightarrow>
     link_colour V base inPage e = link_colour V' base inPage e"
  by (auto simp: link_colour_def split: option.split)

subsection \<open>Announcing new links\<close>

text \<open>When links were added to the table, no element is wrong but for those links.\<close>

lemma element_coherent_grow:
  "element_coherent V {} base inPage checked e \<Longrightarrow> element_coherent (V \<union> A) A base inPage checked e"
  using link_colour_cong [of inPage base e V "V \<union> A"] by (auto simp: element_coherent_def)

lemma invalidateStyleForLink_coherent:
  assumes "document_coherent V S d" "0 \<notin> S"
  shows "document_coherent V (S - {h}) (invalidateStyleForLink h d)"
proof (cases "h \<in> set (doc_linksCheckedForVisitedState d)")
  case False
  hence "element_coherent V (S - {h}) (doc_baseURL d) (doc_inPage d) (set (doc_linksCheckedForVisitedState d)) e"
    if "e \<in> set (doc_elements d)" for e
    using assms that unfolding document_coherent_def element_coherent_def by (metis DiffI singletonD)
  with False show ?thesis by (simp add: document_coherent_def invalidateStyleForLink_def)
next
  case True
  have "element_coherent V (S - {h}) (doc_baseURL d) (doc_inPage d) (set (doc_linksCheckedForVisitedState d))
      (case linkHashForElement (doc_baseURL d) e of (hash, e') \<Rightarrow> if hash = h then setNeedsStyleRecalc e' else e')"
    if e: "e \<in> set (doc_elements d)" for e
  proof -
    have co: "element_coherent V S (doc_baseURL d) (doc_inPage d) (set (doc_linksCheckedForVisitedState d)) e"
      using assms(1) e by (simp add: document_coherent_def)
    then obtain k c where kc: "linkHashForElement (doc_baseURL d) e = (k, e\<lparr>el_cachedVisitedLinkHash := c\<rparr>)"
        "cache_ok (doc_baseURL d) (e\<lparr>el_cachedVisitedLinkHash := c\<rparr>)"
        "el_isLink e \<longrightarrow> k = element_hash (doc_baseURL d) e"
      using link_hash_of_element by (metis element_coherent_def)
    show ?thesis
    proof (cases "k = h")
      case True
      with kc show ?thesis by (simp add: element_coherent_def)
    next
      case False
      have "element_hash (doc_baseURL d) e \<in> S \<Longrightarrow> el_isLink e"
        using element_hash_not_link assms(2) by metis
      with kc co False show ?thesis by (auto simp: element_coherent_def)
    qed
  qed
  with True show ?thesis by (simp add: document_coherent_def invalidateStyleForLink_def)
qed

lemma invalidate_links_coherent:
  "document_coherent V S d \<Longrightarrow> 0 \<notin> S \<Longrightarrow>
     document_coherent V (S - set hs) (fold invalidateStyleForLink hs d)"
proof (induction hs arbitrary: d S)
  case (Cons h hs)
  have "document_coherent V (S - {h} - set hs) (fold invalidateStyleForLink hs (invalidateStyleForLink h d))"
    by (rule Cons.IH [OF invalidateStyleForLink_coherent [OF Cons.prems]]) (use Cons.prems in simp)
  thus ?case by (simp add: Diff_insert2 [symmetric] Diff_insert [symmetric] insert_commute)
qed simp

lemma invalidate_all_coherent:
  assumes "document_coherent V {} d"
  shows "document_coherent V' {} (invalidateStyleForAllLinks d)"
proof (cases "doc_linksCheckedForVisitedState d = []")
  case True
  have "element_coherent V' {} (doc_baseURL d) (doc_inPage d) {} e"
    if "e \<in> set (doc_elements d)" for e
    using assms that True link_colour_cong [of "doc_inPage d" "doc_baseURL d" e V V']
    by (auto simp: document_coherent_def element_coherent_def)
  with True show ?thesis by (simp add: document_coherent_def invalidateStyleForAllLinks_def)
next
  case False
  have "element_coherent V' {} (doc_baseURL d) (doc_inPage d) (set (doc_linksCheckedForVisitedState d))
      (if el_isLink e then setNeedsStyleRecalc e else e)" if "e \<in> set (doc_elements d)" for e
    using assms that link_colour_cong [of "doc_inPage d" "doc_baseURL d" e V V'] element_hash_not_link [of e]
    by (auto simp: document_coherent_def element_coherent_def)
  with False show ?thesis
    by (simp add: document_coherent_def invalidateStyleForAllLinks_def del: if_image_distrib)
qed

subsection \<open>Resolving style\<close>

text \<open>The lookup of the store, when it ends, is membership.\<close>

definition answers :: "(link_hash \<Rightarrow> bool option) \<Rightarrow> link_hash set \<Rightarrow> bool" where
  "answers isVisited V \<longleftrightarrow> (\<forall>x. x \<noteq> 0 \<longrightarrow> isVisited x = Some (x \<in> V))"

lemma initElement_settles:
  assumes "answers isVisited V" "cache_ok base e"
  shows "\<exists>e' checked'. initElement isVisited base inPage e checked = Some (e', checked')
    \<and> element_coherent V {} base inPage (set checked') e' \<and> \<not> el_needsStyleRecalc e'
    \<and> set checked \<subseteq> set checked'"
proof (cases "linkAttribute e")
  case None
  hence "determineLinkState isVisited base inPage e checked = Some (NotInsideLink, e, checked)"
    by (simp add: determineLinkState_def determineLinkStateSlowCase_def)
  with None assms(2) show ?thesis
    by (simp add: initElement_def element_coherent_def link_colour_def element_hash_def attribute_text_def)
next
  case (Some a)
  hence link: "el_isLink e" by (auto simp: linkAttribute_def split: if_splits)
  obtain c where c: "cache_ok base (e\<lparr>el_cachedVisitedLinkHash := c\<rparr>)"
    "(if el_kind e = HTMLAnchor then HTMLAnchorElement_visitedLinkHash base e
      else (visitedLinkHash_of_link base a, e)) = (element_hash base e, e\<lparr>el_cachedVisitedLinkHash := c\<rparr>)"
  proof (cases "el_kind e = HTMLAnchor")
    case True
    with Some link have "el_href e = Some a" by (simp add: linkAttribute_def)
    with that anchor_hash [OF assms(2) True] Some True show thesis by (auto simp: element_hash_def)
  next
    case False
    with that [of "el_cachedVisitedLinkHash e"] Some assms(2) show thesis
      by (simp add: element_hash_def attribute_text_def)
  qed
  have look: "element_hash base e \<noteq> 0 \<Longrightarrow> isVisited (element_hash base e) = Some (element_hash base e \<in> V)"
    using assms(1) by (simp add: answers_def)
  show ?thesis
    using link Some c assms(2) look
    by (auto simp: initElement_def determineLinkState_def determineLinkStateSlowCase_def Let_def
        element_coherent_def link_colour_def hashset_add_def element_hash_def attribute_text_def)
qed

lemma element_coherent_more_checked:
  "element_coherent V S base inPage K e \<Longrightarrow> K \<subseteq> K' \<Longrightarrow> element_coherent V S base inPage K' e"
  by (auto simp: element_coherent_def)

lemma recalc_elements_settles:
  assumes "answers isVisited V" "\<forall>e\<in>set es. element_coherent V {} base inPage (set checked) e"
  shows "\<exists>es' checked'. recalc_elements isVisited base inPage es checked = Some (es', checked')
    \<and> (\<forall>e\<in>set es'. element_coherent V {} base inPage (set checked') e \<and> \<not> el_needsStyleRecalc e)
    \<and> set checked \<subseteq> set checked'"
  using assms(2)
proof (induction es arbitrary: checked)
  case (Cons e es)
  obtain e1 k1 where 1: "(if el_needsStyleRecalc e then initElement isVisited base inPage e checked
      else Some (e, checked)) = Some (e1, k1)" "element_coherent V {} base inPage (set k1) e1"
      "\<not> el_needsStyleRecalc e1" "set checked \<subseteq> set k1"
  proof (cases "el_needsStyleRecalc e")
    case True
    have "cache_ok base e" using Cons.prems by (simp add: element_coherent_def)
    with that True initElement_settles [OF assms(1) this, of inPage checked] show thesis by auto
  next
    case False
    with that [of e checked] Cons.prems show thesis by simp
  qed
  have "\<forall>e\<in>set es. element_coherent V {} base inPage (set k1) e"
    using Cons.prems 1(4) element_coherent_more_checked by auto
  then obtain es' k2 where "recalc_elements isVisited base inPage es k1 = Some (es', k2)"
      "\<forall>e\<in>set es'. element_coherent V {} base inPage (set k2) e \<and> \<not> el_needsStyleRecalc e" "set k1 \<subseteq> set k2"
    using Cons.IH by blast
  with 1 element_coherent_more_checked [OF 1(2)] show ?case by auto
qed simp

lemma recalc_document_shows:
  assumes "answers isVisited V" "document_coherent V {} d"
  shows "\<exists>d'. recalc_document isVisited d = Some d' \<and> document_coherent V {} d' \<and> document_shows V d'"
proof -
  obtain es' k where "recalc_elements isVisited (doc_baseURL d) (doc_inPage d) (doc_elements d)
      (doc_linksCheckedForVisitedState d) = Some (es', k)"
      "\<forall>e\<in>set es'. element_coherent V {} (doc_baseURL d) (doc_inPage d) (set k) e \<and> \<not> el_needsStyleRecalc e"
    using recalc_elements_settles [OF assms(1)] assms(2) unfolding document_coherent_def by metis
  thus ?thesis
    by (auto simp: recalc_document_def document_coherent_def document_shows_def element_coherent_def)
qed

lemma all_some_map:
  assumes "\<forall>x\<in>set xs. \<exists>y. f x = Some y \<and> P y"
  shows "\<exists>ys. all_some (map f xs) = Some ys \<and> (\<forall>y\<in>set ys. P y)"
  using assms by (induction xs) (auto simp: split: option.splits)

definition process_shows :: "link_hash set \<Rightarrow> web_process_links \<Rightarrow> bool" where
  "process_shows V wp \<longleftrightarrow>
     (\<forall>docs d. Some docs \<in> set (wp_pages wp) \<and> d \<in> set docs \<longrightarrow> document_shows V d)"

lemma recalcStyle_shows:
  assumes "answers (VisitedLinkTableController_isLinkVisited wp) V" "process_coherent V {} wp"
  shows "\<exists>wp'. recalcStyle wp = Some wp' \<and> process_coherent V {} wp' \<and> process_shows V wp'"
proof -
  let ?good = "\<lambda>d. document_coherent V {} d \<and> document_shows V d"
  let ?recalc = "\<lambda>page. case page of None \<Rightarrow> Some None
    | Some docs \<Rightarrow> map_option Some
        (all_some (map (recalc_document (VisitedLinkTableController_isLinkVisited wp)) docs))"
  have "\<exists>q. ?recalc page = Some q \<and> (\<forall>docs. q = Some docs \<longrightarrow> (\<forall>d\<in>set docs. ?good d))"
    if "page \<in> set (wp_pages wp)" for page
  proof (cases page)
    case (Some docs)
    hence "\<forall>d\<in>set docs. \<exists>d'. recalc_document (VisitedLinkTableController_isLinkVisited wp) d = Some d' \<and> ?good d'"
      using recalc_document_shows [OF assms(1)] assms(2) that unfolding process_coherent_def by metis
    from all_some_map [OF this] Some show ?thesis by auto
  qed simp
  hence "\<forall>page\<in>set (wp_pages wp). \<exists>q. ?recalc page = Some q \<and> (\<forall>docs. q = Some docs \<longrightarrow> (\<forall>d\<in>set docs. ?good d))"
    by blast
  from all_some_map [OF this] obtain pages where "all_some (map ?recalc (wp_pages wp)) = Some pages"
      "\<forall>q\<in>set pages. \<forall>docs. q = Some docs \<longrightarrow> (\<forall>d\<in>set docs. ?good d)" by blast
  thus ?thesis
    by (auto simp: recalcStyle_def process_coherent_def process_shows_def)
qed

subsection \<open>Visited links are coloured\<close>

lemma fold_invalidate: "fold Page_invalidateStylesForLink hs page = map (fold invalidateStyleForLink hs) page"
  by (induction hs arbitrary: page) (simp_all add: Page_invalidateStylesForLink_def comp_def)

lemma process_coherent_map:
  assumes "process_coherent V S wp" "wp_pages wp' = map (map_option (map f)) (wp_pages wp)"
    and "\<And>d. document_coherent V S d \<Longrightarrow> document_coherent V' S' (f d)"
  shows "process_coherent V' S' wp'"
  unfolding process_coherent_def
proof (intro allI impI)
  fix docs d
  assume "Some docs \<in> set (wp_pages wp') \<and> d \<in> set docs"
  then obtain docs0 d0 where "Some docs0 \<in> set (wp_pages wp)" "d0 \<in> set docs0" "d = f d0"
    using assms(2) by (auto simp: image_iff eq_commute [of "Some docs"])
  with assms(1,3) show "document_coherent V' S' d" by (auto simp: process_coherent_def)
qed

lemma announce_coherent:
  assumes "process_coherent V {} wp" "0 \<notin> set added"
  shows "process_coherent (V \<union> set added) {} (WebProcess_visitedLinkStateChanged added wp)"
proof (rule process_coherent_map [OF assms(1)])
  have "fold Page_invalidateStylesForLink added = map (fold invalidateStyleForLink added)"
    by (rule ext) (rule fold_invalidate)
  thus "wp_pages (WebProcess_visitedLinkStateChanged added wp)
      = map (map_option (map (fold invalidateStyleForLink added))) (wp_pages wp)"
    unfolding WebProcess_visitedLinkStateChanged_def by (simp only:) simp
next
  fix d
  assume "document_coherent V {} d"
  hence "document_coherent (V \<union> set added) (set added) d"
    using element_coherent_grow by (simp add: document_coherent_def)
  from invalidate_links_coherent [OF this assms(2), of added]
  show "document_coherent (V \<union> set added) {} (fold invalidateStyleForLink added d)" by simp
qed

lemma announce_all_coherent:
  assumes "process_coherent V {} wp"
  shows "process_coherent V' {} (WebProcess_allVisitedLinkStateChanged wp)"
proof (rule process_coherent_map [OF assms])
  have "Page_invalidateStylesForAllLinks = map invalidateStyleForAllLinks"
    by (rule ext) (simp add: Page_invalidateStylesForAllLinks_def)
  thus "wp_pages (WebProcess_allVisitedLinkStateChanged wp)
      = map (map_option (map invalidateStyleForAllLinks)) (wp_pages wp)"
    by (simp add: WebProcess_allVisitedLinkStateChanged_def)
qed (rule invalidate_all_coherent)

text \<open>A lookup reads the memory and the mask only, and the mask of a mapped table is that of its size.\<close>

lemma isLinkVisited_memory:
  "vt_memory t = vt_memory t' \<Longrightarrow> vt_tableSizeMask t = vt_tableSizeMask t' \<Longrightarrow>
     isLinkVisited x t = isLinkVisited x t'"
  by (simp add: isLinkVisited_def split: option.split)

lemma mapped_table:
  assumes "vt_sized n t" "vt_memory t = Some mem"
  shows "isLinkVisited x (setSharedMemory mem t') = isLinkVisited x t"
  using assms
  by (intro isLinkVisited_memory)
    (auto simp: vt_sized_def setSharedMemory_def table_ok_def mask_eq_exp_minus_1)

lemma added_links:
  "set (filter (\<lambda>x. x \<notin> V) xs) \<union> V = V \<union> set xs"
  by auto

text \<open>The messages a process gets when the timer has fired: the new links, or all, if the table it has
  was filled further, and the new table when it was replaced.\<close>

definition timer_messages :: "visited_link_provider \<Rightarrow> visited_link_provider \<Rightarrow> visited_link_message list" where
  "timer_messages p q =
     (let added = filter (\<lambda>x. x \<notin> vt_links (vp_table p)) (vp_pending p)
      in if vp_tableSize q = vp_tableSize p
         then [if length added \<le> 20 then VisitedLinkStateChanged added else AllVisitedLinkStateChanged]
         else [SetVisitedLinkTable, AllVisitedLinkStateChanged])"

lemma timer_table_size:
  assumes "provider_inv p" "pageSize = 8 * 2 ^ b" "b \<le> 31"
    and "2 * (unat (vp_keyCount p) + length (vp_pending p)) \<le> 2 ^ 31"
    and "pendingVisitedLinksTimerFired pageSize True handle_ok p = Some q"
  shows "vp_tableSize q \<noteq> 0"
proof -
  have share: "vp_tableSize (share_table handle_ok procs r) = vp_tableSize r" for procs r
    by (induction procs arbitrary: r) auto
  have notify: "vp_tableSize (fold (notify_process resized added) procs r) = vp_tableSize r"
    for resized added procs r
    by (induction procs arbitrary: r) (auto simp: notify_process_def)
  define new where "new = max (vp_tableSize p)
    (tableSizeForKeyCount pageSize (vp_keyCount p + of_nat (length (vp_pending p))))"
  obtain n r table added where "n \<le> 31" "new = 2 ^ n" "vp_tableSize r = new"
    "resize_table True new (p\<lparr>vp_pending := [], vp_timer := False\<rparr>) = Some (Some r)"
    "add_pending (vp_pending p) (vp_table r) = Some (table, added)"
    using timer_fired_table [OF assms(1-4)] unfolding new_def by metis
  with assms(5) have "vp_tableSize q = 2 ^ n" "n \<le> 31"
    by (auto simp: pendingVisitedLinksTimerFired_def Let_def new_def [symmetric] share notify)
  thus ?thesis using unat_2_power [of n] by (metis power_not_zero unat_0 zero_neq_numeral)
qed

lemma provider_memory:
  assumes "provider_inv q" "vp_tableSize q \<noteq> 0"
  obtains n mem where "n \<le> 31" "vp_tableSize q = 2 ^ n" "vt_sized n (vp_table q)"
    "vt_memory (vp_table q) = Some mem" "vt_tableSizeMask (vp_table q) = mask n"
proof -
  obtain n where n: "n \<le> 31" "vt_sized n (vp_table q)" "vp_tableSize q = 2 ^ n"
    using assms by (auto simp: provider_inv_def split: if_splits)
  then obtain mem where "vt_memory (vp_table q) = Some mem" "vt_tableSizeMask (vp_table q) = mask n"
    by (auto simp: vt_sized_def)
  with n that show thesis by blast
qed

text \<open>The table was filled further in place, or replaced by a larger one.\<close>

lemma filled_table_coloured:
  assumes inv: "provider_inv p" "provider_inv q" and W: "\<forall>x. x \<noteq> 0 \<longrightarrow> isLinkVisited x (vp_table q) = Some (x \<in> W)"
    and size: "vp_tableSize q \<noteq> 0" "vp_tableSize q = vp_tableSize p"
    and shared: "wp_visitedLinkTable wp = vp_table p" "process_coherent (vt_links (vp_table p)) {} wp"
    and added: "added = filter (\<lambda>x. x \<notin> vt_links (vp_table p)) (vp_pending p)" "0 \<notin> set added" "vt_links (vp_table p) \<union> set added = W"
  shows "\<exists>wp'. recalcStyle (fold (deliver_link_message True q) (timer_messages p q) (sees_memory q wp)) = Some wp' \<and> process_shows W wp'"
proof -
  obtain n where n: "n \<le> 31" "vp_tableSize q = 2 ^ n" "vt_tableSizeMask (vp_table q) = mask n"
    using provider_memory [OF inv(2) size(1)] by blast
  obtain m where m: "m \<le> 31" "vp_tableSize p = 2 ^ m" "vt_tableSizeMask (vp_table p) = mask m"
    using provider_memory [OF inv(1)] size by metis
  have "m = n" using m(1,2) n(1,2) size(2) unat_2_power by (metis power_inject_exp one_less_numeral_iff semiring_norm(76))
  let ?seen = "sees_memory q wp"
  have table: "isLinkVisited x (wp_visitedLinkTable ?seen) = isLinkVisited x (vp_table q)" for x
    by (rule isLinkVisited_memory) (use shared size n m \<open>m = n\<close> in \<open>simp_all add: sees_memory_def\<close>)
  have coh: "process_coherent (vt_links (vp_table p)) {} ?seen"
    using shared by (simp add: process_coherent_def sees_memory_def)
  let ?after = "if length added \<le> 20 then WebProcess_visitedLinkStateChanged added ?seen
    else WebProcess_allVisitedLinkStateChanged ?seen"
  have after: "process_coherent W {} ?after"
    using announce_coherent [OF coh added(2)] announce_all_coherent [OF coh] added(3) by simp
  have answ: "answers (VisitedLinkTableController_isLinkVisited ?after) W"
    using W table by (simp add: answers_def VisitedLinkTableController_isLinkVisited_def
        WebProcess_isLinkVisited_def WebProcess_visitedLinkStateChanged_def WebProcess_allVisitedLinkStateChanged_def)
  have eq: "fold (deliver_link_message True q) (timer_messages p q) ?seen = ?after"
    using size(2) added(1) by (simp add: timer_messages_def)
  show ?thesis unfolding eq using recalcStyle_shows [OF answ after] by blast
qed

lemma new_table_coloured:
  assumes inv: "provider_inv q" and W: "\<forall>x. x \<noteq> 0 \<longrightarrow> isLinkVisited x (vp_table q) = Some (x \<in> W)"
    and size: "vp_tableSize q \<noteq> 0" "vp_tableSize q \<noteq> vp_tableSize p" and before: "process_coherent V {} wp"
  shows "\<exists>wp'. recalcStyle (fold (deliver_link_message True q) (timer_messages p q) wp) = Some wp' \<and> process_shows W wp'"
proof -
  obtain n mem where n: "vt_sized n (vp_table q)" "vt_memory (vp_table q) = Some mem"
    using provider_memory [OF inv size(1)] by blast
  let ?after = "WebProcess_allVisitedLinkStateChanged (WebProcess_setVisitedLinkTable True mem wp)"
  have "process_coherent V {} (WebProcess_setVisitedLinkTable True mem wp)"
    using before by (simp add: process_coherent_def WebProcess_setVisitedLinkTable_def)
  hence after: "process_coherent W {} ?after" by (rule announce_all_coherent)
  have answ: "answers (VisitedLinkTableController_isLinkVisited ?after) W"
    using W mapped_table [OF n] by (simp add: answers_def VisitedLinkTableController_isLinkVisited_def
        WebProcess_isLinkVisited_def WebProcess_allVisitedLinkStateChanged_def WebProcess_setVisitedLinkTable_def)
  have eq: "fold (deliver_link_message True q) (timer_messages p q) wp = ?after"
    using size(2) n(2) by (simp add: timer_messages_def)
  show ?thesis unfolding eq using recalcStyle_shows [OF answ after] by blast
qed


text \<open>A page with the link \<open>../c\<close>, resolved before anything was visited, in a process without a table,
  and a provider to which the address the link leads to has just been added.\<close>

definition sample_element :: element where
  "sample_element = \<lparr>el_kind = HTMLAnchor, el_isLink = True, el_href = Some [0x2E, 0x2E, 0x2F, 0x63],
     el_xlinkHref = None, el_cachedVisitedLinkHash = 0, el_needsStyleRecalc = True,
     el_elementLinkState = NotInsideLink\<rparr>"

definition sample_process :: web_process_links where
  "sample_process = \<lparr>wp_visitedLinkTable = VisitedLinkTable, wp_shouldTrackVisitedLinks = True,
     wp_pages = [Some [VisitedLinkState sample_base [sample_element] True]], wp_pageCacheMarked = False\<rparr>"

definition sample_visit :: visited_link_provider where
  "sample_visit = WebContext_addVisitedLink (origin sample_scheme [0x68] @ [0x2F, 0x63]) VisitedLinkProvider"

lemma sample_visit_facts:
  "provider_inv sample_visit" "vp_keyCount sample_visit = 0" "vp_tableSize sample_visit = 0"
  "length (vp_pending sample_visit) = 1"
  using visitedLinkHashInline_nonzero [of "origin sample_scheme [0x68] @ [0x2F, 0x63]"]
  by (simp_all add: sample_visit_def WebContext_addVisitedLink_def WebContext_addVisitedLinkHash_def
      visitedLinkHash_def addVisitedLink_def provider_inv_def VisitedLinkProvider_def VisitedLinkTable_def
      hashset_add_def Let_def origin_def)


end
