(* ===== verification/Int_Rect.thy ===== *)
theory Int_Rect
  imports Prelude
begin

text \<open>
  The integer rectangles of \<^verbatim>\<open>WebCore/platform/graphics/IntRect.h\<close> and \<^verbatim>\<open>IntRect.cpp\<close>, with the parts of
  \<^verbatim>\<open>IntPoint\<close> and \<^verbatim>\<open>IntSize\<close> they use. Coordinates are 32-bit integers and every sum is taken modulo their
  range. For rectangles whose edges are \<open>small\<close>, the operations are those on sets of pixels.
\<close>

subsection \<open>Sizes and rectangles\<close>

record int_size =
  sz_width :: int
  sz_height :: int

record int_rect =
  rc_x :: int
  rc_y :: int
  rc_width :: int
  rc_height :: int

definition IntSize :: "int \<Rightarrow> int \<Rightarrow> int_size" where
  "IntSize width height = \<lparr>sz_width = width, sz_height = height\<rparr>"

definition size_isEmpty :: "int_size \<Rightarrow> bool" where
  "size_isEmpty s \<longleftrightarrow> sz_width s \<le> 0 \<or> sz_height s \<le> 0"

definition size_isZero :: "int_size \<Rightarrow> bool" where
  "size_isZero s \<longleftrightarrow> sz_width s = 0 \<and> sz_height s = 0"

definition size_add :: "int_size \<Rightarrow> int_size \<Rightarrow> int_size" where
  "size_add s t = IntSize (s32 (sz_width s + sz_width t)) (s32 (sz_height s + sz_height t))"

definition diagonalLengthSquared :: "int_size \<Rightarrow> int" where
  "diagonalLengthSquared s =
     s32 (s32 (sz_width s * sz_width s) + s32 (sz_height s * sz_height s))"

definition IntRect :: "int \<Rightarrow> int \<Rightarrow> int \<Rightarrow> int \<Rightarrow> int_rect" where
  "IntRect x y width height = \<lparr>rc_x = x, rc_y = y, rc_width = width, rc_height = height\<rparr>"

definition rc_maxX :: "int_rect \<Rightarrow> int" where
  "rc_maxX r = s32 (rc_x r + rc_width r)"

definition rc_maxY :: "int_rect \<Rightarrow> int" where
  "rc_maxY r = s32 (rc_y r + rc_height r)"

definition rect_size :: "int_rect \<Rightarrow> int_size" where
  "rect_size r = IntSize (rc_width r) (rc_height r)"

definition rect_isEmpty :: "int_rect \<Rightarrow> bool" where
  "rect_isEmpty r \<longleftrightarrow> size_isEmpty (rect_size r)"

definition move :: "int_size \<Rightarrow> int_rect \<Rightarrow> int_rect" where
  "move s r = r\<lparr>rc_x := s32 (rc_x r + sz_width s), rc_y := s32 (rc_y r + sz_height s)\<rparr>"

definition shiftXEdgeTo :: "int \<Rightarrow> int_rect \<Rightarrow> int_rect" where
  "shiftXEdgeTo edge r =
     (let delta = s32 (edge - rc_x r) in r\<lparr>rc_x := edge, rc_width := max 0 (s32 (rc_width r - delta))\<rparr>)"

definition shiftMaxXEdgeTo :: "int \<Rightarrow> int_rect \<Rightarrow> int_rect" where
  "shiftMaxXEdgeTo edge r =
     (let delta = s32 (edge - rc_maxX r) in r\<lparr>rc_width := max 0 (s32 (rc_width r + delta))\<rparr>)"

definition shiftYEdgeTo :: "int \<Rightarrow> int_rect \<Rightarrow> int_rect" where
  "shiftYEdgeTo edge r =
     (let delta = s32 (edge - rc_y r) in r\<lparr>rc_y := edge, rc_height := max 0 (s32 (rc_height r - delta))\<rparr>)"

definition shiftMaxYEdgeTo :: "int \<Rightarrow> int_rect \<Rightarrow> int_rect" where
  "shiftMaxYEdgeTo edge r =
     (let delta = s32 (edge - rc_maxY r) in r\<lparr>rc_height := max 0 (s32 (rc_height r + delta))\<rparr>)"

definition inflate :: "int \<Rightarrow> int_rect \<Rightarrow> int_rect" where
  "inflate d r = r\<lparr>rc_x := s32 (rc_x r - d), rc_width := s32 (s32 (rc_width r + d) + d),
     rc_y := s32 (rc_y r - d), rc_height := s32 (s32 (rc_height r + d) + d)\<rparr>"

definition rect_intersects :: "int_rect \<Rightarrow> int_rect \<Rightarrow> bool" where
  "rect_intersects r other \<longleftrightarrow> \<not> rect_isEmpty r \<and> \<not> rect_isEmpty other
     \<and> rc_x r < rc_maxX other \<and> rc_x other < rc_maxX r \<and> rc_y r < rc_maxY other \<and> rc_y other < rc_maxY r"

definition rect_contains :: "int_rect \<Rightarrow> int_rect \<Rightarrow> bool" where
  "rect_contains r other \<longleftrightarrow> rc_x r \<le> rc_x other \<and> rc_maxX other \<le> rc_maxX r
     \<and> rc_y r \<le> rc_y other \<and> rc_maxY other \<le> rc_maxY r"

definition contains_point :: "int_rect \<Rightarrow> int \<Rightarrow> int \<Rightarrow> bool" where
  "contains_point r px py \<longleftrightarrow> rc_x r \<le> px \<and> px < rc_maxX r \<and> rc_y r \<le> py \<and> py < rc_maxY r"

text \<open>The rectangle with the given left, top, right and bottom edges.\<close>

definition edges :: "int \<Rightarrow> int \<Rightarrow> int \<Rightarrow> int \<Rightarrow> int_rect" where
  "edges l t r b = IntRect l t (s32 (r - l)) (s32 (b - t))"

definition rect_intersect :: "int_rect \<Rightarrow> int_rect \<Rightarrow> int_rect" where
  "rect_intersect this other =
     (let l = max (rc_x this) (rc_x other); t = max (rc_y this) (rc_y other);
          r = min (rc_maxX this) (rc_maxX other); b = min (rc_maxY this) (rc_maxY other)
      in if r \<le> l \<or> b \<le> t then edges 0 0 0 0 else edges l t r b)"

definition rect_unite :: "int_rect \<Rightarrow> int_rect \<Rightarrow> int_rect" where
  "rect_unite this other =
     (if rect_isEmpty other then this
      else if rect_isEmpty this then other
      else edges (min (rc_x this) (rc_x other)) (min (rc_y this) (rc_y other))
             (max (rc_maxX this) (rc_maxX other)) (max (rc_maxY this) (rc_maxY other)))"

definition uniteIfNonZero :: "int_rect \<Rightarrow> int_rect \<Rightarrow> int_rect" where
  "uniteIfNonZero this other =
     (if rc_width other = 0 \<and> rc_height other = 0 then this
      else if rc_width this = 0 \<and> rc_height this = 0 then other
      else edges (min (rc_x this) (rc_x other)) (min (rc_y this) (rc_y other))
             (max (rc_maxX this) (rc_maxX other)) (max (rc_maxY this) (rc_maxY other)))"

definition unionRect :: "int_rect list \<Rightarrow> int_rect" where
  "unionRect rects = fold (\<lambda>r result. rect_unite result r) rects (IntRect 0 0 0 0)"

definition distanceToInterval :: "int \<Rightarrow> int \<Rightarrow> int \<Rightarrow> int" where
  "distanceToInterval pos start end' =
     (if pos < start then s32 (start - pos) else if pos > end' then s32 (end' - pos) else 0)"

definition differenceToPoint :: "int_rect \<Rightarrow> int \<Rightarrow> int \<Rightarrow> int_size" where
  "differenceToPoint r px py =
     IntSize (distanceToInterval px (rc_x r) (rc_maxX r)) (distanceToInterval py (rc_y r) (rc_maxY r))"

definition distanceSquaredToPoint :: "int_rect \<Rightarrow> int \<Rightarrow> int \<Rightarrow> int" where
  "distanceSquaredToPoint r px py = diagonalLengthSquared (differenceToPoint r px py)"

subsection \<open>Rectangles as sets of pixels\<close>

text \<open>Coordinates whose differences do not overflow, and rectangles with such edges.\<close>

definition small :: "int \<Rightarrow> bool" where
  "small c \<longleftrightarrow> - 1073741824 \<le> c \<and> c \<le> 1073741823"

definition rect_ok :: "int_rect \<Rightarrow> bool" where
  "rect_ok r \<longleftrightarrow> small (rc_x r) \<and> small (rc_y r) \<and> small (rc_x r + rc_width r) \<and> small (rc_y r + rc_height r)"

type_synonym pixel = "int \<times> int"

definition pixels :: "int_rect \<Rightarrow> pixel set" where
  "pixels r = {(x, y). contains_point r x y}"

lemma small_diff [simp]: "\<lbrakk>small a; small b\<rbrakk> \<Longrightarrow> s32 (a - b) = a - b"
  by (simp add: small_def)

lemma small_s32 [simp]: "small a \<Longrightarrow> s32 a = a"
  by (simp add: small_def)

lemma small_min_max [simp]: "\<lbrakk>small a; small b\<rbrakk> \<Longrightarrow> small (min a b)" "\<lbrakk>small a; small b\<rbrakk> \<Longrightarrow> small (max a b)"
  by (auto simp: min_def max_def)

lemma small_0 [simp]: "small 0"
  by (simp add: small_def)

lemma max_edges [simp]:
  assumes "rect_ok r"
  shows "rc_maxX r = rc_x r + rc_width r" "rc_maxY r = rc_y r + rc_height r"
  using assms by (simp_all add: rect_ok_def rc_maxX_def rc_maxY_def)

lemma rect_okD:
  assumes "rect_ok r"
  shows "small (rc_x r)" "small (rc_y r)" "small (rc_x r + rc_width r)" "small (rc_y r + rc_height r)"
  using assms by (simp_all add: rect_ok_def)

lemma edges_simps [simp]:
  assumes "small l" "small t" "small r" "small b"
  shows "rect_ok (edges l t r b)" "rc_x (edges l t r b) = l" "rc_y (edges l t r b) = t"
    "rc_width (edges l t r b) = r - l" "rc_height (edges l t r b) = b - t"
  using assms by (simp_all add: edges_def IntRect_def rect_ok_def)

lemma mem_pixels:
  assumes "rect_ok r"
  shows "(x, y) \<in> pixels r \<longleftrightarrow> rc_x r \<le> x \<and> x < rc_x r + rc_width r \<and> rc_y r \<le> y \<and> y < rc_y r + rc_height r"
  using assms by (simp add: pixels_def contains_point_def)

lemma isEmpty_pixels:
  assumes "rect_ok r"
  shows "rect_isEmpty r \<longleftrightarrow> pixels r = {}"
proof
  assume e: "pixels r = {}"
  show "rect_isEmpty r"
  proof (rule ccontr)
    assume "\<not> rect_isEmpty r"
    hence "(rc_x r, rc_y r) \<in> pixels r"
      by (simp add: mem_pixels [OF assms] rect_isEmpty_def size_isEmpty_def rect_size_def IntSize_def)
    with e show False by simp
  qed
qed (auto simp: mem_pixels [OF assms] rect_isEmpty_def size_isEmpty_def rect_size_def IntSize_def)

lemma pixels_unempty: "\<lbrakk>rect_ok r; (x, y) \<in> pixels r\<rbrakk> \<Longrightarrow> \<not> rect_isEmpty r"
  using isEmpty_pixels by blast

lemma rect_intersects_pixels:
  assumes "rect_ok r" "rect_ok r'"
  shows "rect_intersects r r' \<longleftrightarrow> pixels r \<inter> pixels r' \<noteq> {}"
proof
  assume "rect_intersects r r'"
  hence "(max (rc_x r) (rc_x r'), max (rc_y r) (rc_y r')) \<in> pixels r \<inter> pixels r'"
    using assms by (auto simp: rect_intersects_def mem_pixels rect_isEmpty_def size_isEmpty_def rect_size_def IntSize_def)
  thus "pixels r \<inter> pixels r' \<noteq> {}" by blast
next
  assume "pixels r \<inter> pixels r' \<noteq> {}"
  then obtain x y where "(x, y) \<in> pixels r" "(x, y) \<in> pixels r'" by auto
  thus "rect_intersects r r'" using assms pixels_unempty by (simp add: rect_intersects_def mem_pixels)
qed

lemma rect_intersect_pixels:
  assumes "rect_ok r" "rect_ok r'"
  shows "rect_ok (rect_intersect r r')" "pixels (rect_intersect r r') = pixels r \<inter> pixels r'"
proof -
  note s = rect_okD [OF assms(1)] rect_okD [OF assms(2)]
  show "rect_ok (rect_intersect r r')" using assms s by (auto simp: rect_intersect_def Let_def)
  thus "pixels (rect_intersect r r') = pixels r \<inter> pixels r'"
    using assms s by (auto simp: rect_intersect_def Let_def mem_pixels split: if_splits)
qed

lemma rect_contains_pixels:
  assumes "rect_ok r" "rect_ok r'" "\<not> rect_isEmpty r'"
  shows "rect_contains r r' \<longleftrightarrow> pixels r' \<subseteq> pixels r"
proof
  assume sub: "pixels r' \<subseteq> pixels r"
  have "(rc_x r', rc_y r') \<in> pixels r'" "(rc_x r' + rc_width r' - 1, rc_y r' + rc_height r' - 1) \<in> pixels r'"
    using assms by (auto simp: mem_pixels rect_isEmpty_def size_isEmpty_def rect_size_def IntSize_def)
  hence "(rc_x r', rc_y r') \<in> pixels r" "(rc_x r' + rc_width r' - 1, rc_y r' + rc_height r' - 1) \<in> pixels r"
    using sub by blast+
  thus "rect_contains r r'" using assms by (simp add: rect_contains_def mem_pixels)
next
  assume "rect_contains r r'"
  thus "pixels r' \<subseteq> pixels r" using assms by (auto simp: rect_contains_def mem_pixels)
qed

text \<open>The union is the smallest rectangle with all the pixels of both.\<close>

lemma rect_unite_pixels:
  assumes "rect_ok r" "rect_ok r'"
  shows "rect_ok (rect_unite r r')" "pixels r \<union> pixels r' \<subseteq> pixels (rect_unite r r')"
    and "\<lbrakk>rect_ok s; pixels r \<union> pixels r' \<subseteq> pixels s\<rbrakk> \<Longrightarrow> pixels (rect_unite r r') \<subseteq> pixels s"
proof -
  note sm = rect_okD [OF assms(1)] rect_okD [OF assms(2)]
  show ok: "rect_ok (rect_unite r r')" using assms sm by (simp add: rect_unite_def)
  show "pixels r \<union> pixels r' \<subseteq> pixels (rect_unite r r')"
    using assms sm ok isEmpty_pixels by (auto simp: rect_unite_def mem_pixels split: if_splits)
  assume s: "rect_ok s" "pixels r \<union> pixels r' \<subseteq> pixels s"
  show "pixels (rect_unite r r') \<subseteq> pixels s"
  proof (cases "rect_isEmpty r \<or> rect_isEmpty r'")
    case True
    thus ?thesis using s(2) by (auto simp: rect_unite_def)
  next
    case False
    hence "rect_contains s r" "rect_contains s r'" using assms s by (auto simp: rect_contains_pixels)
    thus ?thesis using False assms sm s(1) ok
      by (auto simp: rect_unite_def mem_pixels rect_contains_def)
  qed
qed

lemma unionRect_pixels:
  assumes "\<forall>r\<in>set rects. rect_ok r"
  shows "rect_ok (unionRect rects)" "(\<Union>r\<in>set rects. pixels r) \<subseteq> pixels (unionRect rects)"
    and "\<lbrakk>rect_ok s; (\<Union>r\<in>set rects. pixels r) \<subseteq> pixels s\<rbrakk> \<Longrightarrow> pixels (unionRect rects) \<subseteq> pixels s"
proof -
  have gen: "rect_ok (fold (\<lambda>r result. rect_unite result r) rects acc)
      \<and> pixels acc \<union> (\<Union>r\<in>set rects. pixels r) \<subseteq> pixels (fold (\<lambda>r result. rect_unite result r) rects acc)
      \<and> (\<forall>s. rect_ok s \<longrightarrow> pixels acc \<union> (\<Union>r\<in>set rects. pixels r) \<subseteq> pixels s
            \<longrightarrow> pixels (fold (\<lambda>r result. rect_unite result r) rects acc) \<subseteq> pixels s)"
    if "rect_ok acc" for acc
    using that assms
  proof (induction rects arbitrary: acc)
    case (Cons r rects)
    have r: "rect_ok acc" "rect_ok r" using Cons.prems by auto
    note u = rect_unite_pixels [OF r]
    note ih = Cons.IH [OF u(1)]
    show ?case using ih u Cons.prems(2) by (simp add: le_sup_iff) blast
  qed simp
  have z: "rect_ok (IntRect 0 0 0 0)" "pixels (IntRect 0 0 0 0) = {}"
    by (auto simp: rect_ok_def IntRect_def pixels_def contains_point_def rc_maxX_def)
  note g = gen [OF z(1), folded unionRect_def]
  show "rect_ok (unionRect rects)" "(\<Union>r\<in>set rects. pixels r) \<subseteq> pixels (unionRect rects)" using g by auto
  show "\<lbrakk>rect_ok s; (\<Union>r\<in>set rects. pixels r) \<subseteq> pixels s\<rbrakk> \<Longrightarrow> pixels (unionRect rects) \<subseteq> pixels s"
    using g z(2) by auto
qed

text \<open>Moving.\<close>

definition shift :: "int_size \<Rightarrow> pixel set \<Rightarrow> pixel set" where
  "shift d ps = {(x, y). (x - sz_width d, y - sz_height d) \<in> ps}"

definition can_move :: "int_size \<Rightarrow> int_rect \<Rightarrow> bool" where
  "can_move d r \<longleftrightarrow> rect_ok r \<and> small (rc_x r + sz_width d) \<and> small (rc_x r + rc_width r + sz_width d)
     \<and> small (rc_y r + sz_height d) \<and> small (rc_y r + rc_height r + sz_height d)"

lemma move_pixels:
  assumes "can_move d r"
  shows "rect_ok (move d r)" "pixels (move d r) = shift d (pixels r)" "rect_isEmpty (move d r) = rect_isEmpty r"
proof -
  have sm: "small (rc_x r + sz_width d)" "small (rc_y r + sz_height d)" using assms by (simp_all add: can_move_def)
  show ok: "rect_ok (move d r)"
    using assms sm by (simp add: rect_ok_def move_def can_move_def algebra_simps)
  have "rect_ok r" using assms by (simp add: can_move_def)
  thus "pixels (move d r) = shift d (pixels r)"
    using ok sm by (auto simp: shift_def mem_pixels) (auto simp: move_def)
  show "rect_isEmpty (move d r) = rect_isEmpty r"
    by (simp add: move_def rect_isEmpty_def size_isEmpty_def rect_size_def IntSize_def)
qed

lemmas small_simps = small_diff small_s32 small_min_max small_0

declare small_simps [simp del]

end
