(* ===== verification/Region_Shape.thy ===== *)
theory Region_Shape
  imports Int_Rect
begin

unbundle bit_operations_syntax

text \<open>
  The shape algebra behind dirty regions and clip regions, the class \<^verbatim>\<open>Region::Shape\<close> of
  \<^verbatim>\<open>WebCore/platform/graphics/Region.cpp\<close>.

  A shape is a vector of spans, each with the \<open>y\<close> at which it begins and an index into one common
  vector of segment ends, alternately left and right. It is modelled as the two vectors; an
  iterator over spans is the list of the rows that remain, each with its \<open>y\<close> and its segments, and an
  iterator over segments the list of those that remain. The last span has no segments and ends the
  one before it. Coordinates are integers; the source compares two of them by the sign of their
  32-bit difference.
\<close>

type_synonym row = "int \<times> int list"

record span =
  span_y :: int
  span_segmentIndex :: nat

record shape =
  sh_segments :: "int list"
  sh_spans :: "span list"

subsection \<open>The two vectors\<close>

definition Shape :: shape where
  "Shape = \<lparr>sh_segments = [], sh_spans = []\<rparr>"

definition appendSpan :: "int \<Rightarrow> shape \<Rightarrow> shape" where
  "appendSpan y s =
     s\<lparr>sh_spans := sh_spans s @ [\<lparr>span_y = y, span_segmentIndex = length (sh_segments s)\<rparr>]\<rparr>"

definition appendSegment :: "int \<Rightarrow> shape \<Rightarrow> shape" where
  "appendSegment x s = s\<lparr>sh_segments := sh_segments s @ [x]\<rparr>"

definition canCoalesce :: "int list \<Rightarrow> shape \<Rightarrow> bool" where
  "canCoalesce segments s \<longleftrightarrow>
     (if sh_spans s = [] then False
      else let lastSpan = drop (span_segmentIndex (last (sh_spans s))) (sh_segments s)
           in if length lastSpan \<noteq> length segments then False else segments = lastSpan)"

definition appendSpan_segments :: "int \<Rightarrow> int list \<Rightarrow> shape \<Rightarrow> shape" where
  "appendSpan_segments y segments s =
     (if canCoalesce segments s then s
      else let s = appendSpan y s in s\<lparr>sh_segments := sh_segments s @ segments\<rparr>)"

definition appendSpans :: "row list \<Rightarrow> shape \<Rightarrow> shape" where
  "appendSpans rows s = fold (\<lambda>(y, segments). appendSpan_segments y segments) rows s"

definition shape_isEmpty :: "shape \<Rightarrow> bool" where
  "shape_isEmpty s \<longleftrightarrow> sh_spans s = []"

definition shape_isRect :: "shape \<Rightarrow> bool" where
  "shape_isRect s \<longleftrightarrow> length (sh_spans s) \<le> 2 \<and> length (sh_segments s) \<le> 2"

definition gridSize :: "shape \<Rightarrow> nat" where
  "gridSize s = length (sh_spans s) * length (sh_segments s)"

text \<open>
  The rows, from \<^verbatim>\<open>spans_begin\<close> to \<^verbatim>\<open>spans_end\<close>, each with what lies between \<^verbatim>\<open>segments_begin\<close> and
  \<^verbatim>\<open>segments_end\<close>. (For the last row these look at the span after it unless the row is empty, which it
  is in every shape that is built.)
\<close>

fun span_rows :: "int list \<Rightarrow> span list \<Rightarrow> row list" where
  "span_rows segments [] = []"
| "span_rows segments [sp] = [(span_y sp, drop (span_segmentIndex sp) segments)]"
| "span_rows segments (sp # sp' # spans) =
     (span_y sp, take (span_segmentIndex sp' - span_segmentIndex sp) (drop (span_segmentIndex sp) segments))
       # span_rows segments (sp' # spans)"

definition shape_rows :: "shape \<Rightarrow> row list" where
  "shape_rows s = span_rows (sh_segments s) (sh_spans s)"

subsection \<open>Combining two shapes\<close>

record operation =
  op_trySimple :: "shape \<Rightarrow> shape \<Rightarrow> shape option"
  op_code :: nat
  op_segments1 :: bool
  op_segments2 :: bool
  op_spans1 :: bool
  op_spans2 :: bool

definition UnionOperation :: operation where
  "UnionOperation = \<lparr>op_trySimple = (\<lambda>shape1 shape2. if shape_isEmpty shape1 then Some shape2 else None),
     op_code = 0, op_segments1 = True, op_segments2 = True, op_spans1 = True, op_spans2 = True\<rparr>"

definition IntersectOperation :: operation where
  "IntersectOperation = \<lparr>op_trySimple = (\<lambda>shape1 shape2. None),
     op_code = 3, op_segments1 = False, op_segments2 = False, op_spans1 = False, op_spans2 = False\<rparr>"

definition SubtractOperation :: operation where
  "SubtractOperation = \<lparr>op_trySimple = (\<lambda>shape1 shape2. None),
     op_code = 1, op_segments1 = True, op_segments2 = False, op_spans1 = True, op_spans2 = False\<rparr>"

text \<open>The inner loop, from the segments that remain and the flag so far, with the segments that are
  added after it.\<close>

function merge_segments :: "operation \<Rightarrow> nat \<Rightarrow> int list \<Rightarrow> int list \<Rightarrow> int list" where
  "merge_segments op oldFlag s1 s2 =
     (if s1 \<noteq> [] \<and> s2 \<noteq> []
      then
        let test = s32 (hd s1 - hd s2);
            x = (if 0 \<le> test then hd s2 else hd s1);
            flag = (if test \<le> 0 then oldFlag XOR 1 else oldFlag);
            flag = (if 0 \<le> test then flag XOR 2 else flag);
            rest = merge_segments op flag (if test \<le> 0 then tl s1 else s1) (if 0 \<le> test then tl s2 else s2)
        in if flag = op_code op \<or> oldFlag = op_code op then x # rest else rest
      else if op_segments1 op \<and> s1 \<noteq> [] then s1
      else if op_segments2 op \<and> s2 \<noteq> [] then s2
      else [])"
  by pat_completeness (simp only: prod.inject)
termination
  by (relation "measure (\<lambda>(op, flag, s1, s2). length s1 + length s2)")
    (auto simp: neq_Nil_conv)

declare merge_segments.simps [simp del]

text \<open>The outer loop, from the rows that remain and the segments of the rows before them, with the
  rows that are added after it.\<close>

function merge_spans ::
    "operation \<Rightarrow> row list \<Rightarrow> row list \<Rightarrow> int list \<Rightarrow> int list \<Rightarrow> shape \<Rightarrow> shape" where
  "merge_spans op spans1 spans2 segments1 segments2 result =
     (if spans1 \<noteq> [] \<and> spans2 \<noteq> []
      then
        let test = s32 (fst (hd spans1) - fst (hd spans2));
            y = (if 0 \<le> test then fst (hd spans2) else fst (hd spans1));
            segments1 = (if test \<le> 0 then snd (hd spans1) else segments1);
            segments2 = (if 0 \<le> test then snd (hd spans2) else segments2);
            segments = merge_segments op 0 segments1 segments2;
            result = (if segments \<noteq> [] \<or> \<not> shape_isEmpty result
                      then appendSpan_segments y segments result else result)
        in merge_spans op (if test \<le> 0 then tl spans1 else spans1) (if 0 \<le> test then tl spans2 else spans2)
             segments1 segments2 result
      else if op_spans1 op \<and> spans1 \<noteq> [] then appendSpans spans1 result
      else if op_spans2 op \<and> spans2 \<noteq> [] then appendSpans spans2 result
      else result)"
  by pat_completeness (simp only: prod.inject)
termination
proof (relation "measure (\<lambda>(op, spans1, spans2, s1, s2, result). length spans1 + length spans2)", goal_cases)
  case (2 op spans1 spans2 s1 s2 result test)
  hence "0 < length spans1" "0 < length spans2" "test \<le> 0 \<or> 0 \<le> test" by auto
  thus ?case by (auto simp del: length_greater_0_conv)
qed simp

declare merge_spans.simps [simp del]

definition shapeOperation :: "operation \<Rightarrow> shape \<Rightarrow> shape \<Rightarrow> shape" where
  "shapeOperation op shape1 shape2 =
     (case op_trySimple op shape1 shape2 of
        Some result \<Rightarrow> result
      | None \<Rightarrow> merge_spans op (shape_rows shape1) (shape_rows shape2) [] [] Shape)"

definition unionShapes :: "shape \<Rightarrow> shape \<Rightarrow> shape" where
  "unionShapes = shapeOperation UnionOperation"

definition intersectShapes :: "shape \<Rightarrow> shape \<Rightarrow> shape" where
  "intersectShapes = shapeOperation IntersectOperation"

definition subtractShapes :: "shape \<Rightarrow> shape \<Rightarrow> shape" where
  "subtractShapes = shapeOperation SubtractOperation"

subsection \<open>Comparing two shapes\<close>

text \<open>A callback either lets the comparison go on, or sets the result and ends it.\<close>

record compare_operation =
  co_defaultResult :: bool
  co_aOutsideB :: "bool option"
  co_bOutsideA :: "bool option"
  co_aOverlapsB :: "bool option"

definition CompareContainsOperation :: compare_operation where
  "CompareContainsOperation = \<lparr>co_defaultResult = True, co_aOutsideB = None, co_bOutsideA = Some False,
     co_aOverlapsB = None\<rparr>"

definition CompareIntersectsOperation :: compare_operation where
  "CompareIntersectsOperation = \<lparr>co_defaultResult = False, co_aOutsideB = None, co_bOutsideA = None,
     co_aOverlapsB = Some True\<rparr>"

function compare_segments :: "compare_operation \<Rightarrow> int list \<Rightarrow> int list \<Rightarrow> bool option" where
  "compare_segments op aSegment bSegment =
     (case (aSegment, bSegment) of
        (aX # aMaxX # a, bX # bMaxX # b) \<Rightarrow>
          if bMaxX > aX \<and> bX < aMaxX \<and> co_aOverlapsB op \<noteq> None then co_aOverlapsB op
          else if aX < bX \<and> co_aOutsideB op \<noteq> None then co_aOutsideB op
          else if bX < aX \<and> co_bOutsideA op \<noteq> None then co_bOutsideA op
          else if aMaxX < bMaxX then compare_segments op a bSegment
          else if bMaxX < aMaxX then compare_segments op aSegment b
          else compare_segments op a b
      | _ \<Rightarrow>
          if aSegment \<noteq> [] \<and> co_aOutsideB op \<noteq> None then co_aOutsideB op
          else if bSegment \<noteq> [] \<and> co_bOutsideA op \<noteq> None then co_bOutsideA op
          else None)"
  by pat_completeness (simp only: prod.inject)
termination
  by (relation "measure (\<lambda>(op, a, b). length a + length b)") auto

declare compare_segments.simps [simp del]

function compare_spans :: "compare_operation \<Rightarrow> bool \<Rightarrow> bool \<Rightarrow> row list \<Rightarrow> row list \<Rightarrow> bool" where
  "compare_spans op aHad bHad aSpan bSpan =
     (case (aSpan, bSpan) of
        ((aY, aSegment) # (aMaxY, aNext) # a, (bY, bSegment) # (bMaxY, bNext) # b) \<Rightarrow>
          let aHas = (aSegment \<noteq> []); bHas = (bSegment \<noteq> []) in
          if aY < bY \<and> \<not> bHad \<and> aHas \<and> co_aOutsideB op \<noteq> None then the (co_aOutsideB op)
          else if bY < aY \<and> \<not> aHad \<and> bHas \<and> co_bOutsideA op \<noteq> None then the (co_bOutsideA op)
          else
            (case (if bMaxY > aY \<and> bY < aMaxY then compare_segments op aSegment bSegment else None) of
               Some result \<Rightarrow> result
             | None \<Rightarrow>
                 if aMaxY < bMaxY then compare_spans op aHas bHas ((aMaxY, aNext) # a) bSpan
                 else if bMaxY < aMaxY then compare_spans op aHas bHas aSpan ((bMaxY, bNext) # b)
                 else compare_spans op aHas bHas ((aMaxY, aNext) # a) ((bMaxY, bNext) # b))
      | _ \<Rightarrow>
          if 2 \<le> length aSpan \<and> co_aOutsideB op \<noteq> None then the (co_aOutsideB op)
          else if 2 \<le> length bSpan \<and> co_bOutsideA op \<noteq> None then the (co_bOutsideA op)
          else co_defaultResult op)"
  by pat_completeness (simp only: prod.inject)
termination
  by (relation "measure (\<lambda>(op, aHad, bHad, a, b). length a + length b)") auto

declare compare_spans.simps [simp del]

definition compareShapes :: "compare_operation \<Rightarrow> shape \<Rightarrow> shape \<Rightarrow> bool" where
  "compareShapes op aShape bShape = compare_spans op False False (shape_rows aShape) (shape_rows bShape)"

subsection \<open>The vectors represent rows\<close>

fun pack_spans :: "nat \<Rightarrow> row list \<Rightarrow> span list" where
  "pack_spans n [] = []"
| "pack_spans n (r # rows) = \<lparr>span_y = fst r, span_segmentIndex = n\<rparr> # pack_spans (n + length (snd r)) rows"

definition pack :: "row list \<Rightarrow> shape" where
  "pack rows = \<lparr>sh_segments = concat (map snd rows), sh_spans = pack_spans 0 rows\<rparr>"

lemma pack_spans_append:
  "pack_spans n (rows @ rows') = pack_spans n rows @ pack_spans (n + length (concat (map snd rows))) rows'"
  by (induction rows arbitrary: n) (auto simp: add.assoc)

lemma pack_spans_Nil [simp]: "pack_spans n rows = [] \<longleftrightarrow> rows = []"
  by (cases rows) auto

lemma pack_Nil [simp]: "pack [] = Shape"
  by (simp add: pack_def Shape_def)

lemma shape_isEmpty_pack [simp]: "shape_isEmpty (pack rows) \<longleftrightarrow> rows = []"
  by (simp add: shape_isEmpty_def pack_def)

lemma span_rows_pack:
  "span_rows (pre @ concat (map snd rows)) (pack_spans (length pre) rows) = rows"
proof (induction rows arbitrary: pre)
  case (Cons r rows)
  show ?case
  proof (cases rows)
    case Nil
    thus ?thesis by simp
  next
    case (Cons r' rows')
    have "span_rows ((pre @ snd r) @ concat (map snd rows)) (pack_spans (length (pre @ snd r)) rows) = rows"
      by (rule Cons.IH)
    with Cons show ?thesis by simp
  qed
qed simp

lemma shape_rows_pack [simp]: "shape_rows (pack rows) = rows"
  using span_rows_pack [of "[]" rows] by (simp add: shape_rows_def pack_def)

lemma last_pack_spans:
  "rows \<noteq> [] \<Longrightarrow> span_segmentIndex (last (pack_spans n rows)) = n + length (concat (map snd (butlast rows)))"
  by (induction rows arbitrary: n) auto

lemma canCoalesce_pack:
  "canCoalesce segments (pack rows) \<longleftrightarrow> rows \<noteq> [] \<and> snd (last rows) = segments"
proof (cases rows rule: rev_cases)
  case (snoc rs r)
  thus ?thesis using last_pack_spans [of rows 0] by (auto simp: canCoalesce_def pack_def Let_def)
qed (simp add: canCoalesce_def Shape_def)

definition append_row :: "int \<Rightarrow> int list \<Rightarrow> row list \<Rightarrow> row list" where
  "append_row y segments rows =
     (if rows \<noteq> [] \<and> snd (last rows) = segments then rows else rows @ [(y, segments)])"

lemma appendSpan_pack: "appendSpan_segments y segments (pack rows) = pack (append_row y segments rows)"
  by (simp add: appendSpan_segments_def canCoalesce_pack append_row_def)
    (auto simp: appendSpan_def pack_def pack_spans_append Shape_def)

lemma appendSpans_pack:
  "appendSpans spans (pack rows) = pack (fold (\<lambda>(y, segments). append_row y segments) spans rows)"
  unfolding appendSpans_def
  by (induction spans arbitrary: rows) (auto simp: appendSpan_pack split: prod.split)

subsection \<open>Segments as sets of points\<close>

lemma test_sign:
  assumes "small a" "small b"
  shows "s32 (a - b) \<le> 0 \<longleftrightarrow> a \<le> b" "0 \<le> s32 (a - b) \<longleftrightarrow> b \<le> a"
  using assms by (simp_all add: small_def)

definition in_segs :: "int list \<Rightarrow> int \<Rightarrow> bool" where
  "in_segs segs x \<longleftrightarrow> odd (length (filter (\<lambda>s. s \<le> x) segs))"

lemma in_segs_simps [simp]:
  "\<not> in_segs [] x" "in_segs (a # segs) x \<longleftrightarrow> (a \<le> x) \<noteq> in_segs segs x"
  by (auto simp: in_segs_def)

lemma in_segs_before: "\<forall>s\<in>set segs. x < s \<Longrightarrow> \<not> in_segs segs x"
  by (induction segs) auto

lemma in_segs_after: "\<forall>s\<in>set segs. s \<le> x \<Longrightarrow> in_segs segs x \<longleftrightarrow> odd (length segs)"
  by (induction segs) auto

definition segs_ok :: "int list \<Rightarrow> bool" where
  "segs_ok segs \<longleftrightarrow> sorted_wrt (<) segs \<and> even (length segs) \<and> (\<forall>s\<in>set segs. small s)"

text \<open>The flag as two bits, and whether it is inside the result.\<close>

definition flag_of :: "bool \<Rightarrow> bool \<Rightarrow> nat" where
  "flag_of p q = (if q then if p then 3 else 2 else if p then 1 else 0)"

definition op_in :: "operation \<Rightarrow> bool \<Rightarrow> bool \<Rightarrow> bool" where
  "op_in op p q \<longleftrightarrow> (flag_of p q = op_code op) \<noteq> (0 = op_code op)"

definition shape_op :: "operation \<Rightarrow> bool" where
  "shape_op op \<longleftrightarrow> op = UnionOperation \<or> op = IntersectOperation \<or> op = SubtractOperation"

lemma op_in_simps [simp]:
  "op_in UnionOperation p q \<longleftrightarrow> p \<or> q" "op_in IntersectOperation p q \<longleftrightarrow> p \<and> q"
  "op_in SubtractOperation p q \<longleftrightarrow> p \<and> \<not> q" "\<not> op_in op False False"
  by (auto simp: op_in_def flag_of_def UnionOperation_def IntersectOperation_def SubtractOperation_def)

lemma flag_xor [simp]:
  "flag_of p q XOR 1 = flag_of (\<not> p) q" "flag_of p q XOR Suc 0 = flag_of (\<not> p) q"
  "flag_of p q XOR 2 = flag_of p (\<not> q)"
  by (cases p; cases q; simp add: flag_of_def)+

lemma flag_inject [simp]: "flag_of p q = flag_of p' q' \<longleftrightarrow> p = p' \<and> q = q'"
  by (auto simp: flag_of_def)

lemma emits:
  "flag_of p q \<noteq> flag_of p' q' \<Longrightarrow>
     (flag_of p' q' = op_code op \<or> flag_of p q = op_code op) \<longleftrightarrow> op_in op p q \<noteq> op_in op p' q'"
  unfolding op_in_def by metis

lemma merge_step:
  assumes "small a" "small b"
  shows "merge_segments op (flag_of p q) (a # s1) (b # s2) =
    (let p' = (if a \<le> b then \<not> p else p); q' = (if b \<le> a then \<not> q else q);
         rest = merge_segments op (flag_of p' q') (if a \<le> b then s1 else a # s1) (if b \<le> a then s2 else b # s2)
     in if op_in op p q \<noteq> op_in op p' q' then min a b # rest else rest)"
proof -
  have "flag_of p q \<noteq> flag_of (if a \<le> b then \<not> p else p) (if b \<le> a then \<not> q else q)" by auto
  note e = emits [OF this, of op]
  consider "a < b" | "a = b" | "b < a" by linarith
  thus ?thesis
    using e by cases (subst merge_segments.simps, simp add: test_sign [OF assms] Let_def min_def)+
qed

lemma merge_rest:
  "s1 = [] \<or> s2 = [] \<Longrightarrow> merge_segments op f s1 s2 =
     (if op_segments1 op \<and> s1 \<noteq> [] then s1 else if op_segments2 op \<and> s2 \<noteq> [] then s2 else [])"
  by (subst merge_segments.simps) auto

lemma shape_op_cases [consumes 1]:
  assumes "shape_op op"
  obtains "op = UnionOperation" "op_segments1 op" "op_segments2 op" "op_spans1 op" "op_spans2 op"
    | "op = IntersectOperation" "\<not> op_segments1 op" "\<not> op_segments2 op" "\<not> op_spans1 op" "\<not> op_spans2 op"
    | "op = SubtractOperation" "op_segments1 op" "\<not> op_segments2 op" "op_spans1 op" "\<not> op_spans2 op"
  using assms
  by (auto simp: shape_op_def UnionOperation_def IntersectOperation_def SubtractOperation_def)

lemma merge_segments_in:
  assumes "shape_op op" "sorted_wrt (<) s1" "sorted_wrt (<) s2" "\<forall>s\<in>set s1 \<union> set s2. small s"
    and "p \<longleftrightarrow> odd (length s1)" "q \<longleftrightarrow> odd (length s2)"
  shows "in_segs (merge_segments op (flag_of p q) s1 s2) x
    \<longleftrightarrow> op_in op (p \<noteq> in_segs s1 x) (q \<noteq> in_segs s2 x) \<noteq> op_in op p q"
  using assms(2-)
proof (induction "length s1 + length s2" arbitrary: s1 s2 p q rule: less_induct)
  case less
  show ?case
  proof (cases "s1 = [] \<or> s2 = []")
    case True
    from assms(1) show ?thesis
      by (cases rule: shape_op_cases) (use True less.prems(4,5) in \<open>auto simp: merge_rest\<close>)
  next
    case False
    then obtain a t1 b t2 where s: "s1 = a # t1" "s2 = b # t2" by (auto simp: neq_Nil_conv)
    let ?p = "if a \<le> b then \<not> p else p" and ?q = "if b \<le> a then \<not> q else q"
    let ?s1 = "if a \<le> b then t1 else s1" and ?s2 = "if b \<le> a then t2 else s2"
    have ih: "in_segs (merge_segments op (flag_of ?p ?q) ?s1 ?s2) x
        \<longleftrightarrow> op_in op (?p \<noteq> in_segs ?s1 x) (?q \<noteq> in_segs ?s2 x) \<noteq> op_in op ?p ?q"
      by (rule less.hyps) (use less.prems s in auto)
    have step: "merge_segments op (flag_of p q) s1 s2 =
        (if op_in op p q \<noteq> op_in op ?p ?q then min a b # merge_segments op (flag_of ?p ?q) ?s1 ?s2
         else merge_segments op (flag_of ?p ?q) ?s1 ?s2)"
      using merge_step [of a b op p q t1 t2] less.prems(3) s by (simp add: Let_def)
    have late: "x < min a b \<Longrightarrow> \<not> in_segs s1 x \<and> \<not> in_segs s2 x \<and> \<not> in_segs ?s1 x \<and> \<not> in_segs ?s2 x"
    proof -
      assume x: "x < min a b"
      have "\<forall>s\<in>set t1. x < s" "\<forall>s\<in>set t2. x < s" using less.prems(1,2) s x by auto
      hence "\<not> in_segs t1 x" "\<not> in_segs t2 x" using in_segs_before by blast+
      with s x show ?thesis by auto
    qed
    have early: "min a b \<le> x \<Longrightarrow> (?p \<noteq> in_segs ?s1 x) = (p \<noteq> in_segs s1 x) \<and> (?q \<noteq> in_segs ?s2 x) = (q \<noteq> in_segs s2 x)"
      using s by (auto simp: min_def split: if_splits)
    show ?thesis
    proof (cases "min a b \<le> x")
      case True
      with ih step early show ?thesis by (simp split: if_splits)
    next
      case False
      hence "x < min a b" by linarith
      from late [OF this] ih step False show ?thesis by (simp split: if_splits)
    qed
  qed
qed

lemma merge_segments_sorted:
  assumes "sorted_wrt (<) s1" "sorted_wrt (<) s2" "\<forall>s\<in>set s1 \<union> set s2. small s"
  shows "sorted_wrt (<) (merge_segments op (flag_of p q) s1 s2)
    \<and> set (merge_segments op (flag_of p q) s1 s2) \<subseteq> set s1 \<union> set s2"
  using assms
proof (induction "length s1 + length s2" arbitrary: s1 s2 p q rule: less_induct)
  case less
  show ?case
  proof (cases "s1 = [] \<or> s2 = []")
    case True
    with less.prems show ?thesis by (auto simp: merge_rest)
  next
    case False
    then obtain a t1 b t2 where s: "s1 = a # t1" "s2 = b # t2" by (auto simp: neq_Nil_conv)
    let ?p = "if a \<le> b then \<not> p else p" and ?q = "if b \<le> a then \<not> q else q"
    let ?s1 = "if a \<le> b then t1 else s1" and ?s2 = "if b \<le> a then t2 else s2"
    let ?rest = "merge_segments op (flag_of ?p ?q) ?s1 ?s2"
    have ih: "sorted_wrt (<) ?rest \<and> set ?rest \<subseteq> set ?s1 \<union> set ?s2"
      by (rule less.hyps) (use less.prems s in auto)
    have "\<forall>c\<in>set ?s1 \<union> set ?s2. min a b < c" using less.prems(1,2) s by auto
    moreover have "merge_segments op (flag_of p q) s1 s2 = (if op_in op p q \<noteq> op_in op ?p ?q then min a b # ?rest else ?rest)"
      using merge_step [of a b op p q t1 t2] less.prems(3) s by (simp add: Let_def)
    ultimately show ?thesis using ih s by (auto simp: min_def split: if_splits)
  qed
qed

text \<open>The segments of one row of the result.\<close>

definition combine :: "operation \<Rightarrow> int list \<Rightarrow> int list \<Rightarrow> int list" where
  "combine op s1 s2 = merge_segments op 0 s1 s2"

lemma combine_ok:
  assumes "shape_op op" "segs_ok s1" "segs_ok s2"
  shows "segs_ok (combine op s1 s2)"
    and "in_segs (combine op s1 s2) x \<longleftrightarrow> op_in op (in_segs s1 x) (in_segs s2 x)"
proof -
  have f: "flag_of False False = 0" by (simp add: flag_of_def)
  have ok: "sorted_wrt (<) s1" "sorted_wrt (<) s2" "\<forall>s\<in>set s1 \<union> set s2. small s"
      "False \<longleftrightarrow> odd (length s1)" "False \<longleftrightarrow> odd (length s2)"
    using assms(2,3) by (auto simp: segs_ok_def)
  note m = merge_segments_in [OF assms(1) ok, unfolded f, folded combine_def]
  show "in_segs (combine op s1 s2) x \<longleftrightarrow> op_in op (in_segs s1 x) (in_segs s2 x)" for x
    using m [of x] by simp
  have s: "sorted_wrt (<) (combine op s1 s2)" "set (combine op s1 s2) \<subseteq> set s1 \<union> set s2"
    using merge_segments_sorted [OF ok(1-3), of op False False] by (simp_all add: combine_def f)
  define M where "M = Max (insert 0 (set s1 \<union> set s2))"
  have M: "\<forall>c\<in>set s1 \<union> set s2. c \<le> M" unfolding M_def by simp
  have "\<not> in_segs s1 M" "\<not> in_segs s2 M" using M ok(4,5) by (auto simp: in_segs_after)
  hence "\<not> in_segs (combine op s1 s2) M" using m [of M] by simp
  moreover have "\<forall>c\<in>set (combine op s1 s2). c \<le> M" using s(2) M by auto
  ultimately have "even (length (combine op s1 s2))" using in_segs_after by blast
  with s ok(3) show "segs_ok (combine op s1 s2)" by (auto simp: segs_ok_def)
qed

lemma combine_Nil:
  assumes "shape_op op"
  shows "combine op s1 [] = (if op_segments1 op then s1 else [])" "combine op [] s2 = (if op_segments2 op then s2 else [])"
  by (simp_all add: combine_def merge_rest)

subsection \<open>Rows as sets of points\<close>

text \<open>The segments in force at a height: those of the last row that begins at or above it.\<close>

fun row_at :: "int list \<Rightarrow> row list \<Rightarrow> int \<Rightarrow> int list" where
  "row_at d [] y = d"
| "row_at d (r # rows) y = row_at (if fst r \<le> y then snd r else d) rows y"

lemma row_at_append: "row_at d (rows @ rows') y = row_at (row_at d rows y) rows' y"
  by (induction rows arbitrary: d) auto

lemma row_at_before: "\<forall>r\<in>set rows. y < fst r \<Longrightarrow> row_at d rows y = d"
  by (induction rows) auto

lemma row_at_after: "\<forall>r\<in>set rows. fst r \<le> y \<Longrightarrow> row_at d rows y = (if rows = [] then d else snd (last rows))"
  by (induction rows arbitrary: d) auto

definition row_ok :: "row \<Rightarrow> bool" where
  "row_ok r \<longleftrightarrow> small (fst r) \<and> segs_ok (snd r)"

text \<open>The segments after the last row, rows that begin a shape, and rows that go on after \<open>s\<close> to the
  end of a shape.\<close>

definition final :: "row list \<Rightarrow> int list" where
  "final rows = last ([] # map snd rows)"

definition begins :: "row list \<Rightarrow> bool" where
  "begins rows \<longleftrightarrow> sorted_wrt (<) (map fst rows) \<and> (\<forall>r\<in>set rows. row_ok r) \<and> distinct_adj ([] # map snd rows)"

definition goes_on :: "int list \<Rightarrow> row list \<Rightarrow> bool" where
  "goes_on s rows \<longleftrightarrow> segs_ok s \<and> sorted_wrt (<) (map fst rows) \<and> (\<forall>r\<in>set rows. row_ok r)
     \<and> distinct_adj (s # map snd rows) \<and> last (s # map snd rows) = []"

definition rows_ok :: "row list \<Rightarrow> bool" where
  "rows_ok rows \<longleftrightarrow> begins rows \<and> final rows = []"

lemma segs_ok_Nil [simp]: "segs_ok []"
  by (simp add: segs_ok_def)

lemma rows_ok_goes_on: "rows_ok rows \<longleftrightarrow> goes_on [] rows"
  by (auto simp: rows_ok_def goes_on_def begins_def final_def)

lemma goes_on_Cons:
  "goes_on s (r # rows) \<longleftrightarrow> segs_ok s \<and> row_ok r \<and> s \<noteq> snd r \<and> (\<forall>r'\<in>set rows. fst r < fst r') \<and> goes_on (snd r) rows"
  by (auto simp: goes_on_def row_ok_def)

lemma goes_on_Nil: "goes_on s [] \<longleftrightarrow> s = []"
  by (auto simp: goes_on_def)

definition put_row :: "int \<Rightarrow> int list \<Rightarrow> row list \<Rightarrow> row list" where
  "put_row y segs rows = (if final rows = segs then rows else rows @ [(y, segs)])"

lemma put_row_append: "segs \<noteq> [] \<or> rows \<noteq> [] \<Longrightarrow> append_row y segs rows = put_row y segs rows"
  by (auto simp: append_row_def put_row_def final_def last_map)

lemma put_row_Nil: "put_row y [] [] = []"
  by (simp add: put_row_def final_def)

lemma final_put_row [simp]: "final (put_row y segs rows) = segs"
  by (auto simp: put_row_def final_def)

lemma row_at_final: "\<forall>r\<in>set rows. fst r \<le> y \<Longrightarrow> row_at [] rows y = final rows"
  by (simp add: row_at_after final_def last_map)

lemma put_row:
  assumes "begins rows" "\<forall>r\<in>set rows. fst r < y" "row_ok (y, segs)"
  shows "begins (put_row y segs rows)" "\<forall>r\<in>set (put_row y segs rows). fst r \<le> y"
    "row_at [] (put_row y segs rows) z = (if y \<le> z then segs else row_at [] rows z)"
proof -
  show "\<forall>r\<in>set (put_row y segs rows). fst r \<le> y" using assms(2) by (auto simp: put_row_def)
  show "begins (put_row y segs rows)"
  proof (cases "final rows = segs")
    case False
    hence "distinct_adj (([] # map snd rows) @ [segs])"
      using assms(1) unfolding distinct_adj_append_iff begins_def final_def by simp
    with assms False show ?thesis by (simp add: begins_def put_row_def sorted_wrt_append)
  qed (use assms(1) in \<open>simp add: put_row_def\<close>)
  show "row_at [] (put_row y segs rows) z = (if y \<le> z then segs else row_at [] rows z)"
  proof (cases "y \<le> z")
    case True
    hence "\<forall>r\<in>set (put_row y segs rows). fst r \<le> z" using assms(2) by (auto simp: put_row_def)
    from row_at_final [OF this] True show ?thesis by simp
  qed (simp add: put_row_def row_at_append)
qed

text \<open>The rows that are left are put after those of the result.\<close>

lemma put_rest:
  assumes "begins res" "goes_on (final res) rows" "\<forall>r\<in>set res. \<forall>r'\<in>set rows. fst r < fst r'"
  shows "\<exists>out. appendSpans rows (pack res) = pack out \<and> begins out \<and> final out = []
    \<and> (\<forall>y. row_at [] out y = (if \<forall>r\<in>set res. fst r \<le> y then row_at (final res) rows y else row_at [] res y))"
  using assms
proof (induction rows arbitrary: res)
  case Nil
  thus ?case using row_at_final by (intro exI [of _ res]) (auto simp: appendSpans_def goes_on_Nil)
next
  case (Cons r rows)
  obtain y0 segs where r: "r = (y0, segs)" by (cases r)
  let ?res = "put_row y0 segs res"
  have g: "final res \<noteq> segs" "row_ok (y0, segs)" "\<forall>r'\<in>set rows. y0 < fst r'" "goes_on segs rows"
    using Cons.prems(2) r by (auto simp: goes_on_Cons)
  have lt: "\<forall>r\<in>set res. fst r < y0" using Cons.prems(3) r by simp
  note p = put_row [OF Cons.prems(1) lt g(2)]
  have "segs \<noteq> [] \<or> res \<noteq> []" using g(1) by (auto simp: final_def)
  hence step: "appendSpans (r # rows) (pack res) = appendSpans rows (pack ?res)"
    by (simp add: appendSpans_def appendSpan_pack put_row_append r)
  have "\<forall>r\<in>set ?res. \<forall>r'\<in>set rows. fst r < fst r'" using p(2) g(3) by fastforce
  then obtain out where out: "appendSpans rows (pack ?res) = pack out" "begins out" "final out = []"
      "\<forall>y. row_at [] out y = (if \<forall>r\<in>set ?res. fst r \<le> y then row_at segs rows y else row_at [] ?res y)"
    using Cons.IH [of ?res] p(1) g(4) by auto
  have "row_at [] out y = (if \<forall>r\<in>set res. fst r \<le> y then row_at (final res) (r # rows) y else row_at [] res y)" for y
  proof (cases "y0 \<le> y")
    case True
    hence "\<forall>r\<in>set ?res. fst r \<le> y" "\<forall>r\<in>set res. fst r \<le> y" using p(2) lt by fastforce+
    with out(4) True r show ?thesis by simp
  next
    case False
    hence late: "\<forall>r'\<in>set rows. y < fst r'" using g(3) by force
    hence "row_at [] out y = row_at [] ?res y"
      using out(4) row_at_final [of ?res y] row_at_before [of rows y segs] by auto
    also have "\<dots> = row_at [] res y" using p(3) False by simp
    finally show ?thesis using False r row_at_before [OF late] row_at_final [of res y] by auto
  qed
  hence all: "\<forall>y. row_at [] out y
      = (if \<forall>r\<in>set res. fst r \<le> y then row_at (final res) (r # rows) y else row_at [] res y)" by blast
  show ?case unfolding step out(1) using out(2,3) all by blast
qed

lemma merge_spans_step:
  assumes "goes_on s1 (r1 # rows1)" "goes_on s2 (r2 # rows2)"
  obtains y s1' s2' rows1' rows2'
  where "\<And>op res. merge_spans op (r1 # rows1) (r2 # rows2) s1 s2 (pack res)
      = merge_spans op rows1' rows2' s1' s2' (pack (put_row y (combine op s1' s2') res))"
    and "goes_on s1' rows1'" "goes_on s2' rows2'" "small y" "\<forall>r\<in>set rows1' \<union> set rows2'. y < fst r"
    and "y = fst r1 \<or> y = fst r2" "\<And>z. y \<le> z \<Longrightarrow> row_at s1 (r1 # rows1) z = row_at s1' rows1' z"
    and "\<And>z. y \<le> z \<Longrightarrow> row_at s2 (r2 # rows2) z = row_at s2' rows2' z"
    and "\<And>z. z < y \<Longrightarrow> row_at s1 (r1 # rows1) z = s1 \<and> row_at s2 (r2 # rows2) z = s2"
    and "length rows1' + length rows2' < length (r1 # rows1) + length (r2 # rows2)"
proof -
  let ?y = "min (fst r1) (fst r2)"
  let ?s1 = "if fst r1 \<le> fst r2 then snd r1 else s1" and ?s2 = "if fst r2 \<le> fst r1 then snd r2 else s2"
  let ?rows1 = "if fst r1 \<le> fst r2 then rows1 else r1 # rows1"
  let ?rows2 = "if fst r2 \<le> fst r1 then rows2 else r2 # rows2"
  have sm: "small (fst r1)" "small (fst r2)" using assms by (auto simp: goes_on_Cons row_ok_def)
  have put: "(if segs \<noteq> [] \<or> \<not> shape_isEmpty (pack res) then appendSpan_segments y' segs (pack res) else pack res)
      = pack (put_row y' segs res)" for y' segs res
    by (cases "segs \<noteq> [] \<or> res \<noteq> []") (auto simp: appendSpan_pack put_row_append put_row_Nil simp flip: pack_Nil)
  have late: "z < fst r1 \<Longrightarrow> row_at d rows1 z = d" "z < fst r2 \<Longrightarrow> row_at d rows2 z = d" for d z
    using assms by (force simp: goes_on_Cons intro!: row_at_before)+
  show thesis
  proof (rule that [of ?rows1 ?rows2 ?s1 ?s2 ?y])
    show "merge_spans op (r1 # rows1) (r2 # rows2) s1 s2 (pack res)
        = merge_spans op ?rows1 ?rows2 ?s1 ?s2 (pack (put_row ?y (combine op ?s1 ?s2) res))" for op res
      unfolding combine_def min.commute [of "fst r1"]
      unfolding merge_spans.simps [of op "r1 # rows1" "r2 # rows2"]
      by (simp only: Let_def put test_sign [OF sm] min_def list.sel list.simps simp_thms if_True)
    show "goes_on ?s1 ?rows1" "goes_on ?s2 ?rows2" "small ?y"
      using assms sm by (auto simp: goes_on_Cons min_def)
    have "\<forall>r\<in>set rows1. fst r1 < fst r" "\<forall>r\<in>set rows2. fst r2 < fst r" using assms by (auto simp: goes_on_Cons)
    thus "\<forall>r\<in>set ?rows1 \<union> set ?rows2. ?y < fst r" by (auto simp: min_def) 
    show "?y = fst r1 \<or> ?y = fst r2" by (simp add: min_def)
    show "?y \<le> z \<Longrightarrow> row_at s1 (r1 # rows1) z = row_at ?s1 ?rows1 z"
      "?y \<le> z \<Longrightarrow> row_at s2 (r2 # rows2) z = row_at ?s2 ?rows2 z"
      "z < ?y \<Longrightarrow> row_at s1 (r1 # rows1) z = s1 \<and> row_at s2 (r2 # rows2) z = s2" for z
      using late by (auto simp: min_def split: if_splits)
  qed auto
qed

definition represents ::
    "operation \<Rightarrow> row list \<Rightarrow> row list \<Rightarrow> int list \<Rightarrow> int list \<Rightarrow> row list \<Rightarrow> row list \<Rightarrow> bool" where
  "represents op rows1 rows2 s1 s2 res out \<longleftrightarrow> rows_ok out
    \<and> (\<forall>x y. in_segs (row_at [] out y) x \<longleftrightarrow>
         (if \<forall>r\<in>set res. fst r \<le> y then op_in op (in_segs (row_at s1 rows1 y) x) (in_segs (row_at s2 rows2 y) x)
          else in_segs (row_at [] res y) x))"

lemma merge_spans_end:
  assumes "shape_op op" "goes_on s1 rows1" "goes_on s2 rows2" "begins res" "rows1 = [] \<or> rows2 = []"
    and "final res = combine op s1 s2" "\<forall>r\<in>set res. \<forall>r'\<in>set rows1 \<union> set rows2. fst r < fst r'"
  shows "\<exists>out. merge_spans op rows1 rows2 s1 s2 (pack res) = pack out \<and> represents op rows1 rows2 s1 s2 res out"
proof -
  have stay: ?thesis if "final res = []" "\<forall>x y. \<not> op_in op (in_segs (row_at s1 rows1 y) x) (in_segs (row_at s2 rows2 y) x)"
    "merge_spans op rows1 rows2 s1 s2 (pack res) = pack res"
    using that assms(4) row_at_final [of res]
    by (intro exI [of _ res]) (auto simp: represents_def rows_ok_def)
  have rest: ?thesis if "goes_on (final res) rows" "\<forall>r\<in>set res. \<forall>r'\<in>set rows. fst r < fst r'"
    "merge_spans op rows1 rows2 s1 s2 (pack res) = appendSpans rows (pack res)"
    "\<forall>x y. op_in op (in_segs (row_at s1 rows1 y) x) (in_segs (row_at s2 rows2 y) x) = in_segs (row_at (final res) rows y) x"
    for rows
  proof -
    note t = that
    obtain out where "appendSpans rows (pack res) = pack out" "begins out" "final out = []"
        "\<forall>y. row_at [] out y = (if \<forall>r\<in>set res. fst r \<le> y then row_at (final res) rows y else row_at [] res y)"
      using put_rest [OF assms(4) t(1,2)] by blast
    with t(3,4) show ?thesis by (intro exI [of _ out]) (simp add: represents_def rows_ok_def)
  qed
  have nil: "rows1 = [] \<Longrightarrow> s1 = []" "rows2 = [] \<Longrightarrow> s2 = []" using assms(2,3) by (auto simp: goes_on_Nil)
  note c = combine_Nil [OF assms(1)]
  note ms = merge_spans.simps [of op rows1 rows2 s1 s2 "pack res"]
  from assms(1) show ?thesis
  proof (cases rule: shape_op_cases)
    case 1
    consider "rows1 \<noteq> []" "rows2 = []" | "rows1 = []" "rows2 \<noteq> []" | "rows1 = []" "rows2 = []" using assms(5) by blast
    thus ?thesis
    proof cases
      case 1
      show ?thesis by (rule rest [of rows1]) (use \<open>op = _\<close> \<open>op_segments1 op\<close> \<open>op_spans1 op\<close> 1 nil c assms(2,6,7) ms in auto)
    next
      case 2
      show ?thesis by (rule rest [of rows2]) (use \<open>op = _\<close> \<open>op_segments2 op\<close> \<open>op_spans2 op\<close> 2 nil c assms(3,6,7) ms in auto)
    next
      case 3
      show ?thesis by (rule stay) (use \<open>op = _\<close> 3 nil c assms(6) ms in auto)
    qed
  next
    case 2
    show ?thesis by (rule stay) (use 2 nil c assms(5,6) ms in auto)
  next
    case 3
    show ?thesis
    proof (cases "rows1 = []")
      case True
      show ?thesis by (rule stay) (use 3 True nil c assms(6) ms in auto)
    next
      case False
      show ?thesis by (rule rest [of rows1]) (use 3 False nil c assms(2,5,6,7) ms in auto)
    qed
  qed
qed

lemma merge_spans_ok:
  assumes "shape_op op" "goes_on s1 rows1" "goes_on s2 rows2" "begins res"
    and "final res = combine op s1 s2" "\<forall>r\<in>set res. \<forall>r'\<in>set rows1 \<union> set rows2. fst r < fst r'"
  shows "\<exists>out. merge_spans op rows1 rows2 s1 s2 (pack res) = pack out \<and> represents op rows1 rows2 s1 s2 res out"
  using assms(2-)
proof (induction "length rows1 + length rows2" arbitrary: rows1 rows2 s1 s2 res rule: less_induct)
  case less
  show ?case
  proof (cases "rows1 = [] \<or> rows2 = []")
    case True
    show ?thesis by (rule merge_spans_end [OF assms(1) less.prems(1-3) True less.prems(4,5)])
  next
    case False
    then obtain r1 t1 r2 t2 where r: "rows1 = r1 # t1" "rows2 = r2 # t2" by (auto simp: neq_Nil_conv)
    show ?thesis
    proof (rule merge_spans_step [OF less.prems(1) [unfolded r] less.prems(2) [unfolded r], folded r], goal_cases)
      case st: (1 y0 s1' s2' rows1' rows2')
      let ?segs = "combine op s1' s2'" and ?res = "put_row y0 (combine op s1' s2') res"
      have segs: "segs_ok s1'" "segs_ok s2'" "segs_ok s1" "segs_ok s2"
        using st(2,3) less.prems(1,2) by (simp_all add: goes_on_def)
      have lt: "\<forall>r\<in>set res. fst r < y0" using less.prems(5) r st(6) by auto
      have "row_ok (y0, ?segs)" using st(4) combine_ok(1) [OF assms(1) segs(1,2)] by (simp add: row_ok_def)
      note p = put_row [OF less.prems(3) lt this]
      have below: "\<forall>r\<in>set ?res. \<forall>r'\<in>set rows1' \<union> set rows2'. fst r < fst r'"
        using p(2) st(5) by (meson order.strict_trans1)
      obtain out where out: "merge_spans op rows1' rows2' s1' s2' (pack ?res) = pack out"
          "represents op rows1' rows2' s1' s2' ?res out"
        using less.hyps [OF st(10,2,3) p(1) final_put_row below] by blast
      have "in_segs (row_at [] out y) x \<longleftrightarrow>
          (if \<forall>r\<in>set res. fst r \<le> y then op_in op (in_segs (row_at s1 rows1 y) x) (in_segs (row_at s2 rows2 y) x)
           else in_segs (row_at [] res y) x)" for x y
      proof (cases "y0 \<le> y")
        case True
        have "\<forall>r\<in>set ?res. fst r \<le> y" "\<forall>r\<in>set res. fst r \<le> y" using p(2) lt True by fastforce+
        with out(2) st(7,8) [OF True] show ?thesis by (simp add: represents_def)
      next
        case no: False
        have "row_at s1' rows1' y = s1'" "row_at s2' rows2' y = s2'" using st(5) no by (force intro!: row_at_before)+
        hence "in_segs (row_at [] out y) x \<longleftrightarrow> in_segs (row_at [] ?res y) x"
          using out(2) combine_ok(2) [OF assms(1) segs(1,2), of x] row_at_final [of ?res y]
          by (cases "\<forall>r\<in>set ?res. fst r \<le> y") (auto simp: represents_def)
        moreover have "row_at [] ?res y = row_at [] res y" using p(3) no by simp
        moreover have "in_segs (final res) x \<longleftrightarrow> op_in op (in_segs s1 x) (in_segs s2 x)"
          unfolding less.prems(4) by (rule combine_ok(2) [OF assms(1) segs(3,4)])
        ultimately show ?thesis using st(9) [of y] no row_at_final [of res y] by auto
      qed
      hence "represents op rows1 rows2 s1 s2 res out" using out(2) unfolding represents_def by blast
      with out(1) st(1) show ?case by metis
    qed
  qed
qed

subsection \<open>The shape operations\<close>

definition shape_ok :: "shape \<Rightarrow> bool" where
  "shape_ok s \<longleftrightarrow> s = pack (shape_rows s) \<and> rows_ok (shape_rows s)"

definition covers :: "shape \<Rightarrow> int \<Rightarrow> int \<Rightarrow> bool" where
  "covers s x y \<longleftrightarrow> in_segs (row_at [] (shape_rows s) y) x"

lemma shape_ok_pack [simp]: "shape_ok (pack rows) \<longleftrightarrow> rows_ok rows"
  by (simp add: shape_ok_def)

lemma rows_ok_Nil [simp]: "rows_ok []"
  by (simp add: rows_ok_goes_on goes_on_Nil)

lemma shape_ok_Shape [simp]: "shape_ok Shape" "\<not> covers Shape x y"
  using shape_ok_pack [of "[]"] shape_rows_pack [of "[]"] by (simp_all add: covers_def)

lemma shapeOperation_ok:
  assumes "shape_op op" "shape_ok s1" "shape_ok s2"
  shows "shape_ok (shapeOperation op s1 s2)"
    and "covers (shapeOperation op s1 s2) x y \<longleftrightarrow> op_in op (covers s1 x y) (covers s2 x y)"
proof -
  obtain out where out: "merge_spans op (shape_rows s1) (shape_rows s2) [] [] Shape = pack out"
      "represents op (shape_rows s1) (shape_rows s2) [] [] [] out"
    using merge_spans_ok [OF assms(1), of "[]" "shape_rows s1" "[]" "shape_rows s2" "[]"] assms
    by (auto simp: shape_ok_def rows_ok_goes_on begins_def final_def combine_Nil)
  have "shape_ok (shapeOperation op s1 s2)
    \<and> (covers (shapeOperation op s1 s2) x y \<longleftrightarrow> op_in op (covers s1 x y) (covers s2 x y))"
  proof (cases "op_trySimple op s1 s2")
    case None
    with out show ?thesis by (simp add: shapeOperation_def represents_def covers_def)
  next
    case (Some s)
    with assms(1) have "op = UnionOperation" "sh_spans s1 = []" "s = s2"
      by (auto simp: shape_op_def UnionOperation_def IntersectOperation_def SubtractOperation_def
          shape_isEmpty_def split: if_splits)
    with Some assms(3) show ?thesis by (simp add: shapeOperation_def covers_def shape_rows_def)
  qed
  thus "shape_ok (shapeOperation op s1 s2)"
    "covers (shapeOperation op s1 s2) x y \<longleftrightarrow> op_in op (covers s1 x y) (covers s2 x y)" by auto
qed

lemma shape_algebra:
  assumes "shape_ok s1" "shape_ok s2"
  shows "shape_ok (unionShapes s1 s2)" "covers (unionShapes s1 s2) x y \<longleftrightarrow> covers s1 x y \<or> covers s2 x y"
    and "shape_ok (intersectShapes s1 s2)" "covers (intersectShapes s1 s2) x y \<longleftrightarrow> covers s1 x y \<and> covers s2 x y"
    and "shape_ok (subtractShapes s1 s2)" "covers (subtractShapes s1 s2) x y \<longleftrightarrow> covers s1 x y \<and> \<not> covers s2 x y"
  using shapeOperation_ok [OF _ assms, of UnionOperation] shapeOperation_ok [OF _ assms, of IntersectOperation]
    shapeOperation_ok [OF _ assms, of SubtractOperation]
  by (simp_all add: shape_op_def unionShapes_def intersectShapes_def subtractShapes_def)

end
