(* ===== verification/Region_Compare.thy ===== *)
theory Region_Compare
  imports Region_Shape
begin

text \<open>
  What \<^verbatim>\<open>Region::Shape::compareShapes\<close> decides: with \<^verbatim>\<open>CompareContainsOperation\<close>, that every point of the
  second shape is in the first; with \<^verbatim>\<open>CompareIntersectsOperation\<close>, that they share a point.
\<close>

subsection \<open>Two rows of segments\<close>

lemma segs_ok_pair:
  "segs_ok (a # a' # t) \<longleftrightarrow> a < a' \<and> small a \<and> small a' \<and> (\<forall>s\<in>set t. a' < s) \<and> segs_ok t"
  by (auto simp: segs_ok_def)

lemma segs_ok_single [simp]: "\<not> segs_ok [a]"
  by (simp add: segs_ok_def)

lemma segs_ok_cases [consumes 1]:
  assumes "segs_ok s"
  obtains "s = []" | a a' t where "s = a # a' # t" "a < a'" "\<forall>c\<in>set t. a' < c" "segs_ok t"
proof (cases s)
  case (Cons a t)
  thus thesis using assms that(2) by (cases t) (auto simp: segs_ok_pair)
qed (use that in blast)

lemma in_segs_pair:
  assumes "a < a'" "\<forall>c\<in>set t. a' < c"
  shows "in_segs (a # a' # t) x \<longleftrightarrow> a \<le> x \<and> x < a' \<or> in_segs t x" "in_segs t x \<Longrightarrow> a' < x"
proof -
  show late: "in_segs t x \<Longrightarrow> a' < x" using assms in_segs_before [of t x] by fastforce
  show "in_segs (a # a' # t) x \<longleftrightarrow> a \<le> x \<and> x < a' \<or> in_segs t x" using assms(1) late by auto
qed

lemma segs_nonempty:
  assumes "segs_ok s"
  shows "s = [] \<longleftrightarrow> (\<forall>x. \<not> in_segs s x)"
  using assms
proof (cases rule: segs_ok_cases)
  case (2 a a' t)
  hence "in_segs s a" using in_segs_pair(1) [of a a' t a] by (simp only: simp_thms order_refl)
  with 2 show ?thesis by blast
qed simp

lemma compare_ops [simp]:
  "co_defaultResult CompareContainsOperation" "co_aOutsideB CompareContainsOperation = None"
  "co_bOutsideA CompareContainsOperation = Some False" "co_aOverlapsB CompareContainsOperation = None"
  "\<not> co_defaultResult CompareIntersectsOperation" "co_aOutsideB CompareIntersectsOperation = None"
  "co_bOutsideA CompareIntersectsOperation = None" "co_aOverlapsB CompareIntersectsOperation = Some True"
  by (simp_all add: CompareContainsOperation_def CompareIntersectsOperation_def)

lemma compare_segments_intersects:
  assumes "segs_ok a" "segs_ok b"
  shows "compare_segments CompareIntersectsOperation a b = (if \<exists>x. in_segs a x \<and> in_segs b x then Some True else None)"
  using assms
proof (induction "length a + length b" arbitrary: a b rule: less_induct)
  case less
  note IH = less.hyps
  show ?case
  proof (cases "a = [] \<or> b = []")
    case True
    thus ?thesis by (subst compare_segments.simps) (auto split: list.split)
  next
    case False
    obtain aX aM ta where a: "a = aX # aM # ta" "aX < aM" "\<forall>c\<in>set ta. aM < c" "segs_ok ta"
      using less.prems(1) False by (cases rule: segs_ok_cases) auto
    obtain bX bM tb where b: "b = bX # bM # tb" "bX < bM" "\<forall>c\<in>set tb. bM < c" "segs_ok tb"
      using less.prems(2) False by (cases rule: segs_ok_cases) auto
    note pa = in_segs_pair [OF a(2,3), folded a(1)] and pb = in_segs_pair [OF b(2,3), folded b(1)]
    have unf: "compare_segments CompareIntersectsOperation a b =
      (if bM > aX \<and> bX < aM then Some True
       else if aM < bM then compare_segments CompareIntersectsOperation ta b
       else if bM < aM then compare_segments CompareIntersectsOperation a tb
       else compare_segments CompareIntersectsOperation ta tb)"
      unfolding a(1) b(1) by (subst compare_segments.simps) simp
    consider "bM > aX \<and> bX < aM" | "\<not> (bM > aX \<and> bX < aM)" "aM < bM" | "\<not> (bM > aX \<and> bX < aM)" "bM < aM"
      | "\<not> (bM > aX \<and> bX < aM)" "bM = aM" by linarith
    thus ?thesis
    proof cases
      case 1
      hence "in_segs a (max aX bX) \<and> in_segs b (max aX bX)" using pa(1) pb(1) a(2) b(2) by auto
      with 1 unf show ?thesis by auto
    next
      case 2
      have "in_segs a x \<and> in_segs b x \<longleftrightarrow> in_segs ta x \<and> in_segs b x" for x
        using 2 pa [of x] pb [of x] by linarith
      with 2 unf IH [of ta b] a b less.prems(2) show ?thesis by simp
    next
      case 3
      have "in_segs a x \<and> in_segs b x \<longleftrightarrow> in_segs a x \<and> in_segs tb x" for x
        using 3 pa [of x] pb [of x] by linarith
      with 3 unf IH [of a tb] a b less.prems(1) show ?thesis by simp
    next
      case 4
      thus ?thesis using a(2) b(2) by linarith
    qed
  qed
qed

lemma compare_segments_contains:
  assumes "segs_ok a" "segs_ok b"
  shows "compare_segments CompareContainsOperation a b = (if \<exists>x. in_segs b x \<and> \<not> in_segs a x then Some False else None)"
  using assms
proof (induction "length a + length b" arbitrary: a b rule: less_induct)
  case less
  note IH = less.hyps
  show ?case
  proof (cases "a = [] \<or> b = []")
    case True
    have "compare_segments CompareContainsOperation a b = (if b \<noteq> [] then Some False else None)"
      using True by (subst compare_segments.simps) (auto split: list.split)
    with True segs_nonempty [OF less.prems(2)] show ?thesis by auto
  next
    case False
    obtain aX aM ta where a: "a = aX # aM # ta" "aX < aM" "\<forall>c\<in>set ta. aM < c" "segs_ok ta"
      using less.prems(1) False by (cases rule: segs_ok_cases) auto
    obtain bX bM tb where b: "b = bX # bM # tb" "bX < bM" "\<forall>c\<in>set tb. bM < c" "segs_ok tb"
      using less.prems(2) False by (cases rule: segs_ok_cases) auto
    note pa = in_segs_pair [OF a(2,3), folded a(1)] and pb = in_segs_pair [OF b(2,3), folded b(1)]
    have unf: "compare_segments CompareContainsOperation a b =
      (if bX < aX then Some False
       else if aM < bM then compare_segments CompareContainsOperation ta b
       else if bM < aM then compare_segments CompareContainsOperation a tb
       else compare_segments CompareContainsOperation ta tb)"
      unfolding a(1) b(1) by (subst compare_segments.simps) simp
    consider "bX < aX" | "aX \<le> bX" "aM < bM" | "aX \<le> bX" "bM < aM" | "aX \<le> bX" "bM = aM" by linarith
    thus ?thesis
    proof cases
      case 1
      hence "in_segs b bX \<and> \<not> in_segs a bX" using pa [of bX] pb(1) [of bX] a(2) b(2) by auto
      with 1 unf show ?thesis by auto
    next
      case 2
      have "(\<exists>x. in_segs b x \<and> \<not> in_segs a x) \<longleftrightarrow> (\<exists>x. in_segs b x \<and> \<not> in_segs ta x)"
      proof (cases "bX < aM")
        case True
        hence "in_segs b aM \<and> \<not> in_segs a aM \<and> \<not> in_segs ta aM" using pa [of aM] pb(1) [of aM] 2 by linarith
        thus ?thesis by blast
      next
        case False
        have "in_segs b x \<and> \<not> in_segs a x \<longleftrightarrow> in_segs b x \<and> \<not> in_segs ta x" for x
          using False 2 b(2) pa [of x] pb [of x] by linarith
        thus ?thesis by simp
      qed
      with 2 unf IH [of ta b] a b less.prems(2) show ?thesis by simp
    next
      case 3
      have "in_segs b x \<and> \<not> in_segs a x \<longleftrightarrow> in_segs tb x \<and> \<not> in_segs a x" for x
        using 3 pa [of x] pb [of x] by linarith
      with 3 unf IH [of a tb] a b less.prems(1) show ?thesis by simp
    next
      case 4
      have "in_segs b x \<and> \<not> in_segs a x \<longleftrightarrow> in_segs tb x \<and> \<not> in_segs ta x" for x
        using 4 pa [of x] pb [of x] by linarith
      with 4 unf IH [of ta tb] a b show ?thesis by simp
    qed
  qed
qed

subsection \<open>Two lists of rows\<close>

text \<open>Whether the rows have a point, and what the first two say of a height.\<close>

abbreviation in_rows :: "row list \<Rightarrow> int \<Rightarrow> int \<Rightarrow> bool" where
  "in_rows rows x y \<equiv> in_segs (row_at [] rows y) x"

lemma in_rows_step:
  assumes "goes_on s ((y0, s0) # (y1, s1) # rows)"
  shows "in_rows ((y0, s0) # (y1, s1) # rows) x y \<longleftrightarrow>
      (y0 \<le> y \<and> y < y1 \<and> in_segs s0 x \<or> in_rows ((y1, s1) # rows) x y)"
    and "in_rows ((y1, s1) # rows) x y \<Longrightarrow> y1 \<le> y"
    and "y0 < y1" "segs_ok s0" "goes_on s0 ((y1, s1) # rows)"
proof -
  show g: "y0 < y1" "segs_ok s0" "goes_on s0 ((y1, s1) # rows)" using assms by (auto simp: goes_on_Cons)
  have late: "y < y1 \<Longrightarrow> row_at d rows y = d" for d using g(3) by (force simp: goes_on_Cons intro!: row_at_before)
  thus "in_rows ((y1, s1) # rows) x y \<Longrightarrow> y1 \<le> y" by (cases "y1 \<le> y") auto
  show "in_rows ((y0, s0) # (y1, s1) # rows) x y \<longleftrightarrow>
      (y0 \<le> y \<and> y < y1 \<and> in_segs s0 x \<or> in_rows ((y1, s1) # rows) x y)"
    using late g(1) by auto
qed

lemma in_rows_short: "\<lbrakk>goes_on s rows; length rows < 2\<rbrakk> \<Longrightarrow> \<not> in_rows rows x y"
  by (cases rows) (auto simp: goes_on_Cons goes_on_Nil)

lemma rows_cases [consumes 1]:
  assumes "goes_on s rows"
  obtains "length rows < 2" | y0 s0 y1 s1 rows' where "rows = (y0, s0) # (y1, s1) # rows'"
proof (cases rows)
  case (Cons r t)
  thus thesis using that by (cases r; cases t) auto
qed (use that in simp)

lemma compare_spans_short:
  assumes "length A < 2 \<or> length B < 2"
  shows "compare_spans op aHad bHad A B =
    (if 2 \<le> length A \<and> co_aOutsideB op \<noteq> None then the (co_aOutsideB op)
     else if 2 \<le> length B \<and> co_bOutsideA op \<noteq> None then the (co_bOutsideA op)
     else co_defaultResult op)"
  using assms by (subst compare_spans.simps) (auto split: list.split)

lemma compare_spans_intersects:
  assumes "goes_on sa A" "goes_on sb B"
  shows "compare_spans CompareIntersectsOperation aHad bHad A B \<longleftrightarrow> (\<exists>x y. in_rows A x y \<and> in_rows B x y)"
  using assms
proof (induction "length A + length B" arbitrary: A B sa sb aHad bHad rule: less_induct)
  case less
  note IH = less.hyps
  consider "length A < 2 \<or> length B < 2"
    | aY aS aM aN a bY bS bM bN b where "A = (aY, aS) # (aM, aN) # a" "B = (bY, bS) # (bM, bN) # b"
    using rows_cases [OF less.prems(1)] rows_cases [OF less.prems(2)] by metis
  thus ?case
  proof cases
    case 1
    thus ?thesis using in_rows_short [OF less.prems(1)] in_rows_short [OF less.prems(2)]
      by (auto simp: compare_spans_short)
  next
    case 2
    let ?A = "(aM, aN) # a" and ?B = "(bM, bN) # b"
    let ?go = "compare_spans CompareIntersectsOperation (aS \<noteq> []) (bS \<noteq> [])"
    note ra = in_rows_step [OF less.prems(1) [unfolded 2], folded 2]
      and rb = in_rows_step [OF less.prems(2) [unfolded 2], folded 2]
    have unf: "compare_spans CompareIntersectsOperation aHad bHad A B \<longleftrightarrow>
      (if bM > aY \<and> bY < aM \<and> (\<exists>x. in_segs aS x \<and> in_segs bS x) then True
       else if aM < bM then ?go ?A B else if bM < aM then ?go A ?B else ?go ?A ?B)"
      unfolding 2 by (subst compare_spans.simps)
        (auto simp: Let_def compare_segments_intersects [OF ra(4) rb(4)])
    show ?thesis
    proof (cases "bM > aY \<and> bY < aM \<and> (\<exists>x. in_segs aS x \<and> in_segs bS x)")
      case True
      then obtain x where "in_segs aS x" "in_segs bS x" by blast
      hence "in_rows A x (max aY bY) \<and> in_rows B x (max aY bY)" using True ra(1,3) rb(1,3) by auto
      with True unf show ?thesis by metis
    next
      case False
      hence no: "aY < bM \<Longrightarrow> bY < aM \<Longrightarrow> \<not> (in_segs aS x \<and> in_segs bS x)" for x by blast
      consider "aM < bM" | "bM < aM" | "aM = bM" by linarith
      thus ?thesis
      proof cases
        case lt: 1
        have "in_rows A x y \<and> in_rows B x y \<longleftrightarrow> in_rows ?A x y \<and> in_rows B x y" for x y
          using no [of x] lt ra(1,2) [of y x] rb(1,2) [of y x] rb(3) ra(3) by linarith
        moreover have "?go ?A B \<longleftrightarrow> (\<exists>x y. in_rows ?A x y \<and> in_rows B x y)"
          by (rule IH [OF _ ra(5) less.prems(2)]) (simp add: 2)
        ultimately show ?thesis using lt unfolding unf if_not_P [OF False] by simp
      next
        case lt: 2
        have "in_rows A x y \<and> in_rows B x y \<longleftrightarrow> in_rows A x y \<and> in_rows ?B x y" for x y
          using no [of x] lt ra(1,2) [of y x] rb(1,2) [of y x] rb(3) ra(3) by linarith
        moreover have "?go A ?B \<longleftrightarrow> (\<exists>x y. in_rows A x y \<and> in_rows ?B x y)"
          by (rule IH [OF _ less.prems(1) rb(5)]) (simp add: 2)
        ultimately show ?thesis using lt unfolding unf if_not_P [OF False] by simp
      next
        case lt: 3
        have "in_rows A x y \<and> in_rows B x y \<longleftrightarrow> in_rows ?A x y \<and> in_rows ?B x y" for x y
          using no [of x] lt ra(1,2) [of y x] rb(1,2) [of y x] rb(3) ra(3) by linarith
        moreover have "?go ?A ?B \<longleftrightarrow> (\<exists>x y. in_rows ?A x y \<and> in_rows ?B x y)"
          by (rule IH [OF _ ra(5) rb(5)]) (simp add: 2)
        ultimately show ?thesis using lt unfolding unf if_not_P [OF False] by simp
      qed
    qed
  qed
qed

text \<open>
  While the first shape is compared from a row on, the rows of the second that lie above it have been
  dealt with: only what is at or below the row counts. The flag says that the row before was compared
  with the current row of the second shape.
\<close>

lemma rows_have_point:
  assumes "goes_on s ((bY, bS) # (bM, bN) # b)" "aY < bM"
  shows "\<exists>x y. aY \<le> y \<and> in_rows ((bY, bS) # (bM, bN) # b) x y"
proof (cases "bS = []")
  case False
  then obtain x where "in_segs bS x" using segs_nonempty [OF in_rows_step(4) [OF assms(1)]] by blast
  hence "in_rows ((bY, bS) # (bM, bN) # b) x (max aY bY)"
    unfolding in_rows_step(1) [OF assms(1)] using in_rows_step(3) [OF assms(1)] assms(2) by simp
  thus ?thesis by (intro exI [of _ x] exI [of _ "max aY bY"]) simp
next
  case True
  have g: "goes_on bS ((bM, bN) # b)" by (rule in_rows_step(5) [OF assms(1)])
  hence "bN \<noteq> []" using True by (auto simp: goes_on_Cons)
  moreover have "segs_ok bN" "\<forall>r\<in>set b. bM < fst r" using g by (auto simp: goes_on_Cons row_ok_def)
  ultimately obtain x where "in_segs bN x" "row_at bN b bM = bN" using segs_nonempty row_at_before by metis
  hence "in_rows ((bM, bN) # b) x bM" by simp
  hence "in_rows ((bY, bS) # (bM, bN) # b) x bM" unfolding in_rows_step(1) [OF assms(1)] by simp
  thus ?thesis using assms(2) by (intro exI [of _ x] exI [of _ bM]) simp
qed

lemma compare_spans_contains:
  assumes "goes_on sa ((aY, aS) # A)" "goes_on sb ((bY, bS) # B)"
    and "B \<noteq> [] \<Longrightarrow> aY < fst (hd B)" "bY < aY \<Longrightarrow> aHad \<or> bS = []"
  shows "compare_spans CompareContainsOperation aHad bHad ((aY, aS) # A) ((bY, bS) # B) \<longleftrightarrow>
    (\<forall>x y. aY \<le> y \<longrightarrow> in_rows ((bY, bS) # B) x y \<longrightarrow> in_rows ((aY, aS) # A) x y)"
  using assms
proof (induction "length A + length B" arbitrary: aY aS A bY bS B sa sb aHad bHad rule: less_induct)
  case less
  note IH = less.hyps
  consider "B = []" | "A = []" "B \<noteq> []" | aM aN a bM bN b where "A = (aM, aN) # a" "B = (bM, bN) # b"
    by (cases A; cases B) auto
  thus ?case
  proof cases
    case 1
    thus ?thesis using less.prems(2) by (simp add: compare_spans_short goes_on_Cons goes_on_Nil)
  next
    case 2
    then obtain bM bN b where B: "B = (bM, bN) # b" by (cases B) auto
    have "aS = []" using less.prems(1) 2 by (simp add: goes_on_Cons goes_on_Nil)
    moreover obtain x y where "aY \<le> y" "in_rows ((bY, bS) # B) x y"
      using rows_have_point [OF less.prems(2) [unfolded B], of aY, folded B] less.prems(3) B
      by (auto simp del: row_at.simps)
    ultimately show ?thesis using 2 B by (simp add: compare_spans_short del: row_at.simps(2)) force
  next
    case 3
    let ?go = "compare_spans CompareContainsOperation (aS \<noteq> []) (bS \<noteq> [])"
    note ra = in_rows_step [OF less.prems(1) [unfolded 3], folded 3]
      and rb = in_rows_step [OF less.prems(2) [unfolded 3], folded 3]
    have lt: "aY < bM" using less.prems(3) 3 by simp
    have unf: "compare_spans CompareContainsOperation aHad bHad ((aY, aS) # A) ((bY, bS) # B) \<longleftrightarrow>
      (if bY < aM \<and> (\<exists>x. in_segs bS x \<and> \<not> in_segs aS x) then False
       else if aM < bM then ?go A ((bY, bS) # B) else if bM < aM then ?go ((aY, aS) # A) B else ?go A B)"
      unfolding 3 using lt less.prems(4) by (subst compare_spans.simps)
        (auto simp: Let_def compare_segments_contains [OF ra(4) rb(4)])
    show ?thesis
    proof (cases "bY < aM \<and> (\<exists>x. in_segs bS x \<and> \<not> in_segs aS x)")
      case True
      then obtain x where "in_segs bS x" "\<not> in_segs aS x" by blast
      hence "in_rows ((bY, bS) # B) x (max aY bY) \<and> \<not> in_rows ((aY, aS) # A) x (max aY bY)"
        using True lt ra(1,2) [of "max aY bY" x] ra(3) rb(1,3) by (auto simp del: row_at.simps)
      moreover have "aY \<le> max aY bY" by simp
      ultimately show ?thesis using True unf by meson
    next
      case False
      have sub: "bY < aM \<Longrightarrow> in_segs bS x \<Longrightarrow> in_segs aS x" for x using False by blast
      consider "aM < bM" | "bM < aM" | "aM = bM" by linarith
      thus ?thesis
      proof cases
        case c: 1
        have "aY \<le> y \<and> in_rows ((bY, bS) # B) x y \<and> \<not> in_rows ((aY, aS) # A) x y
            \<longleftrightarrow> aM \<le> y \<and> in_rows ((bY, bS) # B) x y \<and> \<not> in_rows A x y" for x y
          using c ra(1,2) [of y x] rb(1,2) [of y x] ra(3) rb(3) sub [of x] 3 by linarith
        moreover have "bY < aM \<Longrightarrow> aS \<noteq> [] \<or> bS = []" using sub segs_nonempty [OF rb(4)] by fastforce
        hence "?go A ((bY, bS) # B) \<longleftrightarrow> (\<forall>x y. aM \<le> y \<longrightarrow> in_rows ((bY, bS) # B) x y \<longrightarrow> in_rows A x y)"
          unfolding 3 by (intro IH [OF _ ra(5) [unfolded 3] less.prems(2) [unfolded 3]]) (use c 3 in auto)
        ultimately show ?thesis using c unfolding unf if_not_P [OF False] by (simp only: if_True) blast
      next
        case c: 2
        have "aY \<le> y \<and> in_rows ((bY, bS) # B) x y \<and> \<not> in_rows ((aY, aS) # A) x y
            \<longleftrightarrow> aY \<le> y \<and> in_rows B x y \<and> \<not> in_rows ((aY, aS) # A) x y" for x y
          using c ra(1,2) [of y x] rb(1,2) [of y x] ra(3) rb(3) sub [of x] 3 by linarith
        moreover have "b \<noteq> [] \<Longrightarrow> aY < fst (hd b)" using rb(5) [unfolded 3] lt by (cases b) (auto simp: goes_on_Cons)
        hence "?go ((aY, aS) # A) B \<longleftrightarrow> (\<forall>x y. aY \<le> y \<longrightarrow> in_rows B x y \<longrightarrow> in_rows ((aY, aS) # A) x y)"
          unfolding 3 by (intro IH [OF _ less.prems(1) [unfolded 3] rb(5) [unfolded 3]]) (use c lt 3 in auto)
        moreover have n: "\<not> aM < bM" using c by simp
        ultimately show ?thesis using c unfolding unf if_not_P [OF False] if_not_P [OF n] by (simp only: if_True) blast
      next
        case c: 3
        have "aY \<le> y \<and> in_rows ((bY, bS) # B) x y \<and> \<not> in_rows ((aY, aS) # A) x y
            \<longleftrightarrow> aM \<le> y \<and> in_rows B x y \<and> \<not> in_rows A x y" for x y
          using c ra(1,2) [of y x] rb(1,2) [of y x] ra(3) rb(3) sub [of x] 3 by linarith
        moreover have "b \<noteq> [] \<Longrightarrow> aM < fst (hd b)" using rb(5) [unfolded 3] c by (cases b) (auto simp: goes_on_Cons)
        hence "?go A B \<longleftrightarrow> (\<forall>x y. aM \<le> y \<longrightarrow> in_rows B x y \<longrightarrow> in_rows A x y)"
          unfolding 3 by (intro IH [OF _ ra(5) [unfolded 3] rb(5) [unfolded 3]]) (use c 3 in auto)
        ultimately show ?thesis using c unfolding unf if_not_P [OF False] by (simp only: if_False less_irrefl) blast
      qed
    qed
  qed
qed

subsection \<open>The comparisons of shapes\<close>

lemma compareShapes_intersects:
  assumes "shape_ok a" "shape_ok b"
  shows "compareShapes CompareIntersectsOperation a b \<longleftrightarrow> (\<exists>x y. covers a x y \<and> covers b x y)"
  using assms compare_spans_intersects
  unfolding shape_ok_def compareShapes_def covers_def rows_ok_goes_on by blast

lemma compareShapes_contains:
  assumes "shape_ok a" "shape_ok b"
  shows "compareShapes CompareContainsOperation a b \<longleftrightarrow> (\<forall>x y. covers b x y \<longrightarrow> covers a x y)"
proof -
  have g: "goes_on [] (shape_rows a)" "goes_on [] (shape_rows b)"
    using assms by (simp_all add: shape_ok_def rows_ok_goes_on)
  consider "shape_rows b = []" | "shape_rows a = []" "shape_rows b \<noteq> []"
    | aY aS A bY bS B where "shape_rows a = (aY, aS) # A" "shape_rows b = (bY, bS) # B" by (cases "shape_rows a"; cases "shape_rows b") auto
  thus ?thesis
  proof cases
    case 1
    thus ?thesis by (simp add: compareShapes_def covers_def compare_spans_short)
  next
    case 2
    then obtain bY bS B where b: "shape_rows b = (bY, bS) # B" by (cases "shape_rows b") auto
    with g(2) obtain bM bN b' where B: "B = (bM, bN) # b'" by (cases B) (auto simp: goes_on_Cons goes_on_Nil)
    obtain x y where "in_rows (shape_rows b) x y"
      using rows_have_point [OF g(2) [unfolded b B], of "bM - 1"] unfolding b B by auto
    moreover have "\<not> compareShapes CompareContainsOperation a b"
      using 2 b B by (simp add: compareShapes_def compare_spans_short)
    ultimately show ?thesis using 2 unfolding covers_def by auto
  next
    case 3
    have bS: "bS \<noteq> []" "segs_ok bS" using g(2) 3 by (auto simp: goes_on_Cons row_ok_def)
    with g(2) 3 obtain bM bN b' where B: "B = (bM, bN) # b'" by (cases B) (auto simp: goes_on_Cons goes_on_Nil)
    show ?thesis
    proof (cases "bY < aY")
      case True
      with g(1) 3 obtain aM aN a' where A: "A = (aM, aN) # a'" by (cases A) (auto simp: goes_on_Cons goes_on_Nil)
      obtain x where "in_segs bS x" using bS segs_nonempty by blast
      hence "in_rows (shape_rows b) x bY" using in_rows_step(1,3) [OF g(2) [unfolded 3 B]] unfolding 3 B by (simp del: row_at.simps)
      moreover have "\<not> in_rows (shape_rows a) x bY"
        using True in_rows_step(1,2) [OF g(1) [unfolded 3 A], of bY x] in_rows_step(3) [OF g(1) [unfolded 3 A]]
        unfolding 3 A by linarith
      moreover have "\<not> compareShapes CompareContainsOperation a b"
        unfolding compareShapes_def 3 A B using True bS by (subst compare_spans.simps) simp
      ultimately show ?thesis unfolding covers_def by blast
    next
      case False
      have "in_rows (shape_rows b) x y \<Longrightarrow> aY \<le> y" for x y
        using False in_rows_step(1,2) [OF g(2) [unfolded 3 B], of y x] in_rows_step(3) [OF g(2) [unfolded 3 B]]
        unfolding 3 B by linarith
      moreover have "B \<noteq> [] \<Longrightarrow> aY < fst (hd B)" using False in_rows_step(3) [OF g(2) [unfolded 3 B]] B by simp
      ultimately show ?thesis
        using compare_spans_contains [OF g(1) [unfolded 3] g(2) [unfolded 3], of False False] False
        unfolding compareShapes_def covers_def 3 by blast
    qed
  qed
qed

end
