(* ===== verification/Region.thy ===== *)
theory Region
  imports Region_Compare
begin

text \<open>
  The class \<^verbatim>\<open>Region\<close> of \<^verbatim>\<open>WebCore/platform/graphics/Region.cpp\<close>: a shape with its bounds, which let most
  operations return early. Under the invariant \<open>region_ok\<close> (a well-formed shape, bounds that
  touch it on every side) a region is the set of its pixels, and every operation is the set operation of its
  name.
\<close>

subsection \<open>The rest of a shape\<close>

definition Shape_rect :: "int_rect \<Rightarrow> shape" where
  "Shape_rect rect =
     (let s = Shape;
          s = appendSpan (rc_y rect) s;
          s = appendSegment (rc_x rect) s;
          s = appendSegment (rc_maxX rect) s
      in appendSpan (rc_maxY rect) s)"

text \<open>
  The bounds: the first segment of each span but the last, and the one before the first segment of
  the next span, also when the span has no segments of its own (unless it is at the end of the vector).
\<close>

fun bounds_loop :: "int list \<Rightarrow> span list \<Rightarrow> int \<Rightarrow> int \<Rightarrow> int \<times> int" where
  "bounds_loop segments (sp # sp' # spans) minX maxX =
     (if span_segmentIndex sp \<noteq> length segments
      then let firstSegment = segments ! span_segmentIndex sp;
               lastSegment = segments ! (span_segmentIndex sp' - 1)
           in bounds_loop segments (sp' # spans) (if firstSegment < minX then firstSegment else minX)
                (if lastSegment > maxX then lastSegment else maxX)
      else bounds_loop segments (sp' # spans) minX maxX)"
| "bounds_loop segments spans minX maxX = (minX, maxX)"

definition shape_bounds :: "shape \<Rightarrow> int_rect" where
  "shape_bounds s =
     (if shape_isEmpty s then IntRect 0 0 0 0
      else let minY = span_y (hd (sh_spans s));
               maxY = span_y (last (sh_spans s));
               (minX, maxX) = bounds_loop (sh_segments s) (sh_spans s) 2147483647 (- 2147483648)
           in IntRect minX minY (s32 (maxX - minX)) (s32 (maxY - minY)))"

definition shape_translate :: "int_size \<Rightarrow> shape \<Rightarrow> shape" where
  "shape_translate offset s =
     s\<lparr>sh_segments := map (\<lambda>x. s32 (x + sz_width offset)) (sh_segments s),
       sh_spans := map (\<lambda>sp. sp\<lparr>span_y := s32 (span_y sp + sz_height offset)\<rparr>) (sh_spans s)\<rparr>"

text \<open>
  \<^verbatim>\<open>isValid\<close>, by indices, because it also looks at shapes that came in a message: the result is \<open>None\<close>
  where the loop leaves the vector of segments.
\<close>

function valid_segments :: "int list \<Rightarrow> nat \<Rightarrow> nat \<Rightarrow> bool option" where
  "valid_segments segments segment end' =
     (if segment = end' \<or> segment + 1 = end' then Some True
      else if length segments \<le> segment + 1 then None
      else if s32 (segments ! (segment + 1) - segments ! segment) < 0 then Some False
      else valid_segments segments (segment + 2) end')"
  by pat_completeness auto
termination
  by (relation "measure (\<lambda>(segments, segment, end'). length segments - segment)") auto

declare valid_segments.simps [simp del]

fun valid_spans :: "int list \<Rightarrow> span list \<Rightarrow> bool option" where
  "valid_spans segments (sp # sp' # spans) =
     (if s32 (span_y sp' - span_y sp) < 0 then Some False
      else if length segments < span_segmentIndex sp then None
      else case (if span_segmentIndex sp = length segments then Some True
                 else valid_segments segments (span_segmentIndex sp) (span_segmentIndex sp')) of
             Some True \<Rightarrow> valid_spans segments (sp' # spans)
           | result \<Rightarrow> result)"
| "valid_spans segments spans = Some True"

definition shape_isValid :: "shape \<Rightarrow> bool option" where
  "shape_isValid s = valid_spans (sh_segments s) (sh_spans s)"

subsection \<open>Regions\<close>

record region =
  rg_bounds :: int_rect
  rg_shape :: shape

definition Region_empty :: region where
  "Region_empty = \<lparr>rg_bounds = IntRect 0 0 0 0, rg_shape = Shape\<rparr>"

definition Region_rect :: "int_rect \<Rightarrow> region" where
  "Region_rect rect = \<lparr>rg_bounds = rect, rg_shape = Shape_rect rect\<rparr>"

definition region_isEmpty :: "region \<Rightarrow> bool" where
  "region_isEmpty g \<longleftrightarrow> rect_isEmpty (rg_bounds g)"

definition region_isRect :: "region \<Rightarrow> bool" where
  "region_isRect g \<longleftrightarrow> shape_isRect (rg_shape g)"

fun segment_rects :: "int \<Rightarrow> int \<Rightarrow> int list \<Rightarrow> int_rect list" where
  "segment_rects y height (x # x' # segments) = IntRect x y (s32 (x' - x)) height # segment_rects y height segments"
| "segment_rects y height segments = []"

fun row_rects :: "row list \<Rightarrow> int_rect list" where
  "row_rects ((y, segments) # (y', segments') # rows) =
     segment_rects y (s32 (y' - y)) segments @ row_rects ((y', segments') # rows)"
| "row_rects rows = []"

definition rects :: "region \<Rightarrow> int_rect list" where
  "rects g = row_rects (shape_rows (rg_shape g))"

definition totalArea :: "region \<Rightarrow> 32 word" where
  "totalArea g = fold (\<lambda>rect area. area + word_of_int (s32 (rc_width rect * rc_height rect))) (rects g) 0"

definition region_contains :: "region \<Rightarrow> region \<Rightarrow> bool" where
  "region_contains g region \<longleftrightarrow>
     (if \<not> rect_contains (rg_bounds g) (rg_bounds region) then False
      else compareShapes CompareContainsOperation (rg_shape g) (rg_shape region))"

fun segments_contain :: "int list \<Rightarrow> int \<Rightarrow> bool" where
  "segments_contain (x # maxX # segments) px \<longleftrightarrow>
     (if x > px then False else if maxX > px then True else segments_contain segments px)"
| "segments_contain segments px \<longleftrightarrow> False"

fun rows_contain :: "row list \<Rightarrow> int \<Rightarrow> int \<Rightarrow> bool" where
  "rows_contain ((y, segments) # (maxY, segments') # rows) px py \<longleftrightarrow>
     (if y > py then False
      else if maxY \<le> py then rows_contain ((maxY, segments') # rows) px py
      else if segments_contain segments px then True
      else rows_contain ((maxY, segments') # rows) px py)"
| "rows_contain rows px py \<longleftrightarrow> False"

definition region_contains_point :: "region \<Rightarrow> int \<Rightarrow> int \<Rightarrow> bool" where
  "region_contains_point g px py \<longleftrightarrow>
     (if \<not> contains_point (rg_bounds g) px py then False else rows_contain (shape_rows (rg_shape g)) px py)"

definition region_intersects :: "region \<Rightarrow> region \<Rightarrow> bool" where
  "region_intersects g region \<longleftrightarrow>
     (if \<not> rect_intersects (rg_bounds g) (rg_bounds region) then False
      else compareShapes CompareIntersectsOperation (rg_shape g) (rg_shape region))"

definition intersect :: "region \<Rightarrow> region \<Rightarrow> region" where
  "intersect g region =
     (if rect_isEmpty (rg_bounds g) then g
      else if \<not> rect_intersects (rg_bounds g) (rg_bounds region) then \<lparr>rg_bounds = IntRect 0 0 0 0, rg_shape = Shape\<rparr>
      else let s = intersectShapes (rg_shape g) (rg_shape region) in \<lparr>rg_bounds = shape_bounds s, rg_shape = s\<rparr>)"

definition unite :: "region \<Rightarrow> region \<Rightarrow> region" where
  "unite g region =
     (if region_isEmpty region then g
      else if region_isRect g \<and> rect_contains (rg_bounds g) (rg_bounds region) then g
      else if region_isRect region \<and> rect_contains (rg_bounds region) (rg_bounds g)
      then \<lparr>rg_bounds = rg_bounds region, rg_shape = rg_shape region\<rparr>
      else if \<not> region_isRect g \<and> region_contains g region then g
      else \<lparr>rg_bounds = rect_unite (rg_bounds g) (rg_bounds region),
            rg_shape = unionShapes (rg_shape g) (rg_shape region)\<rparr>)"

definition subtract :: "region \<Rightarrow> region \<Rightarrow> region" where
  "subtract g region =
     (if rect_isEmpty (rg_bounds g) then g
      else if region_isEmpty region then g
      else if \<not> rect_intersects (rg_bounds g) (rg_bounds region) then g
      else let s = subtractShapes (rg_shape g) (rg_shape region) in \<lparr>rg_bounds = shape_bounds s, rg_shape = s\<rparr>)"

definition translate :: "int_size \<Rightarrow> region \<Rightarrow> region" where
  "translate offset g = \<lparr>rg_bounds = move offset (rg_bounds g), rg_shape = shape_translate offset (rg_shape g)\<rparr>"

definition updateBoundsFromShape :: "region \<Rightarrow> region" where
  "updateBoundsFromShape g = g\<lparr>rg_bounds := shape_bounds (rg_shape g)\<rparr>"

subsection \<open>The bounds of a shape\<close>

lemma sorted_ends:
  assumes "sorted_wrt (<) (s :: int list)" "x \<in> set s"
  shows "hd s \<le> x" "x \<le> last s"
proof -
  from assms(2) obtain i where i: "i < length s" "s ! i = x" by (auto simp: in_set_conv_nth)
  hence ne: "s \<noteq> []" by auto
  have "s ! 0 \<le> s ! i" "s ! i \<le> s ! (length s - 1)"
    using assms(1) i(1) by (auto simp: strict_sorted_iff intro!: sorted_nth_mono)
  with i ne show "hd s \<le> x" "x \<le> last s" by (simp_all add: hd_conv_nth last_conv_nth)
qed

lemma if_less_min: "(if a < b then a else b) = min a (b :: int)"
  and if_less_max: "(if b < a then a else b) = max a (b :: int)"
  by (simp_all add: min_def max_def)

lemma bounds_loop_extremes:
  assumes "goes_on s rows" "segs = pre @ concat (map snd rows)"
    and "bounds_loop segs (pack_spans (length pre) rows) mn mx = (mn', mx')"
  shows "(\<forall>x\<in>set (concat (map snd rows)). mn' \<le> x \<and> x \<le> mx') \<and> mn' \<le> mn \<and> mx \<le> mx'
    \<and> mn' \<in> insert mn (set segs) \<and> mx' \<in> insert mx (set segs)"
  using assms
proof (induction rows arbitrary: s pre mn mx)
  case (Cons r rows)
  show ?case
  proof (cases rows)
    case Nil
    thus ?thesis using Cons.prems by (simp add: goes_on_Cons goes_on_Nil)
  next
    case (Cons r' rows')
    let ?i = "length pre" and ?j = "length pre + length (snd r)"
    have g: "goes_on (snd r) rows" "sorted_wrt (<) (snd r)"
      using Cons.prems(1) by (auto simp: goes_on_Cons row_ok_def segs_ok_def)
    have segs: "segs = (pre @ snd r) @ concat (map snd rows)" using Cons.prems(2) by simp
    show ?thesis
    proof (cases "?i = length segs")
      case True
      hence "snd r = []" "concat (map snd rows) = []" using segs by auto
      moreover have "bounds_loop segs (pack_spans (length (pre @ snd r)) rows) mn mx = (mn', mx')"
        using Cons.prems(3) True Cons by simp
      ultimately show ?thesis using Cons.IH [OF g(1) segs] by simp
    next
      case False
      hence lt: "?i < length segs" using segs by (simp add: Cons.prems(2))
      moreover have "?j \<le> length segs" using segs by simp
      ultimately have "?j - 1 < length segs" by linarith
      let ?mn = "min (segs ! ?i) mn" and ?mx = "max (segs ! (?j - 1)) mx"
      have "bounds_loop segs (pack_spans (length (pre @ snd r)) rows) ?mn ?mx = (mn', mx')"
        using Cons.prems(3) False Cons by (simp add: Let_def if_less_min if_less_max)
      note ih = Cons.IH [OF g(1) segs this]
      have "segs ! ?i \<in> set segs" "segs ! (?j - 1) \<in> set segs" using lt \<open>?j - 1 < length segs\<close> nth_mem by blast+
      moreover have "\<forall>x\<in>set (snd r). segs ! ?i \<le> x \<and> x \<le> segs ! (?j - 1)"
      proof
        fix x assume x: "x \<in> set (snd r)"
        hence ne: "snd r \<noteq> []" by auto
        hence "?j - 1 = length pre + (length (snd r) - 1)" by (cases "snd r") auto
        with ne have "segs ! ?i = hd (snd r)" "segs ! (?j - 1) = last (snd r)"
          using Cons.prems(2) by (simp_all add: nth_append hd_conv_nth last_conv_nth)
        with sorted_ends [OF g(2) x] show "segs ! ?i \<le> x \<and> x \<le> segs ! (?j - 1)" by simp
      qed
      moreover have "mn' \<le> ?mn" "?mx \<le> mx'" using ih by blast+
      ultimately have "\<forall>x\<in>set (snd r). mn' \<le> x \<and> x \<le> mx'" by fastforce
      moreover have "mn' \<in> insert mn (set segs)" "mx' \<in> insert mx (set segs)"
        using ih \<open>segs ! ?i \<in> set segs\<close> \<open>segs ! (?j - 1) \<in> set segs\<close> by (auto simp: min_def max_def split: if_splits)
      ultimately show ?thesis using ih by (auto simp: min_def max_def split: if_splits)
    qed
  qed
qed (simp add: goes_on_Nil)

text \<open>The pixels of a shape, and bounds that touch them on every side.\<close>

definition cells :: "shape \<Rightarrow> pixel set" where
  "cells s = {(x, y). covers s x y}"

definition tight :: "int_rect \<Rightarrow> pixel set \<Rightarrow> bool" where
  "tight b ps \<longleftrightarrow> ps \<subseteq> pixels b \<and> (\<exists>y. (rc_x b, y) \<in> ps) \<and> (\<exists>y. (rc_x b + rc_width b - 1, y) \<in> ps)
     \<and> (\<exists>x. (x, rc_y b) \<in> ps) \<and> (\<exists>x. (x, rc_y b + rc_height b - 1) \<in> ps)"

lemma tight_smallest:
  assumes "tight b ps" "rect_ok b" "rect_ok r" "ps \<subseteq> pixels r"
  shows "pixels b \<subseteq> pixels r" "rect_contains r b"
proof -
  obtain x x' y y' where p: "(rc_x b, y) \<in> pixels r" "(rc_x b + rc_width b - 1, y') \<in> pixels r"
      "(x, rc_y b) \<in> pixels r" "(x', rc_y b + rc_height b - 1) \<in> pixels r"
    using assms(1,4) unfolding tight_def by blast
  show "pixels b \<subseteq> pixels r" "rect_contains r b"
    using p assms(2,3) by (auto simp: mem_pixels rect_contains_def)
qed

lemma rows_in_set:
  assumes "goes_on s rows" "(y, segs) \<in> set rows" "in_segs segs x"
  shows "in_rows rows x y"
proof -
  obtain us vs where rows: "rows = us @ (y, segs) # vs" using assms(2) by (meson split_list)
  have "\<forall>r\<in>set vs. y < fst r" using assms(1) rows by (auto simp: goes_on_def sorted_wrt_append)
  hence "row_at [] rows y = segs" using rows by (simp add: row_at_append row_at_before)
  with assms(3) show ?thesis by simp
qed

lemma in_rows_set:
  assumes "in_rows rows x y"
  obtains r where "r \<in> set rows" "fst r \<le> y" "in_segs (snd r) x"
proof -
  have "in_segs (row_at d rows y) x \<Longrightarrow> in_segs d x \<or> (\<exists>r\<in>set rows. fst r \<le> y \<and> in_segs (snd r) x)" for d
    by (induction rows arbitrary: d) (auto split: if_splits)
  from this [OF assms] show thesis using that by auto
qed

lemma in_segs_ends:
  assumes "segs_ok s" "x \<in> set s"
  shows "\<forall>x'\<in>set s. x \<le> x' \<Longrightarrow> in_segs s x" "\<forall>x'\<in>set s. x' \<le> x \<Longrightarrow> in_segs s (x - 1)"
proof -
  have d: "distinct s" "even (length s)" using assms(1) by (auto simp: segs_ok_def strict_sorted_iff)
  have card: "length (filter P s) = card {c \<in> set s. P c}" for P
    using distinct_card [OF distinct_filter [OF d(1)], of P] by simp
  show "in_segs s x" if "\<forall>x'\<in>set s. x \<le> x'"
  proof -
    have "{c \<in> set s. c \<le> x} = {x}" using that assms(2) by (auto intro: order.antisym)
    thus ?thesis by (simp add: in_segs_def card)
  qed
  show "in_segs s (x - 1)" if "\<forall>x'\<in>set s. x' \<le> x"
  proof -
    have "{c \<in> set s. c \<le> x - 1} = set s - {x}" using that by force
    hence "length (filter (\<lambda>c. c \<le> x - 1) s) = length s - 1"
      using assms(2) distinct_card [OF d(1)] by (simp add: card)
    moreover have "length s \<noteq> 0" using assms(2) by auto
    ultimately show ?thesis using d(2) by (simp add: in_segs_def)
  qed
qed

lemma in_segs_between: "\<lbrakk>segs_ok s; in_segs s x; \<forall>c\<in>set s. l \<le> c \<and> c \<le> r\<rbrakk> \<Longrightarrow> l \<le> x \<and> x < r"
proof -
  assume a: "segs_ok s" "in_segs s x" "\<forall>c\<in>set s. l \<le> c \<and> c \<le> r"
  have "x < l \<Longrightarrow> \<not> in_segs s x" using a(3) by (intro in_segs_before) auto
  moreover have "r \<le> x \<Longrightarrow> \<not> in_segs s x" using a(1,3) in_segs_after [of s x] by (fastforce simp: segs_ok_def)
  ultimately show "l \<le> x \<and> x < r" using a(2) by linarith
qed

lemma shape_rows_facts:
  assumes "shape_ok s" "\<not> shape_isEmpty s"
  obtains y0 s0 rows yn where "shape_rows s = (y0, s0) # rows" "goes_on [] (shape_rows s)" "s0 \<noteq> []"
    "(y0, s0) # rows = butlast (shape_rows s) @ [(yn, [])]" "\<forall>r\<in>set (shape_rows s). y0 \<le> fst r \<and> fst r \<le> yn"
    "sh_segments s = concat (map snd (shape_rows s))" "sh_spans s = pack_spans 0 (shape_rows s)"
proof -
  have p: "s = pack (shape_rows s)" and g: "goes_on [] (shape_rows s)"
    using assms(1) by (simp_all add: shape_ok_def rows_ok_goes_on)
  have ne: "shape_rows s \<noteq> []" using assms(2) p shape_isEmpty_pack by metis
  then obtain y0 s0 rows where r: "shape_rows s = (y0, s0) # rows" by (cases "shape_rows s") auto
  have "snd (last (shape_rows s)) = []" using g ne by (simp add: goes_on_def last_map)
  then obtain yn where last: "last (shape_rows s) = (yn, [])" by (metis prod.collapse)
  have l: "shape_rows s = butlast (shape_rows s) @ [(yn, [])]" using ne last by (metis append_butlast_last_id)
  have "sorted_wrt (<) (map fst (shape_rows s))" using g by (simp add: goes_on_def)
  hence "\<forall>c\<in>set (map fst (shape_rows s)). hd (map fst (shape_rows s)) \<le> c \<and> c \<le> List.last (map fst (shape_rows s))"
    using sorted_ends by blast
  moreover have "hd (map fst (shape_rows s)) = y0" "List.last (map fst (shape_rows s)) = yn" using r ne last last_map [OF ne, of fst] by simp_all
  ultimately have b: "\<forall>r\<in>set (shape_rows s). y0 \<le> fst r \<and> fst r \<le> yn" by simp
  have "s0 \<noteq> []" using g r by (auto simp: goes_on_Cons)
  moreover have "sh_segments s = concat (map snd (shape_rows s))" "sh_spans s = pack_spans 0 (shape_rows s)"
    using p unfolding pack_def by (metis shape.select_convs)+
  ultimately show thesis using that [OF r g _ _ b] l r by metis
qed

lemma shape_isEmpty_cells:
  assumes "shape_ok s"
  shows "shape_isEmpty s \<longleftrightarrow> cells s = {}"
proof
  assume "shape_isEmpty s"
  thus "cells s = {}" by (simp add: cells_def covers_def shape_rows_def shape_isEmpty_def)
next
  assume e: "cells s = {}"
  show "shape_isEmpty s"
  proof (rule ccontr)
    assume "\<not> shape_isEmpty s"
    from assms this obtain y0 s0 rows where r: "shape_rows s = (y0, s0) # rows" "goes_on [] (shape_rows s)" "s0 \<noteq> []"
      by (rule shape_rows_facts)
    have "segs_ok s0" using r by (simp add: goes_on_Cons row_ok_def)
    with r(3) obtain x where "in_segs s0 x" using segs_nonempty by blast
    hence "covers s x y0" unfolding covers_def by (rule rows_in_set [OF r(2), rotated]) (simp add: r(1))
    with e show False by (auto simp: cells_def)
  qed
qed

lemma last_pack_spans_y: "rows \<noteq> [] \<Longrightarrow> span_y (last (pack_spans n rows)) = fst (last rows)"
  by (induction rows arbitrary: n) auto

lemma first_and_last_row:
  assumes "goes_on [] rows" "rows = (y0, s0) # rest" "(y0, s0) # rest = butlast rows @ [(yn, [])]"
  shows "\<exists>x. in_rows rows x y0" "\<exists>x. in_rows rows x (yn - 1)"
proof -
  have s0: "s0 \<noteq> []" "segs_ok s0" using assms(1,2) by (auto simp: goes_on_Cons row_ok_def)
  then obtain x where "in_segs s0 x" using segs_nonempty by blast
  thus "\<exists>x. in_rows rows x y0" using rows_in_set [OF assms(1)] assms(2) by (metis list.set_intros(1))
  define us where "us = butlast rows"
  have rows: "rows = us @ [(yn, [])]" using assms(2,3) by (simp add: us_def)
  have "us \<noteq> []" using rows assms(2) s0 by (cases us) auto
  hence l: "last us \<in> set us" by simp
  have "distinct_adj (([] # map snd us) @ [[]])" using assms(1) rows by (simp add: goes_on_def)
  hence ne: "snd (last us) \<noteq> []" using \<open>us \<noteq> []\<close> unfolding distinct_adj_append_iff by (simp add: last_map)
  have "segs_ok (snd (last us))" using assms(1) rows l by (auto simp: goes_on_def row_ok_def)
  with ne obtain x' where x': "in_segs (snd (last us)) x'" using segs_nonempty by blast
  have "\<forall>r\<in>set us. fst r < yn" using assms(1) rows by (auto simp: goes_on_def sorted_wrt_append)
  hence "row_at [] us (yn - 1) = final us" by (intro row_at_final) force
  hence "row_at [] rows (yn - 1) = snd (last us)" using rows \<open>us \<noteq> []\<close> by (simp add: row_at_append final_def last_map)
  with x' show "\<exists>x. in_rows rows x (yn - 1)" by auto
qed

lemma shape_bounds_tight:
  assumes "shape_ok s" "\<not> shape_isEmpty s"
  shows "rect_ok (shape_bounds s)" "tight (shape_bounds s) (cells s)"
    and "\<forall>(y, segs)\<in>set (shape_rows s). rc_y (shape_bounds s) \<le> y \<and> y \<le> rc_y (shape_bounds s) + rc_height (shape_bounds s)
      \<and> (\<forall>c\<in>set segs. rc_x (shape_bounds s) \<le> c \<and> c \<le> rc_x (shape_bounds s) + rc_width (shape_bounds s))"
proof -
  from assms obtain y0 s0 rows yn where r: "shape_rows s = (y0, s0) # rows" and g: "goes_on [] (shape_rows s)"
    and s0: "s0 \<noteq> []" and l: "(y0, s0) # rows = butlast (shape_rows s) @ [(yn, [])]"
    and ys: "\<forall>r\<in>set (shape_rows s). y0 \<le> fst r \<and> fst r \<le> yn"
    and segs: "sh_segments s = concat (map snd (shape_rows s))" and spans: "sh_spans s = pack_spans 0 (shape_rows s)"
    by (rule shape_rows_facts)
  obtain mn mx where loop: "bounds_loop (sh_segments s) (sh_spans s) 2147483647 (- 2147483648) = (mn, mx)" by force
  note ext = bounds_loop_extremes [OF g, of "sh_segments s" "[]" 2147483647 "- 2147483648" mn mx]
  have rows_ok: "\<forall>r\<in>set (shape_rows s). row_ok r" using g by (simp add: goes_on_def)
  have small: "\<forall>c\<in>set (sh_segments s). small c" using rows_ok segs by (auto simp: row_ok_def segs_ok_def)
  have c0: "hd s0 \<in> set (sh_segments s)" using segs r s0 by simp
  have mn: "\<forall>c\<in>set (sh_segments s). mn \<le> c \<and> c \<le> mx" "mn \<in> set (sh_segments s)" "mx \<in> set (sh_segments s)"
  proof -
    have e: "\<forall>c\<in>set (sh_segments s). mn \<le> c \<and> c \<le> mx" "mn \<in> insert 2147483647 (set (sh_segments s))"
        "mx \<in> insert (- 2147483648) (set (sh_segments s))"
      using ext loop segs spans by simp_all
    have "small (hd s0)" "mn \<le> hd s0" "hd s0 \<le> mx" using small c0 e(1) by blast+
    hence "mn \<noteq> 2147483647" "mx \<noteq> - 2147483648" by (auto simp: small_def)
    with e show "\<forall>c\<in>set (sh_segments s). mn \<le> c \<and> c \<le> mx" "mn \<in> set (sh_segments s)" "mx \<in> set (sh_segments s)" by auto
  qed
  have b: "shape_bounds s = edges mn y0 mx yn"
  proof -
    have "shape_rows s \<noteq> []" "last (shape_rows s) = (yn, [])" using r l by (metis list.distinct(1), metis last_snoc)
    hence "span_y (last (sh_spans s)) = yn" using last_pack_spans_y [of "shape_rows s" 0] spans by simp
    moreover have "span_y (hd (sh_spans s)) = y0" using spans r by simp
    ultimately show ?thesis using assms(2) loop by (simp add: shape_bounds_def edges_def)
  qed
  have "(y0, s0) \<in> set (shape_rows s)" "(yn, []) \<in> set (shape_rows s)"
    using r l by (metis list.set_intros(1), metis in_set_conv_decomp)
  hence sm: "small mn" "small mx" "small y0" "small yn" using mn(2,3) small rows_ok by (auto simp: row_ok_def)
  show ok: "rect_ok (shape_bounds s)" using b sm by simp
  show "\<forall>(y, segs)\<in>set (shape_rows s). rc_y (shape_bounds s) \<le> y \<and> y \<le> rc_y (shape_bounds s) + rc_height (shape_bounds s)
      \<and> (\<forall>c\<in>set segs. rc_x (shape_bounds s) \<le> c \<and> c \<le> rc_x (shape_bounds s) + rc_width (shape_bounds s))"
    using ys mn(1) sm unfolding b segs by fastforce
  have "covers s x y \<Longrightarrow> mn \<le> x \<and> x < mx \<and> y0 \<le> y \<and> y < yn" for x y
  proof -
    assume c: "covers s x y"
    then obtain r' where r': "r' \<in> set (shape_rows s)" "fst r' \<le> y" "in_segs (snd r') x"
      unfolding covers_def by (rule in_rows_set)
    have "mn \<le> x \<and> x < mx"
      using r' rows_ok mn(1) segs by (intro in_segs_between [of "snd r'"]) (auto simp: row_ok_def)
    moreover have "y0 \<le> y" using r' ys by force
    moreover have "y < yn"
    proof (rule ccontr)
      assume "\<not> y < yn"
      hence "row_at [] (shape_rows s) y = final (shape_rows s)" using ys by (intro row_at_final) force
      moreover have "final (shape_rows s) = []" using g by (simp add: goes_on_def final_def)
      ultimately show False using c by (simp add: covers_def)
    qed
    ultimately show "mn \<le> x \<and> x < mx \<and> y0 \<le> y \<and> y < yn" by blast
  qed
  moreover have "\<exists>y. covers s mn y" "\<exists>y. covers s (mx - 1) y"
  proof -
    have row: "\<exists>y s'. (y, s') \<in> set (shape_rows s) \<and> c \<in> set s' \<and> segs_ok s' \<and> (\<forall>c\<in>set s'. mn \<le> c \<and> c \<le> mx)"
      if "c \<in> set (sh_segments s)" for c
    proof -
      have "\<exists>r'\<in>set (shape_rows s). c \<in> set (snd r')" using that segs by auto
      then obtain r' where "r' \<in> set (shape_rows s)" "c \<in> set (snd r')" by blast
      thus ?thesis using rows_ok mn(1) segs by (intro exI [of _ "fst r'"] exI [of _ "snd r'"]) (auto simp: row_ok_def)
    qed
    show "\<exists>y. covers s mn y" using row [OF mn(2)] rows_in_set [OF g] in_segs_ends(1) unfolding covers_def by blast
    show "\<exists>y. covers s (mx - 1) y" using row [OF mn(3)] rows_in_set [OF g] in_segs_ends(2) unfolding covers_def by blast
  qed
  moreover have "\<exists>x. covers s x y0" "\<exists>x. covers s x (yn - 1)"
    using first_and_last_row [OF g r l] by (auto simp: covers_def)
  ultimately show "tight (shape_bounds s) (cells s)"
    using sm ok unfolding tight_def b cells_def by (auto simp: mem_pixels)
qed

subsection \<open>The invariant of regions\<close>

definition points :: "region \<Rightarrow> pixel set" where
  "points g = cells (rg_shape g)"

definition region_ok :: "region \<Rightarrow> bool" where
  "region_ok g \<longleftrightarrow> shape_ok (rg_shape g) \<and> rect_ok (rg_bounds g)
     \<and> (if points g = {} then rect_isEmpty (rg_bounds g) else tight (rg_bounds g) (points g))"

lemma region_okD:
  assumes "region_ok g"
  shows "shape_ok (rg_shape g)" "rect_ok (rg_bounds g)" "points g \<subseteq> pixels (rg_bounds g)"
    and "points g \<noteq> {} \<Longrightarrow> tight (rg_bounds g) (points g)"
  using assms by (auto simp: region_ok_def tight_def split: if_splits)

lemma region_isEmpty_points:
  assumes "region_ok g"
  shows "region_isEmpty g \<longleftrightarrow> points g = {}" "rect_isEmpty (rg_bounds g) \<longleftrightarrow> points g = {}"
proof -
  show "rect_isEmpty (rg_bounds g) \<longleftrightarrow> points g = {}"
    using assms isEmpty_pixels by (auto simp: region_ok_def tight_def split: if_splits)
  thus "region_isEmpty g \<longleftrightarrow> points g = {}" by (simp add: region_isEmpty_def)
qed

lemma rect_zero: "rect_ok (IntRect 0 0 0 0)" "rect_isEmpty (IntRect 0 0 0 0)"
  by (simp_all add: rect_ok_def IntRect_def rect_isEmpty_def size_isEmpty_def rect_size_def IntSize_def small_0)

lemma region_empty [simp]: "region_ok \<lparr>rg_bounds = IntRect 0 0 0 0, rg_shape = Shape\<rparr>"
    "points \<lparr>rg_bounds = IntRect 0 0 0 0, rg_shape = Shape\<rparr> = {}"
  by (simp_all add: region_ok_def points_def cells_def rect_zero)

lemma region_of_shape:
  assumes "shape_ok s"
  shows "region_ok \<lparr>rg_bounds = shape_bounds s, rg_shape = s\<rparr>"
proof (cases "shape_isEmpty s")
  case True
  thus ?thesis using assms shape_isEmpty_cells [OF assms] rect_zero by (simp add: region_ok_def points_def shape_bounds_def)
next
  case False
  thus ?thesis
    using assms shape_isEmpty_cells [OF assms] shape_bounds_tight [OF assms] by (simp add: region_ok_def points_def)
qed

lemma tight_unique:
  assumes "tight b ps" "tight b' ps" "rect_ok b" "rect_ok b'"
  shows "b = b'"
proof -
  have "rect_contains b b'" "rect_contains b' b"
    using assms tight_smallest(2) by (auto simp: tight_def)
  thus ?thesis using assms(3,4) by (simp add: rect_contains_def)
qed

text \<open>A shape of one rectangle.\<close>

lemma Shape_rect_pack: "Shape_rect r = pack [(rc_y r, [rc_x r, rc_maxX r]), (rc_maxY r, [])]"
  by (simp add: Shape_rect_def Let_def appendSpan_def appendSegment_def Shape_def pack_def)

lemma one_rect:
  assumes "x0 < x1" "y0 < y1" "small x0" "small x1" "small y0" "small y1"
  shows "shape_ok (pack [(y0, [x0, x1]), (y1, [])])"
    and "cells (pack [(y0, [x0, x1]), (y1, [])]) = pixels (edges x0 y0 x1 y1)"
proof -
  show "shape_ok (pack [(y0, [x0, x1]), (y1, [])])"
    using assms by (simp add: rows_ok_goes_on goes_on_Cons goes_on_Nil row_ok_def segs_ok_pair)
  show "cells (pack [(y0, [x0, x1]), (y1, [])]) = pixels (edges x0 y0 x1 y1)"
    using assms by (auto simp: cells_def covers_def mem_pixels split: if_splits)
qed

lemma Region_rect_ok:
  assumes "rect_ok r" "\<not> rect_isEmpty r"
  shows "region_ok (Region_rect r)" "points (Region_rect r) = pixels r"
proof -
  have e: "rc_width r > 0" "rc_height r > 0"
    using assms(2) by (auto simp: rect_isEmpty_def size_isEmpty_def rect_size_def IntSize_def)
  note sm = rect_okD [OF assms(1)]
  have r: "edges (rc_x r) (rc_y r) (rc_maxX r) (rc_maxY r) = r"
    using assms(1) small_diff [OF sm(3,1)] small_diff [OF sm(4,2)] by (simp add: edges_def IntRect_def)
  note o = one_rect [of "rc_x r" "rc_maxX r" "rc_y r" "rc_maxY r", folded Shape_rect_pack, unfolded r]
  show p: "points (Region_rect r) = pixels r"
    using o(2) e sm assms(1) by (simp add: points_def Region_rect_def)
  have "tight r (pixels r)" using e unfolding tight_def mem_pixels [OF assms(1)] by force
  thus "region_ok (Region_rect r)"
    using o(1) e sm assms isEmpty_pixels [OF assms(1)] p by (simp add: region_ok_def Region_rect_def)
qed

lemma region_isRect_points:
  assumes "region_ok g" "region_isRect g"
  shows "points g = pixels (rg_bounds g)"
proof (cases "points g = {}")
  case True
  thus ?thesis using assms(1) isEmpty_pixels by (auto simp: region_ok_def)
next
  case False
  note ok = region_okD [OF assms(1)]
  have "\<not> shape_isEmpty (rg_shape g)" using False shape_isEmpty_cells [OF ok(1)] by (simp add: points_def)
  from ok(1) this obtain y0 s0 rows yn where r: "shape_rows (rg_shape g) = (y0, s0) # rows"
      and go: "goes_on [] (shape_rows (rg_shape g))" and s0: "s0 \<noteq> []"
      and l: "(y0, s0) # rows = butlast (shape_rows (rg_shape g)) @ [(yn, [])]"
      and segs: "sh_segments (rg_shape g) = concat (map snd (shape_rows (rg_shape g)))"
      and spans: "sh_spans (rg_shape g) = pack_spans 0 (shape_rows (rg_shape g))"
    by (rule shape_rows_facts)
  have len: "length (pack_spans n rows) = length rows" for n rows by (induction rows arbitrary: n) auto
  have two: "length ((y0, s0) # rows) \<le> 2" "length s0 \<le> 2"
    using assms(2) segs spans r len by (simp_all add: region_isRect_def shape_isRect_def)
  obtain x0 x1 where x: "s0 = [x0, x1]" "x0 < x1" "small x0" "small x1"
    using go r s0 two(2) by (cases s0; cases "tl s0") (auto simp: goes_on_Cons row_ok_def segs_ok_pair)
  have "last ((y0, s0) # rows) = (yn, [])" unfolding l by simp
  hence "rows = [(yn, [])]" using s0 two(1) by (cases rows) auto
  hence rows: "shape_rows (rg_shape g) = [(y0, [x0, x1]), (yn, [])]" using r x(1) by simp
  have y: "y0 < yn" "small y0" "small yn" using go rows by (auto simp: goes_on_Cons row_ok_def)
  have "rg_shape g = pack [(y0, [x0, x1]), (yn, [])]" using ok(1) rows by (simp add: shape_ok_def)
  hence p: "points g = pixels (edges x0 y0 x1 yn)" using one_rect(2) x y by (simp add: points_def)
  moreover have "pixels (rg_bounds g) \<subseteq> pixels (edges x0 y0 x1 yn)"
    using tight_smallest(1) [OF ok(4) [OF False] ok(2)] x y p by simp
  ultimately show ?thesis using ok(3) by blast
qed

subsection \<open>The operations on sets of pixels\<close>

lemma region_contains_points:
  assumes "region_ok g" "region_ok h" "points h \<noteq> {}"
  shows "region_contains g h \<longleftrightarrow> points h \<subseteq> points g"
proof -
  note g = region_okD [OF assms(1)] and h = region_okD [OF assms(2)]
  have c: "compareShapes CompareContainsOperation (rg_shape g) (rg_shape h) \<longleftrightarrow> points h \<subseteq> points g"
    by (auto simp: compareShapes_contains [OF g(1) h(1)] points_def cells_def)
  have "points h \<subseteq> points g \<Longrightarrow> rect_contains (rg_bounds g) (rg_bounds h)"
    using tight_smallest(2) [OF h(4) [OF assms(3)] h(2) g(2)] g(3) by blast
  with c show ?thesis by (auto simp: region_contains_def)
qed

lemma region_intersects_points:
  assumes "region_ok g" "region_ok h"
  shows "region_intersects g h \<longleftrightarrow> points g \<inter> points h \<noteq> {}"
proof -
  note g = region_okD [OF assms(1)] and h = region_okD [OF assms(2)]
  have "compareShapes CompareIntersectsOperation (rg_shape g) (rg_shape h) \<longleftrightarrow> points g \<inter> points h \<noteq> {}"
    by (auto simp: compareShapes_intersects [OF g(1) h(1)] points_def cells_def)
  moreover have "points g \<inter> points h \<noteq> {} \<Longrightarrow> rect_intersects (rg_bounds g) (rg_bounds h)"
    using g(3) h(3) by (auto simp: rect_intersects_pixels [OF g(2) h(2)])
  ultimately show ?thesis by (auto simp: region_intersects_def)
qed

lemma shape_cells:
  assumes "shape_ok s" "shape_ok t"
  shows "cells (unionShapes s t) = cells s \<union> cells t" "cells (intersectShapes s t) = cells s \<inter> cells t"
    "cells (subtractShapes s t) = cells s - cells t"
  using shape_algebra [OF assms] by (auto simp: cells_def)

lemma intersect_points:
  assumes "region_ok g" "region_ok h"
  shows "region_ok (intersect g h)" "points (intersect g h) = points g \<inter> points h"
proof -
  note g = region_okD [OF assms(1)] and h = region_okD [OF assms(2)]
  note e = region_isEmpty_points [OF assms(1)]
  have "\<not> rect_intersects (rg_bounds g) (rg_bounds h) \<Longrightarrow> points g \<inter> points h = {}"
    using g(3) h(3) by (auto simp: rect_intersects_pixels [OF g(2) h(2)])
  thus "points (intersect g h) = points g \<inter> points h"
    using e shape_cells(2) [OF g(1) h(1)]
    by (cases "rect_isEmpty (rg_bounds g)") (auto simp: intersect_def Let_def points_def cells_def)
  show "region_ok (intersect g h)"
    using assms(1) region_of_shape [OF shape_algebra(3) [OF g(1) h(1)]] by (simp add: intersect_def Let_def)
qed

lemma subtract_points:
  assumes "region_ok g" "region_ok h"
  shows "region_ok (subtract g h)" "points (subtract g h) = points g - points h"
proof -
  note g = region_okD [OF assms(1)] and h = region_okD [OF assms(2)]
  note e = region_isEmpty_points [OF assms(1)] region_isEmpty_points [OF assms(2)]
  have d: "\<not> rect_intersects (rg_bounds g) (rg_bounds h) \<Longrightarrow> points g \<inter> points h = {}"
    using g(3) h(3) by (auto simp: rect_intersects_pixels [OF g(2) h(2)])
  consider "points g = {} \<or> points h = {} \<or> \<not> rect_intersects (rg_bounds g) (rg_bounds h)"
    | "points g \<noteq> {}" "points h \<noteq> {}" "rect_intersects (rg_bounds g) (rg_bounds h)" by blast
  thus "points (subtract g h) = points g - points h"
  proof cases
    case 1
    hence "subtract g h = g" using e by (auto simp: subtract_def)
    with 1 d show ?thesis by auto
  next
    case 2
    thus ?thesis using e shape_cells(3) [OF g(1) h(1)] by (simp add: subtract_def Let_def points_def)
  qed
  show "region_ok (subtract g h)"
    using assms(1) region_of_shape [OF shape_algebra(5) [OF g(1) h(1)]] by (simp add: subtract_def Let_def)
qed

lemma touch: "\<lbrakk>c = a \<or> c = b; \<exists>z. P a z; \<exists>z. Q b z\<rbrakk> \<Longrightarrow> \<exists>z. P c z \<or> Q c z"
  by blast

lemma tightD:
  assumes "tight b ps"
  shows "\<exists>y. (rc_x b, y) \<in> ps" "\<exists>y. (rc_x b + rc_width b - 1, y) \<in> ps" "\<exists>x. (x, rc_y b) \<in> ps"
    "\<exists>x. (x, rc_y b + rc_height b - 1) \<in> ps" "ps \<subseteq> pixels b"
  using assms unfolding tight_def by blast+

lemma tight_unite:
  assumes "tight b ps" "tight b' ps'" "rect_ok b" "rect_ok b'"
  shows "tight (rect_unite b b') (ps \<union> ps')"
proof -
  have ne: "\<not> rect_isEmpty b" "\<not> rect_isEmpty b'" using assms isEmpty_pixels by (auto simp: tight_def)
  note sm = rect_okD [OF assms(3)] rect_okD [OF assms(4)]
  let ?l = "min (rc_x b) (rc_x b')" and ?t = "min (rc_y b) (rc_y b')"
  let ?r = "max (rc_maxX b) (rc_maxX b')" and ?b = "max (rc_maxY b) (rc_maxY b')"
  have u: "rect_unite b b' = edges ?l ?t ?r ?b" using ne by (simp add: rect_unite_def)
  have ok: "rect_ok b" "rect_ok b'" by (rule assms)+
  have w: "rc_x (rect_unite b b') = ?l" "rc_y (rect_unite b b') = ?t"
      "rc_x (rect_unite b b') + rc_width (rect_unite b b') = ?r" "rc_y (rect_unite b b') + rc_height (rect_unite b b') = ?b"
    unfolding u using sm ok by (simp_all add: small_simps)
  have "ps \<union> ps' \<subseteq> pixels (rect_unite b b')" using rect_unite_pixels(2) [OF ok] assms(1,2) by (auto simp: tight_def)
  moreover have "\<exists>y. (?l, y) \<in> ps \<union> ps'" "\<exists>y. (?r - 1, y) \<in> ps \<union> ps'" "\<exists>x. (x, ?t) \<in> ps \<union> ps'" "\<exists>x. (x, ?b - 1) \<in> ps \<union> ps'"
  proof -
    have "?l = rc_x b \<or> ?l = rc_x b'" "?t = rc_y b \<or> ?t = rc_y b'" "?r = rc_x b + rc_width b \<or> ?r = rc_x b' + rc_width b'"
      "?b = rc_y b + rc_height b \<or> ?b = rc_y b' + rc_height b'" using ok by (auto simp: min_def max_def)
    note c = this
    note t = tightD [OF assms(1)] and t' = tightD [OF assms(2)]
    show "\<exists>y. (?l, y) \<in> ps \<union> ps'" unfolding Un_iff
      by (rule touch [of _ _ _ "\<lambda>c y. (c, y) \<in> ps" "\<lambda>c y. (c, y) \<in> ps'", OF c(1) t(1) t'(1)])
    show "\<exists>x. (x, ?t) \<in> ps \<union> ps'" unfolding Un_iff
      by (rule touch [of _ _ _ "\<lambda>c x. (x, c) \<in> ps" "\<lambda>c x. (x, c) \<in> ps'", OF c(2) t(3) t'(3)])
    show "\<exists>y. (?r - 1, y) \<in> ps \<union> ps'" unfolding Un_iff
      by (rule touch [of _ _ _ "\<lambda>c y. (c - 1, y) \<in> ps" "\<lambda>c y. (c - 1, y) \<in> ps'", OF c(3) t(2) t'(2)])
    show "\<exists>x. (x, ?b - 1) \<in> ps \<union> ps'" unfolding Un_iff
      by (rule touch [of _ _ _ "\<lambda>c x. (x, c - 1) \<in> ps" "\<lambda>c x. (x, c - 1) \<in> ps'", OF c(4) t(4) t'(4)])
  qed
  ultimately show ?thesis unfolding tight_def w(3,4) unfolding w(1,2) by blast
qed

lemma unite_points:
  assumes "region_ok g" "region_ok h"
  shows "region_ok (unite g h)" "points (unite g h) = points g \<union> points h"
proof -
  note g = region_okD [OF assms(1)] and h = region_okD [OF assms(2)]
  note e = region_isEmpty_points [OF assms(1)] region_isEmpty_points [OF assms(2)]
  have sub: "points h \<subseteq> points g" if "region_isRect g" "rect_contains (rg_bounds g) (rg_bounds h)" "points h \<noteq> {}"
    using that e(4) h(3) rect_contains_pixels [OF g(2) h(2)] region_isRect_points [OF assms(1)] by auto
  have sub': "points g \<subseteq> points h" if "region_isRect h" "rect_contains (rg_bounds h) (rg_bounds g)"
    using that e(2) g(3) rect_contains_pixels [OF h(2) g(2)] region_isRect_points [OF assms(2)] by (cases "points g = {}") auto
  let ?A = "region_isRect g \<and> rect_contains (rg_bounds g) (rg_bounds h)"
    and ?B = "region_isRect h \<and> rect_contains (rg_bounds h) (rg_bounds g)" and ?C = "\<not> region_isRect g \<and> region_contains g h"
  consider "unite g h = g" "points h \<subseteq> points g" | "unite g h = h" "points g \<subseteq> points h"
    | "points h \<noteq> {}" "unite g h = \<lparr>rg_bounds = rect_unite (rg_bounds g) (rg_bounds h),
        rg_shape = unionShapes (rg_shape g) (rg_shape h)\<rparr>"
  proof -
    assume c: "\<lbrakk>unite g h = g; points h \<subseteq> points g\<rbrakk> \<Longrightarrow> thesis" "\<lbrakk>unite g h = h; points g \<subseteq> points h\<rbrakk> \<Longrightarrow> thesis"
      "\<lbrakk>points h \<noteq> {}; unite g h = \<lparr>rg_bounds = rect_unite (rg_bounds g) (rg_bounds h),
        rg_shape = unionShapes (rg_shape g) (rg_shape h)\<rparr>\<rbrakk> \<Longrightarrow> thesis"
    consider "points h = {}" | "points h \<noteq> {}" ?A | "points h \<noteq> {}" "\<not> ?A" ?B | "points h \<noteq> {}" "\<not> ?A" "\<not> ?B" ?C
      | "points h \<noteq> {}" "\<not> ?A" "\<not> ?B" "\<not> ?C" by blast
    thus thesis
    proof cases
      case 1
      thus ?thesis using e(3) by (intro c(1)) (simp_all add: unite_def)
    next
      case 2
      thus ?thesis using e(3) sub by (intro c(1)) (simp_all add: unite_def)
    next
      case 3
      have "unite g h = h" unfolding unite_def if_not_P [OF 3(2)] using e(3) 3(1,3) by simp
      thus ?thesis using 3 sub' by (intro c(2)) simp_all
    next
      case 4
      have "unite g h = g" unfolding unite_def if_not_P [OF 4(2)] if_not_P [OF 4(3)] using 4(4) by simp
      thus ?thesis using 4 region_contains_points [OF assms] by (intro c(1)) simp_all
    next
      case 5
      show ?thesis using 5(1) e(3) unfolding unite_def if_not_P [OF 5(2)] if_not_P [OF 5(3)] if_not_P [OF 5(4)]
        by (intro c(3)) (simp_all add: unite_def if_not_P [OF 5(2)] if_not_P [OF 5(3)] if_not_P [OF 5(4)])
    qed
  qed
  hence "region_ok (unite g h) \<and> points (unite g h) = points g \<union> points h"
  proof cases
    case 3
    hence p: "points (unite g h) = points g \<union> points h" using shape_cells(1) [OF g(1) h(1)] by (simp add: points_def)
    have "tight (rect_unite (rg_bounds g) (rg_bounds h)) (points g \<union> points h)"
      using tight_unite [OF g(4) h(4) g(2) h(2)] 3(1) e(2) h(4) by (cases "points g = {}") (auto simp: rect_unite_def e)
    thus ?thesis using p 3 shape_algebra(1) [OF g(1) h(1)] rect_unite_pixels(1) [OF g(2) h(2)] by (simp add: region_ok_def)
  qed (use assms in auto)
  thus "region_ok (unite g h)" "points (unite g h) = points g \<union> points h" by auto
qed

subsection \<open>Moving a region\<close>

definition move_row :: "int \<Rightarrow> int \<Rightarrow> row \<Rightarrow> row" where
  "move_row dx dy r = (fst r + dy, map (\<lambda>x. x + dx) (snd r))"

lemma in_segs_map: "in_segs (map (\<lambda>x. x + dx) segs) x \<longleftrightarrow> in_segs segs (x - dx)"
  by (induction segs) (auto simp: algebra_simps)

lemma row_at_move:
  "row_at (map (\<lambda>x. x + dx) d) (map (move_row dx dy) rows) y = map (\<lambda>x. x + dx) (row_at d rows (y - dy))"
  by (induction rows arbitrary: d) (auto simp: move_row_def algebra_simps)

lemma goes_on_move:
  assumes "goes_on s rows" "\<forall>c\<in>set s. small (c + dx)"
    and "\<forall>r\<in>set rows. small (fst r + dy) \<and> (\<forall>c\<in>set (snd r). small (c + dx))"
  shows "goes_on (map (\<lambda>x. x + dx) s) (map (move_row dx dy) rows)"
proof -
  have segs: "segs_ok (map (\<lambda>x. x + dx) t)" if "segs_ok t" "\<forall>c\<in>set t. small (c + dx)" for t
    using that by (auto simp: segs_ok_def sorted_wrt_map)
  have inj: "map (\<lambda>x. x + dx) t = map (\<lambda>x. x + dx) t' \<longleftrightarrow> t = t'" for t t' :: "int list"
    by (intro inj_map_eq_map) (simp add: inj_on_def)
  show ?thesis using assms
  proof (induction rows arbitrary: s)
    case (Cons r rows)
    have "goes_on (map (\<lambda>x. x + dx) (snd r)) (map (move_row dx dy) rows)"
      using Cons.prems by (intro Cons.IH) (auto simp: goes_on_Cons)
    moreover have "fst (move_row dx dy r') = fst r' + dy" "snd (move_row dx dy r') = map (\<lambda>x. x + dx) (snd r')" for r'
      by (simp_all add: move_row_def)
    ultimately show ?case using Cons.prems segs by (auto simp: goes_on_Cons row_ok_def inj)
  qed (simp add: goes_on_Nil)
qed

lemma pack_move: "\<forall>r\<in>set rows. small (fst r + sz_height d) \<and> (\<forall>c\<in>set (snd r). small (c + sz_width d)) \<Longrightarrow>
  shape_translate d (pack rows) = pack (map (move_row (sz_width d) (sz_height d)) rows)"
proof -
  assume a: "\<forall>r\<in>set rows. small (fst r + sz_height d) \<and> (\<forall>c\<in>set (snd r). small (c + sz_width d))"
  have "map (\<lambda>sp. sp\<lparr>span_y := s32 (span_y sp + sz_height d)\<rparr>) (pack_spans n rows)
      = pack_spans n (map (move_row (sz_width d) (sz_height d)) rows)" for n
    using a by (induction rows arbitrary: n) (auto simp: move_row_def small_simps)
  moreover have "map (\<lambda>x. s32 (x + sz_width d)) (concat (map snd rows))
      = concat (map snd (map (move_row (sz_width d) (sz_height d)) rows))"
    using a by (induction rows) (auto simp: move_row_def small_simps)
  ultimately show ?thesis by (simp add: shape_translate_def pack_def)
qed

lemma translate_shape:
  assumes "shape_ok s" "\<not> shape_isEmpty s" "can_move d (shape_bounds s)"
  shows "shape_ok (shape_translate d s)" "cells (shape_translate d s) = shift d (cells s)"
proof -
  let ?b = "shape_bounds s"
  have mid: "small (c + e)" if "small (a + e)" "small (b + e)" "a \<le> c" "c \<le> b" for a b c e
    using that by (simp add: small_def)
  have s: "s = pack (shape_rows s)" "goes_on [] (shape_rows s)"
    using assms(1) by (simp_all add: shape_ok_def rows_ok_goes_on)
  have ok: "\<forall>r\<in>set (shape_rows s). small (fst r + sz_height d) \<and> (\<forall>c\<in>set (snd r). small (c + sz_width d))"
  proof (intro ballI conjI)
    fix r assume r: "r \<in> set (shape_rows s)"
    have in_b: "rc_y ?b \<le> fst r" "fst r \<le> rc_y ?b + rc_height ?b"
        "\<forall>c\<in>set (snd r). rc_x ?b \<le> c \<and> c \<le> rc_x ?b + rc_width ?b"
      using bspec [OF shape_bounds_tight(3) [OF assms(1,2)] r, unfolded case_prod_beta] by blast+
    show "small (fst r + sz_height d)"
      using in_b(1,2) assms(3) mid [of "rc_y ?b" "sz_height d" "rc_y ?b + rc_height ?b" "fst r"] by (simp add: can_move_def)
    fix c assume "c \<in> set (snd r)"
    hence "rc_x ?b \<le> c" "c \<le> rc_x ?b + rc_width ?b" using in_b(3) by blast+
    thus "small (c + sz_width d)"
      using assms(3) mid [of "rc_x ?b" "sz_width d" "rc_x ?b + rc_width ?b" c] by (simp add: can_move_def)
  qed
  have t: "shape_translate d s = pack (map (move_row (sz_width d) (sz_height d)) (shape_rows s))"
    using pack_move [OF ok] s(1) by metis
  show "shape_ok (shape_translate d s)"
    unfolding t using goes_on_move [OF s(2) _ ok] by (simp add: rows_ok_goes_on)
  have "covers (shape_translate d s) x y \<longleftrightarrow> covers s (x - sz_width d) (y - sz_height d)" for x y
    using row_at_move [of "sz_width d" "[]" "sz_height d" "shape_rows s" y]
    unfolding t covers_def shape_rows_pack by (simp add: in_segs_map)
  thus "cells (shape_translate d s) = shift d (cells s)" by (simp add: cells_def shift_def)
qed

lemma region_bounds_unique:
  assumes "region_ok g" "points g \<noteq> {}"
  shows "rg_bounds g = shape_bounds (rg_shape g)" "\<not> shape_isEmpty (rg_shape g)"
proof -
  note g = region_okD [OF assms(1)]
  show ne: "\<not> shape_isEmpty (rg_shape g)" using shape_isEmpty_cells [OF g(1)] assms(2) by (simp add: points_def)
  show "rg_bounds g = shape_bounds (rg_shape g)"
    using tight_unique [OF g(4) [OF assms(2)] _ g(2)] shape_bounds_tight [OF g(1) ne] by (simp add: points_def)
qed

lemma tight_shift:
  assumes "tight b ps" "can_move d b"
  shows "tight (move d b) (shift d ps)"
proof -
  have w: "rc_x (move d b) = rc_x b + sz_width d" "rc_y (move d b) = rc_y b + sz_height d"
      "rc_width (move d b) = rc_width b" "rc_height (move d b) = rc_height b"
    using assms(2) by (simp_all add: move_def can_move_def small_simps)
  note t = tightD [OF assms(1)]
  have "shift d ps \<subseteq> pixels (move d b)" using move_pixels(2) [OF assms(2)] t(5) by (auto simp: shift_def)
  moreover obtain y y' x x' where p: "(rc_x b, y) \<in> ps" "(rc_x b + rc_width b - 1, y') \<in> ps" "(x, rc_y b) \<in> ps"
      "(x', rc_y b + rc_height b - 1) \<in> ps" using t by blast
  have "(rc_x b + sz_width d, y + sz_height d) \<in> shift d ps"
      "(rc_x b + sz_width d + rc_width b - 1, y' + sz_height d) \<in> shift d ps"
      "(x + sz_width d, rc_y b + sz_height d) \<in> shift d ps"
      "(x' + sz_width d, rc_y b + sz_height d + rc_height b - 1) \<in> shift d ps"
    using p by (simp_all add: shift_def algebra_simps)
  ultimately show ?thesis unfolding tight_def w by blast
qed

lemma translate_points:
  assumes "region_ok g" "can_move d (rg_bounds g)"
  shows "region_ok (translate d g)" "points (translate d g) = shift d (points g)"
proof -
  note g = region_okD [OF assms(1)] and m = move_pixels [OF assms(2)]
  have "region_ok (translate d g) \<and> points (translate d g) = shift d (points g)"
  proof (cases "points g = {}")
    case True
    hence "shape_isEmpty (rg_shape g)" using shape_isEmpty_cells [OF g(1)] by (simp add: points_def)
    hence "rg_shape g = Shape" using g(1) by (metis shape_ok_def pack_Nil shape_isEmpty_pack)
    hence "shape_translate d (rg_shape g) = Shape" by (simp add: shape_translate_def Shape_def)
    moreover have "rect_isEmpty (rg_bounds g)" using True region_isEmpty_points [OF assms(1)] by simp
    ultimately show ?thesis using True m
      by (simp add: translate_def region_ok_def points_def cells_def shift_def)
  next
    case False
    note b = region_bounds_unique [OF assms(1) False]
    note t = translate_shape [OF g(1) b(2) assms(2) [unfolded b(1)]]
    have p: "points (translate d g) = shift d (points g)" using t(2) by (simp add: translate_def points_def)
    have ti: "tight (move d (rg_bounds g)) (points (translate d g))" using tight_shift [OF g(4) [OF False] assms(2)] p by simp
    moreover have "points (translate d g) \<noteq> {}" using tightD(1) [OF ti] by blast
    ultimately show ?thesis using p t(1) m(1) unfolding region_ok_def by (simp add: translate_def)
  qed
  thus "region_ok (translate d g)" "points (translate d g) = shift d (points g)" by auto
qed

end
