(* ===== verification/Region_Queries.thy ===== *)
theory Region_Queries
  imports Region
begin

text \<open>
  What the queries of a region say of its pixels: \<^verbatim>\<open>contains(IntPoint)\<close>, \<^verbatim>\<open>rects()\<close>, \<^verbatim>\<open>totalArea()\<close> and
  \<^verbatim>\<open>isValid()\<close>.
\<close>

subsection \<open>One pixel\<close>

lemma segments_contain_in:
  "segs_ok s \<Longrightarrow> segments_contain s x \<longleftrightarrow> in_segs s x"
proof (induction s x rule: segments_contain.induct)
  case (1 a a' t px)
  hence p: "a < a'" "\<forall>c\<in>set t. a' < c" "segs_ok t" by (auto simp: segs_ok_pair)
  have "\<not> (a \<le> px \<and> px < a') \<Longrightarrow> segments_contain (a # a' # t) px \<longleftrightarrow> a \<le> px \<and> segments_contain t px" by auto
  with 1 p in_segs_pair [OF p(1,2), of px] show ?case by auto
qed (auto simp: segs_ok_def)

lemma rows_contain_in:
  "goes_on s rows \<Longrightarrow> rows_contain rows x y \<longleftrightarrow> in_rows rows x y"
proof (induction rows x y arbitrary: s rule: rows_contain.induct)
  case (1 y0 s0 y1 s1 rows px py)
  note st = in_rows_step [OF 1(3)]
  have ih: "rows_contain ((y1, s1) # rows) px py \<longleftrightarrow> in_rows ((y1, s1) # rows) px py"
    if "y0 \<le> py" "y1 \<le> py \<or> \<not> segments_contain s0 px"
    using 1(1) [OF _ _ st(5)] 1(2) [OF _ _ _ st(5)] that by (cases "y1 \<le> py") auto
  consider "py < y0" | "y0 \<le> py" "y1 \<le> py" | "y0 \<le> py" "py < y1" by linarith
  thus ?case
  proof cases
    case 1
    thus ?thesis using st(1,2) [of py px] st(3) by (auto simp del: row_at.simps)
  next
    case 2
    thus ?thesis using st(1) [of py px] ih by (simp del: row_at.simps)
  next
    case 3
    thus ?thesis using st(1,2) [of py px] ih segments_contain_in [OF st(4), of px] by (auto simp del: row_at.simps)
  qed
qed (auto simp: goes_on_Cons goes_on_Nil)

lemma region_contains_point_points:
  assumes "region_ok g"
  shows "region_contains_point g x y \<longleftrightarrow> (x, y) \<in> points g"
proof -
  note g = region_okD [OF assms]
  have "rows_contain (shape_rows (rg_shape g)) x y \<longleftrightarrow> (x, y) \<in> points g"
    using rows_contain_in [of "[]"] g(1) by (simp add: points_def cells_def covers_def shape_ok_def rows_ok_goes_on)
  moreover have "contains_point (rg_bounds g) x y \<longleftrightarrow> (x, y) \<in> pixels (rg_bounds g)" by (simp add: pixels_def)
  ultimately show ?thesis using g(3) by (auto simp: region_contains_point_def)
qed

subsection \<open>The rectangles of a region\<close>

text \<open>Rectangles that do not overlap, and the pixels of a list of rectangles.\<close>

definition cover :: "int_rect list \<Rightarrow> pixel set" where
  "cover rs = (\<Union>r\<in>set rs. pixels r)"

lemma cover_simps [simp]: "cover [] = {}" "cover (r # rs) = pixels r \<union> cover rs" "cover (rs @ rs') = cover rs \<union> cover rs'"
  by (auto simp: cover_def)

fun disjoint_rects :: "int_rect list \<Rightarrow> bool" where
  "disjoint_rects [] \<longleftrightarrow> True"
| "disjoint_rects (r # rs) \<longleftrightarrow> pixels r \<inter> cover rs = {} \<and> disjoint_rects rs"

lemma disjoint_rects_append [simp]:
  "disjoint_rects (rs @ rs') \<longleftrightarrow> disjoint_rects rs \<and> disjoint_rects rs' \<and> cover rs \<inter> cover rs' = {}"
  by (induction rs) auto

lemma segment_rects_cover:
  assumes "segs_ok segs" "small y" "small (y + h)" "0 < h"
  shows "(\<forall>r\<in>set (segment_rects y h segs). rect_ok r \<and> 0 < rc_width r \<and> 0 < rc_height r)
    \<and> cover (segment_rects y h segs) = {(x, z). in_segs segs x \<and> y \<le> z \<and> z < y + h}
    \<and> disjoint_rects (segment_rects y h segs)"
  using assms
proof (induction y h segs rule: segment_rects.induct)
  case (1 y h x x' segs)
  hence p: "x < x'" "small x" "small x'" "\<forall>c\<in>set segs. x' < c" "segs_ok segs" by (auto simp: segs_ok_pair)
  note yh = "1.prems"(2-)
  let ?r = "IntRect x y (s32 (x' - x)) h"
  note q = in_segs_pair [OF p(1,4)]
  note ih = "1.IH" [OF p(5) yh]
  have r: "rect_ok ?r" "pixels ?r = {(a, z). x \<le> a \<and> a < x' \<and> y \<le> z \<and> z < y + h}" "0 < rc_width ?r" "0 < rc_height ?r"
  proof -
    have w: "s32 (x' - x) = x' - x" using p by (simp add: small_simps)
    show ok: "rect_ok ?r" using p yh unfolding w by (simp add: rect_ok_def IntRect_def)
    show "0 < rc_width ?r" "0 < rc_height ?r" using p yh unfolding w by (simp_all add: IntRect_def)
    show "pixels ?r = {(a, z). x \<le> a \<and> a < x' \<and> y \<le> z \<and> z < y + h}"
      using mem_pixels [OF ok] unfolding w by (auto simp: IntRect_def)
  qed
  moreover have "pixels ?r \<inter> cover (segment_rects y h segs) = {}" using r(2) ih q(2) by fastforce
  ultimately show ?case using ih q(1) by auto
qed (auto simp: segs_ok_def)

lemma row_rects_cover:
  assumes "goes_on s rows"
  shows "(\<forall>r\<in>set (row_rects rows). rect_ok r \<and> 0 < rc_width r \<and> 0 < rc_height r)
    \<and> cover (row_rects rows) = {(x, y). in_rows rows x y} \<and> disjoint_rects (row_rects rows)"
  using assms
proof (induction rows arbitrary: s rule: row_rects.induct)
  case (1 y0 s0 y1 s1 rows)
  note st = in_rows_step [OF "1.prems"]
  note ih = "1.IH" [OF st(5)]
  have sm: "small y0" "small y1" using "1.prems" by (auto simp: goes_on_Cons row_ok_def)
  have h: "s32 (y1 - y0) = y1 - y0" using sm by (simp add: small_simps)
  have segs: "(\<forall>r\<in>set (segment_rects y0 (y1 - y0) s0). rect_ok r \<and> 0 < rc_width r \<and> 0 < rc_height r)"
      "cover (segment_rects y0 (y1 - y0) s0) = {(x, z). in_segs s0 x \<and> y0 \<le> z \<and> z < y1}"
      "disjoint_rects (segment_rects y0 (y1 - y0) s0)"
    using segment_rects_cover [of s0 y0 "y1 - y0"] st(3,4) sm by simp_all
  have "cover (segment_rects y0 (y1 - y0) s0) \<inter> cover (row_rects ((y1, s1) # rows)) = {}"
    unfolding segs(2) using ih by (auto simp del: row_at.simps row_rects.simps dest: st(2))
  moreover have "{(x, z). in_segs s0 x \<and> y0 \<le> z \<and> z < y1} \<union> {(x, y). in_rows ((y1, s1) # rows) x y}
      = {(x, y). in_rows ((y0, s0) # (y1, s1) # rows) x y}" using st(1) by blast
  ultimately show ?case unfolding row_rects.simps(1) h using ih segs by (auto simp del: row_at.simps row_rects.simps)
qed (auto simp: goes_on_Cons goes_on_Nil)

lemma rects_points:
  assumes "region_ok g"
  shows "\<forall>r\<in>set (rects g). rect_ok r \<and> 0 < rc_width r \<and> 0 < rc_height r" "cover (rects g) = points g" "disjoint_rects (rects g)"
  using row_rects_cover [of "[]" "shape_rows (rg_shape g)"] region_okD(1) [OF assms]
  by (simp_all add: rects_def points_def cells_def covers_def shape_ok_def rows_ok_goes_on)

lemma card_pixels:
  assumes "rect_ok r" "0 < rc_width r" "0 < rc_height r"
  shows "finite (pixels r)" "int (card (pixels r)) = rc_width r * rc_height r"
proof -
  have p: "pixels r = {rc_x r..<rc_x r + rc_width r} \<times> {rc_y r..<rc_y r + rc_height r}"
    using mem_pixels [OF assms(1)] by auto
  show "finite (pixels r)" "int (card (pixels r)) = rc_width r * rc_height r"
    unfolding p using assms(2,3) by (simp_all add: card_cartesian_product)
qed

lemma area_of_rects:
  assumes "\<forall>r\<in>set rs. rect_ok r \<and> 0 < rc_width r \<and> 0 < rc_height r" "disjoint_rects rs"
  shows "finite (cover rs) \<and> fold (\<lambda>rect area. area + word_of_int (s32 (rc_width rect * rc_height rect))) rs a
    = (a :: 32 word) + word_of_int (int (card (cover rs)))"
  using assms
proof (induction rs arbitrary: a)
  case (Cons r rs)
  have s: "word_of_int (s32 n) = (word_of_int n :: 32 word)" for n
  proof -
    have "word_of_int ((n + 2147483648) mod 4294967296) = (word_of_int (n + 2147483648) :: 32 word)"
      by (simp only: word_of_int_eq_iff take_bit_eq_mod) simp
    thus ?thesis by (simp add: s32_def)
  qed
  note c = card_pixels [of r]
  have fin: "finite (cover rs)" using Cons by auto
  have "int (card (pixels r \<union> cover rs)) = rc_width r * rc_height r + int (card (cover rs))"
    using c Cons.prems fin by (simp add: card_Un_disjoint)
  thus ?case using Cons c fin by (simp add: s)
qed simp

lemma totalArea_points:
  assumes "region_ok g"
  shows "finite (points g)" "totalArea g = of_nat (card (points g))"
  using area_of_rects [OF rects_points(1,3) [OF assms], of 0] rects_points(2) [OF assms] by (simp_all add: totalArea_def)

subsection \<open>Validity\<close>

lemma valid_segments_ok:
  assumes "segs_ok t"
  shows "valid_segments (pre @ t @ post) (length pre) (length pre + length t) = Some True"
  using assms
proof (induction "length t" arbitrary: t pre rule: less_induct)
  case less
  from less.prems show ?case
  proof (cases rule: segs_ok_cases)
    case 1
    thus ?thesis by (simp add: valid_segments.simps)
  next
    case (2 a a' t')
    have "small a" "small a'" using less.prems 2 by (auto simp: segs_ok_pair)
    hence "\<not> s32 (a' - a) < 0" using 2 by (simp add: small_simps)
    moreover have "valid_segments ((pre @ [a, a']) @ t' @ post) (length (pre @ [a, a'])) (length (pre @ [a, a']) + length t') = Some True"
      by (rule less.hyps) (simp_all add: 2)
    moreover have "(pre @ a # a' # t' @ post) ! Suc (length pre) = a'" "(pre @ a # a' # t' @ post) ! length pre = a"
      by (simp_all add: nth_append)
    ultimately show ?thesis unfolding 2(1) by (subst valid_segments.simps) simp
  qed
qed

lemma valid_spans_ok:
  assumes "goes_on s rows"
  shows "valid_spans (pre @ concat (map snd rows)) (pack_spans (length pre) rows) = Some True"
  using assms
proof (induction rows arbitrary: s pre)
  case (Cons r rows)
  show ?case
  proof (cases rows)
    case (Cons r' rows')
    have g: "goes_on (snd r) rows" "segs_ok (snd r)" "small (fst r)" "small (fst r')" "fst r < fst r'"
      using Cons.prems Cons by (auto simp: goes_on_Cons row_ok_def)
    have "valid_spans ((pre @ snd r) @ concat (map snd rows)) (pack_spans (length (pre @ snd r)) rows) = Some True"
      by (rule Cons.IH [OF g(1)])
    moreover have "valid_segments (pre @ snd r @ concat (map snd rows)) (length pre) (length pre + length (snd r)) = Some True"
      by (rule valid_segments_ok [OF g(2)])
    ultimately show ?thesis using g(3-5) Cons by (auto simp: small_simps)
  qed simp
qed simp

lemma isValid_ok:
  assumes "shape_ok s"
  shows "shape_isValid s = Some True"
proof -
  have "valid_spans (concat (map snd (shape_rows s))) (pack_spans 0 (shape_rows s)) = Some True"
    using valid_spans_ok [of "[]" "shape_rows s" "[]"] assms by (simp add: shape_ok_def rows_ok_goes_on)
  moreover have "s = pack (shape_rows s)" using assms by (simp add: shape_ok_def)
  hence "sh_segments s = concat (map snd (shape_rows s))" "sh_spans s = pack_spans 0 (shape_rows s)"
    unfolding pack_def by (metis shape.select_convs)+
  ultimately show ?thesis by (simp add: shape_isValid_def)
qed

subsection \<open>What a client of regions relies on\<close>

text \<open>
  The contract of a region type, as the code that keeps a dirty region uses it: the regions stand for
  sets of pixels, and the operations are those on sets.
\<close>

locale pixel_regions =
  fixes ok :: "'r \<Rightarrow> bool"
    and pts :: "'r \<Rightarrow> pixel set"
    and none :: 'r
    and of_rect :: "int_rect \<Rightarrow> 'r"
    and is_none :: "'r \<Rightarrow> bool"
    and union inter diff :: "'r \<Rightarrow> 'r \<Rightarrow> 'r"
    and moved :: "int_size \<Rightarrow> 'r \<Rightarrow> 'r"
  assumes none: "ok none" "pts none = {}"
    and of_rect: "\<lbrakk>rect_ok r; \<not> rect_isEmpty r\<rbrakk> \<Longrightarrow> ok (of_rect r) \<and> pts (of_rect r) = pixels r"
    and is_none: "ok g \<Longrightarrow> is_none g \<longleftrightarrow> pts g = {}"
    and union: "\<lbrakk>ok g; ok h\<rbrakk> \<Longrightarrow> ok (union g h) \<and> pts (union g h) = pts g \<union> pts h"
    and inter: "\<lbrakk>ok g; ok h\<rbrakk> \<Longrightarrow> ok (inter g h) \<and> pts (inter g h) = pts g \<inter> pts h"
    and diff: "\<lbrakk>ok g; ok h\<rbrakk> \<Longrightarrow> ok (diff g h) \<and> pts (diff g h) = pts g - pts h"
    and moved: "\<lbrakk>ok g; pts g \<noteq> {}; pts g \<subseteq> pixels r; can_move d r\<rbrakk> \<Longrightarrow> ok (moved d g) \<and> pts (moved d g) = shift d (pts g)"
begin

text \<open>Taking the part inside a rectangle out, moving it by \<open>d\<close>, and putting back what stays inside.\<close>

lemma move_part:
  assumes "ok g" "rect_ok r" "\<not> rect_isEmpty r" "can_move d r" "\<not> is_none (inter (of_rect r) g)"
  shows "ok (union (diff g (of_rect r)) (inter (moved d (inter (of_rect r) g)) (of_rect r)))"
    and "pts (union (diff g (of_rect r)) (inter (moved d (inter (of_rect r) g)) (of_rect r)))
      = (pts g - pixels r) \<union> (shift d (pixels r \<inter> pts g) \<inter> pixels r)"
proof -
  note r = of_rect [OF assms(2,3)]
  have i: "ok (inter (of_rect r) g)" "pts (inter (of_rect r) g) = pixels r \<inter> pts g" using inter r assms(1) by auto
  have ne: "pixels r \<inter> pts g \<noteq> {}" using assms(5) is_none [OF i(1)] i(2) by simp
  have m: "ok (moved d (inter (of_rect r) g))" "pts (moved d (inter (of_rect r) g)) = shift d (pixels r \<inter> pts g)"
    using moved [OF i(1), of r d] ne i(2) assms(4) by auto
  note d = diff [OF assms(1)] and j = inter [OF m(1)]
  show "ok (union (diff g (of_rect r)) (inter (moved d (inter (of_rect r) g)) (of_rect r)))"
    using union d j r by blast
  show "pts (union (diff g (of_rect r)) (inter (moved d (inter (of_rect r) g)) (of_rect r)))
      = (pts g - pixels r) \<union> (shift d (pixels r \<inter> pts g) \<inter> pixels r)"
    using union d j r m(2) by simp
qed

text \<open>What a rectangle that moves by \<open>d\<close> uncovers.\<close>

lemma uncovered:
  assumes "rect_ok r" "\<not> rect_isEmpty r" "can_move d r"
  shows "ok (diff (of_rect r) (moved d (of_rect r)))"
    and "pts (diff (of_rect r) (moved d (of_rect r))) = pixels r - shift d (pixels r)"
proof -
  note r = of_rect [OF assms(1,2)]
  have "pixels r \<noteq> {}" using assms(2) isEmpty_pixels [OF assms(1)] by simp
  hence "ok (moved d (of_rect r)) \<and> pts (moved d (of_rect r)) = shift d (pixels r)"
    using moved [of "of_rect r" r d] r assms(3) by simp
  thus "ok (diff (of_rect r) (moved d (of_rect r)))"
    "pts (diff (of_rect r) (moved d (of_rect r))) = pixels r - shift d (pixels r)" using diff r by auto
qed

end

lemma can_move_inside:
  assumes "can_move d r" "rect_ok b" "rect_contains r b" "rc_x b \<le> rc_x b + rc_width b" "rc_y b \<le> rc_y b + rc_height b"
  shows "can_move d b"
proof -
  have "rect_ok r" using assms(1) by (simp add: can_move_def)
  hence e: "rc_x r \<le> rc_x b" "rc_x b + rc_width b \<le> rc_x r + rc_width r" "rc_y r \<le> rc_y b"
      "rc_y b + rc_height b \<le> rc_y r + rc_height r"
    using assms(2,3) by (simp_all add: rect_contains_def)
  have mid: "small (c + k)" if "small (a + k)" "small (b + k)" "a \<le> c" "c \<le> b" for a b c k
    using that by (simp add: small_def)
  show ?thesis
    unfolding can_move_def
    using assms(1,2,4,5) e mid [of "rc_x r" "sz_width d" "rc_x r + rc_width r"]
      mid [of "rc_y r" "sz_height d" "rc_y r + rc_height r"] by (simp add: can_move_def)
qed

lemma translate_inside:
  assumes "region_ok g" "points g \<noteq> {}" "points g \<subseteq> pixels r" "can_move d r"
  shows "region_ok (translate d g) \<and> points (translate d g) = shift d (points g)"
proof -
  note g = region_okD [OF assms(1)]
  have r: "rect_ok r" using assms(4) by (simp add: can_move_def)
  note t = g(4) [OF assms(2)]
  have "rect_contains r (rg_bounds g)" by (rule tight_smallest(2) [OF t g(2) r assms(3)])
  moreover have "0 < rc_width (rg_bounds g)" "0 < rc_height (rg_bounds g)"
    using assms(2) region_isEmpty_points(2) [OF assms(1)]
    by (auto simp: rect_isEmpty_def size_isEmpty_def rect_size_def IntSize_def)
  ultimately have "can_move d (rg_bounds g)" using can_move_inside [OF assms(4) g(2)] by simp
  thus ?thesis using translate_points [OF assms(1)] by blast
qed

interpretation rg: pixel_regions region_ok points Region_empty Region_rect region_isEmpty unite intersect subtract translate
proof
  show "region_ok Region_empty" "points Region_empty = {}" by (simp_all add: Region_empty_def)
qed (use Region_rect_ok region_isEmpty_points unite_points intersect_points subtract_points translate_inside in auto)

subsection \<open>Regions as sets of pixels\<close>

text \<open>
  C38: Regions are sets of pixels: uniting, intersecting and subtracting well-formed regions gives the
  well-formed region of the union, the intersection and the difference of their pixels, through every
  early return on the bounds, and moving one by an offset that keeps its bounds within range moves its pixels.
\<close>
theorem region_operations_are_set_operations:
  assumes "region_ok g" "region_ok h" "can_move d (rg_bounds g)"
  shows "region_ok (unite g h) \<and> points (unite g h) = points g \<union> points h
    \<and> region_ok (intersect g h) \<and> points (intersect g h) = points g \<inter> points h
    \<and> region_ok (subtract g h) \<and> points (subtract g h) = points g - points h
    \<and> region_ok (translate d g) \<and> points (translate d g) = shift d (points g)"
  using rg.union [OF assms(1,2)] rg.inter [OF assms(1,2)] rg.diff [OF assms(1,2)] translate_points [OF assms(1,3)] by simp

lemma Region_IntRect_ok:
  assumes "0 < w" "0 < h" "small x" "small y" "small (x + w)" "small (y + h)"
  shows "region_ok (Region_rect (IntRect x y w h))"
    and "points (Region_rect (IntRect x y w h)) = {(a, b). x \<le> a \<and> a < x + w \<and> y \<le> b \<and> b < y + h}"
proof -
  have r: "rect_ok (IntRect x y w h)" "\<not> rect_isEmpty (IntRect x y w h)"
    using assms by (simp_all add: rect_ok_def rect_isEmpty_def size_isEmpty_def rect_size_def IntSize_def IntRect_def)
  show "region_ok (Region_rect (IntRect x y w h))" by (rule Region_rect_ok(1) [OF r])
  show "points (Region_rect (IntRect x y w h)) = {(a, b). x \<le> a \<and> a < x + w \<and> y \<le> b \<and> b < y + h}"
    unfolding Region_rect_ok(2) [OF r] using mem_pixels [OF r(1)] by (auto simp: IntRect_def)
qed

lemma region_operations_witness:
  "(let g = Region_rect (IntRect 0 0 3 3); h = Region_rect (IntRect 2 2 3 3) in
    region_ok g \<and> region_ok h \<and> points (unite g h) = points g \<union> points h
    \<and> points (intersect g h) = {(2, 2)} \<and> (1, 1) \<in> points (subtract g h)
    \<and> points (translate (IntSize 5 (- 5)) g) = {(a, b). 5 \<le> a \<and> a < 8 \<and> - 5 \<le> b \<and> b < - 2})"
proof -
  let ?g = "Region_rect (IntRect 0 0 3 3)" and ?h = "Region_rect (IntRect 2 2 3 3)"
  note g = Region_IntRect_ok [of 3 3 0 0] and h = Region_IntRect_ok [of 3 3 2 2]
  have ok: "region_ok ?g" "region_ok ?h" using g(1) h(1) by (simp_all add: small_def)
  have pts: "points ?g = {(a, b). 0 \<le> a \<and> a < 3 \<and> 0 \<le> b \<and> b < 3}" "points ?h = {(a, b). 2 \<le> a \<and> a < 5 \<and> 2 \<le> b \<and> b < 5}"
    using g(2) h(2) by (simp_all add: small_def)
  have "can_move (IntSize 5 (- 5)) (rg_bounds ?g)"
    by (simp add: can_move_def Region_rect_def IntRect_def IntSize_def rect_ok_def small_def)
  note t = region_operations_are_set_operations [OF ok this]
  show ?thesis using ok t pts by (auto simp: Let_def shift_def IntSize_def)
qed

text \<open>
  C39: The queries decide what they say: on well-formed regions, emptiness, containing a pixel, sharing a
  pixel and, for a query region that is not empty, containing all its pixels; the rectangles are
  those of the region, no pixel twice, and the area is their number modulo $2^{32}$.
\<close>
theorem region_queries_decide:
  assumes "region_ok g" "region_ok h" "points h \<noteq> {}"
  shows "region_isEmpty g = (points g = {}) \<and> region_contains_point g x y = ((x, y) \<in> points g)
    \<and> region_intersects g h = (points g \<inter> points h \<noteq> {}) \<and> region_contains g h = (points h \<subseteq> points g)
    \<and> cover (rects g) = points g \<and> disjoint_rects (rects g) \<and> totalArea g = of_nat (card (points g))"
  using region_isEmpty_points(1) [OF assms(1)] region_contains_point_points [OF assms(1)]
    region_intersects_points [OF assms(1,2)] region_contains_points [OF assms]
    rects_points(2,3) [OF assms(1)] totalArea_points(2) [OF assms(1)] by simp

lemma region_queries_witness:
  "(let g = Region_rect (IntRect 0 0 3 3); h = Region_rect (IntRect 2 2 3 3) in
    \<not> region_isEmpty g \<and> region_contains_point g 2 1 \<and> region_intersects g h \<and> \<not> region_contains g h)"
proof -
  let ?g = "Region_rect (IntRect 0 0 3 3)" and ?h = "Region_rect (IntRect 2 2 3 3)"
  note g = Region_IntRect_ok [of 3 3 0 0] and h = Region_IntRect_ok [of 3 3 2 2]
  have ok: "region_ok ?g" "region_ok ?h" using g(1) h(1) by (simp_all add: small_def)
  have pts: "points ?g = {(a, b). 0 \<le> a \<and> a < 3 \<and> 0 \<le> b \<and> b < 3}" "points ?h = {(a, b). 2 \<le> a \<and> a < 5 \<and> 2 \<le> b \<and> b < 5}"
    using g(2) h(2) by (simp_all add: small_def)
  have m: "(2, 2) \<in> points ?h" "(2, 2) \<in> points ?g" "(2, 1) \<in> points ?g" "(4, 4) \<in> points ?h" "(4, 4) \<notin> points ?g" using pts by simp_all
  hence "points ?h \<noteq> {}" by blast
  note t = region_queries_decide [OF ok this, of 2 1]
  show ?thesis using t m by (auto simp: Let_def)
qed

text \<open>
  The query region is said to be contained when it is a subset; the empty region is a subset of every
  region, and is contained only in those whose bounds reach the origin.
\<close>

lemma empty_region_is_not_contained:
  "\<not> region_contains (Region_rect (IntRect 5 5 2 2)) Region_empty \<and> region_contains (Region_rect (IntRect 0 0 2 2)) Region_empty"
  by (simp add: region_contains_def Region_rect_def Region_empty_def rect_contains_def IntRect_def rc_maxX_def rc_maxY_def
      compareShapes_def shape_rows_def Shape_def compare_spans.simps CompareContainsOperation_def Shape_rect_def
      appendSpan_def appendSegment_def Let_def)

text \<open>
  A region made of a rectangle of no width keeps an empty segment; united with two rectangles around it, the
  region has a row that a query between them meets, although they share no pixel.
\<close>

lemma empty_rect_is_met:
  "region_intersects
     (unite (unite (Region_rect (IntRect 5 5 0 10)) (Region_rect (IntRect 0 0 3 3))) (Region_rect (IntRect 10 10 3 3)))
     (Region_rect (IntRect 4 6 3 3))"
  by code_simp

end
