(* ===== verification/Region_Coder.thy ===== *)
theory Region_Coder
  imports Region_Queries IPC_Messages
begin

text \<open>
  Regions in messages: \<^verbatim>\<open>ArgumentCoder<Region>\<close> of \<^verbatim>\<open>WebKit2/Shared/WebCoreArgumentCoders.cpp\<close>. The two vectors of
  the shape are sent; the receiver computes the bounds and then asks the region whether it is valid.
  Nothing compares the indices of the spans with the number of segments.
\<close>

subsection \<open>The coders\<close>

definition encode_int32 :: "(nat \<Rightarrow> byte) \<Rightarrow> int \<Rightarrow> encoder \<Rightarrow> encoder" where
  "encode_int32 junk n = encode_int junk 4 (nat (n mod 4294967296))"

definition decode_int32 :: "int dec" where
  "decode_int32 = dbind (decode_int 4) (\<lambda>n. dreturn (s32 (int n)))"

definition encode_ints32 :: "(nat \<Rightarrow> byte) \<Rightarrow> int list \<Rightarrow> encoder \<Rightarrow> encoder" where
  "encode_ints32 junk ns = encode_vector_int junk 4 (map (\<lambda>n. nat (n mod 4294967296)) ns)"

definition decode_ints32 :: "int list dec" where
  "decode_ints32 = dbind (decode_vector_int 4) (\<lambda>ns. dreturn (map (\<lambda>n. s32 (int n)) ns))"

definition encode_Span :: "(nat \<Rightarrow> byte) \<Rightarrow> span \<Rightarrow> encoder \<Rightarrow> encoder" where
  "encode_Span junk sp e = encode_uint64 junk (of_nat (span_segmentIndex sp)) (encode_int32 junk (span_y sp) e)"

definition decode_Span :: "span dec" where
  "decode_Span = dbind decode_int32 (\<lambda>y. dbind decode_uint64 (\<lambda>segmentIndex.
     dreturn \<lparr>span_y = y, span_segmentIndex = unat segmentIndex\<rparr>))"

definition encode_Region :: "(nat \<Rightarrow> byte) \<Rightarrow> region \<Rightarrow> encoder \<Rightarrow> encoder" where
  "encode_Region junk g e =
     encode_vector junk (encode_Span junk) (sh_spans (rg_shape g)) (encode_ints32 junk (sh_segments (rg_shape g)) e)"

text \<open>
  Whether \<^verbatim>\<open>Shape::bounds\<close> stays inside the vector: the first segment of a span is read through the
  checked subscript, which stops the process; the last one through a bare pointer.
\<close>

fun bounds_reads_inside :: "int list \<Rightarrow> span list \<Rightarrow> bool" where
  "bounds_reads_inside segments (sp # sp' # spans) \<longleftrightarrow>
     (if span_segmentIndex sp \<noteq> length segments
      then span_segmentIndex sp < length segments \<and> 0 < span_segmentIndex sp' \<and> span_segmentIndex sp' \<le> length segments
             \<and> bounds_reads_inside segments (sp' # spans)
      else bounds_reads_inside segments (sp' # spans))"
| "bounds_reads_inside segments spans \<longleftrightarrow> True"

definition decode_Region :: "region dec" where
  "decode_Region = dbind decode_ints32 (\<lambda>segments. dbind (decode_vector decode_Span) (\<lambda>spans d.
     let shape = \<lparr>sh_segments = segments, sh_spans = spans\<rparr> in
     if \<not> bounds_reads_inside segments spans then (Fault OutOfBoundsRead, d)
     else let region = updateBoundsFromShape \<lparr>rg_bounds = IntRect 0 0 0 0, rg_shape = shape\<rparr>
          in case shape_isValid shape of
               None \<Rightarrow> (Fault OutOfBoundsRead, d)
             | Some True \<Rightarrow> (Value region, d)
             | Some False \<Rightarrow> (Fail, d)))"

subsection \<open>Round trip\<close>

definition int32 :: "int \<Rightarrow> bool" where
  "int32 n \<longleftrightarrow> - 2147483648 \<le> n \<and> n < 2147483648"

lemma s32_mod: "int32 n \<Longrightarrow> s32 (int (nat (n mod 4294967296))) = n"
  by (simp add: int32_def s32_def mod_add_left_eq)

lemmas s32_mods = s32_mod s32_mod [simplified]

lemma four: "(4 :: nat) \<in> alignments"
  by (simp add: alignments_def)

lemma int32_coder: "coder (encode_int32 junk) decode_int32 int32"
  by (rule coder_map [OF int_coder [OF four, of junk], where f = "\<lambda>n. nat (n mod 4294967296)"])
    (auto simp: encode_int32_def decode_int32_def dbind_def dreturn_def s32_mods nat_less_iff)

lemma ints32_coder: "coder (encode_ints32 junk) decode_ints32 (\<lambda>ns. length ns < 2 ^ 64 \<and> (\<forall>n\<in>set ns. int32 n))"
  by (rule coder_map [OF vector_int_coder [OF four, of junk], where f = "map (\<lambda>n. nat (n mod 4294967296))"])
    (auto simp: encode_ints32_def decode_ints32_def dbind_def dreturn_def s32_mods nat_less_iff o_def cong: map_cong
      intro!: map_idI)

lemma Span_coder:
  "coder (encode_Span junk) decode_Span (\<lambda>sp. int32 (span_y sp) \<and> span_segmentIndex sp < 2 ^ 64)"
  by (rule coder_seq [OF int32_coder [of junk], where fs = span_y and sn = "\<lambda>sp. of_nat (span_segmentIndex sp)"
        and ?dec2.0 = "\<lambda>_. decode_uint64" and ?ok2.0 = "\<lambda>_ _. True" and ?enc2.0 = "encode_uint64 junk"])
    (auto simp: encode_Span_def decode_Span_def dbind_def dreturn_def unat_length_64 uint64_coder.coder_axioms)

text \<open>The regions whose shape fits into a message and whose bounds are those of the shape.\<close>

definition sendable :: "region \<Rightarrow> bool" where
  "sendable g \<longleftrightarrow> region_ok g \<and> rg_bounds g = shape_bounds (rg_shape g)
     \<and> length (sh_segments (rg_shape g)) < 2 ^ 64 \<and> length (sh_spans (rg_shape g)) < 2 ^ 64"

lemma bounds_reads_ok:
  assumes "goes_on s rows" "pre \<noteq> [] \<or> s = []"
  shows "bounds_reads_inside (pre @ concat (map snd rows)) (pack_spans (length pre) rows)"
  using assms
proof (induction rows arbitrary: s pre)
  case (Cons r rows)
  show ?case
  proof (cases rows)
    case (Cons r' rows')
    have g: "goes_on (snd r) rows" "pre @ snd r \<noteq> []" using Cons.prems by (auto simp: goes_on_Cons)
    have "bounds_reads_inside ((pre @ snd r) @ concat (map snd rows)) (pack_spans (length (pre @ snd r)) rows)"
      by (rule Cons.IH [OF g(1)]) (use g(2) in simp)
    thus ?thesis using g(2) Cons by auto
  qed simp
qed simp

lemma shape_ok_sendable:
  assumes "shape_ok s" "length (sh_segments s) < 2 ^ 64"
  shows "bounds_reads_inside (sh_segments s) (sh_spans s)" "\<forall>n\<in>set (sh_segments s). int32 n"
    and "\<forall>sp\<in>set (sh_spans s). int32 (span_y sp) \<and> span_segmentIndex sp < 2 ^ 64"
proof -
  have p: "s = pack (shape_rows s)" and g: "goes_on [] (shape_rows s)"
    using assms(1) by (simp_all add: shape_ok_def rows_ok_goes_on)
  have v: "sh_segments s = concat (map snd (shape_rows s))" "sh_spans s = pack_spans 0 (shape_rows s)"
    using p unfolding pack_def by (metis shape.select_convs)+
  show "bounds_reads_inside (sh_segments s) (sh_spans s)" unfolding v using bounds_reads_ok [OF g, of "[]"] by simp
  have rows: "\<forall>r\<in>set (shape_rows s). row_ok r" using g by (simp add: goes_on_def)
  show "\<forall>n\<in>set (sh_segments s). int32 n"
    unfolding v using rows by (force simp: row_ok_def segs_ok_def small_def int32_def)
  have "\<forall>sp\<in>set (pack_spans n rows). int32 (span_y sp) \<and> span_segmentIndex sp \<le> n + length (concat (map snd rows))"
    if "\<forall>r\<in>set rows. row_ok r" for n rows
    using that by (induction rows arbitrary: n) (fastforce simp: row_ok_def small_def int32_def)+
  from this [OF rows, of 0] show "\<forall>sp\<in>set (sh_spans s). int32 (span_y sp) \<and> span_segmentIndex sp < 2 ^ 64"
    using assms(2) unfolding v by fastforce
qed

lemma Region_coder: "coder (encode_Region junk) decode_Region sendable"
proof (rule coder_seq [OF ints32_coder [of junk], where fs = "\<lambda>g. sh_segments (rg_shape g)" and sn = "\<lambda>g. sh_spans (rg_shape g)"
      and ?dec2.0 = "\<lambda>_. decode_vector decode_Span"
      and ?ok2.0 = "\<lambda>_ sps. length sps < 2 ^ 64 \<and> (\<forall>sp\<in>set sps. int32 (span_y sp) \<and> span_segmentIndex sp < 2 ^ 64)"
      and ?enc2.0 = "encode_vector junk (encode_Span junk)"])
  show "coder (encode_vector junk (encode_Span junk)) (decode_vector decode_Span)
      (\<lambda>sps. length sps < 2 ^ 64 \<and> (\<forall>sp\<in>set sps. int32 (span_y sp) \<and> span_segmentIndex sp < 2 ^ 64))"
    by (rule coder.vector_coder [OF Span_coder])
  fix g assume "sendable g"
  hence g: "shape_ok (rg_shape g)" "rg_bounds g = shape_bounds (rg_shape g)" "length (sh_segments (rg_shape g)) < 2 ^ 64"
      "length (sh_spans (rg_shape g)) < 2 ^ 64" by (simp_all add: sendable_def region_ok_def)
  note s = shape_ok_sendable [OF g(1,3)]
  show "length (sh_segments (rg_shape g)) < 2 ^ 64 \<and> (\<forall>n\<in>set (sh_segments (rg_shape g)). int32 n)" using g(3) s(2) by blast
  show "length (sh_spans (rg_shape g)) < 2 ^ 64
      \<and> (\<forall>sp\<in>set (sh_spans (rg_shape g)). int32 (span_y sp) \<and> span_segmentIndex sp < 2 ^ 64)" using g(4) s(3) by blast
  fix d d' d''
  assume dec: "decode_ints32 d = (Value (sh_segments (rg_shape g)), d')"
    "decode_vector decode_Span d' = (Value (sh_spans (rg_shape g)), d'')"
  have sh: "\<lparr>sh_segments = sh_segments (rg_shape g), sh_spans = sh_spans (rg_shape g)\<rparr> = rg_shape g" by simp
  have "updateBoundsFromShape \<lparr>rg_bounds = IntRect 0 0 0 0, rg_shape = rg_shape g\<rparr> = g"
    using g(2) by (simp add: updateBoundsFromShape_def)
  thus "decode_Region d = (Value g, d'')"
    using dec s(1) isValid_ok [OF g(1)] by (simp add: decode_Region_def dbind_def sh Let_def)
qed (simp_all add: encode_Region_def)

interpretation Region_coding: coder "encode_Region junk" decode_Region sendable for junk
  by (rule Region_coder)

definition region_bytes :: "(nat \<Rightarrow> byte) \<Rightarrow> region \<Rightarrow> byte list" where
  "region_bytes junk g = e_content (encode_Region junk g (ArgumentEncoder junk))"


lemma sample_region:
  defines "g \<equiv> Region_rect (IntRect 1 2 3 4)"
  shows "sendable g" "length (region_bytes junk g) = 56"
proof -
  have ok: "region_ok g" "points g = {(a, b). 1 \<le> a \<and> a < 4 \<and> 2 \<le> b \<and> b < 6}"
    using Region_IntRect_ok [of 3 4 1 2] by (simp_all add: g_def small_def)
  have "(1, 2) \<in> points g" using ok(2) by simp
  hence "rg_bounds g = shape_bounds (rg_shape g)" using region_bounds_unique(1) [OF ok(1)] by blast
  thus s: "sendable g"
    using ok(1) by (simp add: sendable_def g_def Region_rect_def Shape_rect_def appendSpan_def appendSegment_def Shape_def Let_def)
  have "enc_wf (encode_Region junk g (ArgumentEncoder junk))" by (rule Region_coding.enc_keeps [OF s]) simp
  hence "length (region_bytes junk g) = e_size (encode_Region junk g (ArgumentEncoder junk))" by (simp add: region_bytes_def)
  thus "length (region_bytes junk g) = 56"
    by (simp add: g_def Region_rect_def Shape_rect_def appendSpan_def appendSegment_def Shape_def IntRect_def Let_def
        encode_Region_def encode_Span_def encode_ints32_def encode_int32_def encoded_size roundUpToAlignment_def)
qed


text \<open>
  The indices of the spans are trusted: whatever its segments, a shape whose second span points beyond
  them makes the receiver read outside the vector while it computes the bounds, before the validity check.
\<close>
theorem span_indices_are_trusted:
  assumes "segments \<noteq> []" "\<forall>n\<in>set segments. int32 n" "length segments < n" "n < 2 ^ 64" "int32 y" "int32 y'"
    and "g = \<lparr>rg_bounds = b, rg_shape = \<lparr>sh_segments = segments,
      sh_spans = [\<lparr>span_y = y, span_segmentIndex = 0\<rparr>, \<lparr>span_y = y', span_segmentIndex = n\<rparr>]\<rparr>\<rparr>"
    and "dec_wf (ArgumentDecoder base (region_bytes junk g @ rest) atts)"
  shows "fst (decode_Region (ArgumentDecoder base (region_bytes junk g @ rest) atts)) = Fault OutOfBoundsRead"
proof -
  let ?d = "ArgumentDecoder base (region_bytes junk g @ rest) atts" and ?e = "ArgumentEncoder junk"
  let ?spans = "sh_spans (rg_shape g)"
  let ?e1 = "encode_ints32 junk segments ?e" and ?e2 = "encode_Region junk g ?e"
  have ok: "length segments < 2 ^ 64 \<and> (\<forall>n\<in>set segments. int32 n)"
      "length ?spans < 2 ^ 64 \<and> (\<forall>sp\<in>set ?spans. int32 (span_y sp) \<and> span_segmentIndex sp < 2 ^ 64)"
    using assms(2-7) by simp_all
  note spans = coder.vector_coder [OF Span_coder, of junk junk]
  have e2: "?e2 = encode_vector junk (encode_Span junk) ?spans ?e1" using assms(7) by (simp add: encode_Region_def)
  have wf: "enc_wf ?e1" by (rule coder.enc_keeps [OF ints32_coder ok(1) enc_wf_init(1)])
  have "reads ?d ?e2" by (simp add: reads_def region_bytes_def ArgumentDecoder_def)
  hence r: "reads ?d (encode_vector junk (encode_Span junk) ?spans ?e1)" by (simp add: e2)
  have "decode_ints32 (d_at ?d (e_size ?e)) = (Value segments, d_at ?d (e_size ?e1))"
    by (rule coder.dec_enc [OF ints32_coder ok(1) enc_wf_init(1) assms(8) coder.reads_before [OF spans ok(2) wf r]])
  moreover have "decode_vector decode_Span (d_at ?d (e_size ?e1)) = (Value ?spans, d_at ?d (e_size ?e2))"
    unfolding e2 by (rule coder.dec_enc [OF spans ok(2) wf assms(8) r])
  moreover have "\<not> bounds_reads_inside segments ?spans" using assms(1,3,7) by simp
  ultimately have "fst (decode_Region (d_at ?d 0)) = Fault OutOfBoundsRead"
    using assms(7) by (simp add: decode_Region_def dbind_def Let_def)
  thus ?thesis using ArgumentDecoder_at [of base "region_bytes junk g @ rest" atts] by simp
qed

end
