(* ===== verification/IPC_Types.thy ===== *)
theory IPC_Types
  imports IPC_Messages
begin

text \<open>
  Type soundness of decoding: a value that a decoder returns, for whatever bytes, is a value of the type
  that was asked for, so that the handlers of messages need not look at its shape: numbers have the width of their
  type, lengths fit the machine, and maps have no reserved and no repeated keys.
\<close>

definition yields :: "('a \<Rightarrow> bool) \<Rightarrow> 'a dec \<Rightarrow> bool" where
  "yields P f \<longleftrightarrow> (\<forall>d x d'. f d = (Value x, d') \<longrightarrow> P x)"

lemma yieldsI: "(\<And>d x d'. f d = (Value x, d') \<Longrightarrow> P x) \<Longrightarrow> yields P f"
  unfolding yields_def by blast

lemma yields_mono: "\<lbrakk>yields P f; \<And>x. P x \<Longrightarrow> Q x\<rbrakk> \<Longrightarrow> yields Q f"
  unfolding yields_def by blast

lemma yields_dreturn: "P x \<Longrightarrow> yields P (dreturn x)"
  by (simp add: yields_def dreturn_def)

lemma yields_any: "yields (\<lambda>x. True) f"
  by (simp add: yields_def)

lemma yields_dbind:
  assumes "yields P f" "\<And>x. P x \<Longrightarrow> yields Q (g x)"
  shows "yields Q (dbind f g)"
proof (rule yieldsI)
  fix d y d' assume r: "dbind f g d = (Value y, d')"
  obtain q d1 where q: "f d = (q, d1)" by fastforce
  with r obtain x where x: "q = Value x" "g x d1 = (Value y, d')" by (cases q) (simp_all add: dbind_def)
  have "P x" using assms(1) q x(1) unfolding yields_def by blast
  thus "Q y" using assms(2) x(2) unfolding yields_def by blast
qed

lemma yields_dmap: "\<lbrakk>yields P f; \<And>x. P x \<Longrightarrow> Q (h x)\<rbrakk> \<Longrightarrow> yields Q (dmap h f)"
  unfolding dmap_def by (blast intro: yields_dbind yields_dreturn)

lemma yields_if: "\<lbrakk>b \<Longrightarrow> yields P f; \<not> b \<Longrightarrow> yields P g\<rbrakk> \<Longrightarrow> yields P (if b then f else g)"
  by simp

lemma yields_test:
  "\<lbrakk>yields P f; yields P g\<rbrakk> \<Longrightarrow> yields P (\<lambda>d. if b d then f d else g d)"
  "yields P (\<lambda>d. (Fail, h d))" "yields P (\<lambda>d. (Fault r, d))"
  by (auto simp: yields_def)

subsection \<open>The basic types\<close>

lemma load_length: "load d n = Some bs \<Longrightarrow> length bs = n"
  by (auto simp: load_def Let_def split: if_splits)

lemma fixed_yields: "yields (\<lambda>bs. length bs = n) (decodeFixedLengthData n a)"
  by (rule yieldsI) (auto simp: decodeFixedLengthData_def dest: load_length split: prod.splits bool.splits option.splits)

lemma int_yields: "yields (\<lambda>n. n < 256 ^ k) (decode_int k)"
  unfolding decode_int_def by (rule yields_dbind [OF fixed_yields yields_dreturn]) (use le_value_less in blast)

lemma data_yields: "yields (\<lambda>bs. length bs < 2 ^ 64) decodeVariableLengthByteArray"
  unfolding decodeVariableLengthByteArray_def
proof (rule yields_dbind [OF yields_any], rule yieldsI)
  fix n :: "64 word" and d bs d'
  assume "(case alignBufferPosition 1 n d of (False, d) \<Rightarrow> (Fail, d) | (True, d) \<Rightarrow> (case load d (unat n) of
      None \<Rightarrow> (Fault OutOfBoundsRead, d) | Some bs \<Rightarrow> (Value bs, d\<lparr>d_pos := d_pos d + n\<rparr>))) = (Value bs, d')"
  hence "length bs = unat n" by (auto dest: load_length split: prod.splits bool.splits option.splits)
  thus "length bs < 2 ^ 64" using unat_less [of n] by simp
qed

lemma proper_length: "(len :: 32 word) \<noteq> - 1 \<Longrightarrow> unat len < 2 ^ 32 - 1"
proof -
  assume "len \<noteq> - 1"
  hence "unat len \<noteq> unat (- 1 :: 32 word)" using word_eq_iff_unsigned [of len "- 1", where 'a = nat] by blast
  moreover have "unat (- 1 :: 32 word) = 2 ^ 32 - 1" by (simp add: unsigned_minus_1_eq_mask mask_eq_exp_minus_1)
  ultimately show ?thesis using unat_less [of len] by simp
qed

lemma cstring_yields: "yields (\<lambda>s. case s of None \<Rightarrow> True | Some bs \<Rightarrow> length bs < 2 ^ 32 - 1) decode_CString"
  unfolding decode_CString_def
  by (intro yields_dbind [OF yields_any] yields_if yields_test yields_dbind [OF fixed_yields] yields_dreturn)
    (use proper_length in simp_all)

lemma units16_length: "length (units16 bs) = length bs div 2"
  by (induction bs rule: units16.induct) simp_all

lemma text_yields: "yields (\<lambda>bs. length bs = unat len * k) (decodeStringText k len)"
  unfolding decodeStringText_def by (intro yields_test fixed_yields)

lemma string_yields: "yields text_ok decode_String"
  unfolding decode_String_def
proof (rule yields_dbind [OF yields_any], rule yields_if)
  fix len :: "32 word" assume "len \<noteq> - 1"
  hence l: "unat len < 2 ^ 32 - 1" by (rule proper_length)
  show "yields text_ok (dbind decode_bool (\<lambda>is8Bit. if is8Bit then dbind (decodeStringText 1 len) (\<lambda>bs. dreturn (Chars8 bs))
      else dbind (decodeStringText 2 len) (\<lambda>bs. dreturn (Chars16 (units16 bs)))))"
    by (intro yields_dbind [OF yields_any] yields_if yields_dbind [OF text_yields] yields_dreturn)
      (use l in \<open>simp_all add: text_ok_def units16_length\<close>)
qed (auto intro: yields_dreturn simp: text_ok_def)

subsection \<open>Vectors and maps\<close>

lemma elements_yield:
  assumes "yields P f"
  shows "yields (\<lambda>xs. length xs = n \<and> (\<forall>x\<in>set xs. P x)) (decode_elements f n)"
proof (induction n)
  case (Suc n)
  show ?case
    unfolding decode_elements.simps
    by (rule yields_dbind [OF assms], rule yields_dbind [OF Suc.IH], rule yields_dreturn) simp
qed (simp add: yields_dreturn)

lemma vector_yields: "yields P f \<Longrightarrow> yields (\<lambda>xs. length xs < 2 ^ 64 \<and> (\<forall>x\<in>set xs. P x)) (decode_vector f)"
  unfolding decode_vector_def
  by (rule yields_dbind [OF yields_any], rule yields_mono [OF elements_yield], assumption) (use unat_less [where 'a = 64] in simp)

lemma entries_yield:
  assumes "yields P f" "yields Q g"
  shows "\<lbrakk>distinct (map fst acc); \<forall>p\<in>set acc. P (fst p) \<and> Q (snd p) \<and> \<not> reserved (fst p)\<rbrakk> \<Longrightarrow>
    yields (\<lambda>kvs. length kvs = length acc + n \<and> distinct (map fst kvs) \<and> (\<forall>p\<in>set kvs. P (fst p) \<and> Q (snd p) \<and> \<not> reserved (fst p)))
      (decode_entries reserved f g n acc)"
proof (induction n arbitrary: acc)
  case (Suc n)
  have "yields (\<lambda>kvs. length kvs = length acc + Suc n \<and> distinct (map fst kvs)
      \<and> (\<forall>p\<in>set kvs. P (fst p) \<and> Q (snd p) \<and> \<not> reserved (fst p)))
      (\<lambda>d. if reserved k then (Fault ReservedKey, d) else if k \<in> fst ` set acc then (Fail, markInvalid d)
        else decode_entries reserved f g n (acc @ [(k, v)]) d)" if "P k" "Q v" for k v
  proof (cases "reserved k \<or> k \<in> fst ` set acc")
    case True
    thus ?thesis by (auto simp: yields_def)
  next
    case False
    have "yields (\<lambda>kvs. length kvs = length (acc @ [(k, v)]) + n \<and> distinct (map fst kvs)
        \<and> (\<forall>p\<in>set kvs. P (fst p) \<and> Q (snd p) \<and> \<not> reserved (fst p))) (decode_entries reserved f g n (acc @ [(k, v)]))"
      by (rule Suc.IH) (use False Suc.prems that in auto)
    thus ?thesis using False by simp
  qed
  thus ?case unfolding decode_entries.simps by (intro yields_dbind [OF assms(1)] yields_dbind [OF assms(2)])
qed (simp add: yields_dreturn)

lemma hash_map_yields:
  assumes "yields P f" "yields Q g"
  shows "yields (\<lambda>kvs. length kvs < 2 ^ 64 \<and> distinct (map fst kvs) \<and> (\<forall>p\<in>set kvs. P (fst p) \<and> Q (snd p) \<and> \<not> reserved (fst p)))
    (decode_hash_map reserved f g)"
  unfolding decode_hash_map_def
proof (rule yields_dbind [OF yields_any])
  fix n :: "64 word"
  show "yields (\<lambda>kvs. length kvs < 2 ^ 64 \<and> distinct (map fst kvs) \<and> (\<forall>p\<in>set kvs. P (fst p) \<and> Q (snd p) \<and> \<not> reserved (fst p)))
      (decode_entries reserved f g (unat n) [])"
    by (rule yields_mono [OF entries_yield [OF assms, of "[]" reserved "unat n"]]) (use unat_less [of n] in simp_all)
qed

lemma split_ints_typed: "length bs = n * k \<Longrightarrow> 0 < k \<Longrightarrow> length (split_ints k bs) = n \<and> (\<forall>m\<in>set (split_ints k bs). m < 256 ^ k)"
proof (induction n arbitrary: bs)
  case 0
  thus ?case by (simp add: split_ints.simps [of k "[]"])
next
  case (Suc n)
  have "le_value (take k bs) < 256 ^ k" using le_value_less [of "take k bs"] Suc.prems by simp
  moreover have "length (drop k bs) = n * k" using Suc.prems by simp
  ultimately show ?case using Suc.IH [of "drop k bs"] Suc.prems by (simp add: split_ints.simps [of k bs])
qed

lemma ints_yield:
  assumes "0 < k"
  shows "yields (\<lambda>ns. length ns < 2 ^ 64 \<and> (\<forall>n\<in>set ns. n < 256 ^ k)) (decode_vector_int k)"
  unfolding decode_vector_int_def
proof (rule yields_dbind [OF yields_any], rule yieldsI)
  fix n :: "64 word" and d ns d'
  assume r: "(if \<not> bufferIsLargeEnoughToContainElements k n d then (Fail, markInvalid d)
     else (case decodeFixedLengthData (unat n * k) k d of (Fault r, d) \<Rightarrow> (Fault r, d)
       | (Fail, d) \<Rightarrow> (Value (replicate (unat n) 0), d) | (Value bs, d) \<Rightarrow> (Value (split_ints k bs), d))) = (Value ns, d')"
  obtain q d1 where q: "decodeFixedLengthData (unat n * k) k d = (q, d1)" by fastforce
  have "length ns = unat n \<and> (\<forall>m\<in>set ns. m < 256 ^ k)"
  proof (cases q)
    case (Value bs)
    hence "length bs = unat n * k" using fixed_yields q unfolding yields_def by blast
    from split_ints_typed [OF this assms] show ?thesis using r q Value by (auto split: if_splits)
  qed (use r q in \<open>auto split: if_splits\<close>)
  thus "length ns < 2 ^ 64 \<and> (\<forall>n\<in>set ns. n < 256 ^ k)" using unat_less [of n] by simp
qed

lemma arg_yields: "wf_type t \<Longrightarrow> yields (has_type t) (decode_arg t)"
proof (induction t)
  case T_bool
  show ?case by (simp, rule yields_dmap [OF yields_any]) simp
next
  case (T_int k)
  show ?case by (simp, rule yields_dmap [OF int_yields]) simp
next
  case T_enum
  show ?case by (simp, rule yields_dmap [OF int_yields]) simp
next
  case (T_pod n a)
  show ?case by (simp, rule yields_dmap [OF fixed_yields]) simp
next
  case T_data
  show ?case by (simp, rule yields_dmap [OF data_yields]) simp
next
  case T_cstring
  show ?case by (simp, rule yields_dmap [OF cstring_yields]) simp
next
  case T_string
  show ?case by (simp, rule yields_dmap [OF string_yields]) simp
next
  case (T_pair t u)
  hence p: "yields (has_type t) (decode_arg t)" "yields (has_type u) (decode_arg u)" by simp_all
  have "yields (\<lambda>p. has_type t (fst p) \<and> has_type u (snd p)) (decode_pair (decode_arg t) (decode_arg u))"
    unfolding decode_pair_def by (rule yields_dbind [OF p(1)], rule yields_dbind [OF p(2)], rule yields_dreturn) simp
  thus ?case unfolding decode_arg.simps by (rule yields_dmap) (simp add: case_prod_beta)
next
  case (T_ints k)
  hence "0 < k" by (auto simp: alignments_def)
  from ints_yield [OF this] show ?case by (simp, rule yields_dmap) simp
next
  case (T_vector t)
  hence "yields (has_type t) (decode_arg t)" by simp
  from vector_yields [OF this] show ?case by (simp, rule yields_dmap) simp
next
  case (T_map t u)
  hence "yields (has_type t) (decode_arg t)" "yields (has_type u) (decode_arg u)" by simp_all
  from hash_map_yields [OF this] show ?case by (simp, rule yields_dmap) auto
qed



end
