(* ===== verification/Drawing_Area.thy ===== *)
theory Drawing_Area
  imports Region_Queries
begin

text \<open>
  The web process's side of drawing, \<^verbatim>\<open>WebKit2/WebProcess/WebPage/DrawingAreaImpl.cpp\<close>: it collects the part of
  the page that has to be painted again and the scrolling that can be done by copying, paints when a timer
  fires, and sends the pixels to the UI process, at most one update ahead of it.

  The page is what it shows, a colour for each pixel; a bitmap has no colour where nothing was painted.
  Layout, resizing and scrolling of the page are WebCore's: they are parameters of the model, which may call
  back into the drawing area. The device scale factor is 1.
\<close>

subsection \<open>Messages\<close>

record 'c update_info =
  ui_viewSize :: int_size
  ui_scrollRect :: int_rect
  ui_scrollOffset :: int_size
  ui_updateRectBounds :: int_rect
  ui_updateRects :: "int_rect list"
  ui_bitmap :: "(pixel \<Rightarrow> 'c option) option"

type_synonym layer_tree_context = nat

text \<open>To the UI process (\<^verbatim>\<open>DrawingAreaProxy\<close>) and from it (\<^verbatim>\<open>DrawingArea\<close>). The empty layer tree context is 0.\<close>

datatype 'c proxy_message =
    Update nat "'c update_info"
  | DidUpdateBackingStoreState nat "'c update_info" layer_tree_context
  | EnterAcceleratedCompositingMode nat layer_tree_context
  | ExitAcceleratedCompositingMode nat "'c update_info"
  | UpdateAcceleratedCompositingMode nat layer_tree_context

datatype area_message =
    UpdateBackingStoreState nat bool int_size int_size
  | DidUpdate

text \<open>Calls of the layer tree host, which paints when the page is composited.\<close>

datatype host_call =
    Host_setNonCompositedContentsNeedDisplay
  | Host_setNonCompositedContentsNeedDisplayInRect int_rect
  | Host_scrollNonCompositedContents int_rect
  | Host_setLayerFlushSchedulingEnabled bool
  | Host_forceRepaint
  | Host_setShouldNotifyAfterNextScheduledLayerFlush bool
  | Host_setRootCompositingLayer bool
  | Host_scheduleLayerFlush
  | Host_sizeDidChange int_size
  | Host_pauseRendering
  | Host_resumeRendering
  | Host_invalidate
  | Host_pageBackgroundTransparencyChanged
  | Host_forceRepaintAsync nat
  | Host_didInstallPageOverlay nat
  | Host_didUninstallPageOverlay nat
  | Host_setPageOverlayNeedsDisplay nat int_rect
  | Host_setPageOverlayOpacity nat nat

record 'c drawing_area =
  da_backingStoreStateID :: nat
  da_dirtyRegion :: region
  da_scrollRect :: int_rect
  da_scrollOffset :: int_size
  da_isPaintingEnabled :: bool
  da_inUpdateBackingStoreState :: bool
  da_shouldSendDidUpdateBackingStoreState :: bool
  da_isWaitingForDidUpdate :: bool
  da_compositingAccordingToProxyMessages :: bool
  da_layerTreeStateIsFrozen :: bool
  da_wantsToExitAcceleratedCompositingMode :: bool
  da_isPaintingSuspended :: bool
  da_alwaysUseCompositing :: bool
  da_displayTimer :: bool
  da_exitCompositingTimer :: bool
  da_layerTreeHost :: bool
  wp_size :: int_size
  wp_content :: "pixel \<Rightarrow> 'c"
  da_sent :: "'c proxy_message list"
  da_hostCalls :: "host_call list"

text \<open>What the rest of the web process does when it is called: it may call the drawing area back.\<close>

record 'c page_env =
  env_layoutIfNeeded :: "'c drawing_area \<Rightarrow> 'c drawing_area"
  env_setSize :: "int_size \<Rightarrow> 'c drawing_area \<Rightarrow> 'c drawing_area"
  env_scrollMainFrame :: "int_size \<Rightarrow> 'c drawing_area \<Rightarrow> 'c drawing_area"
  env_createBitmap :: "int_size \<Rightarrow> bool"
  env_layerTreeContext :: layer_tree_context

definition UpdateInfo :: "'c update_info" where
  "UpdateInfo = \<lparr>ui_viewSize = IntSize 0 0, ui_scrollRect = IntRect 0 0 0 0, ui_scrollOffset = IntSize 0 0,
     ui_updateRectBounds = IntRect 0 0 0 0, ui_updateRects = [], ui_bitmap = None\<rparr>"

definition da_send :: "'c proxy_message \<Rightarrow> 'c drawing_area \<Rightarrow> 'c drawing_area" where
  "da_send msg da = da\<lparr>da_sent := da_sent da @ [msg]\<rparr>"

definition host :: "host_call \<Rightarrow> 'c drawing_area \<Rightarrow> 'c drawing_area" where
  "host call da = da\<lparr>da_hostCalls := da_hostCalls da @ [call]\<rparr>"

definition wp_bounds :: "'c drawing_area \<Rightarrow> int_rect" where
  "wp_bounds da = IntRect 0 0 (sz_width (wp_size da)) (sz_height (wp_size da))"

subsection \<open>Collecting damage\<close>

definition scheduleDisplay :: "'c drawing_area \<Rightarrow> 'c drawing_area" where
  "scheduleDisplay da =
     (if da_isWaitingForDidUpdate da then da
      else if da_isPaintingSuspended da then da
      else if region_isEmpty (da_dirtyRegion da) then da
      else if da_displayTimer da then da
      else da\<lparr>da_displayTimer := True\<rparr>)"

definition setNeedsDisplayInRect :: "int_rect \<Rightarrow> 'c drawing_area \<Rightarrow> 'c drawing_area" where
  "setNeedsDisplayInRect rect da =
     (if \<not> da_isPaintingEnabled da then da
      else if da_layerTreeHost da then host (Host_setNonCompositedContentsNeedDisplayInRect rect) da
      else let dirtyRect = rect_intersect rect (wp_bounds da) in
           if rect_isEmpty dirtyRect then da
           else scheduleDisplay (da\<lparr>da_dirtyRegion := unite (da_dirtyRegion da) (Region_rect dirtyRect)\<rparr>))"

definition setNeedsDisplay :: "'c drawing_area \<Rightarrow> 'c drawing_area" where
  "setNeedsDisplay da =
     (if \<not> da_isPaintingEnabled da then da
      else if da_layerTreeHost da then host Host_setNonCompositedContentsNeedDisplay da
      else setNeedsDisplayInRect (wp_bounds da) da)"

definition area_of :: "int_rect \<Rightarrow> 32 word" where
  "area_of r = word_of_int (s32 (rc_width r * rc_height r))"

text \<open>The part of \<^verbatim>\<open>scroll\<close> after the decision to scroll \<open>scrollRect\<close>.\<close>

definition scroll_rect :: "int_rect \<Rightarrow> int_size \<Rightarrow> 'c drawing_area \<Rightarrow> 'c drawing_area" where
  "scroll_rect scrollRect scrollDelta da =
     (let dirtyRegionInScrollRect = intersect (Region_rect scrollRect) (da_dirtyRegion da);
          da = (if \<not> region_isEmpty dirtyRegionInScrollRect
                then let dirty = subtract (da_dirtyRegion da) (Region_rect scrollRect);
                         movedDirtyRegionInScrollRect =
                           intersect (translate scrollDelta dirtyRegionInScrollRect) (Region_rect scrollRect)
                     in da\<lparr>da_dirtyRegion := unite dirty movedDirtyRegionInScrollRect\<rparr>
                else da);
          scrollRepaintRegion = subtract (Region_rect scrollRect) (translate scrollDelta (Region_rect scrollRect));
          da = scheduleDisplay (da\<lparr>da_dirtyRegion := unite (da_dirtyRegion da) scrollRepaintRegion\<rparr>)
      in da\<lparr>da_scrollRect := scrollRect, da_scrollOffset := size_add (da_scrollOffset da) scrollDelta\<rparr>)"

definition da_scroll :: "int_rect \<Rightarrow> int_size \<Rightarrow> 'c drawing_area \<Rightarrow> 'c drawing_area" where
  "da_scroll scrollRect scrollDelta da =
     (if \<not> da_isPaintingEnabled da then da
      else if da_layerTreeHost da then host (Host_scrollNonCompositedContents scrollRect) da
      else if rect_isEmpty scrollRect then da
      else if \<not> rect_isEmpty (da_scrollRect da) \<and> scrollRect \<noteq> da_scrollRect da
      then if area_of scrollRect \<le> area_of (da_scrollRect da) then setNeedsDisplayInRect scrollRect da
           else let da = setNeedsDisplayInRect (da_scrollRect da) da
                in scroll_rect scrollRect scrollDelta
                     (da\<lparr>da_scrollRect := IntRect 0 0 0 0, da_scrollOffset := IntSize 0 0\<rparr>)
      else scroll_rect scrollRect scrollDelta da)"

subsection \<open>Painting\<close>

text \<open>
  \<^verbatim>\<open>1 - rectsArea / boundsArea <= 0.75\<close> on doubles: both areas are exact, and the quotient of two 32-bit numbers is
  below a quarter by at least $2^{-34}$ or not at all, so the rounding does not change the answer.
\<close>

definition shouldPaintBoundsRect :: "int_rect \<Rightarrow> int_rect list \<Rightarrow> bool" where
  "shouldPaintBoundsRect bounds rs =
     (if length rs \<le> 1 \<or> 10 < length rs then True
      else let boundsArea = unat (area_of bounds);
               rectsArea = unat (fold (\<lambda>r a. a + area_of r) rs 0)
           in if boundsArea = 0 then 0 < rectsArea else boundsArea \<le> 4 * rectsArea)"

text \<open>\<^verbatim>\<open>drawRect\<close> into the bitmap, whose origin is the corner of the bounds, for one rectangle after the other.\<close>

definition draw_rect :: "(pixel \<Rightarrow> 'c) \<Rightarrow> int_rect \<Rightarrow> int_rect \<Rightarrow> (pixel \<Rightarrow> 'c option) \<Rightarrow> pixel \<Rightarrow> 'c option" where
  "draw_rect content bounds r bitmap p =
     (let q = (fst p + rc_x bounds, snd p + rc_y bounds) in if q \<in> pixels r then Some (content q) else bitmap p)"

definition draw_rects :: "(pixel \<Rightarrow> 'c) \<Rightarrow> int_rect \<Rightarrow> int_rect list \<Rightarrow> pixel \<Rightarrow> 'c option" where
  "draw_rects content bounds rs = fold (draw_rect content bounds) rs (\<lambda>p. None)"

definition display_update :: "'c page_env \<Rightarrow> 'c update_info \<Rightarrow> 'c drawing_area \<Rightarrow> 'c update_info \<times> 'c drawing_area" where
  "display_update env info da =
     (let da = env_layoutIfNeeded env da in
      if da_layerTreeHost da then (info, da)
      else let info = info\<lparr>ui_viewSize := wp_size da\<rparr>;
               bounds = rg_bounds (da_dirtyRegion da)
           in if \<not> env_createBitmap env (rect_size bounds) then (info, da)
              else let rs = rects (da_dirtyRegion da);
                       rs = (if shouldPaintBoundsRect bounds rs then [bounds] else rs);
                       info = info\<lparr>ui_scrollRect := da_scrollRect da, ui_scrollOffset := da_scrollOffset da\<rparr>;
                       da = da\<lparr>da_dirtyRegion := Region_empty, da_scrollRect := IntRect 0 0 0 0,
                               da_scrollOffset := IntSize 0 0\<rparr>;
                       info = info\<lparr>ui_updateRectBounds := bounds, ui_updateRects := ui_updateRects info @ rs,
                                   ui_bitmap := Some (draw_rects (wp_content da) bounds rs)\<rparr>
                   in (info, da\<lparr>da_displayTimer := False\<rparr>))"

definition sendDidUpdateBackingStoreState :: "'c page_env \<Rightarrow> 'c drawing_area \<Rightarrow> 'c drawing_area" where
  "sendDidUpdateBackingStoreState env da =
     (let da = da\<lparr>da_shouldSendDidUpdateBackingStoreState := False\<rparr>;
          (info, da) = (if \<not> da_isPaintingSuspended da \<and> \<not> da_layerTreeHost da
                        then display_update env UpdateInfo da else (UpdateInfo, da));
          (info, da, context) =
            (if da_isPaintingSuspended da \<or> da_layerTreeHost da
             then let info = info\<lparr>ui_viewSize := wp_size da\<rparr> in
                  if da_layerTreeHost da
                  then (info, host Host_forceRepaint (host (Host_setShouldNotifyAfterNextScheduledLayerFlush False) da),
                        env_layerTreeContext env)
                  else (info, da, 0)
             else (info, da, 0));
          da = da_send (DidUpdateBackingStoreState (da_backingStoreStateID da) info context) da
      in da\<lparr>da_compositingAccordingToProxyMessages := context \<noteq> 0\<rparr>)"

definition display :: "'c page_env \<Rightarrow> 'c drawing_area \<Rightarrow> 'c drawing_area" where
  "display env da =
     (if da_isPaintingSuspended da then da
      else if region_isEmpty (da_dirtyRegion da) then da
      else if da_shouldSendDidUpdateBackingStoreState da then sendDidUpdateBackingStoreState env da
      else let (info, da) = display_update env UpdateInfo da in
           if da_layerTreeHost da then da
           else (da_send (Update (da_backingStoreStateID da) info) da)\<lparr>da_isWaitingForDidUpdate := True\<rparr>)"

definition displayTimerFired :: "'c page_env \<Rightarrow> 'c drawing_area \<Rightarrow> 'c drawing_area" where
  "displayTimerFired env da = display env da"

definition didUpdate :: "'c page_env \<Rightarrow> 'c drawing_area \<Rightarrow> 'c drawing_area" where
  "didUpdate env da =
     (if da_layerTreeHost da then da else displayTimerFired env (da\<lparr>da_isWaitingForDidUpdate := False\<rparr>))"

definition suspendPainting :: "'c drawing_area \<Rightarrow> 'c drawing_area" where
  "suspendPainting da =
     (let da = (if da_layerTreeHost da then host Host_pauseRendering da else da)
      in da\<lparr>da_isPaintingSuspended := True, da_displayTimer := False\<rparr>)"

definition resumePainting :: "'c drawing_area \<Rightarrow> 'c drawing_area" where
  "resumePainting da =
     (if \<not> da_isPaintingSuspended da then da
      else let da = (if da_layerTreeHost da then host Host_resumeRendering da else da)
           in setNeedsDisplay (da\<lparr>da_isPaintingSuspended := False\<rparr>))"

subsection \<open>Entering and leaving accelerated compositing\<close>

definition enterAcceleratedCompositingMode :: "bool \<Rightarrow> 'c drawing_area \<Rightarrow> 'c drawing_area" where
  "enterAcceleratedCompositingMode graphicsLayer da =
     (let da = da\<lparr>da_exitCompositingTimer := False, da_wantsToExitAcceleratedCompositingMode := False, da_layerTreeHost := True\<rparr>;
          da = (if \<not> da_inUpdateBackingStoreState da then host (Host_setShouldNotifyAfterNextScheduledLayerFlush True) da else da);
          da = host (Host_setRootCompositingLayer graphicsLayer) da
      in da\<lparr>da_dirtyRegion := Region_empty, da_scrollRect := IntRect 0 0 0 0, da_scrollOffset := IntSize 0 0,
            da_displayTimer := False, da_isWaitingForDidUpdate := False\<rparr>)"

definition exitAcceleratedCompositingMode :: "'c page_env \<Rightarrow> 'c drawing_area \<Rightarrow> 'c drawing_area" where
  "exitAcceleratedCompositingMode env da =
     (if da_alwaysUseCompositing da then da
      else let da = da\<lparr>da_exitCompositingTimer := False, da_wantsToExitAcceleratedCompositingMode := False\<rparr>;
               da = (host Host_invalidate da)\<lparr>da_layerTreeHost := False, da_dirtyRegion := Region_rect (wp_bounds da)\<rparr>
           in if da_inUpdateBackingStoreState da then da
              else if da_shouldSendDidUpdateBackingStoreState da then sendDidUpdateBackingStoreState env da
              else let (info, da) = (if da_isPaintingSuspended da then (UpdateInfo\<lparr>ui_viewSize := wp_size da\<rparr>, da)
                                     else display_update env UpdateInfo da)
                   in if da_compositingAccordingToProxyMessages da
                      then (da_send (ExitAcceleratedCompositingMode (da_backingStoreStateID da) info) da)
                             \<lparr>da_compositingAccordingToProxyMessages := False\<rparr>
                      else da_send (Update (da_backingStoreStateID da) info) da)"

definition exitAcceleratedCompositingModeSoon :: "'c drawing_area \<Rightarrow> 'c drawing_area" where
  "exitAcceleratedCompositingModeSoon da =
     (if da_layerTreeStateIsFrozen da then da\<lparr>da_wantsToExitAcceleratedCompositingMode := True\<rparr>
      else if da_exitCompositingTimer da then da
      else da\<lparr>da_exitCompositingTimer := True\<rparr>)"

definition setRootCompositingLayer :: "'c page_env \<Rightarrow> bool \<Rightarrow> 'c drawing_area \<Rightarrow> 'c drawing_area" where
  "setRootCompositingLayer env graphicsLayer da =
     (if graphicsLayer
      then if \<not> da_layerTreeHost da then enterAcceleratedCompositingMode True da
           else let da = da\<lparr>da_exitCompositingTimer := False, da_wantsToExitAcceleratedCompositingMode := False\<rparr>;
                    da = (if \<not> da_compositingAccordingToProxyMessages da
                          then host (Host_setShouldNotifyAfterNextScheduledLayerFlush True) da else da)
                in host (Host_setRootCompositingLayer True) da
      else if da_layerTreeHost da
      then let da = host (Host_setRootCompositingLayer False) da in
           if \<not> da_alwaysUseCompositing da
           then if da_inUpdateBackingStoreState da then exitAcceleratedCompositingMode env da
                else exitAcceleratedCompositingModeSoon da
           else da
      else da)"

definition setLayerTreeStateIsFrozen :: "bool \<Rightarrow> 'c drawing_area \<Rightarrow> 'c drawing_area" where
  "setLayerTreeStateIsFrozen isFrozen da =
     (if da_layerTreeStateIsFrozen da = isFrozen then da
      else let da = da\<lparr>da_layerTreeStateIsFrozen := isFrozen\<rparr>;
               da = (if da_layerTreeHost da then host (Host_setLayerFlushSchedulingEnabled (\<not> isFrozen)) da else da)
           in if isFrozen then da\<lparr>da_exitCompositingTimer := False\<rparr>
              else if da_wantsToExitAcceleratedCompositingMode da then exitAcceleratedCompositingModeSoon da
              else da)"

definition layerHostDidFlushLayers :: "'c page_env \<Rightarrow> 'c drawing_area \<Rightarrow> 'c drawing_area" where
  "layerHostDidFlushLayers env da =
     (let da = host Host_forceRepaint da in
      if da_shouldSendDidUpdateBackingStoreState da \<and> \<not> da_exitCompositingTimer da
      then sendDidUpdateBackingStoreState env da
      else if \<not> da_layerTreeHost da then da
      else if \<not> da_exitCompositingTimer da
      then (da_send (EnterAcceleratedCompositingMode (da_backingStoreStateID da) (env_layerTreeContext env)) da)
             \<lparr>da_compositingAccordingToProxyMessages := True\<rparr>
      else da)"

definition da_forceRepaint :: "'c page_env \<Rightarrow> 'c drawing_area \<Rightarrow> 'c drawing_area" where
  "da_forceRepaint env da =
     (let da = env_layoutIfNeeded env (setNeedsDisplay da) in
      if da_layerTreeHost da
      then if da_compositingAccordingToProxyMessages da then host Host_forceRepaint da
           else layerHostDidFlushLayers env (host (Host_setShouldNotifyAfterNextScheduledLayerFlush False) da)
      else display env (da\<lparr>da_isWaitingForDidUpdate := False\<rparr>))"

definition scheduleCompositingLayerFlush :: "'c drawing_area \<Rightarrow> 'c drawing_area" where
  "scheduleCompositingLayerFlush da = (if \<not> da_layerTreeHost da then da else host Host_scheduleLayerFlush da)"

definition setPaintingEnabled :: "bool \<Rightarrow> 'c drawing_area \<Rightarrow> 'c drawing_area" where
  "setPaintingEnabled paintingEnabled da = da\<lparr>da_isPaintingEnabled := paintingEnabled\<rparr>"

definition pageBackgroundTransparencyChanged :: "'c drawing_area \<Rightarrow> 'c drawing_area" where
  "pageBackgroundTransparencyChanged da =
     (if da_layerTreeHost da then host Host_pageBackgroundTransparencyChanged da else da)"

text \<open>The answer of the layer tree host is an argument; page overlays and opacities are named by numbers.\<close>

definition forceRepaintAsync :: "bool \<Rightarrow> nat \<Rightarrow> 'c drawing_area \<Rightarrow> bool \<times> 'c drawing_area" where
  "forceRepaintAsync answer callbackID da =
     (if da_layerTreeHost da then (answer, host (Host_forceRepaintAsync callbackID) da) else (False, da))"

definition didInstallPageOverlay :: "nat \<Rightarrow> 'c drawing_area \<Rightarrow> 'c drawing_area" where
  "didInstallPageOverlay pageOverlay da =
     (if da_layerTreeHost da then host (Host_didInstallPageOverlay pageOverlay) da else da)"

definition didUninstallPageOverlay :: "nat \<Rightarrow> 'c drawing_area \<Rightarrow> 'c drawing_area" where
  "didUninstallPageOverlay pageOverlay da =
     setNeedsDisplay (if da_layerTreeHost da then host (Host_didUninstallPageOverlay pageOverlay) da else da)"

definition setPageOverlayNeedsDisplay :: "nat \<Rightarrow> int_rect \<Rightarrow> 'c drawing_area \<Rightarrow> 'c drawing_area" where
  "setPageOverlayNeedsDisplay pageOverlay rect da =
     (if da_layerTreeHost da then host (Host_setPageOverlayNeedsDisplay pageOverlay rect) da
      else setNeedsDisplayInRect rect da)"

definition setPageOverlayOpacity :: "nat \<Rightarrow> nat \<Rightarrow> 'c drawing_area \<Rightarrow> 'c drawing_area" where
  "setPageOverlayOpacity pageOverlay value' da =
     (if da_layerTreeHost da then host (Host_setPageOverlayOpacity pageOverlay value') da else da)"

definition DrawingAreaImpl :: "bool \<Rightarrow> bool \<Rightarrow> int_size \<Rightarrow> (pixel \<Rightarrow> 'c) \<Rightarrow> 'c drawing_area" where
  "DrawingAreaImpl isVisible alwaysUseCompositing size' content =
     (let da = \<lparr>da_backingStoreStateID = 0, da_dirtyRegion = Region_empty, da_scrollRect = IntRect 0 0 0 0,
            da_scrollOffset = IntSize 0 0, da_isPaintingEnabled = True, da_inUpdateBackingStoreState = False,
            da_shouldSendDidUpdateBackingStoreState = False, da_isWaitingForDidUpdate = False,
            da_compositingAccordingToProxyMessages = False, da_layerTreeStateIsFrozen = False,
            da_wantsToExitAcceleratedCompositingMode = False, da_isPaintingSuspended = (\<not> isVisible),
            da_alwaysUseCompositing = alwaysUseCompositing, da_displayTimer = False, da_exitCompositingTimer = False,
            da_layerTreeHost = False, wp_size = size', wp_content = content, da_sent = [], da_hostCalls = []\<rparr>
      in if alwaysUseCompositing then enterAcceleratedCompositingMode False da else da)"

subsection \<open>A new backing store\<close>

definition updateBackingStoreState ::
    "'c page_env \<Rightarrow> nat \<Rightarrow> bool \<Rightarrow> int_size \<Rightarrow> int_size \<Rightarrow> 'c drawing_area \<Rightarrow> 'c drawing_area" where
  "updateBackingStoreState env stateID respondImmediately size' scrollOffset da =
     (let da = da\<lparr>da_inUpdateBackingStoreState := True\<rparr>;
          done = (stateID = da_backingStoreStateID da \<and> \<not> da_shouldSendDidUpdateBackingStoreState da);
          da = (if stateID \<noteq> da_backingStoreStateID da
                then let da = da\<lparr>da_backingStoreStateID := stateID, da_shouldSendDidUpdateBackingStoreState := True\<rparr>;
                         da = env_setSize env size' da;
                         da = env_layoutIfNeeded env da;
                         da = env_scrollMainFrame env scrollOffset da
                     in if da_layerTreeHost da then host (Host_sizeDidChange (wp_size da)) da
                        else da\<lparr>da_dirtyRegion := Region_rect (wp_bounds da)\<rparr>
                else da)
      in if done then da\<lparr>da_inUpdateBackingStoreState := False\<rparr>
         else let da = da\<lparr>da_isWaitingForDidUpdate := False\<rparr>;
                  da = (if respondImmediately
                        then let da = (if da_isPaintingSuspended da then resumePainting da else da)
                             in sendDidUpdateBackingStoreState env da
                        else da)
              in da\<lparr>da_inUpdateBackingStoreState := False\<rparr>)"

end
