(* ===== verification/Drawing_Proxy.thy ===== *)
theory Drawing_Proxy
  imports Drawing_Area
begin

text \<open>
  The UI process's side of drawing: \<^verbatim>\<open>WebKit2/UIProcess/DrawingAreaProxyImpl.cpp\<close> with its backing store
  (\<^verbatim>\<open>BackingStore.cpp\<close>, \<^verbatim>\<open>cairo/BackingStoreCairo.cpp\<close>, \<^verbatim>\<open>WebCore/platform/cairo/WidgetBackingStoreCairo.cpp\<close>). The backing
  store holds the pixels last sent by the web process; a state number that grows with every change of size says
  which messages belong to it.

  A pixel of a surface is opaque or was never painted; painting with the operator \<^verbatim>\<open>OVER\<close> keeps what is below
  an unpainted pixel, and outside a surface everything is unpainted.
\<close>

subsection \<open>Surfaces\<close>

type_synonym 'c surface = "pixel \<Rightarrow> 'c option"

definition over :: "'c option \<Rightarrow> 'c option \<Rightarrow> 'c option" where
  "over source dest = (case source of None \<Rightarrow> dest | Some c \<Rightarrow> Some c)"

definition size_rect :: "int_size \<Rightarrow> int_rect" where
  "size_rect s = IntRect 0 0 (sz_width s) (sz_height s)"

definition read :: "int_size \<Rightarrow> 'c surface \<Rightarrow> pixel \<Rightarrow> 'c option" where
  "read s surface p = (if p \<in> pixels (size_rect s) then surface p else None)"

definition copyRectFromOneSurfaceToAnother :: "int_size \<Rightarrow> 'c surface \<Rightarrow> 'c surface \<Rightarrow> int_size \<Rightarrow> int_rect \<Rightarrow> 'c surface" where
  "copyRectFromOneSurfaceToAnother s from to offset rect p =
     (if p \<in> pixels rect \<and> p \<in> pixels (size_rect s)
      then over (read s from (fst p - sz_width offset, snd p - sz_height offset)) (to p) else to p)"

record 'c widget_backing_store =
  wb_surface :: "'c surface"
  wb_scrollSurface :: "'c surface"

definition WidgetBackingStoreCairo :: "'c widget_backing_store" where
  "WidgetBackingStoreCairo = \<lparr>wb_surface = (\<lambda>p. None), wb_scrollSurface = (\<lambda>p. None)\<rparr>"

definition scroll_target :: "int_rect \<Rightarrow> int_size \<Rightarrow> int_rect" where
  "scroll_target scrollRect scrollOffset =
     (let targetRect = move scrollOffset scrollRect;
          targetRect = shiftMaxXEdgeTo (s32 (rc_maxX targetRect - sz_width scrollOffset)) targetRect
      in shiftMaxYEdgeTo (s32 (rc_maxY targetRect - sz_height scrollOffset)) targetRect)"

definition widget_scroll :: "int_size \<Rightarrow> int_rect \<Rightarrow> int_size \<Rightarrow> 'c widget_backing_store \<Rightarrow> 'c widget_backing_store" where
  "widget_scroll s scrollRect scrollOffset w =
     (let targetRect = scroll_target scrollRect scrollOffset in
      if rect_isEmpty targetRect then w
      else let scrollSurface = copyRectFromOneSurfaceToAnother s (wb_surface w) (wb_scrollSurface w) scrollOffset targetRect;
               surface = copyRectFromOneSurfaceToAnother s scrollSurface (wb_surface w) (IntSize 0 0) targetRect
           in \<lparr>wb_surface = surface, wb_scrollSurface = scrollSurface\<rparr>)"

subsection \<open>The backing store\<close>

record 'c backing_store =
  bs_size :: int_size
  bs_backingStore :: "'c widget_backing_store option"

definition BackingStore :: "int_size \<Rightarrow> 'c backing_store" where
  "BackingStore s = \<lparr>bs_size = s, bs_backingStore = None\<rparr>"

definition bs_scroll :: "int_size \<Rightarrow> int_rect \<Rightarrow> int_size \<Rightarrow> 'c widget_backing_store \<Rightarrow> 'c widget_backing_store" where
  "bs_scroll s scrollRect scrollOffset w =
     (if size_isZero scrollOffset then w else widget_scroll s scrollRect scrollOffset w)"

text \<open>\<^verbatim>\<open>bitmap->paint(graphicsContext, updateRect.location(), srcRect)\<close>.\<close>

definition paint_bitmap :: "int_size \<Rightarrow> 'c surface \<Rightarrow> int \<Rightarrow> int \<Rightarrow> int_rect \<Rightarrow> 'c surface \<Rightarrow> 'c surface" where
  "paint_bitmap s bitmap dstX dstY srcRect surface p =
     (let q = (fst p - dstX + rc_x srcRect, snd p - dstY + rc_y srcRect) in
      if q \<in> pixels srcRect \<and> p \<in> pixels (size_rect s) then over (bitmap q) (surface p) else surface p)"

definition paint_update_rect :: "int_size \<Rightarrow> 'c surface \<Rightarrow> int_rect \<Rightarrow> int_rect \<Rightarrow> 'c surface \<Rightarrow> 'c surface" where
  "paint_update_rect s bitmap bounds updateRect surface =
     (let srcRect = move (IntSize (- rc_x bounds) (- rc_y bounds)) updateRect
      in paint_bitmap s bitmap (rc_x updateRect) (rc_y updateRect) srcRect surface)"

definition bs_incorporateUpdate :: "'c update_info \<Rightarrow> 'c backing_store \<Rightarrow> 'c backing_store" where
  "bs_incorporateUpdate info bs =
     (case ui_bitmap info of
        None \<Rightarrow> bs
      | Some bitmap \<Rightarrow>
          let w = (case bs_backingStore bs of None \<Rightarrow> WidgetBackingStoreCairo | Some w \<Rightarrow> w);
              w = bs_scroll (bs_size bs) (ui_scrollRect info) (ui_scrollOffset info) w;
              surface = fold (paint_update_rect (bs_size bs) bitmap (ui_updateRectBounds info)) (ui_updateRects info) (wb_surface w)
          in bs\<lparr>bs_backingStore := Some (w\<lparr>wb_surface := surface\<rparr>)\<rparr>)"

subsection \<open>The proxy\<close>

datatype view_call =
    View_scrollView int_rect int_size
  | View_setViewNeedsDisplay int_rect
  | View_displayView
  | View_enterAcceleratedCompositingMode layer_tree_context
  | View_exitAcceleratedCompositingMode
  | View_updateAcceleratedCompositingMode layer_tree_context

record 'c drawing_proxy =
  px_currentBackingStoreStateID :: nat
  px_nextBackingStoreStateID :: nat
  px_layerTreeContext :: layer_tree_context
  px_isWaitingForDidUpdateBackingStoreState :: bool
  px_hasReceivedFirstUpdate :: bool
  px_isBackingStoreDiscardable :: bool
  px_backingStore :: "'c backing_store option"
  px_discardBackingStoreTimer :: bool
  px_size :: int_size
  px_layerPosition :: int_size
  px_scrollOffset :: int_size
  px_responsivenessTimer :: bool
  px_sent :: "area_message list"
  px_viewCalls :: "view_call list"

text \<open>What the page proxy, the process and the view answer.\<close>

record ui_env =
  ue_isValid :: bool
  ue_viewSize :: int_size
  ue_useFixedLayout :: bool
  ue_canScrollView :: bool
  ue_isLaunching :: bool

definition DrawingAreaProxyImpl :: "int_size \<Rightarrow> 'c drawing_proxy" where
  "DrawingAreaProxyImpl viewSize = \<lparr>px_currentBackingStoreStateID = 0, px_nextBackingStoreStateID = 0, px_layerTreeContext = 0,
     px_isWaitingForDidUpdateBackingStoreState = False, px_hasReceivedFirstUpdate = False, px_isBackingStoreDiscardable = True,
     px_backingStore = None, px_discardBackingStoreTimer = False, px_size = viewSize, px_layerPosition = IntSize 0 0, px_scrollOffset = IntSize 0 0,
     px_responsivenessTimer = False, px_sent = [], px_viewCalls = []\<rparr>"

definition px_send :: "area_message \<Rightarrow> 'c drawing_proxy \<Rightarrow> 'c drawing_proxy" where
  "px_send msg px = px\<lparr>px_sent := px_sent px @ [msg]\<rparr>"

definition view :: "view_call \<Rightarrow> 'c drawing_proxy \<Rightarrow> 'c drawing_proxy" where
  "view call px = px\<lparr>px_viewCalls := px_viewCalls px @ [call]\<rparr>"

definition isInAcceleratedCompositingMode :: "'c drawing_proxy \<Rightarrow> bool" where
  "isInAcceleratedCompositingMode px \<longleftrightarrow> px_layerTreeContext px \<noteq> 0"

definition px_incorporateUpdate :: "ui_env \<Rightarrow> 'c update_info \<Rightarrow> 'c drawing_proxy \<Rightarrow> 'c drawing_proxy" where
  "px_incorporateUpdate ue info px =
     (if rect_isEmpty (ui_updateRectBounds info) then px
      else let bs = (case px_backingStore px of None \<Rightarrow> BackingStore (ui_viewSize info) | Some bs \<Rightarrow> bs);
               px = px\<lparr>px_backingStore := Some (bs_incorporateUpdate info bs)\<rparr>;
               shouldScroll = (\<not> rect_isEmpty (ui_scrollRect info));
               px = (if shouldScroll then view (View_scrollView (ui_scrollRect info) (ui_scrollOffset info)) px else px);
               px = (if shouldScroll \<and> \<not> ue_canScrollView ue
                     then view (View_setViewNeedsDisplay (size_rect (ue_viewSize ue))) px
                     else fold (\<lambda>r. view (View_setViewNeedsDisplay r)) (ui_updateRects info) px)
           in if shouldScroll then view View_displayView px else px)"

definition px_update :: "ui_env \<Rightarrow> nat \<Rightarrow> 'c update_info \<Rightarrow> 'c drawing_proxy \<Rightarrow> 'c drawing_proxy" where
  "px_update ue stateID info px =
     (if stateID < px_currentBackingStoreStateID px then px
      else px_send DidUpdate (px_incorporateUpdate ue info px))"

definition px_enterAcceleratedCompositingMode :: "layer_tree_context \<Rightarrow> 'c drawing_proxy \<Rightarrow> 'c drawing_proxy" where
  "px_enterAcceleratedCompositingMode context px =
     view (View_enterAcceleratedCompositingMode context) (px\<lparr>px_backingStore := None, px_layerTreeContext := context\<rparr>)"

definition px_exitAcceleratedCompositingMode :: "'c drawing_proxy \<Rightarrow> 'c drawing_proxy" where
  "px_exitAcceleratedCompositingMode px = view View_exitAcceleratedCompositingMode (px\<lparr>px_layerTreeContext := 0\<rparr>)"

definition px_updateAcceleratedCompositingMode :: "layer_tree_context \<Rightarrow> 'c drawing_proxy \<Rightarrow> 'c drawing_proxy" where
  "px_updateAcceleratedCompositingMode context px =
     view (View_updateAcceleratedCompositingMode context) (px\<lparr>px_layerTreeContext := context\<rparr>)"

text \<open>
  Waiting for the answer of the web process: of the messages that have arrived, or arrive within the time, the
  oldest \<^verbatim>\<open>DidUpdateBackingStoreState\<close> is taken out of the queue and dispatched before all others; there may be none.
\<close>

fun take_didUpdate :: "'c proxy_message list \<Rightarrow> (nat \<times> 'c update_info \<times> layer_tree_context \<times> 'c proxy_message list) option" where
  "take_didUpdate [] = None"
| "take_didUpdate (DidUpdateBackingStoreState stateID info context # msgs) = Some (stateID, info, context, msgs)"
| "take_didUpdate (msg # msgs) =
     map_option (\<lambda>(stateID, info, context, rest). (stateID, info, context, msg # rest)) (take_didUpdate msgs)"

lemma take_didUpdate_length: "take_didUpdate q = Some (stateID, info, context, rest) \<Longrightarrow> length q = Suc (length rest)"
  by (induction q arbitrary: rest rule: take_didUpdate.induct) auto

text \<open>
  A request, the wait for its answer when the view is composited, and the answer, which may send the next request:
  each takes the messages that wait and returns those that are left.
\<close>

function sendUpdateBackingStoreState ::
      "ui_env \<Rightarrow> bool \<Rightarrow> 'c proxy_message list \<Rightarrow> 'c drawing_proxy \<Rightarrow> 'c proxy_message list \<times> 'c drawing_proxy"
  and waitForAndDispatchDidUpdateBackingStoreState ::
      "ui_env \<Rightarrow> 'c proxy_message list \<Rightarrow> 'c drawing_proxy \<Rightarrow> 'c proxy_message list \<times> 'c drawing_proxy"
  and px_didUpdateBackingStoreState ::
      "ui_env \<Rightarrow> nat \<Rightarrow> 'c update_info \<Rightarrow> layer_tree_context \<Rightarrow> 'c proxy_message list \<Rightarrow> 'c drawing_proxy
        \<Rightarrow> 'c proxy_message list \<times> 'c drawing_proxy" where
  "sendUpdateBackingStoreState ue respondImmediately queue px =
     (if \<not> ue_isValid ue then (queue, px)
      else if px_isWaitingForDidUpdateBackingStoreState px then (queue, px)
      else if size_isEmpty (ue_viewSize ue) \<and> \<not> ue_useFixedLayout ue then (queue, px)
      else let px = px\<lparr>px_isWaitingForDidUpdateBackingStoreState := respondImmediately\<rparr>;
               px = px_send (UpdateBackingStoreState (px_nextBackingStoreStateID px) respondImmediately (px_size px)
                               (px_scrollOffset px)) px;
               px = px\<lparr>px_scrollOffset := IntSize 0 0\<rparr>;
               px = (if respondImmediately then px\<lparr>px_responsivenessTimer := True\<rparr> else px)
           in if respondImmediately \<and> px_layerTreeContext px \<noteq> 0
              then waitForAndDispatchDidUpdateBackingStoreState ue queue px else (queue, px))"
| "waitForAndDispatchDidUpdateBackingStoreState ue queue px =
     (if \<not> ue_isValid ue then (queue, px)
      else if ue_isLaunching ue then (queue, px)
      else case take_didUpdate queue of
             None \<Rightarrow> (queue, px)
           | Some (stateID, info, context, rest) \<Rightarrow> px_didUpdateBackingStoreState ue stateID info context rest px)"
| "px_didUpdateBackingStoreState ue stateID info context queue px =
     (let px = px\<lparr>px_currentBackingStoreStateID := stateID, px_isWaitingForDidUpdateBackingStoreState := False,
                  px_responsivenessTimer := False\<rparr>;
          px = (if context \<noteq> px_layerTreeContext px
                then let px = (if px_layerTreeContext px \<noteq> 0 then px_exitAcceleratedCompositingMode px else px)
                     in if context \<noteq> 0 then px_enterAcceleratedCompositingMode context px else px
                else px);
          (queue, px) = (if px_nextBackingStoreStateID px \<noteq> px_currentBackingStoreStateID px
                         then sendUpdateBackingStoreState ue True queue px
                         else (queue, px\<lparr>px_hasReceivedFirstUpdate := True\<rparr>))
      in if isInAcceleratedCompositingMode px then (queue, px)
         else let px = (case px_backingStore px of
                          Some bs \<Rightarrow> if bs_size bs \<noteq> ui_viewSize info then px\<lparr>px_backingStore := None\<rparr> else px
                        | None \<Rightarrow> px)
              in (queue, px_incorporateUpdate ue info px))"
  by pat_completeness auto
termination
  by (relation "measure (\<lambda>x. case x of Inl (ue, r, q, px) \<Rightarrow> 3 * length q + 1
        | Inr (Inl (ue, q, px)) \<Rightarrow> 3 * length q | Inr (Inr (ue, s, i, c, q, px)) \<Rightarrow> 3 * length q + 2)")
    (auto dest: take_didUpdate_length)

declare sendUpdateBackingStoreState.simps [simp del] waitForAndDispatchDidUpdateBackingStoreState.simps [simp del]
  px_didUpdateBackingStoreState.simps [simp del]

definition backingStoreStateDidChange ::
    "ui_env \<Rightarrow> bool \<Rightarrow> 'c proxy_message list \<Rightarrow> 'c drawing_proxy \<Rightarrow> 'c proxy_message list \<times> 'c drawing_proxy" where
  "backingStoreStateDidChange ue respondImmediately queue px =
     sendUpdateBackingStoreState ue respondImmediately queue
       (px\<lparr>px_nextBackingStoreStateID := Suc (px_nextBackingStoreStateID px)\<rparr>)"

definition sizeDidChange :: "ui_env \<Rightarrow> 'c proxy_message list \<Rightarrow> 'c drawing_proxy \<Rightarrow> 'c proxy_message list \<times> 'c drawing_proxy" where
  "sizeDidChange ue queue px = backingStoreStateDidChange ue True queue px"

definition deviceScaleFactorDidChange ::
    "ui_env \<Rightarrow> 'c proxy_message list \<Rightarrow> 'c drawing_proxy \<Rightarrow> 'c proxy_message list \<times> 'c drawing_proxy" where
  "deviceScaleFactorDidChange ue queue px = backingStoreStateDidChange ue True queue px"

definition waitForBackingStoreUpdateOnNextPaint :: "'c drawing_proxy \<Rightarrow> 'c drawing_proxy" where
  "waitForBackingStoreUpdateOnNextPaint px = px\<lparr>px_hasReceivedFirstUpdate := True\<rparr>"

definition px_setSize :: "ui_env \<Rightarrow> int_size \<Rightarrow> int_size \<Rightarrow> int_size \<Rightarrow> 'c proxy_message list \<Rightarrow> 'c drawing_proxy
    \<Rightarrow> 'c proxy_message list \<times> 'c drawing_proxy" where
  "px_setSize ue s layerPosition scrollOffset queue px =
     (if px_size px = s \<and> px_layerPosition px = layerPosition \<and> size_isZero scrollOffset then (queue, px)
      else sizeDidChange ue queue (px\<lparr>px_size := s, px_layerPosition := layerPosition,
             px_scrollOffset := size_add (px_scrollOffset px) scrollOffset\<rparr>))"

definition px_message_enter :: "nat \<Rightarrow> layer_tree_context \<Rightarrow> 'c drawing_proxy \<Rightarrow> 'c drawing_proxy" where
  "px_message_enter stateID context px =
     (if stateID < px_currentBackingStoreStateID px then px else px_enterAcceleratedCompositingMode context px)"

definition px_message_exit :: "ui_env \<Rightarrow> nat \<Rightarrow> 'c update_info \<Rightarrow> 'c drawing_proxy \<Rightarrow> 'c drawing_proxy" where
  "px_message_exit ue stateID info px =
     (if stateID < px_currentBackingStoreStateID px then px
      else px_incorporateUpdate ue info (px_exitAcceleratedCompositingMode px))"

definition px_message_update :: "nat \<Rightarrow> layer_tree_context \<Rightarrow> 'c drawing_proxy \<Rightarrow> 'c drawing_proxy" where
  "px_message_update stateID context px =
     (if stateID < px_currentBackingStoreStateID px then px else px_updateAcceleratedCompositingMode context px)"

definition px_dispatch :: "ui_env \<Rightarrow> 'c proxy_message \<Rightarrow> 'c proxy_message list \<Rightarrow> 'c drawing_proxy
    \<Rightarrow> 'c proxy_message list \<times> 'c drawing_proxy" where
  "px_dispatch ue msg queue px =
     (case msg of
        Update stateID info \<Rightarrow> (queue, px_update ue stateID info px)
      | DidUpdateBackingStoreState stateID info context \<Rightarrow> px_didUpdateBackingStoreState ue stateID info context queue px
      | EnterAcceleratedCompositingMode stateID context \<Rightarrow> (queue, px_message_enter stateID context px)
      | ExitAcceleratedCompositingMode stateID info \<Rightarrow> (queue, px_message_exit ue stateID info px)
      | UpdateAcceleratedCompositingMode stateID context \<Rightarrow> (queue, px_message_update stateID context px))"

definition discardBackingStoreSoon :: "'c drawing_proxy \<Rightarrow> 'c drawing_proxy" where
  "discardBackingStoreSoon px =
     (if \<not> px_isBackingStoreDiscardable px \<or> px_discardBackingStoreTimer px then px
      else px\<lparr>px_discardBackingStoreTimer := True\<rparr>)"

definition discardBackingStore :: "ui_env \<Rightarrow> 'c proxy_message list \<Rightarrow> 'c drawing_proxy
    \<Rightarrow> 'c proxy_message list \<times> 'c drawing_proxy" where
  "discardBackingStore ue queue px = backingStoreStateDidChange ue False queue (px\<lparr>px_backingStore := None\<rparr>)"

definition setBackingStoreIsDiscardable :: "bool \<Rightarrow> 'c drawing_proxy \<Rightarrow> 'c drawing_proxy" where
  "setBackingStoreIsDiscardable isDiscardable px =
     (if px_isBackingStoreDiscardable px = isDiscardable then px
      else let px = px\<lparr>px_isBackingStoreDiscardable := isDiscardable\<rparr>
           in if isDiscardable then discardBackingStoreSoon px else px\<lparr>px_discardBackingStoreTimer := False\<rparr>)"

text \<open>
  \<^verbatim>\<open>paint\<close>, over the messages that wait: with what is painted of the rectangle, if anything, and the region that
  was not.
\<close>

definition px_paint :: "ui_env \<Rightarrow> int_rect \<Rightarrow> 'c proxy_message list \<Rightarrow> 'c drawing_proxy \<Rightarrow>
    'c surface option \<times> region \<times> 'c proxy_message list \<times> 'c drawing_proxy" where
  "px_paint ue rect queue px =
     (let unpainted = Region_rect rect;
          from_store = (\<lambda>queue px. case px_backingStore px of
              None \<Rightarrow> (None, unpainted, queue, px)
            | Some bs \<Rightarrow> (map_option wb_surface (bs_backingStore bs),
                          subtract unpainted (Region_rect (size_rect (bs_size bs))), queue, discardBackingStoreSoon px))
      in if isInAcceleratedCompositingMode px then (None, unpainted, queue, px)
         else if px_currentBackingStoreStateID px < px_nextBackingStoreStateID px
         then let (queue, px) = sendUpdateBackingStoreState ue True queue px in
              if \<not> px_hasReceivedFirstUpdate px then (None, unpainted, queue, px)
              else let (queue, px) = (if px_isWaitingForDidUpdateBackingStoreState px
                                      then waitForAndDispatchDidUpdateBackingStoreState ue queue px else (queue, px))
                   in if isInAcceleratedCompositingMode px then (None, unpainted, queue, px) else from_store queue px
         else from_store queue px)"

end
