(* ===== verification/Drawing_Damage.thy ===== *)
theory Drawing_Damage
  imports Drawing_Proxy
begin

text \<open>
  What the drawing area owes the screen. An image \<open>U\<close> is what the UI process shows, or will show when
  it has handled the messages on their way; the drawing area is \<^emph>\<open>settled\<close> with respect to \<open>U\<close> when every pixel of the
  page outside the dirty region is the pixel that the pending scroll brings there. Changing a part of
  the page and reporting it, and scrolling it, keep that; an update that is painted and incorporated makes the
  screen show the page.
\<close>

subsection \<open>The obligation\<close>

definition back_by :: "pixel \<Rightarrow> int_size \<Rightarrow> pixel" where
  "back_by p d = (fst p - sz_width d, snd p - sz_height d)"

lemma mem_shift: "p \<in> shift d ps \<longleftrightarrow> back_by p d \<in> ps"
  by (cases p) (simp add: shift_def back_by_def)

definition V :: "'c drawing_area \<Rightarrow> pixel set" where
  "V da = pixels (wp_bounds da)"

text \<open>Scrolled rectangles begin at the origin, or to the left of it and above it.\<close>

definition at_origin :: "int_rect \<Rightarrow> bool" where
  "at_origin r \<longleftrightarrow> rc_x r \<le> 0 \<and> rc_y r \<le> 0"

definition geometry :: "'c drawing_area \<Rightarrow> bool" where
  "geometry da \<longleftrightarrow> region_ok (da_dirtyRegion da) \<and> points (da_dirtyRegion da) \<subseteq> V da \<and> rect_ok (wp_bounds da)
     \<and> can_move (da_scrollOffset da) (da_scrollRect da) \<and> at_origin (da_scrollRect da)
     \<and> (rect_isEmpty (da_scrollRect da) \<longrightarrow> da_scrollOffset da = IntSize 0 0)"

definition owed :: "'c surface \<Rightarrow> 'c drawing_area \<Rightarrow> pixel \<Rightarrow> bool" where
  "owed U da p \<longleftrightarrow>
     (if p \<in> pixels (da_scrollRect da)
      then back_by p (da_scrollOffset da) \<in> pixels (da_scrollRect da) \<inter> V da
        \<and> U (back_by p (da_scrollOffset da)) = Some (wp_content da p)
      else U p = Some (wp_content da p))"

definition settled :: "'c surface \<Rightarrow> 'c drawing_area \<Rightarrow> bool" where
  "settled U da \<longleftrightarrow> geometry da \<and> (\<forall>p\<in>V da - points (da_dirtyRegion da). owed U da p)"

text \<open>The drawing area paints itself, and paints now.\<close>

definition painting :: "'c drawing_area \<Rightarrow> bool" where
  "painting da \<longleftrightarrow> da_isPaintingEnabled da \<and> \<not> da_layerTreeHost da \<and> \<not> da_isPaintingSuspended da"

lemma scheduleDisplay_same [simp]:
  "da_dirtyRegion (scheduleDisplay da) = da_dirtyRegion da" "da_scrollRect (scheduleDisplay da) = da_scrollRect da"
  "da_scrollOffset (scheduleDisplay da) = da_scrollOffset da" "wp_size (scheduleDisplay da) = wp_size da"
  "wp_content (scheduleDisplay da) = wp_content da" "da_layerTreeHost (scheduleDisplay da) = da_layerTreeHost da"
  "da_isPaintingEnabled (scheduleDisplay da) = da_isPaintingEnabled da"
  "da_isPaintingSuspended (scheduleDisplay da) = da_isPaintingSuspended da" "da_sent (scheduleDisplay da) = da_sent da"
  "da_backingStoreStateID (scheduleDisplay da) = da_backingStoreStateID da"
  "da_shouldSendDidUpdateBackingStoreState (scheduleDisplay da) = da_shouldSendDidUpdateBackingStoreState da"
  by (simp_all add: scheduleDisplay_def)

lemma wp_bounds_cong: "wp_size da = wp_size da' \<Longrightarrow> wp_bounds da = wp_bounds da'"
  by (simp add: wp_bounds_def)

text \<open>Reporting a changed rectangle.\<close>

lemma setNeedsDisplayInRect_dirty:
  assumes "geometry da" "painting da" "rect_ok r"
  shows "geometry (setNeedsDisplayInRect r da)" "V (setNeedsDisplayInRect r da) = V da"
    and "points (da_dirtyRegion (setNeedsDisplayInRect r da)) = points (da_dirtyRegion da) \<union> (pixels r \<inter> V da)"
    and "wp_content (setNeedsDisplayInRect r da) = wp_content da" "da_scrollRect (setNeedsDisplayInRect r da) = da_scrollRect da"
    and "da_scrollOffset (setNeedsDisplayInRect r da) = da_scrollOffset da" "painting (setNeedsDisplayInRect r da)"
proof -
  let ?d = "rect_intersect r (wp_bounds da)" and ?da = "setNeedsDisplayInRect r da"
  have g: "region_ok (da_dirtyRegion da)" "rect_ok (wp_bounds da)" "points (da_dirtyRegion da) \<subseteq> V da"
    using assms(1) by (simp_all add: geometry_def)
  note i = rect_intersect_pixels [OF assms(3) g(2)]
  have p: "da_isPaintingEnabled da" "\<not> da_layerTreeHost da" using assms(2) by (simp_all add: painting_def)
  have same: "wp_size ?da = wp_size da" "wp_content ?da = wp_content da" "da_scrollRect ?da = da_scrollRect da"
      "da_scrollOffset ?da = da_scrollOffset da" "painting ?da"
    using assms(2) by (simp_all add: setNeedsDisplayInRect_def Let_def host_def painting_def)
  show v: "V ?da = V da" by (simp only: V_def wp_bounds_cong [OF same(1)])
  have "region_ok (da_dirtyRegion ?da) \<and> points (da_dirtyRegion ?da) = points (da_dirtyRegion da) \<union> (pixels r \<inter> V da)"
  proof (cases "rect_isEmpty ?d")
    case True
    hence "pixels r \<inter> V da = {}" using i isEmpty_pixels by (auto simp: V_def)
    thus ?thesis using True p g(1) by (simp add: setNeedsDisplayInRect_def Let_def)
  next
    case False
    note rr = rg.of_rect [OF i(1) False]
    show ?thesis using False p rg.union [OF g(1)] rr i(2) by (simp add: setNeedsDisplayInRect_def Let_def V_def)
  qed
  note d = this
  show "points (da_dirtyRegion ?da) = points (da_dirtyRegion da) \<union> (pixels r \<inter> V da)" using d by simp
  show "geometry ?da"
    using assms(1) d v g(3) same wp_bounds_cong [OF same(1)] by (auto simp: geometry_def)
  show "wp_content ?da = wp_content da" "da_scrollRect ?da = da_scrollRect da" "da_scrollOffset ?da = da_scrollOffset da" "painting ?da"
    by (rule same)+
qed

lemma damage_settled:
  assumes "settled U da" "painting da" "rect_ok r" "\<forall>p. p \<notin> pixels r \<longrightarrow> content p = wp_content da p"
  shows "settled U (setNeedsDisplayInRect r (da\<lparr>wp_content := content\<rparr>))"
proof -
  let ?da = "da\<lparr>wp_content := content\<rparr>"
  have v: "V ?da = V da" "wp_bounds ?da = wp_bounds da" by (simp_all add: V_def wp_bounds_def)
  have g: "geometry ?da" "painting ?da" using assms(1,2) v by (simp_all add: settled_def geometry_def painting_def)
  note n = setNeedsDisplayInRect_dirty [OF g assms(3)]
  show ?thesis
    unfolding settled_def
  proof (intro conjI ballI)
    fix p assume "p \<in> V (setNeedsDisplayInRect r ?da) - points (da_dirtyRegion (setNeedsDisplayInRect r ?da))"
    hence p: "p \<in> V da - points (da_dirtyRegion da)" "p \<notin> pixels r" using n(2,3) v by auto
    hence "owed U da p" using assms(1) by (simp add: settled_def)
    moreover have "content p = wp_content da p" using p(2) assms(4) by blast
    ultimately show "owed U (setNeedsDisplayInRect r ?da) p" using n v by (auto simp: owed_def split: if_splits)
  qed (rule n(1))
qed

text \<open>Scrolling a rectangle of the page.\<close>

definition scrolled :: "int_rect \<Rightarrow> int_size \<Rightarrow> (pixel \<Rightarrow> 'c) \<Rightarrow> (pixel \<Rightarrow> 'c) \<Rightarrow> bool" where
  "scrolled r d old new \<longleftrightarrow> (\<forall>p. p \<notin> pixels r \<longrightarrow> new p = old p)
     \<and> (\<forall>p. p \<in> pixels r \<longrightarrow> back_by p d \<in> pixels r \<longrightarrow> new p = old (back_by p d))"

lemma scrolledD:
  assumes "scrolled r d old new"
  shows "p \<notin> pixels r \<Longrightarrow> new p = old p" "\<lbrakk>p \<in> pixels r; back_by p d \<in> pixels r\<rbrakk> \<Longrightarrow> new p = old (back_by p d)"
  using assms unfolding scrolled_def by blast+

definition scrollable :: "int_rect \<Rightarrow> int_size \<Rightarrow> 'c drawing_area \<Rightarrow> bool" where
  "scrollable r d da \<longleftrightarrow> rect_ok r \<and> at_origin r \<and> pixels r \<subseteq> V da \<and> can_move d r
     \<and> can_move (size_add (da_scrollOffset da) d) r"

lemma scroll_rect_dirty:
  assumes "region_ok (da_dirtyRegion da)" "rect_ok r" "\<not> rect_isEmpty r" "can_move d r"
  shows "region_ok (da_dirtyRegion (scroll_rect r d da))"
    and "points (da_dirtyRegion (scroll_rect r d da))
      = (points (da_dirtyRegion da) - pixels r) \<union> (shift d (pixels r \<inter> points (da_dirtyRegion da)) \<inter> pixels r)
        \<union> (pixels r - shift d (pixels r))"
proof -
  let ?D = "da_dirtyRegion da" and ?i = "intersect (Region_rect r) (da_dirtyRegion da)"
  let ?D' = "if \<not> region_isEmpty ?i then unite (subtract ?D (Region_rect r)) (intersect (translate d ?i) (Region_rect r)) else ?D"
  have dirty: "da_dirtyRegion (scroll_rect r d da)
      = unite ?D' (subtract (Region_rect r) (translate d (Region_rect r)))"
    by (simp add: scroll_rect_def Let_def)
  note u = rg.uncovered [OF assms(2-4)]
  have "region_ok ?D' \<and> points ?D' = (points ?D - pixels r) \<union> (shift d (pixels r \<inter> points ?D) \<inter> pixels r)"
  proof (cases "region_isEmpty ?i")
    case True
    hence "pixels r \<inter> points ?D = {}"
      using rg.is_none rg.inter [OF _ assms(1)] rg.of_rect [OF assms(2,3)] by metis
    thus ?thesis using True assms(1) by (auto simp: shift_def)
  next
    case False
    thus ?thesis using rg.move_part [OF assms(1-4) False] by simp
  qed
  thus "region_ok (da_dirtyRegion (scroll_rect r d da))"
    "points (da_dirtyRegion (scroll_rect r d da)) = (points ?D - pixels r) \<union> (shift d (pixels r \<inter> points ?D) \<inter> pixels r)
      \<union> (pixels r - shift d (pixels r))"
    using rg.union u unfolding dirty by auto
qed

lemma scroll_rect_same:
  "wp_size (scroll_rect r d da) = wp_size da" "wp_content (scroll_rect r d da) = wp_content da"
  "da_scrollRect (scroll_rect r d da) = r" "da_scrollOffset (scroll_rect r d da) = size_add (da_scrollOffset da) d"
  "painting (scroll_rect r d da) = painting da"
  by (simp_all add: scroll_rect_def Let_def painting_def)

text \<open>A pixel that is not brought in from outside keeps its distance within 32 bits.\<close>

lemma back_by_add:
  assumes "rect_ok r" "p \<in> pixels r" "back_by (back_by p d) e \<in> pixels r"
  shows "back_by (back_by p d) e = back_by p (size_add e d)"
proof -
  note m = mem_pixels [OF assms(1)]
  have r: "small (rc_x r)" "small (rc_y r)" "small (rc_x r + rc_width r)" "small (rc_y r + rc_height r)"
    using rect_okD [OF assms(1)] by auto
  have "s32 (sz_width e + sz_width d) = sz_width e + sz_width d" "s32 (sz_height e + sz_height d) = sz_height e + sz_height d"
    using assms(2,3) r m by (cases p, auto simp: back_by_def small_def)+
  thus ?thesis by (simp add: back_by_def size_add_def IntSize_def)
qed

lemma scroll_rect_settled:
  assumes "settled U da" "painting da" "scrollable r d da" "\<not> rect_isEmpty r"
    and "rect_isEmpty (da_scrollRect da) \<or> da_scrollRect da = r" "scrolled r d (wp_content da) content"
  shows "settled U (scroll_rect r d (da\<lparr>wp_content := content\<rparr>))"
proof -
  let ?da = "da\<lparr>wp_content := content\<rparr>" and ?da' = "scroll_rect r d (da\<lparr>wp_content := content\<rparr>)"
  let ?D = "points (da_dirtyRegion da)" and ?R = "pixels r" and ?e = "da_scrollOffset da"
  have g: "geometry da" using assms(1) by (simp add: settled_def)
  have s: "rect_ok r" "at_origin r" "?R \<subseteq> V da" "can_move d r" "can_move (size_add ?e d) r"
    using assms(3) by (simp_all add: scrollable_def)
  have "region_ok (da_dirtyRegion ?da)" using g by (simp add: geometry_def)
  note sd = scroll_rect_dirty [OF this s(1) assms(4) s(4), simplified] and same = scroll_rect_same [of r d ?da]
  have v: "V ?da' = V da" "wp_bounds ?da' = wp_bounds da" using same(1) by (simp_all add: V_def wp_bounds_def)
  have "geometry ?da'" using g s sd v same assms(4) by (auto simp: geometry_def)
  moreover have "owed U ?da' p" if p: "p \<in> V ?da' - points (da_dirtyRegion ?da')" for p
  proof (cases "p \<in> ?R")
    case False
    hence "p \<in> V da - ?D" using p sd(2) v(1) by auto
    hence "owed U da p" using assms(1) by (simp add: settled_def)
    hence "U p = Some (wp_content da p)"
      using False assms(5) isEmpty_pixels g by (auto simp: owed_def geometry_def can_move_def)
    moreover have "content p = wp_content da p" by (rule scrolledD(1) [OF assms(6) False])
    ultimately show ?thesis using False same by (simp add: owed_def)
  next
    case True
    let ?q = "back_by p d"
    have q: "?q \<in> ?R" "?q \<in> V da - ?D" using True p sd(2) v s(3) by (auto simp: mem_shift)
    hence o: "owed U da ?q" using assms(1) by (simp add: settled_def)
    have c: "content p = wp_content da ?q" by (rule scrolledD(2) [OF assms(6) True q(1)])
    have "back_by ?q ?e \<in> ?R \<and> back_by ?q ?e \<in> V da \<and> U (back_by ?q ?e) = Some (wp_content da ?q)"
    proof (cases "rect_isEmpty (da_scrollRect da)")
      case e: True
      hence "?e = IntSize 0 0" "?q \<notin> pixels (da_scrollRect da)" using g isEmpty_pixels by (auto simp: geometry_def can_move_def)
      thus ?thesis using o q by (simp add: owed_def back_by_def IntSize_def)
    next
      case False
      thus ?thesis using o q assms(5) by (simp add: owed_def)
    qed
    with back_by_add [OF s(1) True, of d ?e] have "back_by p (size_add ?e d) \<in> ?R \<inter> V da \<and> U (back_by p (size_add ?e d)) = Some (content p)"
      using c by simp
    thus ?thesis using True same v by (simp add: owed_def)
  qed
  ultimately show ?thesis by (simp add: settled_def)
qed

lemma scroll_settled:
  assumes "settled U da" "painting da" "scrollable r d da" "can_move d r" "scrolled r d (wp_content da) content"
    and "scrollable r d (da\<lparr>da_scrollOffset := IntSize 0 0\<rparr>)"
  shows "settled U (da_scroll r d (da\<lparr>wp_content := content\<rparr>))"
proof -
  let ?da = "da\<lparr>wp_content := content\<rparr>"
  have r: "rect_ok r" using assms(3) by (simp add: scrollable_def)
  have p: "da_isPaintingEnabled da" "\<not> da_layerTreeHost da" using assms(2) by (simp_all add: painting_def)
  consider "rect_isEmpty r" | "\<not> rect_isEmpty r" "rect_isEmpty (da_scrollRect da) \<or> da_scrollRect da = r"
    | "\<not> rect_isEmpty r" "\<not> rect_isEmpty (da_scrollRect da)" "da_scrollRect da \<noteq> r" "area_of r \<le> area_of (da_scrollRect da)"
    | "\<not> rect_isEmpty r" "\<not> rect_isEmpty (da_scrollRect da)" "da_scrollRect da \<noteq> r" "\<not> area_of r \<le> area_of (da_scrollRect da)"
    by blast
  thus ?thesis
  proof cases
    case 1
    hence "pixels r = {}" using isEmpty_pixels [OF r] by simp
    hence "content = wp_content da" using scrolledD(1) [OF assms(5)] by blast
    moreover have "da_scroll r d ?da = ?da" using 1 p by (simp add: da_scroll_def)
    ultimately show ?thesis using assms(1) by simp
  next
    case 2
    hence "da_scroll r d ?da = scroll_rect r d ?da" using p by (auto simp: da_scroll_def)
    thus ?thesis using scroll_rect_settled [OF assms(1-3) 2 assms(5)] by simp
  next
    case 3
    hence "da_scroll r d ?da = setNeedsDisplayInRect r ?da" using p by (simp add: da_scroll_def)
    moreover have "\<forall>p. p \<notin> pixels r \<longrightarrow> content p = wp_content da p" using scrolledD(1) [OF assms(5)] by blast
    ultimately show ?thesis using damage_settled [OF assms(1,2) r] by simp
  next
    case 4
    let ?f = "setNeedsDisplayInRect (da_scrollRect da) da"
    let ?g = "?f\<lparr>da_scrollRect := IntRect 0 0 0 0, da_scrollOffset := IntSize 0 0\<rparr>"
    have "settled U (setNeedsDisplayInRect (da_scrollRect da) (da\<lparr>wp_content := wp_content da\<rparr>))"
      using assms(1) by (intro damage_settled [OF assms(1,2)]) (auto simp: settled_def geometry_def can_move_def)
    hence f: "settled U ?f" by simp
    have sr: "rect_ok (da_scrollRect da)" "geometry da" using assms(1) by (simp_all add: settled_def geometry_def can_move_def)
    note n = setNeedsDisplayInRect_dirty [OF sr(2) assms(2) sr(1)]
    have z: "can_move (IntSize 0 0) (IntRect 0 0 0 0)" "at_origin (IntRect 0 0 0 0)" "pixels (IntRect 0 0 0 0) = {}"
      using isEmpty_pixels [OF rect_zero(1)] rect_zero by (auto simp: can_move_def at_origin_def IntRect_def IntSize_def small_0)
    have v: "V ?g = V da" "wp_bounds ?g = wp_bounds ?f" "V ?f = V da" using n(2) by (simp_all add: V_def wp_bounds_def)
    have "settled U ?g"
      unfolding settled_def
    proof (intro conjI ballI)
      show "geometry ?g" using n(1) v z by (auto simp: geometry_def)
      fix p assume "p \<in> V ?g - points (da_dirtyRegion ?g)"
      hence "p \<in> V ?f - points (da_dirtyRegion ?f)" "p \<notin> pixels (da_scrollRect ?f)" using v n by auto
      thus "owed U ?g p" using f z(3) by (auto simp: settled_def owed_def)
    qed
    moreover have "painting ?g" using n(7) by (simp add: painting_def)
    moreover have "scrollable r d ?g" using assms(6) v by (simp add: scrollable_def V_def wp_bounds_def)
    ultimately have "settled U (scroll_rect r d (?g\<lparr>wp_content := content\<rparr>))"
      using 4(1) assms(5) n(4) rect_zero by (intro scroll_rect_settled) simp_all
    moreover have "setNeedsDisplayInRect (da_scrollRect da) ?da = ?f\<lparr>wp_content := content\<rparr>"
      by (simp add: setNeedsDisplayInRect_def scheduleDisplay_def wp_bounds_def host_def Let_def)
    moreover have "?g\<lparr>wp_content := content\<rparr>
        = (?f\<lparr>wp_content := content\<rparr>)\<lparr>da_scrollRect := IntRect 0 0 0 0, da_scrollOffset := IntSize 0 0\<rparr>"
      by (rule drawing_area.equality) simp_all
    ultimately show ?thesis using 4 p by (simp add: da_scroll_def Let_def)
  qed
qed

end
