(* ===== verification/Drawing_Update.thy ===== *)
theory Drawing_Update
  imports Drawing_Damage
begin

text \<open>
  One update, from the dirty region to the screen: the pixels that are painted are those of the page, and the
  backing store puts them where they belong, after copying what was scrolled.
\<close>

lemma no_pixels: "pixels (IntRect 0 0 0 0) = {}"
  by (auto simp: pixels_def contains_point_def IntRect_def rc_maxX_def)

subsection \<open>Painting into the bitmap\<close>

lemma draw_rects_at:
  "draw_rects content b rs p =
     (let q = (fst p + rc_x b, snd p + rc_y b) in if q \<in> cover rs then Some (content q) else None)"
proof -
  have "fold (draw_rect content b) rs bm p =
      (let q = (fst p + rc_x b, snd p + rc_y b) in if q \<in> cover rs then Some (content q) else bm p)" for bm
    by (induction rs arbitrary: bm) (auto simp: draw_rect_def Let_def)
  thus ?thesis by (simp add: draw_rects_def)
qed

subsection \<open>Copying what was scrolled\<close>

lemma scroll_target_pixels:
  assumes "can_move d r"
  shows "rect_ok (scroll_target r d)"
    and "pixels (scroll_target r d) = {(x, y). rc_x r + sz_width d \<le> x \<and> x < rc_x r + rc_width r
      \<and> rc_y r + sz_height d \<le> y \<and> y < rc_y r + rc_height r}"
proof -
  have sm: "small (rc_x r)" "small (rc_y r)" "small (rc_x r + rc_width r)" "small (rc_y r + rc_height r)"
      "small (rc_x r + sz_width d)" "small (rc_y r + sz_height d)"
      "small (rc_x r + rc_width r + sz_width d)" "small (rc_y r + rc_height r + sz_height d)"
    using assms by (simp_all add: can_move_def rect_ok_def)
  have m: "rc_x (move d r) = rc_x r + sz_width d" "rc_y (move d r) = rc_y r + sz_height d"
      "rc_width (move d r) = rc_width r" "rc_height (move d r) = rc_height r"
    using sm by (simp_all add: move_def small_simps)
  have e: "rc_maxX (move d r) = rc_x r + rc_width r + sz_width d" "rc_maxY (move d r) = rc_y r + rc_height r + sz_height d"
    unfolding rc_maxX_def rc_maxY_def m using sm by (simp_all add: algebra_simps small_simps)
  have w: "s32 (rc_width r - sz_width d) = rc_width r - sz_width d" "s32 (rc_height r - sz_height d) = rc_height r - sz_height d"
    using small_diff [OF sm(3,5)] small_diff [OF sm(4,6)] by (simp_all add: algebra_simps)
  have n: "s32 (- sz_width d) = - sz_width d" "s32 (- sz_height d) = - sz_height d"
    using small_diff [OF sm(3,7)] small_diff [OF sm(4,8)] by (simp_all add: algebra_simps)
  have t: "rc_x (scroll_target r d) = rc_x r + sz_width d" "rc_y (scroll_target r d) = rc_y r + sz_height d"
      "rc_width (scroll_target r d) = max 0 (rc_width r - sz_width d)"
      "rc_height (scroll_target r d) = max 0 (rc_height r - sz_height d)"
  proof -
    let ?a = "shiftMaxXEdgeTo (s32 (rc_maxX (move d r) - sz_width d)) (move d r)"
    have a: "?a = (move d r)\<lparr>rc_width := max 0 (rc_width r - sz_width d)\<rparr>"
      unfolding shiftMaxXEdgeTo_def Let_def e m using sm n w by (simp add: small_simps algebra_simps)
    have "rc_maxY ?a = rc_maxY (move d r)" unfolding a by (simp add: rc_maxY_def)
    hence "scroll_target r d = ?a\<lparr>rc_height := max 0 (rc_height r - sz_height d)\<rparr>"
      unfolding scroll_target_def Let_def shiftMaxYEdgeTo_def using e m a sm n w by (simp add: small_simps algebra_simps)
    thus "rc_x (scroll_target r d) = rc_x r + sz_width d" "rc_y (scroll_target r d) = rc_y r + sz_height d"
      "rc_width (scroll_target r d) = max 0 (rc_width r - sz_width d)"
      "rc_height (scroll_target r d) = max 0 (rc_height r - sz_height d)"
      using a m by simp_all
  qed
  show ok: "rect_ok (scroll_target r d)" unfolding rect_ok_def t using sm by (simp add: max_def)
  show "pixels (scroll_target r d) = {(x, y). rc_x r + sz_width d \<le> x \<and> x < rc_x r + rc_width r
      \<and> rc_y r + sz_height d \<le> y \<and> y < rc_y r + rc_height r}"
    using mem_pixels [OF ok] unfolding t by auto
qed

lemma copy_back:
  "copyRectFromOneSurfaceToAnother s from to (IntSize 0 0) rect p =
     (if p \<in> pixels rect \<and> p \<in> pixels (size_rect s) then over (from p) (to p) else to p)"
  by (simp add: copyRectFromOneSurfaceToAnother_def read_def IntSize_def)

lemma bs_scroll_at:
  assumes "can_move d r" "at_origin r" "rect_ok (size_rect s)" "p \<in> pixels (size_rect s)"
  shows "p \<notin> pixels r \<Longrightarrow> wb_surface (bs_scroll s r d w) p = wb_surface w p"
    and "\<lbrakk>p \<in> pixels r; back_by p d \<in> pixels r; back_by p d \<in> pixels (size_rect s); wb_surface w (back_by p d) = Some c\<rbrakk>
      \<Longrightarrow> wb_surface (bs_scroll s r d w) p = Some c"
proof -
  note t = scroll_target_pixels [OF assms(1)]
  have r: "rect_ok r" using assms(1) by (simp add: can_move_def)
  obtain x y where p: "p = (x, y)" by (cases p)
  have pos: "0 \<le> x" "0 \<le> y" using assms(4) mem_pixels [OF assms(3)] p by (auto simp: size_rect_def IntRect_def)
  let ?S = "copyRectFromOneSurfaceToAnother s (wb_surface w) (wb_scrollSurface w) d (scroll_target r d)"
  have sc: "wb_surface (bs_scroll s r d w) p =
      (if size_isZero d \<or> p \<notin> pixels (scroll_target r d) then wb_surface w p else over (?S p) (wb_surface w p))"
    using isEmpty_pixels [OF t(1)] assms(4)
    by (auto simp: bs_scroll_def widget_scroll_def Let_def copy_back)
  show "wb_surface (bs_scroll s r d w) p = wb_surface w p" if "p \<notin> pixels r"
  proof -
    have "p \<notin> pixels (scroll_target r d)"
      using that pos assms(2) t(2) mem_pixels [OF r] p by (auto simp: at_origin_def)
    thus ?thesis using sc by simp
  qed
  show "wb_surface (bs_scroll s r d w) p = Some c"
    if q: "p \<in> pixels r" "back_by p d \<in> pixels r" "back_by p d \<in> pixels (size_rect s)" "wb_surface w (back_by p d) = Some c"
  proof (cases "size_isZero d")
    case True
    hence "back_by p d = p" by (simp add: back_by_def size_isZero_def)
    with True q sc show ?thesis by simp
  next
    case False
    have "p \<in> pixels (scroll_target r d)" using q(1,2) t(2) mem_pixels [OF r] p by (auto simp: back_by_def)
    moreover have "?S p = Some c"
      using calculation q(3,4) assms(4) by (simp add: copyRectFromOneSurfaceToAnother_def read_def over_def flip: back_by_def)
    ultimately show ?thesis using False sc by (simp add: over_def)
  qed
qed

subsection \<open>Painting the bitmap\<close>

text \<open>An update that fits the backing store it is meant for.\<close>

definition info_view :: "'c update_info \<Rightarrow> pixel set" where
  "info_view info = pixels (size_rect (ui_viewSize info))"

definition info_ok :: "'c update_info \<Rightarrow> bool" where
  "info_ok info \<longleftrightarrow> rect_ok (size_rect (ui_viewSize info)) \<and> rect_ok (ui_updateRectBounds info)
     \<and> \<not> rect_isEmpty (ui_updateRectBounds info)
     \<and> (\<forall>r\<in>set (ui_updateRects info). rect_ok r) \<and> cover (ui_updateRects info) \<subseteq> pixels (ui_updateRectBounds info)
     \<and> can_move (ui_scrollOffset info) (ui_scrollRect info) \<and> at_origin (ui_scrollRect info)
     \<and> (\<exists>content. ui_bitmap info = Some (draw_rects content (ui_updateRectBounds info) (ui_updateRects info)))
     \<and> (\<forall>p\<in>info_view info - cover (ui_updateRects info). p \<in> pixels (ui_scrollRect info) \<longrightarrow>
          back_by p (ui_scrollOffset info) \<in> pixels (ui_scrollRect info) \<inter> info_view info)"

text \<open>What it makes of an image.\<close>

definition apply_info :: "'c update_info \<Rightarrow> 'c surface \<Rightarrow> 'c surface" where
  "apply_info info U p =
     (if p \<in> cover (ui_updateRects info)
      then the (ui_bitmap info) (fst p - rc_x (ui_updateRectBounds info), snd p - rc_y (ui_updateRectBounds info))
      else if p \<in> pixels (ui_scrollRect info) then U (back_by p (ui_scrollOffset info)) else U p)"

lemma paint_update_rect_at:
  assumes "rect_ok r" "rect_ok b" "p \<in> pixels (size_rect s)"
  shows "paint_update_rect s bitmap b r surface p =
    (if p \<in> pixels r then over (bitmap (fst p - rc_x b, snd p - rc_y b)) (surface p) else surface p)"
proof -
  let ?src = "move (IntSize (- rc_x b) (- rc_y b)) r"
  have sm: "small (rc_x r)" "small (rc_y r)" "small (rc_x b)" "small (rc_y b)"
      "small (rc_x r + rc_width r)" "small (rc_y r + rc_height r)"
    using assms(1,2) by (simp_all add: rect_ok_def)
  have x: "s32 (rc_x r - rc_x b) = rc_x r - rc_x b" "s32 (rc_y r - rc_y b) = rc_y r - rc_y b"
      "s32 (rc_x r + rc_width r - rc_x b) = rc_x r + rc_width r - rc_x b"
      "s32 (rc_y r + rc_height r - rc_y b) = rc_y r + rc_height r - rc_y b"
    using sm by (simp_all add: small_diff)
  have src: "rc_x ?src = rc_x r - rc_x b" "rc_y ?src = rc_y r - rc_y b" "rc_width ?src = rc_width r" "rc_height ?src = rc_height r"
    using x by (simp_all add: move_def IntSize_def)
  have e: "rc_maxX ?src = rc_x r + rc_width r - rc_x b" "rc_maxY ?src = rc_y r + rc_height r - rc_y b"
    unfolding rc_maxX_def rc_maxY_def src using x(3,4) by (simp_all add: algebra_simps)
  have mem: "(a, c) \<in> pixels ?src \<longleftrightarrow> (a + rc_x b, c + rc_y b) \<in> pixels r" for a c
    unfolding pixels_def mem_Collect_eq prod.case contains_point_def e src max_edges [OF assms(1)] by auto
  obtain px py where p: "p = (px, py)" by (cases p)
  show ?thesis
    unfolding paint_update_rect_def paint_bitmap_def Let_def src p using assms(3) p by (simp add: mem)
qed

lemma paint_rects_at:
  assumes "\<forall>r\<in>set rs. rect_ok r" "rect_ok b" "p \<in> pixels (size_rect s)"
  shows "p \<notin> cover rs \<Longrightarrow> fold (paint_update_rect s bitmap b) rs surface p = surface p"
    and "\<lbrakk>p \<in> cover rs; bitmap (fst p - rc_x b, snd p - rc_y b) = Some c\<rbrakk>
      \<Longrightarrow> fold (paint_update_rect s bitmap b) rs surface p = Some c"
proof -
  have at: "r \<in> set rs \<Longrightarrow> paint_update_rect s bitmap b r surface p =
      (if p \<in> pixels r then over (bitmap (fst p - rc_x b, snd p - rc_y b)) (surface p) else surface p)" for r surface
    using paint_update_rect_at [OF _ assms(2,3)] assms(1) by blast
  show "fold (paint_update_rect s bitmap b) rs surface p = surface p" if "p \<notin> cover rs"
    using that at by (induction rs arbitrary: surface) auto
  show "fold (paint_update_rect s bitmap b) rs surface p = Some c"
    if c: "p \<in> cover rs" "bitmap (fst p - rc_x b, snd p - rc_y b) = Some c"
  proof -
    have "fold (paint_update_rect s bitmap b) rs surface p = Some c" if "p \<in> cover rs \<or> surface p = Some c" for surface
      using that at c(2) by (induction rs arbitrary: surface) (auto simp: over_def)
    thus ?thesis using c(1) by blast
  qed
qed

definition store_surface :: "'c backing_store \<Rightarrow> 'c surface" where
  "store_surface bs = (case bs_backingStore bs of None \<Rightarrow> (\<lambda>p. None) | Some w \<Rightarrow> wb_surface w)"

lemma info_bitmap:
  assumes "info_ok info" "p \<in> cover (ui_updateRects info)"
  obtains c where "the (ui_bitmap info) (fst p - rc_x (ui_updateRectBounds info), snd p - rc_y (ui_updateRectBounds info)) = Some c"
  using assms by (auto simp: info_ok_def draw_rects_at Let_def)

lemma incorporate_at:
  assumes "info_ok info" "bs_size bs = ui_viewSize info" "p \<in> info_view info" "apply_info info (store_surface bs) p = Some c"
  shows "store_surface (bs_incorporateUpdate info bs) p = Some c" "bs_size (bs_incorporateUpdate info bs) = bs_size bs"
proof -
  let ?R = "ui_scrollRect info" and ?d = "ui_scrollOffset info" and ?b = "ui_updateRectBounds info" and ?rs = "ui_updateRects info"
  obtain bitmap where bm: "ui_bitmap info = Some bitmap" using assms(1) by (auto simp: info_ok_def)
  have ok: "rect_ok (size_rect (bs_size bs))" "rect_ok ?b" "\<forall>r\<in>set ?rs. rect_ok r" "can_move ?d ?R" "at_origin ?R"
    using assms(1,2) by (simp_all add: info_ok_def)
  have p: "p \<in> pixels (size_rect (bs_size bs))" using assms(2,3) by (simp add: info_view_def)
  define w where "w = (case bs_backingStore bs of None \<Rightarrow> WidgetBackingStoreCairo | Some w \<Rightarrow> w)"
  have U: "store_surface bs = wb_surface w"
    by (simp add: store_surface_def w_def WidgetBackingStoreCairo_def split: option.split)
  let ?w = "bs_scroll (bs_size bs) ?R ?d w"
  have inc: "store_surface (bs_incorporateUpdate info bs) p = fold (paint_update_rect (bs_size bs) bitmap ?b) ?rs (wb_surface ?w) p"
    by (simp add: bs_incorporateUpdate_def bm store_surface_def Let_def flip: w_def)
  show "bs_size (bs_incorporateUpdate info bs) = bs_size bs" by (simp add: bs_incorporateUpdate_def bm Let_def)
  note paint = paint_rects_at [OF ok(3,2) p] and sc = bs_scroll_at [OF ok(4,5,1) p]
  show "store_surface (bs_incorporateUpdate info bs) p = Some c"
  proof (cases "p \<in> cover ?rs")
    case True
    thus ?thesis unfolding inc using paint(2) assms(4) bm by (simp add: apply_info_def)
  next
    case no: False
    have f: "fold (paint_update_rect (bs_size bs) bitmap ?b) ?rs (wb_surface ?w) p = wb_surface ?w p" by (rule paint(1) [OF no])
    show ?thesis
    proof (cases "p \<in> pixels ?R")
      case True
      have "back_by p ?d \<in> pixels ?R \<inter> info_view info" using assms(1,3) no True by (simp add: info_ok_def)
      thus ?thesis unfolding inc f using sc(2) [OF True, of w] True no assms(2,4) U by (simp add: apply_info_def info_view_def)
    next
      case False
      thus ?thesis unfolding inc f using sc(1) [of w] no assms(4) U by (simp add: apply_info_def)
    qed
  qed
qed

subsection \<open>An update of a settled drawing area\<close>

lemma dirty_painted:
  assumes "region_ok g" "points g \<noteq> {}"
  defines "rs \<equiv> (if shouldPaintBoundsRect (rg_bounds g) (rects g) then [rg_bounds g] else rects g)"
  shows "\<forall>r\<in>set rs. rect_ok r" "points g \<subseteq> cover rs" "cover rs \<subseteq> pixels (rg_bounds g)"
  using rects_points(1,2) [OF assms(1)] region_okD(2,3) [OF assms(1)] by (auto simp: rs_def)

lemma display_update_settled:
  assumes "settled U (env_layoutIfNeeded env da)" "painting (env_layoutIfNeeded env da)"
    and "points (da_dirtyRegion (env_layoutIfNeeded env da)) \<noteq> {}" "\<forall>s. env_createBitmap env s"
    and "display_update env UpdateInfo da = (info, da')"
  shows "info_ok info" "ui_viewSize info = wp_size (env_layoutIfNeeded env da)"
    and "\<forall>p\<in>info_view info. apply_info info U p = Some (wp_content da' p)" "settled (apply_info info U) da'"
    and "da' = (env_layoutIfNeeded env da)\<lparr>da_dirtyRegion := Region_empty, da_scrollRect := IntRect 0 0 0 0,
      da_scrollOffset := IntSize 0 0, da_displayTimer := False\<rparr>"
    and "points (da_dirtyRegion (env_layoutIfNeeded env da)) \<subseteq> cover (ui_updateRects info)"
proof -
  define a where "a = env_layoutIfNeeded env da"
  let ?g = "da_dirtyRegion a" and ?b = "rg_bounds (da_dirtyRegion a)"
  define rs where "rs = (if shouldPaintBoundsRect ?b (rects ?g) then [?b] else rects ?g)"
  note as = assms(1-3) [folded a_def]
  have geo: "geometry a" and owe: "\<forall>p\<in>V a - points ?g. owed U a p" using as(1) by (simp_all add: settled_def)
  have g: "region_ok ?g" "points ?g \<subseteq> V a" "rect_ok (wp_bounds a)" using geo by (simp_all add: geometry_def)
  note dp = dirty_painted [OF g(1) as(3), folded rs_def]
  have res: "info = UpdateInfo\<lparr>ui_viewSize := wp_size a, ui_scrollRect := da_scrollRect a, ui_scrollOffset := da_scrollOffset a,
      ui_updateRectBounds := ?b, ui_updateRects := rs, ui_bitmap := Some (draw_rects (wp_content a) ?b rs)\<rparr>"
    "da' = a\<lparr>da_dirtyRegion := Region_empty, da_scrollRect := IntRect 0 0 0 0, da_scrollOffset := IntSize 0 0, da_displayTimer := False\<rparr>"
    using assms(4,5) as(2) by (simp_all add: display_update_def Let_def painting_def rs_def UpdateInfo_def flip: a_def)
  show "da' = (env_layoutIfNeeded env da)\<lparr>da_dirtyRegion := Region_empty, da_scrollRect := IntRect 0 0 0 0,
      da_scrollOffset := IntSize 0 0, da_displayTimer := False\<rparr>" using res(2) by (simp add: a_def)
  show "ui_viewSize info = wp_size (env_layoutIfNeeded env da)" using res(1) by (simp add: a_def)
  have v: "info_view info = V a" using res(1) by (simp add: info_view_def V_def wp_bounds_def size_rect_def)
  have c: "ui_updateRects info = rs" using res(1) by simp
  show "points (da_dirtyRegion (env_layoutIfNeeded env da)) \<subseteq> cover (ui_updateRects info)" using dp(2) c by (simp add: a_def)
  have far: "p \<in> V a - cover rs \<Longrightarrow> owed U a p" for p using owe dp(2) by blast
  have sz: "size_rect (wp_size a) = wp_bounds a" by (simp add: size_rect_def wp_bounds_def)
  have ne: "\<not> rect_isEmpty ?b" using as(3) region_okD(3) [OF g(1)] isEmpty_pixels [OF region_okD(2) [OF g(1)]] by auto
  show "info_ok info"
    unfolding info_ok_def v c
  proof (intro conjI ballI impI)
    show "\<exists>content. ui_bitmap info = Some (draw_rects content (ui_updateRectBounds info) rs)" using res(1) by auto
    fix p assume "p \<in> V a - cover rs" "p \<in> pixels (ui_scrollRect info)"
    thus "back_by p (ui_scrollOffset info) \<in> pixels (ui_scrollRect info) \<inter> V a"
      using far [of p] res(1) by (simp add: owed_def)
  qed (use geo res(1) ne dp region_okD(2) [OF g(1)] in \<open>simp_all add: geometry_def sz\<close>)
  show all: "\<forall>p\<in>info_view info. apply_info info U p = Some (wp_content da' p)"
  proof
    fix p assume "p \<in> info_view info"
    hence p: "p \<in> V a" using v by simp
    show "apply_info info U p = Some (wp_content da' p)"
    proof (cases "p \<in> cover rs")
      case True
      thus ?thesis using res by (simp add: apply_info_def draw_rects_at)
    next
      case False
      thus ?thesis using far [of p] p res by (simp add: apply_info_def owed_def)
    qed
  qed
  have "geometry da'" using geo rg.none unfolding res(2)
    by (simp add: geometry_def wp_bounds_def can_move_def at_origin_def rect_ok_def IntRect_def IntSize_def)
  moreover have "V da' = V a" unfolding res(2) by (simp add: V_def wp_bounds_def)
  ultimately show "settled (apply_info info U) da'"
    using all v res(2) rg.none no_pixels by (simp add: settled_def owed_def)
qed

subsection \<open>Scrolling a part that does not begin at the origin\<close>

text \<open>
  The target of the copy ends where the scrolled rectangle ends, but begins before it when the offset is
  negative: scrolling the rows 5 to 9 of a column up by two overwrites the rows 3 and 4, which nobody repaints.
\<close>

lemma scroll_up_spills:
  defines "w \<equiv> bs_scroll (IntSize 1 10) (IntRect 0 5 1 5) (IntSize 0 (- 2)) \<lparr>wb_surface = (\<lambda>p. Some (snd p)), wb_scrollSurface = (\<lambda>p. None)\<rparr>"
  shows "(0, 3) \<notin> pixels (IntRect 0 5 1 5)" "wb_surface w (0, 3) = Some 5" "wb_surface w (0, 4) = Some 6"
proof -
  have c: "can_move (IntSize 0 (- 2)) (IntRect 0 5 1 5)" "rect_ok (IntRect 0 5 1 5)" "rect_ok (size_rect (IntSize 1 10))"
    by (simp_all add: can_move_def rect_ok_def IntRect_def IntSize_def small_def size_rect_def)
  note t = scroll_target_pixels [OF c(1)]
  have m: "p \<in> pixels (size_rect (IntSize 1 10)) \<longleftrightarrow> fst p = 0 \<and> 0 \<le> snd p \<and> snd p < 10" for p
    using mem_pixels [OF c(3)] by (cases p) (auto simp: size_rect_def IntRect_def IntSize_def)
  have n: "p \<in> pixels (scroll_target (IntRect 0 5 1 5) (IntSize 0 (- 2))) \<longleftrightarrow> fst p = 0 \<and> 3 \<le> snd p \<and> snd p < 10" for p
    unfolding t(2) by (cases p) (auto simp: IntRect_def IntSize_def)
  hence "\<not> rect_isEmpty (scroll_target (IntRect 0 5 1 5) (IntSize 0 (- 2)))" using isEmpty_pixels [OF t(1)] by fastforce
  thus "wb_surface w (0, 3) = Some 5" "wb_surface w (0, 4) = Some 6"
    by (simp_all add: w_def bs_scroll_def widget_scroll_def size_isZero_def Let_def copy_back m n
        copyRectFromOneSurfaceToAnother_def read_def over_def) (simp_all add: IntSize_def m)
  show "(0, 3) \<notin> pixels (IntRect 0 5 1 5)" using mem_pixels [OF c(2)] by (auto simp: IntRect_def)
qed

end
