(* ===== verification/Drawing_Page.thy ===== *)
theory Drawing_Page
  imports Drawing_Update
begin

text \<open>
  What a page does to its drawing area: any number of changes and scrolls that it reports leave the drawing area
  settled, scheduled to paint what is not on the screen, and the protocol with the UI process as it was.
\<close>

subsection \<open>What the page does\<close>

text \<open>The page changes a part of what it shows, or scrolls a part of it, and reports it to the drawing area.\<close>

inductive page_acts :: "'c drawing_area \<Rightarrow> 'c drawing_area \<Rightarrow> bool" where
  stays: "page_acts da da"
| changes: "\<lbrakk>page_acts da0 da; rect_ok r; \<forall>p. p \<notin> pixels r \<longrightarrow> content p = wp_content da p\<rbrakk>
    \<Longrightarrow> page_acts da0 (setNeedsDisplayInRect r (da\<lparr>wp_content := content\<rparr>))"
| scrolls: "\<lbrakk>page_acts da0 da; scrollable r d da; scrollable r d (da\<lparr>da_scrollOffset := IntSize 0 0\<rparr>);
      scrolled r d (wp_content da) content\<rbrakk>
    \<Longrightarrow> page_acts da0 (da_scroll r d (da\<lparr>wp_content := content\<rparr>))"

text \<open>What is not on the screen yet is waited for or scheduled; a scroll that is pending comes with damage.\<close>

definition scheduled :: "'c drawing_area \<Rightarrow> bool" where
  "scheduled da \<longleftrightarrow> points (da_dirtyRegion da) = {} \<or> da_isWaitingForDidUpdate da \<or> da_displayTimer da
     \<or> da_shouldSendDidUpdateBackingStoreState da"

definition core :: "'c surface \<Rightarrow> 'c drawing_area \<Rightarrow> bool" where
  "core U da \<longleftrightarrow> settled U da \<and> painting da
     \<and> (points (da_dirtyRegion da) = {} \<longrightarrow> size_isZero (da_scrollOffset da))"

definition area_ok :: "'c surface \<Rightarrow> 'c drawing_area \<Rightarrow> bool" where
  "area_ok U da \<longleftrightarrow> core U da \<and> scheduled da"

definition same_protocol :: "'c drawing_area \<Rightarrow> 'c drawing_area \<Rightarrow> bool" where
  "same_protocol da da' \<longleftrightarrow> wp_size da' = wp_size da \<and> da_backingStoreStateID da' = da_backingStoreStateID da
     \<and> da_shouldSendDidUpdateBackingStoreState da' = da_shouldSendDidUpdateBackingStoreState da
     \<and> da_isWaitingForDidUpdate da' = da_isWaitingForDidUpdate da \<and> da_sent da' = da_sent da"

lemma scheduleDisplay_scheduled:
  assumes "region_ok (da_dirtyRegion da)" "\<not> da_isPaintingSuspended da"
  shows "scheduled (scheduleDisplay da)"
  using assms rg.is_none [OF assms(1)] by (auto simp: scheduled_def scheduleDisplay_def)

lemma scheduled_cong:
  "scheduled (da\<lparr>da_scrollRect := r, da_scrollOffset := d\<rparr>) = scheduled da" "scheduled (da\<lparr>wp_content := content\<rparr>) = scheduled da"
  by (simp_all add: scheduled_def)

lemma uncovered_nonempty:
  assumes "rect_ok r" "\<not> rect_isEmpty r" "\<not> size_isZero d"
  shows "pixels r - shift d (pixels r) \<noteq> {}"
proof -
  note m = mem_pixels [OF assms(1)]
  have ne: "0 < rc_width r" "0 < rc_height r"
    using assms(2) by (simp_all add: rect_isEmpty_def size_isEmpty_def rect_size_def IntSize_def)
  let ?x = "if sz_width d < 0 then rc_x r + rc_width r - 1 else rc_x r"
  let ?y = "if sz_height d < 0 then rc_y r + rc_height r - 1 else rc_y r"
  have "(?x, ?y) \<in> pixels r" using ne m by auto
  moreover have "(?x - sz_width d, ?y - sz_height d) \<notin> pixels r" using assms(3) ne m by (auto simp: size_isZero_def)
  ultimately show ?thesis unfolding shift_def by blast
qed

lemma scroll_rect_work:
  assumes "region_ok (da_dirtyRegion da)" "rect_ok r" "\<not> rect_isEmpty r" "can_move d r" "\<not> da_isPaintingSuspended da"
  shows "scheduled (scroll_rect r d da)"
    and "\<not> size_isZero d \<Longrightarrow> points (da_dirtyRegion (scroll_rect r d da)) \<noteq> {}"
    and "size_isZero d \<Longrightarrow> points (da_dirtyRegion (scroll_rect r d da)) = points (da_dirtyRegion da)"
proof -
  note sd = scroll_rect_dirty [OF assms(1-4)]
  show "\<not> size_isZero d \<Longrightarrow> points (da_dirtyRegion (scroll_rect r d da)) \<noteq> {}"
    unfolding sd(2) using uncovered_nonempty [OF assms(2,3), of d] by blast
  have "size_isZero d \<Longrightarrow> shift d ps = ps" for ps by (auto simp: shift_def size_isZero_def)
  thus "size_isZero d \<Longrightarrow> points (da_dirtyRegion (scroll_rect r d da)) = points (da_dirtyRegion da)"
    unfolding sd(2) by auto
  let ?D = "da_dirtyRegion (scroll_rect r d da)"
  have "scroll_rect r d da = (scheduleDisplay (da\<lparr>da_dirtyRegion := ?D\<rparr>))
      \<lparr>da_scrollRect := r, da_scrollOffset := size_add (da_scrollOffset da) d\<rparr>"
    by (simp add: scroll_rect_def Let_def)
  moreover have "scheduled (scheduleDisplay (da\<lparr>da_dirtyRegion := ?D\<rparr>))"
    by (rule scheduleDisplay_scheduled) (use sd(1) assms(5) in simp_all)
  ultimately show "scheduled (scroll_rect r d da)" using scheduled_cong(1) by metis
qed


lemma change_acts:
  assumes "core U da" "rect_ok r" "\<forall>p. p \<notin> pixels r \<longrightarrow> content p = wp_content da p"
  defines "da' \<equiv> setNeedsDisplayInRect r (da\<lparr>wp_content := content\<rparr>)"
  shows "core U da'" "scheduled da \<Longrightarrow> scheduled da'" "points (da_dirtyRegion da) \<subseteq> points (da_dirtyRegion da')"
proof -
  let ?da = "da\<lparr>wp_content := content\<rparr>"
  have c: "settled U da" "painting da" "points (da_dirtyRegion da) = {} \<longrightarrow> size_isZero (da_scrollOffset da)"
    using assms(1) by (simp_all add: core_def)
  have g: "geometry ?da" "painting ?da" using c by (simp_all add: settled_def geometry_def painting_def V_def wp_bounds_def)
  note n = setNeedsDisplayInRect_dirty [OF g assms(2), folded da'_def]
  have "settled U da'" unfolding da'_def by (rule damage_settled [OF c(1,2) assms(2,3)])
  thus "core U da'" using n c by (auto simp: core_def)
  show "points (da_dirtyRegion da) \<subseteq> points (da_dirtyRegion da')" using n(3) by auto
  assume s: "scheduled da"
  let ?d = "rect_intersect r (wp_bounds ?da)"
  show "scheduled da'"
  proof (cases "rect_isEmpty ?d")
    case True
    thus ?thesis using s c(2) by (simp add: da'_def setNeedsDisplayInRect_def painting_def Let_def scheduled_def)
  next
    case False
    let ?da1 = "?da\<lparr>da_dirtyRegion := unite (da_dirtyRegion da) (Region_rect ?d)\<rparr>"
    have e: "da' = scheduleDisplay ?da1"
      using False c(2) by (simp add: da'_def setNeedsDisplayInRect_def painting_def Let_def)
    have "da_dirtyRegion da' = da_dirtyRegion ?da1" unfolding e by simp
    hence "region_ok (da_dirtyRegion ?da1)" using n(1) by (simp add: geometry_def)
    thus ?thesis unfolding e by (rule scheduleDisplay_scheduled) (use c(2) in \<open>simp add: painting_def\<close>)
  qed
qed

lemma scroll_rect_acts:
  assumes "region_ok (da_dirtyRegion da)" "painting da" "rect_ok r" "\<not> rect_isEmpty r" "can_move d r"
    and "points (da_dirtyRegion da) = {} \<longrightarrow> size_isZero (da_scrollOffset da)"
  defines "da' \<equiv> scroll_rect r d da"
  shows "painting da'" "scheduled da'" "points (da_dirtyRegion da') = {} \<longrightarrow> size_isZero (da_scrollOffset da')"
    and "points (da_dirtyRegion da) \<noteq> {} \<Longrightarrow> points (da_dirtyRegion da') \<noteq> {}"
proof -
  have "\<not> da_isPaintingSuspended da" using assms(2) by (simp add: painting_def)
  note w = scroll_rect_work [OF assms(1,3-5) this, folded da'_def]
  show "painting da'" "scheduled da'" using assms(2) w(1) scroll_rect_same(5) [of r d da] by (simp_all add: da'_def)
  show "points (da_dirtyRegion da) \<noteq> {} \<Longrightarrow> points (da_dirtyRegion da') \<noteq> {}" using w(2,3) by blast
  show "points (da_dirtyRegion da') = {} \<longrightarrow> size_isZero (da_scrollOffset da')"
  proof
    assume "points (da_dirtyRegion da') = {}"
    hence "size_isZero d" "size_isZero (da_scrollOffset da)" using w(2,3) assms(6) by auto
    thus "size_isZero (da_scrollOffset da')"
      unfolding da'_def scroll_rect_same by (simp add: size_isZero_def size_add_def IntSize_def)
  qed
qed

lemma scroll_acts:
  assumes "core U da" "scrollable r d da" "scrollable r d (da\<lparr>da_scrollOffset := IntSize 0 0\<rparr>)" "scrolled r d (wp_content da) content"
  defines "da' \<equiv> da_scroll r d (da\<lparr>wp_content := content\<rparr>)"
  shows "core U da'" "scheduled da \<Longrightarrow> scheduled da'" "points (da_dirtyRegion da) \<noteq> {} \<Longrightarrow> points (da_dirtyRegion da') \<noteq> {}"
proof -
  let ?da = "da\<lparr>wp_content := content\<rparr>"
  have c: "settled U da" "painting da" "points (da_dirtyRegion da) = {} \<longrightarrow> size_isZero (da_scrollOffset da)"
    using assms(1) by (simp_all add: core_def)
  have r: "rect_ok r" "can_move d r" using assms(2) by (simp_all add: scrollable_def)
  have st: "settled U da'" unfolding da'_def by (rule scroll_settled [OF c(1,2) assms(2) r(2) assms(4,3)])
  have p: "da_isPaintingEnabled da" "\<not> da_layerTreeHost da" using c(2) by (simp_all add: painting_def)
  have g: "geometry ?da" "painting ?da" using c by (simp_all add: settled_def geometry_def painting_def V_def wp_bounds_def)
  have "painting da' \<and> (points (da_dirtyRegion da') = {} \<longrightarrow> size_isZero (da_scrollOffset da'))
    \<and> (scheduled da \<longrightarrow> scheduled da') \<and> (points (da_dirtyRegion da) \<noteq> {} \<longrightarrow> points (da_dirtyRegion da') \<noteq> {})"
  proof -
    consider "rect_isEmpty r" | "\<not> rect_isEmpty r" "rect_isEmpty (da_scrollRect da) \<or> da_scrollRect da = r"
      | "\<not> rect_isEmpty r" "\<not> rect_isEmpty (da_scrollRect da)" "da_scrollRect da \<noteq> r" "area_of r \<le> area_of (da_scrollRect da)"
      | "\<not> rect_isEmpty r" "\<not> rect_isEmpty (da_scrollRect da)" "da_scrollRect da \<noteq> r" "\<not> area_of r \<le> area_of (da_scrollRect da)"
      by blast
    thus ?thesis
    proof cases
      case 1
      hence "da' = ?da" using p by (simp add: da'_def da_scroll_def)
      thus ?thesis using c g by (simp add: scheduled_cong)
    next
      case 2
      hence e: "da' = scroll_rect r d ?da" using p by (auto simp: da'_def da_scroll_def)
      have "region_ok (da_dirtyRegion ?da)" using g by (simp add: geometry_def)
      from scroll_rect_acts [OF this g(2) r(1) 2(1) r(2)] c(3) show ?thesis unfolding e by simp
    next
      case 3
      hence e: "da' = setNeedsDisplayInRect r ?da" using p by (simp add: da'_def da_scroll_def)
      have "\<forall>p. p \<notin> pixels r \<longrightarrow> content p = wp_content da p" using scrolledD(1) [OF assms(4)] by blast
      from change_acts [OF assms(1) r(1) this] show ?thesis unfolding e core_def by blast
    next
      case 4
      let ?f = "setNeedsDisplayInRect (da_scrollRect da) ?da"
      let ?h = "?f\<lparr>da_scrollRect := IntRect 0 0 0 0, da_scrollOffset := IntSize 0 0\<rparr>"
      have e: "da' = scroll_rect r d ?h" using 4 p by (simp add: da'_def da_scroll_def Let_def)
      have "rect_ok (da_scrollRect da)" using g by (simp add: geometry_def can_move_def)
      note n = setNeedsDisplayInRect_dirty [OF g this]
      have h: "region_ok (da_dirtyRegion ?h)" "painting ?h" using n(1,7) by (simp_all add: geometry_def painting_def)
      have "points (da_dirtyRegion da) \<subseteq> points (da_dirtyRegion ?h)" using n(3) by auto
      with scroll_rect_acts [OF h r(1) 4(1) r(2)] show ?thesis
        unfolding e by (auto simp: size_isZero_def IntSize_def)
    qed
  qed
  with st show "core U da'" "scheduled da \<Longrightarrow> scheduled da'"
    "points (da_dirtyRegion da) \<noteq> {} \<Longrightarrow> points (da_dirtyRegion da') \<noteq> {}" by (auto simp: core_def)
qed

lemma protocol_same [simp]:
  "same_protocol da (setNeedsDisplayInRect r da)" "same_protocol da (scroll_rect r d da)"
  by (simp_all add: same_protocol_def setNeedsDisplayInRect_def scroll_rect_def scheduleDisplay_def host_def Let_def)

lemma same_protocol_trans: "\<lbrakk>same_protocol da da'; same_protocol da' da''\<rbrakk> \<Longrightarrow> same_protocol da da''"
  by (simp add: same_protocol_def)

lemma same_protocol_record [simp]:
  "same_protocol da (da\<lparr>wp_content := content\<rparr>)" "same_protocol da (host call da)"
  "same_protocol da (da'\<lparr>da_scrollRect := r, da_scrollOffset := d\<rparr>) = same_protocol da da'"
  by (simp_all add: same_protocol_def host_def)

lemma da_scroll_protocol: "same_protocol da (da_scroll r d da)"
  unfolding da_scroll_def Let_def
  by (auto intro: same_protocol_trans [OF _ protocol_same(2)] simp: same_protocol_def [of da da])

lemma page_acts_same: "page_acts da da' \<Longrightarrow> same_protocol da da'"
proof (induction rule: page_acts.induct)
  case (changes da0 da r content)
  thus ?case by (blast intro: same_protocol_trans protocol_same(1) same_protocol_record(1))
next
  case (scrolls da0 da r d content)
  thus ?case by (blast intro: same_protocol_trans da_scroll_protocol same_protocol_record(1))
qed (simp add: same_protocol_def)

lemma page_acts_core:
  assumes "page_acts da da'" "core U da"
  shows "core U da'" "scheduled da \<Longrightarrow> scheduled da'" "points (da_dirtyRegion da) \<noteq> {} \<Longrightarrow> points (da_dirtyRegion da') \<noteq> {}"
proof -
  have "core U da' \<and> (scheduled da \<longrightarrow> scheduled da') \<and> (points (da_dirtyRegion da) \<noteq> {} \<longrightarrow> points (da_dirtyRegion da') \<noteq> {})"
    using assms
  proof (induction rule: page_acts.induct)
    case (changes da0 da r content)
    hence "core U da" by blast
    from change_acts [OF this changes.hyps(2,3)] changes.IH [OF changes.prems] show ?case by blast
  next
    case (scrolls da0 da r d content)
    hence "core U da" by blast
    from scroll_acts [OF this scrolls.hyps(2-4)] scrolls.IH [OF scrolls.prems] show ?case by blast
  qed simp
  thus "core U da'" "scheduled da \<Longrightarrow> scheduled da'" "points (da_dirtyRegion da) \<noteq> {} \<Longrightarrow> points (da_dirtyRegion da') \<noteq> {}"
    by blast+
qed

end
