(* ===== verification/Drawing_Protocol.thy ===== *)
theory Drawing_Protocol
  imports Drawing_Page
begin

text \<open>
  The messages on their way to the UI process: what the screen will show when it has handled them, whatever
  it skips because a newer backing store made it stale, is what the drawing area is settled with.
\<close>

subsection \<open>The rest of the web process\<close>

definition good_size :: "int_size \<Rightarrow> bool" where
  "good_size s \<longleftrightarrow> 0 < sz_width s \<and> 0 < sz_height s \<and> small (sz_width s) \<and> small (sz_height s)"

definition scroll_ok :: "'c drawing_area \<Rightarrow> bool" where
  "scroll_ok da \<longleftrightarrow> can_move (da_scrollOffset da) (da_scrollRect da) \<and> at_origin (da_scrollRect da)
     \<and> (rect_isEmpty (da_scrollRect da) \<longrightarrow> da_scrollOffset da = IntSize 0 0)"

text \<open>Resizing may do anything to the page, which is painted again as a whole afterwards.\<close>

definition resized :: "int_size \<Rightarrow> 'c drawing_area \<Rightarrow> 'c drawing_area \<Rightarrow> bool" where
  "resized s da da' \<longleftrightarrow> wp_size da' = s \<and> painting da' \<and> scroll_ok da'
     \<and> da_backingStoreStateID da' = da_backingStoreStateID da \<and> da_sent da' = da_sent da
     \<and> da_shouldSendDidUpdateBackingStoreState da' = da_shouldSendDidUpdateBackingStoreState da"

definition page_env_ok :: "'c page_env \<Rightarrow> bool" where
  "page_env_ok env \<longleftrightarrow> (\<forall>da. page_acts da (env_layoutIfNeeded env da)) \<and> (\<forall>s. env_createBitmap env s)
     \<and> (\<forall>da s offset. painting da \<and> scroll_ok da \<longrightarrow>
          resized s da (env_scrollMainFrame env offset (env_layoutIfNeeded env (env_setSize env s da))))"

lemma page_env_okD:
  assumes "page_env_ok env"
  shows "page_acts da (env_layoutIfNeeded env da)" "env_createBitmap env s"
    and "\<lbrakk>painting da; scroll_ok da\<rbrakk>
      \<Longrightarrow> resized s da (env_scrollMainFrame env offset (env_layoutIfNeeded env (env_setSize env s da)))"
  using assms unfolding page_env_ok_def by blast+

lemma core_cong [simp]:
  "core U (da\<lparr>da_inUpdateBackingStoreState := b\<rparr>) = core U da" "core U (da\<lparr>da_isWaitingForDidUpdate := b\<rparr>) = core U da"
  "core U (da\<lparr>da_displayTimer := b\<rparr>) = core U da" "core U (da\<lparr>da_sent := q\<rparr>) = core U da"
  "core U (da\<lparr>da_shouldSendDidUpdateBackingStoreState := b\<rparr>) = core U da"
  "core U (da\<lparr>da_compositingAccordingToProxyMessages := b\<rparr>) = core U da"
  by (simp_all add: core_def settled_def geometry_def owed_def painting_def V_def wp_bounds_def)

lemma area_ok_cong [simp]:
  "area_ok U (da\<lparr>da_inUpdateBackingStoreState := b\<rparr>) = area_ok U da" "area_ok U (da\<lparr>da_sent := q\<rparr>) = area_ok U da"
  "area_ok U (da\<lparr>da_compositingAccordingToProxyMessages := b\<rparr>) = area_ok U da"
  by (simp_all add: area_ok_def scheduled_def)

subsection \<open>The messages on their way\<close>

text \<open>
  The drawing area at the end of the queue, for a UI process that is then in state \<open>c\<close> with the image \<open>A\<close>
  of size \<open>s\<close>, which means something if it is \<open>fresh\<close>.
\<close>

definition ends :: "('c surface \<Rightarrow> 'c drawing_area \<Rightarrow> bool) \<Rightarrow> bool \<Rightarrow> nat \<Rightarrow> int_size \<Rightarrow> 'c surface \<Rightarrow> 'c drawing_area \<Rightarrow> bool" where
  "ends P fresh c s A da \<longleftrightarrow>
     (if da_shouldSendDidUpdateBackingStoreState da then c < da_backingStoreStateID da \<and> points (da_dirtyRegion da) \<noteq> {} \<and> P (\<lambda>p. None) da
      else da_backingStoreStateID da = c \<and> (if fresh then s = wp_size da \<and> P A da else \<exists>U. P U da))"

fun sync :: "bool \<Rightarrow> nat \<Rightarrow> int_size \<Rightarrow> 'c surface \<Rightarrow> 'c proxy_message list \<Rightarrow> 'c drawing_area \<Rightarrow> bool" where
  "sync fresh c s A [] da \<longleftrightarrow> ends area_ok fresh c s A da"
| "sync fresh c s A (Update i info # q) da \<longleftrightarrow> i \<le> c \<and>
     (if fresh \<and> i = c then info_ok info \<and> ui_viewSize info = s \<and> sync fresh c s (apply_info info A) q da
      else sync fresh c s A q da)"
| "sync fresh c s A (DidUpdateBackingStoreState i info context # q) da \<longleftrightarrow> c < i \<and> context = 0 \<and> info_ok info
     \<and> (\<forall>p\<in>info_view info. apply_info info (\<lambda>p. None) p \<noteq> None)
     \<and> sync True i (ui_viewSize info) (apply_info info (\<lambda>p. None)) q da"
| "sync fresh c s A (m # q) da \<longleftrightarrow> False"

lemma sync_end:
  assumes "sync fresh c s A q da" "\<And>fresh c s A. ends area_ok fresh c s A da \<Longrightarrow> sync fresh c s A ms da'"
  shows "sync fresh c s A (q @ ms) da'"
  using assms(1) by (induction q arbitrary: fresh c s A rule: list.induct) (auto intro: assms(2) elim: sync.elims split: if_splits)

lemma sync_stale: "sync True c s A q da \<Longrightarrow> sync False c s' A' q da"
proof (induction q arbitrary: c s A A')
  case (Cons m q)
  thus ?case by (cases m) (auto split: if_splits)
qed (auto simp: ends_def split: if_splits)

lemma sync_any: "sync False c s A q da \<Longrightarrow> sync False c s' A' q da"
proof (induction q)
  case (Cons m q)
  thus ?case by (cases m) auto
qed (simp add: ends_def)

lemma sync_le: "sync fresh c s A q da \<Longrightarrow> c \<le> da_backingStoreStateID da"
proof (induction q arbitrary: fresh c s A)
  case (Cons m q)
  thus ?case by (cases m) (auto split: if_splits intro: order.trans [OF less_imp_le])
qed (auto simp: ends_def split: if_splits)

text \<open>An answer to a change of size can be handled before the updates in front of it: they are stale then.\<close>

lemma sync_take:
  assumes "take_didUpdate q = Some (i, info, context, rest)" "sync fresh c s A q da"
  shows "c < i \<and> context = 0 \<and> info_ok info \<and> (\<forall>p\<in>info_view info. apply_info info (\<lambda>p. None) p \<noteq> None)
    \<and> sync True i (ui_viewSize info) (apply_info info (\<lambda>p. None)) rest da"
  using assms
proof (induction q arbitrary: fresh s A rest)
  case (Cons m q)
  show ?case
  proof (cases m)
    case (Update j info')
    with Cons.prems obtain rest' where r: "take_didUpdate q = Some (i, info, context, rest')" "rest = m # rest'" by auto
    have "j \<le> c" "\<exists>A'. sync fresh c s A' q da" using Cons.prems(2) Update by (auto split: if_splits)
    hence "j < i" using Cons.IH [OF r(1)] by fastforce
    thus ?thesis using Cons.IH [OF r(1)] r(2) Update \<open>\<exists>A'. sync fresh c s A' q da\<close> by auto
  qed (use Cons.prems in auto)
qed simp

lemma settled_mono:
  assumes "settled U da" "\<forall>p\<in>V da. \<forall>x. U p = Some x \<longrightarrow> U' p = Some x"
  shows "settled U' da"
  using assms unfolding settled_def owed_def by (auto split: if_splits)

lemma apply_info_mono:
  assumes "info_ok info" "\<forall>p\<in>info_view info. \<forall>x. A p = Some x \<longrightarrow> A' p = Some x" "p \<in> info_view info" "apply_info info A p = Some x"
  shows "apply_info info A' p = Some x"
proof (cases "p \<in> cover (ui_updateRects info)")
  case False
  hence "p \<in> pixels (ui_scrollRect info) \<Longrightarrow> back_by p (ui_scrollOffset info) \<in> info_view info"
    using assms(1,3) by (simp add: info_ok_def)
  thus ?thesis using False assms by (auto simp: apply_info_def split: if_splits)
qed (use assms(4) in \<open>simp add: apply_info_def\<close>)

lemma sync_mono:
  assumes "sync fresh c s A q da" "\<forall>p\<in>pixels (size_rect s). \<forall>x. A p = Some x \<longrightarrow> A' p = Some x"
  shows "sync fresh c s A' q da"
  using assms
proof (induction q arbitrary: A A')
  case Nil
  have "V da = pixels (size_rect s)" if "s = wp_size da" using that by (simp add: V_def wp_bounds_def size_rect_def)
  thus ?case using Nil settled_mono [of A da A'] by (auto simp: ends_def area_ok_def core_def split: if_splits)
next
  case (Cons m q)
  show ?case
  proof (cases m)
    case (Update i info)
    show ?thesis
    proof (cases "fresh \<and> i = c")
      case True
      hence u: "info_ok info" "ui_viewSize info = s" "sync fresh c s (apply_info info A) q da" using Cons.prems(1) Update by auto
      have "sync fresh c s (apply_info info A') q da"
        by (rule Cons.IH [OF u(3)]) (use apply_info_mono [OF u(1)] Cons.prems(2) u(2) in \<open>simp add: info_view_def\<close>)
      thus ?thesis using True u Cons.prems(1) Update by simp
    next
      case False
      hence "sync fresh c s A q da" "i \<le> c" using Cons.prems(1) Update by auto
      thus ?thesis using Cons.IH [OF _ Cons.prems(2)] False Update by auto
    qed
  qed (use Cons.prems in auto)
qed

subsection \<open>What the web process sends\<close>

lemma display_update_end:
  assumes "page_env_ok env" "core U da" "points (da_dirtyRegion da) \<noteq> {}" "display_update env UpdateInfo da = (info, da')"
  shows "info_ok info" "ui_viewSize info = wp_size da" "\<forall>p\<in>info_view info. apply_info info U p \<noteq> None"
    and "area_ok (apply_info info U) da'" "same_protocol da da'"
proof -
  let ?a = "env_layoutIfNeeded env da"
  note e = page_env_okD(1) [OF assms(1), of da]
  have sp: "same_protocol da ?a" by (rule page_acts_same [OF e])
  note pa = page_acts_core [OF e assms(2)]
  have a: "settled U ?a" "painting ?a" "points (da_dirtyRegion ?a) \<noteq> {}" "\<forall>s. env_createBitmap env s"
    using pa(1,3) assms(3) page_env_okD(2) [OF assms(1)] by (simp_all add: core_def)
  note u = display_update_settled [OF a assms(4)]
  show "info_ok info" by (rule u(1))
  show "ui_viewSize info = wp_size da" using u(2) sp by (simp add: same_protocol_def)
  show "\<forall>p\<in>info_view info. apply_info info U p \<noteq> None" using u(3) by simp
  show "same_protocol da da'" using sp by (simp add: u(5) same_protocol_def)
  have "painting da'" "points (da_dirtyRegion da') = {}" "size_isZero (da_scrollOffset da')"
    using a(2) rg.none by (simp_all add: u(5) painting_def size_isZero_def IntSize_def)
  thus "area_ok (apply_info info U) da'" using u(4) by (simp add: area_ok_def core_def scheduled_def)
qed

lemma ends_core: "ends area_ok fresh c s A da \<Longrightarrow> ends core fresh c s A da"
  by (auto simp: ends_def area_ok_def split: if_splits)

lemma sendDidUpdate_sync:
  assumes "page_env_ok env" "core (\<lambda>p. None) da" "points (da_dirtyRegion da) \<noteq> {}"
  obtains m where "da_sent (sendDidUpdateBackingStoreState env da) = da_sent da @ [m]"
    and "da_isWaitingForDidUpdate (sendDidUpdateBackingStoreState env da) = da_isWaitingForDidUpdate da"
    and "da_backingStoreStateID (sendDidUpdateBackingStoreState env da) = da_backingStoreStateID da"
    and "\<And>fresh c s A. c < da_backingStoreStateID da \<Longrightarrow> sync fresh c s A [m] (sendDidUpdateBackingStoreState env da)"
proof -
  let ?da = "da\<lparr>da_shouldSendDidUpdateBackingStoreState := False\<rparr>" and ?r = "sendDidUpdateBackingStoreState env da"
  obtain info da' where u: "display_update env UpdateInfo ?da = (info, da')" by fastforce
  have c: "core (\<lambda>p. None) ?da" "points (da_dirtyRegion ?da) \<noteq> {}" using assms(2,3) by simp_all
  note e = display_update_end [OF assms(1) c u]
  have p: "painting da" "painting da'" using assms(2) e(4) by (simp_all add: core_def area_ok_def)
  hence r: "?r = (da_send (DidUpdateBackingStoreState (da_backingStoreStateID da') info 0) da')
      \<lparr>da_compositingAccordingToProxyMessages := False\<rparr>"
    by (simp add: sendDidUpdateBackingStoreState_def u painting_def)
  have sp: "da_backingStoreStateID da' = da_backingStoreStateID da" "da_sent da' = da_sent da" "wp_size da' = wp_size da"
      "\<not> da_shouldSendDidUpdateBackingStoreState da'" "da_isWaitingForDidUpdate da' = da_isWaitingForDidUpdate da"
    using e(5) by (simp_all add: same_protocol_def)
  show thesis
  proof (rule that)
    show "da_sent ?r = da_sent da @ [DidUpdateBackingStoreState (da_backingStoreStateID da) info 0]"
      "da_isWaitingForDidUpdate ?r = da_isWaitingForDidUpdate da" "da_backingStoreStateID ?r = da_backingStoreStateID da"
      by (simp_all add: r da_send_def sp)
    show "sync fresh c s A [DidUpdateBackingStoreState (da_backingStoreStateID da) info 0] ?r"
      if "c < da_backingStoreStateID da" for fresh c s A
      using that e sp by (simp add: r da_send_def ends_def)
  qed
qed

text \<open>Painting, from the timer or otherwise.\<close>

lemma display_sync:
  assumes "page_env_ok env" "ends core fresh0 c0 s0 A0 da"
  obtains ms where "da_sent (display env da) = da_sent da @ ms"
    and "\<And>fresh c s A. ends core fresh c s A da \<Longrightarrow> sync fresh c s A ms (display env da)"
    and "da_backingStoreStateID (display env da) = da_backingStoreStateID da"
    and "da_isWaitingForDidUpdate (display env da) \<Longrightarrow>
      da_isWaitingForDidUpdate da \<or> (\<exists>info. Update (da_backingStoreStateID da) info \<in> set ms)"
proof -
  let ?r = "display env da"
  obtain U0 where U0: "core U0 da" using assms(2) by (auto simp: ends_def split: if_splits)
  hence p: "\<not> da_isPaintingSuspended da" "region_isEmpty (da_dirtyRegion da) \<longleftrightarrow> points (da_dirtyRegion da) = {}"
    using rg.is_none by (auto simp: core_def painting_def settled_def geometry_def)
  consider (clean) "points (da_dirtyRegion da) = {}"
    | (state) "points (da_dirtyRegion da) \<noteq> {}" "da_shouldSendDidUpdateBackingStoreState da"
    | (paint) "points (da_dirtyRegion da) \<noteq> {}" "\<not> da_shouldSendDidUpdateBackingStoreState da" by blast
  thus thesis
  proof cases
    case clean
    hence r: "?r = da" using p by (simp add: display_def)
    have "sync fresh c s A [] ?r" if "ends core fresh c s A da" for fresh c s A
      using that clean by (auto simp: r ends_def area_ok_def scheduled_def split: if_splits)
    thus thesis using that [of "[]"] by (simp add: r)
  next
    case state
    hence r: "?r = sendDidUpdateBackingStoreState env da" using p by (simp add: display_def)
    have n: "core (\<lambda>p. None) da" using assms(2) state by (simp add: ends_def)
    obtain m where m: "da_sent ?r = da_sent da @ [m]" "da_isWaitingForDidUpdate ?r = da_isWaitingForDidUpdate da"
        "da_backingStoreStateID ?r = da_backingStoreStateID da"
        "\<And>fresh c s A. c < da_backingStoreStateID da \<Longrightarrow> sync fresh c s A [m] ?r"
      using sendDidUpdate_sync [OF assms(1) n state(1)] unfolding r by blast
    show thesis by (rule that [OF m(1)]) (use m(2-4) state(2) in \<open>simp_all add: ends_def\<close>)
  next
    case paint
    obtain info da' where u: "display_update env UpdateInfo da = (info, da')" by fastforce
    note e = display_update_end [OF assms(1) _ paint(1) u]
    have "painting da'" using e(4) [OF U0] by (simp add: area_ok_def core_def)
    hence r: "?r = (da_send (Update (da_backingStoreStateID da') info) da')\<lparr>da_isWaitingForDidUpdate := True\<rparr>"
      using paint p by (simp add: display_def u painting_def)
    have sp: "da_backingStoreStateID da' = da_backingStoreStateID da" "da_sent da' = da_sent da" "wp_size da' = wp_size da"
        "\<not> da_shouldSendDidUpdateBackingStoreState da'"
      using e(5) [OF U0] paint(2) by (simp_all add: same_protocol_def)
    have ok: "area_ok (apply_info info U) ?r" if "core U da" for U
      using e(4) [OF that] by (simp add: r da_send_def area_ok_def scheduled_def)
    have sy: "sync fresh c s A [Update (da_backingStoreStateID da) info] ?r" if "ends core fresh c s A da" for fresh c s A
    proof (cases fresh)
      case True
      with that paint(2) have "c = da_backingStoreStateID da" "s = wp_size da" "core A da" by (simp_all add: ends_def)
      thus ?thesis using True e(1,2) [OF U0] ok sp by (simp add: ends_def) (simp add: r da_send_def)
    next
      case False
      with that paint(2) obtain U where "c = da_backingStoreStateID da" "core U da" by (auto simp: ends_def)
      thus ?thesis using False ok [of U] sp by (simp add: ends_def) (auto simp: r da_send_def)
    qed
    show thesis
      by (rule that [OF _ sy]) (use sp in \<open>simp_all add: r da_send_def\<close>)
  qed
qed

text \<open>What the drawing area does until it is in state \<open>i\<close>.\<close>

definition sends :: "nat \<Rightarrow> 'c drawing_area \<Rightarrow> 'c drawing_area \<Rightarrow> bool" where
  "sends i da da' \<longleftrightarrow> da_backingStoreStateID da' = i \<and> (\<exists>ms. da_sent da' = da_sent da @ ms
     \<and> (\<forall>fresh c s A. ends area_ok fresh c s A da \<longrightarrow> sync fresh c s A ms da')
     \<and> (da_isWaitingForDidUpdate da' \<longrightarrow>
          da_isWaitingForDidUpdate da \<and> da_backingStoreStateID da' = da_backingStoreStateID da
          \<or> (\<exists>info. Update (da_backingStoreStateID da') info \<in> set ms)))"

lemma sync_sends:
  assumes "sync fresh c s A (da_sent da) da" "sends i da da'"
  shows "sync fresh c s A (da_sent da') da'"
proof -
  obtain ms where ms: "da_sent da' = da_sent da @ ms" "\<And>fresh c s A. ends area_ok fresh c s A da \<Longrightarrow> sync fresh c s A ms da'"
    using assms(2) unfolding sends_def by blast
  show ?thesis unfolding ms(1) by (rule sync_end [OF assms(1) ms(2)])
qed

text \<open>Every queue ends with a drawing area that is in order.\<close>

lemma sync_ends: "sync fresh c s A q da \<Longrightarrow> \<exists>fresh c s A. ends area_ok fresh c s A da"
proof (induction q arbitrary: fresh c s A)
  case (Cons m q)
  thus ?case by (cases m) (auto split: if_splits)
qed auto

lemma page_sends:
  assumes "page_acts da da'"
  shows "sends (da_backingStoreStateID da) da da'"
proof -
  note sp = page_acts_same [OF assms] and pc = page_acts_core [OF assms]
  have "sync fresh c s A [] da'" if "ends area_ok fresh c s A da" for fresh c s A
    using that pc sp by (auto simp: ends_def same_protocol_def area_ok_def split: if_splits)
  thus ?thesis unfolding sends_def using sp by (intro conjI exI [of _ "[]"]) (simp_all add: same_protocol_def)
qed

lemma display_sends:
  assumes "page_env_ok env" "ends area_ok fresh c s A da" "da_isWaitingForDidUpdate da1 \<longrightarrow> da_isWaitingForDidUpdate da"
    and "da_sent da1 = da_sent da" "da_backingStoreStateID da1 = da_backingStoreStateID da"
    and "\<And>fresh c s A. ends area_ok fresh c s A da \<Longrightarrow> ends core fresh c s A da1"
  shows "sends (da_backingStoreStateID da) da (display env da1)"
proof -
  obtain ms where "da_sent (display env da1) = da_sent da1 @ ms"
    "\<And>fresh c s A. ends core fresh c s A da1 \<Longrightarrow> sync fresh c s A ms (display env da1)"
    "da_backingStoreStateID (display env da1) = da_backingStoreStateID da1"
    "da_isWaitingForDidUpdate (display env da1) \<Longrightarrow>
      da_isWaitingForDidUpdate da1 \<or> (\<exists>info. Update (da_backingStoreStateID da1) info \<in> set ms)"
    using display_sync [OF assms(1) assms(6) [OF assms(2)]] by blast
  thus ?thesis unfolding sends_def using assms(3-6) by (intro conjI exI [of _ ms]) auto
qed

lemma ends_cong [simp]:
  "ends core fresh c s A (da\<lparr>da_isWaitingForDidUpdate := b\<rparr>) = ends core fresh c s A da"
  "ends core fresh c s A (da\<lparr>da_displayTimer := b\<rparr>) = ends core fresh c s A da"
  by (simp_all add: ends_def)

lemma ends_painting: "ends P fresh c s A da \<Longrightarrow> (\<And>U. P U da \<Longrightarrow> Q) \<Longrightarrow> Q"
  by (auto simp: ends_def split: if_splits)

lemma timer_sends:
  assumes "page_env_ok env" "ends area_ok fresh c s A da"
  shows "sends (da_backingStoreStateID da) da (displayTimerFired env (da\<lparr>da_displayTimer := False\<rparr>))"
  unfolding displayTimerFired_def by (rule display_sends [OF assms]) (auto dest: ends_core)

lemma didUpdate_sends:
  assumes "page_env_ok env" "ends area_ok fresh c s A da"
  shows "sends (da_backingStoreStateID da) da (didUpdate env da)"
    and "da_isWaitingForDidUpdate (didUpdate env da) \<Longrightarrow>
      \<exists>info. Update (da_backingStoreStateID (didUpdate env da)) info \<in> set (da_sent (didUpdate env da))"
proof -
  have "\<not> da_layerTreeHost da" using ends_painting [OF assms(2)] by (auto simp: area_ok_def core_def painting_def)
  hence d: "didUpdate env da = display env (da\<lparr>da_isWaitingForDidUpdate := False\<rparr>)"
    by (simp add: didUpdate_def displayTimerFired_def)
  show "sends (da_backingStoreStateID da) da (didUpdate env da)" unfolding d by (rule display_sends [OF assms]) (auto dest: ends_core)
  have "ends core fresh c s A (da\<lparr>da_isWaitingForDidUpdate := False\<rparr>)" using ends_core [OF assms(2)] by simp
  then obtain ms where "da_sent (didUpdate env da) = da_sent (da\<lparr>da_isWaitingForDidUpdate := False\<rparr>) @ ms"
    "\<And>fresh c s A. ends core fresh c s A (da\<lparr>da_isWaitingForDidUpdate := False\<rparr>) \<Longrightarrow> sync fresh c s A ms (didUpdate env da)"
    "da_backingStoreStateID (didUpdate env da) = da_backingStoreStateID (da\<lparr>da_isWaitingForDidUpdate := False\<rparr>)"
    "da_isWaitingForDidUpdate (didUpdate env da) \<Longrightarrow> da_isWaitingForDidUpdate (da\<lparr>da_isWaitingForDidUpdate := False\<rparr>)
      \<or> (\<exists>info. Update (da_backingStoreStateID (da\<lparr>da_isWaitingForDidUpdate := False\<rparr>)) info \<in> set ms)"
    unfolding d using display_sync [OF assms(1)] by blast
  thus "da_isWaitingForDidUpdate (didUpdate env da) \<Longrightarrow>
      \<exists>info. Update (da_backingStoreStateID (didUpdate env da)) info \<in> set (da_sent (didUpdate env da))" by auto
qed

lemma forceRepaint_sends:
  assumes "page_env_ok env" "ends area_ok fresh c s A da"
  shows "sends (da_backingStoreStateID da) da (da_forceRepaint env da)"
proof -
  let ?n = "setNeedsDisplay da" and ?a = "env_layoutIfNeeded env (setNeedsDisplay da)"
  obtain U where U: "area_ok U da" using ends_painting [OF assms(2)] by blast
  hence p: "da_isPaintingEnabled da" "\<not> da_layerTreeHost da" "rect_ok (wp_bounds da)"
    by (simp_all add: area_ok_def core_def painting_def settled_def geometry_def)
  have "page_acts da (setNeedsDisplayInRect (wp_bounds da) (da\<lparr>wp_content := wp_content da\<rparr>))"
    by (rule page_acts.changes [OF page_acts.stays p(3)]) simp
  hence n: "page_acts da ?n" using p by (simp add: setNeedsDisplay_def)
  have l: "page_acts ?n ?a" by (rule page_env_okD(1) [OF assms(1)])
  have sp: "same_protocol da ?a" by (rule same_protocol_trans [OF page_acts_same [OF n] page_acts_same [OF l]])
  have c: "core V ?a" "points (da_dirtyRegion da) \<noteq> {} \<Longrightarrow> points (da_dirtyRegion ?a) \<noteq> {}" if "core V da" for V
    using page_acts_core [OF l page_acts_core(1) [OF n that]] page_acts_core(3) [OF n that] by blast+
  have "\<not> da_layerTreeHost ?a" using c(1) [of U] U by (simp add: area_ok_def core_def painting_def)
  hence d: "da_forceRepaint env da = display env (?a\<lparr>da_isWaitingForDidUpdate := False\<rparr>)"
    by (simp add: da_forceRepaint_def Let_def)
  show ?thesis
    unfolding d
  proof (rule display_sends [OF assms])
    fix fresh c' s A assume "ends area_ok fresh c' s A da"
    thus "ends core fresh c' s A (?a\<lparr>da_isWaitingForDidUpdate := False\<rparr>)"
      using c sp by (auto simp: ends_def same_protocol_def area_ok_def split: if_splits)
  qed (use sp in \<open>simp_all add: same_protocol_def\<close>)
qed

subsection \<open>A new backing store\<close>

lemma whole_core:
  assumes "good_size (wp_size da)" "painting da" "scroll_ok da" "da_dirtyRegion da = Region_rect (wp_bounds da)"
  shows "core U da" "points (da_dirtyRegion da) \<noteq> {}"
proof -
  have b: "rect_ok (wp_bounds da)" "\<not> rect_isEmpty (wp_bounds da)"
    using assms(1) by (simp_all add: good_size_def wp_bounds_def rect_ok_def IntRect_def rect_isEmpty_def size_isEmpty_def
        rect_size_def IntSize_def small_0)
  note r = rg.of_rect [OF b]
  show "points (da_dirtyRegion da) \<noteq> {}" using r isEmpty_pixels [OF b(1)] b(2) assms(4) by simp
  thus "core U da"
    using assms(2,3) r b(1) unfolding core_def settled_def geometry_def scroll_ok_def assms(4) by (simp add: V_def)
qed

lemma updateBackingStoreState_sends:
  assumes "page_env_ok env" "ends area_ok fresh c s A da" "good_size size'" "da_backingStoreStateID da \<le> i"
  shows "sends i da (updateBackingStoreState env i respond size' offset da)"
proof -
  let ?r = "updateBackingStoreState env i respond size' offset da"
  obtain U where "area_ok U da" using ends_painting [OF assms(2)] by blast
  hence U: "painting da" "scroll_ok da"
    by (simp_all add: area_ok_def core_def settled_def geometry_def scroll_ok_def)
  have finish: "sends i da ?r"
    if r: "?r = (if respond then sendDidUpdateBackingStoreState env da2 else da2)\<lparr>da_inUpdateBackingStoreState := False\<rparr>"
      and d: "core (\<lambda>p. None) da2" "points (da_dirtyRegion da2) \<noteq> {}" "da_sent da2 = da_sent da" "da_backingStoreStateID da2 = i"
        "\<not> da_isWaitingForDidUpdate da2" "da_shouldSendDidUpdateBackingStoreState da2"
      and lt: "\<And>fresh c s A. ends area_ok fresh c s A da \<Longrightarrow> c < i" for da2
  proof (cases respond)
    case True
    obtain m where m: "da_sent (sendDidUpdateBackingStoreState env da2) = da_sent da @ [m]"
        "\<not> da_isWaitingForDidUpdate (sendDidUpdateBackingStoreState env da2)"
        "da_backingStoreStateID (sendDidUpdateBackingStoreState env da2) = i"
        "\<And>fresh c s A. c < i \<Longrightarrow> sync fresh c s A [m] (sendDidUpdateBackingStoreState env da2)"
      using sendDidUpdate_sync [OF assms(1) d(1,2)] d(3-5) by metis
    have sy: "sync fresh c s A [m] ?r" if "c < i" for fresh c s A
      using m(4) [OF that, of fresh s A] True unfolding r by (cases m) (auto simp: ends_def split: if_splits)
    have f: "da_sent ?r = da_sent da @ [m]" "\<not> da_isWaitingForDidUpdate ?r" "da_backingStoreStateID ?r = i"
      using m(1-3) True unfolding r by simp_all
    show ?thesis unfolding sends_def using sy lt f by blast
  next
    case False
    have sy: "sync fresh c s A [] ?r" if "c < i" for fresh c s A
      using that d False unfolding r by (simp add: ends_def area_ok_def scheduled_def)
    have f: "da_sent ?r = da_sent da @ []" "\<not> da_isWaitingForDidUpdate ?r" "da_backingStoreStateID ?r = i"
      using d(3-5) False unfolding r by simp_all
    show ?thesis unfolding sends_def using sy lt f by blast
  qed
  have "sends i da ?r"
  proof (cases "i = da_backingStoreStateID da")
    case same: True
    show ?thesis
    proof (cases "da_shouldSendDidUpdateBackingStoreState da")
      case True
      let ?d = "da\<lparr>da_inUpdateBackingStoreState := True, da_isWaitingForDidUpdate := False\<rparr>"
      have n: "core (\<lambda>p. None) da" using assms(2) True by (simp add: ends_def area_ok_def)
      have "\<not> da_isPaintingSuspended da" using U by (simp add: painting_def)
      hence r: "?r = (if respond then sendDidUpdateBackingStoreState env ?d else ?d)\<lparr>da_inUpdateBackingStoreState := False\<rparr>"
        using same True by (simp add: updateBackingStoreState_def Let_def)
      have ne: "points (da_dirtyRegion da) \<noteq> {}" using assms(2) True by (simp add: ends_def)
      show ?thesis by (rule finish [OF r]) (use n ne same True in \<open>simp_all add: ends_def\<close>)
    next
      case False
      hence r: "?r = da\<lparr>da_inUpdateBackingStoreState := False\<rparr>" using same by (simp add: updateBackingStoreState_def Let_def)
      have sy: "sync fresh c s A [] ?r" if "ends area_ok fresh c s A da" for fresh c s A
        using that unfolding r by (simp add: ends_def)
      have f: "da_sent ?r = da_sent da @ []" "da_isWaitingForDidUpdate ?r = da_isWaitingForDidUpdate da"
          "da_backingStoreStateID ?r = da_backingStoreStateID da"
        unfolding r by simp_all
      show ?thesis unfolding sends_def using sy f same by blast
    qed
  next
    case new: False
    let ?old = "da\<lparr>da_inUpdateBackingStoreState := True, da_backingStoreStateID := i, da_shouldSendDidUpdateBackingStoreState := True\<rparr>"
    let ?mid = "env_scrollMainFrame env offset (env_layoutIfNeeded env (env_setSize env size' ?old))"
    let ?new = "?mid\<lparr>da_dirtyRegion := Region_rect (wp_bounds ?mid), da_isWaitingForDidUpdate := False\<rparr>"
    have "painting ?old" "scroll_ok ?old" using U by (simp_all add: painting_def scroll_ok_def)
    from page_env_okD(3) [OF assms(1) this] have rs: "resized size' ?old ?mid" .
    hence d1: "wp_size ?mid = size'" "painting ?mid" "scroll_ok ?mid" by (simp_all add: resized_def)
    hence d: "good_size (wp_size ?new)" "painting ?new" "scroll_ok ?new" "da_dirtyRegion ?new = Region_rect (wp_bounds ?new)"
      using assms(3) by (simp_all add: painting_def scroll_ok_def wp_bounds_def)
    have r: "?r = (if respond then sendDidUpdateBackingStoreState env ?new else ?new)\<lparr>da_inUpdateBackingStoreState := False\<rparr>"
      using new d1(2) by (simp add: updateBackingStoreState_def Let_def painting_def)
    have le: "c < i" if "ends area_ok fresh c s A da" for fresh c s A
      using that new assms(4) by (auto simp: ends_def split: if_splits)
    show ?thesis
      by (rule finish [OF r whole_core [OF d]]) (use rs le in \<open>simp_all add: resized_def\<close>)
  qed
  thus "sends i da ?r" .
qed

lemma sync_cong [simp]: "sync fresh c s A q (da\<lparr>da_sent := q'\<rparr>) = sync fresh c s A q da"
  by (induction fresh c s A q da rule: sync.induct) (auto simp: ends_def)

lemma take_keeps: "\<lbrakk>take_didUpdate q = Some (i, info, context, rest); Update j info' \<in> set q\<rbrakk> \<Longrightarrow> Update j info' \<in> set rest"
  by (induction q arbitrary: rest rule: take_didUpdate.induct) auto

end
