(* ===== verification/Drawing_System.thy ===== *)
theory Drawing_System
  imports Drawing_Protocol
begin

text \<open>
  The two processes together. The page changes and reports it, the timer fires, messages are delivered in
  order (or, while the UI process waits for the answer to a change of size, out of order), the view is resized and
  painted, and the backing store is thrown away and asked for again. Whenever nothing is left to do, what the view
  paints is the page. The page is visible and not composited, and scrolls the part of it that begins at the origin.
\<close>

subsection \<open>Steps\<close>

type_synonym 'c drawing_system = "'c drawing_area \<times> 'c drawing_proxy"

text \<open>Messages that were sent and not handled yet are the queues between the processes.\<close>

inductive drawing_step :: "'c page_env \<Rightarrow> 'c drawing_system \<Rightarrow> 'c drawing_system \<Rightarrow> bool" for env where
  page: "page_acts da da' \<Longrightarrow> drawing_step env (da, px) (da', px)"
| timer: "da_displayTimer da \<Longrightarrow> drawing_step env (da, px) (displayTimerFired env (da\<lparr>da_displayTimer := False\<rparr>), px)"
| repaint: "drawing_step env (da, px) (da_forceRepaint env da, px)"
| web_state: "px_sent px = UpdateBackingStoreState i respond s offset # msgs \<Longrightarrow>
    drawing_step env (da, px) (updateBackingStoreState env i respond s offset da, px\<lparr>px_sent := msgs\<rparr>)"
| web_update: "px_sent px = DidUpdate # msgs \<Longrightarrow> drawing_step env (da, px) (didUpdate env da, px\<lparr>px_sent := msgs\<rparr>)"
| ui_message: "\<lbrakk>da_sent da = msg # q; px_dispatch ue msg q px = (q', px')\<rbrakk>
    \<Longrightarrow> drawing_step env (da, px) (da\<lparr>da_sent := q'\<rparr>, px')"
| ui_paint: "px_paint ue rect (da_sent da) px = (painted, unpainted, q', px')
    \<Longrightarrow> drawing_step env (da, px) (da\<lparr>da_sent := q'\<rparr>, px')"
| ui_resize: "\<lbrakk>good_size s; px_setSize ue s position offset (da_sent da) px = (q', px')\<rbrakk>
    \<Longrightarrow> drawing_step env (da, px) (da\<lparr>da_sent := q'\<rparr>, px')"
| ui_discard: "\<lbrakk>px_discardBackingStoreTimer px;
      discardBackingStore ue (da_sent da) (px\<lparr>px_discardBackingStoreTimer := False\<rparr>) = (q', px')\<rbrakk>
    \<Longrightarrow> drawing_step env (da, px) (da\<lparr>da_sent := q'\<rparr>, px')"
| ui_discardable: "drawing_step env (da, px) (da, setBackingStoreIsDiscardable b px)"
| ui_wait: "drawing_step env (da, px) (da, waitForBackingStoreUpdateOnNextPaint px)"

inductive drawing_reachable :: "'c page_env \<Rightarrow> 'c drawing_system \<Rightarrow> bool" for env where
  start: "\<lbrakk>good_size s; good_size viewSize\<rbrakk>
    \<Longrightarrow> drawing_reachable env (DrawingAreaImpl True False s content, DrawingAreaProxyImpl viewSize)"
| step: "\<lbrakk>drawing_reachable env st; drawing_step env st st'\<rbrakk> \<Longrightarrow> drawing_reachable env st'"

subsection \<open>The invariant\<close>

definition is_fresh :: "'c drawing_proxy \<Rightarrow> bool" where
  "is_fresh px \<longleftrightarrow> px_currentBackingStoreStateID px = px_nextBackingStoreStateID px \<and> 0 < px_currentBackingStoreStateID px"

definition store_size :: "'c drawing_proxy \<Rightarrow> int_size" where
  "store_size px = (case px_backingStore px of None \<Rightarrow> IntSize 0 0 | Some bs \<Rightarrow> bs_size bs)"

definition store_image :: "'c drawing_proxy \<Rightarrow> 'c surface" where
  "store_image px = (case px_backingStore px of None \<Rightarrow> (\<lambda>p. None) | Some bs \<Rightarrow> store_surface bs)"

fun state_ids :: "area_message list \<Rightarrow> nat list" where
  "state_ids [] = []"
| "state_ids (UpdateBackingStoreState i respond s offset # msgs) = i # state_ids msgs"
| "state_ids (DidUpdate # msgs) = state_ids msgs"

lemma state_ids_append [simp]: "state_ids (msgs @ msgs') = state_ids msgs @ state_ids msgs'"
  by (induction msgs rule: state_ids.induct) auto

fun message_ok :: "area_message \<Rightarrow> bool" where
  "message_ok (UpdateBackingStoreState i respond s offset) \<longleftrightarrow> good_size s"
| "message_ok DidUpdate \<longleftrightarrow> True"

definition proxy_ok :: "nat \<Rightarrow> 'c drawing_proxy \<Rightarrow> bool" where
  "proxy_ok w px \<longleftrightarrow> px_layerTreeContext px = 0 \<and> good_size (px_size px)
     \<and> (\<forall>m\<in>set (px_sent px). message_ok m)
     \<and> sorted (w # state_ids (px_sent px) @ [px_nextBackingStoreStateID px])
     \<and> (is_fresh px \<longrightarrow> (\<exists>bs. px_backingStore px = Some bs \<and> bs_backingStore bs \<noteq> None))"

definition answered_later :: "'c drawing_area \<Rightarrow> 'c drawing_proxy \<Rightarrow> bool" where
  "answered_later da px \<longleftrightarrow> (da_isWaitingForDidUpdate da \<longrightarrow>
     (\<exists>info. Update (da_backingStoreStateID da) info \<in> set (da_sent da)) \<or> DidUpdate \<in> set (px_sent px))"

definition system_inv :: "'c drawing_system \<Rightarrow> bool" where
  "system_inv = (\<lambda>(da, px). sync (is_fresh px) (px_currentBackingStoreStateID px) (store_size px) (store_image px) (da_sent da) da
     \<and> proxy_ok (da_backingStoreStateID da) px \<and> answered_later da px)"

subsection \<open>Steps of the web process\<close>

lemma web_inv:
  assumes "system_inv (da, px)" "sends i da da'" "sorted (i # state_ids msgs @ [px_nextBackingStoreStateID px])"
    and "set msgs \<subseteq> set (px_sent px)"
    and "da_isWaitingForDidUpdate da \<Longrightarrow> da_isWaitingForDidUpdate da' \<Longrightarrow> i = da_backingStoreStateID da \<Longrightarrow>
      DidUpdate \<in> set (px_sent px) \<Longrightarrow> DidUpdate \<in> set msgs \<or> (\<exists>info. Update i info \<in> set (da_sent da'))"
  shows "system_inv (da', px\<lparr>px_sent := msgs\<rparr>)"
proof -
  let ?px = "px\<lparr>px_sent := msgs\<rparr>"
  have i: "sync (is_fresh px) (px_currentBackingStoreStateID px) (store_size px) (store_image px) (da_sent da) da"
      "proxy_ok (da_backingStoreStateID da) px" "answered_later da px"
    using assms(1) by (simp_all add: system_inv_def)
  have s: "da_backingStoreStateID da' = i" "set (da_sent da) \<subseteq> set (da_sent da')"
      "da_isWaitingForDidUpdate da' \<Longrightarrow> da_isWaitingForDidUpdate da \<and> i = da_backingStoreStateID da
        \<or> (\<exists>info. Update i info \<in> set (da_sent da'))"
    using assms(2) unfolding sends_def by auto
  have same: "is_fresh ?px = is_fresh px" "store_size ?px = store_size px" "store_image ?px = store_image px"
    by (simp_all add: is_fresh_def store_size_def store_image_def)
  have "proxy_ok i ?px" using i(2) assms(3,4) same(1) unfolding proxy_ok_def by auto
  moreover have "answered_later da' ?px"
    unfolding answered_later_def s(1)
  proof
    assume w: "da_isWaitingForDidUpdate da'"
    show "(\<exists>info. Update i info \<in> set (da_sent da')) \<or> DidUpdate \<in> set (px_sent ?px)"
    proof (cases "da_isWaitingForDidUpdate da \<and> i = da_backingStoreStateID da")
      case True
      hence "(\<exists>info. Update i info \<in> set (da_sent da)) \<or> DidUpdate \<in> set (px_sent px)" using i(3) by (simp add: answered_later_def)
      thus ?thesis using s(2) assms(5) True w by fastforce
    qed (use s(3) [OF w] in blast)
  qed
  ultimately show ?thesis using sync_sends [OF i(1) assms(2)] s(1) same by (simp add: system_inv_def)
qed

lemma inv_ends: "system_inv (da, px) \<Longrightarrow> \<exists>fresh c s A. ends area_ok fresh c s A da"
  unfolding system_inv_def by (auto dest: sync_ends)

lemma inv_sorted: "system_inv (da, px) \<Longrightarrow> sorted (da_backingStoreStateID da # state_ids (px_sent px) @ [px_nextBackingStoreStateID px])"
  by (simp add: system_inv_def proxy_ok_def)

lemma web_alone_inv:
  assumes "system_inv (da, px)" "sends (da_backingStoreStateID da) da da'"
  shows "system_inv (da', px)"
  using web_inv [OF assms, of "px_sent px"] inv_sorted [OF assms(1)] by simp

lemma web_state_inv:
  assumes "page_env_ok env" "system_inv (da, px)" "px_sent px = UpdateBackingStoreState i respond s offset # msgs"
  shows "system_inv (updateBackingStoreState env i respond s offset da, px\<lparr>px_sent := msgs\<rparr>)"
proof -
  obtain fresh c s' A where e: "ends area_ok fresh c s' A da" using inv_ends [OF assms(2)] by blast
  have g: "good_size s" using assms(2,3) by (auto simp: system_inv_def proxy_ok_def)
  have so: "da_backingStoreStateID da \<le> i" "sorted (i # state_ids msgs @ [px_nextBackingStoreStateID px])"
    using inv_sorted [OF assms(2)] assms(3) by auto
  show ?thesis
    by (rule web_inv [OF assms(2) updateBackingStoreState_sends [OF assms(1) e g so(1)] so(2)]) (use assms(3) in auto)
qed

lemma web_update_inv:
  assumes "page_env_ok env" "system_inv (da, px)" "px_sent px = DidUpdate # msgs"
  shows "system_inv (didUpdate env da, px\<lparr>px_sent := msgs\<rparr>)"
proof -
  obtain fresh c s' A where e: "ends area_ok fresh c s' A da" using inv_ends [OF assms(2)] by blast
  note d = didUpdate_sends [OF assms(1) e]
  have i: "da_backingStoreStateID (didUpdate env da) = da_backingStoreStateID da" using d(1) by (simp add: sends_def)
  show ?thesis
    by (rule web_inv [OF assms(2) d(1)]) (use inv_sorted [OF assms(2)] assms(3) d(2) i in auto)
qed

subsection \<open>Steps of the UI process\<close>

definition same_store :: "'c drawing_proxy \<Rightarrow> 'c drawing_proxy \<Rightarrow> bool" where
  "same_store px px' \<longleftrightarrow> px_currentBackingStoreStateID px' = px_currentBackingStoreStateID px
     \<and> px_nextBackingStoreStateID px' = px_nextBackingStoreStateID px \<and> px_layerTreeContext px' = px_layerTreeContext px
     \<and> px_backingStore px' = px_backingStore px \<and> px_size px' = px_size px"

lemma same_storeD:
  assumes "same_store px px'"
  shows "is_fresh px' = is_fresh px" "store_size px' = store_size px" "store_image px' = store_image px"
    and "px_currentBackingStoreStateID px' = px_currentBackingStoreStateID px"
    and "px_nextBackingStoreStateID px' = px_nextBackingStoreStateID px"
  using assms by (simp_all add: same_store_def is_fresh_def store_size_def store_image_def)

text \<open>A request is sent, or not.\<close>

lemma send_result:
  assumes "px_layerTreeContext px = 0" "sendUpdateBackingStoreState ue respond q px = (q', px')"
  shows "q' = q" "same_store px px'" "px_sent px' = px_sent px \<or>
    (\<exists>offset. px_sent px' = px_sent px @ [UpdateBackingStoreState (px_nextBackingStoreStateID px) respond (px_size px) offset])"
  using assms by (auto simp: sendUpdateBackingStoreState.simps Let_def px_send_def same_store_def split: if_splits)

lemma proxy_ok_sent:
  assumes "proxy_ok w px" "same_store px px'" "px_sent px' = px_sent px \<or>
    (\<exists>offset. px_sent px' = px_sent px @ [UpdateBackingStoreState (px_nextBackingStoreStateID px) respond (px_size px) offset])"
  shows "proxy_ok w px'"
  using assms(3)
proof
  assume "px_sent px' = px_sent px"
  thus ?thesis using assms(1,2) same_storeD(1) [OF assms(2)] by (simp add: proxy_ok_def same_store_def)
next
  assume "\<exists>offset. px_sent px' = px_sent px @ [UpdateBackingStoreState (px_nextBackingStoreStateID px) respond (px_size px) offset]"
  then obtain offset where
    "px_sent px' = px_sent px @ [UpdateBackingStoreState (px_nextBackingStoreStateID px) respond (px_size px) offset]" by blast
  thus ?thesis using assms(1,2) same_storeD(1) [OF assms(2)] by (auto simp: proxy_ok_def same_store_def sorted_append)
qed

lemma send_inv:
  assumes "system_inv (da, px)" "sendUpdateBackingStoreState ue respond (da_sent da) px = (q', px')"
  shows "q' = da_sent da" "system_inv (da, px')" "same_store px px'"
proof -
  have i: "proxy_ok (da_backingStoreStateID da) px" "answered_later da px" "px_layerTreeContext px = 0"
    using assms(1) by (simp_all add: system_inv_def proxy_ok_def)
  note r = send_result [OF i(3) assms(2)]
  show "q' = da_sent da" "same_store px px'" by (rule r)+
  have "answered_later da px'" using i(2) r(3) by (auto simp: answered_later_def)
  thus "system_inv (da, px')"
    using assms(1) proxy_ok_sent [OF i(1) r(2,3)] same_storeD [OF r(2)] by (simp add: system_inv_def)
qed

text \<open>The backing store after an update.\<close>

lemma fold_view:
  "fold (\<lambda>r. view (call r)) rs px = px\<lparr>px_viewCalls := px_viewCalls px @ map call rs\<rparr>"
  by (induction rs arbitrary: px) (simp_all add: view_def)

definition store_for :: "'c update_info \<Rightarrow> 'c drawing_proxy \<Rightarrow> 'c backing_store" where
  "store_for info px = (case px_backingStore px of None \<Rightarrow> BackingStore (ui_viewSize info) | Some bs \<Rightarrow> bs)"

lemma incorporate_result:
  assumes "info_ok info"
  shows "px_sent (px_incorporateUpdate ue info px) = px_sent px"
    and "same_store (px\<lparr>px_backingStore := Some (bs_incorporateUpdate info (store_for info px))\<rparr>) (px_incorporateUpdate ue info px)"
  using assms by (simp_all add: px_incorporateUpdate_def info_ok_def store_for_def Let_def fold_view same_store_def)
    (simp_all add: view_def)

lemma incorporated:
  assumes "info_ok info" "bs_size bs = ui_viewSize info"
  shows "bs_backingStore (bs_incorporateUpdate info bs) \<noteq> None" "bs_size (bs_incorporateUpdate info bs) = ui_viewSize info"
    and "\<forall>p\<in>pixels (size_rect (ui_viewSize info)). \<forall>x. apply_info info (store_surface bs) p = Some x
      \<longrightarrow> store_surface (bs_incorporateUpdate info bs) p = Some x"
proof -
  show "bs_backingStore (bs_incorporateUpdate info bs) \<noteq> None" "bs_size (bs_incorporateUpdate info bs) = ui_viewSize info"
    using assms by (auto simp: info_ok_def bs_incorporateUpdate_def Let_def)
  show "\<forall>p\<in>pixels (size_rect (ui_viewSize info)). \<forall>x. apply_info info (store_surface bs) p = Some x
      \<longrightarrow> store_surface (bs_incorporateUpdate info bs) p = Some x"
    using incorporate_at(1) [OF assms] by (simp add: info_view_def)
qed


lemma incorporate_same:
  "px_currentBackingStoreStateID (px_incorporateUpdate ue info px) = px_currentBackingStoreStateID px"
  "px_nextBackingStoreStateID (px_incorporateUpdate ue info px) = px_nextBackingStoreStateID px"
  "px_layerTreeContext (px_incorporateUpdate ue info px) = px_layerTreeContext px"
  "px_size (px_incorporateUpdate ue info px) = px_size px" "px_sent (px_incorporateUpdate ue info px) = px_sent px"
  by (simp_all add: px_incorporateUpdate_def Let_def fold_view) (simp_all add: view_def)

lemma update_inv:
  assumes "system_inv (da, px)" "da_sent da = Update i info # q"
  shows "system_inv (da\<lparr>da_sent := q\<rparr>, px_update ue i info px)"
proof -
  let ?c = "px_currentBackingStoreStateID px"
  have inv: "sync (is_fresh px) ?c (store_size px) (store_image px) (Update i info # q) da"
      "proxy_ok (da_backingStoreStateID da) px" "answered_later da px"
    using assms(1) unfolding system_inv_def prod.case assms(2) by blast+
  have le: "i \<le> ?c" "?c \<le> da_backingStoreStateID da" using inv(1) sync_le [OF inv(1)] by simp_all
  show ?thesis
  proof (cases "i < ?c")
    case True
    have "answered_later (da\<lparr>da_sent := q\<rparr>) px" using inv(3) assms(2) True le by (auto simp: answered_later_def)
    thus ?thesis using True inv by (simp add: system_inv_def px_update_def)
  next
    case False
    hence i: "i = ?c" using le by simp
    let ?px = "px_update ue i info px"
    have px: "?px = px_send DidUpdate (px_incorporateUpdate ue info px)" using i by (simp add: px_update_def)
    have f: "is_fresh ?px = is_fresh px" "px_currentBackingStoreStateID ?px = ?c" "DidUpdate \<in> set (px_sent ?px)"
      by (simp_all add: px px_send_def is_fresh_def incorporate_same)
    have ans: "answered_later (da\<lparr>da_sent := q\<rparr>) ?px" using f(3) by (simp add: answered_later_def)
    have ok: "proxy_ok (da_backingStoreStateID da) ?px" if "is_fresh px \<longrightarrow> (\<exists>bs. px_backingStore ?px = Some bs \<and> bs_backingStore bs \<noteq> None)"
      using that inv(2) unfolding proxy_ok_def f(1) by (simp add: px px_send_def incorporate_same)
    show ?thesis
    proof (cases "is_fresh px")
      case True
      then obtain bs where bs: "px_backingStore px = Some bs" using inv(2) by (auto simp: proxy_ok_def)
      have u: "info_ok info" "ui_viewSize info = store_size px" "sync True ?c (store_size px) (apply_info info (store_image px)) q da"
        using inv(1) True i by simp_all
      have st: "store_size px = bs_size bs" "store_image px = store_surface bs" by (simp_all add: store_size_def store_image_def bs)
      note ic = incorporated [OF u(1), of bs]
      have b: "px_backingStore ?px = Some (bs_incorporateUpdate info bs)"
        using incorporate_result(2) [OF u(1), of px ue] bs by (simp add: px px_send_def same_store_def store_for_def)
      hence im: "store_size ?px = store_size px" "store_image ?px = store_surface (bs_incorporateUpdate info bs)"
        using ic(2) u(2) st(1) by (simp_all add: store_size_def store_image_def)
      have "sync True ?c (store_size px) (store_image ?px) q da"
        by (rule sync_mono [OF u(3)]) (use ic(3) u(2) st im(2) in simp)
      thus ?thesis using True ok ans f im(1) b ic(1) u(2) st(1) by (simp add: system_inv_def)
    next
      case False
      hence "sync False ?c (store_size ?px) (store_image ?px) q da" using inv(1) sync_any by (auto split: if_splits)
      thus ?thesis using False ok ans f by (simp add: system_inv_def)
    qed
  qed
qed

text \<open>The answer to a change of size.\<close>

lemma didUpdate_result:
  assumes "px_layerTreeContext px = 0" "info_ok info" "px_didUpdateBackingStoreState ue i info 0 q px = (q', px')"
  obtains bs where "q' = q" "px_currentBackingStoreStateID px' = i" "px_nextBackingStoreStateID px' = px_nextBackingStoreStateID px"
    "px_layerTreeContext px' = 0" "px_size px' = px_size px"
    "px_sent px' = px_sent px \<or>
      (\<exists>offset. px_sent px' = px_sent px @ [UpdateBackingStoreState (px_nextBackingStoreStateID px) True (px_size px) offset])"
    "px_backingStore px' = Some (bs_incorporateUpdate info bs)" "bs_size bs = ui_viewSize info"
proof -
  let ?px = "px\<lparr>px_currentBackingStoreStateID := i, px_isWaitingForDidUpdateBackingStoreState := False, px_responsivenessTimer := False\<rparr>"
  obtain q1 px1 where s: "(if px_nextBackingStoreStateID ?px \<noteq> px_currentBackingStoreStateID ?px
      then sendUpdateBackingStoreState ue True q ?px else (q, ?px\<lparr>px_hasReceivedFirstUpdate := True\<rparr>)) = (q1, px1)" by fastforce
  have r: "q1 = q \<and> same_store ?px px1 \<and> (px_sent px1 = px_sent px \<or>
      (\<exists>offset. px_sent px1 = px_sent px @ [UpdateBackingStoreState (px_nextBackingStoreStateID px) True (px_size px) offset]))"
  proof (cases "px_nextBackingStoreStateID ?px = px_currentBackingStoreStateID ?px")
    case True
    thus ?thesis using s by (auto simp: same_store_def)
  next
    case False
    hence "sendUpdateBackingStoreState ue True q ?px = (q1, px1)" using s by simp
    from send_result [OF _ this] assms(1) show ?thesis by simp
  qed
  let ?px2 = "case px_backingStore px1 of None \<Rightarrow> px1 | Some bs \<Rightarrow> if bs_size bs \<noteq> ui_viewSize info then px1\<lparr>px_backingStore := None\<rparr> else px1"
  have "(q', px') = (q1, px_incorporateUpdate ue info ?px2)"
    using assms(1,3) s r by (simp add: px_didUpdateBackingStoreState.simps Let_def isInAcceleratedCompositingMode_def same_store_def cong: if_cong)
  hence e: "q' = q1" "px' = px_incorporateUpdate ue info ?px2" by simp_all
  have p2: "px_currentBackingStoreStateID ?px2 = i" "px_nextBackingStoreStateID ?px2 = px_nextBackingStoreStateID px"
      "px_layerTreeContext ?px2 = 0" "px_size ?px2 = px_size px" "px_sent ?px2 = px_sent px1"
    using r assms(1) by (simp_all add: same_store_def split: option.split)
  have st: "bs_size (store_for info ?px2) = ui_viewSize info"
    by (simp add: store_for_def BackingStore_def split: option.split)
  show thesis
    by (rule that [of "store_for info ?px2"])
      (use r p2 st incorporate_result(2) [OF assms(2), of ?px2 ue] in \<open>simp_all add: e incorporate_same same_store_def\<close>)
qed


lemma answer_inv:
  assumes "system_inv (da, px)" "take_didUpdate (da_sent da) = Some (i, info, ctx, rest)"
    and "px_didUpdateBackingStoreState ue i info ctx rest px = (q', px')"
  shows "system_inv (da\<lparr>da_sent := q'\<rparr>, px')"
proof -
  have inv: "sync (is_fresh px) (px_currentBackingStoreStateID px) (store_size px) (store_image px) (da_sent da) da"
      "proxy_ok (da_backingStoreStateID da) px" "answered_later da px" "px_layerTreeContext px = 0"
    using assms(1) by (simp_all add: system_inv_def proxy_ok_def)
  note t = sync_take [OF assms(2) inv(1)]
  have t: "ctx = 0" "info_ok info" "sync True i (ui_viewSize info) (apply_info info (\<lambda>p. None)) rest da" using t by blast+
  obtain bs where r: "q' = rest" "px_currentBackingStoreStateID px' = i" "px_nextBackingStoreStateID px' = px_nextBackingStoreStateID px"
    "px_layerTreeContext px' = 0" "px_size px' = px_size px"
    "px_sent px' = px_sent px \<or>
      (\<exists>offset. px_sent px' = px_sent px @ [UpdateBackingStoreState (px_nextBackingStoreStateID px) True (px_size px) offset])"
    "px_backingStore px' = Some (bs_incorporateUpdate info bs)" "bs_size bs = ui_viewSize info"
    using didUpdate_result [OF inv(4) t(2)] assms(3) t(1) by metis
  note ic = incorporated [OF t(2) r(8)]
  have im: "store_size px' = ui_viewSize info" "store_image px' = store_surface (bs_incorporateUpdate info bs)"
    using r(7) ic(2) by (simp_all add: store_size_def store_image_def)
  have "sync True i (store_size px') (store_image px') rest da"
    unfolding im(1)
  proof (rule sync_mono [OF t(3)], intro ballI allI impI)
    fix p x assume p: "p \<in> pixels (size_rect (ui_viewSize info))" "apply_info info (\<lambda>p. None) p = Some x"
    have "apply_info info (store_surface bs) p = Some x"
      by (rule apply_info_mono [OF t(2) _ _ p(2)]) (use p(1) in \<open>simp_all add: info_view_def\<close>)
    thus "store_image px' p = Some x" using ic(3) p(1) im(2) by simp
  qed
  hence "sync (is_fresh px') i (store_size px') (store_image px') rest da" using sync_stale by (cases "is_fresh px'") auto
  moreover have "proxy_ok (da_backingStoreStateID da) px'"
    using r(6) inv(2) r(3-5,7) ic(1) by (auto simp: proxy_ok_def sorted_append)
  moreover have "answered_later (da\<lparr>da_sent := rest\<rparr>) px'"
    using inv(3) r(6) take_keeps [OF assms(2)] by (auto simp: answered_later_def)
  ultimately show ?thesis using r(1,2) by (simp add: system_inv_def)
qed

lemma wait_inv:
  assumes "system_inv (da, px)" "waitForAndDispatchDidUpdateBackingStoreState ue (da_sent da) px = (q', px')"
  shows "system_inv (da\<lparr>da_sent := q'\<rparr>, px')"
proof (cases "\<not> ue_isValid ue \<or> ue_isLaunching ue \<or> take_didUpdate (da_sent da) = None")
  case True
  hence "q' = da_sent da" "px' = px"
    using assms(2) by (auto simp: waitForAndDispatchDidUpdateBackingStoreState.simps split: if_splits)
  thus ?thesis using assms(1) by simp
next
  case False
  then obtain i info ctx rest where t: "take_didUpdate (da_sent da) = Some (i, info, ctx, rest)" by fastforce
  hence "px_didUpdateBackingStoreState ue i info ctx rest px = (q', px')"
    using assms(2) False by (simp add: waitForAndDispatchDidUpdateBackingStoreState.simps)
  thus ?thesis by (rule answer_inv [OF assms(1) t])
qed

lemma dispatch_inv:
  assumes "system_inv (da, px)" "da_sent da = msg # q" "px_dispatch ue msg q px = (q', px')"
  shows "system_inv (da\<lparr>da_sent := q'\<rparr>, px')"
proof (cases msg)
  case (Update i info)
  thus ?thesis using update_inv [OF assms(1), of i info q ue] assms(2,3) by (simp add: px_dispatch_def)
next
  case (DidUpdateBackingStoreState i info ctx)
  hence "take_didUpdate (da_sent da) = Some (i, info, ctx, q)" using assms(2) by simp
  thus ?thesis using answer_inv [OF assms(1)] assms(3) DidUpdateBackingStoreState by (simp add: px_dispatch_def)
qed (use assms(1,2) in \<open>simp_all add: system_inv_def\<close>)

text \<open>The state number grows: the old messages say nothing about the new backing store.\<close>

lemma change_inv:
  assumes "system_inv (da, px)" "px_layerTreeContext px1 = 0" "good_size (px_size px1)" "px_sent px1 = px_sent px"
    and "px_nextBackingStoreStateID px1 = px_nextBackingStoreStateID px" "px_currentBackingStoreStateID px1 = px_currentBackingStoreStateID px"
    and "backingStoreStateDidChange ue respond (da_sent da) px1 = (q', px')"
  shows "system_inv (da\<lparr>da_sent := q'\<rparr>, px')"
proof -
  let ?px = "px1\<lparr>px_nextBackingStoreStateID := Suc (px_nextBackingStoreStateID px1)\<rparr>"
  have inv: "sync (is_fresh px) (px_currentBackingStoreStateID px) (store_size px) (store_image px) (da_sent da) da"
      "proxy_ok (da_backingStoreStateID da) px" "answered_later da px"
    using assms(1) by (simp_all add: system_inv_def)
  have so: "sorted (da_backingStoreStateID da # state_ids (px_sent px) @ [px_nextBackingStoreStateID px])" by (rule inv_sorted [OF assms(1)])
  have "px_currentBackingStoreStateID px \<le> px_nextBackingStoreStateID px" using sync_le [OF inv(1)] so by simp
  hence f: "\<not> is_fresh ?px" using assms(5,6) by (simp add: is_fresh_def)
  have "sync False (px_currentBackingStoreStateID px) (store_size ?px) (store_image ?px) (da_sent da) da"
    using inv(1) sync_stale sync_any by (cases "is_fresh px") auto
  moreover have "proxy_ok (da_backingStoreStateID da) ?px"
    using inv(2) assms(2-5) f by (auto simp: proxy_ok_def sorted_append)
  moreover have "answered_later da ?px" using inv(3) assms(4) by (simp add: answered_later_def)
  ultimately have "system_inv (da, ?px)" using f assms(6) by (simp add: system_inv_def)
  from send_inv [OF this, of ue respond] assms(7) show ?thesis by (simp add: backingStoreStateDidChange_def)
qed

lemma discard_soon_inv: "system_inv (da, discardBackingStoreSoon px) = system_inv (da, px)"
  by (simp add: system_inv_def discardBackingStoreSoon_def is_fresh_def store_size_def store_image_def proxy_ok_def answered_later_def)


lemma paint_inv:
  assumes "system_inv (da, px)" "px_paint ue rect (da_sent da) px = (painted, unpainted, q', px')"
  shows "system_inv (da\<lparr>da_sent := q'\<rparr>, px')"
proof -
  have acc: "\<not> isInAcceleratedCompositingMode px"
    using assms(1) by (simp add: system_inv_def proxy_ok_def isInAcceleratedCompositingMode_def)
  show ?thesis
  proof (cases "px_currentBackingStoreStateID px < px_nextBackingStoreStateID px")
    case False
    hence "q' = da_sent da" "px' = px \<or> px' = discardBackingStoreSoon px"
      using assms(2) acc by (auto simp: px_paint_def Let_def split: option.splits)
    thus ?thesis using assms(1) discard_soon_inv by auto
  next
    case True
    obtain q1 px1 where s: "sendUpdateBackingStoreState ue True (da_sent da) px = (q1, px1)" by fastforce
    obtain q2 px2 where w: "(if px_isWaitingForDidUpdateBackingStoreState px1
        then waitForAndDispatchDidUpdateBackingStoreState ue q1 px1 else (q1, px1)) = (q2, px2)" by fastforce
    note i1 = send_inv [OF assms(1) s]
    have i2: "system_inv (da\<lparr>da_sent := q2\<rparr>, px2)"
      using wait_inv [OF i1(2)] i1(1,2) w by (auto split: if_splits)
    have "(q', px') = (q1, px1) \<or> (q', px') = (q2, px2) \<or> (q', px') = (q2, discardBackingStoreSoon px2)"
      using assms(2) acc True s w by (auto simp: px_paint_def Let_def split: if_splits option.splits)
    thus ?thesis using i1(1,2) i2 discard_soon_inv by auto
  qed
qed

lemma step_inv:
  assumes "drawing_step env st st'" "page_env_ok env" "system_inv st"
  shows "system_inv st'"
  using assms
proof (induction rule: drawing_step.induct)
  case (page da da' px)
  thus ?case using web_alone_inv page_sends by blast
next
  case (timer da px)
  thus ?case using inv_ends web_alone_inv timer_sends by blast
next
  case (repaint da px)
  thus ?case using inv_ends web_alone_inv forceRepaint_sends by blast
next
  case (ui_resize s ue position offset da px q' px')
  show ?case
  proof (cases "px_size px = s \<and> px_layerPosition px = position \<and> size_isZero offset")
    case True
    hence "q' = da_sent da" "px' = px" using ui_resize(2) by (simp_all add: px_setSize_def)
    thus ?thesis using ui_resize.prems(2) by simp
  next
    case False
    let ?px = "px\<lparr>px_size := s, px_layerPosition := position, px_scrollOffset := size_add (px_scrollOffset px) offset\<rparr>"
    have "backingStoreStateDidChange ue True (da_sent da) ?px = (q', px')"
      using ui_resize(2) unfolding px_setSize_def if_not_P [OF False] sizeDidChange_def .
    thus ?thesis
      by (rule change_inv [OF ui_resize.prems(2), rotated 5]) (use ui_resize in \<open>simp_all add: system_inv_def proxy_ok_def\<close>)
  qed
next
  case (ui_discard px ue da q' px')
  show ?case
    by (rule change_inv [OF ui_discard.prems(2), rotated 5, OF ui_discard(2) [unfolded discardBackingStore_def]])
      (use ui_discard.prems in \<open>simp_all add: system_inv_def proxy_ok_def\<close>)
next
  case (ui_discardable da px b)
  have "system_inv (da, px\<lparr>px_isBackingStoreDiscardable := b\<rparr>)" "system_inv (da, px\<lparr>px_isBackingStoreDiscardable := b, px_discardBackingStoreTimer := False\<rparr>)"
    using ui_discardable(2) by (simp_all add: system_inv_def is_fresh_def store_size_def store_image_def proxy_ok_def answered_later_def)
  thus ?case using ui_discardable(2) by (auto simp: setBackingStoreIsDiscardable_def Let_def discard_soon_inv)
next
  case (ui_wait da px)
  thus ?case by (simp add: waitForBackingStoreUpdateOnNextPaint_def system_inv_def is_fresh_def store_size_def store_image_def
        proxy_ok_def answered_later_def)
qed (simp_all add: web_state_inv web_update_inv dispatch_inv paint_inv)

lemma start_inv:
  assumes "good_size s" "good_size viewSize"
  shows "system_inv (DrawingAreaImpl True False s content, DrawingAreaProxyImpl viewSize)"
proof -
  let ?da = "DrawingAreaImpl True False s content :: 'a drawing_area"
  have z: "can_move (IntSize 0 0) (IntRect 0 0 0 0)" "at_origin (IntRect 0 0 0 0)"
    by (simp_all add: can_move_def at_origin_def rect_ok_def IntRect_def IntSize_def small_0)
  have "rect_ok (wp_bounds ?da)"
    using assms(1) by (simp add: good_size_def wp_bounds_def rect_ok_def IntRect_def DrawingAreaImpl_def small_0)
  hence "area_ok (\<lambda>p. Some (content p)) ?da"
    using rg.none z no_pixels by (simp add: DrawingAreaImpl_def area_ok_def core_def settled_def geometry_def owed_def painting_def
        scheduled_def size_isZero_def) (simp add: IntSize_def)
  thus ?thesis
    using assms(2) by (auto simp: system_inv_def is_fresh_def DrawingAreaProxyImpl_def proxy_ok_def answered_later_def ends_def
        DrawingAreaImpl_def)
qed

lemma reachable_inv: "\<lbrakk>drawing_reachable env st; page_env_ok env\<rbrakk> \<Longrightarrow> system_inv st"
  by (induction rule: drawing_reachable.induct) (auto intro: start_inv step_inv)

subsection \<open>What the view paints\<close>


text \<open>A page of 3 by 2 pixels after a resize.\<close>

definition sample_env :: "int page_env" where
  "sample_env = \<lparr>env_layoutIfNeeded = (\<lambda>da. da), env_setSize = (\<lambda>s da. da\<lparr>wp_size := s\<rparr>),
     env_scrollMainFrame = (\<lambda>offset da. da), env_createBitmap = (\<lambda>s. True), env_layerTreeContext = 1\<rparr>"

definition sample_ui :: ui_env where
  "sample_ui = \<lparr>ue_isValid = True, ue_viewSize = IntSize 3 2, ue_useFixedLayout = False, ue_canScrollView = False,
     ue_isLaunching = False\<rparr>"

definition sample_proxy1 :: "int drawing_proxy" where
  "sample_proxy1 = snd (px_setSize sample_ui (IntSize 3 2) (IntSize 0 0) (IntSize 0 0) [] (DrawingAreaProxyImpl (IntSize 2 2)))"

definition sample_area1 :: "int drawing_area" where
  "sample_area1 = updateBackingStoreState sample_env 1 True (IntSize 3 2) (IntSize 0 0)
     (DrawingAreaImpl True False (IntSize 2 2) (\<lambda>p. fst p + snd p))"

definition sample_area2 :: "int drawing_area" where
  "sample_area2 = sample_area1\<lparr>da_sent := []\<rparr>"

definition sample_proxy2 :: "int drawing_proxy" where
  "sample_proxy2 = snd (px_dispatch sample_ui (hd (da_sent sample_area1)) [] (sample_proxy1\<lparr>px_sent := []\<rparr>))"

lemma sample_env_ok: "page_env_ok sample_env"
  by (auto simp: page_env_ok_def sample_env_def resized_def painting_def scroll_ok_def intro: page_acts.stays)

lemma sample_proxy1_fields:
  "px_setSize sample_ui (IntSize 3 2) (IntSize 0 0) (IntSize 0 0) [] (DrawingAreaProxyImpl (IntSize 2 2)) = ([], sample_proxy1)"
  "px_sent sample_proxy1 = [UpdateBackingStoreState 1 True (IntSize 3 2) (IntSize 0 0)]" "px_layerTreeContext sample_proxy1 = 0"
  "px_nextBackingStoreStateID sample_proxy1 = 1"
  by (simp_all add: sample_proxy1_def px_setSize_def sizeDidChange_def backingStoreStateDidChange_def sendUpdateBackingStoreState.simps
      sample_ui_def DrawingAreaProxyImpl_def px_send_def size_isZero_def size_isEmpty_def size_add_def IntSize_def Let_def)

lemma sample_area1_fields:
  "\<exists>info. da_sent sample_area1 = [DidUpdateBackingStoreState 1 info 0]" "\<not> da_displayTimer sample_area1"
  "wp_size sample_area1 = IntSize 3 2" "wp_content sample_area1 = (\<lambda>p. fst p + snd p)"
  by (simp_all add: sample_area1_def updateBackingStoreState_def sendDidUpdateBackingStoreState_def display_update_def
      sample_env_def DrawingAreaImpl_def da_send_def Let_def)

lemma sample_proxy2_fields:
  "px_dispatch sample_ui (hd (da_sent sample_area1)) [] (sample_proxy1\<lparr>px_sent := []\<rparr>) = ([], sample_proxy2)"
  "px_sent sample_proxy2 = []" "px_currentBackingStoreStateID sample_proxy2 = 1" "px_nextBackingStoreStateID sample_proxy2 = 1"
proof -
  obtain info where i: "da_sent sample_area1 = [DidUpdateBackingStoreState 1 info 0]" using sample_area1_fields(1) by blast
  show "px_dispatch sample_ui (hd (da_sent sample_area1)) [] (sample_proxy1\<lparr>px_sent := []\<rparr>) = ([], sample_proxy2)"
    "px_sent sample_proxy2 = []" "px_currentBackingStoreStateID sample_proxy2 = 1" "px_nextBackingStoreStateID sample_proxy2 = 1"
    unfolding sample_proxy2_def i using sample_proxy1_fields(3,4)
    by (simp_all add: px_dispatch_def px_didUpdateBackingStoreState.simps isInAcceleratedCompositingMode_def Let_def
        incorporate_same split: option.split)
qed

lemma sample_reachable: "drawing_reachable sample_env (sample_area2, sample_proxy2)"
proof -
  let ?da = "DrawingAreaImpl True False (IntSize 2 2) (\<lambda>p. fst p + snd p) :: int drawing_area"
  have g: "good_size (IntSize 2 2)" "good_size (IntSize 3 2)" by (simp_all add: good_size_def IntSize_def small_def)
  have q: "da_sent ?da = []" "?da\<lparr>da_sent := []\<rparr> = ?da" by (simp_all add: DrawingAreaImpl_def)
  have "drawing_reachable sample_env (?da, DrawingAreaProxyImpl (IntSize 2 2))" by (rule drawing_reachable.start [OF g(1) g(1)])
  moreover have "drawing_step sample_env (?da, DrawingAreaProxyImpl (IntSize 2 2)) (?da, sample_proxy1)"
    using ui_resize [OF g(2), of sample_ui "IntSize 0 0" "IntSize 0 0" ?da "DrawingAreaProxyImpl (IntSize 2 2)"] sample_proxy1_fields(1) q by simp
  moreover have "drawing_step sample_env (?da, sample_proxy1) (sample_area1, sample_proxy1\<lparr>px_sent := []\<rparr>)"
    unfolding sample_area1_def by (rule web_state [OF sample_proxy1_fields(2)])
  moreover have "drawing_step sample_env (sample_area1, sample_proxy1\<lparr>px_sent := []\<rparr>) (sample_area2, sample_proxy2)"
    unfolding sample_area2_def using sample_area1_fields(1) sample_proxy2_fields(1) by (auto intro: ui_message)
  ultimately show ?thesis by (blast intro: drawing_reachable.step)
qed


end
