(* ===== verification/Spec2Isabelle.thy ===== *)
theory Spec2Isabelle
  imports Browser NetRider_Bookmarks NetRider_Prefs NetRider_Keys NetRider_Downloads Web_Back_Forward_List
    WebCore_Back_Forward_List Web_Page_Proxy Visited_Links Base64 UTF8
    IPC_Connection IPC_Unix Visited_Colouring Region_Coder IPC_Types Drawing_System
begin

text \<open>
  NetRider is a small web browser: a shell in FLTK (\<^verbatim>\<open>src/Tools/netrider\<close>) on WebKit2
  (\<^verbatim>\<open>src/Source/WebKit2\<close>), which runs the engine (\<^verbatim>\<open>src/Source/WebCore\<close>, on the
  library \<^verbatim>\<open>src/Source/WTF\<close>) in a separate web process.  This development models the code
  that is the browser's own logic on that path, from a key press in the shell to the bytes on the
  socket between the processes, and proves what makes each part correct.

  \<^bold>\<open>How the parts interact.\<close>  The shell keeps tabs, a history table, bookmarks, settings and
  downloads, and calls the C interface of WebKit2.  For each tab the UI process has a page proxy
  with the load state the shell can read, the frames, and the back/forward list.  The page proxy
  sends messages to the web process and is driven by the messages that come back.  Messages are
  encoded arguments behind a header, put on a connection that queues, dispatches and answers them,
  and on a Unix socket in packets.  Beside this path, the UI process shares the table of visited
  links with the web processes, which colour the links of their pages by it, WebCore has a
  back/forward list of its own, both rely on the text codecs of WTF, and what has to be painted is
  described by regions, which the web process collects, paints and sends to the backing store of
  the UI process.

  \<^bold>\<open>Theories.\<close>
  \<^item> \<open>Prelude\<close>: machine integers with their wrap-around, checked vectors, shared list lemmas.
  \<^item> \<open>C_Strings\<close>: the C library as the shell uses it; every undefined behaviour is an error value.
  \<^item> \<open>NetRider_State\<close>, \<open>NetRider_Bookmarks\<close>, \<open>NetRider_Tabs\<close>, \<open>NetRider_Downloads\<close>,
    \<open>NetRider_Prefs\<close>, \<open>NetRider_Keys\<close>: \<^verbatim>\<open>netrider.cpp\<close> and \<^verbatim>\<open>netrider.h\<close>.
    The record \<open>gui\<close> is the class \<^verbatim>\<open>GUI\<close> with its fixed-size tables, \<open>html_browser\<close> a tab;
    a callback \<^verbatim>\<open>cb_x\<close> is the function \<open>cb_x\<close> from state to state or error, and the calls of the
    C interface are recorded in \<open>wk_calls\<close>.  Shown: the address check, the history table and the
    bookmark list (sorting, editing, deleting), the round trip of the settings, the policy for
    responses, the Enter key, the tab limit, the download counter, and where the code writes
    outside its buffers.
  \<^item> \<open>Browser\<close>: the navigation part of \<^verbatim>\<open>UIProcess/API/C/WKPage.cpp\<close>, and the shell and the page
    proxies together: what a typed address and the back button do to the page.
  \<^item> \<open>History_Spec\<close>: the contract of a session history as the locale \<open>session_history\<close> over
    zippers; \<open>Web_Back_Forward_List\<close> (\<^verbatim>\<open>UIProcess/WebBackForwardList.cpp\<close>) and
    \<open>WebCore_Back_Forward_List\<close> (\<^verbatim>\<open>history/BackForwardList.cpp\<close>,
    \<^verbatim>\<open>BackForwardController.cpp\<close>) interpret it.  Shown: no list operation crashes in a reachable
    state, adding refines visiting, back and forward are inverse, the hash set agrees with the list.
  \<^item> \<open>Page_Load_State\<close> (\<^verbatim>\<open>UIProcess/PageLoadState.cpp\<close>) and \<open>Web_Page_Proxy\<close>
    (\<^verbatim>\<open>WebPageProxy.cpp\<close>, \<^verbatim>\<open>WebFrameProxy.cpp\<close>, \<^verbatim>\<open>FrameLoadState.cpp\<close>): transactions that
    publish the state and notify observers, the handlers of the load messages, and navigation.
    Shown: closed transactions publish everything, the page mirrors its main frame in every
    reachable state, the life cycle of a load, and the state a terminated process leaves behind.
  \<^item> \<open>Visited_Links\<close> (\<^verbatim>\<open>Shared/VisitedLinkTable.cpp\<close>, \<^verbatim>\<open>UIProcess/VisitedLinkProvider.cpp\<close>):
    the open-addressing table implements a set (locale \<open>bounded_set\<close>), a lookup ends exactly if
    there is an empty bucket or the link, and the timer publishes every link.
  \<^item> \<open>String_Hash\<close> (\<^verbatim>\<open>wtf/StringHasher.h\<close>), \<open>Link_Hash\<close> (\<^verbatim>\<open>platform/LinkHash.cpp\<close>) and
    \<open>Visited_Colouring\<close> (\<^verbatim>\<open>dom/VisitedLinkState.cpp\<close>, \<^verbatim>\<open>WebProcess/WebProcess.cpp\<close>, \<^verbatim>\<open>UIProcess/WebContext.cpp\<close>):
    from the text of a link to its colour.  Shown: the hash does not depend on how the text arrives,
    the in-place loops resolve a link as a specification by path segments says, and the messages
    about visited links leave every link of every page in the right colour.
  \<^item> \<open>Int_Rect\<close> (\<^verbatim>\<open>graphics/IntRect.cpp\<close>), \<open>Region_Shape\<close>, \<open>Region_Compare\<close>, \<open>Region\<close>, \<open>Region_Queries\<close>
    (\<^verbatim>\<open>graphics/Region.cpp\<close>): a region is two vectors, of spans and of segments.  The locale
    \<open>pixel_regions\<close> is the contract of a type of finite sets of pixels; its interpretation on the
    scan-line code shows that the operations are those of sets and that the queries decide them.
    \<open>Region_Coder\<close> (\<^verbatim>\<open>Shared/WebCoreArgumentCoders.cpp\<close>): regions in messages.
  \<^item> \<open>Drawing_Area\<close> (\<^verbatim>\<open>WebProcess/WebPage/DrawingAreaImpl.cpp\<close>) and \<open>Drawing_Proxy\<close>
    (\<^verbatim>\<open>UIProcess/DrawingAreaProxyImpl.cpp\<close>, \<^verbatim>\<open>BackingStore.cpp\<close>, \<^verbatim>\<open>WidgetBackingStoreCairo.cpp\<close>): the two ends of
    drawing without coordinated graphics.  The records \<open>drawing_area\<close> and \<open>drawing_proxy\<close> are their members, the
    messages sent and not handled are the queues between them, and a wait that takes a message out of
    its order takes it out of the queue.  \<open>Drawing_Damage\<close>, \<open>Drawing_Update\<close>, \<open>Drawing_Page\<close> and
    \<open>Drawing_Protocol\<close> show that what the screen will show, with what is still to be painted and
    scrolled, is the page; \<open>Drawing_System\<close> is the step relation of the two processes, and its theorem says
    that the view paints the page whenever nothing is left to do.
  \<^item> \<open>Base64\<close> (\<^verbatim>\<open>wtf/text/Base64.cpp\<close>, locale \<open>base64_alphabet\<close>) and \<open>UTF8\<close>
    (\<^verbatim>\<open>wtf/unicode/UTF8.cpp\<close>): round trips, and the loops equal reference definitions.
  \<^item> \<open>IPC_Arguments\<close> (\<^verbatim>\<open>Platform/IPC/ArgumentEncoder.cpp\<close>, \<^verbatim>\<open>ArgumentDecoder.cpp\<close>,
    \<^verbatim>\<open>ArgumentCoders.cpp\<close>): the buffers with alignment, growth and 64-bit addresses, and one
    encoder and decoder per type.  The locale \<open>coder\<close> is the contract of such a pair; its
    interpretations are the coders of the basic types, and its lemmas give those of vectors, pairs
    and maps.
  \<^item> \<open>IPC_Messages\<close>: the types of arguments as a datatype, so that the round trip and the safety of
    decoding arbitrary bytes (locale \<open>reader\<close>) are one theorem each for all of them.
    \<open>IPC_Types\<close>: what decoding returns has the type that was asked for.
  \<^item> \<open>IPC_Header\<close> (\<^verbatim>\<open>MessageEncoder.cpp\<close>, \<^verbatim>\<open>MessageDecoder.cpp\<close>,
    \<^verbatim>\<open>MessageReceiverMap.cpp\<close>): messages arrive as they were sent.
  \<^item> \<open>IPC_Connection\<close> (\<^verbatim>\<open>Connection.cpp\<close>): critical sections are atomic steps, threads interleave
    as a step relation, and the client is a parameter.  Shown: no message is forgotten, replies
    reach their requests, closing ends the waits, and two races.
  \<^item> \<open>IPC_Unix\<close> (\<^verbatim>\<open>unix/ConnectionUnix.cpp\<close>): packets with their descriptors and shared memory.

  \<^bold>\<open>Parameters.\<close>  FLTK is not part of the repository: its list widget and its preference store are
  arguments with the laws \<open>fl_browser_laws\<close> and \<open>fl_prefs_laws\<close>, which concrete stores satisfy.
  So are the clients' callbacks, translations and number formats, allocation, shared memory
  (\<open>shared_memory\<close>), and the contents of memory that was not written.  Layout, resizing and scrolling
  of the page are arguments of the drawing area; \<open>page_env_ok\<close> says that layout reports what it changes
  and that bitmaps can be allocated.  Coordinates are \<open>small\<close> in theorems about regions and drawing: below
  $2^{30}$, so that differences do not overflow.

  \<^bold>\<open>Loops.\<close>  Loops are structural recursions or have a termination proof.  The probe loop of the
  visited-link table has no bound of its own: it is a partial function, and that it returns is part
  of the theorems about it.  A thread that waits consumes a list of wake-ups, each with what the
  other threads did meanwhile; when the list is used up the result is \<open>Waiting\<close>.

  \<^bold>\<open>Not modelled.\<close>  Of the shell: drawing, printing, scroll bars, the mouse, and the FTP listing
  that nothing calls.  Of drawing: device scale factors other than 1, hidden pages and the layer tree of composited
  pages, whose switching is modelled but not part of the theorem.  Of WebKit2: everything the shell does not use (plug-ins, inspector, other
  platforms), the closing of descriptors, and code the build generates for each message.  Of
  WebCore, JavaScriptCore and WTF: the engine itself (DOM, CSS, layout, scripts, loading), which is
  on the other side of the messages.  Callbacks that re-enter the page proxy are not modelled.
\<close>

end
